(* ===== verification/Prelude.thy ===== *)
theory Prelude
  imports Main "HOL-Library.Word"
begin

text \<open>
  Shared vocabulary of the development: how a kernel routine stops (it returns, it panics, it
  performs an access that C leaves undefined, or it goes to sleep), the bind that sequences
  routines, the search loop that most tables of the kernel are scanned with, and the little-endian
  view of a byte array as \<open>uint\<close> and \<open>ushort\<close> cells that the file system uses for its blocks.
\<close>

unbundle bit_operations_syntax

named_theorems kernel_simps \<open>normal-path equations of kernel routines\<close>
named_theorems frame_simps \<open>parts of the state that a routine leaves alone\<close>

section \<open>How a routine stops\<close>

text \<open>
  \<open>chan\<close> is the address a process sleeps on (\<open>void *chan\<close>): a process table slot, an in-memory
  inode's sleep lock, one of the two ends of a pipe, the log, the tick counter, a buffer's sleep lock,
  a buffer that waits for the disk, or the input of the console.
\<close>

datatype chan = ChanProc nat | ChanInode nat | ChanPipeRead nat | ChanPipeWrite nat
  | ChanLog | ChanTicks | ChanBuf nat | ChanDisk nat | ChanInput

text \<open>
  \<open>Panic\<close> is a call of \<open>panic\<close>, \<open>Fault\<close> an access through a null pointer or outside an array,
  and \<open>Sleeps c\<close> the point where the routine calls \<open>sleep(c, ...)\<close> and another process runs.
\<close>

datatype stop = Panic string | Fault string | Sleeps chan

datatype 'a result = Ok 'a | Err stop

primrec rbind :: "'a result \<Rightarrow> ('a \<Rightarrow> 'b result) \<Rightarrow> 'b result" where
  "rbind (Ok x) f = f x"
| "rbind (Err e) f = Err e"

text \<open>
  Routines that sleep in the middle and are continued later return \<open>Blocked\<close> with what is left to
  do; the state they leave is the one the other processes run in.
\<close>

datatype ('r, 'c) run = Done 'r | Blocked 'c

lemma rbind_assoc [simp]: "rbind (rbind m f) g = rbind m (\<lambda>x. rbind (f x) g)"
  by (cases m) auto

lemma rbind_Ok_right [simp]: "rbind m Ok = m"
  by (cases m) auto

lemma rbind_eq_Ok_iff: "rbind m f = Ok y \<longleftrightarrow> (\<exists>x. m = Ok x \<and> f x = Ok y)"
  by (cases m) auto

lemma rbind_OkE [elim!]:
  assumes "rbind m f = Ok y"
  obtains x where "m = Ok x" and "f x = Ok y"
  using assms by (auto simp: rbind_eq_Ok_iff)

lemma rbind_if [simp]:
  "rbind (if c then m else n) f = (if c then rbind m f else rbind n f)"
  by simp

text \<open>A routine that is run on every element of a list, as a \<open>for\<close> loop over a table does.\<close>

fun rfold :: "('a \<Rightarrow> 's \<Rightarrow> 's result) \<Rightarrow> 'a list \<Rightarrow> 's \<Rightarrow> 's result" where
  "rfold f [] s = Ok s"
| "rfold f (x # xs) s = rbind (f x s) (rfold f xs)"

lemma rfold_append: "rfold f (xs @ ys) s = rbind (rfold f xs s) (rfold f ys)"
proof (induction xs arbitrary: s)
  case (Cons x xs)
  then show ?case by (cases "f x s") auto
qed simp

text \<open>An invariant of the body is an invariant of the loop, and the loop returns.\<close>

lemma rfold_inv:
  assumes "\<And>x s. x \<in> set xs \<Longrightarrow> I s \<Longrightarrow> \<exists>s'. f x s = Ok s' \<and> I s'" and "I s"
  shows "\<exists>s'. rfold f xs s = Ok s' \<and> I s'"
  using assms
proof (induction xs arbitrary: s)
  case Nil
  then show ?case by simp
next
  case (Cons x xs)
  obtain s1 where s1: "f x s = Ok s1" "I s1" using Cons.prems by (meson list.set_intros(1))
  have "\<exists>s'. rfold f xs s1 = Ok s' \<and> I s'"
    by (rule Cons.IH) (use Cons.prems(1) s1(2) in auto)
  then show ?case using s1(1) by simp
qed

text \<open>What the body leaves alone, the loop leaves alone.\<close>

lemma rfold_keeps:
  assumes "\<And>x s s'. f x s = Ok s' \<Longrightarrow> h s' = h s"
  shows "rfold f xs s = Ok s' \<Longrightarrow> h s' = h s"
  by (induction xs arbitrary: s) (auto dest: assms)

text \<open>The same with an invariant that counts the iterations.\<close>

lemma rfold_upt:
  assumes "\<And>j s. j < n \<Longrightarrow> I j s \<Longrightarrow> \<exists>s'. f j s = Ok s' \<and> I (Suc j) s'" and "I 0 s"
  shows "\<exists>s'. rfold f [0..<n] s = Ok s' \<and> I n s'"
  using assms
proof (induction n)
  case (Suc n)
  then obtain s1 where "rfold f [0..<n] s = Ok s1" "I n s1" by auto
  moreover obtain s2 where "f n s1 = Ok s2" "I (Suc n) s2" using Suc.prems(1) calculation(2) by blast
  ultimately show ?case by (auto simp: rfold_append)
qed simp

section \<open>Searching a table\<close>

text \<open>\<open>for (i = lo; i < hi; i++) if (P(i)) goto found;\<close>: the first index that satisfies \<open>P\<close>.\<close>

function search :: "(nat \<Rightarrow> bool) \<Rightarrow> nat \<Rightarrow> nat \<Rightarrow> nat option" where
  "search P lo hi = (if lo < hi then if P lo then Some lo else search P (Suc lo) hi else None)"
  by pat_completeness auto
termination by (relation "measure (\<lambda>(P, lo, hi). hi - lo)") auto

declare search.simps [simp del]

lemma search_Some:
  "search P lo hi = Some i \<longleftrightarrow> lo \<le> i \<and> i < hi \<and> P i \<and> (\<forall>j. lo \<le> j \<longrightarrow> j < i \<longrightarrow> \<not> P j)"
proof (induction P lo hi rule: search.induct)
  case (1 P lo hi)
  show ?case
  proof (cases "lo < hi \<and> \<not> P lo")
    case True
    then have "search P lo hi = search P (Suc lo) hi" by (simp add: search.simps [of P lo hi])
    with 1 True show ?thesis
      by (metis Suc_leD Suc_le_eq le_neq_implies_less)
  next
    case False
    then show ?thesis
      by (cases "lo < hi") (auto simp: search.simps [of P lo hi] le_less)
  qed
qed

lemma search_None: "search P lo hi = None \<longleftrightarrow> (\<forall>j. lo \<le> j \<longrightarrow> j < hi \<longrightarrow> \<not> P j)"
proof (induction P lo hi rule: search.induct)
  case (1 P lo hi)
  show ?case
  proof (cases "lo < hi \<and> \<not> P lo")
    case True
    then have "search P lo hi = search P (Suc lo) hi" by (simp add: search.simps [of P lo hi])
    with 1 True show ?thesis by (metis Suc_leD Suc_le_eq le_neq_implies_less)
  next
    case False
    then show ?thesis by (cases "lo < hi") (auto simp: search.simps [of P lo hi])
  qed
qed

lemma search_hit: "P lo \<Longrightarrow> lo < hi \<Longrightarrow> search P lo hi = Some lo"
  by (simp add: search.simps)

lemma search_SomeD:
  assumes "search P lo hi = Some i"
  shows "lo \<le> i" "i < hi" "P i"
  using assms by (auto simp: search_Some)

lemma search_cong:
  assumes "\<And>i. lo \<le> i \<Longrightarrow> i < hi \<Longrightarrow> P i = Q i"
  shows "search P lo hi = search Q lo hi"
proof (cases "search Q lo hi")
  case None
  then have "search P lo hi = None" using assms by (simp add: search_None)
  then show ?thesis using None by simp
next
  case (Some i)
  then have "search P lo hi = Some i" using assms by (auto simp: search_Some)
  then show ?thesis using Some by simp
qed

lemma search_exists: "lo \<le> j \<Longrightarrow> j < hi \<Longrightarrow> P j \<Longrightarrow> \<exists>i. search P lo hi = Some i"
  by (metis not_None_eq search_None)

section \<open>Bytes\<close>

type_synonym uchar = "8 word"

text \<open>\<open>blit d o src\<close> is the effect of \<open>memmove(d + o, src, length src)\<close> on the array \<open>d\<close>.\<close>

definition blit :: "'a list \<Rightarrow> nat \<Rightarrow> 'a list \<Rightarrow> 'a list" where
  "blit d off src = take off d @ src @ drop (off + length src) d"

lemma length_blit [simp]: "off + length src \<le> length d \<Longrightarrow> length (blit d off src) = length d"
  by (simp add: blit_def)

lemma nth_blit:
  assumes "off + length src \<le> length d"
  shows "blit d off src ! i
    = (if off \<le> i \<and> i < off + length src then src ! (i - off) else d ! i)"
  using assms by (auto simp: blit_def nth_append)

lemma blit_Nil [simp]: "blit d off [] = d"
  by (simp add: blit_def)

text \<open>The bytes at \<open>off .. off + n\<close> of an array.\<close>

definition slice :: "'a list \<Rightarrow> nat \<Rightarrow> nat \<Rightarrow> 'a list" where
  "slice d off n = take n (drop off d)"

lemma length_slice [simp]: "off + n \<le> length d \<Longrightarrow> length (slice d off n) = n"
  by (simp add: slice_def)

lemma nth_slice: "off + n \<le> length d \<Longrightarrow> i < n \<Longrightarrow> slice d off n ! i = d ! (off + i)"
  by (simp add: slice_def)

lemma slice_blit_same: "off + length src \<le> length d \<Longrightarrow> slice (blit d off src) off (length src) = src"
  by (simp add: slice_def blit_def)

lemma slice_blit_other:
  assumes "off + length src \<le> length d" "o2 + n \<le> length d" "o2 + n \<le> off \<or> off + length src \<le> o2"
  shows "slice (blit d off src) o2 n = slice d o2 n"
  by (rule nth_equalityI) (use assms in \<open>auto simp: nth_slice nth_blit\<close>)

text \<open>
  The x86 stores integers with the low byte first. \<open>le_bytes k v\<close> are the \<open>k\<close> bytes of \<open>v\<close> and
  \<open>le_val\<close> reads them back; a \<open>uint\<close> occupies four bytes, a \<open>short\<close> two.
\<close>

fun le_bytes :: "nat \<Rightarrow> nat \<Rightarrow> uchar list" where
  "le_bytes 0 v = []"
| "le_bytes (Suc k) v = word_of_nat v # le_bytes k (v div 256)"

fun le_val :: "uchar list \<Rightarrow> nat" where
  "le_val [] = 0"
| "le_val (b # bs) = unat b + 256 * le_val bs"

lemma length_le_bytes [simp]: "length (le_bytes k v) = k"
  by (induction k arbitrary: v) auto

lemma unat_uchar_of_nat: "unat (word_of_nat v :: uchar) = v mod 256"
  by (simp add: unsigned_of_nat take_bit_eq_mod)

lemma le_val_bytes: "le_val (le_bytes k v) = v mod 256 ^ k"
proof (induction k arbitrary: v)
  case 0
  then show ?case by simp
next
  case (Suc k)
  then show ?case by (simp add: unat_uchar_of_nat mod_mult2_eq)
qed

lemma le_val_bound: "le_val bs < 256 ^ length bs"
proof (induction bs)
  case Nil
  then show ?case by simp
next
  case (Cons b bs)
  have "unat b < 256" using unsigned_less [of b] by simp
  moreover have "le_val bs + 1 \<le> 256 ^ length bs" using Cons by simp
  then have "256 * (le_val bs + 1) \<le> 256 * 256 ^ length bs" by (rule mult_le_mono2)
  ultimately have "unat b + 256 * le_val bs < 256 * 256 ^ length bs" by (simp add: distrib_left)
  then show ?case by simp
qed

definition get_u32 :: "uchar list \<Rightarrow> nat \<Rightarrow> nat" where
  "get_u32 d off = le_val (slice d off 4)"

definition put_u32 :: "uchar list \<Rightarrow> nat \<Rightarrow> nat \<Rightarrow> uchar list" where
  "put_u32 d off v = blit d off (le_bytes 4 v)"

definition get_u16 :: "uchar list \<Rightarrow> nat \<Rightarrow> nat" where
  "get_u16 d off = le_val (slice d off 2)"

definition put_u16 :: "uchar list \<Rightarrow> nat \<Rightarrow> nat \<Rightarrow> uchar list" where
  "put_u16 d off v = blit d off (le_bytes 2 v)"

lemma length_put_u32 [simp]: "off + 4 \<le> length d \<Longrightarrow> length (put_u32 d off v) = length d"
  by (simp add: put_u32_def)

lemma length_put_u16 [simp]: "off + 2 \<le> length d \<Longrightarrow> length (put_u16 d off v) = length d"
  by (simp add: put_u16_def)

lemma get_put_u32_same: "off + 4 \<le> length d \<Longrightarrow> v < 2 ^ 32 \<Longrightarrow> get_u32 (put_u32 d off v) off = v"
  using slice_blit_same [of off "le_bytes 4 v" d]
  by (simp add: get_u32_def put_u32_def le_val_bytes)

lemma get_put_u32_other:
  "off + 4 \<le> length d \<Longrightarrow> o2 + 4 \<le> length d \<Longrightarrow> o2 + 4 \<le> off \<or> off + 4 \<le> o2 \<Longrightarrow>
   get_u32 (put_u32 d off v) o2 = get_u32 d o2"
  by (simp add: get_u32_def put_u32_def slice_blit_other)

lemma get_u32_bound: "get_u32 d off < 2 ^ 32"
proof -
  have "length (slice d off 4) \<le> 4" by (simp add: slice_def)
  then have "(256::nat) ^ length (slice d off 4) \<le> 256 ^ 4" by (intro power_increasing) auto
  with le_val_bound [of "slice d off 4"] show ?thesis by (simp add: get_u32_def)
qed

text \<open>The array view \<open>a = (uint*)data\<close>: cell \<open>i\<close> starts at byte \<open>4 * i\<close>.\<close>

abbreviation get_cell :: "uchar list \<Rightarrow> nat \<Rightarrow> nat" where
  "get_cell d i \<equiv> get_u32 d (4 * i)"

abbreviation put_cell :: "uchar list \<Rightarrow> nat \<Rightarrow> nat \<Rightarrow> uchar list" where
  "put_cell d i v \<equiv> put_u32 d (4 * i) v"

lemma get_put_cell:
  assumes "4 * i + 4 \<le> length d" "4 * j + 4 \<le> length d" "v < 2 ^ 32"
  shows "get_cell (put_cell d i v) j = (if i = j then v else get_cell d j)"
proof (cases "i = j")
  case True
  with assms show ?thesis by (simp add: get_put_u32_same)
next
  case False
  then have "4 * j + 4 \<le> 4 * i \<or> 4 * i + 4 \<le> 4 * j" by arith
  with assms False show ?thesis by (simp add: get_put_u32_other)
qed

lemma le_val_replicate_0 [simp]: "le_val (replicate n 0) = 0"
  by (induction n) auto

lemma get_u32_zeros: "off + 4 \<le> n \<Longrightarrow> get_u32 (replicate n 0) off = 0"
  by (simp add: get_u32_def slice_def min_def)

section \<open>C integers\<close>

text \<open>
  A \<open>uint\<close> is a natural number below \<open>2 ^ 32\<close>; \<open>u32\<close> is the wrap-around of its arithmetic.
  \<open>of_short\<close> reads the 16 stored bits of a \<open>short\<close> as a signed number.
\<close>

definition u32 :: "nat \<Rightarrow> nat" where
  "u32 x = x mod 2 ^ 32"

lemma u32_small [simp]: "x < 2 ^ 32 \<Longrightarrow> u32 x = x"
  by (simp add: u32_def)

lemma u32_bound [simp]: "u32 x < 2 ^ 32"
  by (simp add: u32_def)

definition of_short :: "nat \<Rightarrow> int" where
  "of_short v = (if v < 2 ^ 15 then int v else int v - 2 ^ 16)"

definition to_short :: "int \<Rightarrow> nat" where
  "to_short i = nat (i mod 2 ^ 16)"

lemma of_to_short: "- (2 ^ 15) \<le> i \<Longrightarrow> i < 2 ^ 15 \<Longrightarrow> of_short (to_short i) = i"
proof (cases "0 \<le> i")
  case True
  assume "i < 2 ^ 15"
  with True show ?thesis by (simp add: of_short_def to_short_def)
next
  case False
  assume a: "- (2 ^ 15) \<le> i"
  from False a have "(i + 65536) mod 65536 = i + 65536" by (intro mod_pos_pos_trivial) auto
  then have "i mod 65536 = i + 65536" by (simp only: mod_add_self2)
  with False a show ?thesis by (simp add: of_short_def to_short_def)
qed

section \<open>Optional pointers in arrays\<close>

text \<open>\<open>remove_nth\<close> is the effect of the shift loops that close a gap in an array of pointers.\<close>

definition remove_nth :: "nat \<Rightarrow> 'a list \<Rightarrow> 'a list" where
  "remove_nth i xs = take i xs @ drop (Suc i) xs"

lemma length_remove_nth [simp]: "i < length xs \<Longrightarrow> length (remove_nth i xs) = length xs - 1"
  by (simp add: remove_nth_def)

section \<open>Signed arithmetic\<close>

text \<open>The result of a signed 32-bit operation; overflow is undefined.\<close>

definition int32 :: "int \<Rightarrow> int result" where
  "int32 x = (if -(2 ^ 31) \<le> x \<and> x < 2 ^ 31 then Ok x else Err (Fault ''overflow''))"

lemma int32_ok [simp]: "-(2 ^ 31) \<le> x \<Longrightarrow> x < 2 ^ 31 \<Longrightarrow> int32 x = Ok x"
  by (simp add: int32_def)

lemma int32_Ok: "int32 x = Ok y \<longleftrightarrow> y = x \<and> -(2 ^ 31) \<le> x \<and> x < 2 ^ 31"
  by (auto simp: int32_def)

section \<open>Searching a list\<close>

lemma find_unique:
  assumes "x \<in> set xs" "P x" and u: "\<And>y. y \<in> set xs \<Longrightarrow> P y \<Longrightarrow> y = x"
  shows "find P xs = Some x"
proof -
  obtain y where y: "find P xs = Some y" using assms(1,2) by (metis find_None_iff option.exhaust)
  then have "y \<in> set xs" "P y" by (auto simp: find_Some_iff)
  then show ?thesis using y u by blast
qed

end
