(* ===== verification/Ptable.thy ===== *)
theory Ptable
  imports Prelude
begin

text \<open>
  The process table of proj_FileSystem/xv6-public (proc.h, proc.c): \<open>struct proc\<close> with its
  scheduling and thread fields, \<open>struct mlfq\<close>, the global \<open>ptable\<close>, and the spin locks a CPU
  holds. A \<open>struct proc *\<close> is the index of its slot in \<open>ptable.proc\<close>, \<open>None\<close> where the pointer
  is null; pointers to files, inodes and pages are the index or the address of what they point to.
\<close>

section \<open>Types\<close>

datatype procstate = UNUSED | EMBRYO | SLEEPING | RUNNABLE | RUNNING | ZOMBIE

abbreviation (input) NPROC :: nat where "NPROC \<equiv> 64"
abbreviation (input) NOFILE :: nat where "NOFILE \<equiv> 16"

record trapframe =
  tf_edi :: nat
  tf_esi :: nat
  tf_ebp :: nat
  tf_ebx :: nat
  tf_edx :: nat
  tf_ecx :: nat
  tf_eax :: nat
  tf_gs :: nat
  tf_fs :: nat
  tf_es :: nat
  tf_ds :: nat
  tf_trapno :: nat
  tf_err :: nat
  tf_eip :: nat
  tf_cs :: nat
  tf_eflags :: nat
  tf_esp :: nat
  tf_ss :: nat

record proc =
  p_sz :: nat
  p_pgdir :: "nat option"
  p_kstack :: "nat option"
  p_state :: procstate
  p_pid :: int
  p_parent :: "nat option"
  p_tf :: trapframe
  p_context :: "nat option"
  p_chan :: "chan option"
  p_killed :: bool
  p_ofile :: "nat option list"
  p_cwd :: "nat option"
  p_name :: "uchar list"
  p_ticks :: int
  p_curticks :: int
  p_priority :: int
  p_timequantum :: int
  p_timeallotment :: int
  p_percentage :: int
  p_pass :: int
  p_inqueue :: bool
  p_tid :: int
  p_mthread :: "nat option"
  p_cthread :: "nat option list"
  p_ret :: "nat list"
  p_ustack :: "nat list"
  p_rrlast :: int

record mlfq =
  m_queue :: "nat option list list"
  m_index :: "int list"
  m_percentage :: int
  m_pass :: int

record ptable =
  pt_proc :: "proc list"
  pt_mlfq :: mlfq
  pt_minpass :: int

text \<open>The spin locks of the kernel, named by the variable that holds them.\<close>

datatype lockid = PtableLock | IcacheLock | FtableLock | LogLock | KmemLock | PipeLock nat
  | TicksLock | BcacheLock | IdeLock | ConsLock | SleepLk chan

text \<open>
  The part of the kernel's state that every component can reach: the spin locks held by the running
  CPU (most recent first; their number is \<open>mycpu()->ncli\<close>), the process it runs (\<open>c->proc\<close>) and
  the process table. The states of the other components extend this record.
\<close>

record kst =
  held :: "lockid list"
  curproc :: "nat option"
  pt :: ptable

section \<open>Access to the table\<close>

abbreviation procs :: "ptable \<Rightarrow> nat \<Rightarrow> proc" where
  "procs t p \<equiv> pt_proc t ! p"

definition upd_proc :: "nat \<Rightarrow> (proc \<Rightarrow> proc) \<Rightarrow> ptable \<Rightarrow> ptable" where
  "upd_proc p f t = t\<lparr>pt_proc := (pt_proc t)[p := f (procs t p)]\<rparr>"

lemma upd_proc_simps [simp]:
  "pt_mlfq (upd_proc p f t) = pt_mlfq t"
  "pt_minpass (upd_proc p f t) = pt_minpass t"
  "length (pt_proc (upd_proc p f t)) = length (pt_proc t)"
  by (simp_all add: upd_proc_def)

lemma procs_upd_proc:
  "p < length (pt_proc t) \<Longrightarrow> procs (upd_proc p f t) q = (if q = p then f (procs t p) else procs t q)"
  by (simp add: upd_proc_def)

lemma procs_upd_proc_same [simp]:
  "p < length (pt_proc t) \<Longrightarrow> procs (upd_proc p f t) p = f (procs t p)"
  by (simp add: upd_proc_def)

lemma procs_upd_proc_other [simp]: "q \<noteq> p \<Longrightarrow> procs (upd_proc p f t) q = procs t q"
  by (simp add: upd_proc_def)

section \<open>Spin locks\<close>

text \<open>
  \<open>acquire\<close> panics when this CPU already holds the lock and \<open>release\<close> when it does not
  (spinlock.c). What another CPU does between the two is outside these definitions: a critical
  section is one step of the model.
\<close>

definition acquire :: "lockid \<Rightarrow> 'a kst_scheme \<Rightarrow> 'a kst_scheme result" where
  "acquire l s = (if l \<in> set (held s) then Err (Panic ''acquire'')
     else Ok (s\<lparr>held := l # held s\<rparr>))"

definition release :: "lockid \<Rightarrow> 'a kst_scheme \<Rightarrow> 'a kst_scheme result" where
  "release l s = (if l \<in> set (held s) then Ok (s\<lparr>held := remove1 l (held s)\<rparr>)
     else Err (Panic ''release''))"

lemma acquire_free [kernel_simps]:
  "l \<notin> set (held s) \<Longrightarrow> acquire l s = Ok (s\<lparr>held := l # held s\<rparr>)"
  by (simp add: acquire_def)

lemma release_held [kernel_simps]:
  "l \<in> set (held s) \<Longrightarrow> release l s = Ok (s\<lparr>held := remove1 l (held s)\<rparr>)"
  by (simp add: release_def)

section \<open>Sleep and wakeup\<close>

text \<open>
  \<open>wakeup1\<close> makes every process that sleeps on \<open>c\<close> runnable.
\<close>

definition wakeup1 :: "chan option \<Rightarrow> ptable \<Rightarrow> ptable" where
  "wakeup1 c t = t\<lparr>pt_proc := map (\<lambda>p. if p_state p = SLEEPING \<and> p_chan p = c
      then p\<lparr>p_state := RUNNABLE\<rparr> else p) (pt_proc t)\<rparr>"

definition wakeup :: "chan \<Rightarrow> 'a kst_scheme \<Rightarrow> 'a kst_scheme result" where
  "wakeup c s = rbind (acquire PtableLock s) (\<lambda>s.
     release PtableLock (s\<lparr>pt := wakeup1 (Some c) (pt s)\<rparr>))"

lemma length_wakeup1 [simp]: "length (pt_proc (wakeup1 c t)) = length (pt_proc t)"
  by (simp add: wakeup1_def)

lemma wakeup1_mlfq [simp]: "pt_mlfq (wakeup1 c t) = pt_mlfq t"
  by (simp add: wakeup1_def)

lemma procs_wakeup1:
  "p < length (pt_proc t) \<Longrightarrow> procs (wakeup1 c t) p =
    (if p_state (procs t p) = SLEEPING \<and> p_chan (procs t p) = c
     then (procs t p)\<lparr>p_state := RUNNABLE\<rparr> else procs t p)"
  by (simp add: wakeup1_def)

lemma wakeup_eq [kernel_simps]:
  "PtableLock \<notin> set (held s) \<Longrightarrow> wakeup c s = Ok (s\<lparr>pt := wakeup1 (Some c) (pt s)\<rparr>)"
  by (simp add: wakeup_def acquire_def release_def)

end
