(* ===== verification/Mlfq.thy ===== *)
theory Mlfq
  imports Ptable "HOL-Library.Multiset"
begin

text \<open>
  The multi-level feedback queue of proc.c (proj_FileSystem/xv6-public): three arrays of process
  pointers scanned round robin, with a scan position for each. The queue operations are \<open>initpush\<close>, \<open>push\<close>,
  \<open>top\<close>, \<open>pop\<close>, \<open>droppriority\<close> and \<open>boostpriority\<close>. The invariant says that every process is
  in at most one slot of the three arrays and that \<open>inqueue\<close> records whether it is in one; from
  it follows that the arrays never run out of slots.
\<close>

section \<open>The operations\<close>

abbreviation queue :: "ptable \<Rightarrow> nat \<Rightarrow> nat option list" where
  "queue t i \<equiv> m_queue (pt_mlfq t) ! i"

definition set_queue :: "nat \<Rightarrow> nat option list \<Rightarrow> ptable \<Rightarrow> ptable" where
  "set_queue i q t = t\<lparr>pt_mlfq := (pt_mlfq t)\<lparr>m_queue := (m_queue (pt_mlfq t))[i := q]\<rparr>\<rparr>"

definition set_index :: "nat \<Rightarrow> int \<Rightarrow> ptable \<Rightarrow> ptable" where
  "set_index i k t = t\<lparr>pt_mlfq := (pt_mlfq t)\<lparr>m_index := (m_index (pt_mlfq t))[i := k]\<rparr>\<rparr>"

text \<open>\<open>for (int j = i; j > 0; j--) queue[j] = queue[j-1];\<close>\<close>

fun shift_up :: "nat \<Rightarrow> 'a list \<Rightarrow> 'a list" where
  "shift_up 0 q = q"
| "shift_up (Suc j) q = shift_up j (q[Suc j := q ! j])"

text \<open>\<open>for (int k = j; k < NPROC - 1; k++) queue[k] = queue[k+1];\<close> with \<open>n\<close> iterations left.\<close>

fun shift_down :: "nat \<Rightarrow> nat \<Rightarrow> 'a list \<Rightarrow> 'a list" where
  "shift_down 0 k q = q"
| "shift_down (Suc n) k q = shift_down n (Suc k) (q[k := q ! Suc k])"

text \<open>
  \<open>initpush\<close> and \<open>push\<close> get the queue as a pointer; the model passes its level. A level that is
  not 0, 1 or 2 is an access outside \<open>queue[3][NPROC]\<close>.
\<close>

definition initpush :: "nat \<Rightarrow> nat \<Rightarrow> ptable \<Rightarrow> ptable result" where
  "initpush i p t =
     (if i \<ge> 3 then Err (Fault ''queue'')
      else case search (\<lambda>j. queue t i ! j = None) 0 NPROC of
        Some k \<Rightarrow> Ok (upd_proc p (\<lambda>p. p\<lparr>p_inqueue := True\<rparr>)
                      (set_index 0 (-1) (set_queue i ((shift_up k (queue t i))[0 := Some p]) t)))
      | None \<Rightarrow> Err (Panic ''failed to find empty place from queue''))"

definition push :: "nat \<Rightarrow> nat \<Rightarrow> ptable \<Rightarrow> ptable result" where
  "push i p t =
     (if i \<ge> 3 then Err (Fault ''queue'')
      else case search (\<lambda>j. queue t i ! j = None) 0 NPROC of
        Some k \<Rightarrow> Ok (upd_proc p (\<lambda>p. p\<lparr>p_inqueue := True\<rparr>)
                      (set_queue i ((queue t i)[k := Some p]) t))
      | None \<Rightarrow> Err (Panic ''failed to find empty place from queue''))"

text \<open>The three \<open>continue\<close> tests of \<open>top\<close>.\<close>

definition eligible :: "ptable \<Rightarrow> nat option \<Rightarrow> bool" where
  "eligible t q = (case q of None \<Rightarrow> False
     | Some p \<Rightarrow> p_state (procs t p) = RUNNABLE \<and> p_percentage (procs t p) = 0)"

text \<open>\<open>top_loop n q t rr\<close>: the search loop with \<open>n\<close> iterations left and \<open>*rr = rr\<close>.\<close>

fun top_loop :: "nat \<Rightarrow> nat option list \<Rightarrow> ptable \<Rightarrow> int \<Rightarrow> nat option \<times> int" where
  "top_loop 0 q t rr = (None, rr)"
| "top_loop (Suc n) q t rr =
     (let rr' = (rr + 1) mod int NPROC in
      if eligible t (q ! nat rr') then (q ! nat rr', rr') else top_loop n q t rr')"

definition top :: "nat \<Rightarrow> ptable \<Rightarrow> nat option \<times> ptable" where
  "top i t = (let (ret, rr) = top_loop NPROC (queue t i) t (m_index (pt_mlfq t) ! i)
     in (ret, set_index i rr t))"

text \<open>\<open>pop_from\<close>: the body of the outer loop of \<open>pop\<close>, for the queue at level \<open>i\<close>.\<close>

definition pop_from :: "nat \<Rightarrow> nat \<Rightarrow> ptable \<Rightarrow> ptable option" where
  "pop_from i p t =
     (case search (\<lambda>j. queue t i ! j = Some p) 0 NPROC of
        None \<Rightarrow> None
      | Some j \<Rightarrow> Some (upd_proc p (\<lambda>p. p\<lparr>p_inqueue := False\<rparr>)
          (set_index i (int j)
            (set_queue i ((shift_down (NPROC - 1 - j) j (queue t i))[NPROC - 1 := None]) t))))"

definition pop :: "nat \<Rightarrow> ptable \<Rightarrow> ptable result" where
  "pop p t = (case pop_from 0 p t of Some t' \<Rightarrow> Ok t'
     | None \<Rightarrow> (case pop_from 1 p t of Some t' \<Rightarrow> Ok t'
     | None \<Rightarrow> (case pop_from 2 p t of Some t' \<Rightarrow> Ok t'
     | None \<Rightarrow> Err (Panic ''failed to find proc in pop''))))"

definition droppriority :: "nat \<Rightarrow> ptable \<Rightarrow> ptable result" where
  "droppriority p t =
     rbind (pop p t) (\<lambda>t.
     let prio = p_priority (procs t p) in
     if prio < -1 then Err (Fault ''queue'') else
     rbind (push (nat (prio + 1)) p t) (\<lambda>t.
     if prio = 0 then
       Ok (upd_proc p (\<lambda>p. p\<lparr>p_ticks := 0, p_curticks := 0, p_priority := 1,
                              p_timequantum := 2, p_timeallotment := 10\<rparr>) t)
     else if prio = 1 then
       Ok (upd_proc p (\<lambda>p. p\<lparr>p_ticks := 0, p_priority := 2,
                              p_timequantum := 4, p_timeallotment := 100\<rparr>) t)
     else Err (Panic ''failed to identify priority'')))"

text \<open>\<open>boost_loop i n\<close>: the inner loop of \<open>boostpriority\<close> on queue \<open>i\<close>, \<open>n\<close> iterations left.\<close>

definition boost_proc :: "proc \<Rightarrow> proc" where
  "boost_proc p = p\<lparr>p_ticks := 0, p_curticks := 0, p_priority := 0,
     p_timequantum := 1, p_timeallotment := 5\<rparr>"

fun boost_loop :: "nat \<Rightarrow> nat \<Rightarrow> ptable \<Rightarrow> ptable result" where
  "boost_loop i 0 t = Ok t"
| "boost_loop i (Suc n) t =
     (let rr = (m_index (pt_mlfq t) ! i + 1) mod int NPROC; t1 = set_index i rr t in
      case queue t1 i ! nat rr of
        None \<Rightarrow> boost_loop i n t1
      | Some p \<Rightarrow>
          rbind (push 0 p (upd_proc p boost_proc t1)) (\<lambda>t2.
          boost_loop i n (set_queue i ((queue t2 i)[nat rr := None]) t2)))"

definition boostpriority :: "ptable \<Rightarrow> ptable result" where
  "boostpriority t = rbind (boost_loop 1 NPROC t) (\<lambda>t.
     rbind (boost_loop 2 NPROC t) (\<lambda>t. Ok (set_index 1 0 (set_index 2 0 t))))"

section \<open>The shift loops\<close>

lemma shift_up_eq:
  assumes "k < length q"
  shows "shift_up k q = (if q = [] then [] else hd q # take k q @ drop (Suc k) q)"
  using assms
proof (induction k arbitrary: q)
  case 0
  then show ?case by (cases q) auto
next
  case (Suc k)
  let ?q = "q[Suc k := q ! k]"
  have "?q \<noteq> []" using Suc.prems by auto
  then have "shift_up (Suc k) q = hd ?q # take k ?q @ drop (Suc k) ?q"
    using Suc by simp
  also have "drop (Suc k) ?q = q ! k # drop (Suc (Suc k)) q"
    using Suc.prems by (simp add: Cons_nth_drop_Suc [symmetric] del: Cons_nth_drop_Suc)
  also have "hd ?q = hd q" using Suc.prems by (cases q) auto
  also have "take k ?q @ q ! k # drop (Suc (Suc k)) q = take (Suc k) q @ drop (Suc (Suc k)) q"
    using Suc.prems by (simp add: take_Suc_conv_app_nth)
  finally show ?case using Suc.prems by auto
qed

lemma length_shift_down [simp]: "length (shift_down n k q) = length q"
  by (induction n k q rule: shift_down.induct) auto

lemma nth_shift_down:
  "k + n < length q \<Longrightarrow> i < length q \<Longrightarrow>
   shift_down n k q ! i = (if k \<le> i \<and> i < k + n then q ! Suc i else q ! i)"
proof (induction n k q rule: shift_down.induct)
  case (2 n k q)
  then have "shift_down n (Suc k) (q[k := q ! Suc k]) ! i
      = (if Suc k \<le> i \<and> i < Suc k + n then q[k := q ! Suc k] ! Suc i else q[k := q ! Suc k] ! i)"
    by simp
  with 2(2,3) show ?case by (auto simp: nth_list_update)
qed auto

text \<open>Closing the gap at \<open>j\<close> and clearing the last slot: the element at \<open>j\<close> is gone.\<close>

lemma shift_down_remove:
  assumes "length q = NPROC" "j < NPROC"
  shows "(shift_down (NPROC - 1 - j) j q)[NPROC - 1 := None] = remove_nth j q @ [None]"
proof (rule nth_equalityI)
  show "length ((shift_down (NPROC - 1 - j) j q)[NPROC - 1 := None]) = length (remove_nth j q @ [None])"
    using assms by simp
next
  fix i assume "i < length ((shift_down (NPROC - 1 - j) j q)[NPROC - 1 := None])"
  then have i: "i < NPROC" using assms by simp
  show "(shift_down (NPROC - 1 - j) j q)[NPROC - 1 := None] ! i = (remove_nth j q @ [None]) ! i"
    using assms i by (auto simp: nth_list_update nth_shift_down remove_nth_def nth_append min_def)
qed

section \<open>The invariant\<close>

text \<open>\<open>somes\<close> are the processes in the slots of one array, \<open>queued\<close> those of all three.\<close>

definition somes :: "'a option list \<Rightarrow> 'a list" where
  "somes q = map the (filter (\<lambda>x. x \<noteq> None) q)"

definition queued :: "ptable \<Rightarrow> nat multiset" where
  "queued t = mset (somes (queue t 0)) + mset (somes (queue t 1)) + mset (somes (queue t 2))"

definition mlfq_shape :: "ptable \<Rightarrow> bool" where
  "mlfq_shape t \<longleftrightarrow> length (pt_proc t) = NPROC \<and> length (m_queue (pt_mlfq t)) = 3
     \<and> (\<forall>i<3. length (queue t i) = NPROC) \<and> length (m_index (pt_mlfq t)) = 3
     \<and> (\<forall>i<3. -1 \<le> m_index (pt_mlfq t) ! i \<and> m_index (pt_mlfq t) ! i < int NPROC)"

definition mlfq_inv :: "ptable \<Rightarrow> bool" where
  "mlfq_inv t \<longleftrightarrow> mlfq_shape t
     \<and> queued t = mset_set {p. p < NPROC \<and> p_inqueue (procs t p)}"

lemma somes_Nil [simp]: "somes [] = []"
  and somes_Cons_None [simp]: "somes (None # q) = somes q"
  and somes_Cons_Some [simp]: "somes (Some x # q) = x # somes q"
  and somes_append [simp]: "somes (q @ r) = somes q @ somes r"
  by (simp_all add: somes_def)

lemma in_set_somes [simp]: "x \<in> set (somes q) \<longleftrightarrow> Some x \<in> set q"
  by (induction q) (auto simp: somes_def image_iff)

lemma length_somes_full: "None \<notin> set q \<Longrightarrow> length (somes q) = length q"
  by (induction q) (auto simp: somes_def not_None_eq [symmetric] simp del: not_None_eq)

lemma mset_somes_update:
  assumes "k < length q" "q ! k = None"
  shows "mset (somes (q[k := Some p])) = add_mset p (mset (somes q))"
proof -
  have "q = take k q @ None # drop (Suc k) q" using assms by (metis id_take_nth_drop)
  then have "somes q = somes (take k q) @ somes (drop (Suc k) q)"
    by (metis somes_Cons_None somes_append)
  then show ?thesis using assms by (simp add: upd_conv_take_nth_drop)
qed

lemma mset_somes_clear:
  assumes "k < length q" "q ! k = Some p"
  shows "mset (somes q) = add_mset p (mset (somes (q[k := None])))"
proof -
  have "q = take k q @ Some p # drop (Suc k) q" using assms by (metis id_take_nth_drop)
  then have "somes q = somes (take k q) @ p # somes (drop (Suc k) q)"
    by (metis somes_Cons_Some somes_append)
  then show ?thesis using assms by (simp add: upd_conv_take_nth_drop)
qed

lemma mset_somes_remove:
  assumes "j < length q" "q ! j = Some p"
  shows "mset (somes q) = add_mset p (mset (somes (remove_nth j q @ [None])))"
proof -
  have "q = take j q @ Some p # drop (Suc j) q" using assms by (metis id_take_nth_drop)
  then have "somes q = somes (take j q) @ p # somes (drop (Suc j) q)"
    by (metis somes_Cons_Some somes_append)
  then show ?thesis by (simp add: remove_nth_def)
qed

lemma mset_somes_shift_up:
  assumes "k < length q" "q ! k = None"
  shows "mset (somes ((shift_up k q)[0 := Some p])) = add_mset p (mset (somes q))"
proof -
  have q: "q = take k q @ None # drop (Suc k) q" using assms by (metis id_take_nth_drop)
  then have s: "somes q = somes (take k q) @ somes (drop (Suc k) q)"
    by (metis somes_Cons_None somes_append)
  have "(shift_up k q)[0 := Some p] = Some p # take k q @ drop (Suc k) q"
    using assms by (auto simp: shift_up_eq)
  then show ?thesis by (simp add: s)
qed

lemma set_queue_simps [simp]:
  "pt_proc (set_queue i q t) = pt_proc t"
  "m_index (pt_mlfq (set_queue i q t)) = m_index (pt_mlfq t)"
  "m_percentage (pt_mlfq (set_queue i q t)) = m_percentage (pt_mlfq t)"
  "m_pass (pt_mlfq (set_queue i q t)) = m_pass (pt_mlfq t)"
  "pt_minpass (set_queue i q t) = pt_minpass t"
  "length (m_queue (pt_mlfq (set_queue i q t))) = length (m_queue (pt_mlfq t))"
  by (simp_all add: set_queue_def)

lemma set_index_simps [simp]:
  "pt_proc (set_index i k t) = pt_proc t"
  "m_queue (pt_mlfq (set_index i k t)) = m_queue (pt_mlfq t)"
  "m_percentage (pt_mlfq (set_index i k t)) = m_percentage (pt_mlfq t)"
  "m_pass (pt_mlfq (set_index i k t)) = m_pass (pt_mlfq t)"
  "pt_minpass (set_index i k t) = pt_minpass t"
  "length (m_index (pt_mlfq (set_index i k t))) = length (m_index (pt_mlfq t))"
  by (simp_all add: set_index_def)

lemma queue_set_queue:
  "i < length (m_queue (pt_mlfq t)) \<Longrightarrow> queue (set_queue i q t) j = (if j = i then q else queue t j)"
  by (simp add: set_queue_def)

lemma queued_set_index [simp]: "queued (set_index i k t) = queued t"
  and queued_upd_proc [simp]: "queued (upd_proc p f t) = queued t"
  by (simp_all add: queued_def)

lemma queued_set_queue:
  assumes "mlfq_shape t" "i < 3" "mset (somes q) + A = mset (somes (queue t i)) + B"
  shows "queued (set_queue i q t) + A = queued t + B"
proof -
  have "length (m_queue (pt_mlfq t)) = 3" using assms(1) by (simp add: mlfq_shape_def)
  moreover have "i = 0 \<or> i = 1 \<or> i = 2" using assms(2) by auto
  ultimately show ?thesis using assms(3)
    by (auto simp: queued_def queue_set_queue add.assoc add.commute add.left_commute)
qed

lemma mlfq_shape_set_queue [simp]:
  "mlfq_shape t \<Longrightarrow> i < 3 \<Longrightarrow> length q = NPROC \<Longrightarrow> mlfq_shape (set_queue i q t)"
  by (auto simp: mlfq_shape_def queue_set_queue)

lemma mlfq_shape_set_index [simp]:
  "mlfq_shape t \<Longrightarrow> -1 \<le> k \<Longrightarrow> k < int NPROC \<Longrightarrow> mlfq_shape (set_index i k t)"
  by (cases "i < 3") (auto simp: mlfq_shape_def set_index_def nth_list_update list_update_beyond)

lemma mlfq_shape_upd_proc [simp]: "mlfq_shape t \<Longrightarrow> mlfq_shape (upd_proc p f t)"
  by (auto simp: mlfq_shape_def)

lemma length_queue: "mlfq_shape t \<Longrightarrow> i < 3 \<Longrightarrow> length (queue t i) = NPROC"
  by (simp add: mlfq_shape_def)

section \<open>The queues never overflow\<close>

lemma queued_le_1: "mlfq_inv t \<Longrightarrow> count (queued t) p \<le> 1"
  by (simp add: mlfq_inv_def count_mset_set')

lemma in_queued_iff: "mlfq_inv t \<Longrightarrow> p \<in># queued t \<longleftrightarrow> p < NPROC \<and> p_inqueue (procs t p)"
  by (auto simp: mlfq_inv_def)

lemma queue_subset_queued: "i < 3 \<Longrightarrow> mset (somes (queue t i)) \<subseteq># queued t"
proof -
  assume "i < 3"
  then have "i = 0 \<or> i = 1 \<or> i = 2" by auto
  then show ?thesis by (auto simp: queued_def)
qed

lemma queue_entry:
  assumes "mlfq_inv t" "i < 3" "Some p \<in> set (queue t i)"
  shows "p < NPROC" "p_inqueue (procs t p)"
proof -
  have "p \<in># mset (somes (queue t i))" using assms(3) by simp
  with queue_subset_queued [OF assms(2)] have "p \<in># queued t" by (rule mset_subset_eqD)
  then show "p < NPROC" "p_inqueue (procs t p)" using in_queued_iff [OF assms(1)] by auto
qed

text \<open>
  A level that does not hold \<open>p\<close> has a free slot: otherwise its 64 slots would hold 64 different
  processes, and the table has no more than 64, one of which is \<open>p\<close>.
\<close>

lemma free_slot:
  assumes inv: "mlfq_inv t" and i: "i < 3" and p: "p < NPROC" and np: "Some p \<notin> set (queue t i)"
  shows "\<exists>k. search (\<lambda>j. queue t i ! j = None) 0 NPROC = Some k"
proof (rule ccontr)
  assume "\<not> ?thesis"
  then have "\<forall>j<NPROC. queue t i ! j \<noteq> None" by (auto simp: search_None)
  moreover have len: "length (queue t i) = NPROC" using inv i by (simp add: mlfq_inv_def length_queue)
  ultimately have full: "None \<notin> set (queue t i)" by (auto simp: in_set_conv_nth)
  have "count (mset (somes (queue t i))) x \<le> 1" for x
    using queued_le_1 [OF inv, of x] mset_subset_eq_count [OF queue_subset_queued [OF i], of t x]
    by simp
  then have "distinct (somes (queue t i))"
    by (simp add: distinct_count_atmost_1 le_Suc_eq)
  then have "card (set (somes (queue t i))) = NPROC"
    using length_somes_full [OF full] len by (simp add: distinct_card)
  moreover have "set (somes (queue t i)) \<subseteq> {0..<NPROC} - {p}"
    using queue_entry [OF inv i] np by (auto; metis)
  then have "card (set (somes (queue t i))) \<le> card ({0..<NPROC} - {p})"
    by (rule card_mono [rotated]) simp
  ultimately show False using p by simp
qed

section \<open>Pushing\<close>

lemma inqueue_set_insert:
  "p < NPROC \<Longrightarrow> mlfq_shape t \<Longrightarrow>
   {q. q < NPROC \<and> p_inqueue (procs (upd_proc p (\<lambda>p. p\<lparr>p_inqueue := True\<rparr>) t) q)}
   = insert p {q. q < NPROC \<and> p_inqueue (procs t q)}"
  by (auto simp: mlfq_shape_def procs_upd_proc)

lemma inqueue_set_remove:
  "p < NPROC \<Longrightarrow> mlfq_shape t \<Longrightarrow>
   {q. q < NPROC \<and> p_inqueue (procs (upd_proc p (\<lambda>p. p\<lparr>p_inqueue := False\<rparr>) t) q)}
   = {q. q < NPROC \<and> p_inqueue (procs t q)} - {p}"
  by (auto simp: mlfq_shape_def procs_upd_proc)

text \<open>Adding a process that is in no queue, in any way that puts it into one free slot.\<close>

lemma mlfq_inv_add:
  assumes inv: "mlfq_inv t" and i: "i < 3" and p: "p < NPROC" "\<not> p_inqueue (procs t p)"
    and q: "length q = NPROC" "mset (somes q) = add_mset p (mset (somes (queue t i)))"
  shows "mlfq_inv (upd_proc p (\<lambda>p. p\<lparr>p_inqueue := True\<rparr>) (set_queue i q t))"
proof -
  have sh: "mlfq_shape t" using inv by (simp add: mlfq_inv_def)
  let ?I = "{r. r < NPROC \<and> p_inqueue (procs t r)}"
  have "queued (set_queue i q t) + {#} = queued t + {#p#}"
    by (rule queued_set_queue [OF sh i]) (simp add: q(2))
  also have "queued t = mset_set ?I" using inv by (simp add: mlfq_inv_def)
  finally have "queued (set_queue i q t) = mset_set (insert p ?I)"
    using p by simp
  then show ?thesis using sh i p q(1)
    by (simp add: mlfq_inv_def inqueue_set_insert)
qed

lemma push_ok:
  assumes "mlfq_inv t" "i < 3" "p < NPROC" "\<not> p_inqueue (procs t p)"
  shows "\<exists>t'. push i p t = Ok t' \<and> mlfq_inv t'"
proof -
  have "Some p \<notin> set (queue t i)" using assms(1,2,4) queue_entry by blast
  from free_slot [OF assms(1-3) this] obtain k
    where k: "search (\<lambda>j. queue t i ! j = None) 0 NPROC = Some k" by blast
  then have "k < NPROC" "queue t i ! k = None" by (auto dest: search_SomeD)
  moreover have len: "length (queue t i) = NPROC"
    using assms(1,2) by (simp add: mlfq_inv_def length_queue)
  ultimately have "mlfq_inv (upd_proc p (\<lambda>p. p\<lparr>p_inqueue := True\<rparr>) (set_queue i ((queue t i)[k := Some p]) t))"
    by (intro mlfq_inv_add [OF assms]) (simp_all add: mset_somes_update)
  then show ?thesis using assms(2) k by (simp add: push_def)
qed

lemma mlfq_inv_set_index:
  "mlfq_inv t \<Longrightarrow> -1 \<le> k \<Longrightarrow> k < int NPROC \<Longrightarrow> mlfq_inv (set_index i k t)"
  by (simp add: mlfq_inv_def)

lemma initpush_ok:
  assumes "mlfq_inv t" "i < 3" "p < NPROC" "\<not> p_inqueue (procs t p)"
  shows "\<exists>t'. initpush i p t = Ok t' \<and> mlfq_inv t' \<and> queue t' i ! 0 = Some p
     \<and> m_index (pt_mlfq t') ! 0 = -1"
proof -
  have "Some p \<notin> set (queue t i)" using assms(1,2,4) queue_entry by blast
  from free_slot [OF assms(1-3) this] obtain k
    where k: "search (\<lambda>j. queue t i ! j = None) 0 NPROC = Some k" by blast
  then have k': "k < NPROC" "queue t i ! k = None" by (auto dest: search_SomeD)
  have len: "length (queue t i) = NPROC" and sh: "mlfq_shape t"
    using assms(1,2) by (simp_all add: mlfq_inv_def length_queue)
  have lu: "length (shift_up k (queue t i)) = NPROC"
    using k' len by (auto simp: shift_up_eq)
  have "mlfq_inv (upd_proc p (\<lambda>p. p\<lparr>p_inqueue := True\<rparr>)
      (set_queue i ((shift_up k (queue t i))[0 := Some p]) t))"
    by (rule mlfq_inv_add [OF assms]) (use k' len lu in \<open>simp_all add: mset_somes_shift_up\<close>)
  then have "mlfq_inv (set_index 0 (-1) (upd_proc p (\<lambda>p. p\<lparr>p_inqueue := True\<rparr>)
      (set_queue i ((shift_up k (queue t i))[0 := Some p]) t)))"
    by (rule mlfq_inv_set_index) simp_all
  moreover have "set_index 0 (-1) (upd_proc p f t1) = upd_proc p f (set_index 0 (-1) t1)" for f t1
    by (simp add: set_index_def upd_proc_def)
  moreover have "length (m_queue (pt_mlfq t)) = 3" "length (m_index (pt_mlfq t)) = 3"
    using sh by (simp_all add: mlfq_shape_def)
  ultimately show ?thesis using assms(2) k lu
    by (simp add: initpush_def queue_set_queue) (simp add: set_index_def set_queue_def)
qed

section \<open>Popping\<close>

lemma pop_from_ok:
  assumes inv: "mlfq_inv t" and i: "i < 3" and p: "pop_from i p t = Some t'"
  shows "mlfq_inv t'" "\<not> p_inqueue (procs t' p)" "p < NPROC"
    "\<exists>j. queue t i ! j = Some p \<and> j < NPROC \<and> m_index (pt_mlfq t') ! i = int j
      \<and> queue t' i = remove_nth j (queue t i) @ [None]"
proof -
  from p obtain j where j: "j < NPROC" "queue t i ! j = Some p" and
    t': "t' = upd_proc p (\<lambda>p. p\<lparr>p_inqueue := False\<rparr>) (set_index i (int j)
          (set_queue i ((shift_down (NPROC - 1 - j) j (queue t i))[NPROC - 1 := None]) t))"
    by (auto simp: pop_from_def search_Some split: option.splits)
  have sh: "mlfq_shape t" using inv by (simp add: mlfq_inv_def)
  have len: "length (queue t i) = NPROC" using sh i by (simp add: length_queue)
  have "Some p \<in> set (queue t i)" using j len by (metis nth_mem)
  then have pe: "p < NPROC" "p_inqueue (procs t p)" using queue_entry [OF inv i] by auto
  let ?I = "{r. r < NPROC \<and> p_inqueue (procs t r)}"
  let ?q = "remove_nth j (queue t i) @ [None]"
  have sd: "(shift_down (NPROC - 1 - j) j (queue t i))[NPROC - 1 := None] = ?q"
    using len j by (simp only: shift_down_remove)
  have lq: "length ?q = NPROC" using j len by simp
  have "queued (set_queue i ?q t) + {#p#} = queued t + {#}"
    by (rule queued_set_queue [OF sh i]) (use mset_somes_remove [of j "queue t i" p] j len in simp)
  also have "queued t = mset_set ?I" using inv by (simp add: mlfq_inv_def)
  also have "mset_set ?I = mset_set (?I - {p}) + {#p#}"
    using pe by (simp add: mset_set.remove)
  finally have "queued (set_queue i ?q t) = mset_set (?I - {p})" by simp
  moreover have "mlfq_shape (set_index i (int j) (set_queue i ?q t))"
    using sh i j lq by simp
  moreover have "t' = upd_proc p (\<lambda>p. p\<lparr>p_inqueue := False\<rparr>) (set_index i (int j) (set_queue i ?q t))"
    unfolding t' sd ..
  ultimately show "mlfq_inv t'" using pe by (simp add: mlfq_inv_def inqueue_set_remove)
  show "p < NPROC" by (rule pe)
  have 3: "length (m_queue (pt_mlfq t)) = 3" "length (m_index (pt_mlfq t)) = 3" "length (pt_proc t) = NPROC"
    using sh by (simp_all add: mlfq_shape_def)
  show "\<not> p_inqueue (procs t' p)" using pe 3 unfolding t' by simp
  have "queue t' i = ?q" "m_index (pt_mlfq t') ! i = int j"
    using 3 i unfolding t' sd by (simp_all add: set_index_def set_queue_def)
  then show "\<exists>j. queue t i ! j = Some p \<and> j < NPROC \<and> m_index (pt_mlfq t') ! i = int j
      \<and> queue t' i = remove_nth j (queue t i) @ [None]"
    using j by blast
qed

lemma pop_from_frame:
  assumes "pop_from i p t = Some t'"
  shows "pt_proc t' = (pt_proc t)[p := (procs t p)\<lparr>p_inqueue := False\<rparr>]"
    "m_percentage (pt_mlfq t') = m_percentage (pt_mlfq t)" "pt_minpass t' = pt_minpass t"
  using assms by (auto simp: pop_from_def upd_proc_def split: option.splits)

lemma pop_from_None: "length (queue t i) = NPROC \<Longrightarrow> pop_from i p t = None \<longleftrightarrow> Some p \<notin> set (queue t i)"
  by (auto simp: pop_from_def search_None in_set_conv_nth split: option.splits dest: search_SomeD)

lemma popE:
  assumes "pop p t = Ok t'"
  obtains i where "i < 3" "pop_from i p t = Some t'"
proof -
  from assms have "pop_from 0 p t = Some t' \<or> pop_from 1 p t = Some t' \<or> pop_from 2 p t = Some t'"
    by (auto simp: pop_def split: option.splits)
  then show thesis using that [of 0] that [of 1] that [of 2] by auto
qed

lemma pop_inv:
  assumes "mlfq_inv t" "pop p t = Ok t'"
  shows "mlfq_inv t'" "\<not> p_inqueue (procs t' p)" "p < NPROC"
    "pt_proc t' = (pt_proc t)[p := (procs t p)\<lparr>p_inqueue := False\<rparr>]"
    "m_percentage (pt_mlfq t') = m_percentage (pt_mlfq t)"
  using assms by (auto elim!: popE dest: pop_from_ok pop_from_frame)

lemma in_queued_levels:
  "p \<in># queued t \<longleftrightarrow> Some p \<in> set (queue t 0) \<or> Some p \<in> set (queue t 1) \<or> Some p \<in> set (queue t 2)"
  by (simp add: queued_def)

lemma pop_total:
  assumes "mlfq_inv t" "p < NPROC"
  shows "if p_inqueue (procs t p) then \<exists>t'. pop p t = Ok t'
         else pop p t = Err (Panic ''failed to find proc in pop'')"
proof -
  have "length (queue t i) = NPROC" if "i < 3" for i
    using assms(1) that by (simp add: mlfq_inv_def length_queue)
  then have "pop_from 0 p t = None \<longleftrightarrow> Some p \<notin> set (queue t 0)"
    "pop_from 1 p t = None \<longleftrightarrow> Some p \<notin> set (queue t 1)"
    "pop_from 2 p t = None \<longleftrightarrow> Some p \<notin> set (queue t 2)"
    by (simp_all only: pop_from_None)
  moreover have "p_inqueue (procs t p) \<longleftrightarrow> p \<in># queued t" using in_queued_iff [OF assms(1)] assms(2) by simp
  ultimately show ?thesis by (auto simp: pop_def in_queued_levels split: option.split)
qed

section \<open>Choosing a process\<close>

lemma top_loop_spec:
  assumes "top_loop n q t rr = (ret, rr')"
  shows "(ret = None \<longrightarrow> (\<forall>m<n. \<not> eligible t (q ! nat ((rr + 1 + int m) mod 64))))
    \<and> (ret \<noteq> None \<longrightarrow> (\<exists>d<n. rr' = (rr + 1 + int d) mod 64 \<and> ret = q ! nat rr' \<and> eligible t ret
         \<and> (\<forall>m<d. \<not> eligible t (q ! nat ((rr + 1 + int m) mod 64)))))"
  using assms
proof (induction n arbitrary: rr)
  case 0
  then show ?case by simp
next
  case (Suc n)
  let ?r = "(rr + 1) mod 64"
  have sh: "(?r + 1 + int m) mod 64 = (rr + 1 + int (Suc m)) mod 64" for m
    using mod_add_left_eq [of "rr + 1" 64 "1 + int m"] by (simp only: of_nat_Suc add.assoc)
  have z: "nat ((rr + 1 + int 0) mod 64) = nat ?r" by simp
  show ?case
  proof (cases "eligible t (q ! nat ?r)")
    case True
    with Suc.prems have r: "ret = q ! nat ?r" "rr' = ?r" by (auto simp: Let_def)
    then have "ret \<noteq> None" using True by (auto simp: eligible_def split: option.splits)
    then show ?thesis using True r by (auto intro!: exI [of _ 0])
  next
    case False
    with Suc.prems have "top_loop n q t ?r = (ret, rr')" by simp
    note IH = Suc.IH [OF this, unfolded sh]
    show ?thesis
    proof (intro conjI impI)
      assume "ret = None"
      then have "\<forall>m<n. \<not> eligible t (q ! nat ((rr + 1 + int (Suc m)) mod 64))" using IH by blast
      with False show "\<forall>m<Suc n. \<not> eligible t (q ! nat ((rr + 1 + int m) mod 64))"
        by (auto simp: less_Suc_eq_0_disj)
    next
      assume "ret \<noteq> None"
      then obtain d where d: "d < n" "rr' = (rr + 1 + int (Suc d)) mod 64" "ret = q ! nat rr'"
        "eligible t ret" "\<forall>m<d. \<not> eligible t (q ! nat ((rr + 1 + int (Suc m)) mod 64))"
        using IH by blast
      with False show "\<exists>d<Suc n. rr' = (rr + 1 + int d) mod 64 \<and> ret = q ! nat rr' \<and> eligible t ret
         \<and> (\<forall>m<d. \<not> eligible t (q ! nat ((rr + 1 + int m) mod 64)))"
        by (intro exI [of _ "Suc d"]) (auto simp: less_Suc_eq_0_disj)
    qed
  qed
qed

text \<open>The positions that the scan visits are all positions.\<close>

lemma scan_covers:
  assumes "j < NPROC"
  shows "\<exists>m<NPROC. nat ((rr + 1 + int m) mod 64) = j"
proof (intro exI conjI)
  let ?m = "nat ((int j - rr - 1) mod 64)"
  show "?m < NPROC" by (simp add: nat_less_iff)
  have "(rr + 1 + int ?m) mod 64 = (rr + 1 + (int j - rr - 1) mod 64) mod 64" by simp
  also have "\<dots> = (rr + 1 + (int j - rr - 1)) mod 64" by (simp only: mod_add_right_eq)
  also have "\<dots> = int j" using assms by simp
  finally show "nat ((rr + 1 + int ?m) mod 64) = j" by simp
qed

section \<open>Boosting\<close>

text \<open>
  One iteration on a filled slot: the process moves to level 0 with the parameters of that level.
  It is in both queues between the two assignments, which is why the free slot has to be found
  from the invariant before the move.
\<close>

lemma boost_move:
  assumes inv: "mlfq_inv t" and i: "i = 1 \<or> i = 2" and r: "r < NPROC" "queue t i ! r = Some p"
  shows "\<exists>t2. push 0 p (upd_proc p boost_proc t) = Ok t2 \<and>
    (let t3 = set_queue i ((queue t2 i)[r := None]) t2 in
       mlfq_inv t3 \<and> queued t3 = queued t \<and> queue t3 i = (queue t i)[r := None]
       \<and> (\<forall>j. j \<noteq> 0 \<longrightarrow> j \<noteq> i \<longrightarrow> queue t3 j = queue t j)
       \<and> m_index (pt_mlfq t3) = m_index (pt_mlfq t)
       \<and> pt_proc t3 = (pt_proc t)[p := boost_proc (procs t p)])"
proof -
  have sh: "mlfq_shape t" and i3: "i < 3" using inv i by (auto simp: mlfq_inv_def)
  have l3: "length (m_queue (pt_mlfq t)) = 3" "length (pt_proc t) = NPROC"
    using sh by (simp_all add: mlfq_shape_def)
  have len: "length (queue t i) = NPROC" "length (queue t 0) = NPROC" using sh i3 by (simp_all add: length_queue)
  have pin: "Some p \<in> set (queue t i)" using r len by (metis nth_mem)
  then have p: "p < NPROC" "p_inqueue (procs t p)" using queue_entry [OF inv i3] by auto
  have "Some p \<notin> set (queue t 0)"
  proof
    assume "Some p \<in> set (queue t 0)"
    then have "{#p#} + {#p#} \<subseteq># mset (somes (queue t 0)) + mset (somes (queue t i))"
      using pin by (intro subset_mset.add_mono) auto
    also have "\<dots> \<subseteq># queued t" using i by (auto simp: queued_def)
    finally have "2 \<le> count (queued t) p" by (metis Suc_1 count_add_mset count_single mset_subset_eq_count add_mset_add_single)
    then show False using queued_le_1 [OF inv, of p] by simp
  qed
  from free_slot [OF inv _ p(1) this] obtain k
    where k: "search (\<lambda>j. queue t 0 ! j = None) 0 NPROC = Some k" by auto
  then have k': "k < NPROC" "queue t 0 ! k = None" by (auto dest: search_SomeD)
  define t2 where "t2 = upd_proc p (\<lambda>p. p\<lparr>p_inqueue := True\<rparr>)
      (set_queue 0 ((queue t 0)[k := Some p]) (upd_proc p boost_proc t))"
  have push: "push 0 p (upd_proc p boost_proc t) = Ok t2"
    using k by (simp add: push_def t2_def)
  define t1 where "t1 = set_queue 0 ((queue t 0)[k := Some p]) t"
  define t3 where "t3 = set_queue i ((queue t i)[r := None]) t1"
  have sh1: "mlfq_shape t1" using sh len by (simp add: t1_def)
  have qi: "queue t1 i = queue t i" "queue t2 i = queue t i" using l3 i by (auto simp: t1_def t2_def queue_set_queue)
  have "queued t1 + {#} = queued t + {#p#}" unfolding t1_def
    by (rule queued_set_queue [OF sh]) (use k' len in \<open>simp_all add: mset_somes_update\<close>)
  moreover have "queued t3 + {#p#} = queued t1 + {#}" unfolding t3_def
    by (rule queued_set_queue [OF sh1 i3]) (use mset_somes_clear [of r "queue t i" p] r len qi in simp)
  ultimately have q3: "queued t3 = queued t" by simp
  have b: "p_inqueue (boost_proc x) = p_inqueue x" for x by (simp add: boost_proc_def)
  have eq: "set_queue i ((queue t2 i)[r := None]) t2 = t3\<lparr>pt_proc := (pt_proc t)[p := boost_proc (procs t p)]\<rparr>"
  proof (rule ptable.equality)
    have "(boost_proc (procs t p))\<lparr>p_inqueue := True\<rparr> = boost_proc (procs t p)"
      by (rule proc.equality) (use p b in simp_all)
    then show "pt_proc (set_queue i ((queue t2 i)[r := None]) t2)
        = pt_proc (t3\<lparr>pt_proc := (pt_proc t)[p := boost_proc (procs t p)]\<rparr>)"
      using p l3 by (simp add: t2_def upd_proc_def)
  qed (use i in \<open>auto simp: qi t3_def t1_def t2_def set_queue_def\<close>)
  have "mlfq_inv (t3\<lparr>pt_proc := (pt_proc t)[p := boost_proc (procs t p)]\<rparr>)"
  proof -
    have "mlfq_shape t3" using sh1 i3 len by (simp add: t3_def)
    moreover have "pt_proc t3 = pt_proc t" by (simp add: t3_def t1_def)
    moreover have "{q. q < NPROC \<and> p_inqueue ((pt_proc t)[p := boost_proc (procs t p)] ! q)}
        = {q. q < NPROC \<and> p_inqueue (procs t q)}"
      using p l3 b by (auto simp: nth_list_update)
    ultimately show ?thesis using inv q3 by (simp add: mlfq_inv_def mlfq_shape_def queued_def)
  qed
  moreover have "queued (t3\<lparr>pt_proc := x\<rparr>) = queued t" for x using q3 by (simp add: queued_def)
  moreover have "queue t3 i = (queue t i)[r := None]" "m_index (pt_mlfq t3) = m_index (pt_mlfq t)"
    "\<And>j. j \<noteq> 0 \<Longrightarrow> j \<noteq> i \<Longrightarrow> queue t3 j = queue t j"
    using l3 i3 by (simp_all add: t3_def t1_def queue_set_queue)
  ultimately show ?thesis
    by (intro exI [of _ t2] conjI push) (unfold Let_def eq, simp)
qed

lemma queue_clear_mem:
  assumes inv: "mlfq_inv t" and i: "i < 3" and r: "r < NPROC"
  shows "Some p \<in> set ((queue t i)[r := None]) \<longleftrightarrow> Some p \<in> set (queue t i) \<and> queue t i ! r \<noteq> Some p"
proof (cases "queue t i ! r = Some p")
  case True
  have len: "length (queue t i) = NPROC" using inv i by (simp add: mlfq_inv_def length_queue)
  have "Some p \<notin> set ((queue t i)[r := None])"
  proof
    assume "Some p \<in> set ((queue t i)[r := None])"
    then have "count (mset (somes (queue t i))) p \<ge> 2"
      using mset_somes_clear [of r "queue t i" p] True r len by (simp add: Suc_le_eq)
    with mset_subset_eq_count [OF queue_subset_queued [OF i], of t p] queued_le_1 [OF inv, of p]
    show False by simp
  qed
  with True show ?thesis by simp
next
  case False
  have len: "length (queue t i) = NPROC" using inv i by (simp add: mlfq_inv_def length_queue)
  have "Some p \<in> set (queue t i) \<Longrightarrow> Some p \<in> set ((queue t i)[r := None])"
    using False len by (auto simp: in_set_conv_nth nth_list_update) (metis length_list_update nth_list_update_neq)
  with False show ?thesis using set_update_subset_insert [of "queue t i" r None] by auto
qed

text \<open>One iteration: the slot after the scan position is emptied, its process boosted.\<close>

lemma boost_iter:
  assumes inv: "mlfq_inv t" and i: "i = 1 \<or> i = 2"
  defines "r \<equiv> (m_index (pt_mlfq t) ! i + 1) mod 64"
  shows "\<exists>t3. boost_loop i (Suc n) t = boost_loop i n t3 \<and> mlfq_inv t3 \<and> queued t3 = queued t
     \<and> m_index (pt_mlfq t3) ! i = r \<and> queue t3 i = (queue t i)[nat r := None]
     \<and> (\<forall>j. j \<noteq> 0 \<longrightarrow> j \<noteq> i \<longrightarrow> queue t3 j = queue t j)
     \<and> (\<forall>p<NPROC. procs t3 p = (if queue t i ! nat r = Some p then boost_proc (procs t p) else procs t p))"
proof (cases "queue t i ! nat r")
  let ?t1 = "set_index i r t"
  have inv1: "mlfq_inv ?t1" using inv by (rule mlfq_inv_set_index) (simp_all add: r_def)
  have l3: "length (m_index (pt_mlfq t)) = 3" "length (m_queue (pt_mlfq t)) = 3" "length (pt_proc t) = NPROC"
    using inv by (auto simp: mlfq_inv_def mlfq_shape_def)
  have i1: "m_index (pt_mlfq ?t1) ! i = r" using l3 i by (auto simp: set_index_def)
  {
    case None
    then have "(queue t i)[nat r := None] = queue t i" by (metis list_update_id)
    with None inv1 i1 show ?thesis by (intro exI [of _ ?t1]) (simp add: Let_def r_def)
  next
    case (Some p)
    have rl: "nat r < NPROC" by (simp add: r_def nat_less_iff)
    have "queue ?t1 i ! nat r = Some p" using Some by simp
    from boost_move [OF inv1 i rl this] obtain t2 where
      t2: "push 0 p (upd_proc p boost_proc ?t1) = Ok t2" and
      t3: "mlfq_inv (set_queue i ((queue t2 i)[nat r := None]) t2)"
        "queued (set_queue i ((queue t2 i)[nat r := None]) t2) = queued t"
        "queue (set_queue i ((queue t2 i)[nat r := None]) t2) i = (queue t i)[nat r := None]"
        "\<forall>j. j \<noteq> 0 \<longrightarrow> j \<noteq> i \<longrightarrow> queue (set_queue i ((queue t2 i)[nat r := None]) t2) j = queue t j"
        "m_index (pt_mlfq (set_queue i ((queue t2 i)[nat r := None]) t2)) = m_index (pt_mlfq ?t1)"
        "pt_proc (set_queue i ((queue t2 i)[nat r := None]) t2) = (pt_proc t)[p := boost_proc (procs t p)]"
      by (auto simp: Let_def)
    show ?thesis
      by (intro exI [of _ "set_queue i ((queue t2 i)[nat r := None]) t2"])
        (use Some t2 t3 i1 l3 in \<open>simp add: Let_def nth_list_update r_def\<close>)
  }
qed

lemma boost_loop_ok:
  assumes "mlfq_inv t" "i = 1 \<or> i = 2"
  shows "\<exists>t'. boost_loop i n t = Ok t' \<and> mlfq_inv t' \<and> queued t' = queued t
    \<and> (\<forall>j. j \<noteq> 0 \<longrightarrow> j \<noteq> i \<longrightarrow> queue t' j = queue t j)
    \<and> (\<forall>j<NPROC. queue t' i ! j = (if \<exists>m<n. nat ((m_index (pt_mlfq t) ! i + 1 + int m) mod 64) = j
          then None else queue t i ! j))
    \<and> (\<forall>p<NPROC. procs t' p = (if Some p \<in> set (queue t i) \<and> Some p \<notin> set (queue t' i)
          then boost_proc (procs t p) else procs t p))"
  using assms
proof (induction n arbitrary: t)
  case 0
  then show ?case by simp
next
  case (Suc n)
  let ?rr = "m_index (pt_mlfq t) ! i"
  let ?r = "(?rr + 1) mod 64"
  have leni: "length (queue t i) = NPROC" using Suc.prems by (auto simp: mlfq_inv_def mlfq_shape_def)
  have sh: "(?r + 1 + int m) mod 64 = (?rr + 1 + int (Suc m)) mod 64" for m
    using mod_add_left_eq [of "?rr + 1" 64 "1 + int m"] by (simp only: of_nat_Suc add.assoc)
  have ex: "(\<exists>m<Suc n. nat ((?rr + 1 + int m) mod 64) = j)
      \<longleftrightarrow> j = nat ?r \<or> (\<exists>m<n. nat ((?r + 1 + int m) mod 64) = j)" for j
    unfolding sh by (auto simp: less_Suc_eq_0_disj)
  define k where "k = nat ?r"
  have rl: "k < NPROC" by (simp add: k_def nat_less_iff)
  obtain t3 where t3: "boost_loop i (Suc n) t = boost_loop i n t3" "mlfq_inv t3" "queued t3 = queued t"
     "m_index (pt_mlfq t3) ! i = ?r" "queue t3 i = (queue t i)[k := None]"
     "\<forall>j. j \<noteq> 0 \<longrightarrow> j \<noteq> i \<longrightarrow> queue t3 j = queue t j"
     "\<forall>p<NPROC. procs t3 p = (if queue t i ! k = Some p then boost_proc (procs t p) else procs t p)"
    using boost_iter [OF Suc.prems] unfolding k_def by blast
  from Suc.IH [OF t3(2) Suc.prems(2)] obtain t' where t': "boost_loop i n t3 = Ok t'" "mlfq_inv t'"
    "queued t' = queued t3" "\<forall>j. j \<noteq> 0 \<longrightarrow> j \<noteq> i \<longrightarrow> queue t' j = queue t3 j"
    "\<forall>j<NPROC. queue t' i ! j = (if \<exists>m<n. nat ((?r + 1 + int m) mod 64) = j then None else queue t3 i ! j)"
    "\<forall>p<NPROC. procs t' p = (if Some p \<in> set (queue t3 i) \<and> Some p \<notin> set (queue t' i)
       then boost_proc (procs t3 p) else procs t3 p)"
    unfolding t3(4) by blast
  have nth3: "queue t3 i ! j = (if j = k then None else queue t i ! j)" if "j < NPROC" for j
    using that leni by (simp add: t3(5) nth_list_update)
  have len': "length (queue t' i) = NPROC" "length (queue t3 i) = NPROC"
    using t'(2) t3(2) Suc.prems(2) by (auto simp: mlfq_inv_def mlfq_shape_def)
  have sub': "Some p \<in> set (queue t' i) \<Longrightarrow> Some p \<in> set (queue t3 i)" for p
    using t'(5) len' by (metis (no_types, lifting) in_set_conv_nth option.distinct(1))
  have mem3: "Some p \<in> set (queue t3 i) \<longleftrightarrow> Some p \<in> set (queue t i) \<and> queue t i ! k \<noteq> Some p" for p
    using queue_clear_mem [OF Suc.prems(1), of i "k" p] Suc.prems(2) rl by (auto simp: t3(5))
  have hit: "queue t i ! k = Some p \<Longrightarrow> Some p \<in> set (queue t i)" for p
    using rl leni by (metis nth_mem)
  have "procs t' p = (if Some p \<in> set (queue t i) \<and> Some p \<notin> set (queue t' i)
       then boost_proc (procs t p) else procs t p)" if "p < NPROC" for p
  proof (cases "queue t i ! k = Some p")
    case True
    then have "Some p \<in> set (queue t i)" "Some p \<notin> set (queue t3 i)" "Some p \<notin> set (queue t' i)"
      using hit mem3 sub' by blast+
    with True show ?thesis using t3(7) t'(6) that by simp
  next
    case False
    then have "procs t3 p = procs t p" "Some p \<in> set (queue t3 i) \<longleftrightarrow> Some p \<in> set (queue t i)"
      using t3(7) that mem3 by simp_all
    then show ?thesis using t'(6) that by simp
  qed
  moreover have "queue t' i ! j = (if \<exists>m<Suc n. nat ((?rr + 1 + int m) mod 64) = j
      then None else queue t i ! j)" if "j < NPROC" for j
    using t'(5) [rule_format, OF that] nth3 [OF that] unfolding ex k_def by auto
  ultimately show ?case using t3(1,3,6) t'(1-4) by auto
qed

section \<open>The queues as a pool of processes\<close>

text \<open>
  What the rest of the kernel relies on: the queues are a set of processes to which a process that
  is not a member can be added and from which a member can be deleted, neither of which fails, and
  neither of which touches anything but membership. \<open>other\<close> is what a client wants to know unchanged.
\<close>

locale proc_pool =
  fixes inv :: "'s \<Rightarrow> bool"
    and mem :: "'s \<Rightarrow> nat set"
    and add :: "nat \<Rightarrow> 's \<Rightarrow> 's result"
    and del :: "nat \<Rightarrow> 's \<Rightarrow> 's result"
    and other :: "'s \<Rightarrow> 'v"
  assumes add_ok: "inv s \<Longrightarrow> p < NPROC \<Longrightarrow> p \<notin> mem s \<Longrightarrow>
      \<exists>s'. add p s = Ok s' \<and> inv s' \<and> mem s' = insert p (mem s) \<and> other s' = other s"
    and del_ok: "inv s \<Longrightarrow> p \<in> mem s \<Longrightarrow>
      \<exists>s'. del p s = Ok s' \<and> inv s' \<and> mem s' = mem s - {p} \<and> other s' = other s"
begin

text \<open>A loop that deletes the members among the elements it visits, and one that adds the others.\<close>

lemma del_loop:
  assumes "inv s" and "\<And>x s. inv s \<Longrightarrow> g x s \<Longrightarrow> f x \<in> mem s"
  shows "\<exists>s'. rfold (\<lambda>x s. if g x s then del (f x) s else Ok s) xs s = Ok s' \<and> inv s'
    \<and> mem s' \<subseteq> mem s \<and> other s' = other s"
proof -
  have "\<exists>s'. rfold (\<lambda>x s. if g x s then del (f x) s else Ok s) xs s = Ok s'
      \<and> (inv s' \<and> mem s' \<subseteq> mem s \<and> other s' = other s)"
  proof (rule rfold_inv)
    fix x s1 assume I: "inv s1 \<and> mem s1 \<subseteq> mem s \<and> other s1 = other s"
    show "\<exists>s'. (if g x s1 then del (f x) s1 else Ok s1) = Ok s' \<and> (inv s' \<and> mem s' \<subseteq> mem s \<and> other s' = other s)"
    proof (cases "g x s1")
      case True
      then obtain s2 where "del (f x) s1 = Ok s2" "inv s2" "mem s2 = mem s1 - {f x}" "other s2 = other s1"
        using del_ok [of s1 "f x"] assms(2) I by blast
      with True I show ?thesis by auto
    qed (use I in simp)
  qed (use assms in simp)
  then show ?thesis by blast
qed

lemma add_loop:
  assumes "inv s" and "\<And>x s. inv s \<Longrightarrow> g x s \<Longrightarrow> f x < NPROC \<and> f x \<notin> mem s"
  shows "\<exists>s'. rfold (\<lambda>x s. if g x s then add (f x) s else Ok s) xs s = Ok s' \<and> inv s'
    \<and> mem s \<subseteq> mem s' \<and> other s' = other s"
proof -
  have "\<exists>s'. rfold (\<lambda>x s. if g x s then add (f x) s else Ok s) xs s = Ok s'
      \<and> (inv s' \<and> mem s \<subseteq> mem s' \<and> other s' = other s)"
  proof (rule rfold_inv)
    fix x s1 assume I: "inv s1 \<and> mem s \<subseteq> mem s1 \<and> other s1 = other s"
    show "\<exists>s'. (if g x s1 then add (f x) s1 else Ok s1) = Ok s' \<and> (inv s' \<and> mem s \<subseteq> mem s' \<and> other s' = other s)"
    proof (cases "g x s1")
      case True
      then obtain s2 where "add (f x) s1 = Ok s2" "inv s2" "mem s2 = insert (f x) (mem s1)" "other s2 = other s1"
        using add_ok [of s1 "f x"] assms(2) I by blast
      with True I show ?thesis by auto
    qed (use I in simp)
  qed (use assms in simp)
  then show ?thesis by blast
qed

end

text \<open>The members are the processes whose \<open>inqueue\<close> flag is set.\<close>

definition in_pool :: "ptable \<Rightarrow> nat set" where
  "in_pool t = {p. p < NPROC \<and> p_inqueue (procs t p)}"

text \<open>Everything of the table but the queues and the flags.\<close>

definition pool_frame :: "ptable \<Rightarrow> proc list \<times> int \<times> int \<times> int" where
  "pool_frame t = (map (\<lambda>p. p\<lparr>p_inqueue := False\<rparr>) (pt_proc t), m_percentage (pt_mlfq t),
     m_pass (pt_mlfq t), pt_minpass t)"

lemma map_inqueue_update:
  "p < length ps \<Longrightarrow> f (x :: proc) = f (ps ! p) \<Longrightarrow> map f (ps[p := x]) = map f ps"
  by (metis list_update_id map_update)

lemma pool_frame_upd:
  "p < length (pt_proc t) \<Longrightarrow> pool_frame (upd_proc p (\<lambda>p. p\<lparr>p_inqueue := b\<rparr>) t) = pool_frame t"
  by (simp add: pool_frame_def upd_proc_def map_inqueue_update)

lemma pool_frame_simps [simp]:
  "pool_frame (set_queue i q t) = pool_frame t" "pool_frame (set_index i k t) = pool_frame t"
  by (simp_all add: pool_frame_def)

lemma initpush_frame:
  assumes "initpush i p t = Ok t'" "p < length (pt_proc t)"
  shows "pool_frame t' = pool_frame t" "pt_proc t' = (pt_proc t)[p := (procs t p)\<lparr>p_inqueue := True\<rparr>]"
  using assms by (auto simp: initpush_def pool_frame_upd split: if_splits option.splits) (simp add: upd_proc_def)

lemma push_frame:
  assumes "push i p t = Ok t'" "p < length (pt_proc t)"
  shows "pool_frame t' = pool_frame t" "pt_proc t' = (pt_proc t)[p := (procs t p)\<lparr>p_inqueue := True\<rparr>]"
  using assms by (auto simp: push_def pool_frame_upd split: if_splits option.splits) (simp add: upd_proc_def)

lemma pop_frame:
  assumes "pop p t = Ok t'" "p < length (pt_proc t)"
  shows "pool_frame t' = pool_frame t"
  using assms by (auto elim!: popE simp: pop_from_def pool_frame_upd split: option.splits)

interpretation mq: proc_pool mlfq_inv in_pool "initpush 0" pop pool_frame
proof
  fix s p assume a: "mlfq_inv s" "p < NPROC" "p \<notin> in_pool s"
  then have "\<not> p_inqueue (procs s p)" by (simp add: in_pool_def)
  with a obtain s' where s': "initpush 0 p s = Ok s'" "mlfq_inv s'" using initpush_ok by fastforce
  have l: "length (pt_proc s) = NPROC" using a(1) by (simp add: mlfq_inv_def mlfq_shape_def)
  with s' a(2) have "in_pool s' = insert p (in_pool s)"
    by (auto simp: in_pool_def initpush_frame(2) [OF s'(1)] nth_list_update)
  with s' l a(2) show "\<exists>s'. initpush 0 p s = Ok s' \<and> mlfq_inv s' \<and> in_pool s' = insert p (in_pool s)
      \<and> pool_frame s' = pool_frame s"
    using initpush_frame(1) by auto
next
  fix s p assume a: "mlfq_inv s" "p \<in> in_pool s"
  then have p: "p < NPROC" "p_inqueue (procs s p)" by (simp_all add: in_pool_def)
  with pop_total [OF a(1) p(1)] obtain s' where s': "pop p s = Ok s'" by auto
  note i = pop_inv [OF a(1) s']
  have l: "length (pt_proc s) = NPROC" using a(1) by (simp add: mlfq_inv_def mlfq_shape_def)
  have "in_pool s' = in_pool s - {p}"
    using l p by (auto simp: in_pool_def i(4) nth_list_update split: if_splits)
  with s' i l p show "\<exists>s'. pop p s = Ok s' \<and> mlfq_inv s' \<and> in_pool s' = in_pool s - {p}
      \<and> pool_frame s' = pool_frame s"
    using pop_frame by auto
qed

section \<open>The table at boot\<close>

text \<open>\<open>ptable\<close> is in the kernel's zeroed data, so every field starts as zero, false or null.\<close>

definition zero_tf :: trapframe where
  "zero_tf = \<lparr>tf_edi = 0, tf_esi = 0, tf_ebp = 0, tf_ebx = 0, tf_edx = 0, tf_ecx = 0, tf_eax = 0,
     tf_gs = 0, tf_fs = 0, tf_es = 0, tf_ds = 0, tf_trapno = 0, tf_err = 0, tf_eip = 0, tf_cs = 0,
     tf_eflags = 0, tf_esp = 0, tf_ss = 0\<rparr>"

definition zero_proc :: proc where
  "zero_proc = \<lparr>p_sz = 0, p_pgdir = None, p_kstack = None, p_state = UNUSED, p_pid = 0,
     p_parent = None, p_tf = zero_tf, p_context = None, p_chan = None, p_killed = False,
     p_ofile = replicate NOFILE None, p_cwd = None, p_name = replicate 16 0, p_ticks = 0, p_curticks = 0,
     p_priority = 0, p_timequantum = 0, p_timeallotment = 0, p_percentage = 0, p_pass = 0,
     p_inqueue = False, p_tid = 0, p_mthread = None, p_cthread = replicate NPROC None,
     p_ret = replicate NPROC 0, p_ustack = replicate NPROC 0, p_rrlast = 0\<rparr>"

definition zero_ptable :: ptable where
  "zero_ptable = \<lparr>pt_proc = replicate NPROC zero_proc,
     pt_mlfq = \<lparr>m_queue = replicate 3 (replicate NPROC None), m_index = [0, 0, 0],
       m_percentage = 0, m_pass = 0\<rparr>, pt_minpass = 0\<rparr>"

lemma somes_replicate_None [simp]: "somes (replicate n None) = []"
  by (simp add: somes_def)

lemma less_3_cases: "(\<forall>i<3. P i) \<longleftrightarrow> P 0 \<and> P 1 \<and> P (2::nat)"
  by (auto simp: All_less_Suc numeral_eq_Suc)

lemma mlfq_inv_zero: "mlfq_inv zero_ptable"
proof -
  have e: "{p. p < NPROC \<and> p_inqueue (procs zero_ptable p)} = {}"
    by (auto simp: zero_ptable_def zero_proc_def)
  have "mlfq_shape zero_ptable" "queued zero_ptable = {#}"
    by (simp_all add: mlfq_shape_def queued_def zero_ptable_def less_3_cases)
  then show ?thesis unfolding mlfq_inv_def e by simp
qed

lemma mlfq_inv_upd_proc:
  assumes "mlfq_inv t" "\<And>x. p_inqueue (f x) = p_inqueue x"
  shows "mlfq_inv (upd_proc p f t)"
proof -
  have "p_inqueue (procs (upd_proc p f t) q) = p_inqueue (procs t q)" for q
    by (cases "p < length (pt_proc t)"; cases "q = p")
      (simp_all add: assms(2) upd_proc_def list_update_beyond)
  then show ?thesis using assms(1) by (simp add: mlfq_inv_def)
qed

lemma push_member:
  assumes "push i p t = Ok t'" "mlfq_inv t"
  shows "Some p \<in> set (queue t' i)"
proof -
  from assms obtain k where k: "i < 3" "k < NPROC"
    "t' = upd_proc p (\<lambda>p. p\<lparr>p_inqueue := True\<rparr>) (set_queue i ((queue t i)[k := Some p]) t)"
    by (auto simp: push_def split: if_splits option.splits dest: search_SomeD)
  moreover have "length (m_queue (pt_mlfq t)) = 3" "length (queue t i) = NPROC"
    using assms(2) k(1) by (auto simp: mlfq_inv_def mlfq_shape_def)
  ultimately show ?thesis by (simp add: queue_set_queue set_update_memI)
qed

section \<open>Properties\<close>

text \<open>
  C1. Under the invariant, putting a process that is in no queue into any of the three levels
  never panics, keeps the invariant (each process in at most one slot, \<open>inqueue\<close> exact), and
  \<open>initpush\<close> places it where the next scan of level 0 starts.
\<close>

theorem push_initpush_never_full:
  assumes "mlfq_inv t" "i < 3" "p < NPROC" "\<not> p_inqueue (procs t p)"
  shows "(\<exists>t'. push i p t = Ok t' \<and> mlfq_inv t')
    \<and> (\<exists>t'. initpush i p t = Ok t' \<and> mlfq_inv t' \<and> queue t' i ! 0 = Some p
          \<and> m_index (pt_mlfq t') ! 0 = -1)"
  using push_ok [OF assms] initpush_ok [OF assms] by blast

theorem push_initpush_never_full_witness:
  "(\<exists>t'. push 2 5 zero_ptable = Ok t' \<and> mlfq_inv t')
    \<and> (\<exists>t'. initpush 2 5 zero_ptable = Ok t' \<and> mlfq_inv t' \<and> queue t' 2 ! 0 = Some 5
          \<and> m_index (pt_mlfq t') ! 0 = -1)"
  by (rule push_initpush_never_full [OF mlfq_inv_zero])
    (simp_all add: zero_ptable_def zero_proc_def)

text \<open>
  C2. \<open>pop\<close> of a process returns exactly when the process is in a queue; then the process is in
  none, no other process moves in or out, nothing else of the table changes, and the invariant
  holds. Otherwise it panics.
\<close>

theorem pop_correct:
  assumes "mlfq_inv t" "p < NPROC"
  shows "if p_inqueue (procs t p)
    then \<exists>t'. pop p t = Ok t' \<and> mlfq_inv t' \<and> in_pool t' = in_pool t - {p} \<and> pool_frame t' = pool_frame t
    else pop p t = Err (Panic ''failed to find proc in pop'')"
proof (cases "p_inqueue (procs t p)")
  case True
  then have "p \<in> in_pool t" using assms(2) by (simp add: in_pool_def)
  from mq.del_ok [OF assms(1) this] True show ?thesis by simp
next
  case False
  with pop_total [OF assms] show ?thesis by simp
qed

theorem pop_correct_witness:
  "pop 5 zero_ptable = Err (Panic ''failed to find proc in pop'')"
  using pop_correct [OF mlfq_inv_zero, of 5] by (simp add: zero_ptable_def zero_proc_def)

text \<open>
  C3. \<open>top\<close> is a complete round-robin scan: it returns null only when no process of the queue is
  runnable under MLFQ, and otherwise the first such process at or after the slot that follows the
  scan position, cyclically, leaving the scan position on it.
\<close>

theorem top_round_robin:
  assumes "mlfq_inv t" "i < 3" "top i t = (ret, t')"
  defines "rr \<equiv> m_index (pt_mlfq t) ! i"
  shows "case ret of
      None \<Rightarrow> \<forall>j<NPROC. \<not> eligible t (queue t i ! j)
    | Some p \<Rightarrow> p_state (procs t p) = RUNNABLE \<and> p_percentage (procs t p) = 0
        \<and> (\<exists>d<NPROC. m_index (pt_mlfq t') ! i = (rr + 1 + int d) mod 64
             \<and> queue t i ! nat ((rr + 1 + int d) mod 64) = Some p
             \<and> (\<forall>m<d. \<not> eligible t (queue t i ! nat ((rr + 1 + int m) mod 64))))"
proof -
  obtain rr' where r: "top_loop NPROC (queue t i) t rr = (ret, rr')" and t': "t' = set_index i rr' t"
    using assms(3) by (auto simp: top_def rr_def split: prod.splits)
  have ix: "m_index (pt_mlfq t') ! i = rr'"
    using assms(1,2) by (simp add: t' set_index_def mlfq_inv_def mlfq_shape_def)
  note spec = top_loop_spec [OF r]
  show ?thesis
  proof (cases ret)
    case None
    then have "\<not> eligible t (queue t i ! j)" if "j < NPROC" for j
      using spec scan_covers [OF that, of rr] by auto
    with None show ?thesis by simp
  next
    case (Some p)
    with spec ix show ?thesis by (auto simp: eligible_def)
  qed
qed

lemma droppriority_ok:
  assumes inv: "mlfq_inv t" and p: "p < NPROC" "p_inqueue (procs t p)"
    and prio: "p_priority (procs t p) = 0 \<or> p_priority (procs t p) = 1"
  shows "\<exists>t'. droppriority p t = Ok t' \<and> mlfq_inv t'
    \<and> Some p \<in> set (queue t' (nat (p_priority (procs t p) + 1)))
    \<and> p_priority (procs t' p) = p_priority (procs t p) + 1 \<and> p_ticks (procs t' p) = 0
    \<and> p_timequantum (procs t' p) = 2 ^ nat (p_priority (procs t p) + 1)
    \<and> p_timeallotment (procs t' p) = 10 ^ nat (p_priority (procs t p) + 1)
    \<and> (\<forall>q. q \<noteq> p \<longrightarrow> procs t' q = procs t q)"
proof -
  let ?k = "nat (p_priority (procs t p) + 1)"
  obtain t1 where t1: "pop p t = Ok t1" using pop_total [OF inv p(1)] p(2) by auto
  note i1 = pop_inv [OF inv t1]
  have l: "length (pt_proc t) = NPROC" using inv by (simp add: mlfq_inv_def mlfq_shape_def)
  have pp: "p_priority (procs t1 p) = p_priority (procs t p)" "length (pt_proc t1) = NPROC"
    using l p by (simp_all add: i1(4))
  obtain t2 where t2: "push ?k p t1 = Ok t2" "mlfq_inv t2"
    using push_ok [OF i1(1) _ p(1) i1(2), of ?k] prio by auto
  have m: "Some p \<in> set (queue t2 ?k)" by (rule push_member [OF t2(1) i1(1)])
  have l2: "length (pt_proc t2) = NPROC" "pt_proc t2 = (pt_proc t1)[p := (procs t1 p)\<lparr>p_inqueue := True\<rparr>]"
    using push_frame(2) [OF t2(1)] pp(2) p(1) by simp_all
  have o: "procs t2 q = procs t q" if "q \<noteq> p" for q
    using that by (simp add: l2(2) i1(4))
  show ?thesis using prio
  proof
    assume 0: "p_priority (procs t p) = 0"
    then show ?thesis using t1 t2 pp p l2(1) m o
      by (auto simp: droppriority_def Let_def mlfq_inv_upd_proc)
  next
    assume 1: "p_priority (procs t p) = 1"
    then show ?thesis using t1 t2 pp p l2(1) m o
      by (auto simp: droppriority_def Let_def mlfq_inv_upd_proc)
  qed
qed

text \<open>
  \<open>droppriority\<close> of a queued process of level 0 or 1 moves it one level down: it is found in
  the next queue, its ticks restart, its quantum doubles (2, 4) and its allotment is that of the
  level (10, 100). No process leaves the queues and no other process changes.
\<close>

theorem droppriority_correct:
  assumes inv: "mlfq_inv t" and p: "p < NPROC" "p_inqueue (procs t p)"
    and prio: "p_priority (procs t p) = 0 \<or> p_priority (procs t p) = 1"
  shows "\<exists>t'. droppriority p t = Ok t' \<and> mlfq_inv t'
    \<and> Some p \<in> set (queue t' (nat (p_priority (procs t p) + 1)))
    \<and> p_priority (procs t' p) = p_priority (procs t p) + 1 \<and> p_ticks (procs t' p) = 0
    \<and> p_timequantum (procs t' p) = 2 ^ nat (p_priority (procs t p) + 1)
    \<and> p_timeallotment (procs t' p) = 10 ^ nat (p_priority (procs t p) + 1)
    \<and> (\<forall>q. q \<noteq> p \<longrightarrow> procs t' q = procs t q)"
  using droppriority_ok [OF assms] .

text \<open>A table with processes 0, 1 and 2 runnable in level 0, built by the queue operations.\<close>

definition runnable3 :: ptable where
  "runnable3 = upd_proc 0 (\<lambda>p. p\<lparr>p_state := RUNNABLE\<rparr>) (upd_proc 1 (\<lambda>p. p\<lparr>p_state := RUNNABLE\<rparr>)
     (upd_proc 2 (\<lambda>p. p\<lparr>p_state := RUNNABLE\<rparr>) zero_ptable))"

lemma mlfq_inv_runnable3: "mlfq_inv runnable3"
  by (simp add: runnable3_def mlfq_inv_upd_proc mlfq_inv_zero)

lemma runnable3_proc:
  "p < 3 \<Longrightarrow> procs runnable3 p = zero_proc\<lparr>p_state := RUNNABLE\<rparr>" "pt_mlfq runnable3 = pt_mlfq zero_ptable"
  "length (pt_proc runnable3) = NPROC"
proof -
  assume "p < 3"
  then have "p = 0 \<or> p = 1 \<or> p = 2" by auto
  then show "procs runnable3 p = zero_proc\<lparr>p_state := RUNNABLE\<rparr>"
    by (auto simp: runnable3_def procs_upd_proc zero_ptable_def)
qed (simp_all add: runnable3_def zero_ptable_def)

theorem droppriority_correct_witness:
  "\<exists>t t'. initpush 0 1 runnable3 = Ok t \<and> droppriority 1 t = Ok t' \<and> mlfq_inv t'
     \<and> Some 1 \<in> set (queue t' 1) \<and> p_timequantum (procs t' 1) = 2"
proof -
  obtain t where t: "initpush 0 1 runnable3 = Ok t" "mlfq_inv t"
    using initpush_ok [OF mlfq_inv_runnable3, of 0 1] runnable3_proc(1) [of 1] by (auto simp: zero_proc_def)
  have p: "procs t 1 = zero_proc\<lparr>p_state := RUNNABLE, p_inqueue := True\<rparr>"
    using initpush_frame(2) [OF t(1)] runnable3_proc(1) [of 1] runnable3_proc(3) by simp
  obtain t' where "droppriority 1 t = Ok t'" "mlfq_inv t'"
     "Some 1 \<in> set (queue t' (nat (p_priority (procs t 1) + 1)))"
     "p_timequantum (procs t' 1) = 2 ^ nat (p_priority (procs t 1) + 1)"
    using droppriority_correct [OF t(2), of 1] p by (auto simp: zero_proc_def)
  with t p show ?thesis by (auto simp: zero_proc_def)
qed

lemma boostpriority_ok:
  assumes "mlfq_inv t"
  shows "\<exists>t'. boostpriority t = Ok t' \<and> mlfq_inv t' \<and> queued t' = queued t
    \<and> (\<forall>j<NPROC. queue t' 1 ! j = None \<and> queue t' 2 ! j = None)
    \<and> (\<forall>p<NPROC. procs t' p = (if Some p \<in> set (queue t 1) \<union> set (queue t 2)
          then boost_proc (procs t p) else procs t p))"
proof -
  obtain t1 where t1: "boost_loop 1 NPROC t = Ok t1" "mlfq_inv t1" "queued t1 = queued t"
    "\<forall>j. j \<noteq> 0 \<longrightarrow> j \<noteq> 1 \<longrightarrow> queue t1 j = queue t j" "\<forall>j<NPROC. queue t1 1 ! j = None"
    "\<forall>p<NPROC. procs t1 p = (if Some p \<in> set (queue t 1) \<and> Some p \<notin> set (queue t1 1)
          then boost_proc (procs t p) else procs t p)"
    using boost_loop_ok [OF assms, of 1 NPROC] scan_covers by force
  obtain t2 where t2: "boost_loop 2 NPROC t1 = Ok t2" "mlfq_inv t2" "queued t2 = queued t1"
    "\<forall>j. j \<noteq> 0 \<longrightarrow> j \<noteq> 2 \<longrightarrow> queue t2 j = queue t1 j" "\<forall>j<NPROC. queue t2 2 ! j = None"
    "\<forall>p<NPROC. procs t2 p = (if Some p \<in> set (queue t1 2) \<and> Some p \<notin> set (queue t2 2)
          then boost_proc (procs t1 p) else procs t1 p)"
    using boost_loop_ok [OF t1(2), of 2 NPROC] scan_covers by force
  have empty: "Some p \<notin> set (queue t1 1)" "Some p \<notin> set (queue t2 2)" for p
    using t1(2,5) t2(2,5) by (auto simp: mlfq_inv_def mlfq_shape_def in_set_conv_nth)
  have idem: "boost_proc (boost_proc x) = boost_proc x" for x by (simp add: boost_proc_def)
  have inv: "mlfq_inv (set_index 1 0 (set_index 2 0 t2))"
    by (intro mlfq_inv_set_index t2(2)) simp_all
  have q2: "queue t1 2 = queue t 2" "queue t2 1 = queue t1 1" using t1(4) t2(4) by simp_all
  have "procs t2 p = (if Some p \<in> set (queue t 1) \<union> set (queue t 2)
      then boost_proc (procs t p) else procs t p)" if "p < NPROC" for p
    using t1(6) t2(6) that empty idem q2 by simp
  then show ?thesis using t1 t2 inv q2 by (auto simp: boostpriority_def)
qed

text \<open>
  C4. \<open>boostpriority\<close> returns and leaves levels 1 and 2 empty; every process that was in them is in
  level 0 with the parameters of that level, all other processes are unchanged, and exactly the
  same processes are queued as before.
\<close>

theorem boostpriority_correct:
  assumes "mlfq_inv t"
  shows "\<exists>t'. boostpriority t = Ok t' \<and> mlfq_inv t' \<and> queued t' = queued t
    \<and> (\<forall>j<NPROC. queue t' 1 ! j = None \<and> queue t' 2 ! j = None)
    \<and> (\<forall>p<NPROC. procs t' p = (if Some p \<in> set (queue t 1) \<union> set (queue t 2)
          then boost_proc (procs t p) else procs t p))"
  using boostpriority_ok [OF assms] .

theorem boostpriority_correct_witness:
  "\<exists>t'. boostpriority runnable3 = Ok t' \<and> mlfq_inv t' \<and> (\<forall>j<NPROC. queue t' 1 ! j = None)"
  using boostpriority_correct [OF mlfq_inv_runnable3] by blast

section \<open>Where the scan continues after a removal\<close>

lemma level_unique:
  assumes inv: "mlfq_inv t" and l: "i < 3" "k < 3" and p: "Some p \<in> set (queue t i)" "Some p \<in> set (queue t k)"
  shows "i = k"
proof (rule ccontr)
  assume "i \<noteq> k"
  then have "mset (somes (queue t i)) + mset (somes (queue t k)) \<subseteq># queued t"
    using l by (auto simp: queued_def less_Suc_eq numeral_eq_Suc ac_simps)
  moreover have "{#p#} + {#p#} \<subseteq># mset (somes (queue t i)) + mset (somes (queue t k))"
    using p by (intro subset_mset.add_mono) auto
  ultimately have "{#p#} + {#p#} \<subseteq># queued t" by (rule subset_mset.trans [rotated])
  then have "count ({#p#} + {#p#}) p \<le> count (queued t) p" by (rule mset_subset_eq_count)
  then show False using queued_le_1 [OF inv, of p] by simp
qed

lemma pop_at:
  assumes inv: "mlfq_inv t" and i: "i < 3" and j: "j < NPROC" "queue t i ! j = Some p" and t': "pop p t = Ok t'"
  shows "m_index (pt_mlfq t') ! i = int j" "queue t' i = remove_nth j (queue t i) @ [None]"
proof -
  have len: "length (queue t k) = NPROC" if "k < 3" for k using inv that by (simp add: mlfq_inv_def length_queue)
  obtain k where k: "k < 3" "pop_from k p t = Some t'" using t' by (rule popE)
  obtain j' where j': "queue t k ! j' = Some p" "j' < NPROC" "m_index (pt_mlfq t') ! k = int j'"
    "queue t' k = remove_nth j' (queue t k) @ [None]"
    using pop_from_ok(4) [OF inv k] by blast
  have pin: "Some p \<in> set (queue t k)" "Some p \<in> set (queue t i)" using j j' len k(1) i by (metis nth_mem)+
  then have ki: "k = i" using level_unique [OF inv k(1) i] by blast
  have "j' = j"
  proof (rule ccontr)
    assume "j' \<noteq> j"
    then have "(queue t i)[j := None] ! j' = Some p" using j' ki by simp
    then have "Some p \<in> set ((queue t i)[j := None])" using j'(2) len [OF i]
      by (metis length_list_update nth_mem)
    then show False using queue_clear_mem [OF inv i j(1)] j(2) by simp
  qed
  with j' ki show "m_index (pt_mlfq t') ! i = int j" "queue t' i = remove_nth j (queue t i) @ [None]" by simp_all
qed

text \<open>
  After \<open>pop\<close> has removed the process of slot \<open>j\<close>, the process that followed it has moved into
  slot \<open>j\<close> and the scan position is \<open>j\<close> too, so the next \<open>top\<close> starts one slot further: of two
  runnable successors it returns the second, not the one right after the removed process.
\<close>

theorem pop_skips_successor:
  assumes inv: "mlfq_inv t" and i: "i < 3" and j: "Suc (Suc j) < NPROC" "queue t i ! j = Some p"
    and e: "eligible t (queue t i ! Suc j)" "eligible t (queue t i ! Suc (Suc j))"
    and t': "pop p t = Ok t'"
  shows "queue t' i ! j = queue t i ! Suc j \<and> fst (top i t') = queue t i ! Suc (Suc j)"
proof -
  have len: "length (queue t i) = NPROC" using inv i by (simp add: mlfq_inv_def length_queue)
  note at = pop_at [OF inv i _ j(2) t']
  have ix: "m_index (pt_mlfq t') ! i = int j" and q: "queue t' i = remove_nth j (queue t i) @ [None]"
    using at j(1) by simp_all
  have q1: "queue t' i ! Suc j = queue t i ! Suc (Suc j)" "queue t' i ! j = queue t i ! Suc j"
    using j(1) len by (auto simp: q remove_nth_def nth_append)
  have "p < length (pt_proc t)" using pop_inv(3) [OF inv t'] inv by (simp add: mlfq_inv_def mlfq_shape_def)
  then have "eligible t' x = eligible t x" for x
    by (auto simp: eligible_def pop_inv(4) [OF inv t'] nth_list_update split: option.split)
  then have el: "eligible t' (queue t' i ! Suc j)" using e(2) q1 by simp
  have m: "(int j + 1) mod 64 = int (Suc j)" using j(1) by simp
  have "top_loop (Suc 63) (queue t' i) t' (int j) = (queue t' i ! Suc j, int (Suc j))"
    using el m by (simp only: top_loop.simps Let_def of_nat_numeral m nat_int if_True)
  then have "top_loop NPROC (queue t' i) t' (int j) = (queue t' i ! Suc j, int (Suc j))" by simp
  then show ?thesis using q1 by (simp add: top_def ix)
qed

text \<open>Processes 0, 1 and 2 are pushed to level 0 in this order, then 0 is removed: \<open>top\<close> returns 2.\<close>

lemma push_first_free:
  assumes "i < 3" "k < NPROC" "\<forall>j<k. queue t i ! j \<noteq> None" "queue t i ! k = None"
  shows "push i p t = Ok (upd_proc p (\<lambda>p. p\<lparr>p_inqueue := True\<rparr>) (set_queue i ((queue t i)[k := Some p]) t))"
proof -
  have "search (\<lambda>j. queue t i ! j = None) 0 NPROC = Some k" using assms by (simp add: search_Some)
  then show ?thesis using assms(1) by (simp add: push_def)
qed

definition pushed3 :: ptable where
  "pushed3 = upd_proc 2 (\<lambda>p. p\<lparr>p_inqueue := True\<rparr>) (upd_proc 1 (\<lambda>p. p\<lparr>p_inqueue := True\<rparr>)
     (upd_proc 0 (\<lambda>p. p\<lparr>p_inqueue := True\<rparr>)
       (set_queue 0 ((replicate NPROC None)[0 := Some 0, 1 := Some 1, 2 := Some 2]) runnable3)))"

lemma pushed3_eq: "rbind (push 0 0 runnable3) (\<lambda>t. rbind (push 0 1 t) (push 0 2)) = Ok pushed3"
proof -
  let ?u = "\<lambda>p. upd_proc p (\<lambda>p. p\<lparr>p_inqueue := True\<rparr>)"
  have q: "queue runnable3 0 = replicate NPROC None" "length (m_queue (pt_mlfq runnable3)) = 3"
    by (simp_all add: runnable3_proc zero_ptable_def)
  have c: "set_queue i r (?u p t) = ?u p (set_queue i r t)" "set_queue i r (set_queue i r' t) = set_queue i r t"
    for i r r' p t by (simp_all add: set_queue_def upd_proc_def)
  have "push 0 0 runnable3 = Ok (?u 0 (set_queue 0 ((replicate NPROC None)[0 := Some 0]) runnable3))"
    using push_first_free [of 0 0 runnable3 0] q by simp
  moreover have "push 0 1 (?u 0 (set_queue 0 ((replicate NPROC None)[0 := Some 0]) runnable3))
     = Ok (?u 1 (?u 0 (set_queue 0 ((replicate NPROC None)[0 := Some 0, 1 := Some 1]) runnable3)))"
    by (subst push_first_free [of _ 1]) (simp_all add: q queue_set_queue c)
  moreover have "push 0 2 (?u 1 (?u 0 (set_queue 0 ((replicate NPROC None)[0 := Some 0, 1 := Some 1]) runnable3)))
     = Ok pushed3"
    by (subst push_first_free [of _ 2])
      (auto simp add: q queue_set_queue c pushed3_def less_Suc_eq numeral_eq_Suc nth_list_update)
  ultimately show ?thesis by simp
qed

lemma mlfq_inv_pushed3: "mlfq_inv pushed3"
proof -
  have p: "p < 3 \<Longrightarrow> \<not> p_inqueue (procs runnable3 p)" for p
    using runnable3_proc(1) by (simp add: zero_proc_def)
  obtain t1 where t1: "push 0 0 runnable3 = Ok t1" "mlfq_inv t1"
    using push_ok [OF mlfq_inv_runnable3] p by fastforce
  have f1: "pt_proc t1 = (pt_proc runnable3)[0 := (procs runnable3 0)\<lparr>p_inqueue := True\<rparr>]"
    by (rule push_frame(2) [OF t1(1)]) (simp add: runnable3_proc)
  obtain t2 where t2: "push 0 1 t1 = Ok t2" "mlfq_inv t2"
    using push_ok [OF t1(2), of 0 1] p [of 1] f1 by auto
  have f2: "pt_proc t2 = (pt_proc t1)[1 := (procs t1 1)\<lparr>p_inqueue := True\<rparr>]"
    by (rule push_frame(2) [OF t2(1)]) (simp add: f1 runnable3_proc)
  obtain t3 where "push 0 2 t2 = Ok t3" "mlfq_inv t3"
    using push_ok [OF t2(2), of 0 2] p [of 2] f1 f2 by auto
  with t1 t2 pushed3_eq show ?thesis by simp
qed

lemma pushed3_simps:
  "queue pushed3 0 = (replicate NPROC None)[0 := Some 0, 1 := Some 1, 2 := Some 2]"
  "m_index (pt_mlfq pushed3) = [0, 0, 0]"
  "p < 3 \<Longrightarrow> procs pushed3 p = zero_proc\<lparr>p_state := RUNNABLE, p_inqueue := True\<rparr>"
  using runnable3_proc(1) [of p]
  by (auto simp: pushed3_def procs_upd_proc runnable3_proc queue_set_queue zero_ptable_def)

lemma pushed3_eligible: "p < 3 \<Longrightarrow> eligible pushed3 (queue pushed3 0 ! p)"
proof -
  assume "p < 3"
  then have "p = 0 \<or> p = 1 \<or> p = 2" by auto
  then show ?thesis using pushed3_simps(3) [of p]
    by (auto simp: pushed3_simps(1) eligible_def zero_proc_def)
qed

theorem pop_skips_successor_witness:
  "\<exists>t'. pop 0 pushed3 = Ok t' \<and> queue t' 0 ! 0 = Some 1 \<and> fst (top 0 t') = Some 2"
proof -
  obtain t' where t': "pop 0 pushed3 = Ok t'"
    using pop_total [OF mlfq_inv_pushed3, of 0] pushed3_simps(3) [of 0] by auto
  from pop_skips_successor [OF mlfq_inv_pushed3, of 0 0 0 t'] t' pushed3_eligible [of 1] pushed3_eligible [of 2]
  show ?thesis by (simp add: pushed3_simps(1) numeral_2_eq_2)
qed

theorem top_round_robin_witness:
  "\<exists>t'. top 0 pushed3 = (Some 1, t') \<and> p_state (procs pushed3 1) = RUNNABLE
     \<and> (\<exists>d<NPROC. m_index (pt_mlfq t') ! 0 = (1 + int d) mod 64)"
proof -
  have "top_loop (Suc 63) (queue pushed3 0) pushed3 0 = (Some 1, 1)"
    using pushed3_eligible [of 1] by (simp only: top_loop.simps Let_def) (simp add: pushed3_simps(1))
  then have t: "top 0 pushed3 = (Some 1, set_index 0 1 pushed3)"
    by (simp add: top_def pushed3_simps(2))
  from top_round_robin [OF mlfq_inv_pushed3 _ this] t show ?thesis
    by (auto simp: pushed3_simps(2))
qed

end
