(* ===== verification/Sched.thy ===== *)
theory Sched
  imports Mlfq "HOL-Library.Signed_Division"
begin

text \<open>
  Scheduling (proc.c of proj_FileSystem/xv6-public): the CPU shares of \<open>set_cpu_share\<close>, the
  per-CPU scheduler that combines stride scheduling with the multi-level feedback queue, and the
  primitives \<open>sched\<close>, \<open>yield\<close>, \<open>sleep\<close> and \<open>kill\<close>. A context switch cuts the code of a kernel
  thread into parts: \<open>sleep\<close> and \<open>yield\<close> are the part before the switch and the part after it,
  and the scheduler is a state machine whose program counter says where it waits for a process to
  give up the CPU.
\<close>

section \<open>Machine arithmetic\<close>

text \<open>Signed division; by zero it is undefined.\<close>

definition cdiv :: "int \<Rightarrow> int \<Rightarrow> int result" where
  "cdiv a b = (if b = 0 then Err (Fault ''divide'') else int32 (a sdiv b))"

abbreviation (input) MAXTICKET :: int where "MAXTICKET \<equiv> 10000000"
abbreviation (input) PBOOST :: nat where "PBOOST \<equiv> 100"

section \<open>CPU shares\<close>

definition getlev :: "'a kst_scheme \<Rightarrow> int result" where
  "getlev s = (case curproc s of None \<Rightarrow> Err (Fault ''myproc'')
     | Some p \<Rightarrow> Ok (p_priority (procs (pt s) p)))"

definition set_mlfq_share :: "int \<Rightarrow> ptable \<Rightarrow> ptable" where
  "set_mlfq_share x t = t\<lparr>pt_mlfq := (pt_mlfq t)\<lparr>m_percentage := x\<rparr>\<rparr>"

text \<open>The two loops over the threads \<open>cthread[0..NPROC)\<close> of a process.\<close>

definition push_threads :: "nat \<Rightarrow> ptable \<Rightarrow> ptable result" where
  "push_threads m t = rfold (\<lambda>i t. case p_cthread (procs t m) ! i of
       None \<Rightarrow> Ok t
     | Some c \<Rightarrow> if \<not> p_inqueue (procs t c) \<and> p_state (procs t c) \<noteq> ZOMBIE then initpush 0 c t else Ok t)
     [0..<NPROC] t"

definition pop_threads :: "nat \<Rightarrow> ptable \<Rightarrow> ptable result" where
  "pop_threads m t = rfold (\<lambda>i t. case p_cthread (procs t m) ! i of
       None \<Rightarrow> Ok t
     | Some c \<Rightarrow> if p_inqueue (procs t c) \<and> p_state (procs t c) \<noteq> ZOMBIE then pop c t else Ok t)
     [0..<NPROC] t"

definition set_cpu_share :: "int \<Rightarrow> 'a kst_scheme \<Rightarrow> (int \<times> 'a kst_scheme) result" where
  "set_cpu_share percentage s =
     (case curproc s of None \<Rightarrow> Err (Fault ''myproc'') | Some p \<Rightarrow>
     (case p_mthread (procs (pt s) p) of None \<Rightarrow> Err (Fault ''mthread'') | Some m \<Rightarrow>
      rbind (acquire PtableLock s) (\<lambda>s.
      let t = pt s; old = p_percentage (procs t m); ml = m_percentage (pt_mlfq t) in
      if old \<noteq> 0 then
        rbind (int32 (percentage - old)) (\<lambda>diff.
        rbind (int32 (ml - diff)) (\<lambda>rest.
        if rest < 20 then rbind (release PtableLock s) (\<lambda>s. Ok (-1, s))
        else rbind (int32 (old + diff)) (\<lambda>new.
          let t = set_mlfq_share rest (upd_proc m (\<lambda>p. p\<lparr>p_percentage := new\<rparr>) t) in
          rbind (if new = 0 then push_threads m t else Ok t) (\<lambda>t.
          rbind (release PtableLock (s\<lparr>pt := t\<rparr>)) (\<lambda>s. Ok (percentage, s))))))
      else
        rbind (int32 (ml - percentage)) (\<lambda>rest.
        if rest < 20 then rbind (release PtableLock s) (\<lambda>s. Ok (-1, s))
        else if percentage = 0 then rbind (release PtableLock s) (\<lambda>s. Ok (-1, s))
        else rbind (pop_threads m t) (\<lambda>t.
          let t = set_mlfq_share rest (upd_proc m (\<lambda>p. p\<lparr>p_percentage := percentage, p_pass := pt_minpass t\<rparr>) t) in
          rbind (release PtableLock (s\<lparr>pt := t\<rparr>)) (\<lambda>s. Ok (percentage, s)))))))"

section \<open>Giving up the CPU\<close>

text \<open>
  \<open>sched\<close> up to the call of \<open>swtch\<close>: the caller holds only \<open>ptable.lock\<close> and has changed its
  state. The number of held locks stands for \<open>mycpu()->ncli\<close>.
\<close>

definition sched :: "'a kst_scheme \<Rightarrow> 'a kst_scheme result" where
  "sched s = (case curproc s of None \<Rightarrow> Err (Fault ''myproc'') | Some p \<Rightarrow>
     if PtableLock \<notin> set (held s) then Err (Panic ''sched ptable.lock'')
     else if length (held s) \<noteq> 1 then Err (Panic ''sched locks'')
     else if p_state (procs (pt s) p) = RUNNING then Err (Panic ''sched running'')
     else Ok s)"

definition set_state :: "nat \<Rightarrow> procstate \<Rightarrow> 'a kst_scheme \<Rightarrow> 'a kst_scheme" where
  "set_state p x s = s\<lparr>pt := upd_proc p (\<lambda>p. p\<lparr>p_state := x\<rparr>) (pt s)\<rparr>"

definition yield_enter :: "'a kst_scheme \<Rightarrow> 'a kst_scheme result" where
  "yield_enter s = rbind (acquire PtableLock s) (\<lambda>s.
     case curproc s of None \<Rightarrow> Err (Fault ''myproc'') | Some p \<Rightarrow> sched (set_state p RUNNABLE s))"

definition yield_leave :: "'a kst_scheme \<Rightarrow> 'a kst_scheme result" where
  "yield_leave s = release PtableLock s"

text \<open>
  \<open>sleep\<close> and \<open>wakeup\<close> are sequences of accesses to shared state, so that the order of the locks can be
  seen by another CPU: \<open>Acq\<close> and \<open>Rel\<close> are \<open>acquire\<close> and \<open>release\<close>, \<open>Mark\<close> is \<open>p->chan = chan; p->state =
  SLEEPING\<close>, \<open>CallSched\<close> the call of \<open>sched\<close>, \<open>Tidy\<close> is \<open>p->chan = 0\<close>, and \<open>Wake1\<close> the call of \<open>wakeup1\<close>.
  \<open>Change f\<close> stands for the caller's assignments to its own data under its lock, and \<open>Dispatch\<close> for the
  \<open>scheduler\<close> that takes \<open>ptable.lock\<close> and finds the process \<open>RUNNABLE\<close>.
\<close>

datatype 'a act = Acq lockid | Rel lockid | Mark chan | CallSched | Tidy | Wake1 chan | Change "'a \<Rightarrow> 'a" | Dispatch

fun run_act :: "'a act \<Rightarrow> 'a kst_scheme \<Rightarrow> 'a kst_scheme result" where
  "run_act (Acq l) s = acquire l s"
| "run_act (Rel l) s = release l s"
| "run_act (Mark c) s = (case curproc s of None \<Rightarrow> Err (Panic ''sleep'') | Some p \<Rightarrow>
     Ok (s\<lparr>pt := upd_proc p (\<lambda>p. p\<lparr>p_chan := Some c, p_state := SLEEPING\<rparr>) (pt s)\<rparr>))"
| "run_act CallSched s = sched s"
| "run_act Tidy s = (case curproc s of None \<Rightarrow> Err (Fault ''sleep'') | Some p \<Rightarrow>
     Ok (s\<lparr>pt := upd_proc p (\<lambda>p. p\<lparr>p_chan := None\<rparr>) (pt s)\<rparr>))"
| "run_act (Wake1 c) s = Ok (s\<lparr>pt := wakeup1 (Some c) (pt s)\<rparr>)"
| "run_act (Change f) s = Ok (kst.more_update f s)"
| "run_act Dispatch s = (case curproc s of None \<Rightarrow> Err (Fault ''myproc'') | Some p \<Rightarrow>
     rbind (acquire PtableLock s) (\<lambda>s. if p_state (procs (pt s) p) \<noteq> RUNNABLE then Err (Fault ''not runnable'')
       else Ok (s\<lparr>pt := upd_proc p (\<lambda>p. p\<lparr>p_state := RUNNING\<rparr>) (pt s)\<rparr>)))"

definition sleep_acts :: "chan \<Rightarrow> lockid \<Rightarrow> 'a act list" where
  "sleep_acts c lk = (if lk \<noteq> PtableLock then [Acq PtableLock, Rel lk] else []) @ [Mark c, CallSched]"

definition leave_acts :: "lockid \<Rightarrow> 'a act list" where
  "leave_acts lk = Tidy # (if lk \<noteq> PtableLock then [Rel PtableLock, Acq lk] else [])"

definition sleep_enter :: "chan \<Rightarrow> lockid \<Rightarrow> 'a kst_scheme \<Rightarrow> 'a kst_scheme result" where
  "sleep_enter c lk s = (if curproc s = None then Err (Panic ''sleep'') else rfold run_act (sleep_acts c lk) s)"

definition sleep_leave :: "lockid \<Rightarrow> 'a kst_scheme \<Rightarrow> 'a kst_scheme result" where
  "sleep_leave lk s = rfold run_act (leave_acts lk) s"

definition wakeup_acts :: "chan \<Rightarrow> 'a act list" where
  "wakeup_acts c = [Acq PtableLock, Wake1 c, Rel PtableLock]"

text \<open>Run without interruption, in the form the callers' proofs use.\<close>

lemma sleep_enter_seq:
  "sleep_enter c lk s = (case curproc s of None \<Rightarrow> Err (Panic ''sleep'') | Some p \<Rightarrow>
     rbind (if lk \<noteq> PtableLock then rbind (acquire PtableLock s) (release lk) else Ok s) (\<lambda>s.
     sched (s\<lparr>pt := upd_proc p (\<lambda>p. p\<lparr>p_chan := Some c, p_state := SLEEPING\<rparr>) (pt s)\<rparr>)))"
  by (auto simp: sleep_enter_def sleep_acts_def acquire_def release_def sched_def split: option.splits)

lemma sleep_leave_seq:
  "sleep_leave lk s = (case curproc s of None \<Rightarrow> Err (Fault ''sleep'') | Some p \<Rightarrow>
     let s = s\<lparr>pt := upd_proc p (\<lambda>p. p\<lparr>p_chan := None\<rparr>) (pt s)\<rparr> in
     if lk \<noteq> PtableLock then rbind (release PtableLock s) (acquire lk) else Ok s)"
  by (auto simp: sleep_leave_def leave_acts_def acquire_def release_def Let_def split: option.splits)

lemma wakeup_seq: "wakeup c s = rfold run_act (wakeup_acts c) s"
  by (simp add: wakeup_def wakeup_acts_def acquire_def release_def)

definition kill :: "int \<Rightarrow> 'a kst_scheme \<Rightarrow> (int \<times> 'a kst_scheme) result" where
  "kill pid s = rbind (acquire PtableLock s) (\<lambda>s.
     case search (\<lambda>p. p_pid (procs (pt s) p) = pid) 0 NPROC of
       None \<Rightarrow> rbind (release PtableLock s) (\<lambda>s. Ok (-1, s))
     | Some p \<Rightarrow> (case p_mthread (procs (pt s) p) of None \<Rightarrow> Err (Fault ''mthread'') | Some m \<Rightarrow>
         let t = upd_proc m (\<lambda>q. q\<lparr>p_killed := True\<rparr>) (upd_proc p (\<lambda>q. q\<lparr>p_killed := True\<rparr>) (pt s));
             t = (if p_state (procs t p) = SLEEPING then upd_proc p (\<lambda>q. q\<lparr>p_state := RUNNABLE\<rparr>) t else t);
             t = upd_proc m (\<lambda>q. q\<lparr>p_state := RUNNABLE\<rparr>) t
         in rbind (release PtableLock (s\<lparr>pt := t\<rparr>)) (\<lambda>s. Ok (0, s))))"

section \<open>The scheduler\<close>

text \<open>
  The program counter of \<open>scheduler\<close>: at the head of the outer loop, at the head of the loop over
  the levels, or in \<open>swtch\<close> while a process of level \<open>i\<close> or a thread of a stride process runs.
\<close>

datatype spc = SIdle | SLook nat bool bool | SMlfq nat nat bool | SStride nat nat

record schedst =
  sc_pt :: ptable
  sc_locked :: bool
  sc_proc :: "nat option"
  sc_mproc :: "nat option"
  sc_nextboost :: nat
  sc_running :: nat
  sc_pc :: spc

text \<open>Lines up to the outer loop.\<close>

definition scheduler_start :: "ptable \<Rightarrow> schedst" where
  "scheduler_start t = \<lparr>sc_pt = set_mlfq_share 100 t, sc_locked = False, sc_proc = None, sc_mproc = None,
     sc_nextboost = PBOOST, sc_running = 0, sc_pc = SIdle\<rparr>"

fun min_scan :: "ptable \<Rightarrow> nat list \<Rightarrow> int \<Rightarrow> nat option \<Rightarrow> int \<times> nat option" where
  "min_scan t [] mp m = (mp, m)"
| "min_scan t (i # is) mp m =
     (let q = procs t i in
      if p_percentage q = 0 \<or> p_state q = UNUSED \<or> p_state q = EMBRYO \<or> p_state q = ZOMBIE then min_scan t is mp m
      else if mp > p_pass q then min_scan t is (p_pass q) (Some i)
      else min_scan t is mp m)"

text \<open>The round robin among the threads of the stride process \<open>m\<close>, with \<open>n\<close> iterations left.\<close>

fun rr_loop :: "nat \<Rightarrow> nat \<Rightarrow> ptable \<Rightarrow> nat option \<times> ptable" where
  "rr_loop 0 m t = (None, t)"
| "rr_loop (Suc n) m t =
     (let t = upd_proc m (\<lambda>q. q\<lparr>p_rrlast := (p_rrlast q + 1) mod int NPROC\<rparr>) t in
      case p_cthread (procs t m) ! nat (p_rrlast (procs t m)) of
        Some c \<Rightarrow> if p_state (procs t c) = RUNNABLE then (Some c, t) else rr_loop n m t
      | None \<Rightarrow> rr_loop n m t)"

definition set_mlfq_pass :: "int \<Rightarrow> ptable \<Rightarrow> ptable" where
  "set_mlfq_pass x t = t\<lparr>pt_mlfq := (pt_mlfq t)\<lparr>m_pass := x\<rparr>\<rparr>"

definition dispatch :: "nat \<Rightarrow> spc \<Rightarrow> schedst \<Rightarrow> schedst" where
  "dispatch p pc s = s\<lparr>sc_proc := Some p, sc_pt := upd_proc p (\<lambda>q. q\<lparr>p_state := RUNNING\<rparr>) (sc_pt s), sc_pc := pc\<rparr>"

text \<open>
  One pass of the outer loop up to the first switch or to the loop over the levels. The
  \<open>continue\<close> of a stride process without runnable thread goes back to the head of the loop with
  the lock held.
\<close>

definition sched_round :: "schedst \<Rightarrow> schedst result" where
  "sched_round s =
     (if sc_locked s then Err (Panic ''acquire'')
      else
        let s = s\<lparr>sc_locked := True\<rparr>; t = sc_pt s; ml = pt_mlfq t;
            (mp, m) = (if m_percentage ml \<noteq> 100 then min_scan t [0..<NPROC] (m_pass ml) (sc_mproc s) else (m_pass ml, sc_mproc s));
            t = t\<lparr>pt_minpass := mp\<rparr>; s = s\<lparr>sc_pt := t, sc_mproc := m\<rparr>
        in if mp = m_pass ml then
             (if m_percentage ml \<noteq> 100 then
                rbind (cdiv MAXTICKET (m_percentage ml)) (\<lambda>d.
                rbind (int32 (m_pass ml + d)) (\<lambda>x.
                Ok (s\<lparr>sc_pt := set_mlfq_pass x t, sc_pc := SLook 0 False False\<rparr>)))
              else Ok (s\<lparr>sc_pc := SLook 0 False True\<rparr>))
           else (case m of None \<Rightarrow> Err (Fault ''mproc'')
             | Some m \<Rightarrow> (case rr_loop NPROC m t of
                 (None, t) \<Rightarrow> Ok (s\<lparr>sc_pt := t, sc_pc := SIdle\<rparr>)
               | (Some p, t) \<Rightarrow> Ok (dispatch p (SStride m p) (s\<lparr>sc_pt := t\<rparr>)))))"

definition sched_look :: "nat \<Rightarrow> bool \<Rightarrow> bool \<Rightarrow> schedst \<Rightarrow> schedst" where
  "sched_look i done monopoly s =
     (if i \<ge> 3 then s\<lparr>sc_locked := False, sc_pc := SIdle\<rparr>
      else let (p, t) = top i (sc_pt s); s = s\<lparr>sc_pt := t\<rparr> in
        case p of
          Some p \<Rightarrow> if monopoly \<or> \<not> done then dispatch p (SMlfq i p monopoly) s
                    else s\<lparr>sc_pc := SLook (i + 1) done monopoly\<rparr>
        | None \<Rightarrow> s\<lparr>sc_pc := SLook (i + 1) done monopoly\<rparr>)"

text \<open>
  The test \<open>mproc->percentage != 0\<close> reads through a null pointer as long as no stride process has
  been found; the user page table is still loaded, so the value is whatever the running process has
  at that address, the parameter \<open>null_share\<close>.
\<close>

definition mproc_share :: "int \<Rightarrow> ptable \<Rightarrow> nat option \<Rightarrow> int" where
  "mproc_share null_share t m = (case m of None \<Rightarrow> null_share | Some m \<Rightarrow> p_percentage (procs t m))"

definition mlfq_back :: "int \<Rightarrow> nat \<Rightarrow> nat \<Rightarrow> bool \<Rightarrow> schedst \<Rightarrow> schedst result" where
  "mlfq_back null_share i p monopoly s =
     (let t = sc_pt s in
      rbind (int32 (p_ticks (procs t p) + 1)) (\<lambda>ticks.
      rbind (int32 (p_curticks (procs t p) + 1)) (\<lambda>cur.
      let t = upd_proc p (\<lambda>q. q\<lparr>p_ticks := ticks, p_curticks := cur\<rparr>) t; running = u32 (sc_running s + 1);
          ml = pt_mlfq t in
      rbind (if m_percentage ml \<noteq> 100 then
          rbind (cdiv MAXTICKET (m_percentage ml)) (\<lambda>d.
          rbind (int32 (d * (cur - 1))) (\<lambda>e.
          rbind (int32 (m_pass ml + e)) (\<lambda>x. Ok (set_mlfq_pass x t))))
        else Ok t) (\<lambda>t.
      if running \<ge> sc_nextboost s then
        rbind (boostpriority t) (\<lambda>t.
        Ok (s\<lparr>sc_pt := t, sc_running := running, sc_nextboost := u32 (running + PBOOST), sc_pc := SLook 0 True monopoly\<rparr>))
      else
        rbind (if p_priority (procs t p) \<noteq> 2 \<and> p_ticks (procs t p) \<ge> p_timeallotment (procs t p)
          then droppriority p t else Ok t) (\<lambda>t.
        let monopoly = (if mproc_share null_share t (sc_mproc s) \<noteq> 0 then False else monopoly);
            t = upd_proc p (\<lambda>q. q\<lparr>p_curticks := 0\<rparr>) t in
        Ok (s\<lparr>sc_pt := t, sc_running := running, sc_proc := None, sc_pc := SLook i True monopoly\<rparr>))))))"

definition stride_back :: "nat \<Rightarrow> schedst \<Rightarrow> schedst result" where
  "stride_back m s =
     (let t = sc_pt s in
      rbind (cdiv MAXTICKET (p_percentage (procs t m))) (\<lambda>d.
      rbind (int32 (p_pass (procs t m) + d)) (\<lambda>x.
      Ok (s\<lparr>sc_pt := upd_proc m (\<lambda>q. q\<lparr>p_pass := x\<rparr>) t, sc_proc := None, sc_locked := False, sc_pc := SIdle\<rparr>))))"

text \<open>
  The steps of the scheduler. While a process runs the table changes in any way that keeps the
  queues well-formed; the scheduler's own variables are local to it.
\<close>

inductive sched_step :: "int \<Rightarrow> schedst \<Rightarrow> schedst \<Rightarrow> bool" for null_share where
  round: "sc_pc s = SIdle \<Longrightarrow> sched_round s = Ok s' \<Longrightarrow> sched_step null_share s s'"
| look: "sc_pc s = SLook i d m \<Longrightarrow> sched_step null_share s (sched_look i d m s)"
| mlfq_back: "sc_pc s = SMlfq i p m \<Longrightarrow> mlfq_back null_share i p m s = Ok s' \<Longrightarrow> sched_step null_share s s'"
| stride_back: "sc_pc s = SStride m p \<Longrightarrow> stride_back m s = Ok s' \<Longrightarrow> sched_step null_share s s'"
| run: "sc_pc s = SMlfq i p m \<or> sc_pc s = SStride q p \<or> sc_pc s = SIdle \<and> \<not> sc_locked s \<Longrightarrow> mlfq_inv t \<Longrightarrow>
    sched_step null_share s (s\<lparr>sc_pt := t\<rparr>)"

inductive_cases sched_stepE: "sched_step null_share s s'"

section \<open>Shares\<close>

text \<open>The shares of all processes and of the queues add up to 100.\<close>

definition share_inv :: "ptable \<Rightarrow> bool" where
  "share_inv t \<longleftrightarrow> m_percentage (pt_mlfq t) + (\<Sum>p<NPROC. p_percentage (procs t p)) = 100"

definition threads_ok :: "ptable \<Rightarrow> nat \<Rightarrow> bool" where
  "threads_ok t m \<longleftrightarrow> m < NPROC \<and> length (p_cthread (procs t m)) = NPROC
     \<and> (\<forall>i<NPROC. \<forall>c. p_cthread (procs t m) ! i = Some c \<longrightarrow> c < NPROC)"

lemma pool_frame_proc:
  assumes "pool_frame t = pool_frame t0" "q < length (pt_proc t0)"
  shows "length (pt_proc t) = length (pt_proc t0)" "p_cthread (procs t q) = p_cthread (procs t0 q)"
    "p_state (procs t q) = p_state (procs t0 q)" "p_percentage (procs t q) = p_percentage (procs t0 q)"
    "m_percentage (pt_mlfq t) = m_percentage (pt_mlfq t0)" "pt_minpass t = pt_minpass t0"
proof -
  have m: "map (\<lambda>p. p\<lparr>p_inqueue := False\<rparr>) (pt_proc t) = map (\<lambda>p. p\<lparr>p_inqueue := False\<rparr>) (pt_proc t0)"
    and o: "m_percentage (pt_mlfq t) = m_percentage (pt_mlfq t0)" "pt_minpass t = pt_minpass t0"
    using assms(1) by (simp_all add: pool_frame_def)
  show l: "length (pt_proc t) = length (pt_proc t0)" using arg_cong [OF m, of length] by simp
  have e: "(procs t q)\<lparr>p_inqueue := False\<rparr> = (procs t0 q)\<lparr>p_inqueue := False\<rparr>"
    using arg_cong [OF m, of "\<lambda>l. l ! q"] assms(2) l by simp
  show "p_cthread (procs t q) = p_cthread (procs t0 q)" using arg_cong [OF e, of p_cthread] by simp
  show "p_state (procs t q) = p_state (procs t0 q)" using arg_cong [OF e, of p_state] by simp
  show "p_percentage (procs t q) = p_percentage (procs t0 q)" using arg_cong [OF e, of p_percentage] by simp
qed (use assms(1) in \<open>simp_all add: pool_frame_def\<close>)

lemma mlfq_inv_len: "mlfq_inv t \<Longrightarrow> length (pt_proc t) = NPROC"
  by (simp add: mlfq_inv_def mlfq_shape_def)

lemma in_pool_iff: "q < NPROC \<Longrightarrow> q \<in> in_pool t \<longleftrightarrow> p_inqueue (procs t q)"
  by (simp add: in_pool_def)

text \<open>After the loops exactly the right threads are in the queues.\<close>

lemma pop_threads_ok:
  assumes inv: "mlfq_inv t0" and th: "threads_ok t0 m"
  shows "\<exists>t. pop_threads m t0 = Ok t \<and> mlfq_inv t \<and> pool_frame t = pool_frame t0 \<and> in_pool t \<subseteq> in_pool t0
    \<and> (\<forall>i<NPROC. \<forall>c. p_cthread (procs t0 m) ! i = Some c \<longrightarrow> p_state (procs t0 c) \<noteq> ZOMBIE \<longrightarrow> \<not> p_inqueue (procs t c))"
proof -
  let ?I = "\<lambda>j t. mlfq_inv t \<and> pool_frame t = pool_frame t0 \<and> in_pool t \<subseteq> in_pool t0
    \<and> (\<forall>i<j. \<forall>c. p_cthread (procs t0 m) ! i = Some c \<longrightarrow> p_state (procs t0 c) \<noteq> ZOMBIE \<longrightarrow> c \<notin> in_pool t)"
  have m: "m < NPROC" using th by (simp add: threads_ok_def)
  have cth: "c < NPROC" if "i < NPROC" "p_cthread (procs t0 m) ! i = Some c" for i c
    using th that by (simp add: threads_ok_def)
  have "\<exists>t. pop_threads m t0 = Ok t \<and> ?I NPROC t"
    unfolding pop_threads_def
  proof (rule rfold_upt)
    fix j t assume j: "j < NPROC" and I: "?I j t"
    have fr: "p_cthread (procs t m) = p_cthread (procs t0 m)"
      using pool_frame_proc(2) [of t t0 m] I m mlfq_inv_len [OF inv] by simp
    show "\<exists>t'. (case p_cthread (procs t m) ! j of None \<Rightarrow> Ok t
        | Some c \<Rightarrow> if p_inqueue (procs t c) \<and> p_state (procs t c) \<noteq> ZOMBIE then pop c t else Ok t) = Ok t' \<and> ?I (Suc j) t'"
    proof (cases "p_cthread (procs t0 m) ! j")
      case None
      then show ?thesis using I fr by (auto simp: less_Suc_eq)
    next
      case (Some c)
      have c: "c < NPROC" by (rule cth [OF j Some])
      have st: "p_state (procs t c) = p_state (procs t0 c)"
        using pool_frame_proc(3) [of t t0 c] I c mlfq_inv_len [OF inv] by simp
      show ?thesis
      proof (cases "p_inqueue (procs t c) \<and> p_state (procs t c) \<noteq> ZOMBIE")
        case True
        then have "c \<in> in_pool t" using c by (simp add: in_pool_iff)
        then obtain t' where "pop c t = Ok t'" "mlfq_inv t'" "in_pool t' = in_pool t - {c}" "pool_frame t' = pool_frame t"
          using mq.del_ok [of t c] I by blast
        then show ?thesis using I True Some fr by (auto simp: less_Suc_eq)
      next
        case False
        then show ?thesis using I Some fr st c by (auto simp: less_Suc_eq in_pool_iff)
      qed
    qed
  qed (use inv in simp)
  then show ?thesis using cth in_pool_iff by blast
qed

lemma push_threads_ok:
  assumes inv: "mlfq_inv t0" and th: "threads_ok t0 m"
  shows "\<exists>t. push_threads m t0 = Ok t \<and> mlfq_inv t \<and> pool_frame t = pool_frame t0 \<and> in_pool t0 \<subseteq> in_pool t
    \<and> (\<forall>i<NPROC. \<forall>c. p_cthread (procs t0 m) ! i = Some c \<longrightarrow> p_state (procs t0 c) \<noteq> ZOMBIE \<longrightarrow> p_inqueue (procs t c))"
proof -
  let ?I = "\<lambda>j t. mlfq_inv t \<and> pool_frame t = pool_frame t0 \<and> in_pool t0 \<subseteq> in_pool t
    \<and> (\<forall>i<j. \<forall>c. p_cthread (procs t0 m) ! i = Some c \<longrightarrow> p_state (procs t0 c) \<noteq> ZOMBIE \<longrightarrow> c \<in> in_pool t)"
  have m: "m < NPROC" using th by (simp add: threads_ok_def)
  have cth: "c < NPROC" if "i < NPROC" "p_cthread (procs t0 m) ! i = Some c" for i c
    using th that by (simp add: threads_ok_def)
  have "\<exists>t. push_threads m t0 = Ok t \<and> ?I NPROC t"
    unfolding push_threads_def
  proof (rule rfold_upt)
    fix j t assume j: "j < NPROC" and I: "?I j t"
    have fr: "p_cthread (procs t m) = p_cthread (procs t0 m)"
      using pool_frame_proc(2) [of t t0 m] I m mlfq_inv_len [OF inv] by simp
    show "\<exists>t'. (case p_cthread (procs t m) ! j of None \<Rightarrow> Ok t
        | Some c \<Rightarrow> if \<not> p_inqueue (procs t c) \<and> p_state (procs t c) \<noteq> ZOMBIE then initpush 0 c t else Ok t) = Ok t' \<and> ?I (Suc j) t'"
    proof (cases "p_cthread (procs t0 m) ! j")
      case None
      then show ?thesis using I fr by (auto simp: less_Suc_eq)
    next
      case (Some c)
      have c: "c < NPROC" by (rule cth [OF j Some])
      have st: "p_state (procs t c) = p_state (procs t0 c)"
        using pool_frame_proc(3) [of t t0 c] I c mlfq_inv_len [OF inv] by simp
      show ?thesis
      proof (cases "\<not> p_inqueue (procs t c) \<and> p_state (procs t c) \<noteq> ZOMBIE")
        case True
        then have "c \<notin> in_pool t" using c by (simp add: in_pool_iff)
        then obtain t' where "initpush 0 c t = Ok t'" "mlfq_inv t'" "in_pool t' = insert c (in_pool t)" "pool_frame t' = pool_frame t"
          using mq.add_ok [of t c] I c by blast
        then show ?thesis using I True Some fr by (auto simp: less_Suc_eq)
      next
        case False
        then show ?thesis using I Some fr st c by (auto simp: less_Suc_eq in_pool_iff)
      qed
    qed
  qed (use inv in simp)
  then show ?thesis using cth in_pool_iff by blast
qed

lemma share_upd:
  assumes "m < NPROC" "length (pt_proc t) = NPROC"
  shows "(\<Sum>p<NPROC. p_percentage (procs (upd_proc m f t) p)) =
    (\<Sum>p<NPROC. p_percentage (procs t p)) - p_percentage (procs t m) + p_percentage (f (procs t m))"
proof -
  have r: "(\<Sum>p<NPROC. g p) = g m + (\<Sum>p\<in>{..<NPROC} - {m}. g p)" for g :: "nat \<Rightarrow> int"
    using assms(1) by (intro sum.remove) auto
  have "(\<Sum>p\<in>{..<NPROC} - {m}. p_percentage (procs (upd_proc m f t) p)) = (\<Sum>p\<in>{..<NPROC} - {m}. p_percentage (procs t p))"
    by (intro sum.cong) auto
  then show ?thesis using r [of "\<lambda>p. p_percentage (procs (upd_proc m f t) p)"] r [of "\<lambda>p. p_percentage (procs t p)"] assms by simp
qed

lemma share_inv_frame:
  assumes "pool_frame t = pool_frame t0" "length (pt_proc t0) = NPROC"
  shows "share_inv t = share_inv t0"
proof -
  have "(\<Sum>p<NPROC. p_percentage (procs t p)) = (\<Sum>p<NPROC. p_percentage (procs t0 p))"
    using pool_frame_proc(4) [OF assms(1)] assms(2) by (intro sum.cong) auto
  then show ?thesis using assms(1) by (simp add: share_inv_def pool_frame_def)
qed

lemma set_mlfq_share_simps [simp]:
  "pt_proc (set_mlfq_share x t) = pt_proc t" "m_percentage (pt_mlfq (set_mlfq_share x t)) = x"
  "pt_minpass (set_mlfq_share x t) = pt_minpass t" "mlfq_inv (set_mlfq_share x t) = mlfq_inv t"
  "mlfq_shape (set_mlfq_share x t) = mlfq_shape t"
  by (simp_all add: set_mlfq_share_def mlfq_inv_def mlfq_shape_def queued_def)

lemma locked_ptable:
  assumes "held s = []"
  shows "acquire PtableLock s = Ok (s\<lparr>held := [PtableLock]\<rparr>)" "release PtableLock (s\<lparr>held := [PtableLock], pt := t\<rparr>) = Ok (s\<lparr>pt := t\<rparr>)"
    "release PtableLock (s\<lparr>held := [PtableLock]\<rparr>) = Ok s"
  using assms by (simp_all add: acquire_def release_def)

text \<open>What a successful \<open>set_cpu_share\<close> to \<open>x\<close> by the process \<open>m\<close> does to the table \<open>t0\<close>.\<close>

definition share_done :: "nat \<Rightarrow> int \<Rightarrow> ptable \<Rightarrow> ptable \<Rightarrow> bool" where
  "share_done m x t0 t \<longleftrightarrow> mlfq_inv t \<and> share_inv t
     \<and> m_percentage (pt_mlfq t) = m_percentage (pt_mlfq t0) + p_percentage (procs t0 m) - x
     \<and> p_percentage (procs t m) = x \<and> (\<forall>q<NPROC. q \<noteq> m \<longrightarrow> p_percentage (procs t q) = p_percentage (procs t0 q))
     \<and> (\<forall>i<NPROC. \<forall>c. p_cthread (procs t0 m) ! i = Some c \<longrightarrow> p_state (procs t0 c) \<noteq> ZOMBIE \<longrightarrow>
          (p_inqueue (procs t c) \<longleftrightarrow> x = 0 \<or> p_percentage (procs t0 m) \<noteq> 0 \<and> p_inqueue (procs t0 c)))"

lemma share_first:
  assumes inv: "mlfq_inv t0" and sh: "share_inv t0" and th: "threads_ok t0 m" and o: "p_percentage (procs t0 m) = 0" "x \<noteq> 0"
  shows "\<exists>t1. pop_threads m t0 = Ok t1 \<and> share_done m x t0
    (set_mlfq_share (m_percentage (pt_mlfq t0) - x) (upd_proc m (\<lambda>p. p\<lparr>p_percentage := x, p_pass := pt_minpass t1\<rparr>) t1))"
proof -
  have m: "m < NPROC" using th by (simp add: threads_ok_def)
  have l: "length (pt_proc t0) = NPROC" by (rule mlfq_inv_len [OF inv])
  obtain t1 where t1: "pop_threads m t0 = Ok t1" "mlfq_inv t1" "pool_frame t1 = pool_frame t0"
      "\<forall>i<NPROC. \<forall>c. p_cthread (procs t0 m) ! i = Some c \<longrightarrow> p_state (procs t0 c) \<noteq> ZOMBIE \<longrightarrow> \<not> p_inqueue (procs t1 c)"
    using pop_threads_ok [OF inv th] by blast
  let ?f = "\<lambda>p. p\<lparr>p_percentage := x, p_pass := pt_minpass t1\<rparr>"
  let ?t = "set_mlfq_share (m_percentage (pt_mlfq t0) - x) (upd_proc m ?f t1)"
  have l1: "length (pt_proc t1) = NPROC" by (rule mlfq_inv_len [OF t1(2)])
  note F = pool_frame_proc [OF t1(3), unfolded l]
  have "share_inv t1" using share_inv_frame [OF t1(3) l] sh by simp
  then have "share_inv ?t" using share_upd [OF m l1, of ?f] F(4) [OF m] F(5) [OF m] o(1) by (simp add: share_inv_def)
  moreover have "mlfq_inv ?t" using t1(2) by (simp add: mlfq_inv_upd_proc)
  moreover have "p_inqueue (procs ?t c) = p_inqueue (procs t1 c)" for c using m l1 by (simp add: procs_upd_proc)
  ultimately have "share_done m x t0 ?t" using o t1(4) m l1 F(4) by (simp add: share_done_def)
  then show ?thesis using t1(1) by blast
qed

lemma share_change:
  fixes x :: int
  assumes inv: "mlfq_inv t0" and sh: "share_inv t0" and th: "threads_ok t0 m" and o: "p_percentage (procs t0 m) \<noteq> 0"
  defines "t1 \<equiv> set_mlfq_share (m_percentage (pt_mlfq t0) - (x - p_percentage (procs t0 m))) (upd_proc m (\<lambda>p. p\<lparr>p_percentage := x\<rparr>) t0)"
  shows "x \<noteq> 0 \<Longrightarrow> share_done m x t0 t1" "x = 0 \<Longrightarrow> \<exists>t. push_threads m t1 = Ok t \<and> share_done m x t0 t"
proof -
  let ?f = "\<lambda>p. p\<lparr>p_percentage := x\<rparr>"
  have m: "m < NPROC" using th by (simp add: threads_ok_def)
  have l: "length (pt_proc t0) = NPROC" by (rule mlfq_inv_len [OF inv])
  have inv1: "mlfq_inv t1" using inv by (simp add: t1_def mlfq_inv_upd_proc)
  have sh1: "share_inv t1" using share_upd [OF m l, of ?f] sh by (simp add: t1_def share_inv_def)
  have pr: "p_cthread (procs t1 q) = p_cthread (procs t0 q)" "p_state (procs t1 q) = p_state (procs t0 q)"
      "p_inqueue (procs t1 q) = p_inqueue (procs t0 q)" and pc: "p_percentage (procs t1 q) = (if q = m then x else p_percentage (procs t0 q))" for q
    using m l by (simp_all add: t1_def procs_upd_proc)
  have ml: "m_percentage (pt_mlfq t1) = m_percentage (pt_mlfq t0) + p_percentage (procs t0 m) - x" by (simp add: t1_def)
  have th1: "threads_ok t1 m" using th unfolding threads_ok_def pr .
  have l1: "length (pt_proc t1) = NPROC" using l by (simp add: t1_def)
  show "share_done m x t0 t1" if "x \<noteq> 0" using that o inv1 sh1 pr(3) pc ml by (simp add: share_done_def)
  assume x: "x = 0"
  obtain t where t: "push_threads m t1 = Ok t" "mlfq_inv t" "pool_frame t = pool_frame t1"
      "\<forall>i<NPROC. \<forall>c. p_cthread (procs t1 m) ! i = Some c \<longrightarrow> p_state (procs t1 c) \<noteq> ZOMBIE \<longrightarrow> p_inqueue (procs t c)"
    using push_threads_ok [OF inv1 th1] by blast
  note F = pool_frame_proc [OF t(3), unfolded l1]
  have "share_inv t" using share_inv_frame [OF t(3) l1] sh1 by simp
  moreover have "m_percentage (pt_mlfq t) = m_percentage (pt_mlfq t1)" using F(5) [OF m] by simp
  moreover have "p_percentage (procs t q) = (if q = m then x else p_percentage (procs t0 q))" if "q < NPROC" for q
    using F(4) [OF that] pc by simp
  ultimately have "share_done m x t0 t" using x ml t(2) t(4) [unfolded pr] m by (simp add: share_done_def)
  then show "\<exists>t. push_threads m t1 = Ok t \<and> share_done m x t0 t" using t(1) by blast
qed

text \<open>
  C21. \<open>set_cpu_share\<close> keeps the shares of the processes and of the feedback queues adding up to 100
  and leaves the queues at least 20: a request that would leave less, and a first request for 0,
  return -1 and change nothing. Otherwise the main thread has the requested share, no other
  process's share changes, and the live threads of the process are in the queues exactly when the
  process has no share: they leave them on the first request and come back when the share is
  given up, without a panic of the queue operations.\<close>

theorem set_cpu_share_correct:
  fixes s :: "'a kst_scheme"
  assumes inv: "mlfq_inv (pt s)" and sh: "share_inv (pt s)" and th: "threads_ok (pt s) m" and h: "held s = []"
    and p: "curproc s = Some p" "p_mthread (procs (pt s) p) = Some m"
  defines "old \<equiv> p_percentage (procs (pt s) m)" and "ml \<equiv> m_percentage (pt_mlfq (pt s))"
  assumes range: "-(2 ^ 31) \<le> x - old" "x - old < 2 ^ 31" "-(2 ^ 31) \<le> ml - (x - old)" "ml - (x - old) < 2 ^ 31"
    "-(2 ^ 31) \<le> x" "x < 2 ^ 31"
  shows "if ml + old - x < 20 \<or> old = 0 \<and> x = 0 then set_cpu_share x s = Ok (-1, s)
    else \<exists>t. set_cpu_share x s = Ok (x, s\<lparr>pt := t\<rparr>) \<and> mlfq_inv t \<and> share_inv t
      \<and> m_percentage (pt_mlfq t) = ml + old - x \<and> 20 \<le> m_percentage (pt_mlfq t)
      \<and> p_percentage (procs t m) = x \<and> (\<forall>q<NPROC. q \<noteq> m \<longrightarrow> p_percentage (procs t q) = p_percentage (procs (pt s) q))
      \<and> (\<forall>i<NPROC. \<forall>c. p_cthread (procs (pt s) m) ! i = Some c \<longrightarrow> p_state (procs (pt s) c) \<noteq> ZOMBIE \<longrightarrow>
           (p_inqueue (procs t c) \<longleftrightarrow> x = 0 \<or> old \<noteq> 0 \<and> p_inqueue (procs (pt s) c)))"
proof -
  note L = locked_ptable [OF h] and D = set_cpu_share_def Let_def old_def [symmetric] ml_def [symmetric]
  have sum: "20 \<le> m_percentage (pt_mlfq t)" if "share_done m x (pt s) t" "\<not> ml + old - x < 20" for t
    using that by (simp add: share_done_def old_def ml_def)
  consider (fail) "ml + old - x < 20 \<or> old = 0 \<and> x = 0" | (first) "\<not> ml + old - x < 20" "old = 0" "x \<noteq> 0"
    | (change) "\<not> ml + old - x < 20" "old \<noteq> 0" by blast
  then show ?thesis
  proof cases
    case fail
    then have "set_cpu_share x s = Ok (-1, s)" using p L range by (auto simp: D)
    then show ?thesis using fail by simp
  next
    case first
    obtain t1 where t1: "pop_threads m (pt s) = Ok t1"
        "share_done m x (pt s) (set_mlfq_share (ml - x) (upd_proc m (\<lambda>p. p\<lparr>p_percentage := x, p_pass := pt_minpass t1\<rparr>) t1))" (is "share_done m x (pt s) ?t")
      using share_first [OF inv sh th, of x] first by (auto simp: old_def ml_def)
    have "set_cpu_share x s = Ok (x, s\<lparr>pt := ?t\<rparr>)" using p L range first t1(1) by (simp add: D)
    then show ?thesis using first t1(2) sum [OF t1(2) first(1)] by (auto simp: share_done_def old_def ml_def)
  next
    case change
    let ?t1 = "set_mlfq_share (ml - (x - old)) (upd_proc m (\<lambda>p. p\<lparr>p_percentage := x\<rparr>) (pt s))"
    note C = share_change [OF inv sh th, of x, folded old_def ml_def, OF change(2)]
    have e: "set_cpu_share x s = rbind (if x = 0 then push_threads m ?t1 else Ok ?t1) (\<lambda>t. Ok (x, s\<lparr>pt := t\<rparr>))"
      using p L range change by (simp add: D)
    obtain t where t: "(if x = 0 then push_threads m ?t1 else Ok ?t1) = Ok t" "share_done m x (pt s) t" using C by (cases "x = 0") auto
    have "set_cpu_share x s = Ok (x, s\<lparr>pt := t\<rparr>)" unfolding e t(1) by simp
    then show ?thesis using change t(2) sum [OF t(2) change(1)] by (auto simp: share_done_def old_def ml_def)
  qed
qed

definition share_demo :: kst where
  "share_demo = \<lparr>held = [], curproc = Some 0,
     pt = set_mlfq_share 100 (upd_proc 0 (\<lambda>p. p\<lparr>p_state := RUNNING, p_mthread := Some 0,
       p_cthread := (replicate NPROC None)[0 := Some 0]\<rparr>) zero_ptable)\<rparr>"

lemma share_demo_procs:
  "procs (pt share_demo) 0 = zero_proc\<lparr>p_state := RUNNING, p_mthread := Some 0, p_cthread := (replicate NPROC None)[0 := Some 0]\<rparr>"
  "p < NPROC \<Longrightarrow> p_percentage (procs (pt share_demo) p) = 0" "held share_demo = []" "curproc share_demo = Some 0"
  "m_percentage (pt_mlfq (pt share_demo)) = 100" "mlfq_inv (pt share_demo)" "threads_ok (pt share_demo) 0" "share_inv (pt share_demo)"
proof -
  have l: "length (pt_proc zero_ptable) = NPROC" by (simp add: zero_ptable_def)
  show p0: "procs (pt share_demo) 0 = zero_proc\<lparr>p_state := RUNNING, p_mthread := Some 0, p_cthread := (replicate NPROC None)[0 := Some 0]\<rparr>"
    by (simp add: share_demo_def l) (simp add: zero_ptable_def)
  show pc: "p_percentage (procs (pt share_demo) p) = 0" if "p < NPROC" for p
    using that by (cases "p = 0") (simp_all add: p0, simp_all add: share_demo_def zero_ptable_def zero_proc_def)
  show "held share_demo = []" "curproc share_demo = Some 0" "m_percentage (pt_mlfq (pt share_demo)) = 100"
    by (simp_all add: share_demo_def)
  then show "share_inv (pt share_demo)" using pc by (simp add: share_inv_def)
  show "mlfq_inv (pt share_demo)" by (simp add: share_demo_def mlfq_inv_upd_proc mlfq_inv_zero)
  show "threads_ok (pt share_demo) 0" by (auto simp: threads_ok_def p0 nth_list_update split: if_splits)
qed

theorem set_cpu_share_correct_witness:
  "\<exists>t. set_cpu_share 30 share_demo = Ok (30, share_demo\<lparr>pt := t\<rparr>) \<and> m_percentage (pt_mlfq t) = 70 \<and> share_inv t"
  using set_cpu_share_correct [OF share_demo_procs(6,8,7,3,4), of 30] share_demo_procs(1,2,5)
  by (simp add: zero_proc_def) blast

section \<open>Choosing the next process\<close>

definition stride_elig :: "ptable \<Rightarrow> nat \<Rightarrow> bool" where
  "stride_elig t i \<longleftrightarrow> p_percentage (procs t i) \<noteq> 0 \<and> p_state (procs t i) \<notin> {UNUSED, EMBRYO, ZOMBIE}"

lemma min_scan_spec:
  assumes "min_scan t is mp m = (mp', m')"
  shows "mp' \<le> mp" "\<And>i. i \<in> set is \<Longrightarrow> stride_elig t i \<Longrightarrow> mp' \<le> p_pass (procs t i)"
    "(mp' = mp \<and> m' = m) \<or> (mp' < mp \<and> (\<exists>i\<in>set is. stride_elig t i \<and> p_pass (procs t i) = mp' \<and> m' = Some i))"
proof -
  have "mp' \<le> mp \<and> (\<forall>i\<in>set is. stride_elig t i \<longrightarrow> mp' \<le> p_pass (procs t i)) \<and>
    ((mp' = mp \<and> m' = m) \<or> (mp' < mp \<and> (\<exists>i\<in>set is. stride_elig t i \<and> p_pass (procs t i) = mp' \<and> m' = Some i)))"
    using assms
  proof (induction t "is" mp m rule: min_scan.induct)
    case (2 t i "is" mp m)
    show ?case
    proof (cases "stride_elig t i")
      case False
      then have "min_scan t is mp m = (mp', m')" using "2.prems" by (auto simp: stride_elig_def Let_def)
      then show ?thesis using "2.IH"(1) [OF refl] False by (auto simp: stride_elig_def)
    next
      case True
      then have e: "\<not> (p_percentage (procs t i) = 0 \<or> p_state (procs t i) = UNUSED \<or> p_state (procs t i) = EMBRYO \<or> p_state (procs t i) = ZOMBIE)"
        by (simp add: stride_elig_def)
      show ?thesis
      proof (cases "mp > p_pass (procs t i)")
        case lt: True
        then have "min_scan t is (p_pass (procs t i)) (Some i) = (mp', m')" using "2.prems" e by (simp add: Let_def)
        from "2.IH"(2) [OF refl e lt this] show ?thesis using True lt by auto
      next
        case ge: False
        then have "min_scan t is mp m = (mp', m')" using "2.prems" e by (simp add: Let_def)
        from "2.IH"(3) [OF refl e ge this] show ?thesis using ge by auto
      qed
    qed
  qed simp
  then show "mp' \<le> mp" "\<And>i. i \<in> set is \<Longrightarrow> stride_elig t i \<Longrightarrow> mp' \<le> p_pass (procs t i)"
    "(mp' = mp \<and> m' = m) \<or> (mp' < mp \<and> (\<exists>i\<in>set is. stride_elig t i \<and> p_pass (procs t i) = mp' \<and> m' = Some i))"
    by blast+
qed

lemma upd_proc_compose: "upd_proc m f (upd_proc m g t) = upd_proc m (\<lambda>q. f (g q)) t"
  by (cases "m < length (pt_proc t)") (simp_all add: upd_proc_def list_update_beyond)

lemma rr_loop_spec:
  assumes "rr_loop n m t = (r, t')"
  shows "(\<exists>k. t' = upd_proc m (\<lambda>q. q\<lparr>p_rrlast := k\<rparr>) t) \<and> (\<forall>c. r = Some c \<longrightarrow> p_state (procs t c) = RUNNABLE)"
  using assms
proof (induction n arbitrary: t)
  case 0
  then show ?case by (auto intro!: exI [of _ "p_rrlast (procs t m)"] simp: upd_proc_def)
next
  case (Suc n)
  let ?u = "upd_proc m (\<lambda>q. q\<lparr>p_rrlast := (p_rrlast q + 1) mod int NPROC\<rparr>) t"
  have st: "p_state (procs ?u c) = p_state (procs t c)" for c
    by (cases "m < length (pt_proc t)") (simp_all add: procs_upd_proc, simp add: upd_proc_def list_update_beyond)
  have one: "\<exists>k. ?u = upd_proc m (\<lambda>q. q\<lparr>p_rrlast := k\<rparr>) t"
    by (rule exI [of _ "(p_rrlast (procs t m) + 1) mod int NPROC"]) (simp add: upd_proc_def)
  show ?case
  proof (cases "\<exists>c. p_cthread (procs ?u m) ! nat (p_rrlast (procs ?u m)) = Some c \<and> p_state (procs ?u c) = RUNNABLE")
    case True
    then obtain c where c: "p_cthread (procs ?u m) ! nat (p_rrlast (procs ?u m)) = Some c" "p_state (procs ?u c) = RUNNABLE" by blast
    then have "r = Some c" "t' = ?u" using Suc.prems by (simp_all add: Let_def)
    then show ?thesis using c(2) st one by auto
  next
    case False
    then have "rr_loop n m ?u = (r, t')" using Suc.prems by (auto simp: Let_def split: option.splits)
    from Suc.IH [OF this] show ?thesis using st by (auto simp: upd_proc_compose)
  qed
qed

lemma top_inv:
  assumes inv: "mlfq_inv t" and i: "i < 3" and tp: "top i t = (r, t')"
  shows "mlfq_inv t'" "pt_proc t' = pt_proc t" "\<And>p. r = Some p \<Longrightarrow> eligible t (Some p) \<and> p < NPROC"
proof -
  let ?rr = "m_index (pt_mlfq t) ! i"
  obtain rr' where l: "top_loop NPROC (queue t i) t ?rr = (r, rr')" "t' = set_index i rr' t"
    using tp by (auto simp: top_def split: prod.splits)
  have ix: "-1 \<le> ?rr" "?rr < int NPROC" using inv i by (auto simp: mlfq_inv_def mlfq_shape_def)
  have b: "-1 \<le> rr' \<and> rr' < int NPROC" if "top_loop n q t x = (r, rr')" "-1 \<le> x" "x < int NPROC" for n q x
    using that by (induction n arbitrary: x) (auto simp: Let_def split: if_splits)
  show "mlfq_inv t'" using b [OF l(1) ix] inv unfolding l(2) by (intro mlfq_inv_set_index) auto
  show "pt_proc t' = pt_proc t" unfolding l(2) by simp
  fix p assume r: "r = Some p"
  have "\<exists>d. r = queue t i ! nat rr' \<and> rr' = (?rr + 1 + int d) mod 64 \<and> eligible t r"
    using top_loop_spec [OF l(1)] r by auto
  then obtain d where d: "r = queue t i ! nat rr'" "rr' = (?rr + 1 + int d) mod 64" "eligible t r" by blast
  have "nat rr' < length (queue t i)" using inv i d(2) by (auto simp: mlfq_inv_def mlfq_shape_def nat_less_iff)
  then have "Some p \<in> set (queue t i)" using d(1) r by (metis nth_mem)
  then show "eligible t (Some p) \<and> p < NPROC" using d(3) r queue_entry(1) [OF inv i] by simp
qed

lemma droppriority_inv:
  assumes inv: "mlfq_inv t" and d: "droppriority p t = Ok t'"
  shows "mlfq_inv t'"
proof -
  obtain t1 where t1: "pop p t = Ok t1" using d by (auto simp: droppriority_def)
  note P = pop_inv [OF inv t1]
  let ?pr = "p_priority (procs t1 p)"
  have e: "droppriority p t = (if ?pr < -1 then Err (Fault ''queue'') else
     rbind (push (nat (?pr + 1)) p t1) (\<lambda>t.
     if ?pr = 0 then Ok (upd_proc p (\<lambda>p. p\<lparr>p_ticks := 0, p_curticks := 0, p_priority := 1, p_timequantum := 2, p_timeallotment := 10\<rparr>) t)
     else if ?pr = 1 then Ok (upd_proc p (\<lambda>p. p\<lparr>p_ticks := 0, p_priority := 2, p_timequantum := 4, p_timeallotment := 100\<rparr>) t)
     else Err (Panic ''failed to identify priority'')))"
    using t1 by (simp add: droppriority_def Let_def)
  obtain t2 where t2: "push (nat (?pr + 1)) p t1 = Ok t2" using d e by (auto split: if_splits)
  then have "nat (?pr + 1) < 3" by (simp add: push_def split: if_splits)
  then have "mlfq_inv t2" using push_ok [OF P(1) _ P(3,2)] t2 by fastforce
  then show ?thesis using d e t2 by (auto split: if_splits simp: mlfq_inv_upd_proc)
qed

section \<open>The scheduler's invariant\<close>

definition sched_inv :: "schedst \<Rightarrow> bool" where
  "sched_inv s \<longleftrightarrow> mlfq_inv (sc_pt s) \<and> (case sc_pc s of SIdle \<Rightarrow> True | SLook i d m \<Rightarrow> sc_locked s
     | SMlfq i p m \<Rightarrow> sc_locked s \<and> i < 3 \<and> p < NPROC \<and> sc_proc s = Some p | SStride m p \<Rightarrow> sc_locked s \<and> sc_proc s = Some p)"

definition running_pc :: "spc \<Rightarrow> nat option" where
  "running_pc pc = (case pc of SMlfq i p m \<Rightarrow> Some p | SStride m p \<Rightarrow> Some p | _ \<Rightarrow> None)"

lemma running_pc_simps [simp]:
  "running_pc SIdle = None" "running_pc (SLook i d m) = None" "running_pc (SMlfq i p m) = Some p" "running_pc (SStride q p) = Some p"
  by (simp_all add: running_pc_def)

lemma mlfq_inv_fields [simp]:
  "mlfq_inv (set_mlfq_pass x t) = mlfq_inv t" "mlfq_inv (t\<lparr>pt_minpass := x\<rparr>) = mlfq_inv t"
  "pt_proc (set_mlfq_pass x t) = pt_proc t"
  by (simp_all add: set_mlfq_pass_def mlfq_inv_def mlfq_shape_def queued_def)

lemma dispatch_inv:
  "mlfq_inv (sc_pt s) \<Longrightarrow> mlfq_inv (sc_pt (dispatch p pc s))" "sc_pc (dispatch p pc s) = pc" "sc_proc (dispatch p pc s) = Some p"
  "sc_locked (dispatch p pc s) = sc_locked s"
  by (simp_all add: dispatch_def mlfq_inv_upd_proc)

lemma dispatch_running:
  "p < length (pt_proc (sc_pt s)) \<Longrightarrow> p_state (procs (sc_pt (dispatch p pc s)) p) = RUNNING"
  by (simp add: dispatch_def)

lemma look_step:
  assumes inv: "mlfq_inv (sc_pt s)" and l: "sc_locked s"
  shows "sched_inv (sched_look i d m s)"
    "running_pc (sc_pc (sched_look i d m s)) = Some p \<Longrightarrow> p_state (procs (sc_pt s) p) = RUNNABLE"
proof -
  have "sched_inv (sched_look i d m s) \<and> (\<forall>p. running_pc (sc_pc (sched_look i d m s)) = Some p \<longrightarrow> p_state (procs (sc_pt s) p) = RUNNABLE)"
  proof (cases "i \<ge> 3")
    case True
    then show ?thesis using inv by (simp add: sched_look_def sched_inv_def)
  next
    case False
    obtain r t where tp: "top i (sc_pt s) = (r, t)" by (cases "top i (sc_pt s)")
    have i3: "i < 3" using False by simp
    note T = top_inv [OF inv i3 tp]
    show ?thesis
    proof (cases "\<exists>p. r = Some p \<and> (m \<or> \<not> d)")
      case True
      then obtain p where p: "r = Some p" "m \<or> \<not> d" by blast
      have e: "sched_look i d m s = dispatch p (SMlfq i p m) (s\<lparr>sc_pt := t\<rparr>)"
        using False tp p by (simp add: sched_look_def)
      show ?thesis unfolding e using T i3 p(1) l
        by (simp add: sched_inv_def dispatch_inv eligible_def)
    next
      case no: False
      then have "sched_look i d m s = s\<lparr>sc_pt := t, sc_pc := SLook (i + 1) d m\<rparr>"
        using False tp by (cases r) (auto simp: sched_look_def)
      then show ?thesis using T(1) l by (simp add: sched_inv_def)
    qed
  qed
  then show "sched_inv (sched_look i d m s)"
    "running_pc (sc_pc (sched_look i d m s)) = Some p \<Longrightarrow> p_state (procs (sc_pt s) p) = RUNNABLE" by blast+
qed

lemma round_step:
  assumes inv: "mlfq_inv (sc_pt s)" and r: "sched_round s = Ok s'"
  shows "sched_inv s'" "running_pc (sc_pc s') = Some p \<Longrightarrow> p_state (procs (sc_pt s) p) = RUNNABLE"
proof -
  let ?ml = "pt_mlfq (sc_pt s)"
  obtain mp m where mp: "(if m_percentage ?ml \<noteq> 100 then min_scan (sc_pt s) [0..<NPROC] (m_pass ?ml) (sc_mproc s) else (m_pass ?ml, sc_mproc s)) = (mp, m)"
    by (cases "if m_percentage ?ml \<noteq> 100 then min_scan (sc_pt s) [0..<NPROC] (m_pass ?ml) (sc_mproc s) else (m_pass ?ml, sc_mproc s)")
  have nl: "\<not> sc_locked s" using r by (auto simp: sched_round_def)
  let ?t = "(sc_pt s)\<lparr>pt_minpass := mp\<rparr>"
  let ?s = "s\<lparr>sc_locked := True, sc_pt := ?t, sc_mproc := m\<rparr>"
  have e: "sched_round s = (if mp = m_pass ?ml then
             (if m_percentage ?ml \<noteq> 100 then
                rbind (cdiv MAXTICKET (m_percentage ?ml)) (\<lambda>d. rbind (int32 (m_pass ?ml + d)) (\<lambda>x.
                Ok (?s\<lparr>sc_pt := set_mlfq_pass x ?t, sc_pc := SLook 0 False False\<rparr>)))
              else Ok (?s\<lparr>sc_pc := SLook 0 False True\<rparr>))
           else (case m of None \<Rightarrow> Err (Fault ''mproc'')
             | Some m \<Rightarrow> (case rr_loop NPROC m ?t of (None, t) \<Rightarrow> Ok (?s\<lparr>sc_pt := t, sc_pc := SIdle\<rparr>)
               | (Some p, t) \<Rightarrow> Ok (dispatch p (SStride m p) (?s\<lparr>sc_pt := t\<rparr>)))))"
    using nl mp by (cases "m_percentage ?ml = 100") (simp_all add: sched_round_def Let_def cong: if_cong option.case_cong)
  have "sched_inv s' \<and> (\<forall>p. running_pc (sc_pc s') = Some p \<longrightarrow> p_state (procs (sc_pt s) p) = RUNNABLE)"
  proof (cases "mp = m_pass ?ml")
    case True
    then show ?thesis using r e inv by (auto simp: sched_inv_def split: if_splits)
  next
    case False
    then obtain q where q: "m = Some q" using r e by (auto split: option.splits)
    obtain x t where x: "rr_loop NPROC q ?t = (x, t)" by (cases "rr_loop NPROC q ?t")
    note R = rr_loop_spec [OF x]
    have it: "mlfq_inv t" using R inv by (auto simp: mlfq_inv_upd_proc)
    show ?thesis
    proof (cases x)
      case None
      then show ?thesis using r e False q x it by (auto simp: sched_inv_def)
    next
      case (Some c)
      then have "s' = dispatch c (SStride q c) (?s\<lparr>sc_pt := t\<rparr>)" using r e False q x by simp
      then show ?thesis using it R Some by (simp add: sched_inv_def dispatch_inv)
    qed
  qed
  then show "sched_inv s'" "running_pc (sc_pc s') = Some p \<Longrightarrow> p_state (procs (sc_pt s) p) = RUNNABLE" by blast+
qed

lemma mlfq_back_step:
  assumes inv: "mlfq_inv (sc_pt s)" and l: "sc_locked s" and b: "mlfq_back ns i p m s = Ok s'"
  shows "sched_inv s'" "running_pc (sc_pc s') = None"
proof -
  let ?t = "sc_pt s"
  let ?u = "\<lambda>ticks cur. upd_proc p (\<lambda>q. q\<lparr>p_ticks := ticks, p_curticks := cur\<rparr>) ?t"
  obtain ticks cur t1 where t0: "(if m_percentage (pt_mlfq (?u ticks cur)) \<noteq> 100 then
          rbind (cdiv MAXTICKET (m_percentage (pt_mlfq (?u ticks cur)))) (\<lambda>d.
          rbind (int32 (d * (cur - 1))) (\<lambda>e.
          rbind (int32 (m_pass (pt_mlfq (?u ticks cur)) + e)) (\<lambda>x. Ok (set_mlfq_pass x (?u ticks cur)))))
        else Ok (?u ticks cur)) = Ok t1"
    and rest: "(if u32 (sc_running s + 1) \<ge> sc_nextboost s then
        rbind (boostpriority t1) (\<lambda>t. Ok (s\<lparr>sc_pt := t, sc_running := u32 (sc_running s + 1),
          sc_nextboost := u32 (u32 (sc_running s + 1) + PBOOST), sc_pc := SLook 0 True m\<rparr>))
      else rbind (if p_priority (procs t1 p) \<noteq> 2 \<and> p_ticks (procs t1 p) \<ge> p_timeallotment (procs t1 p)
          then droppriority p t1 else Ok t1) (\<lambda>t. Ok (s\<lparr>sc_pt := upd_proc p (\<lambda>q. q\<lparr>p_curticks := 0\<rparr>) t,
            sc_running := u32 (sc_running s + 1), sc_proc := None,
            sc_pc := SLook i True (if mproc_share ns t (sc_mproc s) \<noteq> 0 then False else m)\<rparr>))) = Ok s'"
    using b unfolding mlfq_back_def Let_def
    by (elim rbind_OkE) (rule that)
  have t1: "t1 = ?u ticks cur \<or> (\<exists>x. t1 = set_mlfq_pass x (?u ticks cur))" using t0 by (auto split: if_splits)
  have i1: "mlfq_inv t1" using t1 inv by (auto simp: mlfq_inv_upd_proc)
  have boost: "mlfq_inv t2" if "boostpriority t1 = Ok t2" for t2 using boostpriority_ok [OF i1] that by auto
  have drop: "mlfq_inv t2" if "droppriority p t1 = Ok t2 \<or> t2 = t1" for t2 using droppriority_inv [OF i1] i1 that by blast
  have "sched_inv s' \<and> running_pc (sc_pc s') = None"
  proof (cases "u32 (sc_running s + 1) \<ge> sc_nextboost s")
    case True
    then show ?thesis using rest boost l by (auto simp: sched_inv_def)
  next
    case False
    obtain t2 where "(if p_priority (procs t1 p) \<noteq> 2 \<and> p_ticks (procs t1 p) \<ge> p_timeallotment (procs t1 p)
          then droppriority p t1 else Ok t1) = Ok t2"
        "Ok (s\<lparr>sc_pt := upd_proc p (\<lambda>q. q\<lparr>p_curticks := 0\<rparr>) t2, sc_running := u32 (sc_running s + 1), sc_proc := None,
            sc_pc := SLook i True (if mproc_share ns t2 (sc_mproc s) \<noteq> 0 then False else m)\<rparr>) = Ok s'"
      using rest unfolding if_not_P [OF False] by (rule rbind_OkE)
    then have t2: "droppriority p t1 = Ok t2 \<or> t2 = t1" "sc_pt s' = upd_proc p (\<lambda>q. q\<lparr>p_curticks := 0\<rparr>) t2"
        "sc_locked s' = sc_locked s" "\<exists>m'. sc_pc s' = SLook i True m'"
      by (auto split: if_splits)
    then show ?thesis using drop [OF t2(1)] t2(2-) l by (auto simp: sched_inv_def mlfq_inv_upd_proc)
  qed
  then show "sched_inv s'" "running_pc (sc_pc s') = None" by blast+
qed

lemma stride_back_step:
  assumes "mlfq_inv (sc_pt s)" "stride_back m s = Ok s'"
  shows "sched_inv s'" "running_pc (sc_pc s') = None"
  using assms by (auto simp: stride_back_def Let_def sched_inv_def mlfq_inv_upd_proc)

lemma sched_inv_mlfq: "sched_inv s \<Longrightarrow> mlfq_inv (sc_pt s)"
  by (simp add: sched_inv_def)

lemma sched_step_inv:
  assumes "sched_step ns s s'" "sched_inv s"
  shows "sched_inv s' \<and> (\<forall>p. running_pc (sc_pc s') = Some p \<longrightarrow> running_pc (sc_pc s) = Some p \<or> p_state (procs (sc_pt s) p) = RUNNABLE)"
  using assms(1)
proof (cases rule: sched_step.cases)
  case round
  then show ?thesis using round_step [OF sched_inv_mlfq [OF assms(2)]] by blast
next
  case (look i d m)
  then have "sc_locked s" using assms(2) by (simp add: sched_inv_def)
  then show ?thesis using look_step [OF sched_inv_mlfq [OF assms(2)]] look by blast
next
  case (mlfq_back i p m)
  then have "sc_locked s" using assms(2) by (simp add: sched_inv_def)
  then show ?thesis using mlfq_back_step [OF sched_inv_mlfq [OF assms(2)] _ mlfq_back(2)] by simp
next
  case (stride_back m p)
  then show ?thesis using stride_back_step [OF sched_inv_mlfq [OF assms(2)]] by simp
next
  case (run i p m q t)
  then show ?thesis using assms(2) by (auto simp: sched_inv_def)
qed

text \<open>
  C19. However long the scheduler runs and whatever the processes do with the table in between, as
  long as they leave the queues well-formed: in every state it reaches the queues are well-formed,
  it holds \<open>ptable.lock\<close> while it walks the levels and across a switch, \<open>c->proc\<close> is the process
  it has switched to, and a process is switched to only if it was \<open>RUNNABLE\<close>.\<close>

theorem scheduler_invariant:
  assumes "mlfq_inv t" "(sched_step null_share)\<^sup>*\<^sup>* (scheduler_start t) s"
  shows "sched_inv s \<and> (\<forall>s' p. sched_step null_share s s' \<longrightarrow> running_pc (sc_pc s') = Some p \<longrightarrow>
    running_pc (sc_pc s) = Some p \<or> p_state (procs (sc_pt s) p) = RUNNABLE)"
proof -
  have "sched_inv (scheduler_start t)" using assms(1) by (simp add: scheduler_start_def sched_inv_def)
  with assms(2) have "sched_inv s" by (induction rule: rtranclp_induct) (simp_all add: sched_step_inv)
  then show ?thesis using sched_step_inv by blast
qed

theorem scheduler_invariant_witness:
  "sched_step 0 (scheduler_start (pt share_demo)) ((scheduler_start (pt share_demo))\<lparr>sc_locked := True, sc_pt := (sc_pt (scheduler_start (pt share_demo)))\<lparr>pt_minpass := m_pass (pt_mlfq (pt share_demo))\<rparr>, sc_pc := SLook 0 False True\<rparr>)
   \<and> sched_inv ((scheduler_start (pt share_demo))\<lparr>sc_locked := True, sc_pt := (sc_pt (scheduler_start (pt share_demo)))\<lparr>pt_minpass := m_pass (pt_mlfq (pt share_demo))\<rparr>, sc_pc := SLook 0 False True\<rparr>)"
proof -
  let ?s = "scheduler_start (pt share_demo)"
  let ?s' = "?s\<lparr>sc_locked := True, sc_pt := (sc_pt ?s)\<lparr>pt_minpass := m_pass (pt_mlfq (pt share_demo))\<rparr>, sc_pc := SLook 0 False True\<rparr>"
  have st: "sched_step 0 ?s ?s'"
    by (rule sched_step.round) (simp_all add: scheduler_start_def sched_round_def set_mlfq_share_def)
  then show ?thesis using scheduler_invariant [OF share_demo_procs(6) r_into_rtranclp, of 0 ?s'] by blast
qed

section \<open>Stride scheduling\<close>

text \<open>What a pass of the outer loop does when stride processes exist: the three ways it can go.\<close>

definition picked :: "schedst \<Rightarrow> schedst \<Rightarrow> int \<Rightarrow> nat option \<Rightarrow> bool" where
  "picked s s' mp m \<longleftrightarrow> (let t = (sc_pt s)\<lparr>pt_minpass := mp\<rparr> in
     if mp = m_pass (pt_mlfq (sc_pt s)) then sc_pc s' = SLook 0 False False \<and> (\<exists>x. sc_pt s' = set_mlfq_pass x t)
     else \<exists>q k. m = Some q \<and>
       (sc_pc s' = SIdle \<and> sc_locked s' \<and> sc_pt s' = upd_proc q (\<lambda>r. r\<lparr>p_rrlast := k\<rparr>) t \<or>
        (\<exists>c. sc_pc s' = SStride q c \<and> p_state (procs (sc_pt s) c) = RUNNABLE \<and>
             sc_pt s' = upd_proc c (\<lambda>r. r\<lparr>p_state := RUNNING\<rparr>) (upd_proc q (\<lambda>r. r\<lparr>p_rrlast := k\<rparr>) t))))"

lemma sched_round_pick:
  assumes r: "sched_round s = Ok s'" and pc: "m_percentage (pt_mlfq (sc_pt s)) \<noteq> 100"
  obtains mp m where "min_scan (sc_pt s) [0..<NPROC] (m_pass (pt_mlfq (sc_pt s))) (sc_mproc s) = (mp, m)" "picked s s' mp m"
proof -
  let ?ml = "pt_mlfq (sc_pt s)"
  obtain mp m where mp: "min_scan (sc_pt s) [0..<NPROC] (m_pass ?ml) (sc_mproc s) = (mp, m)" by fastforce
  have nl: "\<not> sc_locked s" using r by (auto simp: sched_round_def)
  have "picked s s' mp m"
  proof (cases "mp = m_pass ?ml")
    case True
    then show ?thesis using r nl mp pc by (auto simp: picked_def sched_round_def Let_def)
  next
    case False
    then obtain q where q: "m = Some q" using r nl mp pc by (auto simp: sched_round_def Let_def split: option.splits)
    obtain x t where x: "rr_loop NPROC q ((sc_pt s)\<lparr>pt_minpass := mp\<rparr>) = (x, t)" by fastforce
    from rr_loop_spec [OF x] obtain k where k: "t = upd_proc q (\<lambda>r. r\<lparr>p_rrlast := k\<rparr>) ((sc_pt s)\<lparr>pt_minpass := mp\<rparr>)"
        "\<forall>c. x = Some c \<longrightarrow> p_state (procs (sc_pt s) c) = RUNNABLE" by auto
    show ?thesis using r nl mp pc q x k False
      by (cases x) (auto simp: picked_def sched_round_def Let_def dispatch_def)
  qed
  then show ?thesis by (rule that [OF mp])
qed

lemma upd_proc_proj:
  "(\<And>x. f (g x) = f x) \<Longrightarrow> f (procs (upd_proc q g t) i) = f (procs t i)"
  by (cases "q < length (pt_proc t)") (auto simp: procs_upd_proc, simp add: upd_proc_def list_update_beyond)

text \<open>
  C20. Stride scheduling. Let stride processes exist and let every eligible one have a share of at
  least 1. When a pass of the scheduler switches to a thread of process \<open>m\<close>, \<open>m\<close> has the least pass
  value of all eligible processes and a smaller one than the queues; the thread is \<open>RUNNABLE\<close>; and
  if the pass values of the eligible processes were at most \<open>W\<close> apart, with \<open>W\<close> at least the stride
  \<open>MAXTICKET / share\<close> of each, they are still at most \<open>W\<close> apart once \<open>m\<close> has given the CPU back and
  the scheduler has charged it its stride: no process gets ahead of another by more than one turn.\<close>

theorem stride_fairness:
  assumes r: "sched_round s = Ok s1" "sc_pc s1 = SStride m c" and pc: "m_percentage (pt_mlfq (sc_pt s)) \<noteq> 100"
    and len: "length (pt_proc (sc_pt s)) = NPROC" "length (pt_proc t) = NPROC"
    and run: "\<And>i. i < NPROC \<Longrightarrow> p_pass (procs t i) = p_pass (procs (sc_pt s1) i) \<and> p_percentage (procs t i) = p_percentage (procs (sc_pt s1) i)"
      "\<And>i. i < NPROC \<Longrightarrow> stride_elig t i \<Longrightarrow> stride_elig (sc_pt s) i"
    and share: "\<And>i. i < NPROC \<Longrightarrow> stride_elig (sc_pt s) i \<Longrightarrow> 1 \<le> p_percentage (procs (sc_pt s) i) \<and> MAXTICKET div p_percentage (procs (sc_pt s) i) \<le> W"
    and spread: "\<And>i j. i < NPROC \<Longrightarrow> j < NPROC \<Longrightarrow> stride_elig (sc_pt s) i \<Longrightarrow> stride_elig (sc_pt s) j \<Longrightarrow>
      p_pass (procs (sc_pt s) i) \<le> p_pass (procs (sc_pt s) j) + W"
    and ret: "stride_back m (s1\<lparr>sc_pt := t\<rparr>) = Ok s2"
  shows "m < NPROC \<and> stride_elig (sc_pt s) m \<and> p_state (procs (sc_pt s) c) = RUNNABLE
    \<and> p_pass (procs (sc_pt s) m) < m_pass (pt_mlfq (sc_pt s))
    \<and> (\<forall>i<NPROC. stride_elig (sc_pt s) i \<longrightarrow> p_pass (procs (sc_pt s) m) \<le> p_pass (procs (sc_pt s) i))
    \<and> (\<forall>i<NPROC. \<forall>j<NPROC. stride_elig (sc_pt s2) i \<longrightarrow> stride_elig (sc_pt s2) j \<longrightarrow>
        p_pass (procs (sc_pt s2) i) \<le> p_pass (procs (sc_pt s2) j) + W)"
proof -
  let ?t = "sc_pt s"
  obtain mp q where mp: "min_scan ?t [0..<NPROC] (m_pass (pt_mlfq ?t)) (sc_mproc s) = (mp, q)" and pk: "picked s s1 mp q"
    by (rule sched_round_pick [OF r(1) pc])
  note M = min_scan_spec [OF mp]
  obtain k where k: "q = Some m" "mp \<noteq> m_pass (pt_mlfq ?t)" "p_state (procs ?t c) = RUNNABLE"
      "sc_pt s1 = upd_proc c (\<lambda>r. r\<lparr>p_state := RUNNING\<rparr>) (upd_proc m (\<lambda>r. r\<lparr>p_rrlast := k\<rparr>) (?t\<lparr>pt_minpass := mp\<rparr>))"
    using pk r(2) by (auto simp: picked_def Let_def split: if_splits)
  then have m: "m < NPROC" "stride_elig ?t m" "p_pass (procs ?t m) = mp" "mp < m_pass (pt_mlfq ?t)"
    using M(3) by auto
  have least: "mp \<le> p_pass (procs ?t i)" if "i < NPROC" "stride_elig ?t i" for i using M(2) that by simp
  have same: "p_pass (procs t i) = p_pass (procs ?t i)" "p_percentage (procs t i) = p_percentage (procs ?t i)" if "i < NPROC" for i
    using run(1) [OF that] unfolding k(4) by (simp_all add: upd_proc_proj)
  obtain d where d: "cdiv MAXTICKET (p_percentage (procs t m)) = Ok d"
      "sc_pt s2 = upd_proc m (\<lambda>r. r\<lparr>p_pass := mp + d\<rparr>) t"
    using ret m same by (auto simp: stride_back_def Let_def int32_Ok)
  have W: "0 \<le> d" "d \<le> W" using d(1) share [OF m(1,2)] same [OF m(1)]
    by (auto simp: cdiv_def int32_Ok signed_divide_int_def pos_imp_zdiv_nonneg_iff split: if_splits)
  have el: "stride_elig ?t i" if "i < NPROC" "stride_elig (sc_pt s2) i" for i
    using that run(2) unfolding d(2) by (simp add: stride_elig_def upd_proc_proj)
  have p2: "p_pass (procs (sc_pt s2) i) = (if i = m then mp + d else p_pass (procs ?t i))" if "i < NPROC" for i
    using that same(1) m(1) len(2) unfolding d(2) by (simp add: procs_upd_proc)
  have "p_pass (procs (sc_pt s2) i) \<le> p_pass (procs (sc_pt s2) j) + W"
    if ij: "i < NPROC" "j < NPROC" "stride_elig (sc_pt s2) i" "stride_elig (sc_pt s2) j" for i j
    using p2 [OF ij(1)] p2 [OF ij(2)] least [OF ij(2) el [OF ij(2,4)]] spread [OF ij(1,2) el [OF ij(1,3)] el [OF ij(2,4)]] W m(3) ij
    by (auto split: if_splits)
  then show ?thesis using m k(3) least by auto
qed

text \<open>A table with two stride processes, the first with half of the CPU, the second with a quarter.\<close>

definition stride_proc :: "procstate \<Rightarrow> int \<Rightarrow> int \<Rightarrow> nat \<Rightarrow> proc \<Rightarrow> proc" where
  "stride_proc st x pass i p = p\<lparr>p_state := st, p_percentage := x, p_pass := pass, p_rrlast := 63,
     p_mthread := Some i, p_cthread := (replicate NPROC None)[0 := Some i]\<rparr>"

definition stride_demo :: "procstate \<Rightarrow> schedst" where
  "stride_demo st = (scheduler_start zero_ptable)\<lparr>sc_pt := set_mlfq_pass 5 (set_mlfq_share 25
     (upd_proc 0 (stride_proc st 50 0 0) (upd_proc 1 (stride_proc st 25 100 1) zero_ptable)))\<rparr>"

lemma stride_demo_procs:
  "length (pt_proc (sc_pt (stride_demo st))) = NPROC" "\<not> sc_locked (stride_demo st)"
  "m_percentage (pt_mlfq (sc_pt (stride_demo st))) = 25" "m_pass (pt_mlfq (sc_pt (stride_demo st))) = 5"
  "procs (sc_pt (stride_demo st)) 0 = stride_proc st 50 0 0 zero_proc"
  "procs (sc_pt (stride_demo st)) (Suc 0) = stride_proc st 25 100 1 zero_proc"
  "i < NPROC \<Longrightarrow> i \<noteq> 0 \<Longrightarrow> i \<noteq> 1 \<Longrightarrow> procs (sc_pt (stride_demo st)) i = zero_proc"
  by (simp_all add: stride_demo_def scheduler_start_def procs_upd_proc)
    (simp_all add: zero_ptable_def set_mlfq_pass_def)

lemma stride_demo_elig:
  "i < NPROC \<Longrightarrow> stride_elig (sc_pt (stride_demo st)) i \<longleftrightarrow> i < 2 \<and> st \<notin> {UNUSED, EMBRYO, ZOMBIE}"
  by (cases "i = 0"; cases "i = 1") (simp_all add: stride_elig_def stride_demo_procs stride_proc_def, auto simp: stride_demo_procs(7) zero_proc_def)

lemma min_scan_none: "(\<And>i. i \<in> set is \<Longrightarrow> \<not> stride_elig t i) \<Longrightarrow> min_scan t is mp m = (mp, m)"
  by (induction "is") (auto simp: stride_elig_def Let_def)

lemma stride_demo_scan:
  assumes "st \<notin> {UNUSED, EMBRYO, ZOMBIE}"
  shows "min_scan (sc_pt (stride_demo st)) [0..<NPROC] 5 m = (0, Some 0)"
proof -
  have u: "[0..<NPROC] = 0 # Suc 0 # [2..<NPROC]" by (simp add: upt_conv_Cons)
  have n: "min_scan (sc_pt (stride_demo st)) [2..<NPROC] 0 (Some 0) = (0, Some 0)"
    by (rule min_scan_none) (simp add: stride_demo_elig del: upt_rec_numeral)
  show ?thesis unfolding u using assms n by (auto simp: Let_def stride_demo_procs stride_proc_def)
qed

lemma stride_demo_round:
  "sched_round (stride_demo RUNNABLE) = Ok (dispatch 0 (SStride 0 0) ((stride_demo RUNNABLE)\<lparr>sc_locked := True,
     sc_mproc := Some 0, sc_pt := upd_proc 0 (\<lambda>r. r\<lparr>p_rrlast := 0\<rparr>) ((sc_pt (stride_demo RUNNABLE))\<lparr>pt_minpass := 0\<rparr>)\<rparr>))"
proof -
  let ?t = "(sc_pt (stride_demo RUNNABLE))\<lparr>pt_minpass := 0\<rparr>"
  have n: "NPROC = Suc 63" by simp
  have "rr_loop NPROC 0 ?t = (Some 0, upd_proc 0 (\<lambda>r. r\<lparr>p_rrlast := 0\<rparr>) ?t)"
    unfolding n rr_loop.simps(2)
    by (simp add: Let_def stride_demo_procs upd_proc_def stride_proc_def nth_list_update)
  then show ?thesis
    by (simp add: sched_round_def Let_def stride_demo_procs stride_demo_scan del: upt_rec_numeral)
qed

theorem stride_fairness_witness:
  "\<exists>s1 s2. sched_round (stride_demo RUNNABLE) = Ok s1 \<and> sc_pc s1 = SStride 0 0 \<and> stride_back 0 s1 = Ok s2
     \<and> p_pass (procs (sc_pt s2) 0) \<le> p_pass (procs (sc_pt s2) 1) + 400000"
proof -
  let ?s = "stride_demo RUNNABLE"
  let ?u = "upd_proc 0 (\<lambda>r. r\<lparr>p_rrlast := 0\<rparr>) ((sc_pt ?s)\<lparr>pt_minpass := 0\<rparr>)"
  let ?s1 = "dispatch 0 (SStride 0 0) (?s\<lparr>sc_locked := True, sc_mproc := Some 0, sc_pt := ?u\<rparr>)"
  have P: "length (pt_proc (sc_pt ?s1)) = NPROC" "p_pass (procs (sc_pt ?s1) i) = p_pass (procs (sc_pt ?s) i)"
      "p_percentage (procs (sc_pt ?s1) i) = p_percentage (procs (sc_pt ?s) i)" for i
    by (simp_all add: dispatch_def stride_demo_procs upd_proc_proj)
  have el: "stride_elig (sc_pt ?s1) i \<Longrightarrow> i < 2" if "i < NPROC" for i
  proof (rule ccontr)
    assume e: "stride_elig (sc_pt ?s1) i" and n: "\<not> i < 2"
    then have "p_percentage (procs (sc_pt ?s) i) = 0" using that by (simp add: stride_demo_procs(7) zero_proc_def)
    then show False using e P(3) by (simp add: stride_elig_def)
  qed
  have two: "i = 0 \<or> i = 1" if "i < 2" for i :: nat using that by auto
  obtain s2 where s2: "stride_back 0 ?s1 = Ok s2" "sc_pt s2 = upd_proc 0 (\<lambda>q. q\<lparr>p_pass := 200000\<rparr>) (sc_pt ?s1)"
    using P(2,3) [of 0] by (simp add: stride_back_def Let_def cdiv_def signed_divide_int_def stride_demo_procs stride_proc_def)
  have e2: "stride_elig (sc_pt s2) 0" "stride_elig (sc_pt s2) 1"
    unfolding s2(2) by (simp_all add: stride_elig_def procs_upd_proc P(1) dispatch_def stride_demo_procs stride_proc_def upd_proc_proj)
  have "p_pass (procs (sc_pt s2) 0) \<le> p_pass (procs (sc_pt s2) 1) + 400000"
    using stride_fairness [OF stride_demo_round, where m = 0 and c = 0 and t = "sc_pt ?s1" and ?s2.0 = s2 and W = 400000] s2 el e2 P two
    by (force simp: dispatch_inv stride_demo_procs stride_demo_elig stride_proc_def)
  then show ?thesis using stride_demo_round s2(1) dispatch_inv(2) by blast
qed

lemma rr_loop_none:
  assumes "m < length (pt_proc t)" "length (p_cthread (procs t m)) = NPROC"
    "\<And>j c. j < NPROC \<Longrightarrow> p_cthread (procs t m) ! j = Some c \<Longrightarrow> p_state (procs t c) \<noteq> RUNNABLE"
  shows "fst (rr_loop n m t) = None"
  using assms
proof (induction n arbitrary: t)
  case (Suc n)
  let ?u = "upd_proc m (\<lambda>q. q\<lparr>p_rrlast := (p_rrlast q + 1) mod int NPROC\<rparr>) t"
  have th: "p_cthread (procs ?u q) = p_cthread (procs t q)" "p_state (procs ?u q) = p_state (procs t q)" for q
    by (simp_all add: upd_proc_proj)
  have rr: "nat (p_rrlast (procs ?u m)) < NPROC" using Suc.prems(1) by (simp add: nat_less_iff)
  have "fst (rr_loop n m ?u) = None"
    by (rule Suc.IH) (simp_all only: th upd_proc_simps Suc.prems simp_thms not_False_eq_True)
  moreover have "p_state (procs ?u c) \<noteq> RUNNABLE" if "p_cthread (procs ?u m) ! nat (p_rrlast (procs ?u m)) = Some c" for c
    using Suc.prems(3) [OF rr] that unfolding th by blast
  ultimately show ?case by (auto simp: Let_def split: option.splits)
qed simp

text \<open>
  C23. When a stride process is behind the queues and none of the eligible stride processes has a
  \<open>RUNNABLE\<close> thread (they sleep, or run on another CPU), the \<open>continue\<close> of the scheduler goes back to
  the head of the loop with \<open>ptable.lock\<close> held, and the next pass panics in \<open>acquire\<close>.\<close>

theorem scheduler_continue_panics:
  assumes nl: "\<not> sc_locked s" and pc: "m_percentage (pt_mlfq (sc_pt s)) \<noteq> 100" and len: "length (pt_proc (sc_pt s)) = NPROC"
    and i: "i < NPROC" "stride_elig (sc_pt s) i" "p_pass (procs (sc_pt s) i) < m_pass (pt_mlfq (sc_pt s))"
    and th: "\<And>q. q < NPROC \<Longrightarrow> stride_elig (sc_pt s) q \<Longrightarrow> length (p_cthread (procs (sc_pt s) q)) = NPROC \<and>
      (\<forall>j<NPROC. \<forall>c. p_cthread (procs (sc_pt s) q) ! j = Some c \<longrightarrow> p_state (procs (sc_pt s) c) \<noteq> RUNNABLE)"
  shows "\<exists>s'. sched_round s = Ok s' \<and> sc_pc s' = SIdle \<and> sched_round s' = Err (Panic ''acquire'')"
proof -
  let ?t = "sc_pt s"
  obtain mp q where mp: "min_scan ?t [0..<NPROC] (m_pass (pt_mlfq ?t)) (sc_mproc s) = (mp, q)" by fastforce
  note M = min_scan_spec [OF mp]
  have "mp < m_pass (pt_mlfq ?t)" using M(2) [of i] i by auto
  then obtain m where m: "q = Some m" "m < NPROC" "stride_elig ?t m" "mp \<noteq> m_pass (pt_mlfq ?t)" using M(3) by auto
  have "fst (rr_loop NPROC m (?t\<lparr>pt_minpass := mp\<rparr>)) = None"
    by (rule rr_loop_none) (use th [OF m(2,3)] m(2) len in auto)
  then obtain t where "rr_loop NPROC m (?t\<lparr>pt_minpass := mp\<rparr>) = (None, t)" by (metis prod.collapse)
  then have "sched_round s = Ok (s\<lparr>sc_locked := True, sc_pt := t, sc_mproc := q, sc_pc := SIdle\<rparr>)"
    using nl pc mp m by (simp add: sched_round_def Let_def)
  then show ?thesis by (simp add: sched_round_def)
qed

theorem scheduler_continue_panics_witness:
  "\<exists>s'. sched_round (stride_demo SLEEPING) = Ok s' \<and> sched_round s' = Err (Panic ''acquire'')"
proof -
  have two: "i = 0 \<or> i = 1" if "i < 2" for i :: nat using that by auto
  have "length (p_cthread (procs (sc_pt (stride_demo SLEEPING)) q)) = NPROC \<and>
      (\<forall>j<NPROC. \<forall>c. p_cthread (procs (sc_pt (stride_demo SLEEPING)) q) ! j = Some c \<longrightarrow> p_state (procs (sc_pt (stride_demo SLEEPING)) c) \<noteq> RUNNABLE)"
    if "q < NPROC" "stride_elig (sc_pt (stride_demo SLEEPING)) q" for q
    using that two [of q] by (auto simp: stride_demo_elig stride_demo_procs stride_proc_def nth_list_update split: if_splits)
  moreover have "stride_elig (sc_pt (stride_demo SLEEPING)) 0" "p_pass (procs (sc_pt (stride_demo SLEEPING)) 0) = 0"
    by (simp_all add: stride_demo_elig stride_demo_procs stride_proc_def)
  ultimately have "\<exists>s'. sched_round (stride_demo SLEEPING) = Ok s' \<and> sc_pc s' = SIdle \<and> sched_round s' = Err (Panic ''acquire'')"
    by (intro scheduler_continue_panics [where i = 0]) (auto simp: stride_demo_procs(1-4))
  then show ?thesis by blast
qed

section \<open>Sleeping\<close>

text \<open>
  Two CPUs over one process table and the data \<open>d\<close> of the caller. Each has the locks it holds and the
  actions it still has to do; in a step one of them does its next action, an \<open>acquire\<close> only when the
  other does not hold the lock and \<open>Dispatch\<close> only when the process is \<open>RUNNABLE\<close>, since otherwise the
  CPU spins.
\<close>

type_synonym 'a cpu = "lockid list \<times> 'a act list"

fun enabled :: "lockid list \<Rightarrow> 'a act \<Rightarrow> bool" where
  "enabled others (Acq l) = (l \<notin> set others)"
| "enabled others Dispatch = (PtableLock \<notin> set others)"
| "enabled others _ = True"

inductive cpu_step :: "nat \<Rightarrow> nat option \<Rightarrow> (ptable \<times> 'a) \<times> 'a cpu \<times> 'a cpu \<Rightarrow> (ptable \<times> 'a) \<times> 'a cpu \<times> 'a cpu \<Rightarrow> bool" for p w where
  sleeper_step: "enabled hw a \<Longrightarrow> run_act a \<lparr>held = hs, curproc = Some p, pt = t, \<dots> = d\<rparr> = Ok s \<Longrightarrow>
    cpu_step p w ((t, d), (hs, a # ps), (hw, pw)) ((pt s, kst.more s), (held s, ps), (hw, pw))"
| waker_step: "enabled hs a \<Longrightarrow> run_act a \<lparr>held = hw, curproc = w, pt = t, \<dots> = d\<rparr> = Ok s \<Longrightarrow>
    cpu_step p w ((t, d), (hs, ps), (hw, a # pw)) ((pt s, kst.more s), (hs, ps), (held s, pw))"

inductive_cases cpu_stepE: "cpu_step p w ((t, d), (hs, ps), (hw, pw)) x"

text \<open>
  A whole call of \<open>sleep\<close>: after the context switch the scheduler releases \<open>ptable.lock\<close>. The other
  CPU changes the data under the lock of the caller and calls \<open>wakeup\<close>.
\<close>

definition sleep_call :: "chan \<Rightarrow> lockid \<Rightarrow> 'a act list" where
  "sleep_call c lk = sleep_acts c lk @ [Rel PtableLock, Dispatch] @ leave_acts lk"

definition waker_call :: "chan \<Rightarrow> lockid \<Rightarrow> ('a \<Rightarrow> 'a) \<Rightarrow> 'a act list" where
  "waker_call c lk f = [Acq lk, Change f] @ wakeup_acts c @ [Rel lk]"

lemma sleep_call_acts:
  "lk \<noteq> PtableLock \<Longrightarrow> sleep_call c lk = [Acq PtableLock, Rel lk, Mark c, CallSched, Rel PtableLock, Dispatch, Tidy, Rel PtableLock, Acq lk]"
  "waker_call c lk f = [Acq lk, Change f, Acq PtableLock, Wake1 c, Rel PtableLock, Rel lk]"
  by (simp_all add: sleep_call_def sleep_acts_def leave_acts_def waker_call_def wakeup_acts_def)

text \<open>
  The locks of both CPUs after \<open>i\<close> and \<open>j\<close> actions, and what is known of the process then: the waker
  does not get \<open>lk\<close> before the sleeper holds \<open>ptable.lock\<close>, nor \<open>ptable.lock\<close> before the sleeper is marked.
\<close>

definition sleeper_locks :: "lockid \<Rightarrow> nat \<Rightarrow> lockid list" where
  "sleeper_locks lk i = [[lk], [PtableLock, lk], [PtableLock], [PtableLock], [PtableLock], [], [PtableLock], [PtableLock], [], [lk]] ! i"

definition waker_locks :: "lockid \<Rightarrow> nat \<Rightarrow> lockid list" where
  "waker_locks lk j = [[], [lk], [lk], [PtableLock, lk], [PtableLock, lk], [lk], []] ! j"

definition sleeping_inv :: "nat \<Rightarrow> chan \<Rightarrow> nat \<Rightarrow> nat \<Rightarrow> ptable \<Rightarrow> bool" where
  "sleeping_inv p c i j t \<longleftrightarrow> p < length (pt_proc t)
     \<and> (3 \<le> i \<and> i \<le> 5 \<longrightarrow> p_state (procs t p) = (if j \<le> 3 then SLEEPING else RUNNABLE))
     \<and> (3 \<le> i \<and> i \<le> 6 \<longrightarrow> p_chan (procs t p) = Some c) \<and> (6 \<le> i \<longrightarrow> p_state (procs t p) = RUNNING) \<and> (7 \<le> i \<longrightarrow> p_chan (procs t p) = None)
     \<and> (i \<le> 1 \<longrightarrow> j = 0) \<and> (i \<le> 4 \<longrightarrow> j \<le> 2) \<and> (6 \<le> i \<longrightarrow> 5 \<le> j) \<and> (i = 9 \<longrightarrow> j = 6)"

definition cpu_inv :: "nat \<Rightarrow> chan \<Rightarrow> lockid \<Rightarrow> ('a \<Rightarrow> 'a) \<Rightarrow> 'a \<Rightarrow> nat \<Rightarrow> (ptable \<times> 'a) \<times> 'a cpu \<times> 'a cpu \<Rightarrow> bool" where
  "cpu_inv p c lk f d n = (\<lambda>((t, e), (hs, ps), (hw, pw)). \<exists>i j. n = i + j \<and> i \<le> 9 \<and> j \<le> 6
     \<and> ps = drop i (sleep_call c lk) \<and> pw = drop j (waker_call c lk f) \<and> hs = sleeper_locks lk i \<and> hw = waker_locks lk j
     \<and> e = (if 2 \<le> j then f d else d) \<and> sleeping_inv p c i j t)"

lemma cpu_invI:
  "n = i + j \<Longrightarrow> i \<le> 9 \<Longrightarrow> j \<le> 6 \<Longrightarrow> ps = drop i (sleep_call c lk) \<Longrightarrow> pw = drop j (waker_call c lk f) \<Longrightarrow> hs = sleeper_locks lk i \<Longrightarrow>
   hw = waker_locks lk j \<Longrightarrow> e = (if 2 \<le> j then f d else d) \<Longrightarrow> sleeping_inv p c i j t \<Longrightarrow> cpu_inv p c lk f d n ((t, e), (hs, ps), (hw, pw))"
  unfolding cpu_inv_def prod.case by blast

lemma below_9: "i < 9 \<Longrightarrow> i = 0 \<or> i = 1 \<or> i = 2 \<or> i = 3 \<or> i = 4 \<or> i = 5 \<or> i = 6 \<or> i = 7 \<or> i = (8::nat)"
  by auto

lemma waker_holds:
  assumes "j \<le> 6" "lk \<noteq> PtableLock"
  shows "PtableLock \<in> set (waker_locks lk j) \<longleftrightarrow> j = 3 \<or> j = 4" "lk \<in> set (waker_locks lk j) \<longleftrightarrow> 1 \<le> j \<and> j \<le> 5"
  using below_9 [of j] assms by (auto simp: waker_locks_def)

lemma sleeper_holds:
  assumes "i \<le> 9" "lk \<noteq> PtableLock"
  shows "PtableLock \<in> set (sleeper_locks lk i) \<longleftrightarrow> 1 \<le> i \<and> i \<le> 4 \<or> i = 6 \<or> i = 7" "lk \<in> set (sleeper_locks lk i) \<longleftrightarrow> i \<le> 1 \<or> i = 9"
proof -
  have "i < 9 \<or> i = 9" using assms(1) by auto
  then show "PtableLock \<in> set (sleeper_locks lk i) \<longleftrightarrow> 1 \<le> i \<and> i \<le> 4 \<or> i = 6 \<or> i = 7" "lk \<in> set (sleeper_locks lk i) \<longleftrightarrow> i \<le> 1 \<or> i = 9"
    using below_9 [of i] assms(2) by (auto simp: sleeper_locks_def)
qed

lemma sleeper_act:
  assumes lk: "lk \<noteq> PtableLock" and i: "i < 9" and inv: "sleeping_inv p c i j t" and j: "j \<le> 6"
    and e: "enabled (waker_locks lk j) (sleep_call c lk ! i)"
    and s: "run_act (sleep_call c lk ! i) \<lparr>held = sleeper_locks lk i, curproc = Some p, pt = t, \<dots> = d\<rparr> = Ok s"
  shows "held s = sleeper_locks lk (Suc i) \<and> kst.more s = d \<and> sleeping_inv p c (Suc i) j (pt s)"
proof -
  note W = waker_holds [OF j lk]
  show ?thesis using below_9 [OF i] inv e s j lk unfolding sleep_call_acts(1) [OF lk]
    by (elim disjE; simp add: W)
      (auto simp: sleeper_locks_def sleeping_inv_def acquire_def release_def sched_def split: if_splits)
qed

lemma waker_act:
  assumes lk: "lk \<noteq> PtableLock" and j: "j < 6" and inv: "sleeping_inv p c i j t" and i: "i \<le> 9"
    and e: "enabled (sleeper_locks lk i) (waker_call c lk f ! j)"
    and s: "run_act (waker_call c lk f ! j) \<lparr>held = waker_locks lk j, curproc = w, pt = t, \<dots> = (if 2 \<le> j then f d else d)\<rparr> = Ok s"
  shows "held s = waker_locks lk (Suc j) \<and> kst.more s = (if 2 \<le> Suc j then f d else d) \<and> sleeping_inv p c i (Suc j) (pt s)"
proof -
  have "j = 0 \<or> j = 1 \<or> j = 2 \<or> j = 3 \<or> j = 4 \<or> j = 5" using j by auto
  then have S: "held s = waker_locks lk (Suc j) \<and> kst.more s = (if 2 \<le> Suc j then f d else d)
      \<and> pt s = (if j = 3 then wakeup1 (Some c) t else t)"
    using s lk unfolding sleep_call_acts(2) by (elim disjE) (auto simp: waker_locks_def acquire_def release_def split: if_splits)
  note I = inv [unfolded sleeping_inv_def]
  consider "j = 0" | "j = 2" | "j = 3" | "j = 1 \<or> j = 4 \<or> j = 5" using j by linarith
  then have "sleeping_inv p c i (Suc j) (if j = 3 then wakeup1 (Some c) t else t)"
  proof cases
    case 1
    then have "\<not> (i \<le> 1 \<or> i = 9)" using e sleeper_holds(2) [OF i lk] by (simp add: sleep_call_acts)
    then show ?thesis using 1 I by (simp add: sleeping_inv_def)
  next
    case 2
    then have "\<not> (1 \<le> i \<and> i \<le> 4)" using e sleeper_holds(1) [OF i lk] by (simp add: sleep_call_acts)
    then show ?thesis using 2 I by (simp add: sleeping_inv_def)
  next
    case 3
    then have "i = 5" using I by linarith
    then show ?thesis using 3 I by (simp add: sleeping_inv_def procs_wakeup1)
  next
    case 4
    then show ?thesis using I by (elim disjE) (simp_all add: sleeping_inv_def)
  qed
  then show ?thesis using S by simp
qed

text \<open>One of the two CPUs can always go on: the waker where the sleeper waits, and otherwise the sleeper.\<close>

lemma sleeper_can:
  assumes lk: "lk \<noteq> PtableLock" and i: "i < 9" and inv: "sleeping_inv p c i j t" and j: "j \<le> 6"
    and w: "\<not> (i = 5 \<and> j \<le> 4)" "\<not> (i = 8 \<and> j = 5)"
  shows "enabled (waker_locks lk j) (sleep_call c lk ! i)
    \<and> (\<exists>s. run_act (sleep_call c lk ! i) \<lparr>held = sleeper_locks lk i, curproc = Some p, pt = t, \<dots> = d\<rparr> = Ok s)"
  using below_9 [OF i] inv w j lk unfolding sleep_call_acts(1) [OF lk]
  by (elim disjE; simp add: waker_holds [OF j lk])
    (auto simp: sleeper_locks_def sleeping_inv_def acquire_def release_def sched_def)

lemma waker_can:
  assumes lk: "lk \<noteq> PtableLock" and w: "i = 5 \<and> j \<le> 4 \<or> i = 8 \<and> j = 5"
  shows "enabled (sleeper_locks lk i) (waker_call c lk f ! j)
    \<and> (\<exists>s. run_act (waker_call c lk f ! j) \<lparr>held = waker_locks lk j, curproc = w', pt = t, \<dots> = d\<rparr> = Ok s)"
proof -
  have "j < 9" using w by auto
  from below_9 [OF this] show ?thesis using w lk unfolding sleep_call_acts(2)
    by (elim disjE; simp) (auto simp: sleeper_locks_def waker_locks_def acquire_def release_def)
qed

lemma length_calls: "lk \<noteq> PtableLock \<Longrightarrow> length (sleep_call c lk) = 9" "length (waker_call c lk f) = 6"
  by (simp_all add: sleep_call_acts)

lemma drop_Cons:
  assumes "a # qs = drop i xs"
  shows "i < length xs" "a = xs ! i" "qs = drop (Suc i) xs"
proof -
  show "i < length xs" using assms by (metis drop_all leI list.distinct(1))
  then have "drop i xs = xs ! i # drop (Suc i) xs" by (simp add: Cons_nth_drop_Suc)
  then show "a = xs ! i" "qs = drop (Suc i) xs" using assms by simp_all
qed

lemma cpu_inv_step:
  assumes st: "cpu_step p w x y" and inv: "cpu_inv p c lk f d n x" and lk: "lk \<noteq> PtableLock"
  shows "cpu_inv p c lk f d (Suc n) y"
proof -
  obtain t e hs ps hw pw where x: "x = ((t, e), (hs, ps), (hw, pw))" by (cases x) auto
  obtain i j where I: "n = i + j" "i \<le> 9" "j \<le> 6" "ps = drop i (sleep_call c lk)" "pw = drop j (waker_call c lk f)"
      "hs = sleeper_locks lk i" "hw = waker_locks lk j" "e = (if 2 \<le> j then f d else d)" "sleeping_inv p c i j t"
    using inv unfolding x cpu_inv_def by auto
  note L = length_calls(1) [OF lk, of c] length_calls(2) [of c lk f]
  from st [unfolded x] show ?thesis
  proof (rule cpu_stepE)
    fix a s qs assume a: "y = ((pt s, kst.more s), (held s, qs), (hw, pw))" "ps = a # qs" "enabled hw a"
      "run_act a \<lparr>held = hs, curproc = Some p, pt = t, \<dots> = e\<rparr> = Ok s"
    note i = drop_Cons [OF a(2) [symmetric, unfolded I(4)], unfolded L(1)]
    have "held s = sleeper_locks lk (Suc i) \<and> kst.more s = e \<and> sleeping_inv p c (Suc i) j (pt s)"
      by (rule sleeper_act [OF lk i(1) I(9,3)]) (use a(3,4) I(6,7) i(2) in simp_all)
    then show ?thesis unfolding a(1) using I(1,3,5,7,8) i(1,3) by (intro cpu_invI [where i = "Suc i" and j = j]) simp_all
  next
    fix a s qs assume a: "y = ((pt s, kst.more s), (hs, ps), (held s, qs))" "pw = a # qs" "enabled hs a"
      "run_act a \<lparr>held = hw, curproc = w, pt = t, \<dots> = e\<rparr> = Ok s"
    note i = drop_Cons [OF a(2) [symmetric, unfolded I(5)], unfolded L(2)]
    have "held s = waker_locks lk (Suc j) \<and> kst.more s = (if 2 \<le> Suc j then f d else d) \<and> sleeping_inv p c i (Suc j) (pt s)"
      by (rule waker_act [OF lk i(1) I(9,2)]) (use a(3,4) I(6,7,8) i(2) in simp_all)
    then show ?thesis unfolding a(1) using I(1,2,4,6) i(1,3) by (intro cpu_invI [where i = i and j = "Suc j"]) simp_all
  qed
qed

lemma cpu_inv_progress:
  assumes inv: "cpu_inv p c lk f d n x" and lk: "lk \<noteq> PtableLock" and n: "n \<noteq> 15"
  shows "\<exists>y. cpu_step p w x y"
proof -
  obtain t e hs ps hw pw where x: "x = ((t, e), (hs, ps), (hw, pw))" by (cases x) auto
  obtain i j where I: "n = i + j" "i \<le> 9" "j \<le> 6" "ps = drop i (sleep_call c lk)" "pw = drop j (waker_call c lk f)"
      "hs = sleeper_locks lk i" "hw = waker_locks lk j" "sleeping_inv p c i j t"
    using inv unfolding x cpu_inv_def by auto
  note L = length_calls(1) [OF lk, of c] length_calls(2) [of c lk f]
  have nine: "i = 9 \<Longrightarrow> j = 6" using I(8) by (simp add: sleeping_inv_def)
  show ?thesis
  proof (cases "i = 5 \<and> j \<le> 4 \<or> i = 8 \<and> j = 5")
    case True
    then have "pw = waker_call c lk f ! j # drop (Suc j) (waker_call c lk f)" using I(5) L(2) by (subst Cons_nth_drop_Suc) auto
    then show ?thesis using waker_can [OF lk True, of c f w t e] cpu_step.waker_step unfolding x I(6,7) by metis
  next
    case False
    then have i: "i < 9" using I(1,2) n nine by (cases "i = 9") auto
    then have "ps = sleep_call c lk ! i # drop (Suc i) (sleep_call c lk)" using I(4) lk by (subst Cons_nth_drop_Suc) (auto simp: length_calls)
    then show ?thesis using sleeper_can [OF lk i I(8,3), of e] False cpu_step.sleeper_step unfolding x I(6,7) by metis
  qed
qed

text \<open>The last state, and why the process is not asleep for good: it is marked only while \<open>wakeup1\<close> is to come.\<close>

lemma cpu_inv_end:
  assumes inv: "cpu_inv p c lk f d n ((t, e), (hs, ps), (hw, pw))" and lk: "lk \<noteq> PtableLock"
  shows "n = 15 \<Longrightarrow> ps = [] \<and> pw = [] \<and> p_state (procs t p) = RUNNING \<and> p_chan (procs t p) = None \<and> hs = [lk] \<and> hw = [] \<and> e = f d"
    "Mark c \<notin> set ps \<Longrightarrow> p_state (procs t p) = SLEEPING \<Longrightarrow> Wake1 c \<in> set pw"
proof -
  obtain i j where I: "n = i + j" "i \<le> 9" "j \<le> 6" "ps = drop i (sleep_call c lk)" "pw = drop j (waker_call c lk f)"
      "hs = sleeper_locks lk i" "hw = waker_locks lk j" "e = (if 2 \<le> j then f d else d)" "sleeping_inv p c i j t"
    using inv unfolding cpu_inv_def by auto
  show "ps = [] \<and> pw = [] \<and> p_state (procs t p) = RUNNING \<and> p_chan (procs t p) = None \<and> hs = [lk] \<and> hw = [] \<and> e = f d" if "n = 15"
  proof -
    have "i = 9" "j = 6" using I(1-3) that by auto
    then show ?thesis using I(4-9) by (simp add: sleep_call_acts lk sleeper_locks_def waker_locks_def sleeping_inv_def)
  qed
  show "Wake1 c \<in> set pw" if m: "Mark c \<notin> set ps" "p_state (procs t p) = SLEEPING"
  proof -
    have "3 \<le> i"
    proof (rule ccontr)
      assume "\<not> 3 \<le> i"
      then have "i = 0 \<or> i = 1 \<or> i = 2" by auto
      then show False using m(1) I(4) by (auto simp: sleep_call_acts lk)
    qed
    then have "j \<le> 3" using I(9) m(2) by (auto simp: sleeping_inv_def split: if_splits)
    then have "j = 0 \<or> j = 1 \<or> j = 2 \<or> j = 3" by auto
    then show ?thesis unfolding I(5) by (auto simp: sleep_call_acts)
  qed
qed

lemma cpu_inv_run:
  assumes "(cpu_step p w ^^ n) ((t, d), ([lk], sleep_call c lk), ([], waker_call c lk f)) y" "lk \<noteq> PtableLock" "p < length (pt_proc t)"
  shows "cpu_inv p c lk f d n y"
  using assms(1)
proof (induction n arbitrary: y)
  case 0
  then show ?case using assms(3) by (auto simp: cpu_inv_def sleeping_inv_def sleeper_locks_def waker_locks_def)
next
  case (Suc n)
  from Suc.prems obtain x where "(cpu_step p w ^^ n) ((t, d), ([lk], sleep_call c lk), ([], waker_call c lk f)) x" "cpu_step p w x y"
    by (rule relpowp_Suc_E)
  then show ?case using cpu_inv_step [OF _ Suc.IH assms(2)] by blast
qed

text \<open>
  C22. No wakeup is lost. A process that holds \<open>lk\<close> calls \<open>sleep(c, lk)\<close> while another CPU changes data under
  \<open>lk\<close> and calls \<open>wakeup(c)\<close>; the accesses of both to the locks and the process table interleave in any order,
  15 of them together. As long as some are left one of the CPUs can go on, the sleeper is asleep only while
  the \<open>wakeup1\<close> is still to come, and after the last one \<open>sleep\<close> has returned: the process runs, with \<open>lk\<close> as its
  only lock, no channel and the data changed. Run on its own, \<open>sleep\<close> comes to the context switch with
  \<open>ptable.lock\<close> only, marked \<open>SLEEPING\<close> on \<open>c\<close>, every other process and the queues unchanged; also when \<open>lk\<close> is
  \<open>ptable.lock\<close> itself.\<close>

theorem sleep_wakeup_correct:
  fixes s :: "'a kst_scheme" and d :: 'b
  assumes p: "curproc s = Some p" "p < length (pt_proc (pt s))" and h: "held s = [lk]"
  shows "(\<exists>s1. sleep_enter c lk s = Ok s1 \<and> held s1 = [PtableLock] \<and> curproc s1 = Some p
      \<and> procs (pt s1) p = (procs (pt s) p)\<lparr>p_chan := Some c, p_state := SLEEPING\<rparr>
      \<and> (\<forall>q. q \<noteq> p \<longrightarrow> procs (pt s1) q = procs (pt s) q) \<and> pt_mlfq (pt s1) = pt_mlfq (pt s)
      \<and> (\<exists>s4. sleep_leave lk s1 = Ok s4 \<and> held s4 = [lk] \<and> p_chan (procs (pt s4) p) = None))
    \<and> (lk \<noteq> PtableLock \<and> (cpu_step p w ^^ n) ((pt s, d), ([lk], sleep_call c lk), ([], waker_call c lk f)) ((t, e), (hs, ps), (hw, pw)) \<longrightarrow>
        n \<le> 15
        \<and> (if n < 15 then \<exists>y. cpu_step p w ((t, e), (hs, ps), (hw, pw)) y
           else ps = [] \<and> pw = [] \<and> p_state (procs t p) = RUNNING \<and> p_chan (procs t p) = None \<and> hs = [lk] \<and> hw = [] \<and> e = f d)
        \<and> (Mark c \<notin> set ps \<and> p_state (procs t p) = SLEEPING \<longrightarrow> Wake1 c \<in> set pw))"
proof -
  let ?t = "upd_proc p (\<lambda>q. q\<lparr>p_chan := Some c, p_state := SLEEPING\<rparr>) (pt s)"
  let ?s1 = "s\<lparr>held := [PtableLock], pt := ?t\<rparr>"
  have 1: "sleep_enter c lk s = Ok ?s1"
    using p h by (cases "lk = PtableLock") (simp_all add: sleep_enter_seq acquire_def release_def sched_def)
  have 4: "\<exists>s4. sleep_leave lk ?s1 = Ok s4 \<and> held s4 = [lk] \<and> p_chan (procs (pt s4) p) = None"
    using p by (cases "lk = PtableLock") (auto simp: sleep_leave_seq acquire_def release_def Let_def)
  have A: "\<exists>s1. sleep_enter c lk s = Ok s1 \<and> held s1 = [PtableLock] \<and> curproc s1 = Some p
      \<and> procs (pt s1) p = (procs (pt s) p)\<lparr>p_chan := Some c, p_state := SLEEPING\<rparr>
      \<and> (\<forall>q. q \<noteq> p \<longrightarrow> procs (pt s1) q = procs (pt s) q) \<and> pt_mlfq (pt s1) = pt_mlfq (pt s)
      \<and> (\<exists>s4. sleep_leave lk s1 = Ok s4 \<and> held s4 = [lk] \<and> p_chan (procs (pt s4) p) = None)"
    by (rule exI [of _ ?s1]) (use p(1,2) 1 4 in simp)
  have "n \<le> 15 \<and> (if n < 15 then \<exists>y. cpu_step p w ((t, e), (hs, ps), (hw, pw)) y
         else ps = [] \<and> pw = [] \<and> p_state (procs t p) = RUNNING \<and> p_chan (procs t p) = None \<and> hs = [lk] \<and> hw = [] \<and> e = f d)
      \<and> (Mark c \<notin> set ps \<and> p_state (procs t p) = SLEEPING \<longrightarrow> Wake1 c \<in> set pw)"
    if lk: "lk \<noteq> PtableLock" and r: "(cpu_step p w ^^ n) ((pt s, d), ([lk], sleep_call c lk), ([], waker_call c lk f)) ((t, e), (hs, ps), (hw, pw))"
  proof -
    have inv: "cpu_inv p c lk f d n ((t, e), (hs, ps), (hw, pw))" by (rule cpu_inv_run [OF r lk p(2)])
    then have n: "n \<le> 15" by (auto simp: cpu_inv_def)
    show ?thesis
      using n cpu_inv_progress [OF inv lk, of w] cpu_inv_end [OF inv lk] by auto
  qed
  with A show ?thesis by blast
qed

theorem sleep_wakeup_correct_witness:
  "\<exists>s1 y. sleep_enter ChanTicks (PipeLock 0) (share_demo\<lparr>held := [PipeLock 0]\<rparr>) = Ok s1 \<and> held s1 = [PtableLock]
     \<and> p_state (procs (pt s1) 0) = SLEEPING
     \<and> cpu_step 0 None ((pt share_demo, 5 :: int), ([PipeLock 0], sleep_call ChanTicks (PipeLock 0)), ([], waker_call ChanTicks (PipeLock 0) (\<lambda>x. x + 1))) y"
proof -
  have l: "0 < length (pt_proc (pt share_demo))" using mlfq_inv_len [OF share_demo_procs(6)] by simp
  have r: "PipeLock 0 \<noteq> PtableLock \<and> (cpu_step 0 None ^^ 0) ((pt share_demo, 5 :: int), ([PipeLock 0], sleep_call ChanTicks (PipeLock 0)), ([], waker_call ChanTicks (PipeLock 0) (\<lambda>x. x + 1)))
      ((pt share_demo, 5), ([PipeLock 0], sleep_call ChanTicks (PipeLock 0)), ([], waker_call ChanTicks (PipeLock 0) (\<lambda>x. x + 1)))" by simp
  have h: "curproc (share_demo\<lparr>held := [PipeLock 0]\<rparr>) = Some 0" "held (share_demo\<lparr>held := [PipeLock 0]\<rparr>) = [PipeLock 0]" "pt (share_demo\<lparr>held := [PipeLock 0]\<rparr>) = pt share_demo"
    using share_demo_procs(4) by simp_all
  note W = sleep_wakeup_correct [OF h(1) l [folded h(3)] h(2), where c = ChanTicks and w = None and n = 0 and d = "5 :: int" and f = "\<lambda>x. x + 1", unfolded h(3)]
  from W [THEN conjunct2, THEN mp, OF r, THEN conjunct2, THEN conjunct1]
  obtain y where "cpu_step 0 None ((pt share_demo, 5 :: int), ([PipeLock 0], sleep_call ChanTicks (PipeLock 0)), ([], waker_call ChanTicks (PipeLock 0) (\<lambda>x. x + 1))) y"
    by (simp only: zero_less_numeral if_True) blast
  moreover from W [THEN conjunct1] obtain s1 where "sleep_enter ChanTicks (PipeLock 0) (share_demo\<lparr>held := [PipeLock 0]\<rparr>) = Ok s1" "held s1 = [PtableLock]"
      "p_state (procs (pt s1) 0) = SLEEPING"
    by fastforce
  ultimately show ?thesis by blast
qed

section \<open>Killing\<close>

lemma kill_eq:
  assumes h: "PtableLock \<notin> set (held s)" and m: "search (\<lambda>p. p_pid (procs (pt s) p) = pid) 0 NPROC = Some p"
    "p_mthread (procs (pt s) p) = Some m"
  shows "kill pid s = Ok (0, s\<lparr>pt := upd_proc m (\<lambda>q. q\<lparr>p_state := RUNNABLE\<rparr>)
      ((\<lambda>t. if p_state (procs t p) = SLEEPING then upd_proc p (\<lambda>q. q\<lparr>p_state := RUNNABLE\<rparr>) t else t)
       (upd_proc m (\<lambda>q. q\<lparr>p_killed := True\<rparr>) (upd_proc p (\<lambda>q. q\<lparr>p_killed := True\<rparr>) (pt s))))\<rparr>)"
  using assms by (simp add: kill_def acquire_def release_def Let_def)

text \<open>
  \<open>kill(pid)\<close> returns -1 and changes nothing when no slot of the table has that pid; otherwise it
  returns 0, the first such slot \<open>p\<close> and its main thread \<open>m\<close> are marked killed, \<open>p\<close> is not asleep
  any more, and nothing else of the table changes but the state of \<open>m\<close>, which becomes \<open>RUNNABLE\<close>
  whatever it was: a main thread that runs on another CPU can be dispatched a second time, and a
  main thread that has exited (\<open>ZOMBIE\<close>) becomes \<open>RUNNABLE\<close> again.\<close>

theorem kill_correct:
  assumes h: "PtableLock \<notin> set (held s)" and len: "length (pt_proc (pt s)) = NPROC"
    and mt: "\<And>p. p < NPROC \<Longrightarrow> p_pid (procs (pt s) p) = pid \<Longrightarrow> \<exists>m<NPROC. p_mthread (procs (pt s) p) = Some m"
  shows "(if \<exists>p<NPROC. p_pid (procs (pt s) p) = pid then \<exists>p m t. p < NPROC \<and> m < NPROC \<and> p_pid (procs (pt s) p) = pid
        \<and> (\<forall>q<p. p_pid (procs (pt s) q) \<noteq> pid) \<and> p_mthread (procs (pt s) p) = Some m
        \<and> kill pid s = Ok (0, s\<lparr>pt := t\<rparr>) \<and> p_killed (procs t p) \<and> p_killed (procs t m)
        \<and> p_state (procs t p) \<noteq> SLEEPING \<and> p_state (procs t m) = RUNNABLE
        \<and> (p \<noteq> m \<longrightarrow> p_state (procs (pt s) p) \<noteq> SLEEPING \<longrightarrow> p_state (procs t p) = p_state (procs (pt s) p))
        \<and> (\<forall>q. q \<noteq> p \<longrightarrow> q \<noteq> m \<longrightarrow> procs t q = procs (pt s) q) \<and> pt_mlfq t = pt_mlfq (pt s)
      else kill pid s = Ok (-1, s))"
proof (cases "search (\<lambda>p. p_pid (procs (pt s) p) = pid) 0 NPROC")
  case None
  then have "kill pid s = Ok (-1, s)" using h by (simp add: kill_def acquire_def release_def)
  moreover have "\<not> (\<exists>p<NPROC. p_pid (procs (pt s) p) = pid)" using None by (simp add: search_None)
  ultimately show ?thesis by (simp only: if_False)
next
  case (Some p)
  then have p: "p < NPROC" "p_pid (procs (pt s) p) = pid" "\<forall>q<p. p_pid (procs (pt s) q) \<noteq> pid" by (auto simp: search_Some)
  then obtain m where m: "m < NPROC" "p_mthread (procs (pt s) p) = Some m" using mt by blast
  let ?t1 = "upd_proc m (\<lambda>q. q\<lparr>p_killed := True\<rparr>) (upd_proc p (\<lambda>q. q\<lparr>p_killed := True\<rparr>) (pt s))"
  let ?t2 = "if p_state (procs ?t1 p) = SLEEPING then upd_proc p (\<lambda>q. q\<lparr>p_state := RUNNABLE\<rparr>) ?t1 else ?t1"
  let ?t = "upd_proc m (\<lambda>q. q\<lparr>p_state := RUNNABLE\<rparr>) ?t2"
  obtain t where t: "t = ?t" by blast
  have k: "kill pid s = Ok (0, s\<lparr>pt := t\<rparr>)" unfolding t by (rule kill_eq [OF h Some m(2)])
  have a: "p_killed (procs t p)" "p_killed (procs t m)" "p_state (procs t p) \<noteq> SLEEPING" "p_state (procs t m) = RUNNABLE"
    "pt_mlfq t = pt_mlfq (pt s)"
    unfolding t using p(1) m(1) len by (simp_all add: procs_upd_proc)
  have b: "p_state (procs t p) = p_state (procs (pt s) p)" if "p \<noteq> m" "p_state (procs (pt s) p) \<noteq> SLEEPING"
    unfolding t using p(1) m(1) len that by (simp add: procs_upd_proc)
  have c: "procs t q = procs (pt s) q" if "q \<noteq> p" "q \<noteq> m" for q unfolding t using that by simp
  have ex: "\<exists>p<NPROC. p_pid (procs (pt s) p) = pid" using p by blast
  show ?thesis unfolding if_P [OF ex] using p m k a b c by blast
qed

definition kill_demo :: kst where
  "kill_demo = share_demo\<lparr>pt := upd_proc 0 (\<lambda>q. q\<lparr>p_pid := 7, p_state := ZOMBIE\<rparr>) (pt share_demo)\<rparr>"

theorem kill_correct_witness:
  "\<exists>t. kill 7 kill_demo = Ok (0, kill_demo\<lparr>pt := t\<rparr>) \<and> p_state (procs (pt kill_demo) 0) = ZOMBIE \<and> p_state (procs t 0) = RUNNABLE"
proof -
  have l: "length (pt_proc (pt kill_demo)) = NPROC" "PtableLock \<notin> set (held kill_demo)"
    using mlfq_inv_len [OF share_demo_procs(6)] share_demo_procs(3) by (simp_all add: kill_demo_def)
  have p0: "procs (pt kill_demo) 0 = (procs (pt share_demo) 0)\<lparr>p_pid := 7, p_state := ZOMBIE\<rparr>"
    using mlfq_inv_len [OF share_demo_procs(6)] by (simp add: kill_demo_def)
  have pid: "p_pid (procs (pt kill_demo) p) = 7 \<longleftrightarrow> p = 0" if "p < NPROC" for p
    using that p0 by (cases "p = 0") (simp_all add: kill_demo_def share_demo_def zero_ptable_def zero_proc_def)
  have ex: "\<exists>p<NPROC. p_pid (procs (pt kill_demo) p) = 7" by (rule exI [of _ 0]) (simp add: pid)
  have mt: "p_mthread (procs (pt kill_demo) 0) = Some 0" "p_state (procs (pt kill_demo) 0) = ZOMBIE"
    by (simp_all add: p0 share_demo_procs(1))
  have "\<exists>m<NPROC. p_mthread (procs (pt kill_demo) p) = Some m" if "p < NPROC" "p_pid (procs (pt kill_demo) p) = 7" for p
    using that pid [OF that(1)] mt by auto
  then show ?thesis using kill_correct [OF l(2,1), of 7] pid mt unfolding if_P [OF ex] by fastforce
qed

end
