(* ===== verification/Kalloc.thy ===== *)
theory Kalloc
  imports Ptable
begin

text \<open>
  The physical page allocator, kalloc.c. Free pages are linked through their first word; the model
  keeps the pages' contents and follows the links in them. The invariant relates the chain of pages
  to a list; \<open>kalloc\<close> and \<open>kfree\<close> are the operations of a stack on that list, and every
  component that allocates pages uses them through the locale \<open>page_allocator\<close>.
\<close>

section \<open>State and operations\<close>

abbreviation (input) PGSIZE :: nat where "PGSIZE \<equiv> 4096"
abbreviation (input) KERNBASE :: nat where "KERNBASE \<equiv> 0x80000000"
abbreviation (input) PHYSTOP :: nat where "PHYSTOP \<equiv> 0xE000000"

text \<open>
  \<open>pages v\<close> are the 4096 bytes of the page at kernel address \<open>v\<close>; \<open>kern_end\<close> is the linker's
  \<open>end\<close>, the first address after the kernel image.
\<close>

record kmemst = kst +
  kmem_use_lock :: bool
  kmem_freelist :: nat
  pages :: "nat \<Rightarrow> uchar list"
  kern_end :: nat

definition V2P :: "nat \<Rightarrow> nat" where
  "V2P a = u32 (a + 2 ^ 32 - KERNBASE)"

definition P2V :: "nat \<Rightarrow> nat" where
  "P2V a = u32 (a + KERNBASE)"

definition PGROUNDUP :: "nat \<Rightarrow> nat" where
  "PGROUNDUP sz = u32 (sz + PGSIZE - 1) div PGSIZE * PGSIZE"

definition PGROUNDDOWN :: "nat \<Rightarrow> nat" where
  "PGROUNDDOWN a = a div PGSIZE * PGSIZE"

definition kmem_acquire :: "'a kmemst_scheme \<Rightarrow> 'a kmemst_scheme result" where
  "kmem_acquire s = (if kmem_use_lock s then acquire KmemLock s else Ok s)"

definition kmem_release :: "'a kmemst_scheme \<Rightarrow> 'a kmemst_scheme result" where
  "kmem_release s = (if kmem_use_lock s then release KmemLock s else Ok s)"

text \<open>\<open>kfree\<close>: the page is filled with ones, then its first word is linked to the free list.\<close>

definition kfree :: "nat \<Rightarrow> 'a kmemst_scheme \<Rightarrow> 'a kmemst_scheme result" where
  "kfree v s =
     (if v mod PGSIZE \<noteq> 0 \<or> v < kern_end s \<or> V2P v \<ge> PHYSTOP then Err (Panic ''kfree'')
      else let s = s\<lparr>pages := (pages s)(v := replicate PGSIZE 1)\<rparr> in
        rbind (kmem_acquire s) (\<lambda>s.
        kmem_release (s\<lparr>pages := (pages s)(v := put_u32 (pages s v) 0 (kmem_freelist s)),
                         kmem_freelist := v\<rparr>)))"

text \<open>\<open>kalloc\<close> returns 0 when the free list is empty.\<close>

definition kalloc :: "'a kmemst_scheme \<Rightarrow> (nat \<times> 'a kmemst_scheme) result" where
  "kalloc s = rbind (kmem_acquire s) (\<lambda>s.
     let r = kmem_freelist s;
         s = (if r \<noteq> 0 then s\<lparr>kmem_freelist := get_u32 (pages s r) 0\<rparr> else s)
     in rbind (kmem_release s) (\<lambda>s. Ok (r, s)))"

text \<open>\<open>for (; p + PGSIZE <= vend; p += PGSIZE) kfree(p);\<close>\<close>

function freerange_loop :: "nat \<Rightarrow> nat \<Rightarrow> 'a kmemst_scheme \<Rightarrow> 'a kmemst_scheme result" where
  "freerange_loop p vend s =
     (if p + PGSIZE \<le> vend then rbind (kfree p s) (freerange_loop (p + PGSIZE) vend) else Ok s)"
  by pat_completeness auto
termination by (relation "measure (\<lambda>(p, vend, s). vend - p)") auto

declare freerange_loop.simps [simp del]

definition freerange :: "nat \<Rightarrow> nat \<Rightarrow> 'a kmemst_scheme \<Rightarrow> 'a kmemst_scheme result" where
  "freerange vstart vend s = freerange_loop (PGROUNDUP vstart) vend s"

definition kinit1 :: "nat \<Rightarrow> nat \<Rightarrow> 'a kmemst_scheme \<Rightarrow> 'a kmemst_scheme result" where
  "kinit1 vstart vend s = freerange vstart vend
     (s\<lparr>held := filter (\<lambda>l. l \<noteq> KmemLock) (held s), kmem_use_lock := False\<rparr>)"

definition kinit2 :: "nat \<Rightarrow> nat \<Rightarrow> 'a kmemst_scheme \<Rightarrow> 'a kmemst_scheme result" where
  "kinit2 vstart vend s = rbind (freerange vstart vend s) (\<lambda>s. Ok (s\<lparr>kmem_use_lock := True\<rparr>))"

section \<open>The free list as a list of pages\<close>

fun chain :: "(nat \<Rightarrow> uchar list) \<Rightarrow> nat \<Rightarrow> nat list \<Rightarrow> bool" where
  "chain m a [] \<longleftrightarrow> a = 0"
| "chain m a (x # xs) \<longleftrightarrow> a = x \<and> x \<noteq> 0 \<and> chain m (get_u32 (m x) 0) xs"

definition page_ok :: "'a kmemst_scheme \<Rightarrow> nat \<Rightarrow> bool" where
  "page_ok s v \<longleftrightarrow> v mod PGSIZE = 0 \<and> kern_end s \<le> v \<and> V2P v < PHYSTOP \<and> 0 < v \<and> v < 2 ^ 32"

definition kmem_inv :: "nat list \<Rightarrow> 'a kmemst_scheme \<Rightarrow> bool" where
  "kmem_inv xs s \<longleftrightarrow> chain (pages s) (kmem_freelist s) xs \<and> distinct xs \<and> (\<forall>x\<in>set xs. page_ok s x)
     \<and> (\<forall>v. page_ok s v \<longrightarrow> length (pages s v) = PGSIZE) \<and> KmemLock \<notin> set (held s)"

lemma chain_frame: "(\<forall>x\<in>set xs. m' x = m x) \<Longrightarrow> chain m' a xs \<longleftrightarrow> chain m a xs"
  by (induction xs arbitrary: a) auto

lemma chain_unique: "chain m a xs \<Longrightarrow> chain m a ys \<Longrightarrow> xs = ys"
proof (induction xs arbitrary: a ys)
  case Nil
  then show ?case by (cases ys) auto
next
  case (Cons x xs)
  then show ?case by (cases ys) auto
qed

lemma kalloc_eq:
  assumes "KmemLock \<notin> set (held s)"
  shows "kalloc s = Ok (kmem_freelist s, if kmem_freelist s \<noteq> 0
    then s\<lparr>kmem_freelist := get_u32 (pages s (kmem_freelist s)) 0\<rparr> else s)"
  using assms by (simp add: kalloc_def kmem_acquire_def kmem_release_def acquire_def release_def Let_def)

lemma kfree_eq:
  assumes "KmemLock \<notin> set (held s)" "v mod PGSIZE = 0" "kern_end s \<le> v" "V2P v < PHYSTOP"
  shows "kfree v s = Ok (s\<lparr>pages := (pages s)(v := put_u32 (replicate PGSIZE 1) 0 (kmem_freelist s)),
     kmem_freelist := v\<rparr>)"
  using assms by (simp add: kfree_def kmem_acquire_def kmem_release_def acquire_def release_def Let_def)

lemma kfree_panic:
  "v mod PGSIZE \<noteq> 0 \<or> v < kern_end s \<or> PHYSTOP \<le> V2P v \<Longrightarrow> kfree v s = Err (Panic ''kfree'')"
  by (auto simp: kfree_def)

lemma kalloc_inv:
  assumes "kmem_inv (x # xs) s"
  shows "\<exists>s'. kalloc s = Ok (x, s') \<and> kmem_inv xs s' \<and> pages s' = pages s \<and> kern_end s' = kern_end s"
  using assms by (auto simp: kmem_inv_def kalloc_eq page_ok_def)

lemma kalloc_empty:
  assumes "kmem_inv [] s"
  shows "kalloc s = Ok (0, s)"
  using assms by (simp add: kmem_inv_def kalloc_eq)

lemma kfree_inv:
  assumes inv: "kmem_inv xs s" and v: "page_ok s v" "v \<notin> set xs"
  shows "\<exists>s'. kfree v s = Ok s' \<and> kmem_inv (v # xs) s' \<and> (\<forall>u. u \<noteq> v \<longrightarrow> pages s' u = pages s u)
     \<and> kern_end s' = kern_end s"
proof -
  let ?p = "put_u32 (replicate PGSIZE 1 :: uchar list) 0 (kmem_freelist s)"
  let ?s = "s\<lparr>pages := (pages s)(v := ?p), kmem_freelist := v\<rparr>"
  have eq: "kfree v s = Ok ?s" using inv v by (simp add: kmem_inv_def page_ok_def kfree_eq)
  have "kmem_freelist s < 2 ^ 32"
    using inv by (cases xs) (auto simp: kmem_inv_def page_ok_def)
  then have link: "get_u32 ?p 0 = kmem_freelist s" by (intro get_put_u32_same) simp_all
  have "chain ((pages s)(v := ?p)) (kmem_freelist s) xs"
    using inv v(2) chain_frame [of xs "(pages s)(v := ?p)" "pages s"] by (auto simp: kmem_inv_def)
  then have "kmem_inv (v # xs) ?s"
    using inv v link by (auto simp: kmem_inv_def page_ok_def)
  with eq show ?thesis by auto
qed

section \<open>The allocator's interface\<close>

locale page_allocator =
  fixes inv :: "nat list \<Rightarrow> 's \<Rightarrow> bool"
    and alloc :: "'s \<Rightarrow> (nat \<times> 's) result"
    and free :: "nat \<Rightarrow> 's \<Rightarrow> 's result"
    and valid :: "'s \<Rightarrow> nat \<Rightarrow> bool"
  assumes alloc_page: "inv (x # xs) s \<Longrightarrow> \<exists>s'. alloc s = Ok (x, s') \<and> inv xs s' \<and> valid s' = valid s"
    and alloc_none: "inv [] s \<Longrightarrow> alloc s = Ok (0, s)"
    and free_page: "inv xs s \<Longrightarrow> valid s v \<Longrightarrow> v \<notin> set xs \<Longrightarrow>
      \<exists>s'. free v s = Ok s' \<and> inv (v # xs) s' \<and> valid s' = valid s"
    and free_list_valid: "inv xs s \<Longrightarrow> x \<in> set xs \<Longrightarrow> valid s x \<and> x \<noteq> 0"
    and free_list_distinct: "inv xs s \<Longrightarrow> distinct xs"
begin

lemma free_then_alloc:
  assumes "inv xs s" "valid s v" "v \<notin> set xs"
  shows "\<exists>s'. rbind (free v s) alloc = Ok (v, s') \<and> inv xs s'"
proof -
  obtain s1 where "free v s = Ok s1" "inv (v # xs) s1" using free_page [OF assms] by blast
  with alloc_page [of v xs s1] show ?thesis by auto
qed

lemma free_all:
  assumes "inv xs s" "distinct vs" "\<forall>v\<in>set vs. valid s v \<and> v \<notin> set xs"
  shows "\<exists>s'. rfold free vs s = Ok s' \<and> inv (rev vs @ xs) s' \<and> valid s' = valid s"
  using assms
proof (induction vs arbitrary: xs s)
  case Nil
  then show ?case by simp
next
  case (Cons v vs)
  obtain s1 where s1: "free v s = Ok s1" "inv (v # xs) s1" "valid s1 = valid s"
    using free_page [of xs s v] Cons.prems by auto
  have "\<exists>s'. rfold free vs s1 = Ok s' \<and> inv (rev vs @ v # xs) s' \<and> valid s' = valid s1"
    by (rule Cons.IH) (use Cons.prems s1 in auto)
  with s1 show ?case by auto
qed

text \<open>Consecutive allocations return different pages, those at the head of the free list.\<close>

fun alloc_many :: "nat \<Rightarrow> 's \<Rightarrow> (nat list \<times> 's) result" where
  "alloc_many 0 s = Ok ([], s)"
| "alloc_many (Suc n) s = rbind (alloc s) (\<lambda>(v, s). rbind (alloc_many n s) (\<lambda>(vs, s). Ok (v # vs, s)))"

lemma alloc_many_distinct:
  "inv xs s \<Longrightarrow> n \<le> length xs \<Longrightarrow>
   \<exists>s'. alloc_many n s = Ok (take n xs, s') \<and> inv (drop n xs) s' \<and> distinct (take n xs)"
proof (induction n arbitrary: xs s)
  case 0
  then show ?case by simp
next
  case (Suc n)
  then obtain x ys where xs: "xs = x # ys" by (cases xs) auto
  obtain s1 where s1: "alloc s = Ok (x, s1)" "inv ys s1" using alloc_page Suc.prems(1) xs by blast
  obtain s2 where "alloc_many n s1 = Ok (take n ys, s2)" "inv (drop n ys) s2"
    using Suc.IH [OF s1(2)] Suc.prems(2) xs by auto
  moreover have "distinct (take (Suc n) xs)"
    using free_list_distinct [OF Suc.prems(1)] by (rule distinct_take)
  ultimately show ?case using s1 xs by auto
qed

end

interpretation ka: page_allocator kmem_inv kalloc kfree page_ok
proof
  show "\<exists>s'. kalloc s = Ok (x, s') \<and> kmem_inv xs s' \<and> page_ok s' = page_ok s"
    if "kmem_inv (x # xs) s" for x xs and s :: "'a kmemst_scheme"
    using kalloc_inv [OF that] by (auto simp: page_ok_def fun_eq_iff)
  show "\<exists>s'. kfree v s = Ok s' \<and> kmem_inv (v # xs) s' \<and> page_ok s' = page_ok s"
    if "kmem_inv xs s" "page_ok s v" "v \<notin> set xs" for xs v and s :: "'a kmemst_scheme"
    using kfree_inv [OF that] by (auto simp: page_ok_def fun_eq_iff)
qed (auto simp: kalloc_empty kmem_inv_def page_ok_def)

section \<open>Properties\<close>

definition range_pages :: "nat \<Rightarrow> nat \<Rightarrow> nat list" where
  "range_pages p vend = map (\<lambda>k. p + k * PGSIZE) [0..<(vend - p) div PGSIZE]"

lemma range_pages_step:
  "p + PGSIZE \<le> vend \<Longrightarrow> range_pages p vend = p # range_pages (p + PGSIZE) vend"
proof -
  assume a: "p + PGSIZE \<le> vend"
  then have "(vend - p) div PGSIZE = Suc ((vend - (p + PGSIZE)) div PGSIZE)"
    using le_div_geq [of PGSIZE "vend - p"] by simp
  then show ?thesis unfolding range_pages_def by (simp only: map_upt_Suc) simp
qed

lemma freerange_loop_eq: "freerange_loop p vend s = rfold kfree (range_pages p vend) s"
proof (induction p vend s rule: freerange_loop.induct)
  case (1 p vend s)
  show ?case
  proof (cases "p + PGSIZE \<le> vend")
    case True
    with 1 show ?thesis
      by (cases "kfree p s") (simp_all add: freerange_loop.simps [of p] range_pages_step)
  next
    case False
    then have "range_pages p vend = []" by (simp add: range_pages_def)
    with False show ?thesis by (simp add: freerange_loop.simps [of p])
  qed
qed

lemma distinct_range_pages: "distinct (range_pages p vend)"
  by (simp add: range_pages_def distinct_map inj_on_def)

text \<open>
  C9. The allocator is a stack of free pages: freeing a page that is not on the free list and
  allocating returns that page and restores the list; consecutive allocations return different
  pages; and \<open>freerange\<close> puts exactly the whole pages of the range on the list and returns.
\<close>

theorem kalloc_kfree_stack:
  fixes s :: "'a kmemst_scheme"
  assumes inv: "kmem_inv xs s"
  shows "(page_ok s v \<and> v \<notin> set xs \<longrightarrow>
           (\<exists>s'. rbind (kfree v s) kalloc = Ok (v, s') \<and> kmem_inv xs s'))
    \<and> (case xs of [] \<Rightarrow> kalloc s = Ok (0, s)
        | x # ys \<Rightarrow> \<exists>s'. kalloc s = Ok (x, s') \<and> x \<noteq> 0 \<and> x \<notin> set ys \<and> kmem_inv ys s')
    \<and> ((\<forall>u\<in>set (range_pages (PGROUNDUP a) b). page_ok s u \<and> u \<notin> set xs) \<longrightarrow>
        (\<exists>s'. freerange a b s = Ok s' \<and> kmem_inv (rev (range_pages (PGROUNDUP a) b) @ xs) s'))"
proof (intro conjI impI)
  assume "page_ok s v \<and> v \<notin> set xs"
  with ka.free_then_alloc [OF inv] show "\<exists>s'. rbind (kfree v s) kalloc = Ok (v, s') \<and> kmem_inv xs s'" by blast
next
  show "case xs of [] \<Rightarrow> kalloc s = Ok (0, s)
      | x # ys \<Rightarrow> \<exists>s'. kalloc s = Ok (x, s') \<and> x \<noteq> 0 \<and> x \<notin> set ys \<and> kmem_inv ys s'"
  proof (cases xs)
    case Nil
    then show ?thesis using ka.alloc_none inv by simp
  next
    case (Cons x ys)
    then show ?thesis
      using ka.alloc_page [of x ys s] ka.free_list_valid [OF inv, of x] ka.free_list_distinct [OF inv] inv
      by auto
  qed
next
  assume "\<forall>u\<in>set (range_pages (PGROUNDUP a) b). page_ok s u \<and> u \<notin> set xs"
  with ka.free_all [OF inv distinct_range_pages]
  show "\<exists>s'. freerange a b s = Ok s' \<and> kmem_inv (rev (range_pages (PGROUNDUP a) b) @ xs) s'"
    unfolding freerange_def freerange_loop_eq by blast
qed

text \<open>Three pages from the end of a kernel image that stops at \<open>0x80100000\<close>.\<close>

definition boot_kmem :: kmemst where
  "boot_kmem = \<lparr>held = [], curproc = None, pt = \<lparr>pt_proc = [], pt_mlfq = \<lparr>m_queue = [], m_index = [],
     m_percentage = 0, m_pass = 0\<rparr>, pt_minpass = 0\<rparr>, kmem_use_lock = False, kmem_freelist = 0,
     pages = (\<lambda>_. replicate PGSIZE 0), kern_end = 0x80100000\<rparr>"

theorem kalloc_kfree_stack_witness:
  "\<exists>s'. freerange 0x80100001 0x80104000 boot_kmem = Ok s'
     \<and> kmem_inv [0x80103000, 0x80102000, 0x80101000] s'"
proof -
  have i: "kmem_inv [] boot_kmem" by (simp add: kmem_inv_def boot_kmem_def page_ok_def)
  have r: "range_pages (PGROUNDUP 0x80100001) 0x80104000 = [0x80101000, 0x80102000, 0x80103000]"
  proof -
    have "[0..<3] = [0, 1, 2 :: nat]" by (simp add: upt_rec)
    then show ?thesis by (simp add: range_pages_def PGROUNDUP_def u32_def)
  qed
  have "\<forall>u\<in>{0x80101000, 0x80102000, 0x80103000}. page_ok boot_kmem u"
    by (simp add: page_ok_def boot_kmem_def V2P_def u32_def)
  with kalloc_kfree_stack [OF i, of 0 "0x80100001" "0x80104000"] show ?thesis
    unfolding r by auto
qed

end
