(* ===== verification/Buf.thy ===== *)
theory Buf
  imports Kalloc
begin

text \<open>
  Disk blocks as the file system sees them through the buffer cache (bio.c): \<open>blk\<close> is the content
  of a block, the cached copy if there is one and the disk's otherwise, \<open>disk\<close> what is on the disk,
  \<open>bheld\<close> the buffers that are locked, and \<open>wtrace\<close> the writes that have reached the disk, in
  order, so that a crash between any two of them can be talked about. Theory Bio has the cache
  itself and shows that it implements this view.
\<close>

section \<open>State\<close>

type_synonym bytes = "uchar list"

abbreviation (input) BSIZE :: nat where "BSIZE \<equiv> 512"
abbreviation (input) FSSIZE :: nat where "FSSIZE \<equiv> 40000"

record bufst = kmemst +
  disk :: "nat \<Rightarrow> nat \<Rightarrow> bytes"
  blk :: "nat \<Rightarrow> nat \<Rightarrow> bytes"
  bheld :: "(nat \<times> nat) list"
  wtrace :: "(nat \<times> nat \<times> bytes) list"

text \<open>\<open>bset dev b d\<close> is an assignment to \<open>bp->data\<close> of the buffer of block \<open>b\<close>.\<close>

definition set_block :: "nat \<Rightarrow> nat \<Rightarrow> bytes \<Rightarrow> (nat \<Rightarrow> nat \<Rightarrow> bytes) \<Rightarrow> nat \<Rightarrow> nat \<Rightarrow> bytes" where
  "set_block dev b d m = m(dev := (m dev)(b := d))"

lemma set_block_apply: "set_block dev b d m dev' b' = (if dev' = dev \<and> b' = b then d else m dev' b')"
  by (simp add: set_block_def)

abbreviation bset :: "nat \<Rightarrow> nat \<Rightarrow> bytes \<Rightarrow> 'a bufst_scheme \<Rightarrow> 'a bufst_scheme" where
  "bset dev b d \<equiv> blk_update (set_block dev b d)"

section \<open>Operations\<close>

text \<open>
  \<open>bread\<close> locks the buffer; reading a buffer that is locked sleeps, and a block number that is not
  on the disk makes the driver panic. The data of the buffer is then \<open>blk s dev b\<close>.
\<close>

definition bread :: "nat \<Rightarrow> nat \<Rightarrow> 'a bufst_scheme \<Rightarrow> 'a bufst_scheme result" where
  "bread dev b s =
     (if (dev, b) \<in> set (bheld s) then Err (Sleeps (ChanBuf b))
      else if b \<ge> FSSIZE then Err (Panic ''incorrect blockno'')
      else Ok (s\<lparr>bheld := (dev, b) # bheld s\<rparr>))"

definition bwrite :: "nat \<Rightarrow> nat \<Rightarrow> 'a bufst_scheme \<Rightarrow> 'a bufst_scheme result" where
  "bwrite dev b s =
     (if (dev, b) \<notin> set (bheld s) then Err (Panic ''bwrite'')
      else Ok (s\<lparr>disk := set_block dev b (blk s dev b) (disk s),
                  wtrace := wtrace s @ [(dev, b, blk s dev b)]\<rparr>))"

text \<open>\<open>brelse\<close> unlocks the buffer and wakes the processes that wait for it.\<close>

definition brelse :: "nat \<Rightarrow> nat \<Rightarrow> 'a bufst_scheme \<Rightarrow> 'a bufst_scheme result" where
  "brelse dev b s =
     (if (dev, b) \<notin> set (bheld s) then Err (Panic ''brelse'')
      else rbind (wakeup (ChanBuf b) s) (\<lambda>s. Ok (s\<lparr>bheld := remove1 (dev, b) (bheld s)\<rparr>)))"

section \<open>The superblock\<close>

record superblock =
  sb_size :: nat
  sb_nblocks :: nat
  sb_ninodes :: nat
  sb_nlog :: nat
  sb_logstart :: nat
  sb_inodestart :: nat
  sb_bmapstart :: nat

definition sb_of :: "bytes \<Rightarrow> superblock" where
  "sb_of d = \<lparr>sb_size = get_cell d 0, sb_nblocks = get_cell d 1, sb_ninodes = get_cell d 2,
     sb_nlog = get_cell d 3, sb_logstart = get_cell d 4, sb_inodestart = get_cell d 5,
     sb_bmapstart = get_cell d 6\<rparr>"

definition readsb :: "nat \<Rightarrow> 'a bufst_scheme \<Rightarrow> (superblock \<times> 'a bufst_scheme) result" where
  "readsb dev s = rbind (bread dev 1 s) (\<lambda>s. let sb = sb_of (blk s dev 1) in
     rbind (brelse dev 1 s) (\<lambda>s. Ok (sb, s)))"

section \<open>Normal paths\<close>

lemma bread_ok [kernel_simps]:
  "(dev, b) \<notin> set (bheld s) \<Longrightarrow> b < FSSIZE \<Longrightarrow> bread dev b s = Ok (s\<lparr>bheld := (dev, b) # bheld s\<rparr>)"
  by (simp add: bread_def)

lemma bwrite_ok [kernel_simps]:
  "(dev, b) \<in> set (bheld s) \<Longrightarrow> bwrite dev b s = Ok (s\<lparr>disk := set_block dev b (blk s dev b) (disk s),
     wtrace := wtrace s @ [(dev, b, blk s dev b)]\<rparr>)"
  by (simp add: bwrite_def)

lemma brelse_ok [kernel_simps]:
  "(dev, b) \<in> set (bheld s) \<Longrightarrow> PtableLock \<notin> set (held s) \<Longrightarrow>
   brelse dev b s = Ok (s\<lparr>pt := wakeup1 (Some (ChanBuf b)) (pt s), bheld := remove1 (dev, b) (bheld s)\<rparr>)"
  by (simp add: brelse_def wakeup_eq)

text \<open>
  A state that differs from another only in which processes are awake; the operations of the file
  system are described up to that difference, which the wakeups of the sleep locks cause.
\<close>

definition repl_pt :: "ptable \<Rightarrow> 'a kst_scheme \<Rightarrow> 'a kst_scheme" where
  "repl_pt t s = s\<lparr>pt := t\<rparr>"

lemma repl_pt_simps [simp]:
  "held (repl_pt t s) = held s" "curproc (repl_pt t s) = curproc s" "pt (repl_pt t s) = t"
  "kst.more (repl_pt t s) = kst.more s"
  "repl_pt t (repl_pt t' s) = repl_pt t s" "repl_pt (pt s) s = s"
  by (simp_all add: repl_pt_def)

lemma repl_pt_kmem [simp]:
  "kmem_use_lock (repl_pt t s) = kmem_use_lock s" "kmem_freelist (repl_pt t s) = kmem_freelist s"
  "pages (repl_pt t s) = pages s" "kern_end (repl_pt t s) = kern_end s"
  by (simp_all add: repl_pt_def)

lemma repl_pt_buf [simp]:
  "disk (repl_pt t s) = disk s" "blk (repl_pt t s) = blk s" "bheld (repl_pt t s) = bheld s"
  "wtrace (repl_pt t s) = wtrace s" "bufst.more (repl_pt t s) = bufst.more s"
  by (simp_all add: repl_pt_def)

lemma readsb_ok:
  assumes "(dev, 1) \<notin> set (bheld s)" "PtableLock \<notin> set (held s)"
  shows "\<exists>t. readsb dev s = Ok (sb_of (blk s dev 1), repl_pt t s)"
  using assms by (auto simp: readsb_def Let_def kernel_simps repl_pt_def)

end
