(* ===== verification/Log.thy ===== *)
theory Log
  imports Buf
begin

text \<open>
  The write-ahead log of log.c: transactions are delimited by \<open>begin_op\<close> and \<open>end_op\<close>, blocks are
  recorded with \<open>log_write\<close>, and \<open>commit\<close> copies them to the log area, writes the header, installs
  them at home and clears the header. The disk's content as recovery would leave it is the
  abstract state: every single disk write of \<open>commit\<close> leaves it as it was before the transaction
  or makes it what the transaction wrote, and every write of recovery leaves it alone.
\<close>

section \<open>State\<close>

abbreviation (input) MAXOPBLOCKS :: int where "MAXOPBLOCKS \<equiv> 10"
abbreviation (input) LOGSIZE :: int where "LOGSIZE \<equiv> 30"

text \<open>\<open>lh_n\<close> and \<open>lh_block\<close> are the in-memory \<open>struct logheader\<close>.\<close>

record logst = bufst +
  log_start :: nat
  log_size :: int
  log_outstanding :: int
  log_committing :: bool
  log_dev :: nat
  lh_n :: int
  lh_block :: "nat list"

text \<open>A stored \<open>int\<close> is read as a signed number.\<close>

definition of_int32 :: "nat \<Rightarrow> int" where
  "of_int32 v = (if v < 2 ^ 31 then int v else int v - 2 ^ 32)"

definition to_int32 :: "int \<Rightarrow> nat" where
  "to_int32 i = nat (i mod 2 ^ 32)"

section \<open>Recovery and commit\<close>

text \<open>The body of the loop of \<open>install_trans\<close> and of \<open>write_log\<close>.\<close>

definition install_one :: "nat \<Rightarrow> 'a logst_scheme \<Rightarrow> 'a logst_scheme result" where
  "install_one tail s = (let dev = log_dev s; l = log_start s + tail + 1; d = lh_block s ! tail in
     rbind (bread dev l s) (\<lambda>s.
     rbind (bread dev d s) (\<lambda>s.
     rbind (bwrite dev d (bset dev d (blk s dev l) s)) (\<lambda>s.
     rbind (brelse dev l s) (\<lambda>s.
     brelse dev d s)))))"

definition install_trans :: "'a logst_scheme \<Rightarrow> 'a logst_scheme result" where
  "install_trans s = rfold install_one [0..<nat (lh_n s)] s"

definition write_log_one :: "nat \<Rightarrow> 'a logst_scheme \<Rightarrow> 'a logst_scheme result" where
  "write_log_one tail s = (let dev = log_dev s; t = log_start s + tail + 1; f = lh_block s ! tail in
     rbind (bread dev t s) (\<lambda>s.
     rbind (bread dev f s) (\<lambda>s.
     rbind (bwrite dev t (bset dev t (blk s dev f) s)) (\<lambda>s.
     rbind (brelse dev f s) (\<lambda>s.
     brelse dev t s)))))"

definition write_log :: "'a logst_scheme \<Rightarrow> 'a logst_scheme result" where
  "write_log s = rfold write_log_one [0..<nat (lh_n s)] s"

text \<open>
  \<open>read_head\<close>: a header that claims more than \<open>LOGSIZE\<close> blocks makes the loop write past the end of
  \<open>log.lh.block\<close>.
\<close>

definition read_head :: "'a logst_scheme \<Rightarrow> 'a logst_scheme result" where
  "read_head s = rbind (bread (log_dev s) (log_start s) s) (\<lambda>s.
     let d = blk s (log_dev s) (log_start s); n = of_int32 (get_cell d 0) in
     if n > LOGSIZE then Err (Fault ''log.lh.block'')
     else brelse (log_dev s) (log_start s)
       (s\<lparr>lh_n := n, lh_block := fold (\<lambda>i bs. bs[i := get_cell d (Suc i)]) [0..<nat n] (lh_block s)\<rparr>))"

definition head_data :: "int \<Rightarrow> nat list \<Rightarrow> bytes \<Rightarrow> bytes" where
  "head_data n bs d = fold (\<lambda>i d. put_cell d (Suc i) (bs ! i)) [0..<nat n] (put_cell d 0 (to_int32 n))"

definition write_head :: "'a logst_scheme \<Rightarrow> 'a logst_scheme result" where
  "write_head s = (let dev = log_dev s; b = log_start s in
     rbind (bread dev b s) (\<lambda>s.
     rbind (bwrite dev b (bset dev b (head_data (lh_n s) (lh_block s) (blk s dev b)) s)) (\<lambda>s.
     brelse dev b s)))"

definition recover_from_log :: "'a logst_scheme \<Rightarrow> 'a logst_scheme result" where
  "recover_from_log s =
     rbind (read_head s) (\<lambda>s.
     rbind (install_trans s) (\<lambda>s.
     write_head (s\<lparr>lh_n := 0\<rparr>)))"

definition initlog :: "nat \<Rightarrow> 'a logst_scheme \<Rightarrow> 'a logst_scheme result" where
  "initlog dev s =
     (if 4 * (LOGSIZE + 1) \<ge> int BSIZE then Err (Panic ''initlog: too big logheader'')
      else rbind (readsb dev s) (\<lambda>(sb, s).
        recover_from_log (s\<lparr>log_start := sb_logstart sb, log_size := of_int32 (sb_nlog sb), log_dev := dev\<rparr>)))"

definition commit :: "'a logst_scheme \<Rightarrow> 'a logst_scheme result" where
  "commit s =
     (if lh_n s > 0 then
        rbind (write_log s) (\<lambda>s.
        rbind (write_head s) (\<lambda>s.
        rbind (install_trans s) (\<lambda>s.
        write_head (s\<lparr>lh_n := 0\<rparr>))))
      else Ok s)"

section \<open>Transactions\<close>

text \<open>
  \<open>begin_op\<close>: one round of its loop; when the log is committing or too full the caller sleeps on
  the log and tries again after the wakeup.
\<close>

definition begin_op :: "'a logst_scheme \<Rightarrow> 'a logst_scheme result" where
  "begin_op s = rbind (acquire LogLock s) (\<lambda>s.
     if log_committing s then Err (Sleeps ChanLog)
     else if lh_n s + (log_outstanding s + 1) * MAXOPBLOCKS > LOGSIZE then Err (Sleeps ChanLog)
     else release LogLock (s\<lparr>log_outstanding := log_outstanding s + 1\<rparr>))"

text \<open>
  \<open>end_op\<close> holds the lock of the log in its first and in its last part only; the result of the first
  is \<open>do_commit\<close>. Other system calls run between the parts (\<open>call_step\<close> below).
\<close>

definition end_op_enter :: "'a logst_scheme \<Rightarrow> (bool \<times> 'a logst_scheme) result" where
  "end_op_enter s = rbind (acquire LogLock s) (\<lambda>s.
     let s = s\<lparr>log_outstanding := log_outstanding s - 1\<rparr> in
     if log_committing s then Err (Panic ''log.committing'')
     else if log_outstanding s = 0 then
       rbind (release LogLock (s\<lparr>log_committing := True\<rparr>)) (\<lambda>s. Ok (True, s))
     else rbind (wakeup ChanLog s) (\<lambda>s. rbind (release LogLock s) (\<lambda>s. Ok (False, s))))"

definition end_op_leave :: "'a logst_scheme \<Rightarrow> 'a logst_scheme result" where
  "end_op_leave s = rbind (acquire LogLock s) (\<lambda>s.
     rbind (wakeup ChanLog (s\<lparr>log_committing := False\<rparr>)) (release LogLock))"

definition end_op :: "'a logst_scheme \<Rightarrow> 'a logst_scheme result" where
  "end_op s = rbind (end_op_enter s) (\<lambda>(do_commit, s).
     if do_commit then rbind (commit s) end_op_leave else Ok s)"

text \<open>
  \<open>log_write\<close>: the \<open>B_DIRTY\<close> flag that it sets keeps the cached copy, which is \<open>blk\<close> here, until
  the commit.
\<close>

definition log_write :: "nat \<Rightarrow> 'a logst_scheme \<Rightarrow> 'a logst_scheme result" where
  "log_write b s =
     (if lh_n s \<ge> LOGSIZE \<or> lh_n s \<ge> log_size s - 1 then Err (Panic ''too big a transaction'')
      else if log_outstanding s < 1 then Err (Panic ''log_write outside of trans'')
      else rbind (acquire LogLock s) (\<lambda>s.
        let i = (case search (\<lambda>i. lh_block s ! i = b) 0 (nat (lh_n s)) of
                   Some i \<Rightarrow> i | None \<Rightarrow> nat (lh_n s))
        in release LogLock (s\<lparr>lh_block := (lh_block s)[i := b],
             lh_n := (if int i = lh_n s then lh_n s + 1 else lh_n s)\<rparr>)))"

section \<open>Disk writes in sequence\<close>

fun apply_writes :: "(nat \<times> nat \<times> bytes) list \<Rightarrow> (nat \<Rightarrow> nat \<Rightarrow> bytes) \<Rightarrow> nat \<Rightarrow> nat \<Rightarrow> bytes" where
  "apply_writes [] m = m"
| "apply_writes ((dev, b, d) # ws) m = apply_writes ws (set_block dev b d m)"

lemma apply_writes_append [simp]: "apply_writes (ws @ vs) m = apply_writes vs (apply_writes ws m)"
  by (induction ws m rule: apply_writes.induct) auto

abbreviation copy_writes :: "nat \<Rightarrow> (nat \<Rightarrow> nat) \<Rightarrow> (nat \<Rightarrow> bytes) \<Rightarrow> nat \<Rightarrow> (nat \<times> nat \<times> bytes) list" where
  "copy_writes dev dst f n \<equiv> map (\<lambda>i. (dev, dst i, f i)) [0..<n]"

lemma apply_copy_other: "\<forall>i<n. dst i \<noteq> b \<Longrightarrow> apply_writes (copy_writes dev dst f n) m dev b = m dev b"
  by (induction n) (auto simp: set_block_apply)

lemma apply_copy_dev: "dev' \<noteq> dev \<Longrightarrow> apply_writes (copy_writes dev dst f n) m dev' b = m dev' b"
  by (induction n) (auto simp: set_block_apply)

lemma apply_copy_at:
  "inj_on dst {..<n} \<Longrightarrow> j < n \<Longrightarrow> apply_writes (copy_writes dev dst f n) m dev (dst j) = f j"
proof (induction n)
  case (Suc n)
  have "inj_on dst {..<n}" using Suc.prems(1) by (auto simp: inj_on_def)
  moreover have "j \<noteq> n \<Longrightarrow> dst j \<noteq> dst n" using Suc.prems by (auto simp: inj_on_def)
  ultimately show ?case using Suc by (auto simp: set_block_apply less_Suc_eq)
qed simp

lemma take_copy_writes: "take k (copy_writes dev dst f n) = copy_writes dev dst f (min k n)"
  by (simp add: take_map min_def)

section \<open>Copying blocks\<close>

text \<open>What the log routines leave alone: everything but the blocks, the trace and who is awake.\<close>

definition log_frame :: "'a logst_scheme \<Rightarrow> 'a logst_scheme \<Rightarrow> bool" where
  "log_frame s s' \<longleftrightarrow> held s' = held s \<and> curproc s' = curproc s \<and> bheld s' = bheld s
     \<and> kmem_use_lock s' = kmem_use_lock s \<and> kmem_freelist s' = kmem_freelist s \<and> pages s' = pages s
     \<and> kern_end s' = kern_end s
     \<and> log_start s' = log_start s \<and> log_size s' = log_size s \<and> log_outstanding s' = log_outstanding s
     \<and> log_committing s' = log_committing s \<and> log_dev s' = log_dev s \<and> logst.more s' = logst.more s"

definition lh_frame :: "'a logst_scheme \<Rightarrow> 'a logst_scheme \<Rightarrow> bool" where
  "lh_frame s s' \<longleftrightarrow> log_frame s s' \<and> lh_n s' = lh_n s \<and> lh_block s' = lh_block s"

lemma log_frame_refl [simp]: "log_frame s s" and lh_frame_refl [simp]: "lh_frame s s"
  by (simp_all add: log_frame_def lh_frame_def)

lemma log_frame_trans: "log_frame s s1 \<Longrightarrow> log_frame s1 s2 \<Longrightarrow> log_frame s s2"
  and lh_frame_trans: "lh_frame s s1 \<Longrightarrow> lh_frame s1 s2 \<Longrightarrow> lh_frame s s2"
  by (simp_all add: log_frame_def lh_frame_def)

text \<open>Running \<open>ws\<close> against the disk and the cache, and recording them in the trace.\<close>

definition wrote :: "(nat \<times> nat \<times> bytes) list \<Rightarrow> 'a logst_scheme \<Rightarrow> 'a logst_scheme \<Rightarrow> bool" where
  "wrote ws s s' \<longleftrightarrow> disk s' = apply_writes ws (disk s) \<and> blk s' = apply_writes ws (blk s)
     \<and> wtrace s' = wtrace s @ ws"

lemma wrote_trans: "wrote ws s s1 \<Longrightarrow> wrote vs s1 s2 \<Longrightarrow> wrote (ws @ vs) s s2"
  by (simp add: wrote_def)

definition unlocked :: "'a bufst_scheme \<Rightarrow> bool" where
  "unlocked s \<longleftrightarrow> held s = [] \<and> bheld s = []"

lemma unlocked_frame: "log_frame s s' \<Longrightarrow> unlocked s \<Longrightarrow> unlocked s'"
  by (simp add: log_frame_def unlocked_def)

lemma install_one_ok:
  fixes s :: "'a logst_scheme"
  assumes "unlocked s" "log_start s + i + 1 \<noteq> lh_block s ! i" "log_start s + i + 1 < FSSIZE" "lh_block s ! i < FSSIZE"
  shows "\<exists>s'. install_one i s = Ok s' \<and> lh_frame s s'
    \<and> wrote [(log_dev s, lh_block s ! i, blk s (log_dev s) (log_start s + i + 1))] s s'"
  using assms
  by (auto simp: install_one_def Let_def kernel_simps unlocked_def lh_frame_def log_frame_def wrote_def set_block_apply)

lemma write_log_one_ok:
  fixes s :: "'a logst_scheme"
  assumes "unlocked s" "log_start s + i + 1 \<noteq> lh_block s ! i" "log_start s + i + 1 < FSSIZE" "lh_block s ! i < FSSIZE"
  shows "\<exists>s'. write_log_one i s = Ok s' \<and> lh_frame s s'
    \<and> wrote [(log_dev s, log_start s + i + 1, blk s (log_dev s) (lh_block s ! i))] s s'"
  using assms
  by (auto simp: write_log_one_def Let_def kernel_simps unlocked_def lh_frame_def log_frame_def wrote_def set_block_apply)

text \<open>A loop of copies whose destinations are not among its sources.\<close>

lemma copy_loop:
  fixes s :: "'a logst_scheme"
  assumes step: "\<And>i s'. i < n \<Longrightarrow> lh_frame s s' \<Longrightarrow>
      \<exists>s''. f i s' = Ok s'' \<and> lh_frame s' s'' \<and> wrote [(dev, dst i, blk s' dev (src i))] s' s''"
    and disj: "\<And>i j. i < n \<Longrightarrow> j < n \<Longrightarrow> dst i \<noteq> src j"
  shows "\<exists>s'. rfold f [0..<n] s = Ok s' \<and> lh_frame s s'
    \<and> wrote (copy_writes dev dst (\<lambda>i. blk s dev (src i)) n) s s'"
  using assms
proof (induction n)
  case 0
  then show ?case by (simp add: wrote_def)
next
  case (Suc n)
  obtain s1 where s1: "rfold f [0..<n] s = Ok s1" "lh_frame s s1"
      "wrote (copy_writes dev dst (\<lambda>i. blk s dev (src i)) n) s s1"
    using Suc.IH [OF Suc.prems(1) Suc.prems(2)] by auto
  obtain s2 where s2: "f n s1 = Ok s2" "lh_frame s1 s2" "wrote [(dev, dst n, blk s1 dev (src n))] s1 s2"
    using Suc.prems(1) s1(2) by blast
  have "blk s1 dev (src n) = blk s dev (src n)"
    using s1(3) Suc.prems(2) by (simp add: wrote_def apply_copy_other)
  with s2(3) have "wrote (copy_writes dev dst (\<lambda>i. blk s dev (src i)) (Suc n)) s s2"
    using wrote_trans [OF s1(3), of "[(dev, dst n, blk s dev (src n))]" s2] by simp
  then show ?case using s1 s2 lh_frame_trans by (auto simp: rfold_append)
qed

section \<open>The header block\<close>

lemma length_head_data [simp]: "length d = BSIZE \<Longrightarrow> n \<le> LOGSIZE \<Longrightarrow> length (head_data n bs d) = BSIZE"
proof -
  assume d: "length d = BSIZE" "n \<le> LOGSIZE"
  have "k \<le> 30 \<Longrightarrow> length e = BSIZE \<Longrightarrow> length (fold (\<lambda>i d. put_cell d (Suc i) (bs ! i)) [0..<k] e) = BSIZE" for k e
    by (induction k) auto
  with d show ?thesis by (simp add: head_data_def)
qed

lemma head_cells:
  assumes "length d = BSIZE" "k \<le> 30" "\<forall>i<k. bs ! i < 2 ^ 32"
  shows "length (fold (\<lambda>i d. put_cell d (Suc i) (bs ! i)) [0..<k] d) = BSIZE
    \<and> (\<forall>j<128. get_cell (fold (\<lambda>i d. put_cell d (Suc i) (bs ! i)) [0..<k] d) j
        = (if 0 < j \<and> j \<le> k then bs ! (j - 1) else get_cell d j))"
  using assms
proof (induction k)
  case (Suc k)
  let ?d = "fold (\<lambda>i d. put_cell d (Suc i) (bs ! i)) [0..<k] d"
  have IH: "length ?d = BSIZE" "\<And>j. j < 128 \<Longrightarrow> get_cell ?d j = (if 0 < j \<and> j \<le> k then bs ! (j - 1) else get_cell d j)"
    using Suc by auto
  have "get_cell (put_cell ?d (Suc k) (bs ! k)) j = (if 0 < j \<and> j \<le> Suc k then bs ! (j - 1) else get_cell d j)"
    if "j < 128" for j
  proof -
    have "get_cell (put_cell ?d (Suc k) (bs ! k)) j = (if Suc k = j then bs ! k else get_cell ?d j)"
      by (rule get_put_cell) (use that Suc.prems IH(1) in auto)
    then show ?thesis using IH(2) [OF that] by auto
  qed
  moreover have "length (put_cell ?d (Suc k) (bs ! k)) = BSIZE" using IH(1) Suc.prems by simp
  ultimately show ?case by simp
qed simp

lemma get_head_data:
  assumes "length d = BSIZE" "0 \<le> n" "n \<le> LOGSIZE" "\<forall>i<nat n. bs ! i < 2 ^ 32"
  shows "of_int32 (get_cell (head_data n bs d) 0) = n"
    "i < nat n \<Longrightarrow> get_cell (head_data n bs d) (Suc i) = bs ! i"
proof -
  let ?e = "put_cell d 0 (to_int32 n)"
  have n: "to_int32 n = nat n" using assms by (simp add: to_int32_def)
  have h: "length ?e = BSIZE" "get_cell ?e 0 = nat n"
    using assms n get_put_cell [of 0 d 0 "nat n"] by simp_all
  have "nat n \<le> 30" using assms by simp
  note c = head_cells [OF h(1) this assms(4)]
  have "get_cell (head_data n bs d) 0 = nat n" using conjunct2 [OF c, rule_format, of 0] h(2)
    unfolding head_data_def by simp
  then show "of_int32 (get_cell (head_data n bs d) 0) = n" using assms by (simp add: of_int32_def)
  assume "i < nat n"
  then show "get_cell (head_data n bs d) (Suc i) = bs ! i" 
    using conjunct2 [OF c, rule_format, of "Suc i"] assms(3) unfolding head_data_def by simp
qed

section \<open>What recovery makes of a disk\<close>

definition hdr_n :: "bytes \<Rightarrow> nat" where
  "hdr_n d = nat (of_int32 (get_cell d 0))"

text \<open>
  \<open>logical st D b\<close>: the content of home block \<open>b\<close> after recovery from the disk \<open>D\<close> with the log at
  \<open>st\<close>: the copy in the log when the header lists the block, the block itself otherwise.
\<close>

definition logical :: "nat \<Rightarrow> (nat \<Rightarrow> bytes) \<Rightarrow> nat \<Rightarrow> bytes" where
  "logical st D b = (case search (\<lambda>i. get_cell (D st) (Suc i) = b) 0 (hdr_n (D st)) of
     Some i \<Rightarrow> D (st + i + 1) | None \<Rightarrow> D b)"

lemma logical_empty: "hdr_n (D st) = 0 \<Longrightarrow> logical st D b = D b"
  by (simp add: logical_def search.simps)

lemma logical_listed:
  assumes "i < hdr_n (D st)" "get_cell (D st) (Suc i) = b"
    "inj_on (\<lambda>i. get_cell (D st) (Suc i)) {..<hdr_n (D st)}"
  shows "logical st D b = D (st + i + 1)"
proof -
  have "\<forall>j<i. get_cell (D st) (Suc j) \<noteq> b"
    using assms by (metis inj_onD lessThan_iff less_irrefl order.strict_trans)
  then have "search (\<lambda>i. get_cell (D st) (Suc i) = b) 0 (hdr_n (D st)) = Some i"
    using assms by (simp add: search_Some)
  then show ?thesis by (simp add: logical_def)
qed

lemma logical_unlisted: "(\<And>i. i < hdr_n (D st) \<Longrightarrow> get_cell (D st) (Suc i) \<noteq> b) \<Longrightarrow> logical st D b = D b"
proof -
  assume "\<And>i. i < hdr_n (D st) \<Longrightarrow> get_cell (D st) (Suc i) \<noteq> b"
  then have "search (\<lambda>i. get_cell (D st) (Suc i) = b) 0 (hdr_n (D st)) = None" by (simp add: search_None)
  then show ?thesis by (simp add: logical_def)
qed

definition home :: "'a logst_scheme \<Rightarrow> nat \<Rightarrow> bool" where
  "home s b \<longleftrightarrow> b < log_start s \<or> log_start s + nat (log_size s) \<le> b"

text \<open>
  The header on a disk is well-formed when it lists different home blocks, and no more than fit.
\<close>

definition hdr_wf :: "'a logst_scheme \<Rightarrow> bytes \<Rightarrow> bool" where
  "hdr_wf s d \<longleftrightarrow> length d = BSIZE \<and> 0 \<le> of_int32 (get_cell d 0) \<and> of_int32 (get_cell d 0) \<le> LOGSIZE \<and> hdr_n d < nat (log_size s)
     \<and> inj_on (\<lambda>i. get_cell d (Suc i)) {..<hdr_n d}
     \<and> (\<forall>i<hdr_n d. home s (get_cell d (Suc i)) \<and> get_cell d (Suc i) < FSSIZE)"

definition log_area :: "'a logst_scheme \<Rightarrow> bool" where
  "log_area s \<longleftrightarrow> 0 < log_size s \<and> log_start s + nat (log_size s) \<le> FSSIZE
     \<and> length (lh_block s) = 30 \<and> (\<forall>b. length (blk s (log_dev s) b) = BSIZE)"

definition lh_wf :: "'a logst_scheme \<Rightarrow> bool" where
  "lh_wf s \<longleftrightarrow> 0 \<le> lh_n s \<and> lh_n s \<le> LOGSIZE \<and> lh_n s < log_size s
     \<and> inj_on (\<lambda>i. lh_block s ! i) {..<nat (lh_n s)}
     \<and> (\<forall>i<nat (lh_n s). home s (lh_block s ! i) \<and> lh_block s ! i < FSSIZE)"

lemma log_frame_area: "log_frame s s' \<Longrightarrow> home s' = home s \<and> hdr_wf s' = hdr_wf s"
  by (auto simp: log_frame_def home_def hdr_wf_def fun_eq_iff)

lemma home_not_log: "home s b \<Longrightarrow> i < nat (log_size s) \<Longrightarrow> log_start s + i \<noteq> b"
  by (auto simp: home_def)

lemma lh_wfD:
  assumes "lh_wf s" "log_area s" "i < nat (lh_n s)" "j < nat (lh_n s)"
  shows "log_start s + j + 1 \<noteq> lh_block s ! i" "log_start s + j + 1 < FSSIZE" "lh_block s ! i < FSSIZE"
proof -
  have "int j < lh_n s" "lh_n s < log_size s" using assms by (auto simp: lh_wf_def)
  then have "j + 1 < nat (log_size s)" by linarith
  then show "log_start s + j + 1 \<noteq> lh_block s ! i" "log_start s + j + 1 < FSSIZE" "lh_block s ! i < FSSIZE"
    using assms home_not_log [of s "lh_block s ! i" "j + 1"] by (auto simp: lh_wf_def log_area_def)
qed

lemma install_trans_ok:
  fixes s :: "'a logst_scheme"
  assumes u: "unlocked s" and a: "log_area s" and w: "lh_wf s"
  shows "\<exists>s'. install_trans s = Ok s' \<and> lh_frame s s'
    \<and> wrote (copy_writes (log_dev s) (\<lambda>i. lh_block s ! i) (\<lambda>i. blk s (log_dev s) (log_start s + i + 1))
        (nat (lh_n s))) s s'"
  unfolding install_trans_def
proof (rule copy_loop)
  fix i and s' :: "'a logst_scheme" assume i: "i < nat (lh_n s)" "lh_frame s s'"
  show "\<exists>s''. install_one i s' = Ok s'' \<and> lh_frame s' s''
      \<and> wrote [(log_dev s, lh_block s ! i, blk s' (log_dev s) (log_start s + i + 1))] s' s''"
    using install_one_ok [of s' i] lh_wfD [OF w a i(1) i(1)] i(2) unlocked_frame u by (auto simp: lh_frame_def log_frame_def)
next
  fix i j assume "i < nat (lh_n s)" "j < nat (lh_n s)"
  then show "lh_block s ! i \<noteq> log_start s + j + 1"
    using lh_wfD(1) [OF w a] by metis
qed

lemma write_log_ok:
  fixes s :: "'a logst_scheme"
  assumes u: "unlocked s" and a: "log_area s" and w: "lh_wf s"
  shows "\<exists>s'. write_log s = Ok s' \<and> lh_frame s s'
    \<and> wrote (copy_writes (log_dev s) (\<lambda>i. log_start s + i + 1) (\<lambda>i. blk s (log_dev s) (lh_block s ! i))
        (nat (lh_n s))) s s'"
  unfolding write_log_def
proof (rule copy_loop)
  fix i and s' :: "'a logst_scheme" assume i: "i < nat (lh_n s)" "lh_frame s s'"
  show "\<exists>s''. write_log_one i s' = Ok s'' \<and> lh_frame s' s''
      \<and> wrote [(log_dev s, log_start s + i + 1, blk s' (log_dev s) (lh_block s ! i))] s' s''"
    using write_log_one_ok [of s' i] lh_wfD [OF w a i(1) i(1)] i(2) unlocked_frame u by (auto simp: lh_frame_def log_frame_def)
next
  fix i j assume "i < nat (lh_n s)" "j < nat (lh_n s)"
  then show "log_start s + i + 1 \<noteq> lh_block s ! j"
    using lh_wfD(1) [OF w a] by metis
qed

lemma write_head_ok:
  fixes s :: "'a logst_scheme"
  assumes "unlocked s" "log_area s"
  shows "\<exists>s'. write_head s = Ok s' \<and> lh_frame s s'
    \<and> wrote [(log_dev s, log_start s,
        head_data (lh_n s) (lh_block s) (blk s (log_dev s) (log_start s)))] s s'"
  using assms
  by (auto simp: write_head_def Let_def kernel_simps unlocked_def lh_frame_def log_frame_def wrote_def
      log_area_def set_block_apply)

section \<open>Commit\<close>

text \<open>
  The state before a commit: the header on disk is empty, and the home blocks that the transaction
  has not logged are on disk what they are in the cache.
\<close>

definition log_wf :: "'a logst_scheme \<Rightarrow> bool" where
  "log_wf s \<longleftrightarrow> log_area s \<and> lh_wf s \<and> (\<forall>b. length (disk s (log_dev s) b) = BSIZE)
     \<and> of_int32 (get_cell (disk s (log_dev s) (log_start s)) 0) = 0 \<and> hdr_n (disk s (log_dev s) (log_start s)) = 0
     \<and> (\<forall>b. home s b \<longrightarrow> (\<forall>i<nat (lh_n s). lh_block s ! i \<noteq> b) \<longrightarrow>
          blk s (log_dev s) b = disk s (log_dev s) b)"

lemma lh_frame_wf:
  assumes "lh_frame s s'" "\<forall>b. length (blk s' (log_dev s) b) = BSIZE" "log_area s" "lh_wf s"
  shows "log_area s'" "lh_wf s'"
  using assms by (auto simp: lh_frame_def log_frame_def log_area_def lh_wf_def home_def)

lemma length_apply_writes:
  "\<forall>b. length (m dev b) = BSIZE \<Longrightarrow> \<forall>(d, b, x)\<in>set ws. length x = BSIZE \<Longrightarrow>
   length (apply_writes ws m dev b) = BSIZE"
  by (induction ws m rule: apply_writes.induct) (auto simp: set_block_apply)

text \<open>The four groups of writes of a commit.\<close>

definition log_writes :: "'a logst_scheme \<Rightarrow> (nat \<times> nat \<times> bytes) list" where
  "log_writes s = copy_writes (log_dev s) (\<lambda>i. log_start s + i + 1) (\<lambda>i. blk s (log_dev s) (lh_block s ! i))
     (nat (lh_n s))"

definition home_writes :: "'a logst_scheme \<Rightarrow> (nat \<times> nat \<times> bytes) list" where
  "home_writes s = copy_writes (log_dev s) (\<lambda>i. lh_block s ! i) (\<lambda>i. blk s (log_dev s) (lh_block s ! i))
     (nat (lh_n s))"

definition head_writes :: "int \<Rightarrow> bytes \<Rightarrow> 'a logst_scheme \<Rightarrow> (nat \<times> nat \<times> bytes) list" where
  "head_writes n d s = [(log_dev s, log_start s, head_data n (lh_block s) d)]"

definition commit_writes :: "'a logst_scheme \<Rightarrow> (nat \<times> nat \<times> bytes) list" where
  "commit_writes s = (let h = blk s (log_dev s) (log_start s) in
     log_writes s @ head_writes (lh_n s) h s @ home_writes s
     @ head_writes 0 (head_data (lh_n s) (lh_block s) h) s)"

lemma commit_ok:
  fixes s :: "'a logst_scheme"
  assumes u: "unlocked s" and a: "log_area s" and w: "lh_wf s" and n: "0 < lh_n s"
  shows "\<exists>s'. commit s = Ok s' \<and> log_frame s s' \<and> lh_n s' = 0 \<and> lh_block s' = lh_block s
    \<and> wrote (commit_writes s) s s'"
proof -
  let ?dev = "log_dev s" and ?st = "log_start s"
  let ?h = "blk s ?dev ?st"
  have len: "\<forall>b. length (blk s ?dev b) = BSIZE" using a by (simp add: log_area_def)
  obtain s1 where s1: "write_log s = Ok s1" "lh_frame s s1" "wrote (log_writes s) s s1"
    using write_log_ok [OF u a w] unfolding log_writes_def by blast
  have b1: "blk s1 ?dev ?st = ?h" "\<And>i. i < nat (lh_n s) \<Longrightarrow> blk s1 ?dev (?st + i + 1) = blk s ?dev (lh_block s ! i)"
    using s1(3) apply_copy_at [of "\<lambda>i. ?st + i + 1" "nat (lh_n s)"]
    by (auto simp: wrote_def log_writes_def apply_copy_other inj_on_def)
  have l1: "\<forall>b. length (blk s1 ?dev b) = BSIZE"
    using s1(3) len by (auto simp: wrote_def log_writes_def intro!: length_apply_writes)
  note f1 = lh_frame_wf [OF s1(2) l1 a w]
  note u1 = unlocked_frame [OF conjunct1 [OF s1(2) [unfolded lh_frame_def]] u]
  obtain s2 where s2: "write_head s1 = Ok s2" "lh_frame s1 s2" "wrote (head_writes (lh_n s) ?h s) s1 s2"
    using write_head_ok [OF u1 f1(1)] s1(2) b1(1) by (auto simp: head_writes_def lh_frame_def log_frame_def)
  have fr2: "lh_frame s s2" using s1(2) s2(2) lh_frame_trans by blast
  have b2: "blk s2 ?dev ?st = head_data (lh_n s) (lh_block s) ?h"
      "\<And>i. i < nat (lh_n s) \<Longrightarrow> blk s2 ?dev (?st + i + 1) = blk s ?dev (lh_block s ! i)"
    using s2(3) b1(2) by (auto simp: wrote_def head_writes_def set_block_apply)
  have l2: "\<forall>b. length (blk s2 ?dev b) = BSIZE"
    using s2(3) l1 w len by (auto simp: wrote_def head_writes_def set_block_apply lh_wf_def)
  note f2 = lh_frame_wf [OF fr2 l2 a w]
  note u2 = unlocked_frame [OF conjunct1 [OF fr2 [unfolded lh_frame_def]] u]
  have e2: "copy_writes ?dev (\<lambda>i. lh_block s ! i) (\<lambda>i. blk s2 ?dev (?st + i + 1)) (nat (lh_n s)) = home_writes s"
    using b2(2) by (simp add: home_writes_def)
  obtain s3 where s3: "install_trans s2 = Ok s3" "lh_frame s2 s3" "wrote (home_writes s) s2 s3"
    using install_trans_ok [OF u2 f2] fr2 e2 by (auto simp: lh_frame_def log_frame_def)
  let ?s3 = "s3\<lparr>lh_n := 0\<rparr>"
  have fr3: "lh_frame s s3" using fr2 s3(2) lh_frame_trans by blast
  have "\<And>i. i < nat (lh_n s) \<Longrightarrow> lh_block s ! i \<noteq> ?st"
    using w by (auto simp: lh_wf_def home_def)
  then have b3: "blk s3 ?dev ?st = head_data (lh_n s) (lh_block s) ?h"
    using s3(3) b2(1) by (simp add: wrote_def home_writes_def apply_copy_other)
  have "\<forall>b. length (blk s3 ?dev b) = BSIZE"
    using s3(3) l2 len by (auto simp: wrote_def home_writes_def intro!: length_apply_writes)
  then have f3: "log_area ?s3" "unlocked ?s3"
    using lh_frame_wf(1) [OF fr3 _ a w] unlocked_frame [OF conjunct1 [OF fr3 [unfolded lh_frame_def]] u]
    by (auto simp: log_area_def unlocked_def)
  obtain s4 where s4: "write_head ?s3 = Ok s4" "lh_frame ?s3 s4"
      "wrote (head_writes 0 (head_data (lh_n s) (lh_block s) ?h) s) s3 s4"
    using write_head_ok [OF f3(2) f3(1)] fr3 b3
    by (auto simp: head_writes_def lh_frame_def log_frame_def wrote_def)
  have "wrote (commit_writes s) s s4"
    using wrote_trans [OF s1(3) wrote_trans [OF s2(3) wrote_trans [OF s3(3) s4(3)]]]
    by (simp add: commit_writes_def Let_def)
  then show ?thesis using s1(1) s2(1) s3(1) s4 n fr3
    by (auto simp: commit_def lh_frame_def log_frame_def)
qed

section \<open>Crashes\<close>

lemma take_commit_writes:
  "take k (commit_writes s) =
     (let n = nat (lh_n s); h = blk s (log_dev s) (log_start s) in
      if k \<le> n then take k (log_writes s)
      else if k \<le> 2 * n + 1 then log_writes s @ head_writes (lh_n s) h s @ take (k - n - 1) (home_writes s)
      else commit_writes s)"
proof -
  have l: "length (log_writes s) = nat (lh_n s)" "length (home_writes s) = nat (lh_n s)"
    "\<And>n d. length (head_writes n d s) = 1"
    by (simp_all add: log_writes_def home_writes_def head_writes_def)
  consider "k \<le> nat (lh_n s)" | "nat (lh_n s) < k" "k \<le> 2 * nat (lh_n s) + 1" | "2 * nat (lh_n s) + 1 < k"
    by linarith
  then show ?thesis
  proof cases
    case 2
    then have "k - nat (lh_n s) = Suc (k - nat (lh_n s) - 1)" "k - nat (lh_n s) - 1 - nat (lh_n s) = 0" by simp_all
    with 2 show ?thesis by (simp add: commit_writes_def Let_def l)
  qed (simp_all add: commit_writes_def Let_def l)
qed

lemma lh_in_home: "lh_wf s \<Longrightarrow> i < nat (lh_n s) \<Longrightarrow> home s (lh_block s ! i)"
  by (simp add: lh_wf_def)

lemma home_not_start: "0 < log_size s \<Longrightarrow> home s b \<Longrightarrow> b \<noteq> log_start s"
  by (auto simp: home_def)

lemma log_wfD:
  assumes "log_wf s"
  shows "log_area s" "lh_wf s" "hdr_n (disk s (log_dev s) (log_start s)) = 0" "0 < log_size s"
    "\<And>i. i < nat (lh_n s) \<Longrightarrow> i + 1 < nat (log_size s)"
    "\<forall>i<nat (lh_n s). lh_block s ! i < 2 ^ 32" "length (blk s (log_dev s) (log_start s)) = BSIZE"
proof -
  show *: "log_area s" "lh_wf s" "hdr_n (disk s (log_dev s) (log_start s)) = 0"
    using assms by (simp_all add: log_wf_def)
  then show "0 < log_size s" "length (blk s (log_dev s) (log_start s)) = BSIZE" by (simp_all add: log_area_def)
  show "i + 1 < nat (log_size s)" if "i < nat (lh_n s)" for i
    using * that by (auto simp: lh_wf_def)
  show "\<forall>i<nat (lh_n s). lh_block s ! i < 2 ^ 32" using * by (fastforce simp: lh_wf_def)
qed

text \<open>Before the header is written, the home blocks and the header are as they were.\<close>

lemma crash_before_header:
  assumes w: "log_wf s" and b: "home s b"
  shows "logical (log_start s) (apply_writes (take k (log_writes s)) (disk s) (log_dev s)) b = disk s (log_dev s) b"
proof -
  let ?D = "apply_writes (take k (log_writes s)) (disk s) (log_dev s)"
  note d = log_wfD [OF w]
  have "?D (log_start s) = disk s (log_dev s) (log_start s)"
    unfolding log_writes_def take_copy_writes by (rule apply_copy_other) simp
  moreover have "?D b = disk s (log_dev s) b"
    unfolding log_writes_def take_copy_writes
  proof (rule apply_copy_other, intro allI impI)
    fix i assume "i < min k (nat (lh_n s))"
    then show "log_start s + i + 1 \<noteq> b" using d(5) home_not_log [OF b, of "i + 1"] by simp
  qed
  ultimately show ?thesis using d(3) by (simp add: logical_empty)
qed

text \<open>The header that the commit writes lists the blocks of the transaction.\<close>

lemma header_written:
  assumes w: "log_wf s" and D: "D (log_start s) = head_data (lh_n s) (lh_block s) (blk s (log_dev s) (log_start s))"
    and L: "\<And>i. i < nat (lh_n s) \<Longrightarrow> D (log_start s + i + 1) = blk s (log_dev s) (lh_block s ! i)"
    and O: "\<And>b. home s b \<Longrightarrow> \<forall>i<nat (lh_n s). lh_block s ! i \<noteq> b \<Longrightarrow> D b = disk s (log_dev s) b"
    and b: "home s b"
  shows "logical (log_start s) D b = blk s (log_dev s) b"
proof -
  note d = log_wfD [OF w]
  have lh: "0 \<le> lh_n s" "lh_n s \<le> LOGSIZE" "inj_on (\<lambda>i. lh_block s ! i) {..<nat (lh_n s)}"
    using d(2) by (simp_all add: lh_wf_def)
  note g = get_head_data [OF d(7) lh(1,2) d(6)]
  have n: "hdr_n (D (log_start s)) = nat (lh_n s)" using g(1) by (simp add: hdr_n_def D)
  have c: "\<And>i. i < nat (lh_n s) \<Longrightarrow> get_cell (D (log_start s)) (Suc i) = lh_block s ! i"
    using g(2) unfolding D by simp
  show ?thesis
  proof (cases "\<exists>i<nat (lh_n s). lh_block s ! i = b")
    case True
    then obtain i where i: "i < nat (lh_n s)" "lh_block s ! i = b" by blast
    have "inj_on (\<lambda>i. get_cell (D (log_start s)) (Suc i)) {..<hdr_n (D (log_start s))}"
      using lh(3) c n by (auto simp: inj_on_def)
    then have "logical (log_start s) D b = D (log_start s + i + 1)"
      by (intro logical_listed) (use i n c in simp_all)
    then show ?thesis using L [OF i(1)] i(2) by simp
  next
    case False
    then have "logical (log_start s) D b = D b" by (intro logical_unlisted) (use n c in auto)
    then show ?thesis using O [OF b] False w b by (simp add: log_wf_def)
  qed
qed

lemma crash_after_header:
  assumes w: "log_wf s" and b: "home s b"
  shows "logical (log_start s) (apply_writes (log_writes s
      @ head_writes (lh_n s) (blk s (log_dev s) (log_start s)) s @ take k (home_writes s)) (disk s) (log_dev s)) b
    = blk s (log_dev s) b" (is "logical _ ?D b = _")
proof (rule header_written [OF w _ _ _ b])
  note d = log_wfD [OF w]
  let ?D1 = "apply_writes (log_writes s @ head_writes (lh_n s) (blk s (log_dev s) (log_start s)) s) (disk s)"
  have D: "?D = apply_writes (take k (home_writes s)) ?D1 (log_dev s)" by simp
  have keep: "?D c = ?D1 (log_dev s) c" if "\<forall>i<nat (lh_n s). lh_block s ! i \<noteq> c" for c
    unfolding D unfolding home_writes_def take_copy_writes by (rule apply_copy_other) (use that in simp)
  have D1: "?D1 (log_dev s) c = (if c = log_start s then head_data (lh_n s) (lh_block s) (blk s (log_dev s) (log_start s))
      else apply_writes (log_writes s) (disk s) (log_dev s) c)" for c
    by (simp add: head_writes_def set_block_apply)
  show "?D (log_start s) = head_data (lh_n s) (lh_block s) (blk s (log_dev s) (log_start s))"
    using keep [of "log_start s"] D1 lh_in_home [OF d(2)] home_not_start [OF d(4)] by metis
  show "?D (log_start s + i + 1) = blk s (log_dev s) (lh_block s ! i)" if i: "i < nat (lh_n s)" for i
  proof -
    have "?D (log_start s + i + 1) = ?D1 (log_dev s) (log_start s + i + 1)"
      by (rule keep) (use lh_wfD(1) [OF d(2,1) _ i] in metis)
    also have "\<dots> = blk s (log_dev s) (lh_block s ! i)"
      unfolding D1 log_writes_def using apply_copy_at [of "\<lambda>i. log_start s + i + 1" "nat (lh_n s)" i] i
      by (auto simp: inj_on_def head_writes_def set_block_apply)
    finally show ?thesis .
  qed
  show "?D c = disk s (log_dev s) c" if c: "home s c" "\<forall>i<nat (lh_n s). lh_block s ! i \<noteq> c" for c
  proof -
    have "?D c = apply_writes (log_writes s) (disk s) (log_dev s) c"
      using keep [OF c(2)] D1 home_not_start [OF d(4) c(1)] by simp
    also have "\<dots> = disk s (log_dev s) c"
      unfolding log_writes_def
    proof (rule apply_copy_other, intro allI impI)
      fix i assume "i < nat (lh_n s)"
      then show "log_start s + i + 1 \<noteq> c" using d(5) home_not_log [OF c(1), of "i + 1"] by simp
    qed
    finally show ?thesis .
  qed
qed

lemma hdr_n_clear: "length d = BSIZE \<Longrightarrow> hdr_n (head_data 0 bs d) = 0"
  using get_head_data(1) [of d 0 bs] by (simp add: hdr_n_def)

lemma crash_after_commit:
  assumes w: "log_wf s" and b: "home s b"
  shows "apply_writes (commit_writes s) (disk s) (log_dev s) b = blk s (log_dev s) b"
    "hdr_n (apply_writes (commit_writes s) (disk s) (log_dev s) (log_start s)) = 0"
proof -
  note d = log_wfD [OF w]
  let ?h = "blk s (log_dev s) (log_start s)"
  let ?D1 = "apply_writes (log_writes s @ head_writes (lh_n s) ?h s) (disk s)"
  have last: "apply_writes (commit_writes s) (disk s) (log_dev s) c
      = (if c = log_start s then head_data 0 (lh_block s) (head_data (lh_n s) (lh_block s) ?h)
         else apply_writes (home_writes s) ?D1 (log_dev s) c)" for c
    by (simp add: commit_writes_def Let_def head_writes_def set_block_apply)
  have "length (head_data (lh_n s) (lh_block s) ?h) = BSIZE" using d(2,7) by (simp add: lh_wf_def)
  then show "hdr_n (apply_writes (commit_writes s) (disk s) (log_dev s) (log_start s)) = 0"
    by (simp add: last hdr_n_clear)
  have "apply_writes (home_writes s) ?D1 (log_dev s) b = blk s (log_dev s) b"
  proof (cases "\<exists>i<nat (lh_n s). lh_block s ! i = b")
    case True
    then obtain i where "i < nat (lh_n s)" "lh_block s ! i = b" by blast
    then show ?thesis
      using apply_copy_at [of "\<lambda>i. lh_block s ! i" "nat (lh_n s)" i] d(2) by (auto simp: home_writes_def lh_wf_def)
  next
    case False
    then have "apply_writes (home_writes s) ?D1 (log_dev s) b = ?D1 (log_dev s) b"
      unfolding home_writes_def by (intro apply_copy_other) auto
    also have "\<dots> = apply_writes (log_writes s) (disk s) (log_dev s) b"
      using home_not_start [OF d(4) b] by (simp add: head_writes_def set_block_apply)
    also have "\<dots> = disk s (log_dev s) b"
      unfolding log_writes_def
    proof (rule apply_copy_other, intro allI impI)
      fix i assume "i < nat (lh_n s)"
      then show "log_start s + i + 1 \<noteq> b" using d(5) home_not_log [OF b, of "i + 1"] by simp
    qed
    also have "\<dots> = blk s (log_dev s) b" using w b False by (simp add: log_wf_def)
    finally show ?thesis .
  qed
  then show "apply_writes (commit_writes s) (disk s) (log_dev s) b = blk s (log_dev s) b"
    using last home_not_start [OF d(4) b] by simp
qed

lemma crash_cases:
  fixes s :: "'a logst_scheme" and k :: nat
  assumes w: "log_wf s"
  defines "D \<equiv> apply_writes (take k (commit_writes s)) (disk s) (log_dev s)"
  shows "hdr_wf s (D (log_start s)) \<and> ((\<forall>b. home s b \<longrightarrow> logical (log_start s) D b = disk s (log_dev s) b)
      \<or> (\<forall>b. home s b \<longrightarrow> logical (log_start s) D b = blk s (log_dev s) b))"
proof -
  let ?dev = "log_dev s" and ?st = "log_start s" and ?n = "nat (lh_n s)"
  let ?h = "blk s ?dev ?st"
  note d = log_wfD [OF w]
  have lh: "0 \<le> lh_n s" "lh_n s \<le> LOGSIZE" "lh_n s < log_size s" "inj_on (\<lambda>i. lh_block s ! i) {..<?n}"
    using d(2) by (simp_all add: lh_wf_def)
  have z: "hdr_wf s x" if "length x = BSIZE" "of_int32 (get_cell x 0) = 0" for x
    using that d(4) by (simp add: hdr_wf_def hdr_n_def)
  consider "k \<le> ?n" | "?n < k" "k \<le> 2 * ?n + 1" | "2 * ?n + 1 < k" by linarith
  then show ?thesis
  proof cases
    case 1
    then have D: "D = apply_writes (take k (log_writes s)) (disk s) ?dev"
      by (simp add: D_def take_commit_writes Let_def)
    have "D ?st = disk s ?dev ?st"
      unfolding D log_writes_def take_copy_writes by (rule apply_copy_other) simp
    then have "hdr_wf s (D ?st)" using z w by (simp add: log_wf_def)
    then show ?thesis using crash_before_header [OF w] D by blast
  next
    case 2
    then have D: "D = apply_writes (log_writes s @ head_writes (lh_n s) ?h s @ take (k - ?n - 1) (home_writes s)) (disk s) ?dev"
      by (simp add: D_def take_commit_writes Let_def)
    have "D ?st = apply_writes (log_writes s @ head_writes (lh_n s) ?h s) (disk s) ?dev ?st"
      unfolding D home_writes_def take_copy_writes append_assoc [symmetric] apply_writes_append [of "log_writes s @ head_writes (lh_n s) ?h s"]
      by (rule apply_copy_other) (use lh_in_home [OF d(2)] home_not_start [OF d(4)] in auto)
    then have Dst: "D ?st = head_data (lh_n s) (lh_block s) ?h" by (simp add: head_writes_def set_block_apply)
    note g = get_head_data [OF d(7) lh(1,2) d(6)]
    have n: "hdr_n (D ?st) = ?n" using g(1) by (simp add: hdr_n_def Dst)
    have c: "\<And>i. i < ?n \<Longrightarrow> get_cell (D ?st) (Suc i) = lh_block s ! i" using g(2) unfolding Dst by simp
    have "hdr_wf s (D ?st)" unfolding hdr_wf_def n
      using c lh d(2,7) g(1) by (auto simp: Dst lh_wf_def inj_on_def)
    then show ?thesis using crash_after_header [OF w] D by blast
  next
    case 3
    then have D: "D = apply_writes (commit_writes s) (disk s) ?dev"
      by (simp add: D_def take_commit_writes Let_def)
    have Dst: "D ?st = head_data 0 (lh_block s) (head_data (lh_n s) (lh_block s) ?h)"
      by (simp add: D commit_writes_def Let_def head_writes_def set_block_apply)
    have l: "length (head_data (lh_n s) (lh_block s) ?h) = BSIZE" using d(7) lh by simp
    have "hdr_wf s (D ?st)" using l get_head_data(1) [OF l, of 0 "lh_block s"] by (intro z) (simp_all add: Dst)
    then show ?thesis using crash_after_commit [OF w] D by (simp add: logical_empty)
  qed
qed

section \<open>Recovery\<close>

lemma fold_update:
  "n \<le> length bs \<Longrightarrow> length (fold (\<lambda>i bs. bs[i := f i]) [0..<n] bs) = length bs
     \<and> (\<forall>j. fold (\<lambda>i bs. bs[i := f i]) [0..<n] bs ! j = (if j < n then f j else bs ! j))"
proof (induction n)
  case (Suc n)
  then show ?case by (auto simp: nth_list_update less_Suc_eq)
qed simp

lemma read_head_ok:
  fixes s :: "'a logst_scheme"
  assumes u: "unlocked s" and a: "log_area s" and h: "hdr_wf s (blk s (log_dev s) (log_start s))"
  shows "\<exists>s'. read_head s = Ok s' \<and> log_frame s s' \<and> blk s' = blk s \<and> disk s' = disk s \<and> wtrace s' = wtrace s
    \<and> log_area s' \<and> lh_wf s' \<and> nat (lh_n s') = hdr_n (blk s (log_dev s) (log_start s))
    \<and> (\<forall>i<nat (lh_n s'). lh_block s' ! i = get_cell (blk s (log_dev s) (log_start s)) (Suc i))"
proof -
  let ?d = "blk s (log_dev s) (log_start s)"
  let ?n = "of_int32 (get_cell ?d 0)"
  let ?bs = "fold (\<lambda>i bs. bs[i := get_cell ?d (Suc i)]) [0..<nat ?n] (lh_block s)"
  have n: "0 \<le> ?n" "?n \<le> LOGSIZE" "nat ?n < nat (log_size s)" using h by (simp_all add: hdr_wf_def hdr_n_def)
  have nl: "nat ?n \<le> length (lh_block s)" using n(2) a by (auto simp: log_area_def)
  have bs: "length ?bs = 30" "\<And>j. j < nat ?n \<Longrightarrow> ?bs ! j = get_cell ?d (Suc j)"
    using fold_update [OF nl, of "\<lambda>i. get_cell ?d (Suc i)"] a by (auto simp: log_area_def)
  obtain s' where s': "read_head s = Ok s'" "log_frame s s'" "blk s' = blk s" "disk s' = disk s"
      "wtrace s' = wtrace s" "lh_n s' = ?n" "lh_block s' = ?bs"
    using u a n(2) by (auto simp: read_head_def Let_def kernel_simps unlocked_def log_frame_def log_area_def)
  have "lh_wf s'"
    unfolding lh_wf_def s'(6,7)
  proof (intro conjI)
    show "inj_on (\<lambda>i. ?bs ! i) {..<nat ?n}"
      using h bs(2) by (auto simp: inj_on_def hdr_wf_def hdr_n_def)
    show "\<forall>i<nat ?n. home s' (?bs ! i) \<and> ?bs ! i < FSSIZE"
      using h bs(2) log_frame_area [OF s'(2)] by (auto simp: hdr_wf_def hdr_n_def)
  qed (use n s'(2) in \<open>auto simp: log_frame_def\<close>)
  moreover have "log_area s'" using a s' bs(1) by (simp add: log_area_def log_frame_def)
  ultimately show ?thesis using s' bs(2) by (auto simp: hdr_n_def)
qed

definition recover_writes :: "'a logst_scheme \<Rightarrow> (nat \<times> nat \<times> bytes) list" where
  "recover_writes s = (let dev = log_dev s; D = blk s dev; d = D (log_start s) in
     copy_writes dev (\<lambda>i. get_cell d (Suc i)) (\<lambda>i. D (log_start s + i + 1)) (hdr_n d)
     @ [(dev, log_start s, head_data 0 [] d)])"

lemma head_data_0: "head_data 0 bs d = head_data 0 [] d"
  by (simp add: head_data_def)

lemma recover_ok:
  fixes s :: "'a logst_scheme"
  assumes u: "unlocked s" and a: "log_area s" and h: "hdr_wf s (blk s (log_dev s) (log_start s))"
  shows "\<exists>s'. recover_from_log s = Ok s' \<and> log_frame s s' \<and> lh_n s' = 0 \<and> length (lh_block s') = 30
    \<and> wrote (recover_writes s) s s'"
proof -
  let ?dev = "log_dev s" and ?st = "log_start s"
  let ?d = "blk s ?dev ?st"
  obtain s1 where s1: "read_head s = Ok s1" "log_frame s s1" "blk s1 = blk s" "disk s1 = disk s" "wtrace s1 = wtrace s"
      "log_area s1" "lh_wf s1" "nat (lh_n s1) = hdr_n ?d" "\<forall>i<nat (lh_n s1). lh_block s1 ! i = get_cell ?d (Suc i)"
    using read_head_ok [OF u a h] by blast
  note f1 = s1(2) [unfolded log_frame_def]
  have c: "copy_writes ?dev (\<lambda>i. lh_block s1 ! i) (\<lambda>i. blk s ?dev (?st + i + 1)) (nat (lh_n s1))
      = copy_writes ?dev (\<lambda>i. get_cell ?d (Suc i)) (\<lambda>i. blk s ?dev (?st + i + 1)) (hdr_n ?d)" (is "_ = ?C")
    using s1(8,9) by simp
  obtain s2 where s2: "install_trans s1 = Ok s2" "lh_frame s1 s2" "wrote ?C s1 s2"
    using install_trans_ok [OF unlocked_frame [OF s1(2) u] s1(6,7)] f1 s1(3) c by auto
  note f2 = s2(2) [unfolded lh_frame_def log_frame_def]
  have len: "\<forall>b. length (blk s ?dev b) = BSIZE" using a by (simp add: log_area_def)
  have l2: "\<forall>b. length (blk s2 ?dev b) = BSIZE"
    using s2(3) len s1(3) by (auto simp: wrote_def intro!: length_apply_writes)
  have "\<forall>i<hdr_n ?d. get_cell ?d (Suc i) \<noteq> ?st"
    using h a by (auto simp: hdr_wf_def home_def log_area_def)
  then have b2: "blk s2 ?dev ?st = ?d" using s2(3) s1(3) by (simp add: wrote_def apply_copy_other)
  let ?s2 = "s2\<lparr>lh_n := 0\<rparr>"
  have "unlocked ?s2" "log_area ?s2" using u a f1 f2 l2 s1(6) by (auto simp: unlocked_def log_area_def)
  then obtain s3 where s3: "write_head ?s2 = Ok s3" "lh_frame ?s2 s3" "wrote [(?dev, ?st, head_data 0 [] ?d)] s2 s3"
    using write_head_ok [of ?s2] f1 f2 b2 head_data_0 [of "lh_block s1"] by (auto simp: wrote_def)
  note f3 = s3(2) [unfolded lh_frame_def log_frame_def]
  have "wrote (recover_writes s) s s3"
    using s1(3,4,5) wrote_trans [OF s2(3) s3(3)] by (simp add: recover_writes_def Let_def wrote_def)
  then show ?thesis using s1(1) s2(1) s3(1) f1 f2 f3 s1(6)
    by (auto simp: recover_from_log_def log_frame_def log_area_def)
qed

lemma logical_cong:
  assumes "D' st = D st" "\<And>i. i < hdr_n (D st) \<Longrightarrow> D' (st + i + 1) = D (st + i + 1)"
    and "(\<forall>i<hdr_n (D st). get_cell (D st) (Suc i) \<noteq> b) \<longrightarrow> D' b = D b"
  shows "logical st D' b = logical st D b"
proof (cases "search (\<lambda>i. get_cell (D st) (Suc i) = b) 0 (hdr_n (D st))")
  case None
  then have "\<forall>i<hdr_n (D st). get_cell (D st) (Suc i) \<noteq> b" by (simp add: search_None)
  then show ?thesis using None assms by (simp add: logical_def)
next
  case (Some i)
  then show ?thesis using assms search_SomeD(2) [OF Some] by (simp add: logical_def)
qed

text \<open>Each write of recovery leaves the abstract disk alone, so recovery may itself be interrupted.\<close>

lemma recover_writes_logical:
  fixes s :: "'a logst_scheme"
  assumes a: "log_area s" and h: "hdr_wf s (blk s (log_dev s) (log_start s))"
    and D: "disk s (log_dev s) = blk s (log_dev s)" and b: "home s b"
  shows "logical (log_start s) (apply_writes (take k (recover_writes s)) (disk s) (log_dev s)) b
      = logical (log_start s) (disk s (log_dev s)) b"
    "apply_writes (recover_writes s) (disk s) (log_dev s) b = logical (log_start s) (disk s (log_dev s)) b"
    "hdr_n (apply_writes (recover_writes s) (disk s) (log_dev s) (log_start s)) = 0"
proof -
  let ?dev = "log_dev s" and ?st = "log_start s"
  let ?d = "blk s ?dev ?st"
  let ?C = "copy_writes ?dev (\<lambda>i. get_cell ?d (Suc i)) (\<lambda>i. blk s ?dev (?st + i + 1)) (hdr_n ?d)"
  let ?E = "\<lambda>j. apply_writes (take j ?C) (disk s) ?dev"
  have hw: "hdr_n ?d < nat (log_size s)" "\<And>i. i < hdr_n ?d \<Longrightarrow> home s (get_cell ?d (Suc i))"
      "inj_on (\<lambda>i. get_cell ?d (Suc i)) {..<hdr_n ?d}" "length ?d = BSIZE"
    using h by (auto simp: hdr_wf_def)
  have keep: "?E j c = disk s ?dev c" if "\<forall>i<hdr_n ?d. get_cell ?d (Suc i) \<noteq> c" for j c
    unfolding take_copy_writes by (rule apply_copy_other) (use that in simp)
  have hst: "\<forall>i<hdr_n ?d. get_cell ?d (Suc i) \<noteq> ?st"
    using hw(2) home_not_start [of s] a unfolding log_area_def by blast
  have k1: "?E j ?st = ?d" for j using keep [OF hst] D by simp
  have k2: "?E j (?st + i + 1) = blk s ?dev (?st + i + 1)" if "i < hdr_n ?d" for i j
  proof -
    have "i + 1 < nat (log_size s)" using that hw(1) by simp
    then have "\<forall>k<hdr_n ?d. get_cell ?d (Suc k) \<noteq> ?st + i + 1"
      using hw(2) home_not_log [of s _ "i + 1"] by (metis add.assoc)
    then show ?thesis using keep D by simp
  qed
  have pre: "logical ?st (?E j) b = logical ?st (disk s ?dev) b" for j
    by (rule logical_cong) (use k1 k2 keep D in auto)
  let ?F = "apply_writes (recover_writes s) (disk s) ?dev"
  have F: "?F c = (if c = ?st then head_data 0 [] ?d else ?E (hdr_n ?d) c)" for c
    by (simp add: recover_writes_def Let_def set_block_apply)
  show hz: "hdr_n (?F ?st) = 0" using F hw(4) by (simp add: hdr_n_clear)
  have bst: "b \<noteq> ?st" using home_not_start [OF _ b] a by (auto simp: log_area_def)
  have "?E (hdr_n ?d) b = logical ?st (disk s ?dev) b"
  proof (cases "\<exists>i<hdr_n ?d. get_cell ?d (Suc i) = b")
    case True
    then obtain i where i: "i < hdr_n ?d" "get_cell ?d (Suc i) = b" by blast
    have "apply_writes ?C (disk s) ?dev (get_cell ?d (Suc i)) = blk s ?dev (?st + i + 1)"
      by (rule apply_copy_at [OF hw(3) i(1), where f = "\<lambda>i. blk s ?dev (?st + i + 1)"])
    moreover have "logical ?st (disk s ?dev) b = disk s ?dev (?st + i + 1)"
      by (rule logical_listed) (use i hw(3) D in auto)
    ultimately show ?thesis using i(2) D by simp
  next
    case False
    then have "logical ?st (disk s ?dev) b = disk s ?dev b" by (intro logical_unlisted) (use D in auto)
    then show ?thesis using keep [of b "hdr_n ?d"] False by simp
  qed
  then show fin: "?F b = logical ?st (disk s ?dev) b" using F bst by simp
  show "logical ?st (apply_writes (take k (recover_writes s)) (disk s) ?dev) b = logical ?st (disk s ?dev) b"
  proof (cases "k \<le> hdr_n ?d")
    case True
    then have "take k (recover_writes s) = take k ?C" by (simp add: recover_writes_def Let_def)
    then show ?thesis using pre by simp
  next
    case False
    then have "take k (recover_writes s) = recover_writes s" by (simp add: recover_writes_def Let_def)
    then show ?thesis using fin hz by (simp add: logical_empty)
  qed
qed

section \<open>Properties of recovery and commit\<close>

text \<open>The machine restarts with the disk \<open>d\<close>: nothing is cached and no lock is held.\<close>

definition reboot :: "(nat \<Rightarrow> nat \<Rightarrow> bytes) \<Rightarrow> 'a logst_scheme \<Rightarrow> 'a logst_scheme" where
  "reboot d s = s\<lparr>held := [], bheld := [], disk := d, blk := d, lh_n := 0, log_outstanding := 0,
     log_committing := False\<rparr>"

lemma reboot_recover:
  fixes s :: "'a logst_scheme"
  assumes "log_area s" "hdr_wf s (d (log_dev s) (log_start s))" "\<forall>b. length (d (log_dev s) b) = BSIZE"
  shows "\<exists>r. recover_from_log (reboot d s) = Ok r \<and> wrote (recover_writes (reboot d s)) (reboot d s) r
    \<and> lh_n r = 0 \<and> log_wf r
    \<and> (\<forall>b. home s b \<longrightarrow> disk r (log_dev s) b = logical (log_start s) (d (log_dev s)) b)"
proof -
  let ?r = "reboot d s"
  have a: "unlocked ?r" "log_area ?r" "hdr_wf ?r (blk ?r (log_dev ?r) (log_start ?r))" "home ?r = home s"
      "disk ?r (log_dev ?r) = blk ?r (log_dev ?r)"
    using assms by (auto simp: reboot_def unlocked_def log_area_def hdr_wf_def home_def fun_eq_iff)
  have ls: "0 < log_size s" using assms(1) by (simp add: log_area_def)
  obtain r where r: "recover_from_log ?r = Ok r" "log_frame ?r r" "lh_n r = 0" "wrote (recover_writes ?r) ?r r"
      "length (lh_block r) = 30"
    using recover_ok [OF a(1-3)] by blast
  note l = recover_writes_logical [OF a(2,3,5)]
  have dev: "log_dev ?r = log_dev s" "log_start ?r = log_start s" "disk ?r = d" "blk ?r = d" "log_dev r = log_dev s" "log_start r = log_start s"
      "log_size r = log_size s"
    using r(2) by (simp_all add: reboot_def log_frame_def)
  have eq: "blk r = disk r" using r(4) dev by (simp add: wrote_def)
  have len: "\<forall>b. length (disk r (log_dev s) b) = BSIZE"
  proof -
    have "\<forall>(dv, b, x)\<in>set (recover_writes ?r). length x = BSIZE"
      using assms(3) by (auto simp: recover_writes_def Let_def dev(1-4))
    then show ?thesis using r(4) dev(3) assms(3) length_apply_writes [of d "log_dev s"] by (auto simp: wrote_def)
  qed
  have hd: "disk r (log_dev s) (log_start s) = head_data 0 [] (d (log_dev s) (log_start s))"
    using r(4) dev by (simp add: wrote_def recover_writes_def Let_def set_block_apply)
  have "length (d (log_dev s) (log_start s)) = BSIZE" using assms(3) by simp
  then have z: "of_int32 (get_cell (disk r (log_dev s) (log_start s)) 0) = 0"
    unfolding hd by (intro get_head_data(1)) simp_all
  then have "log_wf r" using r(2,3,5) eq len dev assms(1) by (simp add: log_wf_def log_area_def lh_wf_def hdr_n_def)
  then show ?thesis using r l dev a(4) by (auto simp: wrote_def)
qed

text \<open>
  C5. Crash atomicity. A commit returns with an empty log and every home block on disk as the
  transaction left it, and whenever the machine stops between two of its disk writes, recovery from
  that disk returns, and either every home block has the content from before the transaction or
  every home block has the content that the transaction wrote.
\<close>

theorem commit_crash_atomic:
  fixes s :: "'a logst_scheme"
  assumes u: "unlocked s" and w: "log_wf s" and n: "0 < lh_n s"
  shows "\<exists>s' ws. commit s = Ok s' \<and> lh_n s' = 0 \<and> wtrace s' = wtrace s @ ws
    \<and> (\<forall>b. home s b \<longrightarrow> disk s' (log_dev s) b = blk s (log_dev s) b)
    \<and> (\<forall>k. \<exists>r. recover_from_log (reboot (apply_writes (take k ws) (disk s)) s) = Ok r
         \<and> ((\<forall>b. home s b \<longrightarrow> disk r (log_dev s) b = disk s (log_dev s) b)
            \<or> (\<forall>b. home s b \<longrightarrow> disk r (log_dev s) b = blk s (log_dev s) b)))"
proof -
  let ?ws = "commit_writes s" and ?dev = "log_dev s" and ?st = "log_start s"
  note d = log_wfD [OF w]
  obtain s' where s': "commit s = Ok s'" "lh_n s' = 0" "wrote ?ws s s'" "log_frame s s'"
    using commit_ok [OF u d(1,2) n] by blast
  have lenb: "\<forall>b. length (blk s ?dev b) = BSIZE" "\<forall>b. length (disk s ?dev b) = BSIZE"
    using w by (simp_all add: log_wf_def log_area_def)
  have lh: "0 \<le> lh_n s" "lh_n s \<le> LOGSIZE" "lh_n s < log_size s" using d(2) by (simp_all add: lh_wf_def)
  have "\<exists>r. recover_from_log (reboot (apply_writes (take k ?ws) (disk s)) s) = Ok r
         \<and> ((\<forall>b. home s b \<longrightarrow> disk r ?dev b = disk s ?dev b)
            \<or> (\<forall>b. home s b \<longrightarrow> disk r ?dev b = blk s ?dev b))" for k
  proof -
    let ?D = "apply_writes (take k ?ws) (disk s)"
    have l: "\<forall>(dv, b, x)\<in>set ?ws. length x = BSIZE"
      using lenb lh by (auto simp: commit_writes_def Let_def log_writes_def home_writes_def head_writes_def)
    then have len: "\<forall>b. length (?D ?dev b) = BSIZE"
      using lenb(2) by (intro allI length_apply_writes) (auto dest: in_set_takeD)
    have key: "hdr_wf s (?D ?dev ?st) \<and> ((\<forall>b. home s b \<longrightarrow> logical ?st (?D ?dev) b = disk s ?dev b)
        \<or> (\<forall>b. home s b \<longrightarrow> logical ?st (?D ?dev) b = blk s ?dev b))"
      by (rule crash_cases [OF w])
    obtain r where "recover_from_log (reboot ?D s) = Ok r"
        "\<forall>b. home s b \<longrightarrow> disk r ?dev b = logical ?st (?D ?dev) b"
      using reboot_recover [of s ?D] d(1) key len by blast
    then show ?thesis using key by auto
  qed
  moreover have "\<forall>b. home s b \<longrightarrow> disk s' ?dev b = blk s ?dev b"
    using s'(3) crash_after_commit(1) [OF w] by (simp add: wrote_def)
  ultimately show ?thesis using s' by (auto simp: wrote_def)
qed

text \<open>A disk of zero blocks with a log of 30 blocks at block 2, and a transaction that has written block 100.\<close>

definition log_demo :: logst where
  "log_demo = \<lparr>held = [], curproc = None, pt = \<lparr>pt_proc = [], pt_mlfq = \<lparr>m_queue = [], m_index = [],
     m_percentage = 0, m_pass = 0\<rparr>, pt_minpass = 0\<rparr>, kmem_use_lock = True, kmem_freelist = 0,
     pages = (\<lambda>_. []), kern_end = 0, disk = (\<lambda>_ _. replicate BSIZE 0),
     blk = set_block 1 100 (replicate BSIZE 7) (\<lambda>_ _. replicate BSIZE 0), bheld = [], wtrace = [],
     log_start = 2, log_size = 30, log_outstanding = 0, log_committing = True, log_dev = 1,
     lh_n = 1, lh_block = (replicate 30 0)[0 := 100]\<rparr>"

lemma log_demo_wf: "unlocked log_demo" "log_wf log_demo" "home log_demo 100"
proof -
  have "get_u32 (replicate BSIZE 0) 0 = 0" by (rule get_u32_zeros) simp
  then show "log_wf log_demo"
    by (simp add: log_wf_def log_demo_def log_area_def lh_wf_def home_def hdr_n_def of_int32_def set_block_apply
        inj_on_def)
qed (simp_all add: unlocked_def log_demo_def home_def)

theorem commit_crash_atomic_witness:
  "\<exists>s' ws. commit log_demo = Ok s' \<and> lh_n s' = 0 \<and> disk s' 1 100 = replicate BSIZE 7
    \<and> (\<exists>r. recover_from_log (reboot (apply_writes (take 2 ws) (disk log_demo)) log_demo) = Ok r
         \<and> (disk r 1 100 = replicate BSIZE 0 \<or> disk r 1 100 = replicate BSIZE 7))"
proof -
  have c: "log_dev log_demo = 1" "0 < lh_n log_demo" "blk log_demo 1 100 = replicate BSIZE 7"
      "disk log_demo 1 100 = replicate BSIZE 0"
    by (simp_all add: log_demo_def set_block_apply)
  obtain s' ws r where "commit log_demo = Ok s'" "lh_n s' = 0" "\<forall>b. home log_demo b \<longrightarrow> disk s' 1 b = blk log_demo 1 b"
      "recover_from_log (reboot (apply_writes (take 2 ws) (disk log_demo)) log_demo) = Ok r"
      "(\<forall>b. home log_demo b \<longrightarrow> disk r 1 b = disk log_demo 1 b) \<or> (\<forall>b. home log_demo b \<longrightarrow> disk r 1 b = blk log_demo 1 b)"
    using commit_crash_atomic [OF log_demo_wf(1,2) c(2)] c(1) by metis
  then show ?thesis using log_demo_wf(3) c(3,4) by metis
qed

text \<open>
  C6. Recovery may crash too. From a well-formed disk it returns with an empty log, the home blocks
  as the header and the log area say, and a state in which a transaction can start; and after any
  prefix of its own disk writes, the content that recovery would establish is still the same.
\<close>

theorem recovery_idempotent:
  fixes s :: "'a logst_scheme"
  assumes "log_area s" "hdr_wf s (d (log_dev s) (log_start s))" "\<forall>b. length (d (log_dev s) b) = BSIZE"
  shows "\<exists>r ws. recover_from_log (reboot d s) = Ok r \<and> lh_n r = 0 \<and> log_wf r
    \<and> disk r = apply_writes ws d
    \<and> (\<forall>b. home s b \<longrightarrow> disk r (log_dev s) b = logical (log_start s) (d (log_dev s)) b)
    \<and> (\<forall>k b. home s b \<longrightarrow> logical (log_start s) (apply_writes (take k ws) d (log_dev s)) b
         = logical (log_start s) (d (log_dev s)) b)"
proof -
  let ?r = "reboot d s"
  have a: "log_area ?r" "hdr_wf ?r (blk ?r (log_dev ?r) (log_start ?r))"
      "disk ?r (log_dev ?r) = blk ?r (log_dev ?r)"
    using assms by (auto simp: reboot_def log_area_def hdr_wf_def home_def)
  have dev: "log_dev ?r = log_dev s" "log_start ?r = log_start s" "disk ?r = d" "home ?r = home s"
    by (simp_all add: reboot_def home_def fun_eq_iff)
  obtain r where r: "recover_from_log ?r = Ok r" "wrote (recover_writes ?r) ?r r" "lh_n r = 0" "log_wf r"
      "\<forall>b. home s b \<longrightarrow> disk r (log_dev s) b = logical (log_start s) (d (log_dev s)) b"
    using reboot_recover [of s d] assms by blast
  moreover have "disk r = apply_writes (recover_writes ?r) d" using r(2) dev(3) by (simp add: wrote_def)
  ultimately show ?thesis using recover_writes_logical(1) [OF a, unfolded dev] by blast
qed

theorem recovery_idempotent_witness:
  "\<exists>r ws. recover_from_log (reboot (disk log_demo) log_demo) = Ok r \<and> disk r 1 100 = replicate BSIZE 0
     \<and> logical 2 (apply_writes (take 1 ws) (disk log_demo) 1) 100 = replicate BSIZE 0"
proof -
  have z: "get_u32 (replicate BSIZE 0) 0 = 0" by (rule get_u32_zeros) simp
  have c: "log_dev log_demo = 1" "log_start log_demo = 2" "disk log_demo = (\<lambda>_ _. replicate BSIZE 0)"
    by (simp_all add: log_demo_def)
  have h: "log_area log_demo" "hdr_wf log_demo (replicate BSIZE 0)"
    using log_demo_wf(2) z by (simp_all add: log_wf_def hdr_wf_def hdr_n_def of_int32_def log_demo_def)
  have "logical 2 (disk log_demo 1) 100 = replicate BSIZE 0"
    using z by (simp add: logical_empty hdr_n_def of_int32_def c(3))
  moreover have "\<forall>b. length (disk log_demo (log_dev log_demo) b) = BSIZE"
      "hdr_wf log_demo (disk log_demo (log_dev log_demo) (log_start log_demo))"
    using h(2) by (simp_all add: c)
  ultimately obtain r ws where r: "recover_from_log (reboot (disk log_demo) log_demo) = Ok r"
      "disk r 1 100 = replicate BSIZE 0"
      "logical 2 (apply_writes (take 1 ws) (disk log_demo) 1) 100 = replicate BSIZE 0"
    using recovery_idempotent [OF h(1), of "disk log_demo", unfolded c(1,2)] log_demo_wf(3) c(1,2) by fastforce
  then show ?thesis by blast
qed

section \<open>Logging a block\<close>

definition logged :: "'a logst_scheme \<Rightarrow> nat set" where
  "logged s = set (take (nat (lh_n s)) (lh_block s))"

lemma in_logged: "nat (lh_n s) \<le> length (lh_block s) \<Longrightarrow> b \<in> logged s \<longleftrightarrow> (\<exists>i<nat (lh_n s). lh_block s ! i = b)"
  by (auto simp: logged_def in_set_conv_nth)

lemma log_write_ok:
  assumes "LogLock \<notin> set (held s)" "0 \<le> lh_n s" "lh_n s < LOGSIZE" "lh_n s < log_size s - 1"
    "1 \<le> log_outstanding s" "length (lh_block s) = 30"
  shows "b \<in> logged s \<Longrightarrow> log_write b s = Ok s"
    "b \<notin> logged s \<Longrightarrow> log_write b s = Ok (s\<lparr>lh_block := (lh_block s)[nat (lh_n s) := b], lh_n := lh_n s + 1\<rparr>)"
proof -
  have l: "nat (lh_n s) \<le> length (lh_block s)" using assms by auto
  assume "b \<in> logged s"
  then obtain j where "j < nat (lh_n s)" "lh_block s ! j = b" using in_logged [OF l] by blast
  then obtain i where i: "search (\<lambda>i. lh_block s ! i = b) 0 (nat (lh_n s)) = Some i"
    using search_exists [of 0 j _ "\<lambda>i. lh_block s ! i = b"] by auto
  from search_SomeD [OF this] have "i < nat (lh_n s)" "(lh_block s)[i := b] = lh_block s"
    by auto
  with assms i show "log_write b s = Ok s" by (auto simp: log_write_def Let_def acquire_def release_def)
next
  have l: "nat (lh_n s) \<le> length (lh_block s)" using assms by auto
  assume "b \<notin> logged s"
  then have "search (\<lambda>i. lh_block s ! i = b) 0 (nat (lh_n s)) = None"
    using in_logged [OF l] by (auto simp: search_None)
  with assms show "log_write b s = Ok (s\<lparr>lh_block := (lh_block s)[nat (lh_n s) := b], lh_n := lh_n s + 1\<rparr>)"
    by (auto simp: log_write_def Let_def acquire_def release_def)
qed

text \<open>The form the file system uses: room is left, the block is in the log afterwards.\<close>

lemma log_write_room:
  assumes "LogLock \<notin> set (held s)" "0 \<le> lh_n s" "lh_n s < LOGSIZE" "lh_n s < log_size s - 1"
    "1 \<le> log_outstanding s" "length (lh_block s) = 30"
  obtains bs n where "log_write b s = Ok (s\<lparr>lh_block := bs, lh_n := n\<rparr>)" "length bs = 30"
    "lh_n s \<le> n" "n \<le> lh_n s + 1" "logged (s\<lparr>lh_block := bs, lh_n := n\<rparr>) = insert b (logged s)"
proof (cases "b \<in> logged s")
  case True
  have "s = s\<lparr>lh_block := lh_block s, lh_n := lh_n s\<rparr>" by simp
  with True log_write_ok(1) [OF assms True] assms(6) show ?thesis
    by (intro that [of "lh_n s" "lh_block s"]) auto
next
  case False
  let ?n = "nat (lh_n s)" and ?bs = "(lh_block s)[nat (lh_n s) := b]"
  have l: "?n < length (lh_block s)" "nat (lh_n s + 1) = Suc ?n" using assms by auto
  have "take (Suc ?n) ?bs = take ?n (lh_block s) @ [b]" using l by (simp add: take_Suc_conv_app_nth)
  then have "logged (s\<lparr>lh_block := ?bs, lh_n := lh_n s + 1\<rparr>) = insert b (logged s)"
    using l(2) by (simp add: logged_def)
  with log_write_ok(2) [OF assms False] assms(6) show ?thesis
    by (intro that [of "lh_n s + 1" ?bs]) auto
qed

text \<open>A block that is changed in the cache and logged keeps the invariant of the log.\<close>

lemma log_write_wf:
  fixes s :: "'a logst_scheme"
  assumes w: "log_wf s" and r: "LogLock \<notin> set (held s)" "lh_n s < LOGSIZE" "lh_n s < log_size s - 1" "1 \<le> log_outstanding s"
    and b: "home s b" "b < FSSIZE" and d: "length d = BSIZE"
  shows "\<exists>s'. log_write b (bset (log_dev s) b d s) = Ok s' \<and> log_wf s' \<and> log_frame s s'
    \<and> lh_n s' = lh_n s + (if b \<in> logged s then 0 else 1) \<and> disk s' = disk s
    \<and> blk s' = set_block (log_dev s) b d (blk s) \<and> logged s' = insert b (logged s)"
proof -
  let ?s = "bset (log_dev s) b d s"
  note wd = log_wfD [OF w]
  have lh: "0 \<le> lh_n s" "length (lh_block s) = 30" "lh_n s \<le> LOGSIZE"
      "inj_on (\<lambda>i. lh_block s ! i) {..<nat (lh_n s)}"
      "\<forall>i<nat (lh_n s). home s (lh_block s ! i) \<and> lh_block s ! i < FSSIZE"
    using wd(1,2) by (simp_all add: lh_wf_def log_area_def)
  have lg: "logged ?s = logged s" "nat (lh_n s) \<le> length (lh_block s)" using lh by (auto simp: logged_def)
  have len: "\<forall>c. length (blk ?s (log_dev s) c) = BSIZE"
    using wd(1) d by (simp add: log_area_def set_block_apply)
  have st: "b \<noteq> log_start s" using home_not_start [OF wd(4) b(1)] .
  note ok = log_write_ok [of ?s b]
  show ?thesis
  proof (cases "b \<in> logged s")
    case True
    then have "log_write b ?s = Ok ?s" using ok(1) lg r lh by simp
    moreover have "log_wf ?s"
      using w len True in_logged [OF lg(2), of b]
      by (auto simp: log_wf_def log_area_def lh_wf_def home_def set_block_apply)
    ultimately show ?thesis using True lg(1) by (auto simp: log_frame_def)
  next
    case False
    let ?bs = "(lh_block s)[nat (lh_n s) := b]"
    let ?t = "?s\<lparr>lh_block := ?bs, lh_n := lh_n s + 1\<rparr>"
    have "log_write b ?s = Ok ?t" using ok(2) lg r lh False by simp
    moreover have n: "nat (lh_n s + 1) = Suc (nat (lh_n s))" "nat (lh_n s) < length (lh_block s)" using lh r by auto
    have nb: "\<forall>i<nat (lh_n s). lh_block s ! i \<noteq> b" using False in_logged [OF lg(2)] by blast
    have "lh_wf ?t"
      using lh r b n nb by (auto simp: lh_wf_def home_def inj_on_def nth_list_update less_Suc_eq)
    then have "log_wf ?t"
      using w len nb n
      by (auto simp: log_wf_def log_area_def home_def set_block_apply nth_list_update less_Suc_eq)
    moreover have "take (Suc (nat (lh_n s))) ?bs = take (nat (lh_n s)) (lh_block s) @ [b]"
      using n(2) by (simp add: take_Suc_conv_app_nth)
    then have "logged ?t = insert b (logged s)" using n(1) by (simp add: logged_def)
    ultimately show ?thesis using False by (simp add: log_frame_def)
  qed
qed

lemma commit_wf:
  fixes s :: "'a logst_scheme"
  assumes u: "unlocked s" and w: "log_wf s"
  shows "\<exists>s'. commit s = Ok s' \<and> log_wf s' \<and> log_frame s s' \<and> lh_n s' = 0
    \<and> (\<forall>b. home s b \<longrightarrow> blk s' (log_dev s) b = blk s (log_dev s) b
        \<and> disk s' (log_dev s) b = blk s (log_dev s) b)"
proof (cases "0 < lh_n s")
  case False
  then have "lh_n s = 0" using w by (simp add: log_wf_def lh_wf_def)
  then show ?thesis using False w by (auto simp: commit_def log_wf_def)
next
  case True
  note d = log_wfD [OF w]
  let ?dev = "log_dev s" and ?st = "log_start s"
  obtain s' where s': "commit s = Ok s'" "log_frame s s'" "lh_n s' = 0" "lh_block s' = lh_block s"
      "wrote (commit_writes s) s s'"
    using commit_ok [OF u d(1,2) True] by blast
  note fr = s'(2) [unfolded log_frame_def]
  have lenb: "\<forall>b. length (blk s ?dev b) = BSIZE" "\<forall>b. length (disk s ?dev b) = BSIZE"
    using w by (simp_all add: log_wf_def log_area_def)
  have lh: "lh_n s \<le> LOGSIZE" using d(2) by (simp add: lh_wf_def)
  have l: "\<forall>(dv, b, x)\<in>set (commit_writes s). length x = BSIZE"
    using lenb lh by (auto simp: commit_writes_def Let_def log_writes_def home_writes_def head_writes_def)
  have l2: "\<forall>b. length (blk s' ?dev b) = BSIZE" "\<forall>b. length (disk s' ?dev b) = BSIZE"
    using s'(5) length_apply_writes [of "blk s" ?dev, OF lenb(1) l] length_apply_writes [of "disk s" ?dev, OF lenb(2) l] by (simp_all add: wrote_def)
  let ?g = "head_data (lh_n s) (lh_block s) (blk s ?dev ?st)"
  have g: "length ?g = BSIZE" using lenb lh by simp
  have "disk s' ?dev ?st = head_data 0 (lh_block s) ?g"
    using s'(5) by (simp add: wrote_def commit_writes_def Let_def head_writes_def set_block_apply)
  then have z: "of_int32 (get_cell (disk s' ?dev ?st) 0) = 0" using get_head_data(1) [OF g, of 0] by simp
  have dk: "\<forall>b. home s b \<longrightarrow> disk s' ?dev b = blk s ?dev b"
    using s'(5) crash_after_commit(1) [OF w] by (simp add: wrote_def)
  have bk: "blk s' ?dev b = blk s ?dev b" if b: "home s b" for b
  proof -
    have i: "\<forall>i<nat (lh_n s). log_start s + i + 1 \<noteq> b" using d(5) home_not_log [OF b] by (metis add.assoc)
    have "blk s' ?dev b = apply_writes (home_writes s) (apply_writes (log_writes s @ head_writes (lh_n s) (blk s ?dev ?st) s) (blk s)) ?dev b"
      using s'(5) home_not_start [OF d(4) b] by (simp add: wrote_def commit_writes_def Let_def head_writes_def set_block_apply)
    also have "\<dots> = blk s ?dev b"
    proof (cases "\<exists>i<nat (lh_n s). lh_block s ! i = b")
      case True
      then obtain i where "i < nat (lh_n s)" "lh_block s ! i = b" by blast
      then show ?thesis
        using apply_copy_at [of "\<lambda>i. lh_block s ! i" "nat (lh_n s)" i] d(2) by (auto simp: home_writes_def lh_wf_def)
    next
      case False
      then have "apply_writes (home_writes s) X ?dev b = X ?dev b" for X
        unfolding home_writes_def by (intro apply_copy_other) auto
      moreover have "apply_writes (log_writes s) (blk s) ?dev b = blk s ?dev b"
        unfolding log_writes_def by (rule apply_copy_other) (use i in auto)
      ultimately show ?thesis
        using home_not_start [OF d(4) b] by (simp add: head_writes_def set_block_apply)
    qed
    finally show ?thesis .
  qed
  have "log_wf s'"
    using z l2 dk bk s'(3,4) fr d(1,4) by (auto simp: log_wf_def log_area_def lh_wf_def hdr_n_def home_def)
  then show ?thesis using s' dk bk by blast
qed

section \<open>Interleaved system calls\<close>

text \<open>
  Several system calls run at the same time, each between its \<open>begin_op\<close> and \<open>end_op\<close>; \<open>us ! i\<close>
  is the number of blocks that the \<open>i\<close>-th of them has logged. A step is a call of \<open>begin_op\<close> that
  does not sleep, a change of a block with its \<open>log_write\<close>, or an \<open>end_op\<close>, in any order.
\<close>

inductive log_step :: "'a logst_scheme \<times> nat list \<Rightarrow> 'a logst_scheme \<times> nat list \<Rightarrow> bool" where
  begin_step: "begin_op s = Ok s' \<Longrightarrow> log_step (s, us) (s', us @ [0])"
| write_step: "i < length us \<Longrightarrow> int (us ! i) < MAXOPBLOCKS \<Longrightarrow> home s b \<Longrightarrow> b < FSSIZE \<Longrightarrow> length d = BSIZE \<Longrightarrow>
    log_write b (bset (log_dev s) b d s) = Ok s' \<Longrightarrow> log_step (s, us) (s', us[i := Suc (us ! i)])"
| end_step: "i < length us \<Longrightarrow> end_op s = Ok s' \<Longrightarrow> log_step (s, us) (s', remove_nth i us)"

inductive_cases log_stepE: "log_step (s, us) (s', us')"

definition log_init :: "'a logst_scheme \<Rightarrow> bool" where
  "log_init s \<longleftrightarrow> unlocked s \<and> log_wf s \<and> lh_n s = 0 \<and> log_outstanding s = 0 \<and> \<not> log_committing s"

text \<open>What calls that log at most \<open>q\<close> blocks each may still log.\<close>

definition reservation :: "int \<Rightarrow> nat list \<Rightarrow> int" where
  "reservation q us = (\<Sum>u\<leftarrow>us. q - int u)"

definition log_inv :: "'a logst_scheme \<times> nat list \<Rightarrow> bool" where
  "log_inv = (\<lambda>(s, us). unlocked s \<and> log_wf s \<and> \<not> log_committing s \<and> log_outstanding s = int (length us)
     \<and> (\<forall>u\<in>set us. int u \<le> MAXOPBLOCKS) \<and> lh_n s + reservation MAXOPBLOCKS us \<le> LOGSIZE)"

lemma reservation_update:
  "i < length us \<Longrightarrow> reservation q (us[i := v]) = reservation q us + int (us ! i) - int v"
proof -
  assume "i < length us"
  then have "us = take i us @ us ! i # drop (Suc i) us" "us[i := v] = take i us @ v # drop (Suc i) us"
    by (simp_all add: id_take_nth_drop upd_conv_take_nth_drop)
  then have "reservation q us = reservation q (take i us) + (q - int (us ! i)) + reservation q (drop (Suc i) us)"
    "reservation q (us[i := v]) = reservation q (take i us) + (q - int v) + reservation q (drop (Suc i) us)"
    unfolding reservation_def by (metis (no_types) add.assoc list.simps(9) map_append sum_list.Cons sum_list.append)+
  then show ?thesis by simp
qed

lemma reservation_remove:
  "i < length us \<Longrightarrow> reservation q us = reservation q (remove_nth i us) + (q - int (us ! i))"
proof -
  assume "i < length us"
  then have "us = take i us @ us ! i # drop (Suc i) us" by (simp add: id_take_nth_drop)
  then have "reservation q us = reservation q (take i us) + (q - int (us ! i)) + reservation q (drop (Suc i) us)"
    unfolding reservation_def by (metis (no_types) add.assoc list.simps(9) map_append sum_list.Cons sum_list.append)
  then show ?thesis by (simp add: reservation_def remove_nth_def)
qed

lemma reservation_le: "\<forall>u\<in>set us. int u \<le> q \<Longrightarrow> 0 \<le> reservation q us \<and> reservation q us \<le> q * int (length us)"
  by (induction us) (auto simp: reservation_def algebra_simps)

lemma set_remove_nth: "set (remove_nth i us) \<subseteq> set us"
  by (auto simp: remove_nth_def dest: in_set_takeD in_set_dropD)

lemma begin_op_eq:
  assumes "LogLock \<notin> set (held s)"
  shows "begin_op s = (if log_committing s \<or> lh_n s + (log_outstanding s + 1) * MAXOPBLOCKS > LOGSIZE
     then Err (Sleeps ChanLog) else Ok (s\<lparr>log_outstanding := log_outstanding s + 1\<rparr>))"
  using assms by (simp add: begin_op_def acquire_def release_def)

lemma end_op_enter_eq:
  assumes "unlocked s" "\<not> log_committing s"
  shows "end_op_enter s = Ok (if log_outstanding s = 1 then (True, s\<lparr>log_outstanding := 0, log_committing := True\<rparr>)
    else (False, s\<lparr>log_outstanding := log_outstanding s - 1, pt := wakeup1 (Some ChanLog) (pt s)\<rparr>))"
proof -
  have h: "held s = []" using assms(1) by (simp add: unlocked_def)
  have "s\<lparr>log_outstanding := 0, log_committing := True, held := []\<rparr> = s\<lparr>log_outstanding := 0, log_committing := True\<rparr>"
    by (rule logst.equality) (use h in simp_all)
  then show ?thesis using assms(2) h by (auto simp: end_op_enter_def Let_def kernel_simps)
qed

lemma end_op_leave_eq:
  "unlocked s \<Longrightarrow> end_op_leave s = Ok (s\<lparr>log_committing := False, pt := wakeup1 (Some ChanLog) (pt s)\<rparr>)"
  by (auto simp: end_op_leave_def kernel_simps unlocked_def)

text \<open>The invariant of the log does not depend on the counters and on who is awake.\<close>

lemma log_wf_counters [simp]:
  fixes s :: "'a logst_scheme"
  shows "log_wf (s\<lparr>log_outstanding := n\<rparr>) = log_wf s" "log_wf (s\<lparr>log_committing := c\<rparr>) = log_wf s" "log_wf (s\<lparr>pt := t\<rparr>) = log_wf s"
    "unlocked (s\<lparr>log_outstanding := n\<rparr>) = unlocked s" "unlocked (s\<lparr>log_committing := c\<rparr>) = unlocked s" "unlocked (s\<lparr>pt := t\<rparr>) = unlocked s"
    "home (s\<lparr>log_outstanding := n\<rparr>) = home s" "home (s\<lparr>log_committing := c\<rparr>) = home s" "home (s\<lparr>pt := t\<rparr>) = home s"
  by (simp_all add: log_wf_def log_area_def lh_wf_def home_def unlocked_def fun_eq_iff)

lemma end_op_ok:
  fixes s :: "'a logst_scheme"
  assumes u: "unlocked s" and w: "log_wf s" and c: "\<not> log_committing s"
  shows "\<exists>s'. end_op s = Ok s' \<and> unlocked s' \<and> log_wf s' \<and> \<not> log_committing s'
    \<and> log_outstanding s' = log_outstanding s - 1
    \<and> lh_n s' = (if log_outstanding s = 1 then 0 else lh_n s) \<and> home s' = home s
    \<and> log_size s' = log_size s \<and> log_start s' = log_start s \<and> log_dev s' = log_dev s
    \<and> (\<forall>b. home s b \<longrightarrow> blk s' (log_dev s) b = blk s (log_dev s) b)"
proof (cases "log_outstanding s = 1")
  case False
  then show ?thesis using end_op_enter_eq [OF u c] u w c by (auto simp: end_op_def)
next
  case True
  let ?s = "s\<lparr>log_outstanding := 0, log_committing := True\<rparr>"
  have "unlocked ?s" "log_wf ?s" using u w by simp_all
  then obtain s1 where s1: "commit ?s = Ok s1" "log_wf s1" "log_frame ?s s1" "lh_n s1 = 0"
      "\<forall>b. home ?s b \<longrightarrow> blk s1 (log_dev ?s) b = blk ?s (log_dev ?s) b"
    using commit_wf [of ?s] by blast
  note fr = s1(3) [unfolded log_frame_def]
  have u1: "unlocked s1" using unlocked_frame [OF s1(3)] u by simp
  then have "end_op s = Ok (s1\<lparr>log_committing := False, pt := wakeup1 (Some ChanLog) (pt s1)\<rparr>)"
    using end_op_enter_eq [OF u c] True s1(1) end_op_leave_eq [OF u1] by (simp add: end_op_def)
  then show ?thesis using True fr s1(2,4,5) u1 by (auto simp: home_def fun_eq_iff)
qed

lemma log_step_inv:
  fixes s s' :: "'a logst_scheme"
  assumes "log_step (s, us) (s', us')" and inv: "log_inv (s, us)"
  shows "log_inv (s', us') \<and> log_size s' = log_size s"
  using assms(1)
proof (rule log_stepE)
  assume 1: "us' = us @ [0]" "begin_op s = Ok s'"
  have i: "unlocked s" "log_wf s" "\<not> log_committing s" "log_outstanding s = int (length us)"
      "\<forall>u\<in>set us. int u \<le> MAXOPBLOCKS" "lh_n s + reservation MAXOPBLOCKS us \<le> LOGSIZE"
    using inv by (simp_all add: log_inv_def)
  have s': "s' = s\<lparr>log_outstanding := log_outstanding s + 1\<rparr>" "lh_n s + (log_outstanding s + 1) * MAXOPBLOCKS \<le> LOGSIZE"
    using 1(2) begin_op_eq [of s] i(1) by (auto simp: unlocked_def split: if_splits)
  have "reservation MAXOPBLOCKS us \<le> MAXOPBLOCKS * int (length us)" using reservation_le [OF i(5)] by simp
  then have "lh_n s + reservation MAXOPBLOCKS (us @ [0]) \<le> LOGSIZE" using s'(2) i(4) by (simp add: reservation_def)
  then show ?thesis using i s'(1) 1(1)
    by (auto simp: log_inv_def unlocked_def log_wf_def log_area_def lh_wf_def home_def)
next
  fix i b d
  assume 2: "us' = us[i := Suc (us ! i)]" "i < length us" "us ! i < 10" "home s b" "b < FSSIZE"
    "length d = BSIZE" "log_write b (bset (log_dev s) b d s) = Ok s'"
  have iv: "unlocked s" "log_wf s" "\<not> log_committing s" "log_outstanding s = int (length us)"
      "\<forall>u\<in>set us. int u \<le> MAXOPBLOCKS" "lh_n s + reservation MAXOPBLOCKS us \<le> LOGSIZE"
    using inv by (simp_all add: log_inv_def)
  have room: "lh_n s < LOGSIZE" "lh_n s < log_size s - 1"
    using 2(7) by (auto simp: log_write_def split: if_splits)
  have out: "1 \<le> log_outstanding s" using iv(4) 2(2) by simp
  obtain t where t: "log_write b (bset (log_dev s) b d s) = Ok t" "log_wf t" "log_frame s t"
      "lh_n t = lh_n s + (if b \<in> logged s then 0 else 1)"
    using log_write_wf [OF iv(2) _ room out 2(4,5,6)] iv(1) by (auto simp: unlocked_def)
  have "reservation MAXOPBLOCKS us' = reservation MAXOPBLOCKS us - 1" using 2(1,2) by (simp add: reservation_update)
  moreover have "\<forall>u\<in>set us'. int u \<le> MAXOPBLOCKS"
    using iv(5) 2(1,2,3) by (auto dest!: set_update_subset_insert [THEN subsetD])
  ultimately show ?thesis using t iv 2(1,7)
    by (auto simp: log_inv_def log_frame_def unlocked_def split: if_splits)
next
  fix i assume 3: "us' = remove_nth i us" "i < length us" "end_op s = Ok s'"
  have iv: "unlocked s" "log_wf s" "\<not> log_committing s" "log_outstanding s = int (length us)"
      "\<forall>u\<in>set us. int u \<le> MAXOPBLOCKS" "lh_n s + reservation MAXOPBLOCKS us \<le> LOGSIZE"
    using inv by (simp_all add: log_inv_def)
  obtain t where t: "end_op s = Ok t" "unlocked t" "log_wf t" "\<not> log_committing t"
      "log_outstanding t = log_outstanding s - 1" "lh_n t = (if log_outstanding s = 1 then 0 else lh_n s)"
      "log_size t = log_size s"
    using end_op_ok [OF iv(1-3)] by blast
  have "us ! i \<in> set us" using 3(2) by simp
  then have "int (us ! i) \<le> MAXOPBLOCKS" using iv(5) by blast
  then have r: "reservation MAXOPBLOCKS us' \<le> reservation MAXOPBLOCKS us" using reservation_remove [OF 3(2)] 3(1) by simp
  have "0 \<le> lh_n s" using iv(2) by (simp add: log_wf_def lh_wf_def)
  then have "lh_n t + reservation MAXOPBLOCKS us' \<le> LOGSIZE" using t(6) r iv(6) by auto
  moreover have "\<forall>u\<in>set us'. int u \<le> MAXOPBLOCKS" using iv(5) set_remove_nth [of i us] 3(1) by blast
  moreover have "log_outstanding t = int (length us')" using t(5) iv(4) 3(1,2) by (simp add: of_nat_diff)
  ultimately show ?thesis using t 3(3) by (auto simp: log_inv_def)
qed

lemma log_reachable_inv:
  fixes s s' :: "'a logst_scheme"
  assumes "log_step\<^sup>*\<^sup>* (s, us) (s', us')" "log_inv (s, us)"
  shows "log_inv (s', us') \<and> log_size s' = log_size s"
  using assms
proof (induction rule: rtranclp_induct2)
  case refl
  then show ?case by simp
next
  case (step a b c d)
  then show ?case using log_step_inv by metis
qed

section \<open>Calls during a commit\<close>

text \<open>
  The finer interleaving, in which \<open>end_op\<close> is not one step: other calls run after its first part has
  released the lock of the log, before and after the commit. \<open>q\<close> is the number of blocks that a call
  logs at most, the third component is how far the \<open>end_op\<close> of the last call has come.
\<close>

datatype end_stage = Idle | Committing | Committed

inductive call_step :: "nat \<Rightarrow> 'a logst_scheme \<times> nat list \<times> end_stage \<Rightarrow> 'a logst_scheme \<times> nat list \<times> end_stage \<Rightarrow> bool" for q where
  call_begin: "begin_op s = Ok s' \<Longrightarrow> call_step q (s, us, st) (s', us @ [0], st)"
| call_write: "i < length us \<Longrightarrow> us ! i < q \<Longrightarrow> home s b \<Longrightarrow> b < FSSIZE \<Longrightarrow> length d = BSIZE \<Longrightarrow>
    log_write b (bset (log_dev s) b d s) = Ok s' \<Longrightarrow> call_step q (s, us, st) (s', us[i := Suc (us ! i)], st)"
| call_end: "i < length us \<Longrightarrow> end_op_enter s = Ok (do_commit, s') \<Longrightarrow>
    call_step q (s, us, st) (s', remove_nth i us, if do_commit then Committing else st)"
| call_commit: "commit s = Ok s' \<Longrightarrow> call_step q (s, us, Committing) (s', us, Committed)"
| call_leave: "end_op_leave s = Ok s' \<Longrightarrow> call_step q (s, us, Committed) (s', us, Idle)"

inductive_cases call_stepE: "call_step q (s, us, st) (s', us', st')"

text \<open>While a commit is under way no call is inside its transaction; otherwise the log is empty between transactions.\<close>

definition call_inv :: "nat \<Rightarrow> 'a logst_scheme \<times> nat list \<times> end_stage \<Rightarrow> bool" where
  "call_inv q = (\<lambda>(s, us, st). unlocked s \<and> log_wf s \<and> log_outstanding s = int (length us) \<and> (\<forall>u\<in>set us. u \<le> q)
     \<and> log_committing s = (st \<noteq> Idle) \<and> (st \<noteq> Idle \<longrightarrow> us = []) \<and> (us = [] \<and> st \<noteq> Committing \<longrightarrow> lh_n s = 0)
     \<and> lh_n s + reservation (int q) us \<le> 10 + 2 * int q)"

lemma call_invD:
  assumes "call_inv q (s, us, st)"
  shows "unlocked s" "log_wf s" "log_outstanding s = int (length us)" "\<forall>u\<in>set us. int u \<le> int q" "log_committing s = (st \<noteq> Idle)"
    "st \<noteq> Idle \<Longrightarrow> us = []" "us = [] \<Longrightarrow> st \<noteq> Committing \<Longrightarrow> lh_n s = 0" "lh_n s + reservation (int q) us \<le> 10 + 2 * int q"
    "LogLock \<notin> set (held s)" "0 \<le> lh_n s" "length (lh_block s) = 30"
  using assms by (auto simp: call_inv_def unlocked_def log_wf_def log_area_def lh_wf_def)

text \<open>\<open>begin_op\<close> lets a second call in with at most ten blocks in the log, a third one only into an empty log.\<close>

lemma begin_budget:
  assumes "lh_n s + (int (length us) + 1) * MAXOPBLOCKS \<le> LOGSIZE" "0 \<le> lh_n s" "us = [] \<Longrightarrow> lh_n s = 0"
    "\<forall>u\<in>set us. int u \<le> int q" "q \<le> 10"
  shows "lh_n s + reservation (int q) (us @ [0]) \<le> 10 + 2 * int q"
proof -
  have r: "reservation (int q) (us @ [0]) \<le> int q * (int (length us) + 1)"
    using reservation_le [OF assms(4)] by (simp add: reservation_def algebra_simps)
  have "int (length us) \<le> 2" using assms(1,2) by simp
  then consider "length us = 0" | "length us = 1" | "length us = 2" by linarith
  then show ?thesis
  proof cases
    case 1
    then show ?thesis using r assms(3) by simp
  next
    case 2
    then show ?thesis using r assms(1) by simp
  next
    case 3
    then show ?thesis using r assms(1,5) by simp
  qed
qed

lemma call_write_inv:
  fixes s s' :: "'a logst_scheme"
  assumes inv: "call_inv q (s, us, st)" and w: "i < length us" "us ! i < q" "home s b" "b < FSSIZE" "length d = BSIZE"
    "log_write b (bset (log_dev s) b d s) = Ok s'"
  shows "call_inv q (s', us[i := Suc (us ! i)], st) \<and> log_size s' = log_size s"
proof -
  note iv = call_invD [OF inv]
  have room: "lh_n s < LOGSIZE" "lh_n s < log_size s - 1" using w(6) by (auto simp: log_write_def split: if_splits)
  have out: "1 \<le> log_outstanding s" using iv(3) w(1) by simp
  have t: "log_wf s'" "log_frame s s'" "lh_n s' \<le> lh_n s + 1"
    using log_write_wf [OF iv(2,9) room out w(3,4,5)] w(6) by auto
  have "reservation (int q) (us[i := Suc (us ! i)]) = reservation (int q) us - 1" using w(1) by (simp add: reservation_update)
  moreover have "\<forall>u\<in>set (us[i := Suc (us ! i)]). u \<le> q"
    using iv(4) w(2) by (auto dest!: set_update_subset_insert [THEN subsetD])
  ultimately show ?thesis using t iv(1,3,5,6,8) w(1) by (auto simp: call_inv_def log_frame_def unlocked_def)
qed

lemma call_end_inv:
  fixes s s' :: "'a logst_scheme"
  assumes inv: "call_inv q (s, us, st)" and w: "i < length us" "end_op_enter s = Ok (c, s')"
  shows "call_inv q (s', remove_nth i us, if c then Committing else st) \<and> log_size s' = log_size s"
proof -
  note iv = call_invD [OF inv]
  have st: "st = Idle" "\<not> log_committing s" using iv(5,6) w(1) by auto
  have l: "length (remove_nth i us) = length us - 1" "us \<noteq> []" "int (length (remove_nth i us)) = int (length us) - 1"
    using w(1) by (auto simp: of_nat_diff)
  have "us ! i \<in> set us" using w(1) by simp
  then have r: "reservation (int q) (remove_nth i us) \<le> reservation (int q) us"
    using reservation_remove [OF w(1), of "int q"] iv(4) by fastforce
  have q: "\<forall>u\<in>set (remove_nth i us). u \<le> q" using iv(4) set_remove_nth [of i us] by auto
  have "s' = (if length us = 1 then s\<lparr>log_outstanding := 0, log_committing := True\<rparr>
      else s\<lparr>log_outstanding := log_outstanding s - 1, pt := wakeup1 (Some ChanLog) (pt s)\<rparr>)" "c = (length us = 1)"
    using end_op_enter_eq [OF iv(1) st(2)] w(2) iv(3) by (auto split: if_splits)
  moreover have "remove_nth i us = []" if "length us = 1" using l(1) that by simp
  moreover have "remove_nth i us \<noteq> []" if "length us \<noteq> 1" using l(1,2) that by (metis One_nat_def Suc_pred length_0_conv length_greater_0_conv)
  ultimately show ?thesis using iv(1,2,3,8) st r q l(3)
    by (cases "length us = 1") (simp_all add: call_inv_def del: length_remove_nth)
qed

lemma call_step_inv:
  fixes s s' :: "'a logst_scheme"
  assumes "call_step q (s, us, st) (s', us', st')" and inv: "call_inv q (s, us, st)" and q: "q \<le> 10"
  shows "call_inv q (s', us', st') \<and> log_size s' = log_size s"
  using assms(1)
proof (rule call_stepE)
  note iv = call_invD [OF inv]
  assume b: "us' = us @ [0]" "st' = st" "begin_op s = Ok s'"
  have nc: "st = Idle" and s': "s' = s\<lparr>log_outstanding := log_outstanding s + 1\<rparr>" "lh_n s + (int (length us) + 1) * MAXOPBLOCKS \<le> LOGSIZE"
    using b(3) begin_op_eq [OF iv(9)] iv(3,5) by (auto split: if_splits)
  have "lh_n s + reservation (int q) (us @ [0]) \<le> 10 + 2 * int q"
    by (rule begin_budget [OF s'(2) iv(10) _ iv(4) q]) (use iv(7) nc in simp)
  then show ?thesis using iv(1,2,3,4,5) s'(1) b(1,2) nc by (simp add: call_inv_def)
next
  fix i b d
  assume "us' = us[i := Suc (us ! i)]" "st' = st" "i < length us" "us ! i < q" "home s b" "b < FSSIZE" "length d = BSIZE"
    "log_write b (bset (log_dev s) b d s) = Ok s'"
  then show ?thesis using call_write_inv [OF inv] by simp
next
  fix i c
  assume "us' = remove_nth i us" "st' = (if c then Committing else st)" "i < length us" "end_op_enter s = Ok (c, s')"
  then show ?thesis using call_end_inv [OF inv] by simp
next
  note iv = call_invD [OF inv]
  assume c: "us' = us" "st = Committing" "st' = Committed" "commit s = Ok s'"
  then have "us = []" using iv(6) by simp
  moreover have "log_wf s'" "log_frame s s'" "lh_n s' = 0" using commit_wf [OF iv(1,2)] c(4) by auto
  ultimately show ?thesis using iv(1,3,5) c by (auto simp: call_inv_def log_frame_def unlocked_def reservation_def)
next
  note iv = call_invD [OF inv]
  assume c: "us' = us" "st = Committed" "st' = Idle" "end_op_leave s = Ok s'"
  then show ?thesis using iv(1-8) end_op_leave_eq [OF iv(1)] by (auto simp: call_inv_def)
qed

lemma call_reachable_inv:
  fixes s s' :: "'a logst_scheme"
  assumes "(call_step q)\<^sup>*\<^sup>* (s, us, st) (s', us', st')" "call_inv q (s, us, st)" "q \<le> 10"
  shows "call_inv q (s', us', st') \<and> log_size s' = log_size s"
  using assms
proof (induction "(s, us, st)" "(s', us', st')" arbitrary: s' us' st' rule: rtranclp.induct)
  case (rtrancl_into_rtrancl b)
  obtain t vs z where b: "b = (t, vs, z)" by (cases b)
  then show ?case using rtrancl_into_rtrancl call_step_inv [of q t vs z s' us' st'] by simp
qed simp

lemma log_init_call_inv: "log_init s \<Longrightarrow> call_inv q (s, [], Idle)"
  by (simp add: log_init_def call_inv_def reservation_def)

text \<open>What the calls can do next in a state of the invariant, and how many blocks are in the log.\<close>

lemma call_inv_progress:
  fixes s :: "'a logst_scheme"
  assumes inv: "call_inv q (s, us, st)" and q: "q \<le> 10" and size: "10 + 2 * int q < log_size s"
  shows "begin_op s = Err (Sleeps ChanLog) \<or> st = Idle \<and> (\<exists>s'. begin_op s = Ok s')"
    "us \<noteq> [] \<Longrightarrow> \<exists>r. end_op_enter s = Ok r" "\<exists>s'. commit s = Ok s'" "\<exists>s'. end_op_leave s = Ok s'"
    "i < length us \<Longrightarrow> us ! i < q \<Longrightarrow> \<exists>s'. log_write b s = Ok s'" "lh_n s \<le> 10 + 2 * int q"
proof -
  note iv = call_invD [OF inv]
  show "begin_op s = Err (Sleeps ChanLog) \<or> st = Idle \<and> (\<exists>s'. begin_op s = Ok s')"
    using begin_op_eq [OF iv(9)] iv(5) by auto
  show "\<exists>r. end_op_enter s = Ok r" if "us \<noteq> []" using end_op_enter_eq [OF iv(1)] iv(5,6) that by blast
  show "\<exists>s'. commit s = Ok s'" using commit_wf [OF iv(1,2)] by blast
  show "\<exists>s'. end_op_leave s = Ok s'" using end_op_leave_eq [OF iv(1)] by blast
  show "lh_n s \<le> 10 + 2 * int q" using iv(8) reservation_le [OF iv(4)] by linarith
  show "\<exists>s'. log_write b s = Ok s'" if i: "i < length us" "us ! i < q"
  proof -
    have "0 \<le> reservation (int q) (remove_nth i us)"
      using reservation_le [of "remove_nth i us" "int q"] set_remove_nth [of i us] iv(4) by blast
    then have n: "lh_n s < 10 + 2 * int q" using reservation_remove [OF i(1), of "int q"] i(2) iv(8) by linarith
    then have "lh_n s < LOGSIZE" "lh_n s < log_size s - 1" "1 \<le> log_outstanding s" using q size iv(3) i(1) by auto
    then show ?thesis using log_write_room [OF iv(9,10) _ _ _ iv(11), of b] by metis
  qed
qed

definition log_idle :: "int \<Rightarrow> logst" where
  "log_idle n = log_demo\<lparr>blk := (\<lambda>_ _. replicate BSIZE 0), log_committing := False, lh_n := 0, log_size := n\<rparr>"

lemma log_idle_init: "0 < n \<Longrightarrow> n \<le> 100 \<Longrightarrow> log_init (log_idle n)"
proof -
  have "get_u32 (replicate BSIZE 0) 0 = 0" by (rule get_u32_zeros) simp
  then show "0 < n \<Longrightarrow> n \<le> 100 \<Longrightarrow> log_init (log_idle n)"
    by (auto simp: log_init_def log_idle_def log_demo_def unlocked_def log_wf_def log_area_def lh_wf_def hdr_n_def
        of_int32_def)
qed

lemma write_run:
  fixes s :: "'a logst_scheme"
  assumes "log_inv (s, us)" "i < length us" "us ! i = 0" "n \<le> 10" "lh_n s + int n < LOGSIZE" "log_size s = LOGSIZE"
    "\<forall>k<n. base + k \<notin> logged s \<and> home s (base + k) \<and> base + k < FSSIZE"
  shows "\<exists>s'. log_step\<^sup>*\<^sup>* (s, us) (s', us[i := n]) \<and> lh_n s' = lh_n s + int n
    \<and> logged s' = logged s \<union> {base..<base + n} \<and> home s' = home s"
  using assms(4-7)
proof (induction n)
  case 0
  have "us[i := 0] = us" using assms(3) by (metis list_update_id)
  then show ?case by auto
next
  case (Suc n)
  obtain s1 where s1: "log_step\<^sup>*\<^sup>* (s, us) (s1, us[i := n])" "lh_n s1 = lh_n s + int n"
      "logged s1 = logged s \<union> {base..<base + n}" "home s1 = home s"
    using Suc by auto
  have "log_inv (s1, us[i := n])" and sz: "log_size s1 = LOGSIZE"
    using log_reachable_inv [OF s1(1) assms(1)] Suc.prems(3) by auto
  then have iv: "unlocked s1" "log_wf s1" "log_outstanding s1 = int (length us)" by (simp_all add: log_inv_def)
  let ?b = "base + n"
  have b: "?b \<notin> logged s1" "home s1 ?b" "?b < FSSIZE" using Suc.prems(4) s1(3,4) by auto
  have lk: "LogLock \<notin> set (held s1)" "lh_n s1 < LOGSIZE" "lh_n s1 < log_size s1 - 1" "1 \<le> log_outstanding s1"
    using iv assms(2) Suc.prems(2,3) s1(2) sz by (simp_all add: unlocked_def)
  obtain s2 where s2: "log_write ?b (bset (log_dev s1) ?b (replicate BSIZE 0) s1) = Ok s2" "log_frame s1 s2"
      "lh_n s2 = lh_n s1 + 1" "logged s2 = insert ?b (logged s1)"
    using log_write_wf [OF iv(2) lk b(2,3), of "replicate BSIZE 0"] b(1) by auto
  have "log_step (s1, us[i := n]) (s2, us[i := n, i := Suc (us[i := n] ! i)])"
    by (rule log_step.write_step [OF _ _ b(2,3) _ s2(1)]) (use assms(2) Suc.prems(1) in auto)
  then have "log_step\<^sup>*\<^sup>* (s, us) (s2, us[i := Suc n])" using s1(1) assms(2) by simp
  moreover have "home s2 = home s" using log_frame_area [OF s2(2)] s1(4) by simp
  ultimately show ?case using s2(3,4) s1(2,3) by (intro exI [of _ s2]) auto
qed

text \<open>
  C8. The log that mkfs lays out has \<open>LOGSIZE\<close> blocks, header included, while \<open>begin_op\<close> hands
  out \<open>LOGSIZE\<close> blocks for data: three system calls within their reservations reach a state in
  which one of them has logged nine of its ten blocks and its next \<open>log_write\<close> panics.
\<close>

theorem log_overflow_at_mkfs_size:
  fixes s0 :: "'a logst_scheme"
  assumes init: "log_init s0" and size: "log_size s0 = LOGSIZE" and data: "\<forall>b\<in>{1000..1100}. home s0 b"
  shows "\<exists>s. log_step\<^sup>*\<^sup>* (s0, []) (s, [10, 10, 9]) \<and> log_write b s = Err (Panic ''too big a transaction'')"
proof -
  have inv0: "log_inv (s0, [])" using init by (simp add: log_init_def log_inv_def reservation_def)
  let ?o = "\<lambda>n. s0\<lparr>log_outstanding := n\<rparr>"
  have b: "log_step (?o n, us) (?o (n + 1), us @ [0])" if "n \<le> 2" for n us
    by (rule log_step.begin_step) (use that init in \<open>auto simp: begin_op_eq log_init_def unlocked_def\<close>)
  have "s0 = ?o 0" using init by (intro logst.equality) (simp_all add: log_init_def)
  then have r: "log_step\<^sup>*\<^sup>* (s0, []) (?o 3, [0, 0, 0])"
    using b [of 0 "[]"] b [of 1 "[0]"] b [of 2 "[0, 0]"] by (simp add: rtranclp.rtrancl_into_rtrancl)
  note i3 = log_reachable_inv [OF r inv0]
  have h: "home (?o 3) = home s0" by (simp add: home_def fun_eq_iff)
  have e: "lh_n (?o 3) = 0" "logged (?o 3) = {}" using init by (simp_all add: log_init_def logged_def)
  obtain s1 where s1: "log_step\<^sup>*\<^sup>* (?o 3, [0, 0, 0]) (s1, [10, 0, 0])" "lh_n s1 = 10" "logged s1 = {1000..<1010}" "home s1 = home s0"
    using write_run [of "?o 3" "[0, 0, 0]" 0 10 1000] i3 h e size data by auto
  note i1 = log_reachable_inv [OF s1(1) conjunct1 [OF i3]]
  obtain s2 where s2: "log_step\<^sup>*\<^sup>* (s1, [10, 0, 0]) (s2, [10, 10, 0])" "lh_n s2 = 20" "logged s2 = {1000..<1020}" "home s2 = home s0"
    using write_run [of s1 "[10, 0, 0]" 1 10 1010] i1 i3 s1 size data by fastforce
  note i2 = log_reachable_inv [OF s2(1) conjunct1 [OF i1]]
  obtain s3 where s3: "log_step\<^sup>*\<^sup>* (s2, [10, 10, 0]) (s3, [10, 10, 9])" "lh_n s3 = 29"
    using write_run [of s2 "[10, 10, 0]" 2 9 1020] i1 i2 i3 s2 size data by fastforce
  have "log_size s3 = LOGSIZE" using log_reachable_inv [OF s3(1) conjunct1 [OF i2]] i1 i2 i3 size by simp
  then have "log_write b s3 = Err (Panic ''too big a transaction'')" using s3(2) by (simp add: log_write_def)
  moreover have "log_step\<^sup>*\<^sup>* (s0, []) (s3, [10, 10, 9])" using r s1(1) s2(1) s3(1) by (meson rtranclp_trans)
  ultimately show ?thesis by blast
qed

theorem log_overflow_at_mkfs_size_witness:
  "\<exists>s. log_step\<^sup>*\<^sup>* (log_idle 30, []) (s, [10, 10, 9]) \<and> log_write 7 s = Err (Panic ''too big a transaction'')"
  by (rule log_overflow_at_mkfs_size [OF log_idle_init]) (auto simp: log_idle_def log_demo_def home_def)

end
