(* ===== verification/Sleeplock.thy ===== *)
theory Sleeplock
  imports Ptable
begin

text \<open>
  Sleep locks, sleeplock.c. The spin lock inside a sleep lock is held only within these routines;
  a caller that finds the lock taken goes to sleep on it.
\<close>

record sleeplock =
  sl_locked :: bool
  sl_pid :: int

abbreviation unlocked_sl :: sleeplock where
  "unlocked_sl \<equiv> \<lparr>sl_locked = False, sl_pid = 0\<rparr>"

definition initsleeplock :: sleeplock where
  "initsleeplock = \<lparr>sl_locked = False, sl_pid = 0\<rparr>"

definition acquiresleep :: "chan \<Rightarrow> sleeplock \<Rightarrow> 'a kst_scheme \<Rightarrow> (sleeplock \<times> 'a kst_scheme) result" where
  "acquiresleep c lk s = rbind (acquire (SleepLk c) s) (\<lambda>s.
     if sl_locked lk then Err (Sleeps c)
     else case curproc s of
       None \<Rightarrow> Err (Fault ''myproc'')
     | Some p \<Rightarrow> rbind (release (SleepLk c) s) (\<lambda>s.
         Ok (lk\<lparr>sl_locked := True, sl_pid := p_pid (procs (pt s) p)\<rparr>, s)))"

definition releasesleep :: "chan \<Rightarrow> sleeplock \<Rightarrow> 'a kst_scheme \<Rightarrow> (sleeplock \<times> 'a kst_scheme) result" where
  "releasesleep c lk s = rbind (acquire (SleepLk c) s) (\<lambda>s.
     rbind (wakeup c s) (\<lambda>s.
     rbind (release (SleepLk c) s) (\<lambda>s.
     Ok (lk\<lparr>sl_locked := False, sl_pid := 0\<rparr>, s))))"

definition holdingsleep :: "chan \<Rightarrow> sleeplock \<Rightarrow> 'a kst_scheme \<Rightarrow> (bool \<times> 'a kst_scheme) result" where
  "holdingsleep c lk s = rbind (acquire (SleepLk c) s) (\<lambda>s.
     rbind (release (SleepLk c) s) (\<lambda>s. Ok (sl_locked lk, s)))"

lemma acquiresleep_ok [kernel_simps]:
  "SleepLk c \<notin> set (held s) \<Longrightarrow> \<not> sl_locked lk \<Longrightarrow> curproc s = Some p \<Longrightarrow>
   acquiresleep c lk s = Ok (\<lparr>sl_locked = True, sl_pid = p_pid (procs (pt s) p)\<rparr>, s)"
  by (cases lk) (simp add: acquiresleep_def acquire_def release_def)

lemma acquiresleep_waits:
  "SleepLk c \<notin> set (held s) \<Longrightarrow> sl_locked lk \<Longrightarrow> acquiresleep c lk s = Err (Sleeps c)"
  by (simp add: acquiresleep_def acquire_def)

lemma releasesleep_ok [kernel_simps]:
  "SleepLk c \<notin> set (held s) \<Longrightarrow> PtableLock \<notin> set (held s) \<Longrightarrow>
   releasesleep c lk s = Ok (unlocked_sl, s\<lparr>pt := wakeup1 (Some c) (pt s)\<rparr>)"
  by (cases lk) (simp add: releasesleep_def acquire_def release_def wakeup_eq)

lemma holdingsleep_ok [kernel_simps]:
  "SleepLk c \<notin> set (held s) \<Longrightarrow> holdingsleep c lk s = Ok (sl_locked lk, s)"
  by (simp add: holdingsleep_def acquire_def release_def)

text \<open>
  A sleep lock admits one process: after \<open>acquiresleep\<close> every further \<open>acquiresleep\<close> waits, until
  \<open>releasesleep\<close>, which makes the waiting processes runnable.
\<close>

lemma sleeplock_exclusive:
  assumes "held s = []" "curproc s = Some p" "\<not> sl_locked lk"
  shows "\<exists>lk'. acquiresleep c lk s = Ok (lk', s) \<and> sl_pid lk' = p_pid (procs (pt s) p)
    \<and> acquiresleep c lk' s = Err (Sleeps c)
    \<and> (\<exists>lk'' s'. releasesleep c lk' s = Ok (lk'', s') \<and> \<not> sl_locked lk''
        \<and> (\<forall>q<length (pt_proc (pt s)). p_state (procs (pt s') q) = SLEEPING \<longrightarrow> p_chan (procs (pt s') q) \<noteq> Some c))"
  using assms by (simp add: kernel_simps acquiresleep_waits procs_wakeup1)

end
