(* ===== verification/Balloc.thy ===== *)
theory Balloc
  imports Log Sleeplock Mlfq
begin

text \<open>
  The block layer of fs.c: \<open>bzero\<close>, \<open>balloc\<close> and \<open>bfree\<close> on the free bitmap. The state of the file
  system extends the log's with the superblock and the cached inodes. \<open>used\<close> is the abstract
  bitmap; \<open>balloc\<close> returns the first block that is not in it, zeroed, and adds it, \<open>bfree\<close> removes
  one.
\<close>

section \<open>State of the file system\<close>

abbreviation (input) ROOTDEV :: nat where "ROOTDEV \<equiv> 1"
abbreviation (input) BPB :: nat where "BPB \<equiv> 4096"
abbreviation (input) IPB :: nat where "IPB \<equiv> 8"
abbreviation (input) NDIRECT :: nat where "NDIRECT \<equiv> 10"
abbreviation (input) NINDIRECT :: nat where "NINDIRECT \<equiv> 128"

text \<open>\<open>struct inode\<close> of file.h; the \<open>short\<close> fields as signed numbers.\<close>

record inode =
  i_dev :: nat
  i_inum :: nat
  i_ref :: int
  i_lock :: sleeplock
  i_valid :: bool
  i_type :: int
  i_major :: int
  i_minor :: int
  i_nlink :: int
  i_size :: nat
  i_addrs :: "nat list"

text \<open>
  \<open>devsw_read\<close> and \<open>devsw_write\<close> are the device switch: a device's routine takes the device's
  state (the bytes waiting to be read and the bytes written) and returns the result of the call.
\<close>

type_synonym devst = "bytes \<times> bytes"

record fsst = logst +
  sb :: superblock
  icache :: "inode list"
  devsw_read :: "int \<Rightarrow> (nat \<Rightarrow> devst \<Rightarrow> (int \<times> bytes \<times> devst) result) option"
  devsw_write :: "int \<Rightarrow> (bytes \<Rightarrow> devst \<Rightarrow> (int \<times> devst) result) option"
  devstate :: devst

definition BBLOCK :: "nat \<Rightarrow> superblock \<Rightarrow> nat" where
  "BBLOCK b z = b div BPB + sb_bmapstart z"

definition IBLOCK :: "nat \<Rightarrow> superblock \<Rightarrow> nat" where
  "IBLOCK i z = i div IPB + sb_inodestart z"

section \<open>Operations\<close>

definition bzero :: "nat \<Rightarrow> nat \<Rightarrow> 'a fsst_scheme \<Rightarrow> 'a fsst_scheme result" where
  "bzero dev bno s =
     rbind (bread dev bno s) (\<lambda>s.
     rbind (log_write bno (bset dev bno (replicate BSIZE 0) s)) (\<lambda>s.
     brelse dev bno s))"

text \<open>\<open>bp->data[bi/8] & (1 << (bi % 8))\<close>, and setting and clearing that bit.\<close>

definition bmap_bit :: "nat \<Rightarrow> uchar" where
  "bmap_bit bi = push_bit (bi mod 8) 1"

definition bit_free :: "bytes \<Rightarrow> nat \<Rightarrow> bool" where
  "bit_free d bi \<longleftrightarrow> d ! (bi div 8) AND bmap_bit bi = 0"

definition bit_mark :: "bytes \<Rightarrow> nat \<Rightarrow> bytes" where
  "bit_mark d bi = d[bi div 8 := d ! (bi div 8) OR bmap_bit bi]"

definition bit_clear :: "bytes \<Rightarrow> nat \<Rightarrow> bytes" where
  "bit_clear d bi = d[bi div 8 := d ! (bi div 8) AND NOT (bmap_bit bi)]"

text \<open>\<open>balloc_loop dev nblk b\<close>: the outer loop from block \<open>b\<close> on; \<open>nblk\<close> is \<open>sb.size\<close>.\<close>

function balloc_loop :: "nat \<Rightarrow> nat \<Rightarrow> nat \<Rightarrow> 'a fsst_scheme \<Rightarrow> (nat \<times> 'a fsst_scheme) result" where
  "balloc_loop dev nblk b s =
     (if b < nblk then
        let bb = BBLOCK b (sb s) in
        rbind (bread dev bb s) (\<lambda>s.
        case search (bit_free (blk s dev bb)) 0 (min BPB (nblk - b)) of
          Some bi \<Rightarrow>
            rbind (log_write bb (bset dev bb (bit_mark (blk s dev bb) bi) s)) (\<lambda>s.
            rbind (brelse dev bb s) (\<lambda>s.
            rbind (bzero dev (b + bi) s) (\<lambda>s.
            Ok (b + bi, s))))
        | None \<Rightarrow> rbind (brelse dev bb s) (balloc_loop dev nblk (b + BPB)))
      else Err (Panic ''balloc: out of blocks''))"
  by pat_completeness auto
termination by (relation "measure (\<lambda>(dev, nblk, b, s). nblk - b)") auto

declare balloc_loop.simps [simp del]

definition balloc :: "nat \<Rightarrow> 'a fsst_scheme \<Rightarrow> (nat \<times> 'a fsst_scheme) result" where
  "balloc dev s = balloc_loop dev (sb_size (sb s)) 0 s"

definition bfree :: "nat \<Rightarrow> nat \<Rightarrow> 'a fsst_scheme \<Rightarrow> 'a fsst_scheme result" where
  "bfree dev b s =
     rbind (readsb dev s) (\<lambda>(sb', s).
     let s = s\<lparr>sb := sb'\<rparr>; bb = BBLOCK b (sb s); bi = b mod BPB in
     rbind (bread dev bb s) (\<lambda>s.
     if bit_free (blk s dev bb) bi then Err (Panic ''freeing free block'')
     else rbind (log_write bb (bset dev bb (bit_clear (blk s dev bb) bi) s)) (\<lambda>s.
       brelse dev bb s)))"

section \<open>What block operations leave alone\<close>

definition blk_frame :: "'a fsst_scheme \<Rightarrow> 'a fsst_scheme \<Rightarrow> bool" where
  "blk_frame s s' \<longleftrightarrow> log_frame s s' \<and> disk s' = disk s \<and> wtrace s' = wtrace s"

lemma blk_frame_refl [simp]: "blk_frame s s"
  by (simp add: blk_frame_def)

lemma blk_frame_trans: "blk_frame s s1 \<Longrightarrow> blk_frame s1 s2 \<Longrightarrow> blk_frame s s2"
  using log_frame_trans by (auto simp: blk_frame_def)

lemma blk_frameD:
  fixes s s' :: "'a fsst_scheme"
  assumes "blk_frame s s'"
  shows "held s' = held s" "curproc s' = curproc s" "bheld s' = bheld s" "log_size s' = log_size s"
    "log_outstanding s' = log_outstanding s" "log_dev s' = log_dev s" "log_start s' = log_start s"
    "sb s' = sb s" "icache s' = icache s" "devsw_read s' = devsw_read s" "devsw_write s' = devsw_write s"
    "devstate s' = devstate s" "fsst.more s' = fsst.more s"
  using assms by (cases s; cases s'; simp add: blk_frame_def log_frame_def)+

text \<open>Room in the log for \<open>k\<close> more blocks, inside a transaction and with no spin lock held.\<close>

definition room :: "nat \<Rightarrow> 'a logst_scheme \<Rightarrow> bool" where
  "room k s \<longleftrightarrow> held s = [] \<and> 0 \<le> lh_n s \<and> lh_n s + int k \<le> LOGSIZE \<and> lh_n s + int k \<le> log_size s - 1
     \<and> 1 \<le> log_outstanding s \<and> length (lh_block s) = 30"

lemma room_mono: "room k s \<Longrightarrow> j \<le> k \<Longrightarrow> room j s"
  by (simp add: room_def)

lemma room_free: "room k s \<Longrightarrow> held s = []"
  by (simp add: room_def)

text \<open>Reading a block and releasing it, and replacing the content of a block.\<close>

lemma log_write_fs:
  fixes s :: "'a fsst_scheme"
  assumes "room (Suc k) s"
  shows "\<exists>s'. log_write b s = Ok s' \<and> blk_frame s s' \<and> blk s' = blk s \<and> room k s'"
proof -
  obtain bs n where "log_write b s = Ok (s\<lparr>lh_block := bs, lh_n := n\<rparr>)" "length bs = 30"
      "lh_n s \<le> n" "n \<le> lh_n s + 1"
    by (rule log_write_room [of s b]) (use assms in \<open>auto simp: room_def\<close>)
  then show ?thesis using assms by (auto simp: blk_frame_def log_frame_def room_def)
qed

lemma brelse_fs:
  fixes s :: "'a fsst_scheme"
  assumes "held s = []" "(dev, b) \<in> set (bheld s)"
  shows "\<exists>s'. brelse dev b s = Ok s' \<and> blk_frame (s\<lparr>bheld := remove1 (dev, b) (bheld s)\<rparr>) s' \<and> blk s' = blk s
    \<and> lh_n s' = lh_n s \<and> lh_block s' = lh_block s"
  using assms by (auto simp: kernel_simps blk_frame_def log_frame_def)

lemma read_block_ok:
  fixes s :: "'a fsst_scheme"
  assumes "held s = []" "(dev, b) \<notin> set (bheld s)" "b < FSSIZE"
  shows "bread dev b s = Ok (s\<lparr>bheld := (dev, b) # bheld s\<rparr>)"
    "\<exists>s'. brelse dev b (s\<lparr>bheld := (dev, b) # bheld s\<rparr>) = Ok s' \<and> blk_frame s s' \<and> blk s' = blk s
      \<and> lh_n s' = lh_n s \<and> lh_block s' = lh_block s"
proof -
  show "bread dev b s = Ok (s\<lparr>bheld := (dev, b) # bheld s\<rparr>)" using assms by (simp add: kernel_simps)
  show "\<exists>s'. brelse dev b (s\<lparr>bheld := (dev, b) # bheld s\<rparr>) = Ok s' \<and> blk_frame s s' \<and> blk s' = blk s
      \<and> lh_n s' = lh_n s \<and> lh_block s' = lh_block s"
    using brelse_fs [of "s\<lparr>bheld := (dev, b) # bheld s\<rparr>" dev b] assms
    by (auto simp: blk_frame_def log_frame_def)
qed

text \<open>
  The file system's interface to the log: a predicate \<open>before\<close> under which blocks that satisfy
  \<open>ok\<close> can be logged, and \<open>after\<close> that holds then. Both depend only on the log.
\<close>

locale log_space =
  fixes before after :: "'a fsst_scheme \<Rightarrow> bool" and ok :: "nat \<Rightarrow> bool"
  assumes log_block: "before s \<Longrightarrow> ok b \<Longrightarrow> \<exists>s'. log_write b s = Ok s' \<and> blk_frame s s' \<and> blk s' = blk s \<and> after s'"
    and before_held: "before s \<Longrightarrow> held s = []"
    and after_held: "after s \<Longrightarrow> held s = []"
    and before_cong: "before s \<Longrightarrow> held s' = held s \<Longrightarrow> log_size s' = log_size s \<Longrightarrow>
      log_outstanding s' = log_outstanding s \<Longrightarrow> lh_n s' = lh_n s \<Longrightarrow> lh_block s' = lh_block s \<Longrightarrow> before s'"
    and after_cong: "after s \<Longrightarrow> held s' = held s \<Longrightarrow> log_size s' = log_size s \<Longrightarrow>
      log_outstanding s' = log_outstanding s \<Longrightarrow> lh_n s' = lh_n s \<Longrightarrow> lh_block s' = lh_block s \<Longrightarrow> after s'"
begin

lemma write_block:
  assumes "before s" "ok b" "(dev, b) \<notin> set (bheld s)"
  shows "\<exists>s'. rbind (log_write b (bset dev b d (s\<lparr>bheld := (dev, b) # bheld s\<rparr>))) (brelse dev b) = Ok s'
    \<and> blk_frame s s' \<and> blk s' = set_block dev b d (blk s) \<and> after s'"
proof -
  let ?s = "bset dev b d (s\<lparr>bheld := (dev, b) # bheld s\<rparr>)"
  have "before ?s" by (rule before_cong [OF assms(1)]) simp_all
  then obtain s1 where s1: "log_write b ?s = Ok s1" "blk_frame ?s s1" "blk s1 = blk ?s" "after s1"
    using log_block assms(2) by blast
  have h: "held s1 = []" "(dev, b) \<in> set (bheld s1)" "bheld s1 = (dev, b) # bheld s"
    using s1(4) blk_frameD [OF s1(2)] after_held by simp_all
  obtain s2 where s2: "brelse dev b s1 = Ok s2" "blk_frame (s1\<lparr>bheld := bheld s\<rparr>) s2" "blk s2 = blk s1"
      "lh_n s2 = lh_n s1" "lh_block s2 = lh_block s1"
    using brelse_fs [OF h(1,2)] h(3) by auto
  have "blk_frame s s2" using s1(2) s2(2) h(3) by (auto simp: blk_frame_def log_frame_def)
  moreover have "after s2" by (rule after_cong [OF s1(4)]) (use blk_frameD [OF s2(2)] s2(4,5) in simp_all)
  ultimately show ?thesis using s1 s2 by auto
qed

end

text \<open>Logging a fixed number of blocks, and logging any number of times blocks of a fixed set.\<close>

interpretation rm: log_space "room (Suc k)" "room k" "\<lambda>_. True" for k
proof
  show "\<exists>s'. log_write b s = Ok s' \<and> blk_frame s s' \<and> blk s' = blk s \<and> room k s'"
    if "room (Suc k) s" for s :: "'a fsst_scheme" and b
    using log_write_fs [OF that] .
qed (auto simp: room_def)

definition room_set :: "nat set \<Rightarrow> 'a logst_scheme \<Rightarrow> bool" where
  "room_set S s \<longleftrightarrow> held s = [] \<and> finite S \<and> 0 \<le> lh_n s \<and> lh_n s + int (card (S - logged s)) < LOGSIZE
     \<and> lh_n s + int (card (S - logged s)) < log_size s - 1 \<and> 1 \<le> log_outstanding s \<and> length (lh_block s) = 30"

interpretation rs: log_space "room_set S" "room_set S" "\<lambda>b. b \<in> S" for S
proof
  fix s :: "'a fsst_scheme" and b assume r: "room_set S s" and b: "b \<in> S"
  obtain bs n where lw: "log_write b s = Ok (s\<lparr>lh_block := bs, lh_n := n\<rparr>)" "length bs = 30"
      "lh_n s \<le> n" "n \<le> lh_n s + 1" "logged (s\<lparr>lh_block := bs, lh_n := n\<rparr>) = insert b (logged s)"
    by (rule log_write_room [of s b]) (use r in \<open>auto simp: room_set_def\<close>)
  have "n + int (card (S - insert b (logged s))) \<le> lh_n s + int (card (S - logged s))"
  proof (cases "b \<in> logged s")
    case True
    then have "log_write b s = Ok s" using r by (intro log_write_ok(1)) (auto simp: room_set_def)
    then have "s\<lparr>lh_block := bs, lh_n := n\<rparr> = s" using lw(1) by simp
    from arg_cong [OF this, of lh_n] have "n = lh_n s" by simp
    then show ?thesis using True by (simp add: insert_absorb)
  next
    case False
    then have "card (S - logged s) = Suc (card (S - insert b (logged s)))"
      using b r by (intro card.remove [of "S - logged s" b, THEN trans]) (auto simp: room_set_def Diff_insert [symmetric])
    then show ?thesis using lw(4) by simp
  qed
  then have "room_set S (s\<lparr>lh_block := bs, lh_n := n\<rparr>)" using r lw by (auto simp: room_set_def)
  then show "\<exists>s'. log_write b s = Ok s' \<and> blk_frame s s' \<and> blk s' = blk s \<and> room_set S s'"
    using lw(1) by (auto simp: blk_frame_def log_frame_def)
qed (auto simp: room_set_def logged_def)

lemmas write_block_ok = rm.write_block [OF _ TrueI]

lemma room_cong: "blk_frame s s' \<Longrightarrow> lh_n s' = lh_n s \<Longrightarrow> lh_block s' = lh_block s \<Longrightarrow> room k s' = room k s"
  by (simp add: room_def blk_frame_def log_frame_def)

section \<open>The bitmap\<close>

lemma bit_free_iff: "bit_free d bi \<longleftrightarrow> \<not> bit (d ! (bi div 8)) (bi mod 8)"
  by (simp add: bit_free_def bmap_bit_def push_bit_eq_mult and_exp_eq_0_iff_not_bit)

lemma bmap_bit_bit: "j < 8 \<Longrightarrow> bit (bmap_bit bi) j \<longleftrightarrow> j = bi mod 8"
  by (auto simp: bmap_bit_def bit_simps)

lemma div_mod_8_eq: "(x::nat) div 8 = y div 8 \<Longrightarrow> x mod 8 = y mod 8 \<Longrightarrow> x = y"
  by (metis div_mult_mod_eq)

lemma bit_free_mark:
  assumes "length d = BSIZE" "bi < BPB" "bj < BPB"
  shows "bit_free (bit_mark d bi) bj \<longleftrightarrow> bit_free d bj \<and> bj \<noteq> bi"
proof -
  have l: "bi div 8 < length d" "bj mod 8 < 8" using assms by simp_all
  have "bit (bit_mark d bi ! (bj div 8)) (bj mod 8)
      \<longleftrightarrow> bit (d ! (bj div 8)) (bj mod 8) \<or> (bi div 8 = bj div 8 \<and> bj mod 8 = bi mod 8)"
    using l(1) by (cases "bi div 8 = bj div 8") (simp_all add: bit_mark_def bit_or_iff bmap_bit_bit [OF l(2)])
  moreover have "(bi div 8 = bj div 8 \<and> bj mod 8 = bi mod 8) \<longleftrightarrow> bj = bi" using div_mod_8_eq by metis
  ultimately show ?thesis by (simp only: bit_free_iff) blast
qed

lemma bit_free_clear:
  assumes "length d = BSIZE" "bi < BPB" "bj < BPB"
  shows "bit_free (bit_clear d bi) bj \<longleftrightarrow> bit_free d bj \<or> bj = bi"
proof -
  have l: "bi div 8 < length d" "bj mod 8 < 8" using assms by simp_all
  have "bit (bit_clear d bi ! (bj div 8)) (bj mod 8)
      \<longleftrightarrow> bit (d ! (bj div 8)) (bj mod 8) \<and> \<not> (bi div 8 = bj div 8 \<and> bj mod 8 = bi mod 8)"
    using l(1) by (cases "bi div 8 = bj div 8")
      (simp_all add: bit_clear_def bit_and_iff bit_not_iff bmap_bit_bit [OF l(2)])
  moreover have "(bi div 8 = bj div 8 \<and> bj mod 8 = bi mod 8) \<longleftrightarrow> bj = bi" using div_mod_8_eq by metis
  ultimately show ?thesis by (simp only: bit_free_iff) blast
qed

lemma length_bit_mark [simp]: "length (bit_mark d bi) = length d"
  and length_bit_clear [simp]: "length (bit_clear d bi) = length d"
  by (simp_all add: bit_mark_def bit_clear_def)

definition used :: "nat \<Rightarrow> 'a fsst_scheme \<Rightarrow> nat \<Rightarrow> bool" where
  "used dev s b \<longleftrightarrow> \<not> bit_free (blk s dev (BBLOCK b (sb s))) (b mod BPB)"

text \<open>The first data block: the boot block, the superblock, the log, the inodes and the bitmap come before.\<close>

definition dstart :: "superblock \<Rightarrow> nat" where
  "dstart z = sb_bmapstart z + sb_size z div BPB + 1"

definition fs_wf :: "nat \<Rightarrow> 'a fsst_scheme \<Rightarrow> bool" where
  "fs_wf dev s \<longleftrightarrow> sb_of (blk s dev 1) = sb s \<and> sb_size (sb s) \<le> FSSIZE
     \<and> 1 < sb_inodestart (sb s) \<and> sb_inodestart (sb s) + sb_ninodes (sb s) div IPB < sb_bmapstart (sb s)
     \<and> dstart (sb s) \<le> sb_size (sb s) \<and> (\<forall>b<dstart (sb s). used dev s b)
     \<and> (\<forall>b. length (blk s dev b) = BSIZE)"

text \<open>The blocks whose buffers the caller holds are allocated data blocks.\<close>

definition held_data :: "nat \<Rightarrow> 'a fsst_scheme \<Rightarrow> bool" where
  "held_data dev s \<longleftrightarrow> (\<forall>y. (dev, y) \<in> set (bheld s) \<longrightarrow> dstart (sb s) \<le> y \<and> y < sb_size (sb s) \<and> used dev s y)"

lemma BBLOCK_bounds: "b < sb_size z \<Longrightarrow> sb_bmapstart z \<le> BBLOCK b z \<and> BBLOCK b z < dstart z"
  by (simp add: BBLOCK_def dstart_def div_le_mono less_Suc_eq_le)

lemma BBLOCK_same: "BBLOCK b z = BBLOCK c z \<Longrightarrow> b mod BPB = c mod BPB \<Longrightarrow> b = c"
  by (metis BBLOCK_def add_right_cancel div_mult_mod_eq)

text \<open>The state after the bit of block \<open>b\<close> has been set or cleared.\<close>

lemma used_set_bit:
  assumes "sb s' = sb s"
    "\<And>c. BBLOCK b (sb s) \<noteq> c \<Longrightarrow> sb_bmapstart (sb s) \<le> c \<Longrightarrow> c < dstart (sb s) \<Longrightarrow> blk s' dev c = blk s dev c"
    "blk s' dev (BBLOCK b (sb s)) = (if m then bit_mark else bit_clear) (blk s dev (BBLOCK b (sb s))) (b mod BPB)"
    "length (blk s dev (BBLOCK b (sb s))) = BSIZE" "c < sb_size (sb s)"
  shows "used dev s' c = (if c = b then m else used dev s c)"
proof (cases "BBLOCK c (sb s) = BBLOCK b (sb s)")
  case True
  then show ?thesis using assms BBLOCK_same [of c "sb s" b]
    by (auto simp: used_def bit_free_mark bit_free_clear)
next
  case False
  then have "c \<noteq> b" by auto
  moreover have "blk s' dev (BBLOCK c (sb s)) = blk s dev (BBLOCK c (sb s))"
    using assms(2) False BBLOCK_bounds [OF assms(5)] by metis
  ultimately show ?thesis using assms(1) by (simp add: used_def)
qed

section \<open>Allocating and freeing\<close>

lemma fs_wf_cong:
  assumes "fs_wf dev s" "sb s' = sb s" "blk s' dev = blk s dev"
  shows "fs_wf dev s'"
  using assms by (simp add: fs_wf_def used_def)

lemma held_data_cong: "sb s' = sb s \<Longrightarrow> blk s' dev = blk s dev \<Longrightarrow> bheld s' = bheld s \<Longrightarrow> held_data dev s' = held_data dev s"
  by (simp add: held_data_def used_def)

lemma bzero_ok:
  fixes s :: "'a fsst_scheme"
  assumes "room (Suc k) s" "(dev, b) \<notin> set (bheld s)" "b < FSSIZE"
  shows "\<exists>s'. bzero dev b s = Ok s' \<and> blk_frame s s' \<and> blk s' = set_block dev b (replicate BSIZE 0) (blk s) \<and> room k s'"
  using write_block_ok [OF assms(1,2), of "replicate BSIZE 0"] read_block_ok(1) [OF room_free [OF assms(1)] assms(2,3)]
  by (simp add: bzero_def)

text \<open>The effect of \<open>balloc\<close> on the state, when it returns block \<open>b\<close>.\<close>

definition ballocated :: "nat \<Rightarrow> nat \<Rightarrow> 'a fsst_scheme \<Rightarrow> 'a fsst_scheme \<Rightarrow> bool" where
  "ballocated dev b s s' \<longleftrightarrow> blk_frame s s' \<and> fs_wf dev s' \<and> dstart (sb s) \<le> b \<and> b < sb_size (sb s)
     \<and> \<not> used dev s b \<and> (\<forall>c < sb_size (sb s). used dev s' c \<longleftrightarrow> c = b \<or> used dev s c)
     \<and> blk s' dev b = replicate BSIZE 0
     \<and> (\<forall>c. c \<noteq> b \<longrightarrow> c < sb_bmapstart (sb s) \<or> dstart (sb s) \<le> c \<longrightarrow> blk s' dev c = blk s dev c)"

lemma fs_wf_bit:
  assumes w: "fs_wf dev s" and sb: "sb s' = sb s" and len: "\<forall>b. length (blk s' dev b) = BSIZE"
    and c: "\<forall>c < sb_bmapstart (sb s). blk s' dev c = blk s dev c"
    and u: "\<forall>c<dstart (sb s). used dev s' c"
  shows "fs_wf dev s'"
proof -
  have "1 < sb_bmapstart (sb s)" using w by (simp add: fs_wf_def)
  then have "blk s' dev 1 = blk s dev 1" using c by blast
  then show ?thesis using w sb len u by (simp add: fs_wf_def)
qed

lemma balloc_found:
  fixes s :: "'a fsst_scheme"
  assumes w: "fs_wf dev s" and h: "held_data dev s" and r: "room (Suc (Suc k)) s"
    and b: "b mod BPB = 0" "bi < BPB" "b + bi < sb_size (sb s)" and free: "\<not> used dev s (b + bi)"
  defines "bb \<equiv> BBLOCK b (sb s)" and "t \<equiv> s\<lparr>bheld := (dev, BBLOCK b (sb s)) # bheld s\<rparr>"
  shows "\<exists>s'. rbind (log_write bb (bset dev bb (bit_mark (blk t dev bb) bi) t)) (\<lambda>s.
            rbind (brelse dev bb s) (\<lambda>s. rbind (bzero dev (b + bi) s) (\<lambda>s. Ok (b + bi, s)))) = Ok (b + bi, s')
    \<and> ballocated dev (b + bi) s s' \<and> room k s'"
proof -
  have wf: "sb_size (sb s) \<le> FSSIZE" "\<And>c. length (blk s dev c) = BSIZE" "\<And>c. c < dstart (sb s) \<Longrightarrow> used dev s c"
      "dstart (sb s) \<le> sb_size (sb s)"
    using w by (auto simp: fs_wf_def)
  have bb: "BBLOCK (b + bi) (sb s) = bb" "(b + bi) mod BPB = bi"
    using b by (auto simp: bb_def BBLOCK_def)
  then have bbr: "sb_bmapstart (sb s) \<le> bb" "bb < dstart (sb s)" using BBLOCK_bounds [OF b(3)] by auto
  have ds: "dstart (sb s) \<le> b + bi" using wf(3) free by (meson not_le)
  have nh: "(dev, bb) \<notin> set (bheld s)" "(dev, b + bi) \<notin> set (bheld s)"
    using h bbr free by (auto simp: held_data_def)
  obtain s1 where s1: "rbind (log_write bb (bset dev bb (bit_mark (blk s dev bb) bi) t)) (brelse dev bb) = Ok s1"
      "blk_frame s s1" "blk s1 = set_block dev bb (bit_mark (blk s dev bb) bi) (blk s)" "room (Suc k) s1"
    using write_block_ok [OF r nh(1), of "bit_mark (blk s dev bb) bi"] unfolding t_def bb_def by (elim exE conjE)
  note f1 = blk_frameD [OF s1(2)]
  obtain s2 where s2: "bzero dev (b + bi) s1 = Ok s2" "blk_frame s1 s2"
      "blk s2 = set_block dev (b + bi) (replicate BSIZE 0) (blk s1)" "room k s2"
    using bzero_ok [OF s1(4), of dev "b + bi"] nh(2) f1 b(3) wf(1) by auto
  have fr: "blk_frame s s2" using s1(2) s2(2) by (rule blk_frame_trans)
  note f2 = blk_frameD [OF fr]
  have B: "blk s2 dev c = (if c = b + bi then replicate BSIZE 0 else if c = bb then bit_mark (blk s dev bb) bi else blk s dev c)" for c
    using s1(3) s2(3) by (simp add: set_block_apply)
  have u: "used dev s2 c \<longleftrightarrow> c = b + bi \<or> used dev s c" if "c < sb_size (sb s)" for c
    using used_set_bit [of s2 s "b + bi" dev True c] f2(8) B bb bbr ds wf(2) that by auto
  have "fs_wf dev s2"
    by (rule fs_wf_bit [OF w f2(8)]) (use B wf u bbr ds in auto)
  then have "ballocated dev (b + bi) s s2"
    using fr ds b(3) free u B bbr by (auto simp: ballocated_def)
  moreover have "rbind (log_write bb (bset dev bb (bit_mark (blk t dev bb) bi) t)) (\<lambda>s.
            rbind (brelse dev bb s) (\<lambda>s. rbind (bzero dev (b + bi) s) (\<lambda>s. Ok (b + bi, s))))
      = rbind (rbind (log_write bb (bset dev bb (bit_mark (blk s dev bb) bi) t)) (brelse dev bb))
          (\<lambda>s. rbind (bzero dev (b + bi) s) (\<lambda>s. Ok (b + bi, s)))"
    by (simp add: t_def)
  ultimately show ?thesis using s1(1) s2(1,4) by auto
qed

lemma ballocated_frame:
  assumes "blk_frame s s1" "blk s1 = blk s" "ballocated dev b s1 s'"
  shows "ballocated dev b s s'"
  using assms blk_frame_trans [of s s1 s'] blk_frameD(8) [OF assms(1)] by (simp add: ballocated_def used_def)

lemma balloc_loop_ok:
  fixes s :: "'a fsst_scheme"
  assumes "fs_wf dev s" "held_data dev s" "room (Suc (Suc k)) s" "b mod BPB = 0" "n = sb_size (sb s)"
    "c < n" "\<not> used dev s c" "\<forall>c'<c. used dev s c'" "b \<le> c"
  shows "\<exists>s'. balloc_loop dev n b s = Ok (c, s') \<and> ballocated dev c s s' \<and> room k s'"
  using assms
proof (induction dev n b s rule: balloc_loop.induct)
  case (1 dev n b s)
  let ?bb = "BBLOCK b (sb s)"
  let ?t = "s\<lparr>bheld := (dev, ?bb) # bheld s\<rparr>"
  have b: "b < n" using 1 by simp
  have bbr: "sb_bmapstart (sb s) \<le> ?bb" "?bb < dstart (sb s)" using BBLOCK_bounds [of b "sb s"] b 1 by auto
  have lim: "?bb < FSSIZE" "(dev, ?bb) \<notin> set (bheld s)" using 1 bbr by (auto simp: fs_wf_def held_data_def)
  note rd = read_block_ok [OF room_free [OF 1(4)] lim(2,1)]
  have bit: "bit_free (blk s dev ?bb) bi \<longleftrightarrow> \<not> used dev s (b + bi)" if "bi < BPB" for bi
    using that 1(5) by (auto simp: used_def BBLOCK_def)
  show ?case
  proof (cases "c < b + BPB")
    case True
    have "search (bit_free (blk s dev ?bb)) 0 (min BPB (n - b)) = Some (c - b)"
      unfolding search_Some
    proof (intro conjI allI impI)
      show "c - b < min BPB (n - b)" using True 1(7,10) by auto
      show "bit_free (blk s dev ?bb) (c - b)" using bit [of "c - b"] True 1(8,10) by simp
      fix j assume "j < c - b"
      then have j: "j < BPB" "b + j < c" using True by simp_all
      then have "used dev s (b + j)" using 1(9) by blast
      then show "\<not> bit_free (blk s dev ?bb) j" using bit [OF j(1)] by simp
    qed simp
    moreover have "b + (c - b) = c" using 1 by simp
    moreover have "c - b < BPB" using True by simp
    ultimately show ?thesis
      using balloc_found [OF 1(2-5), of "c - b"] rd(1) b 1
      by (simp add: balloc_loop.simps [of dev "sb_size (sb s)" b s] Let_def)
  next
    case False
    have sn: "search (bit_free (blk s dev ?bb)) 0 (min BPB (n - b)) = None"
      unfolding search_None
    proof (intro allI impI)
      fix j assume "j < min BPB (n - b)"
      then have j: "j < BPB" "b + j < c" using False by simp_all
      then have "used dev s (b + j)" using 1(9) by blast
      then show "\<not> bit_free (blk s dev ?bb) j" using bit [OF j(1)] by simp
    qed
    then have e: "balloc_loop dev n b s = rbind (brelse dev ?bb ?t) (balloc_loop dev n (b + BPB))"
      using rd(1) b by (simp add: balloc_loop.simps [of dev n b s] Let_def)
    obtain s1 where s1: "brelse dev ?bb ?t = Ok s1" "blk_frame s s1" "blk s1 = blk s" "lh_n s1 = lh_n s" "lh_block s1 = lh_block s"
      using rd(2) by blast
    note f1 = blk_frameD [OF s1(2)]
    have us: "used dev s1 = used dev s" using f1(8) s1(3) by (simp add: used_def fun_eq_iff)
    have IH: "\<exists>s'. balloc_loop dev n (b + BPB) s1 = Ok (c, s') \<and> ballocated dev c s1 s' \<and> room k s'"
    proof (rule 1(1) [OF b, of ?bb ?t])
      show "fs_wf dev s1" using fs_wf_cong [OF 1(2) f1(8)] s1(3) by simp
      show "held_data dev s1" using held_data_cong [OF f1(8) _ f1(3)] 1(3) s1(3) by simp
      show "room (Suc (Suc k)) s1" using 1(4) room_cong [OF s1(2,4,5)] by simp
      show "(b + BPB) mod BPB = 0" using 1(5) by simp
      show "n = sb_size (sb s1)" using 1(6) f1(8) by simp
      show "\<not> used dev s1 c" "\<forall>c'<c. used dev s1 c'" using 1(8,9) us by simp_all
      show "b + BPB \<le> c" using False by simp
    qed (use 1(7) sn in simp_all)
    then show ?thesis using e s1 ballocated_frame [OF s1(2,3)] by auto
  qed
qed

lemma balloc_panics:
  fixes s :: "'a fsst_scheme"
  assumes "fs_wf dev s" "held_data dev s" "held s = []" "n = sb_size (sb s)" "\<forall>c < n. used dev s c"
    "b mod BPB = 0"
  shows "balloc_loop dev n b s = Err (Panic ''balloc: out of blocks'')"
  using assms
proof (induction dev n b s rule: balloc_loop.induct)
  case (1 dev n b s)
  let ?bb = "BBLOCK b (sb s)"
  show ?case
  proof (cases "b < n")
    case True
    let ?t = "s\<lparr>bheld := (dev, ?bb) # bheld s\<rparr>"
    have bbr: "sb_bmapstart (sb s) \<le> ?bb" "?bb < dstart (sb s)" using BBLOCK_bounds [of b "sb s"] True 1 by auto
    have lim: "?bb < FSSIZE" "(dev, ?bb) \<notin> set (bheld s)" using 1 bbr by (auto simp: fs_wf_def held_data_def)
    note rd = read_block_ok [OF 1(4) lim(2,1)]
    have bit: "bit_free (blk s dev ?bb) bi \<longleftrightarrow> \<not> used dev s (b + bi)" if "bi < BPB" for bi
      using that 1(7) by (auto simp: used_def BBLOCK_def)
    have sn: "search (bit_free (blk s dev ?bb)) 0 (min BPB (n - b)) = None"
      unfolding search_None
    proof (intro allI impI)
      fix j assume "j < min BPB (n - b)"
      then have j: "j < BPB" "b + j < n" by linarith+
      then have "used dev s (b + j)" using 1(6) by blast
      then show "\<not> bit_free (blk s dev ?bb) j" using bit [OF j(1)] by simp
    qed
    obtain s1 where s1: "brelse dev ?bb ?t = Ok s1" "blk_frame s s1" "blk s1 = blk s"
      using rd(2) by blast
    note f1 = blk_frameD [OF s1(2)]
    have us: "used dev s1 = used dev s" using f1(8) s1(3) by (simp add: used_def fun_eq_iff)
    have "balloc_loop dev n (b + BPB) s1 = Err (Panic ''balloc: out of blocks'')"
    proof (rule 1(1) [OF True, of ?bb ?t])
      show "fs_wf dev s1" using fs_wf_cong [OF 1(2) f1(8)] s1(3) by simp
      show "held_data dev s1" using held_data_cong [OF f1(8) _ f1(3)] 1(3) s1(3) by simp
      show "n = sb_size (sb s1)" "held s1 = []" using 1(4,5) f1 by simp_all
      show "\<forall>c < n. used dev s1 c" using 1(6) us by simp
    qed (use 1(7) sn in simp_all)
    then show ?thesis using True rd(1) sn s1(1) by (simp add: balloc_loop.simps [of dev n b s] Let_def)
  next
    case False
    then show ?thesis by (simp add: balloc_loop.simps [of dev n b s])
  qed
qed

text \<open>\<open>balloc\<close> for its callers: some free block is returned, allocated and zeroed.\<close>

lemma balloc_ok:
  fixes s :: "'a fsst_scheme"
  assumes "fs_wf dev s" "held_data dev s" "room (Suc (Suc k)) s" "c < sb_size (sb s)" "\<not> used dev s c"
  obtains b s' where "balloc dev s = Ok (b, s')" "ballocated dev b s s'" "room k s'" "b \<le> c" "\<forall>c<b. used dev s c"
proof -
  have "\<exists>c. c < sb_size (sb s) \<and> \<not> used dev s c" using assms(4,5) by blast
  then obtain b where b: "b < sb_size (sb s)" "\<not> used dev s b"
      and l: "\<forall>c'<b. \<not> (c' < sb_size (sb s) \<and> \<not> used dev s c')"
    unfolding exists_least_iff [of "\<lambda>c. c < sb_size (sb s) \<and> \<not> used dev s c"] by blast
  have u: "\<forall>c'<b. used dev s c'" using l b(1) less_trans by blast
  then have "b \<le> c" using assms(5) not_le by blast
  then show ?thesis
    using that [of b] balloc_loop_ok [OF assms(1-3) _ refl b u, of 0] u unfolding balloc_def by auto
qed

text \<open>The effect of \<open>bfree\<close> of block \<open>b\<close>.\<close>

definition bfreed :: "nat \<Rightarrow> nat \<Rightarrow> 'a fsst_scheme \<Rightarrow> 'a fsst_scheme \<Rightarrow> bool" where
  "bfreed dev b s s' \<longleftrightarrow> blk_frame s s' \<and> fs_wf dev s'
     \<and> (\<forall>c < sb_size (sb s). used dev s' c \<longleftrightarrow> c \<noteq> b \<and> used dev s c)
     \<and> (\<forall>c. c < sb_bmapstart (sb s) \<or> dstart (sb s) \<le> c \<longrightarrow> blk s' dev c = blk s dev c)"

context log_space
begin

lemma bfree_block:
  assumes w: "fs_wf dev s" and h: "held_data dev s" and r: "before s" "ok (BBLOCK b (sb s))"
    and b: "dstart (sb s) \<le> b" "b < sb_size (sb s)"
  shows "used dev s b \<Longrightarrow> \<exists>s'. bfree dev b s = Ok s' \<and> bfreed dev b s s' \<and> after s'"
    "\<not> used dev s b \<Longrightarrow> bfree dev b s = Err (Panic ''freeing free block'')"
proof -
  let ?bb = "BBLOCK b (sb s)"
  have wf: "sb_of (blk s dev 1) = sb s" "sb_size (sb s) \<le> FSSIZE" "\<And>c. length (blk s dev c) = BSIZE"
      "1 < sb_bmapstart (sb s)" "dstart (sb s) \<le> sb_size (sb s)" "\<And>c. c < dstart (sb s) \<Longrightarrow> used dev s c"
    using w by (auto simp: fs_wf_def)
  have bbr: "sb_bmapstart (sb s) \<le> ?bb" "?bb < dstart (sb s)" using BBLOCK_bounds [OF b(2)] by auto
  have lim: "?bb < FSSIZE" "(dev, ?bb) \<notin> set (bheld s)" "(dev, 1) \<notin> set (bheld s)"
    using h bbr wf b by (fastforce simp: held_data_def)+
  obtain t where t: "readsb dev s = Ok (sb s, repl_pt t s)"
    using readsb_ok [OF lim(3), of] before_held [OF r(1)] wf(1) by auto
  let ?s = "repl_pt t s"
  have e: "?s\<lparr>sb := sb s\<rparr> = ?s" by (simp add: repl_pt_def)
  have f: "sb ?s = sb s" "blk ?s = blk s" "bheld ?s = bheld s" "before ?s" "blk_frame s ?s"
    using before_cong [OF r(1), of "repl_pt t s"] by (simp_all add: repl_pt_def blk_frame_def log_frame_def)
  note rd = read_block_ok [OF before_held [OF f(4)], of dev ?bb]
  have u: "used dev s b \<longleftrightarrow> \<not> bit_free (blk s dev ?bb) (b mod BPB)" by (simp add: used_def)
  have eq: "bfree dev b s = (if \<not> used dev s b then Err (Panic ''freeing free block'')
     else rbind (log_write ?bb (bset dev ?bb (bit_clear (blk s dev ?bb) (b mod BPB)) (?s\<lparr>bheld := (dev, ?bb) # bheld ?s\<rparr>)))
       (brelse dev ?bb))"
    using t f rd(1) lim u by (simp add: bfree_def Let_def e)
  then show "\<not> used dev s b \<Longrightarrow> bfree dev b s = Err (Panic ''freeing free block'')" by simp
  assume ub: "used dev s b"
  obtain s' where s': "rbind (log_write ?bb (bset dev ?bb (bit_clear (blk s dev ?bb) (b mod BPB)) (?s\<lparr>bheld := (dev, ?bb) # bheld ?s\<rparr>)))
       (brelse dev ?bb) = Ok s'" "blk_frame ?s s'" "blk s' = set_block dev ?bb (bit_clear (blk s dev ?bb) (b mod BPB)) (blk s)" "after s'"
    using write_block [OF f(4) r(2), of dev "bit_clear (blk s dev ?bb) (b mod BPB)"] lim(2) f(2,3) by auto
  have fr: "blk_frame s s'" using f(5) s'(2) by (rule blk_frame_trans)
  note f2 = blk_frameD [OF fr]
  have B: "blk s' dev c = (if c = ?bb then bit_clear (blk s dev ?bb) (b mod BPB) else blk s dev c)" for c
    using s'(3) by (simp add: set_block_apply)
  have us: "used dev s' c \<longleftrightarrow> c \<noteq> b \<and> used dev s c" if "c < sb_size (sb s)" for c
    using used_set_bit [of s' s b dev False c] f2(8) B wf(3) that by auto
  have "fs_wf dev s'"
    by (rule fs_wf_bit [OF w f2(8)]) (use B wf us bbr b in auto)
  then have "bfreed dev b s s'" using fr us B bbr by (auto simp: bfreed_def)
  then show "\<exists>s'. bfree dev b s = Ok s' \<and> bfreed dev b s s' \<and> after s'"
    using eq ub s' by auto
qed

end

lemmas bfree_ok = rm.bfree_block [OF _ _ _ TrueI]

section \<open>Properties\<close>

text \<open>
  C10. With room in the log, \<open>balloc\<close> returns the first free block of the bitmap, zeroed and marked,
  and changes no other data block and no other bit; freeing that block with \<open>bfree\<close> restores the
  bitmap; \<open>balloc\<close> panics exactly when no block is free, and \<open>bfree\<close> of a free block panics.
\<close>

theorem balloc_bfree_correct:
  fixes s :: "'a fsst_scheme"
  assumes w: "fs_wf dev s" and h: "held_data dev s" and r: "room 3 s"
  shows "((\<exists>c < sb_size (sb s). \<not> used dev s c) \<longrightarrow>
      (\<exists>b s' s''. balloc dev s = Ok (b, s') \<and> (\<forall>c<b. used dev s c) \<and> \<not> used dev s b
        \<and> dstart (sb s) \<le> b \<and> b < sb_size (sb s) \<and> blk s' dev b = replicate BSIZE 0
        \<and> (\<forall>c < sb_size (sb s). used dev s' c \<longleftrightarrow> c = b \<or> used dev s c)
        \<and> (\<forall>c. dstart (sb s) \<le> c \<longrightarrow> c \<noteq> b \<longrightarrow> blk s' dev c = blk s dev c)
        \<and> bfree dev b s' = Ok s'' \<and> (\<forall>c < sb_size (sb s). used dev s'' c = used dev s c)))
    \<and> ((\<forall>c < sb_size (sb s). used dev s c) \<longrightarrow> balloc dev s = Err (Panic ''balloc: out of blocks''))
    \<and> (\<forall>b. dstart (sb s) \<le> b \<longrightarrow> b < sb_size (sb s) \<longrightarrow> \<not> used dev s b \<longrightarrow>
        bfree dev b s = Err (Panic ''freeing free block''))"
proof (intro conjI impI allI)
  have r3: "room (Suc (Suc (Suc 0))) s" using r by (simp add: eval_nat_numeral)
  assume "\<exists>c < sb_size (sb s). \<not> used dev s c"
  then obtain c where "c < sb_size (sb s)" "\<not> used dev s c" by blast
  then obtain b s' where b: "balloc dev s = Ok (b, s')" "ballocated dev b s s'" "room (Suc 0) s'" "\<forall>c<b. used dev s c"
    using balloc_ok [OF w h r3] by blast
  note f = blk_frameD [OF conjunct1 [OF b(2) [unfolded ballocated_def]]]
  have "held_data dev s'" using h b(2) f(3,8) by (auto simp: held_data_def ballocated_def)
  then obtain s'' where "bfree dev b s' = Ok s''" "bfreed dev b s' s''"
    using bfree_ok(1) [of dev s' 0 b] b f(8) by (auto simp: ballocated_def)
  then show "\<exists>b s' s''. balloc dev s = Ok (b, s') \<and> (\<forall>c<b. used dev s c) \<and> \<not> used dev s b
        \<and> dstart (sb s) \<le> b \<and> b < sb_size (sb s) \<and> blk s' dev b = replicate BSIZE 0
        \<and> (\<forall>c < sb_size (sb s). used dev s' c \<longleftrightarrow> c = b \<or> used dev s c)
        \<and> (\<forall>c. dstart (sb s) \<le> c \<longrightarrow> c \<noteq> b \<longrightarrow> blk s' dev c = blk s dev c)
        \<and> bfree dev b s' = Ok s'' \<and> (\<forall>c < sb_size (sb s). used dev s'' c = used dev s c)"
    using b f(8) by (intro exI [of _ b] exI [of _ s'] exI [of _ s'']) (auto simp: ballocated_def bfreed_def)
next
  assume "\<forall>c < sb_size (sb s). used dev s c"
  then show "balloc dev s = Err (Panic ''balloc: out of blocks'')"
    using balloc_panics [OF w h room_free [OF r] refl] by (simp add: balloc_def)
next
  fix b assume "dstart (sb s) \<le> b" "b < sb_size (sb s)" "\<not> used dev s b"
  then show "bfree dev b s = Err (Panic ''freeing free block'')"
    using bfree_ok(2) [OF w h room_mono [OF r], of 0] by simp
qed

text \<open>
  A small file system: 100 blocks, the log at block 2, inodes at 32, the bitmap at 35 and data from
  36 on, all free; one cached and locked inode of type \<open>T_FILE\<close>.
\<close>

definition sb_demo :: superblock where
  "sb_demo = \<lparr>sb_size = 100, sb_nblocks = 64, sb_ninodes = 16, sb_nlog = 30, sb_logstart = 2,
     sb_inodestart = 32, sb_bmapstart = 35\<rparr>"

definition sb_block :: "superblock \<Rightarrow> bytes" where
  "sb_block z = concat (map (le_bytes 4) [sb_size z, sb_nblocks z, sb_ninodes z, sb_nlog z, sb_logstart z,
     sb_inodestart z, sb_bmapstart z]) @ replicate (BSIZE - 28) 0"

definition fresh_bitmap :: "nat \<Rightarrow> bytes" where
  "fresh_bitmap n = fold (\<lambda>i d. bit_mark d i) [0..<n] (replicate BSIZE 0)"

definition ino_demo :: inode where
  "ino_demo = \<lparr>i_dev = 1, i_inum = 1, i_ref = 1, i_lock = \<lparr>sl_locked = True, sl_pid = 0\<rparr>, i_valid = True,
     i_type = 2, i_major = 0, i_minor = 0, i_nlink = 1, i_size = 0, i_addrs = replicate 13 0\<rparr>"

definition ino_free :: inode where
  "ino_free = \<lparr>i_dev = 0, i_inum = 0, i_ref = 0, i_lock = unlocked_sl, i_valid = False,
     i_type = 0, i_major = 0, i_minor = 0, i_nlink = 0, i_size = 0, i_addrs = replicate 13 0\<rparr>"

definition fs_demo :: fsst where
  "fs_demo = \<lparr>held = [], curproc = Some 0, pt = zero_ptable, kmem_use_lock = True, kmem_freelist = 0,
     pages = (\<lambda>_. []), kern_end = 0, disk = (\<lambda>_ _. replicate BSIZE 0),
     blk = set_block 1 1 (sb_block sb_demo) (set_block 1 35 (fresh_bitmap 36) (\<lambda>_ _. replicate BSIZE 0)),
     bheld = [], wtrace = [], log_start = 2, log_size = 30, log_outstanding = 1, log_committing = False,
     log_dev = 1, lh_n = 0, lh_block = replicate 30 0, sb = sb_demo,
     icache = ino_demo # replicate 49 ino_free,
     devsw_read = Map.empty, devsw_write = Map.empty, devstate = ([], [])\<rparr>"

lemma bit_free_fresh: "n \<le> BPB \<Longrightarrow> length (fresh_bitmap n) = BSIZE \<and> (\<forall>bi<BPB. bit_free (fresh_bitmap n) bi \<longleftrightarrow> n \<le> bi)"
proof (induction n)
  case 0
  then show ?case by (auto simp: fresh_bitmap_def bit_free_def)
next
  case (Suc n)
  then have IH: "length (fresh_bitmap n) = BSIZE" "\<forall>bi<BPB. bit_free (fresh_bitmap n) bi \<longleftrightarrow> n \<le> bi" by auto
  have "fresh_bitmap (Suc n) = bit_mark (fresh_bitmap n) n" by (simp add: fresh_bitmap_def)
  then show ?case using IH bit_free_mark [OF IH(1), of n] Suc.prems by auto
qed

lemma get_u32_append1: "length a = 4 \<Longrightarrow> get_u32 (a @ r) 0 = le_val a"
  and get_u32_append2: "length a = 4 \<Longrightarrow> get_u32 (a @ r) (4 + n) = get_u32 r n"
  by (simp_all add: get_u32_def slice_def)

lemma sb_of_block:
  assumes "sb_size z < 2 ^ 32" "sb_nblocks z < 2 ^ 32" "sb_ninodes z < 2 ^ 32" "sb_nlog z < 2 ^ 32"
    "sb_logstart z < 2 ^ 32" "sb_inodestart z < 2 ^ 32" "sb_bmapstart z < 2 ^ 32"
  shows "sb_of (sb_block z) = z" "length (sb_block z) = BSIZE"
proof -
  have n: "4 * 1 = 4 + (0::nat)" "4 * 2 = 4 + (4 + (0::nat))" "4 * 3 = 4 + (4 + (4 + (0::nat)))"
     "4 * 4 = 4 + (4 + (4 + (4 + (0::nat))))" "4 * 5 = 4 + (4 + (4 + (4 + (4 + (0::nat)))))"
     "4 * 6 = 4 + (4 + (4 + (4 + (4 + (4 + (0::nat))))))" "4 * 0 = (0::nat)" by simp_all
  show "sb_of (sb_block z) = z"
    using assms unfolding sb_of_def sb_block_def n
    by (intro superblock.equality)
      (simp_all only: concat.simps list.map append_assoc get_u32_append2 get_u32_append1 length_le_bytes le_val_bytes superblock.simps, simp_all)
  show "length (sb_block z) = BSIZE" by (simp add: sb_block_def)
qed

lemma fs_demo_simps:
  "sb fs_demo = sb_demo" "bheld fs_demo = []" "held fs_demo = []" "room 29 fs_demo"
  "blk fs_demo 1 b = (if b = 1 then sb_block sb_demo else if b = 35 then fresh_bitmap 36 else replicate BSIZE 0)"
  by (simp_all add: fs_demo_def room_def set_block_apply)

lemma used_demo: "b < 100 \<Longrightarrow> used 1 fs_demo b \<longleftrightarrow> b < 36"
proof -
  assume "b < 100"
  then have "b div BPB = 0" "b mod BPB = b" "b < BPB" by simp_all
  then show ?thesis using bit_free_fresh [of 36] 
    by (auto simp: used_def BBLOCK_def fs_demo_simps sb_demo_def simp del: One_nat_def)
qed

lemma fs_wf_demo: "fs_wf 1 fs_demo" "held_data 1 fs_demo"
proof -
  have "sb_of (sb_block sb_demo) = sb_demo" "length (sb_block sb_demo) = BSIZE"
    by (rule sb_of_block; simp add: sb_demo_def)+
  then show "fs_wf 1 fs_demo"
    using used_demo bit_free_fresh [of 36] 
    by (auto simp: fs_wf_def fs_demo_simps dstart_def simp del: One_nat_def)
      (auto simp: sb_demo_def simp del: One_nat_def)
qed (simp add: held_data_def fs_demo_simps)

theorem balloc_bfree_correct_witness:
  "\<exists>s' s''. balloc 1 fs_demo = Ok (36, s') \<and> blk s' 1 36 = replicate BSIZE 0 \<and> bfree 1 36 s' = Ok s''"
proof -
  have "36 < sb_size (sb fs_demo)" "\<not> used 1 fs_demo 36" "dstart (sb fs_demo) = 36"
    using used_demo [of 36] by (simp_all add: fs_demo_simps sb_demo_def dstart_def del: One_nat_def)
  moreover obtain b s' s'' where b: "balloc 1 fs_demo = Ok (b, s')" "\<forall>c<b. used 1 fs_demo c" "dstart (sb fs_demo) \<le> b"
      "blk s' 1 b = replicate BSIZE 0" "bfree 1 b s' = Ok s''"
    using balloc_bfree_correct [OF fs_wf_demo room_mono [OF fs_demo_simps(4)]] calculation(1,2) by fastforce
  ultimately have "b = 36" by (metis le_antisym not_le)
  with b show ?thesis by blast
qed

end
