(* ===== verification/Inode.thy ===== *)
theory Inode
  imports Balloc
begin

text \<open>
  In-memory inodes (fs.c): the inode cache with \<open>iget\<close> and \<open>idup\<close>, the on-disk inodes with
  \<open>ialloc\<close> and \<open>iupdate\<close>, and the inode lock with \<open>ilock\<close> and \<open>iunlock\<close>. A \<open>struct inode *\<close> is
  the index of its entry in \<open>icache.inode\<close>.
\<close>

section \<open>On-disk inodes\<close>

abbreviation (input) NINODE :: nat where "NINODE \<equiv> 50"
abbreviation (input) T_DIR :: int where "T_DIR \<equiv> 1"
abbreviation (input) T_FILE :: int where "T_FILE \<equiv> 2"
abbreviation (input) T_DEV :: int where "T_DEV \<equiv> 3"

record dinode =
  d_type :: int
  d_major :: int
  d_minor :: int
  d_nlink :: int
  d_size :: nat
  d_addrs :: "nat list"

text \<open>The 64 bytes of a \<open>struct dinode\<close>, and reading one at byte \<open>off\<close> of a block.\<close>

definition dinode_bytes :: "dinode \<Rightarrow> bytes" where
  "dinode_bytes x = le_bytes 2 (to_short (d_type x)) @ le_bytes 2 (to_short (d_major x))
     @ le_bytes 2 (to_short (d_minor x)) @ le_bytes 2 (to_short (d_nlink x)) @ le_bytes 4 (d_size x)
     @ concat (map (le_bytes 4) (d_addrs x))"

definition get_dinode :: "bytes \<Rightarrow> nat \<Rightarrow> dinode" where
  "get_dinode d off = \<lparr>d_type = of_short (get_u16 d off), d_major = of_short (get_u16 d (off + 2)),
     d_minor = of_short (get_u16 d (off + 4)), d_nlink = of_short (get_u16 d (off + 6)),
     d_size = get_u32 d (off + 8), d_addrs = map (\<lambda>k. get_u32 d (off + 12 + 4 * k)) [0..<13]\<rparr>"

definition dinode_off :: "nat \<Rightarrow> nat" where
  "dinode_off inum = inum mod IPB * 64"

section \<open>Operations\<close>

abbreviation ino :: "'a fsst_scheme \<Rightarrow> nat \<Rightarrow> inode" where
  "ino s ip \<equiv> icache s ! ip"

definition upd_ino :: "nat \<Rightarrow> (inode \<Rightarrow> inode) \<Rightarrow> 'a fsst_scheme \<Rightarrow> 'a fsst_scheme" where
  "upd_ino ip f s = s\<lparr>icache := (icache s)[ip := f (ino s ip)]\<rparr>"

definition iinit :: "nat \<Rightarrow> 'a fsst_scheme \<Rightarrow> 'a fsst_scheme result" where
  "iinit dev s =
     rbind (readsb dev (s\<lparr>icache := map (\<lambda>i. i\<lparr>i_lock := initsleeplock\<rparr>) (icache s)\<rparr>)) (\<lambda>(z, s).
     Ok (s\<lparr>sb := z\<rparr>))"

definition iget :: "nat \<Rightarrow> nat \<Rightarrow> 'a fsst_scheme \<Rightarrow> (nat \<times> 'a fsst_scheme) result" where
  "iget dev inum s = rbind (acquire IcacheLock s) (\<lambda>s.
     case search (\<lambda>i. i_ref (ino s i) > 0 \<and> i_dev (ino s i) = dev \<and> i_inum (ino s i) = inum) 0 NINODE of
       Some ip \<Rightarrow> rbind (release IcacheLock (upd_ino ip (\<lambda>i. i\<lparr>i_ref := i_ref i + 1\<rparr>) s)) (\<lambda>s. Ok (ip, s))
     | None \<Rightarrow> (case search (\<lambda>i. i_ref (ino s i) = 0) 0 NINODE of
         None \<Rightarrow> Err (Panic ''iget: no inodes'')
       | Some ip \<Rightarrow> rbind (release IcacheLock (upd_ino ip (\<lambda>i. i\<lparr>i_dev := dev, i_inum := inum, i_ref := 1,
             i_valid := False\<rparr>) s)) (\<lambda>s. Ok (ip, s))))"

definition idup :: "nat \<Rightarrow> 'a fsst_scheme \<Rightarrow> (nat \<times> 'a fsst_scheme) result" where
  "idup ip s = rbind (acquire IcacheLock s) (\<lambda>s.
     rbind (release IcacheLock (upd_ino ip (\<lambda>i. i\<lparr>i_ref := i_ref i + 1\<rparr>) s)) (\<lambda>s. Ok (ip, s)))"

text \<open>\<open>ialloc_loop dev type inums\<close>: the loop over the inode numbers that are left.\<close>

fun ialloc_loop :: "nat \<Rightarrow> int \<Rightarrow> nat list \<Rightarrow> 'a fsst_scheme \<Rightarrow> (nat \<times> 'a fsst_scheme) result" where
  "ialloc_loop dev ty [] s = Err (Panic ''ialloc: no inodes'')"
| "ialloc_loop dev ty (inum # inums) s =
     (let b = IBLOCK inum (sb s); off = dinode_off inum in
      rbind (bread dev b s) (\<lambda>s.
      if d_type (get_dinode (blk s dev b) off) = 0 then
        rbind (log_write b (bset dev b (put_u16 (blit (blk s dev b) off (replicate 64 0)) off (to_short ty)) s)) (\<lambda>s.
        rbind (brelse dev b s) (\<lambda>s.
        iget dev inum s))
      else rbind (brelse dev b s) (ialloc_loop dev ty inums)))"

definition ialloc :: "nat \<Rightarrow> int \<Rightarrow> 'a fsst_scheme \<Rightarrow> (nat \<times> 'a fsst_scheme) result" where
  "ialloc dev ty s = ialloc_loop dev ty [1..<sb_ninodes (sb s)] s"

definition ino_dinode :: "inode \<Rightarrow> dinode" where
  "ino_dinode i = \<lparr>d_type = i_type i, d_major = i_major i, d_minor = i_minor i, d_nlink = i_nlink i,
     d_size = i_size i, d_addrs = i_addrs i\<rparr>"

definition iupdate :: "nat \<Rightarrow> 'a fsst_scheme \<Rightarrow> 'a fsst_scheme result" where
  "iupdate ip s =
     (let dev = i_dev (ino s ip); inum = i_inum (ino s ip); b = IBLOCK inum (sb s) in
      rbind (bread dev b s) (\<lambda>s.
      rbind (log_write b (bset dev b (blit (blk s dev b) (dinode_off inum)
          (dinode_bytes (ino_dinode (ino s ip)))) s)) (\<lambda>s.
      brelse dev b s)))"

text \<open>
  \<open>ilock\<close> reads the inode from disk when the entry is not valid. \<open>struct inode *ip\<close> is not null in
  any call, so the test \<open>ip == 0\<close> has no counterpart.
\<close>

definition ilock :: "nat \<Rightarrow> 'a fsst_scheme \<Rightarrow> 'a fsst_scheme result" where
  "ilock ip s =
     (if i_ref (ino s ip) < 1 then Err (Panic ''ilock'')
      else rbind (acquiresleep (ChanInode ip) (i_lock (ino s ip)) s) (\<lambda>(lk, s).
        let s = upd_ino ip (\<lambda>i. i\<lparr>i_lock := lk\<rparr>) s in
        if i_valid (ino s ip) then Ok s
        else
          let dev = i_dev (ino s ip); inum = i_inum (ino s ip); b = IBLOCK inum (sb s) in
          rbind (bread dev b s) (\<lambda>s.
          let x = get_dinode (blk s dev b) (dinode_off inum) in
          rbind (brelse dev b (upd_ino ip (\<lambda>i. i\<lparr>i_type := d_type x, i_major := d_major x,
              i_minor := d_minor x, i_nlink := d_nlink x, i_size := d_size x, i_addrs := d_addrs x\<rparr>) s)) (\<lambda>s.
          let s = upd_ino ip (\<lambda>i. i\<lparr>i_valid := True\<rparr>) s in
          if i_type (ino s ip) = 0 then Err (Panic ''ilock: no type'') else Ok s))))"

definition iunlock :: "nat \<Rightarrow> 'a fsst_scheme \<Rightarrow> 'a fsst_scheme result" where
  "iunlock ip s =
     rbind (holdingsleep (ChanInode ip) (i_lock (ino s ip)) s) (\<lambda>(h, s).
     if \<not> h \<or> i_ref (ino s ip) < 1 then Err (Panic ''iunlock'')
     else rbind (releasesleep (ChanInode ip) (i_lock (ino s ip)) s) (\<lambda>(lk, s).
       Ok (upd_ino ip (\<lambda>i. i\<lparr>i_lock := lk\<rparr>) s)))"

section \<open>Encoding\<close>

definition dinode_ok :: "dinode \<Rightarrow> bool" where
  "dinode_ok x \<longleftrightarrow> -(2 ^ 15) \<le> d_type x \<and> d_type x < 2 ^ 15 \<and> -(2 ^ 15) \<le> d_major x \<and> d_major x < 2 ^ 15
     \<and> -(2 ^ 15) \<le> d_minor x \<and> d_minor x < 2 ^ 15 \<and> -(2 ^ 15) \<le> d_nlink x \<and> d_nlink x < 2 ^ 15
     \<and> d_size x < 2 ^ 32 \<and> length (d_addrs x) = 13 \<and> (\<forall>a\<in>set (d_addrs x). a < 2 ^ 32)"

lemma length_concat_le_bytes [simp]: "length (concat (map (le_bytes k) xs)) = k * length xs"
  by (induction xs) auto

lemma length_dinode_bytes: "dinode_ok x \<Longrightarrow> length (dinode_bytes x) = 64"
  by (simp add: dinode_bytes_def dinode_ok_def)

lemma slice_append1: "length a = n \<Longrightarrow> slice (a @ r) 0 n = a"
  by (simp add: slice_def)

lemma slice_append2: "length a \<le> off \<Longrightarrow> slice (a @ r) off n = slice r (off - length a) n"
  by (simp add: slice_def)

lemma slice_concat: "k < length xs \<Longrightarrow> slice (concat (map (le_bytes 4) xs)) (4 * k) 4 = le_bytes 4 (xs ! k)"
proof (induction xs arbitrary: k)
  case (Cons x xs)
  then show ?case by (cases k) (simp_all add: slice_append1 slice_append2)
qed simp

lemma slice_slice: "o2 + n \<le> m \<Longrightarrow> off + m \<le> length d \<Longrightarrow> slice (slice d off m) o2 n = slice d (off + o2) n"
  by (rule nth_equalityI) (simp_all add: nth_slice add.assoc)

lemma to_short_bound: "to_short i < 2 ^ 16"
  by (simp add: to_short_def nat_less_iff)

text \<open>Reading an encoded inode back, at any place of the block it is written to.\<close>

lemma get_dinode_bytes:
  assumes x: "dinode_ok x" and off: "off + 64 \<le> length d"
  shows "get_dinode (blit d off (dinode_bytes x)) off = x"
proof -
  let ?e = "dinode_bytes x" and ?b = "blit d off (dinode_bytes x)"
  have l: "length ?e = 64" using x by (rule length_dinode_bytes)
  have lb: "length ?b = length d" using l off by simp
  have se: "slice ?b off 64 = ?e" using slice_blit_same [of off ?e d] l off by simp
  have sl: "slice ?b (off + o2) n = slice ?e o2 n" if "o2 + n \<le> 64" for o2 n
    using slice_slice [of o2 n 64 off ?b] se lb off that by simp
  have z: "off = off + 0" "off + 12 + 4 * k = off + (12 + 4 * k)" for k by simp_all
  have short: "of_short (le_val (le_bytes 2 (to_short i))) = i" if "-(2 ^ 15) \<le> i" "i < 2 ^ 15" for i
    using to_short_bound [of i] of_to_short [OF that] by (simp add: le_val_bytes)
  have h: "slice ?e 0 2 = le_bytes 2 (to_short (d_type x))" "slice ?e 2 2 = le_bytes 2 (to_short (d_major x))"
    "slice ?e 4 2 = le_bytes 2 (to_short (d_minor x))" "slice ?e 6 2 = le_bytes 2 (to_short (d_nlink x))"
    "slice ?e 8 4 = le_bytes 4 (d_size x)"
    by (simp_all add: dinode_bytes_def slice_append1 slice_append2 del: le_bytes.simps)
  have a: "slice ?e (12 + 4 * k) 4 = le_bytes 4 (d_addrs x ! k)" if "k < 13" for k
    using that x by (simp add: dinode_bytes_def slice_append2 slice_concat dinode_ok_def del: le_bytes.simps)
  have "map (\<lambda>k. get_u32 ?b (off + 12 + 4 * k)) [0..<13] = d_addrs x"
  proof (rule nth_equalityI)
    fix i assume "i < length (map (\<lambda>k. get_u32 ?b (off + 12 + 4 * k)) [0..<13])"
    then have i: "i < 13" "d_addrs x ! i < 2 ^ 32" using x by (auto simp: dinode_ok_def)
    have "get_u32 ?b (off + 12 + 4 * i) = le_val (le_bytes 4 (d_addrs x ! i))"
      using i(1) a [OF i(1)] sl [of "12 + 4 * i" 4] unfolding z(2) get_u32_def by simp
    then show "map (\<lambda>k. get_u32 ?b (off + 12 + 4 * k)) [0..<13] ! i = d_addrs x ! i"
      using i by (simp add: le_val_bytes)
  qed (use x in \<open>simp add: dinode_ok_def\<close>)
  moreover have "get_u32 ?b (off + 8) = d_size x"
    using sl [of 8 4] h(5) x by (simp add: get_u32_def le_val_bytes dinode_ok_def)
  moreover have "of_short (get_u16 ?b (off + 0)) = d_type x" "of_short (get_u16 ?b (off + 2)) = d_major x"
    "of_short (get_u16 ?b (off + 4)) = d_minor x" "of_short (get_u16 ?b (off + 6)) = d_nlink x"
    unfolding get_u16_def using sl [of 0 2] sl [of 2 2] sl [of 4 2] sl [of 6 2] h x short
    by (simp_all only: dinode_ok_def)
  ultimately show ?thesis by (intro dinode.equality) (simp_all only: get_dinode_def dinode.simps add_0_right, simp)
qed

text \<open>The other inodes of the block are not touched.\<close>

lemma get_dinode_other:
  assumes "i < IPB" "j < IPB" "i \<noteq> j" "length d = BSIZE" "length e = 64"
  shows "get_dinode (blit d (i * 64) e) (j * 64) = get_dinode d (j * 64)"
proof -
  have far: "j * 64 + 64 \<le> i * 64 \<or> i * 64 + 64 \<le> j * 64" using assms(3) by arith
  have "slice (blit d (i * 64) e) (j * 64 + p) n = slice d (j * 64 + p) n" if "p + n \<le> 64" for p n
    by (rule slice_blit_other) (use assms far that in auto)
  note s = this
  have z: "j * 64 + 12 + 4 * k = j * 64 + (12 + 4 * k)" for k by simp
  have u: "get_u32 (blit d (i * 64) e) (j * 64 + 12 + 4 * k) = get_u32 d (j * 64 + 12 + 4 * k)" if "k < 13" for k
    unfolding z get_u32_def using s [of "12 + 4 * k" 4] that by simp
  then have "map (\<lambda>k. get_u32 (blit d (i * 64) e) (j * 64 + 12 + 4 * k)) [0..<13]
      = map (\<lambda>k. get_u32 d (j * 64 + 12 + 4 * k)) [0..<13]" by simp
  then show ?thesis using s [of 0 2] s [of 2 2] s [of 4 2] s [of 6 2] s [of 8 4]
    by (simp add: get_dinode_def get_u16_def get_u32_def)
qed

section \<open>Updating an entry\<close>

lemma upd_ino_simps [simp]:
  "held (upd_ino ip f s) = held s" "curproc (upd_ino ip f s) = curproc s" "pt (upd_ino ip f s) = pt s"
  "blk (upd_ino ip f s) = blk s" "disk (upd_ino ip f s) = disk s" "bheld (upd_ino ip f s) = bheld s"
  "wtrace (upd_ino ip f s) = wtrace s" "lh_n (upd_ino ip f s) = lh_n s" "lh_block (upd_ino ip f s) = lh_block s"
  "log_size (upd_ino ip f s) = log_size s" "log_outstanding (upd_ino ip f s) = log_outstanding s"
  "log_start (upd_ino ip f s) = log_start s" "log_dev (upd_ino ip f s) = log_dev s"
  "log_committing (upd_ino ip f s) = log_committing s"
  "sb (upd_ino ip f s) = sb s" "devsw_read (upd_ino ip f s) = devsw_read s" "devsw_write (upd_ino ip f s) = devsw_write s"
  "devstate (upd_ino ip f s) = devstate s" "fsst.more (upd_ino ip f s) = fsst.more s"
  "length (icache (upd_ino ip f s)) = length (icache s)"
  by (simp_all add: upd_ino_def)

lemma ino_upd_ino:
  "ip < length (icache s) \<Longrightarrow> ino (upd_ino ip f s) j = (if j = ip then f (ino s ip) else ino s j)"
  by (simp add: upd_ino_def)

lemma room_upd_ino [simp]: "room k (upd_ino ip f s) = room k s"
  by (simp add: room_def)

lemma fs_wf_upd_ino [simp]: "fs_wf dev (upd_ino ip f s) = fs_wf dev s"
  and used_upd_ino [simp]: "used dev (upd_ino ip f s) = used dev s"
  and held_data_upd_ino [simp]: "held_data dev (upd_ino ip f s) = held_data dev s"
  by (simp_all add: fs_wf_def used_def held_data_def fun_eq_iff)

section \<open>The cache\<close>

text \<open>At most one entry in use for an inode.\<close>

definition icache_ok :: "'a fsst_scheme \<Rightarrow> bool" where
  "icache_ok s \<longleftrightarrow> length (icache s) = NINODE \<and> (\<forall>i<NINODE. 0 \<le> i_ref (ino s i))
     \<and> (\<forall>i<NINODE. \<forall>j<NINODE. i_ref (ino s i) > 0 \<longrightarrow> i_ref (ino s j) > 0 \<longrightarrow>
          i_dev (ino s i) = i_dev (ino s j) \<longrightarrow> i_inum (ino s i) = i_inum (ino s j) \<longrightarrow> i = j)"

abbreviation cached :: "nat \<Rightarrow> nat \<Rightarrow> 'a fsst_scheme \<Rightarrow> nat \<Rightarrow> bool" where
  "cached dev inum s i \<equiv> i_ref (ino s i) > 0 \<and> i_dev (ino s i) = dev \<and> i_inum (ino s i) = inum"

lemma upd_ino_held [simp]: "upd_ino ip f (s\<lparr>held := h\<rparr>) = (upd_ino ip f s)\<lparr>held := h\<rparr>"
  by (simp add: upd_ino_def)

lemma iget_hit:
  assumes ok: "icache_ok s" and h: "IcacheLock \<notin> set (held s)" and ip: "ip < NINODE" "cached dev inum s ip"
  shows "iget dev inum s = Ok (ip, upd_ino ip (\<lambda>i. i\<lparr>i_ref := i_ref i + 1\<rparr>) s)"
    "icache_ok (upd_ino ip (\<lambda>i. i\<lparr>i_ref := i_ref i + 1\<rparr>) s)"
proof -
  have u: "\<And>j. j < NINODE \<Longrightarrow> cached dev inum s j \<Longrightarrow> j = ip" using ok ip by (auto simp: icache_ok_def)
  then have "search (cached dev inum s) 0 NINODE = Some ip"
    unfolding search_Some using ip by (metis le0 less_trans nless_le)
  then show "iget dev inum s = Ok (ip, upd_ino ip (\<lambda>i. i\<lparr>i_ref := i_ref i + 1\<rparr>) s)"
    using h by (simp add: iget_def kernel_simps)
  show "icache_ok (upd_ino ip (\<lambda>i. i\<lparr>i_ref := i_ref i + 1\<rparr>) s)"
    using ok ip unfolding icache_ok_def by (auto simp: ino_upd_ino)
qed

lemma iget_miss:
  assumes ok: "icache_ok s" and h: "IcacheLock \<notin> set (held s)" and no: "\<forall>i<NINODE. \<not> cached dev inum s i"
    and free: "i0 < NINODE" "i_ref (ino s i0) = 0"
  defines "new \<equiv> \<lambda>i. i\<lparr>i_dev := dev, i_inum := inum, i_ref := 1, i_valid := False\<rparr>"
  shows "\<exists>ip<NINODE. i_ref (ino s ip) = 0 \<and> iget dev inum s = Ok (ip, upd_ino ip new s) \<and> icache_ok (upd_ino ip new s)"
proof -
  have n: "search (cached dev inum s) 0 NINODE = None" using no by (simp add: search_None)
  obtain ip where ip: "search (\<lambda>i. i_ref (ino s i) = 0) 0 NINODE = Some ip"
    using search_exists [of 0 i0 NINODE "\<lambda>i. i_ref (ino s i) = 0"] free by auto
  note sp = search_SomeD [OF ip]
  have "iget dev inum s = Ok (ip, upd_ino ip new s)"
    using h n ip by (simp add: iget_def kernel_simps new_def)
  moreover have "icache_ok (upd_ino ip new s)"
    using ok sp no unfolding icache_ok_def new_def by (auto simp: ino_upd_ino)
  ultimately show ?thesis using sp by blast
qed

lemma iget_full:
  assumes "IcacheLock \<notin> set (held s)" "\<forall>i<NINODE. \<not> cached dev inum s i \<and> i_ref (ino s i) \<noteq> 0"
  shows "iget dev inum s = Err (Panic ''iget: no inodes'')"
proof -
  have "search (cached dev inum s) 0 NINODE = None" "search (\<lambda>i. i_ref (ino s i) = 0) 0 NINODE = None"
    using assms(2) by (auto simp: search_None)
  then show ?thesis using assms(1) by (simp add: iget_def kernel_simps)
qed

text \<open>What the callers of \<open>iget\<close> use.\<close>

lemma iget_ok:
  assumes ok: "icache_ok s" and h: "IcacheLock \<notin> set (held s)"
    and room: "\<exists>i<NINODE. cached dev inum s i \<or> i_ref (ino s i) = 0"
  obtains ip f where "iget dev inum s = Ok (ip, upd_ino ip f s)" "ip < NINODE" "icache_ok (upd_ino ip f s)"
    "i_dev (f (ino s ip)) = dev" "i_inum (f (ino s ip)) = inum" "i_ref (f (ino s ip)) = i_ref (ino s ip) + 1"
    "i_lock (f (ino s ip)) = i_lock (ino s ip)" "cached dev inum s ip \<or> (\<forall>i<NINODE. \<not> cached dev inum s i)"
    "cached dev inum s ip \<Longrightarrow> f (ino s ip) = (ino s ip)\<lparr>i_ref := i_ref (ino s ip) + 1\<rparr>"
    "\<not> cached dev inum s ip \<Longrightarrow> \<not> i_valid (f (ino s ip)) \<and> i_ref (ino s ip) = 0"
proof (cases "\<exists>i<NINODE. cached dev inum s i")
  case True
  then obtain ip where ip: "ip < NINODE" "cached dev inum s ip" by blast
  show ?thesis using iget_hit [OF ok h ip] ip by (intro that [of ip "\<lambda>i. i\<lparr>i_ref := i_ref i + 1\<rparr>"]) simp_all
next
  case False
  then obtain i0 where i0: "i0 < NINODE" "i_ref (ino s i0) = 0" using room by blast
  obtain ip where ip: "ip < NINODE" "i_ref (ino s ip) = 0"
      "iget dev inum s = Ok (ip, upd_ino ip (\<lambda>i. i\<lparr>i_dev := dev, i_inum := inum, i_ref := 1, i_valid := False\<rparr>) s)"
      "icache_ok (upd_ino ip (\<lambda>i. i\<lparr>i_dev := dev, i_inum := inum, i_ref := 1, i_valid := False\<rparr>) s)"
    using iget_miss [OF ok h _ i0, of dev inum] False by blast
  show ?thesis using ip False
    by (intro that [of ip "\<lambda>i. i\<lparr>i_dev := dev, i_inum := inum, i_ref := 1, i_valid := False\<rparr>"]) auto
qed

section \<open>Inodes on disk\<close>

definition dinode_at :: "nat \<Rightarrow> 'a fsst_scheme \<Rightarrow> nat \<Rightarrow> dinode" where
  "dinode_at dev s inum = get_dinode (blk s dev (IBLOCK inum (sb s))) (dinode_off inum)"

lemma IBLOCK_bounds:
  assumes "fs_wf dev s" "inum < sb_ninodes (sb s)"
  shows "1 < IBLOCK inum (sb s)" "IBLOCK inum (sb s) < sb_bmapstart (sb s)" "IBLOCK inum (sb s) < FSSIZE"
    "IBLOCK inum (sb s) < dstart (sb s)"
proof -
  have "inum div IPB \<le> sb_ninodes (sb s) div IPB" using assms(2) by (intro div_le_mono) simp
  then show b: "1 < IBLOCK inum (sb s)" "IBLOCK inum (sb s) < sb_bmapstart (sb s)"
    using assms(1) by (simp_all add: fs_wf_def IBLOCK_def)
  then show "IBLOCK inum (sb s) < FSSIZE" "IBLOCK inum (sb s) < dstart (sb s)"
    using assms(1) by (simp_all add: fs_wf_def dstart_def)
qed

lemma dinode_off_bound: "dinode_off inum + 64 \<le> BSIZE"
proof -
  have "inum mod IPB \<le> 7" using mod_less_divisor [of IPB inum] by linarith
  then show ?thesis by (simp add: dinode_off_def)
qed

text \<open>Writing 64 bytes at the place of an inode leaves every other inode and the bitmap alone.\<close>

lemma dinode_at_write:
  assumes w: "fs_wf dev s" and n: "inum < sb_ninodes (sb s)" and e: "length e = 64" and sb: "sb s' = sb s"
    and B: "blk s' = set_block dev (IBLOCK inum (sb s)) (blit (blk s dev (IBLOCK inum (sb s))) (dinode_off inum) e) (blk s)"
  shows "j \<noteq> inum \<Longrightarrow> dinode_at dev s' j = dinode_at dev s j" "fs_wf dev s'" "\<And>c. c < sb_size (sb s) \<Longrightarrow> used dev s' c = used dev s c"
    "\<And>c. dstart (sb s) \<le> c \<Longrightarrow> blk s' dev c = blk s dev c"
proof -
  note b = IBLOCK_bounds [OF w n]
  have len: "length (blk s dev c) = BSIZE" for c using w by (simp add: fs_wf_def)
  have B': "blk s' dev c = (if c = IBLOCK inum (sb s) then blit (blk s dev c) (dinode_off inum) e else blk s dev c)" for c
    using B by (simp add: set_block_apply)
  show "dinode_at dev s' j = dinode_at dev s j" if "j \<noteq> inum"
  proof (cases "IBLOCK j (sb s) = IBLOCK inum (sb s)")
    case True
    then have "inum mod IPB \<noteq> j mod IPB" using that by (metis IBLOCK_def add_right_cancel div_mult_mod_eq)
    then show ?thesis using True B' sb get_dinode_other [of "inum mod IPB" "j mod IPB" _ e] len e
      by (simp add: dinode_at_def dinode_off_def)
  qed (simp add: dinode_at_def B' sb)
  have un: "used dev s' c = used dev s c" if "c < sb_size (sb s)" for c
    using BBLOCK_bounds [OF that] b B' sb by (auto simp: used_def)
  then show "\<And>c. c < sb_size (sb s) \<Longrightarrow> used dev s' c = used dev s c" .
  have l1: "length (blit (blk s dev (IBLOCK inum (sb s))) (dinode_off inum) e) = BSIZE"
    using len e dinode_off_bound [of inum] by simp
  show "fs_wf dev s'"
    using w b B' sb un len l1 by (auto simp: fs_wf_def)
  show "\<And>c. dstart (sb s) \<le> c \<Longrightarrow> blk s' dev c = blk s dev c" using B' b by auto
qed

context log_space
begin

lemma iupdate_block:
  assumes w: "fs_wf dev s" and h: "held_data dev s" and r: "before s" "ok (IBLOCK inum (sb s))"
    and i: "i_dev (ino s ip) = dev" "i_inum (ino s ip) = inum" "inum < sb_ninodes (sb s)" "dinode_ok (ino_dinode (ino s ip))"
  shows "\<exists>s'. iupdate ip s = Ok s' \<and> blk_frame s s' \<and> after s' \<and> fs_wf dev s'
    \<and> dinode_at dev s' inum = ino_dinode (ino s ip) \<and> (\<forall>j. j \<noteq> inum \<longrightarrow> dinode_at dev s' j = dinode_at dev s j)
    \<and> (\<forall>c < sb_size (sb s). used dev s' c = used dev s c) \<and> (\<forall>c. dstart (sb s) \<le> c \<longrightarrow> blk s' dev c = blk s dev c)"
proof -
  let ?b = "IBLOCK inum (sb s)" and ?e = "dinode_bytes (ino_dinode (ino s ip))"
  note b = IBLOCK_bounds [OF w i(3)]
  have len: "length (blk s dev c) = BSIZE" for c using w by (simp add: fs_wf_def)
  have nh: "(dev, ?b) \<notin> set (bheld s)" using h b(4) by (auto simp: held_data_def)
  have e: "length ?e = 64" using i(4) by (rule length_dinode_bytes)
  note rd = read_block_ok [OF before_held [OF r(1)] nh b(3)]
  obtain s' where s': "rbind (log_write ?b (bset dev ?b (blit (blk s dev ?b) (dinode_off inum) ?e) (s\<lparr>bheld := (dev, ?b) # bheld s\<rparr>))) (brelse dev ?b) = Ok s'"
      "blk_frame s s'" "blk s' = set_block dev ?b (blit (blk s dev ?b) (dinode_off inum) ?e) (blk s)" "after s'"
    using write_block [OF r nh, of "blit (blk s dev ?b) (dinode_off inum) ?e"] by (elim exE conjE)
  note f = blk_frameD [OF s'(2)]
  have u: "iupdate ip s = Ok s'" using s'(1) rd(1) i by (simp add: iupdate_def Let_def)
  note d = dinode_at_write [OF w i(3) e f(8) s'(3)]
  have "dinode_at dev s' inum = ino_dinode (ino s ip)"
    using s'(3) f(8) get_dinode_bytes [OF i(4), of "dinode_off inum" "blk s dev ?b"] len dinode_off_bound [of inum]
    by (simp add: dinode_at_def set_block_apply)
  then show ?thesis using u s' d by blast
qed

end

lemmas iupdate_ok = rm.iupdate_block [OF _ _ _ TrueI]

section \<open>Locking\<close>

text \<open>
  The state \<open>s'\<close> is \<open>s\<close> with entry \<open>ip\<close> changed by \<open>f\<close>, up to who is awake.
\<close>

definition ino_changed :: "nat \<Rightarrow> (inode \<Rightarrow> inode) \<Rightarrow> 'a fsst_scheme \<Rightarrow> 'a fsst_scheme \<Rightarrow> bool" where
  "ino_changed ip f s s' \<longleftrightarrow> blk_frame (upd_ino ip f s) s' \<and> blk s' = blk s \<and> lh_n s' = lh_n s \<and> lh_block s' = lh_block s"

lemma more_icache_cong:
  fixes s s' :: "'a fsst_scheme"
  shows "logst.more s' = logst.more s \<Longrightarrow> logst.more (s'\<lparr>icache := y\<rparr>) = logst.more (s\<lparr>icache := y\<rparr>)"
  by (cases s; cases s'; simp)

lemma blk_frame_upd_ino: "blk_frame t s \<Longrightarrow> blk_frame (upd_ino ip f t) (upd_ino ip f s)"
  using blk_frameD(9) [of t s] more_icache_cong [of s t]
  by (auto simp: blk_frame_def log_frame_def upd_ino_def)

lemma ino_changedD:
  fixes s s' :: "'a fsst_scheme"
  assumes "ino_changed ip f s s'"
  shows "held s' = held s" "curproc s' = curproc s" "bheld s' = bheld s" "sb s' = sb s" "blk s' = blk s"
    "icache s' = (icache s)[ip := f (ino s ip)]" "room k s' = room k s" "fs_wf dev s' = fs_wf dev s"
    "held_data dev s' = held_data dev s" "used dev s' = used dev s" "dinode_at dev s' = dinode_at dev s"
proof -
  have b: "blk_frame (upd_ino ip f s) s'" "blk s' = blk s" "lh_n s' = lh_n s" "lh_block s' = lh_block s"
    using assms by (auto simp: ino_changed_def)
  note f = blk_frameD [OF b(1)]
  show g: "held s' = held s" "curproc s' = curproc s" "bheld s' = bheld s" "sb s' = sb s" "blk s' = blk s"
      "icache s' = (icache s)[ip := f (ino s ip)]"
    using f b(2) by (simp_all add: upd_ino_def)
  show "room k s' = room k s" using f b by (simp add: room_def)
  show "fs_wf dev s' = fs_wf dev s" "held_data dev s' = held_data dev s" "used dev s' = used dev s"
      "dinode_at dev s' = dinode_at dev s"
    using g by (simp_all add: fs_wf_def held_data_def used_def dinode_at_def fun_eq_iff)
qed

lemma upd_ino_upd_ino [simp]: "ip < length (icache s) \<Longrightarrow> upd_ino ip f (upd_ino ip g s) = upd_ino ip (\<lambda>i. f (g i)) s"
  by (simp add: upd_ino_def)

lemma ilock_valid:
  assumes "held s = []" "curproc s = Some p" "ip < length (icache s)" "1 \<le> i_ref (ino s ip)"
    "\<not> sl_locked (i_lock (ino s ip))" "i_valid (ino s ip)"
  shows "\<exists>lk. sl_locked lk \<and> ilock ip s = Ok (upd_ino ip (\<lambda>i. i\<lparr>i_lock := lk\<rparr>) s)"
  by (rule exI [of _ "\<lparr>sl_locked = True, sl_pid = p_pid (procs (pt s) p)\<rparr>"])
    (use assms in \<open>simp add: ilock_def kernel_simps ino_upd_ino\<close>)

lemma ilock_waits:
  "held s = [] \<Longrightarrow> 1 \<le> i_ref (ino s ip) \<Longrightarrow> sl_locked (i_lock (ino s ip)) \<Longrightarrow> ilock ip s = Err (Sleeps (ChanInode ip))"
  by (simp add: ilock_def acquiresleep_waits)

lemma ilock_load:
  fixes s :: "'a fsst_scheme"
  assumes w: "fs_wf dev s" and hd: "held_data dev s" and h: "held s = []" "curproc s = Some p"
    and ip: "ip < length (icache s)" "1 \<le> i_ref (ino s ip)" "\<not> sl_locked (i_lock (ino s ip))" "\<not> i_valid (ino s ip)"
    and i: "i_dev (ino s ip) = dev" "i_inum (ino s ip) = inum" "inum < sb_ninodes (sb s)"
    and ty: "d_type (dinode_at dev s inum) \<noteq> 0"
  shows "\<exists>f s'. ilock ip s = Ok s' \<and> ino_changed ip f s s' \<and> sl_locked (i_lock (f (ino s ip))) \<and> i_valid (f (ino s ip))
    \<and> ino_dinode (f (ino s ip)) = dinode_at dev s inum \<and> i_dev (f (ino s ip)) = dev \<and> i_inum (f (ino s ip)) = inum
    \<and> i_ref (f (ino s ip)) = i_ref (ino s ip)"
proof -
  let ?b = "IBLOCK inum (sb s)" and ?x = "dinode_at dev s inum"
  let ?lk = "\<lparr>sl_locked = True, sl_pid = p_pid (procs (pt s) p)\<rparr>"
  let ?g = "\<lambda>i. i\<lparr>i_lock := ?lk, i_type := d_type ?x, i_major := d_major ?x,
              i_minor := d_minor ?x, i_nlink := d_nlink ?x, i_size := d_size ?x, i_addrs := d_addrs ?x\<rparr>"
  let ?f = "\<lambda>i. (?g i)\<lparr>i_valid := True\<rparr>"
  let ?t = "upd_ino ip ?g s"
  note b = IBLOCK_bounds [OF w i(3)]
  have nh: "(dev, ?b) \<notin> set (bheld s)" using hd b(4) by (auto simp: held_data_def)
  obtain s1 where s1: "brelse dev ?b (?t\<lparr>bheld := (dev, ?b) # bheld s\<rparr>) = Ok s1" "blk_frame ?t s1" "blk s1 = blk s"
      "lh_n s1 = lh_n s" "lh_block s1 = lh_block s"
    using read_block_ok(2) [of ?t dev ?b] h nh b(3) by auto
  note f1 = blk_frameD [OF s1(2)]
  let ?s = "upd_ino ip (\<lambda>i. i\<lparr>i_valid := True\<rparr>) s1"
  have u: "upd_ino ip f (s\<lparr>bheld := y\<rparr>) = upd_ino ip f s\<lparr>bheld := y\<rparr>" for f y and s :: "'a fsst_scheme"
    by (simp add: upd_ino_def)
  have ty1: "i_type (ino s1 ip) = d_type ?x" using f1(9) ip(1) by (simp add: upd_ino_def)
  have "ilock ip s = Ok ?s"
    using h ip i b(3) nh ty ty1 f1(9) s1(1) unfolding dinode_at_def
    by (simp add: ilock_def acquiresleep_ok bread_ok ino_upd_ino Let_def u)
  moreover have "ino_changed ip ?f s ?s"
    using s1(3-5) blk_frame_upd_ino [OF s1(2), of ip "\<lambda>i. i\<lparr>i_valid := True\<rparr>"] ip(1)
    by (simp add: ino_changed_def)
  ultimately show ?thesis using i by (intro exI [of _ ?f] exI [of _ ?s]) (simp add: ino_dinode_def)
qed

lemma iunlock_ok:
  fixes s :: "'a fsst_scheme"
  assumes "held s = []" "ip < length (icache s)" "1 \<le> i_ref (ino s ip)" "sl_locked (i_lock (ino s ip))"
  shows "\<exists>s'. iunlock ip s = Ok s' \<and> ino_changed ip (\<lambda>i. i\<lparr>i_lock := unlocked_sl\<rparr>) s s'"
  using assms
  by (auto simp: iunlock_def kernel_simps ino_changed_def blk_frame_def log_frame_def upd_ino_def intro!: more_icache_cong)

lemma iunlock_panics:
  "held s = [] \<Longrightarrow> i_ref (ino s ip) < 1 \<or> \<not> sl_locked (i_lock (ino s ip)) \<Longrightarrow> iunlock ip s = Err (Panic ''iunlock'')"
  by (auto simp: iunlock_def kernel_simps)

section \<open>Allocating an inode\<close>

definition new_dinode :: "int \<Rightarrow> dinode" where
  "new_dinode ty = \<lparr>d_type = ty, d_major = 0, d_minor = 0, d_nlink = 0, d_size = 0, d_addrs = replicate 13 0\<rparr>"

lemma le_bytes_0 [simp]: "le_bytes k 0 = replicate k 0"
  by (induction k) auto

lemma concat_replicate_zeros: "concat (replicate n (replicate k x)) = replicate (n * k) x"
  by (induction n) (simp_all add: replicate_add)

lemma new_dinode_bytes:
  assumes "off + 64 \<le> length d"
  shows "put_u16 (blit d off (replicate 64 0)) off (to_short ty) = blit d off (dinode_bytes (new_dinode ty))"
proof -
  have "dinode_bytes (new_dinode ty) = le_bytes 2 (to_short ty) @ replicate 62 0"
    by (simp add: dinode_bytes_def new_dinode_def to_short_def concat_replicate_zeros flip: replicate_add
        del: le_bytes.simps replicate.simps)
  moreover have "drop (off + 2) (blit d off (replicate 64 0)) = replicate 62 0 @ drop (off + 64) d"
    using assms by (simp add: blit_def)
  ultimately show ?thesis using assms by (simp add: put_u16_def blit_def del: le_bytes.simps)
qed

text \<open>The effect of \<open>ialloc\<close> on the disk, for the inode number that it takes.\<close>

lemma ialloc_loop_ok:
  fixes s :: "'a fsst_scheme"
  assumes w: "fs_wf dev s" and hd: "held_data dev s" and r: "room (Suc k) s" and ok: "icache_ok s"
    and c: "\<exists>i<NINODE. i_ref (ino s i) = 0" and ty: "- (2 ^ 15) \<le> ty" "ty < 2 ^ 15"
    and l: "\<forall>n\<in>set inums. n < sb_ninodes (sb s)" "\<exists>n\<in>set inums. d_type (dinode_at dev s n) = 0"
  shows "\<exists>n ip f t s'. ialloc_loop dev ty inums s = Ok (ip, s') \<and> n \<in> set inums \<and> d_type (dinode_at dev s n) = 0
    \<and> iget dev n t = Ok (ip, s') \<and> s' = upd_ino ip f t \<and> blk_frame s t \<and> room k t \<and> fs_wf dev t \<and> icache_ok s'
    \<and> ip < NINODE \<and> i_dev (ino s' ip) = dev \<and> i_inum (ino s' ip) = n
    \<and> dinode_at dev t n = new_dinode ty \<and> (\<forall>j. j \<noteq> n \<longrightarrow> dinode_at dev t j = dinode_at dev s j)
    \<and> (\<forall>c. dstart (sb s) \<le> c \<longrightarrow> blk t dev c = blk s dev c)"
  using w hd r ok c l
proof (induction inums arbitrary: s)
  case Nil
  then show ?case by simp
next
  case (Cons n inums)
  let ?b = "IBLOCK n (sb s)" and ?e = "dinode_bytes (new_dinode ty)"
  have n: "n < sb_ninodes (sb s)" using Cons.prems by simp
  note b = IBLOCK_bounds [OF Cons.prems(1) n]
  have nh: "(dev, ?b) \<notin> set (bheld s)" using Cons.prems(2) b(4) by (auto simp: held_data_def)
  note rd = read_block_ok [OF room_free [OF Cons.prems(3)] nh b(3)]
  have len: "length (blk s dev c) = BSIZE" for c using Cons.prems(1) by (simp add: fs_wf_def)
  show ?case
  proof (cases "d_type (dinode_at dev s n) = 0")
    case True
    have nd: "dinode_ok (new_dinode ty)" using ty by (simp add: dinode_ok_def new_dinode_def)
    then have e: "length ?e = 64" by (rule length_dinode_bytes)
    obtain t where t: "rbind (log_write ?b (bset dev ?b (blit (blk s dev ?b) (dinode_off n) ?e) (s\<lparr>bheld := (dev, ?b) # bheld s\<rparr>))) (brelse dev ?b) = Ok t"
        "blk_frame s t" "blk t = set_block dev ?b (blit (blk s dev ?b) (dinode_off n) ?e) (blk s)" "room k t"
      using write_block_ok [OF Cons.prems(3) nh, of "blit (blk s dev ?b) (dinode_off n) ?e"] by (elim exE conjE)
    note f = blk_frameD [OF t(2)]
    note d = dinode_at_write [OF Cons.prems(1) n e f(8) t(3)]
    have nb: "put_u16 (blit (blk s dev ?b) (dinode_off n) (replicate 64 0)) (dinode_off n) (to_short ty)
        = blit (blk s dev ?b) (dinode_off n) ?e"
      using new_dinode_bytes [of "dinode_off n" "blk s dev ?b" ty] len dinode_off_bound [of n] by simp
    have "ialloc_loop dev ty (n # inums) s = rbind (rbind (log_write ?b (bset dev ?b (blit (blk s dev ?b) (dinode_off n) ?e) (s\<lparr>bheld := (dev, ?b) # bheld s\<rparr>))) (brelse dev ?b)) (iget dev n)"
      using True rd(1) nb by (simp add: Let_def dinode_at_def)
    then have eq: "ialloc_loop dev ty (n # inums) s = iget dev n t" using t(1) by simp
    have dn: "dinode_at dev t n = new_dinode ty"
      using t(3) f(8) get_dinode_bytes [OF nd, of "dinode_off n" "blk s dev ?b"] len dinode_off_bound [of n]
      by (simp add: dinode_at_def set_block_apply)
    have ok: "icache_ok t" using Cons.prems(4) f(9) by (simp add: icache_ok_def)
    obtain i0 where "i0 < NINODE" "i_ref (ino t i0) = 0" using Cons.prems(5) f(9) by auto
    then have "\<exists>i<NINODE. cached dev n t i \<or> i_ref (ino t i) = 0" by blast
    moreover have "IcacheLock \<notin> set (held t)" using room_free [OF t(4)] by simp
    ultimately obtain ip g where ip: "iget dev n t = Ok (ip, upd_ino ip g t)" "ip < NINODE" "icache_ok (upd_ino ip g t)"
        "i_dev (g (ino t ip)) = dev" "i_inum (g (ino t ip)) = n"
      using iget_ok [OF ok] by metis
    have "ip < length (icache t)" using ip(2) ok by (simp add: icache_ok_def)
    then show ?thesis using eq ip True t d dn
      by (intro exI [of _ n] exI [of _ ip] exI [of _ g] exI [of _ t] exI [of _ "upd_ino ip g t"])
        (simp add: ino_upd_ino)
  next
    case False
    obtain s1 where s1: "brelse dev ?b (s\<lparr>bheld := (dev, ?b) # bheld s\<rparr>) = Ok s1" "blk_frame s s1" "blk s1 = blk s"
        "lh_n s1 = lh_n s" "lh_block s1 = lh_block s"
      using rd(2) by blast
    note f1 = blk_frameD [OF s1(2)]
    have eq: "ialloc_loop dev ty (n # inums) s = ialloc_loop dev ty inums s1"
      using False rd(1) s1(1) by (simp add: Let_def dinode_at_def)
    have da: "dinode_at dev s1 = dinode_at dev s" using f1(8) s1(3) by (simp add: dinode_at_def fun_eq_iff)
    have "\<exists>n ip f t s'. ialloc_loop dev ty inums s1 = Ok (ip, s') \<and> n \<in> set inums \<and> d_type (dinode_at dev s1 n) = 0
      \<and> iget dev n t = Ok (ip, s') \<and> s' = upd_ino ip f t \<and> blk_frame s1 t \<and> room k t \<and> fs_wf dev t \<and> icache_ok s'
      \<and> ip < NINODE \<and> i_dev (ino s' ip) = dev \<and> i_inum (ino s' ip) = n
      \<and> dinode_at dev t n = new_dinode ty \<and> (\<forall>j. j \<noteq> n \<longrightarrow> dinode_at dev t j = dinode_at dev s1 j)
      \<and> (\<forall>c. dstart (sb s1) \<le> c \<longrightarrow> blk t dev c = blk s1 dev c)"
    proof (rule Cons.IH)
      show "fs_wf dev s1" using fs_wf_cong [OF Cons.prems(1) f1(8)] s1(3) by simp
      show "held_data dev s1" using held_data_cong [OF f1(8) _ f1(3)] Cons.prems(2) s1(3) by simp
      show "room (Suc k) s1" using room_cong [OF s1(2,4,5)] Cons.prems(3) by simp
      show "icache_ok s1" using Cons.prems(4) f1(9) by (simp add: icache_ok_def)
    qed (use Cons.prems f1 False da in auto)
    then obtain m ip f t s' where IH: "ialloc_loop dev ty inums s1 = Ok (ip, s')" "m \<in> set inums"
      "d_type (dinode_at dev s1 m) = 0" "iget dev m t = Ok (ip, s')" "s' = upd_ino ip f t" "blk_frame s1 t" "room k t"
      "fs_wf dev t" "icache_ok s'" "ip < NINODE" "i_dev (ino s' ip) = dev" "i_inum (ino s' ip) = m"
      "dinode_at dev t m = new_dinode ty" "\<forall>j. j \<noteq> m \<longrightarrow> dinode_at dev t j = dinode_at dev s1 j"
      "\<forall>c. dstart (sb s1) \<le> c \<longrightarrow> blk t dev c = blk s1 dev c"
      by (elim exE conjE)
    show ?thesis
      unfolding eq
      by (rule exI [of _ m], rule exI [of _ ip], rule exI [of _ f], rule exI [of _ t], rule exI [of _ s'])
        (use IH da f1(8) s1(3) blk_frame_trans [OF s1(2) IH(6)] in simp)
  qed
qed

lemma ialloc_none:
  fixes s :: "'a fsst_scheme"
  assumes w: "fs_wf dev s" and hd: "held_data dev s" and h: "held s = []"
    and l: "\<forall>n\<in>set inums. n < sb_ninodes (sb s) \<and> d_type (dinode_at dev s n) \<noteq> 0"
  shows "ialloc_loop dev ty inums s = Err (Panic ''ialloc: no inodes'')"
  using assms
proof (induction inums arbitrary: s)
  case Nil
  then show ?case by simp
next
  case (Cons n inums)
  let ?b = "IBLOCK n (sb s)"
  have n: "n < sb_ninodes (sb s)" using Cons.prems by simp
  note b = IBLOCK_bounds [OF Cons.prems(1) n]
  have nh: "(dev, ?b) \<notin> set (bheld s)" using Cons.prems(2) b(4) by (auto simp: held_data_def)
  note rd = read_block_ok [OF Cons.prems(3) nh b(3)]
  obtain s1 where s1: "brelse dev ?b (s\<lparr>bheld := (dev, ?b) # bheld s\<rparr>) = Ok s1" "blk_frame s s1" "blk s1 = blk s"
    using rd(2) by blast
  note f1 = blk_frameD [OF s1(2)]
  have da: "dinode_at dev s1 = dinode_at dev s" using f1(8) s1(3) by (simp add: dinode_at_def fun_eq_iff)
  have "ialloc_loop dev ty inums s1 = Err (Panic ''ialloc: no inodes'')"
  proof (rule Cons.IH)
    show "fs_wf dev s1" using fs_wf_cong [OF Cons.prems(1) f1(8)] s1(3) by simp
    show "held_data dev s1" using held_data_cong [OF f1(8) _ f1(3)] Cons.prems(2) s1(3) by simp
  qed (use Cons.prems f1 da in auto)
  then show ?case using Cons.prems(4) rd(1) s1(1) by (simp add: Let_def dinode_at_def)
qed

lemma iget_ref:
  fixes s :: "'a fsst_scheme"
  assumes ok: "icache_ok s" and h: "held s = []" and g: "iget dev inum s = Ok (ip, s')"
  shows "0 < i_ref (ino s' ip)"
proof (cases "\<exists>i<NINODE. cached dev inum s i \<or> i_ref (ino s i) = 0")
  case False
  then show ?thesis using iget_full [of s dev inum] h g by auto
next
  case True
  have hl: "IcacheLock \<notin> set (held s)" using h by simp
  obtain f where f: "s' = upd_ino ip f s" "ip < NINODE" "i_ref (f (ino s ip)) = i_ref (ino s ip) + 1"
    using iget_ok [OF ok hl True] g by (metis Pair_inject result.inject(1))
  have "ip < length (icache s)" "0 \<le> i_ref (ino s ip)" using f(2) ok by (simp_all add: icache_ok_def)
  then show ?thesis using f(1,3) by (simp add: ino_upd_ino)
qed

section \<open>Properties\<close>

text \<open>
  C11. The inode cache has at most one entry in use for an inode, and \<open>iget\<close> keeps it so: it returns
  the entry of the inode with one more reference when there is one, otherwise an unused entry that
  it turns into an invalid entry of the inode with one reference; it panics exactly when neither
  exists. A second \<open>iget\<close> of the same inode returns the same entry.
\<close>

theorem iget_unique_entry:
  fixes s :: "'a fsst_scheme"
  assumes ok: "icache_ok s" and h: "held s = []"
  shows "(case iget dev inum s of
      Ok (ip, s') \<Rightarrow> icache_ok s' \<and> ip < NINODE \<and> cached dev inum s' ip
        \<and> i_ref (ino s' ip) = i_ref (ino s ip) + 1
        \<and> (if \<exists>i<NINODE. cached dev inum s i then cached dev inum s ip \<and> i_valid (ino s' ip) = i_valid (ino s ip)
           else i_ref (ino s ip) = 0 \<and> \<not> i_valid (ino s' ip))
        \<and> (\<forall>j. j \<noteq> ip \<longrightarrow> ino s' j = ino s j)
        \<and> (\<exists>s''. iget dev inum s' = Ok (ip, s'') \<and> i_ref (ino s'' ip) = i_ref (ino s ip) + 2)
    | Err e \<Rightarrow> e = Panic ''iget: no inodes'' \<and> (\<forall>i<NINODE. \<not> cached dev inum s i \<and> i_ref (ino s i) \<noteq> 0))"
proof (cases "\<exists>i<NINODE. cached dev inum s i \<or> i_ref (ino s i) = 0")
  case False
  then show ?thesis using iget_full [of s dev inum] h by auto
next
  case True
  have hl: "IcacheLock \<notin> set (held s)" using h by simp
  obtain ip f where ip: "iget dev inum s = Ok (ip, upd_ino ip f s)" "ip < NINODE" "icache_ok (upd_ino ip f s)"
    "i_dev (f (ino s ip)) = dev" "i_inum (f (ino s ip)) = inum" "i_ref (f (ino s ip)) = i_ref (ino s ip) + 1"
    "cached dev inum s ip \<or> (\<forall>i<NINODE. \<not> cached dev inum s i)"
    "cached dev inum s ip \<Longrightarrow> f (ino s ip) = (ino s ip)\<lparr>i_ref := i_ref (ino s ip) + 1\<rparr>"
    "\<not> cached dev inum s ip \<Longrightarrow> \<not> i_valid (f (ino s ip)) \<and> i_ref (ino s ip) = 0"
    using iget_ok [OF ok hl True] by metis
  let ?s = "upd_ino ip f s"
  have l: "ip < length (icache s)" "0 \<le> i_ref (ino s ip)" using ip(2) ok by (simp_all add: icache_ok_def)
  have c: "cached dev inum ?s ip" using ip(4-6) l by (simp add: ino_upd_ino)
  have "iget dev inum ?s = Ok (ip, upd_ino ip (\<lambda>i. i\<lparr>i_ref := i_ref i + 1\<rparr>) ?s)"
    by (rule iget_hit(1) [OF ip(3) _ ip(2) c]) (use h in simp)
  moreover have "i_ref (ino (upd_ino ip (\<lambda>i. i\<lparr>i_ref := i_ref i + 1\<rparr>) ?s) ip) = i_ref (ino s ip) + 2"
    using l ip(6) by (simp add: ino_upd_ino)
  ultimately show ?thesis
    using ip l c by (cases "cached dev inum s ip") (auto simp: ino_upd_ino)
qed

lemma icache_demo: "icache_ok fs_demo" "cached 1 1 fs_demo 0" "ino fs_demo 0 = ino_demo"
  by (auto simp: icache_ok_def fs_demo_def ino_demo_def ino_free_def nth_Cons' split: if_splits)

theorem iget_unique_entry_witness:
  "\<exists>s'. iget 1 1 fs_demo = Ok (0, s') \<and> i_ref (ino s' 0) = 2"
proof -
  have "iget 1 1 fs_demo = Ok (0, upd_ino 0 (\<lambda>i. i\<lparr>i_ref := i_ref i + 1\<rparr>) fs_demo)"
    by (rule iget_hit(1) [OF icache_demo(1) _ _ icache_demo(2)]) (simp_all add: fs_demo_simps)
  with iget_unique_entry [OF icache_demo(1) fs_demo_simps(3), of 1 1] show ?thesis
    using icache_demo(3) by (auto simp: ino_demo_def)
qed

text \<open>
  C12. What \<open>iupdate\<close> writes is what \<open>ilock\<close> reads: after an inode has been written to disk, locking
  an entry of the same inode that has to be read from disk, whatever its fields held before, loads
  the same type, device numbers, link count, size and block addresses, and no other inode on the
  disk has changed.
\<close>

theorem iupdate_ilock_roundtrip:
  fixes s :: "'a fsst_scheme"
  assumes w: "fs_wf dev s" and hd: "held_data dev s" and r: "room 1 s" and p: "curproc s = Some p"
    and ip: "ip < length (icache s)" "1 \<le> i_ref (ino s ip)" "i_dev (ino s ip) = dev" "i_inum (ino s ip) < sb_ninodes (sb s)"
    and x: "dinode_ok (ino_dinode (ino s ip))" "i_type (ino s ip) \<noteq> 0"
  shows "\<exists>s1 s2. iupdate ip s = Ok s1
    \<and> (\<forall>j. j \<noteq> i_inum (ino s ip) \<longrightarrow> dinode_at dev s1 j = dinode_at dev s j)
    \<and> ilock ip (upd_ino ip (\<lambda>i. i\<lparr>i_valid := False, i_lock := unlocked_sl, i_type := a, i_major := m, i_minor := m', i_nlink := l, i_size := b, i_addrs := c\<rparr>) s1) = Ok s2
    \<and> ino_dinode (ino s2 ip) = ino_dinode (ino s ip) \<and> i_valid (ino s2 ip)"
proof -
  let ?n = "i_inum (ino s ip)"
  have "room (Suc 0) s" using r by simp
  then obtain s1 where s1: "iupdate ip s = Ok s1" "blk_frame s s1" "room 0 s1" "fs_wf dev s1"
      "dinode_at dev s1 ?n = ino_dinode (ino s ip)" "\<forall>j. j \<noteq> ?n \<longrightarrow> dinode_at dev s1 j = dinode_at dev s j"
      "\<forall>c < sb_size (sb s). used dev s1 c = used dev s c"
    using iupdate_ok [OF w hd _ ip(3) refl ip(4) x(1)] by blast
  note f = blk_frameD [OF s1(2)]
  let ?g = "\<lambda>i. i\<lparr>i_valid := False, i_lock := unlocked_sl, i_type := a, i_major := m, i_minor := m', i_nlink := l, i_size := b, i_addrs := c\<rparr>"
  let ?t = "upd_ino ip ?g s1"
  have hd1: "held_data dev s1" using hd f(3,8) s1(7) by (auto simp: held_data_def)
  have it: "ino ?t ip = ?g (ino s ip)" using f(9) ip(1) by (simp add: ino_upd_ino)
  have da: "dinode_at dev ?t = dinode_at dev s1" by (simp add: dinode_at_def fun_eq_iff)
  have "\<exists>f s'. ilock ip ?t = Ok s' \<and> ino_changed ip f ?t s' \<and> sl_locked (i_lock (f (ino ?t ip))) \<and> i_valid (f (ino ?t ip))
    \<and> ino_dinode (f (ino ?t ip)) = dinode_at dev ?t ?n \<and> i_dev (f (ino ?t ip)) = dev \<and> i_inum (f (ino ?t ip)) = ?n
    \<and> i_ref (f (ino ?t ip)) = i_ref (ino ?t ip)"
    by (rule ilock_load [where p = p]) (use s1 hd1 f it da ip x p room_free [OF r] in \<open>auto simp: ino_dinode_def\<close>)
  then obtain g s2 where s2: "ilock ip ?t = Ok s2" "ino_changed ip g ?t s2" "i_valid (g (ino ?t ip))"
      "ino_dinode (g (ino ?t ip)) = dinode_at dev ?t ?n"
    by blast
  have "ino s2 ip = g (ino ?t ip)" using ino_changedD(6) [OF s2(2)] ip(1) f(9) by simp
  then show ?thesis using s1 s2 da by (intro exI [of _ s1] exI [of _ s2]) simp
qed

theorem iupdate_ilock_roundtrip_witness:
  "\<exists>s1 s2. iupdate 0 fs_demo = Ok s1
    \<and> ilock 0 (upd_ino 0 (\<lambda>i. i\<lparr>i_valid := False, i_lock := unlocked_sl, i_type := 0, i_major := 7, i_minor := 8, i_nlink := 9, i_size := 5, i_addrs := []\<rparr>) s1) = Ok s2
    \<and> ino_dinode (ino s2 0) = ino_dinode ino_demo"
proof -
  have "curproc fs_demo = Some 0" "0 < length (icache fs_demo)" by (simp_all add: fs_demo_def)
  moreover have "i_inum (ino fs_demo 0) < sb_ninodes (sb fs_demo)"
    by (simp add: icache_demo(3) fs_demo_simps ino_demo_def sb_demo_def)
  moreover have "room 1 fs_demo" by (rule room_mono [OF fs_demo_simps(4)]) simp
  ultimately show ?thesis
    using iupdate_ilock_roundtrip [OF fs_wf_demo, where ip = 0 and p = 0 and a = 0 and m = 7 and m' = 8 and l = 9 and b = 5 and c = "[]"] icache_demo(3)
    by (auto simp: ino_demo_def ino_dinode_def dinode_ok_def)
qed

text \<open>
  \<open>ialloc\<close> returns a referenced entry for an inode that was free on the disk; on the disk that
  inode now has the given type and is otherwise zero, and all other inodes and all data blocks are
  unchanged. It panics when no inode is free.
\<close>

theorem ialloc_correct:
  fixes s :: "'a fsst_scheme"
  assumes w: "fs_wf dev s" and hd: "held_data dev s" and r: "room 1 s" and ok: "icache_ok s"
    and c: "\<exists>i<NINODE. i_ref (ino s i) = 0" and ty: "- (2 ^ 15) \<le> ty" "ty < 2 ^ 15"
  shows "((\<exists>n\<in>{1..<sb_ninodes (sb s)}. d_type (dinode_at dev s n) = 0) \<longrightarrow>
      (\<exists>ip s'. ialloc dev ty s = Ok (ip, s') \<and> icache_ok s' \<and> ip < NINODE \<and> i_dev (ino s' ip) = dev
        \<and> i_ref (ino s' ip) > 0 \<and> 0 < i_inum (ino s' ip) \<and> i_inum (ino s' ip) < sb_ninodes (sb s)
        \<and> d_type (dinode_at dev s (i_inum (ino s' ip))) = 0
        \<and> dinode_at dev s' (i_inum (ino s' ip)) = new_dinode ty
        \<and> (\<forall>j. j \<noteq> i_inum (ino s' ip) \<longrightarrow> dinode_at dev s' j = dinode_at dev s j)
        \<and> (\<forall>c. dstart (sb s) \<le> c \<longrightarrow> blk s' dev c = blk s dev c)))
    \<and> ((\<forall>n\<in>{1..<sb_ninodes (sb s)}. d_type (dinode_at dev s n) \<noteq> 0) \<longrightarrow>
      ialloc dev ty s = Err (Panic ''ialloc: no inodes''))"
proof (intro conjI impI)
  assume n: "\<exists>n\<in>{1..<sb_ninodes (sb s)}. d_type (dinode_at dev s n) = 0"
  have r1: "room (Suc 0) s" using r by simp
  have n1: "\<forall>n\<in>set [1..<sb_ninodes (sb s)]. n < sb_ninodes (sb s)" by simp
  have n2: "\<exists>n\<in>set [1..<sb_ninodes (sb s)]. d_type (dinode_at dev s n) = 0" using n by simp
  obtain n ip f t s' where a: "ialloc dev ty s = Ok (ip, s')" "n \<in> set [1..<sb_ninodes (sb s)]"
      "d_type (dinode_at dev s n) = 0" "iget dev n t = Ok (ip, s')" "s' = upd_ino ip f t" "blk_frame s t" "icache_ok s'"
      "ip < NINODE" "i_dev (ino s' ip) = dev" "i_inum (ino s' ip) = n" "dinode_at dev t n = new_dinode ty"
      "\<forall>j. j \<noteq> n \<longrightarrow> dinode_at dev t j = dinode_at dev s j" "\<forall>c. dstart (sb s) \<le> c \<longrightarrow> blk t dev c = blk s dev c"
    using ialloc_loop_ok [OF w hd r1 ok c ty n1 n2] unfolding ialloc_def by blast
  note fr = blk_frameD [OF a(6)]
  have okt: "icache_ok t" "held t = []" using ok fr(1,9) room_free [OF r] by (simp_all add: icache_ok_def)
  have "i_ref (ino s' ip) > 0" using iget_ref [OF okt a(4)] .
  moreover have "dinode_at dev s' = dinode_at dev t" "blk s' = blk t" using a(5) by (simp_all add: dinode_at_def fun_eq_iff)
  ultimately show "\<exists>ip s'. ialloc dev ty s = Ok (ip, s') \<and> icache_ok s' \<and> ip < NINODE \<and> i_dev (ino s' ip) = dev
        \<and> i_ref (ino s' ip) > 0 \<and> 0 < i_inum (ino s' ip) \<and> i_inum (ino s' ip) < sb_ninodes (sb s)
        \<and> d_type (dinode_at dev s (i_inum (ino s' ip))) = 0
        \<and> dinode_at dev s' (i_inum (ino s' ip)) = new_dinode ty
        \<and> (\<forall>j. j \<noteq> i_inum (ino s' ip) \<longrightarrow> dinode_at dev s' j = dinode_at dev s j)
        \<and> (\<forall>c. dstart (sb s) \<le> c \<longrightarrow> blk s' dev c = blk s dev c)"
    using a by (intro exI [of _ ip] exI [of _ s']) auto
next
  assume "\<forall>n\<in>{1..<sb_ninodes (sb s)}. d_type (dinode_at dev s n) \<noteq> 0"
  then show "ialloc dev ty s = Err (Panic ''ialloc: no inodes'')"
    unfolding ialloc_def by (intro ialloc_none [OF w hd room_free [OF r]]) auto
qed

theorem ialloc_correct_witness:
  "\<exists>ip s'. ialloc 1 2 fs_demo = Ok (ip, s') \<and> d_type (dinode_at 1 s' (i_inum (ino s' ip))) = 2"
proof -
  have u: "get_u16 (replicate BSIZE 0) off = 0" if "off + 2 \<le> BSIZE" for off
    using that by (simp add: get_u16_def slice_def)
  have "d_type (dinode_at 1 fs_demo 1) = 0"
    using u [of 64] by (simp add: dinode_at_def get_dinode_def fs_demo_simps IBLOCK_def sb_demo_def dinode_off_def
        of_short_def del: One_nat_def)
  then have "\<exists>n\<in>{1..<sb_ninodes (sb fs_demo)}. d_type (dinode_at 1 fs_demo n) = 0"
    by (intro bexI [of _ 1]) (simp_all add: fs_demo_simps sb_demo_def)
  moreover have "\<exists>i<NINODE. i_ref (ino fs_demo i) = 0"
    by (rule exI [of _ 1]) (simp add: fs_demo_def ino_free_def)
  moreover have "room 1 fs_demo" by (rule room_mono [OF fs_demo_simps(4)]) simp
  ultimately obtain ip s' where "ialloc 1 2 fs_demo = Ok (ip, s')" "dinode_at 1 s' (i_inum (ino s' ip)) = new_dinode 2"
    using ialloc_correct [OF fs_wf_demo _ icache_demo(1), of 2] by auto
  then show ?thesis by (intro exI [of _ ip] exI [of _ s']) (simp add: new_dinode_def)
qed

end
