(* ===== verification/Bmap.thy ===== *)
theory Bmap
  imports Inode
begin

text \<open>
  The block map of an inode (fs.c): ten direct blocks and a single, a double and a triple indirect
  block. \<open>bmap\<close> returns the disk block of the \<open>bn\<close>-th block of the file and allocates what is
  missing on the way, \<open>itrunc\<close> frees everything, \<open>iput\<close> drops a reference. The map is a forest with
  one tree for each of the 13 addresses of the inode; a position is an address and a path of
  indices below it. Under the invariant that all blocks of the forest are different allocated data
  blocks, \<open>bmap\<close> extends the forest along one path and changes nothing else.
\<close>

section \<open>Operations\<close>

abbreviation (input) NDINDIRECT :: nat where "NDINDIRECT \<equiv> 16384"
abbreviation (input) NTINDIRECT :: nat where "NTINDIRECT \<equiv> 2097152"
abbreviation (input) MAXFILE :: nat where "MAXFILE \<equiv> 2113674"

text \<open>\<open>if((addr = ip->addrs[k]) == 0) ip->addrs[k] = addr = balloc(ip->dev);\<close>\<close>

definition bmap_addr :: "nat \<Rightarrow> nat \<Rightarrow> 'a fsst_scheme \<Rightarrow> (nat \<times> 'a fsst_scheme) result" where
  "bmap_addr ip k s =
     (if i_addrs (ino s ip) ! k \<noteq> 0 then Ok (i_addrs (ino s ip) ! k, s)
      else rbind (balloc (i_dev (ino s ip)) s) (\<lambda>(addr, s).
        Ok (addr, upd_ino ip (\<lambda>i. i\<lparr>i_addrs := (i_addrs i)[k := addr]\<rparr>) s)))"

text \<open>
  One level of indirection: the indirect block \<open>b\<close> is read, its entry \<open>j\<close> allocated if it is zero.
\<close>

definition bmap_slot :: "nat \<Rightarrow> nat \<Rightarrow> nat \<Rightarrow> 'a fsst_scheme \<Rightarrow> (nat \<times> 'a fsst_scheme) result" where
  "bmap_slot dev b j s =
     rbind (bread dev b s) (\<lambda>s.
     if get_cell (blk s dev b) j \<noteq> 0 then
       let addr = get_cell (blk s dev b) j in rbind (brelse dev b s) (\<lambda>s. Ok (addr, s))
     else rbind (balloc dev s) (\<lambda>(addr, s).
       rbind (log_write b (bset dev b (put_cell (blk s dev b) j addr) s)) (\<lambda>s.
       rbind (brelse dev b s) (\<lambda>s. Ok (addr, s)))))"

definition bmap :: "nat \<Rightarrow> nat \<Rightarrow> 'a fsst_scheme \<Rightarrow> (nat \<times> 'a fsst_scheme) result" where
  "bmap ip bn s =
     (let dev = i_dev (ino s ip) in
      if bn < NDIRECT then bmap_addr ip bn s
      else let bn = bn - NDIRECT in
      if bn < NINDIRECT then
        rbind (bmap_addr ip NDIRECT s) (\<lambda>(addr, s).
        bmap_slot dev addr bn s)
      else let bn = bn - NINDIRECT in
      if bn < NDINDIRECT then
        let quotient = bn div NINDIRECT; bn = bn mod NINDIRECT in
        rbind (bmap_addr ip (NDIRECT + 1) s) (\<lambda>(addr, s).
        rbind (bmap_slot dev addr quotient s) (\<lambda>(addr, s).
        bmap_slot dev addr bn s))
      else let bn = bn - NDINDIRECT in
      if bn < NTINDIRECT then
        let quotient = bn div NDINDIRECT; bn = bn mod NDINDIRECT in
        rbind (bmap_addr ip (NDIRECT + 2) s) (\<lambda>(addr, s).
        rbind (bmap_slot dev addr quotient s) (\<lambda>(addr, s).
        let quotient = bn div NINDIRECT; bn = bn mod NINDIRECT in
        rbind (bmap_slot dev addr quotient s) (\<lambda>(addr, s).
        bmap_slot dev addr bn s)))
      else Err (Panic ''bmap: out of range''))"

text \<open>
  \<open>free_tree n dev b\<close>: the loop of \<open>itrunc\<close> over the entries of the indirect block \<open>b\<close> with \<open>n\<close>
  levels of blocks below it; the entries' own blocks are handled by the same loop one level down
  before the entry is freed.
\<close>

fun free_tree :: "nat \<Rightarrow> nat \<Rightarrow> nat \<Rightarrow> 'a fsst_scheme \<Rightarrow> 'a fsst_scheme result" where
  "free_tree 0 dev b s = Ok s"
| "free_tree (Suc n) dev b s =
     rbind (bread dev b s) (\<lambda>s.
     rbind (rfold (\<lambda>j s. let a = get_cell (blk s dev b) j in
         if a \<noteq> 0 then rbind (free_tree n dev a s) (bfree dev a) else Ok s) [0..<NINDIRECT] s) (\<lambda>s.
     brelse dev b s))"

text \<open>One address of the inode with \<open>n\<close> levels of indirection: its blocks, itself, and the address.\<close>

definition trunc_addr :: "nat \<Rightarrow> nat \<Rightarrow> nat \<Rightarrow> 'a fsst_scheme \<Rightarrow> 'a fsst_scheme result" where
  "trunc_addr ip n k s =
     (let a = i_addrs (ino s ip) ! k; dev = i_dev (ino s ip) in
      if a \<noteq> 0 then
        rbind (free_tree n dev a s) (\<lambda>s.
        rbind (bfree dev a s) (\<lambda>s.
        Ok (upd_ino ip (\<lambda>i. i\<lparr>i_addrs := (i_addrs i)[k := 0]\<rparr>) s)))
      else Ok s)"

definition itrunc :: "nat \<Rightarrow> 'a fsst_scheme \<Rightarrow> 'a fsst_scheme result" where
  "itrunc ip s =
     rbind (rfold (trunc_addr ip 0) [0..<NDIRECT] s) (\<lambda>s.
     rbind (trunc_addr ip 1 NDIRECT s) (\<lambda>s.
     rbind (trunc_addr ip 2 (NDIRECT + 1) s) (\<lambda>s.
     rbind (trunc_addr ip 3 (NDIRECT + 2) s) (\<lambda>s.
     iupdate ip (upd_ino ip (\<lambda>i. i\<lparr>i_size := 0\<rparr>) s)))))"

definition iput :: "nat \<Rightarrow> 'a fsst_scheme \<Rightarrow> 'a fsst_scheme result" where
  "iput ip s =
     rbind (acquiresleep (ChanInode ip) (i_lock (ino s ip)) s) (\<lambda>(lk, s).
     let s = upd_ino ip (\<lambda>i. i\<lparr>i_lock := lk\<rparr>) s in
     rbind (if i_valid (ino s ip) \<and> i_nlink (ino s ip) = 0 then
         rbind (acquire IcacheLock s) (\<lambda>s.
         let r = i_ref (ino s ip) in
         rbind (release IcacheLock s) (\<lambda>s.
         if r = 1 then
           rbind (itrunc ip s) (\<lambda>s.
           rbind (iupdate ip (upd_ino ip (\<lambda>i. i\<lparr>i_type := 0\<rparr>) s)) (\<lambda>s.
           Ok (upd_ino ip (\<lambda>i. i\<lparr>i_valid := False\<rparr>) s)))
         else Ok s))
       else Ok s) (\<lambda>s.
     rbind (releasesleep (ChanInode ip) (i_lock (ino s ip)) s) (\<lambda>(lk, s).
     let s = upd_ino ip (\<lambda>i. i\<lparr>i_lock := lk\<rparr>) s in
     rbind (acquire IcacheLock s) (\<lambda>s.
     release IcacheLock (upd_ino ip (\<lambda>i. i\<lparr>i_ref := i_ref i - 1\<rparr>) s)))))"

definition iunlockput :: "nat \<Rightarrow> 'a fsst_scheme \<Rightarrow> 'a fsst_scheme result" where
  "iunlockput ip s = rbind (iunlock ip s) (iput ip)"

section \<open>The forest of blocks\<close>

type_synonym bpos = "nat \<times> nat list"

text \<open>The block at the end of a path, 0 when the path is not there.\<close>

fun walk :: "(nat \<Rightarrow> bytes) \<Rightarrow> nat \<Rightarrow> nat list \<Rightarrow> nat" where
  "walk B a [] = a"
| "walk B a (i # is) = (if a = 0 then 0 else walk B (get_cell (B a) i) is)"

lemma walk_snoc: "walk B a (is @ [i]) = (if walk B a is = 0 then 0 else get_cell (B (walk B a is)) i)"
  by (induction "is" arbitrary: a) auto

definition node :: "(nat \<Rightarrow> bytes) \<Rightarrow> nat list \<Rightarrow> bpos \<Rightarrow> nat" where
  "node B addrs p = walk B (addrs ! fst p) (snd p)"

lemma node_snoc: "node B as (k, is @ [i]) = (if node B as (k, is) = 0 then 0 else get_cell (B (node B as (k, is))) i)"
  by (simp add: node_def walk_snoc)

definition levels :: "nat \<Rightarrow> nat" where
  "levels k = (if k < NDIRECT then 0 else k - 9)"

definition posn :: "bpos \<Rightarrow> bool" where
  "posn p \<longleftrightarrow> fst p < 13 \<and> length (snd p) \<le> levels (fst p) \<and> (\<forall>i\<in>set (snd p). i < NINDIRECT)"

definition leaf :: "bpos \<Rightarrow> bool" where
  "leaf p \<longleftrightarrow> posn p \<and> length (snd p) = levels (fst p)"

lemma posn_snoc: "posn (k, is @ [i]) \<longleftrightarrow> posn (k, is) \<and> length is < levels k \<and> i < NINDIRECT"
  by (auto simp: posn_def)

lemma posn_root: "posn (k, []) \<longleftrightarrow> k < 13"
  by (simp add: posn_def)

text \<open>The position of the \<open>bn\<close>-th block of a file.\<close>

definition pos_of :: "nat \<Rightarrow> bpos" where
  "pos_of bn = (if bn < 10 then (bn, [])
     else if bn < 138 then (10, [bn - 10])
     else if bn < 16522 then (11, [(bn - 138) div 128, (bn - 138) mod 128])
     else (12, [(bn - 16522) div 16384, (bn - 16522) mod 16384 div 128, (bn - 16522) mod 16384 mod 128]))"

lemma leaf_pos_of: "bn < MAXFILE \<Longrightarrow> leaf (pos_of bn)"
proof -
  assume bn: "bn < MAXFILE"
  have "(bn - 138) div 128 < 128" if "bn < 16522" using that by (simp add: less_mult_imp_div_less)
  moreover have "(bn - 16522) div 16384 < 128" using bn by (simp add: less_mult_imp_div_less)
  moreover have "(bn - 16522) mod 16384 div 128 < 128" by (simp add: less_mult_imp_div_less)
  ultimately show ?thesis by (auto simp: leaf_def posn_def levels_def pos_of_def)
qed

lemma div_mod_eq: "(x::nat) div m = y div m \<Longrightarrow> x mod m = y mod m \<Longrightarrow> x = y"
  by (metis div_mult_mod_eq)

lemma pos_of_inj: "pos_of a = pos_of b \<Longrightarrow> a = b"
proof -
  assume e: "pos_of a = pos_of b"
  consider "a < 10" | "10 \<le> a" "a < 138" | "138 \<le> a" "a < 16522" | "16522 \<le> a" by linarith
  then show ?thesis
  proof cases
    case 1
    then show ?thesis using e by (auto simp: pos_of_def split: if_splits)
  next
    case 2
    then show ?thesis using e by (auto simp: pos_of_def split: if_splits)
  next
    case 3
    then have b: "138 \<le> b" "b < 16522" using e by (auto simp: pos_of_def split: if_splits)
    then have "(a - 138) div 128 = (b - 138) div 128" "(a - 138) mod 128 = (b - 138) mod 128"
      using e 3 by (simp_all add: pos_of_def)
    then have "a - 138 = b - 138" by (rule div_mod_eq)
    then show ?thesis using 3 b by simp
  next
    case 4
    then have b: "16522 \<le> b" using e by (auto simp: pos_of_def split: if_splits)
    then have q: "(a - 16522) div 16384 = (b - 16522) div 16384"
        "(a - 16522) mod 16384 div 128 = (b - 16522) mod 16384 div 128"
        "(a - 16522) mod 16384 mod 128 = (b - 16522) mod 16384 mod 128"
      using e 4 by (simp_all add: pos_of_def)
    have "(a - 16522) mod 16384 = (b - 16522) mod 16384" using q(2,3) by (rule div_mod_eq)
    with q(1) have "a - 16522 = b - 16522" by (rule div_mod_eq)
    then show ?thesis using 4 b by simp
  qed
qed

text \<open>\<open>bmap\<close> as a walk along the position of the block.\<close>

fun bmap_slots :: "nat \<Rightarrow> nat \<Rightarrow> nat list \<Rightarrow> 'a fsst_scheme \<Rightarrow> (nat \<times> 'a fsst_scheme) result" where
  "bmap_slots dev a [] s = Ok (a, s)"
| "bmap_slots dev a (i # is) s = rbind (bmap_slot dev a i s) (\<lambda>(a, s). bmap_slots dev a is s)"

lemma rbind_pair_Ok [simp]: "rbind m (\<lambda>p. Ok (fst p, snd p)) = m"
  by (cases m) auto

lemma bmap_walk:
  "bn < MAXFILE \<Longrightarrow> bmap ip bn s = rbind (bmap_addr ip (fst (pos_of bn)) s)
     (\<lambda>(a, s'). bmap_slots (i_dev (ino s ip)) a (snd (pos_of bn)) s')"
  by (auto simp: bmap_def pos_of_def Let_def case_prod_unfold)

lemma bmap_out_of_range: "MAXFILE \<le> bn \<Longrightarrow> bmap ip bn s = Err (Panic ''bmap: out of range'')"
proof -
  assume "MAXFILE \<le> bn"
  then have "\<not> bn < NDIRECT" "\<not> bn - NDIRECT < NINDIRECT" "\<not> bn - NDIRECT - NINDIRECT < NDINDIRECT"
      "\<not> bn - NDIRECT - NINDIRECT - NDINDIRECT < NTINDIRECT"
    by linarith+
  then show ?thesis by (simp only: bmap_def Let_def if_False)
qed

section \<open>The invariant of the forest\<close>

abbreviation nodes :: "nat \<Rightarrow> 'a fsst_scheme \<Rightarrow> nat \<Rightarrow> bpos \<Rightarrow> nat" where
  "nodes dev s ip \<equiv> node (blk s dev) (i_addrs (ino s ip))"

definition ftree :: "nat \<Rightarrow> nat \<Rightarrow> 'a fsst_scheme \<Rightarrow> bool" where
  "ftree dev ip s \<longleftrightarrow> ip < length (icache s) \<and> i_dev (ino s ip) = dev \<and> length (i_addrs (ino s ip)) = 13
     \<and> (\<forall>p. posn p \<longrightarrow> nodes dev s ip p \<noteq> 0 \<longrightarrow>
          dstart (sb s) \<le> nodes dev s ip p \<and> nodes dev s ip p < sb_size (sb s) \<and> used dev s (nodes dev s ip p))
     \<and> (\<forall>p q. posn p \<longrightarrow> posn q \<longrightarrow> nodes dev s ip p \<noteq> 0 \<longrightarrow> nodes dev s ip p = nodes dev s ip q \<longrightarrow> p = q)"

lemma ftreeD:
  assumes "ftree dev ip s"
  shows "ip < length (icache s)" "i_dev (ino s ip) = dev" "length (i_addrs (ino s ip)) = 13"
    "\<And>p. posn p \<Longrightarrow> nodes dev s ip p \<noteq> 0 \<Longrightarrow> dstart (sb s) \<le> nodes dev s ip p"
    "\<And>p. posn p \<Longrightarrow> nodes dev s ip p \<noteq> 0 \<Longrightarrow> nodes dev s ip p < sb_size (sb s)"
    "\<And>p. posn p \<Longrightarrow> nodes dev s ip p \<noteq> 0 \<Longrightarrow> used dev s (nodes dev s ip p)"
    "\<And>p q. posn p \<Longrightarrow> posn q \<Longrightarrow> nodes dev s ip p \<noteq> 0 \<Longrightarrow> nodes dev s ip p = nodes dev s ip q \<Longrightarrow> p = q"
  using assms unfolding ftree_def by blast+

text \<open>A function on positions that follows the pointers is the block map.\<close>

lemma node_unique:
  assumes root: "\<And>k. k < 13 \<Longrightarrow> as ! k = f (k, [])"
    and zero: "\<And>k is i. posn (k, is @ [i]) \<Longrightarrow> f (k, is) = 0 \<Longrightarrow> f (k, is @ [i]) = 0"
    and step: "\<And>k is i. posn (k, is @ [i]) \<Longrightarrow> f (k, is) \<noteq> 0 \<Longrightarrow> get_cell (B (f (k, is))) i = f (k, is @ [i])"
    and p: "posn p"
  shows "node B as p = f p"
proof -
  have "posn (fst p, is) \<Longrightarrow> node B as (fst p, is) = f (fst p, is)" for "is"
  proof (induction "is" rule: rev_induct)
    case Nil
    then show ?case using root by (simp add: node_def posn_root)
  next
    case (snoc i "is")
    then have "node B as (fst p, is) = f (fst p, is)" by (simp add: posn_snoc)
    then show ?case using snoc.prems zero step by (cases "f (fst p, is) = 0") (simp_all add: node_snoc)
  qed
  then show ?thesis using p by (metis prod.collapse)
qed

text \<open>The content of a file block; a block that is not there reads as zeros.\<close>

definition leafdata :: "nat \<Rightarrow> nat \<Rightarrow> 'a fsst_scheme \<Rightarrow> bpos \<Rightarrow> bytes" where
  "leafdata dev ip s p = (if nodes dev s ip p = 0 then replicate BSIZE 0 else blk s dev (nodes dev s ip p))"

text \<open>
  What an operation on one file leaves alone: everything but the address array of the inode, the log,
  free blocks and the file's own blocks; blocks of the file stay where they are.
\<close>

definition fframe :: "nat \<Rightarrow> nat \<Rightarrow> 'a fsst_scheme \<Rightarrow> 'a fsst_scheme \<Rightarrow> bool" where
  "fframe dev ip s s' \<longleftrightarrow> (\<exists>as. blk_frame (upd_ino ip (\<lambda>i. i\<lparr>i_addrs := as\<rparr>) s) s') \<and> fs_wf dev s' \<and> ftree dev ip s'
     \<and> (\<forall>p. posn p \<longrightarrow> nodes dev s ip p \<noteq> 0 \<longrightarrow> nodes dev s' ip p = nodes dev s ip p)
     \<and> (\<forall>p. posn p \<longrightarrow> nodes dev s ip p = 0 \<longrightarrow> nodes dev s' ip p \<noteq> 0 \<longrightarrow> \<not> used dev s (nodes dev s' ip p))
     \<and> (\<forall>c < sb_size (sb s). used dev s c \<longrightarrow> used dev s' c)
     \<and> (\<forall>c < sb_bmapstart (sb s). blk s' dev c = blk s dev c)
     \<and> (\<forall>c < sb_size (sb s). dstart (sb s) \<le> c \<longrightarrow> used dev s c \<longrightarrow> (\<forall>p. posn p \<longrightarrow> nodes dev s ip p \<noteq> c) \<longrightarrow>
          blk s' dev c = blk s dev c)"

lemma fframe_frame:
  fixes s s' :: "'a fsst_scheme"
  assumes "fframe dev ip s s'"
  shows "held s' = held s" "curproc s' = curproc s" "bheld s' = bheld s" "sb s' = sb s"
    "icache s' = (icache s)[ip := (ino s ip)\<lparr>i_addrs := i_addrs (ino s' ip)\<rparr>]"
    "log_size s' = log_size s" "log_outstanding s' = log_outstanding s" "disk s' = disk s" "wtrace s' = wtrace s"
    "devstate s' = devstate s" "devsw_read s' = devsw_read s" "devsw_write s' = devsw_write s"
    "fs_wf dev s'" "ftree dev ip s'"
proof -
  obtain as where a: "blk_frame (upd_ino ip (\<lambda>i. i\<lparr>i_addrs := as\<rparr>) s) s'" using assms by (auto simp: fframe_def)
  show w: "fs_wf dev s'" "ftree dev ip s'" using assms by (auto simp: fframe_def)
  note f = blk_frameD [OF a]
  show "held s' = held s" "curproc s' = curproc s" "bheld s' = bheld s" "sb s' = sb s" "log_size s' = log_size s"
      "log_outstanding s' = log_outstanding s" "devstate s' = devstate s" "devsw_read s' = devsw_read s"
      "devsw_write s' = devsw_write s"
    using f by simp_all
  show "disk s' = disk s" "wtrace s' = wtrace s" using a by (simp_all add: blk_frame_def)
  have i: "icache s' = (icache s)[ip := (ino s ip)\<lparr>i_addrs := as\<rparr>]" using f(9) by (simp add: upd_ino_def)
  moreover have "ip < length (icache s)" using ftreeD(1) [OF w(2)] i by simp
  ultimately show "icache s' = (icache s)[ip := (ino s ip)\<lparr>i_addrs := i_addrs (ino s' ip)\<rparr>]" by simp
qed

lemma fframe_trans:
  assumes g1: "fframe dev ip s s1" and g2: "fframe dev ip s1 s2"
  shows "fframe dev ip s s2"
proof -
  obtain as where a: "blk_frame (upd_ino ip (\<lambda>i. i\<lparr>i_addrs := as\<rparr>) s) s1" using g1 by (auto simp: fframe_def)
  obtain as' where a': "blk_frame (upd_ino ip (\<lambda>i. i\<lparr>i_addrs := as'\<rparr>) s1) s2" using g2 by (auto simp: fframe_def)
  have l: "ip < length (icache s)" using ftreeD(1) [OF fframe_frame(14) [OF g1]] fframe_frame(5) [OF g1] by (metis length_list_update)
  have "blk_frame (upd_ino ip (\<lambda>i. i\<lparr>i_addrs := as'\<rparr>) s) s2"
    using blk_frame_trans [OF blk_frame_upd_ino [OF a, of ip "\<lambda>i. i\<lparr>i_addrs := as'\<rparr>"] a'] l by simp
  moreover note w = fframe_frame(13,14) [OF g2] and sb = fframe_frame(4) [OF g1]
  note t = ftreeD [OF fframe_frame(14) [OF g1]]
  have m1: "\<And>p. posn p \<Longrightarrow> nodes dev s ip p \<noteq> 0 \<Longrightarrow> nodes dev s1 ip p = nodes dev s ip p"
    and n1: "\<And>p. posn p \<Longrightarrow> nodes dev s ip p = 0 \<Longrightarrow> nodes dev s1 ip p \<noteq> 0 \<Longrightarrow> \<not> used dev s (nodes dev s1 ip p)"
    and u1: "\<And>c. c < sb_size (sb s) \<Longrightarrow> used dev s c \<Longrightarrow> used dev s1 c"
    and k1: "\<And>c. c < sb_size (sb s) \<Longrightarrow> dstart (sb s) \<le> c \<Longrightarrow> used dev s c \<Longrightarrow> (\<forall>p. posn p \<longrightarrow> nodes dev s ip p \<noteq> c) \<Longrightarrow>
          blk s1 dev c = blk s dev c"
    using g1 unfolding fframe_def by blast+
  have m2: "\<And>p. posn p \<Longrightarrow> nodes dev s1 ip p \<noteq> 0 \<Longrightarrow> nodes dev s2 ip p = nodes dev s1 ip p"
    and n2: "\<And>p. posn p \<Longrightarrow> nodes dev s1 ip p = 0 \<Longrightarrow> nodes dev s2 ip p \<noteq> 0 \<Longrightarrow> \<not> used dev s1 (nodes dev s2 ip p)"
    and u2: "\<And>c. c < sb_size (sb s) \<Longrightarrow> used dev s1 c \<Longrightarrow> used dev s2 c"
    and k2: "\<And>c. c < sb_size (sb s) \<Longrightarrow> dstart (sb s) \<le> c \<Longrightarrow> used dev s1 c \<Longrightarrow> (\<forall>p. posn p \<longrightarrow> nodes dev s1 ip p \<noteq> c) \<Longrightarrow>
          blk s2 dev c = blk s1 dev c"
    using g2 sb unfolding fframe_def by metis+
  note w2 = ftreeD [OF w(2)] and sb2 = fframe_frame(4) [OF g2]
  have "\<forall>p. posn p \<longrightarrow> nodes dev s ip p = 0 \<longrightarrow> nodes dev s2 ip p \<noteq> 0 \<longrightarrow> \<not> used dev s (nodes dev s2 ip p)"
  proof (intro allI impI)
    fix p assume p: "posn p" "nodes dev s ip p = 0" "nodes dev s2 ip p \<noteq> 0"
    show "\<not> used dev s (nodes dev s2 ip p)"
    proof (cases "nodes dev s1 ip p = 0")
      case True
      then have "\<not> used dev s1 (nodes dev s2 ip p)" using n2 p by blast
      moreover have "nodes dev s2 ip p < sb_size (sb s)" using w2(5) [OF p(1,3)] sb sb2 by simp
      ultimately show ?thesis using u1 by blast
    next
      case False
      then show ?thesis using n1 m2 p by auto
    qed
  qed
  moreover have "\<forall>c < sb_size (sb s). dstart (sb s) \<le> c \<longrightarrow> used dev s c \<longrightarrow> (\<forall>p. posn p \<longrightarrow> nodes dev s ip p \<noteq> c) \<longrightarrow>
      blk s2 dev c = blk s dev c"
  proof (intro allI impI)
    fix c assume c: "c < sb_size (sb s)" "dstart (sb s) \<le> c" "used dev s c" "\<forall>p. posn p \<longrightarrow> nodes dev s ip p \<noteq> c"
    have "nodes dev s1 ip p \<noteq> c" if p: "posn p" for p
    proof (cases "nodes dev s ip p = 0")
      case True
      have "c \<noteq> 0" using c(2) by (simp add: dstart_def)
      then show ?thesis using n1 [OF p True] c(3) by auto
    next
      case False
      then show ?thesis using m1 [OF p] c(4) p by metis
    qed
    then show "blk s2 dev c = blk s dev c" using k1 k2 u1 c by auto
  qed
  moreover have "\<forall>c < sb_bmapstart (sb s). blk s2 dev c = blk s dev c"
    using g1 g2 sb unfolding fframe_def by simp
  ultimately show ?thesis
    using w m1 m2 u1 u2 unfolding fframe_def by auto
qed

text \<open>\<open>s'\<close> is \<open>s\<close> with blocks added to the forest of \<open>ip\<close> at positions in \<open>S\<close> and nothing else changed.\<close>

definition grown :: "nat \<Rightarrow> nat \<Rightarrow> bpos set \<Rightarrow> 'a fsst_scheme \<Rightarrow> 'a fsst_scheme \<Rightarrow> bool" where
  "grown dev ip S s s' \<longleftrightarrow> (\<exists>as. blk_frame (upd_ino ip (\<lambda>i. i\<lparr>i_addrs := as\<rparr>) s) s') \<and> fs_wf dev s' \<and> ftree dev ip s'
     \<and> (\<forall>p. posn p \<longrightarrow> nodes dev s ip p \<noteq> 0 \<longrightarrow> nodes dev s' ip p = nodes dev s ip p)
     \<and> (\<forall>p. posn p \<longrightarrow> nodes dev s ip p = 0 \<longrightarrow> nodes dev s' ip p \<noteq> 0 \<longrightarrow> p \<in> S \<and> \<not> used dev s (nodes dev s' ip p))
     \<and> (\<forall>p. leaf p \<longrightarrow> leafdata dev ip s' p = leafdata dev ip s p)
     \<and> (\<forall>c < sb_size (sb s). used dev s c \<longrightarrow> used dev s' c)
     \<and> (\<forall>c < sb_bmapstart (sb s). blk s' dev c = blk s dev c)
     \<and> (\<forall>c < sb_size (sb s). dstart (sb s) \<le> c \<longrightarrow> used dev s c \<longrightarrow> (\<forall>p. posn p \<longrightarrow> nodes dev s ip p \<noteq> c) \<longrightarrow>
          blk s' dev c = blk s dev c)"

lemma upd_addrs_id: "upd_ino ip (\<lambda>i. i\<lparr>i_addrs := i_addrs (ino s ip)\<rparr>) s = s"
  by (simp add: upd_ino_def)

lemma grown_iff:
  "grown dev ip S s s' \<longleftrightarrow> fframe dev ip s s'
     \<and> (\<forall>p. posn p \<longrightarrow> nodes dev s ip p = 0 \<longrightarrow> nodes dev s' ip p \<noteq> 0 \<longrightarrow> p \<in> S)
     \<and> (\<forall>p. leaf p \<longrightarrow> leafdata dev ip s' p = leafdata dev ip s p)"
  unfolding grown_def fframe_def by blast

lemma grown_fframe: "grown dev ip S s s' \<Longrightarrow> fframe dev ip s s'"
  by (simp add: grown_iff)

lemmas grown_frame = fframe_frame [OF grown_fframe]

lemma grown_refl:
  assumes "fs_wf dev s" "ftree dev ip s"
  shows "grown dev ip S s s"
  unfolding grown_def using assms by (auto intro!: exI [of _ "i_addrs (ino s ip)"] simp: upd_addrs_id)

lemma grown_trans:
  assumes g1: "grown dev ip S s s1" and g2: "grown dev ip S' s1 s2"
  shows "grown dev ip (S \<union> S') s s2"
proof -
  have "fframe dev ip s s2" using fframe_trans g1 g2 by (auto simp: grown_iff)
  moreover have "p \<in> S \<union> S'" if "posn p" "nodes dev s ip p = 0" "nodes dev s2 ip p \<noteq> 0" for p
    using g1 g2 that unfolding grown_iff by blast
  ultimately show ?thesis using g1 g2 by (simp add: grown_iff)
qed

lemma grown_mono: "grown dev ip S s s' \<Longrightarrow> S \<subseteq> S' \<Longrightarrow> grown dev ip S' s s'"
  unfolding grown_def by blast

section \<open>One step of the walk\<close>

definition nfree :: "nat \<Rightarrow> 'a fsst_scheme \<Rightarrow> nat" where
  "nfree dev s = card {c. c < sb_size (sb s) \<and> \<not> used dev s c}"

lemma nfree_alloc:
  assumes "b < sb_size (sb s)" "\<not> used dev s b" "sb s' = sb s"
    "\<And>c. c < sb_size (sb s) \<Longrightarrow> used dev s' c \<longleftrightarrow> c = b \<or> used dev s c"
  shows "Suc (nfree dev s') = nfree dev s"
proof -
  have "{c. c < sb_size (sb s) \<and> \<not> used dev s c} = insert b {c. c < sb_size (sb s') \<and> \<not> used dev s' c}"
    using assms by auto
  moreover have "b \<notin> {c. c < sb_size (sb s') \<and> \<not> used dev s' c}" using assms by auto
  ultimately show ?thesis by (simp add: nfree_def)
qed

lemma nfree_pos: "0 < nfree dev s \<Longrightarrow> \<exists>c < sb_size (sb s). \<not> used dev s c"
  by (auto simp: nfree_def card_gt_0_iff)

text \<open>Adding a freshly allocated block at position \<open>pos\<close> of the forest.\<close>

lemma grown_add:
  fixes s s' :: "'a fsst_scheme"
  assumes t: "ftree dev ip s" and b: "dstart (sb s) \<le> b" "b < sb_size (sb s)" "\<not> used dev s b"
    and fr: "blk_frame (upd_ino ip (\<lambda>i. i\<lparr>i_addrs := as\<rparr>) s) s'"
    and wf: "fs_wf dev s'" and us: "\<And>c. c < sb_size (sb s) \<Longrightarrow> used dev s' c \<longleftrightarrow> c = b \<or> used dev s c"
    and len: "length as = 13" and pos: "posn pos" "nodes dev s ip pos = 0"
    and nd: "\<And>p. posn p \<Longrightarrow> node (blk s' dev) as p = (if p = pos then b else nodes dev s ip p)"
    and new: "blk s' dev b = replicate BSIZE 0"
    and low: "\<And>c. c < sb_bmapstart (sb s) \<Longrightarrow> blk s' dev c = blk s dev c"
    and par: "\<not> leaf q \<and> posn q \<or> P = b"  "posn q \<Longrightarrow> nodes dev s ip q = P \<or> P = b"
    and hi: "\<And>c. dstart (sb s) \<le> c \<Longrightarrow> c \<noteq> b \<Longrightarrow> c \<noteq> P \<Longrightarrow> blk s' dev c = blk s dev c"
  shows "grown dev ip {pos} s s'"
proof -
  note T = ftreeD [OF t]
  note f = blk_frameD [OF fr]
  have bb: "dstart (sb s) \<le> b" "b < sb_size (sb s)" "\<not> used dev s b" "b \<noteq> 0"
    using b by (auto simp: dstart_def)
  have fresh: "nodes dev s ip p \<noteq> b" if "posn p" for p using T(6) [OF that] bb by auto
  have ic: "ino s' ip = (ino s ip)\<lparr>i_addrs := as\<rparr>" "length (icache s') = length (icache s)"
    using f(9) T(1) by (simp_all add: upd_ino_def)
  have N: "nodes dev s' ip p = (if p = pos then b else nodes dev s ip p)" if "posn p" for p
    using nd [OF that] ic by simp
  have sb: "sb s' = sb s" using f(8) by simp
  have "ftree dev ip s'"
    unfolding ftree_def
  proof (intro conjI allI impI)
    fix p assume p: "posn p" "nodes dev s' ip p \<noteq> 0"
    show "dstart (sb s') \<le> nodes dev s' ip p" "nodes dev s' ip p < sb_size (sb s')"
      using p N [OF p(1)] T(4,5) bb sb by (auto split: if_splits)
    show "used dev s' (nodes dev s' ip p)"
    proof (cases "p = pos")
      case True
      then show ?thesis using N [OF p(1)] us bb(2) by auto
    next
      case False
      then show ?thesis using N [OF p(1)] p T(5,6) us by auto
    qed
  next
    fix p q assume p: "posn p" "posn q" "nodes dev s' ip p \<noteq> 0" "nodes dev s' ip p = nodes dev s' ip q"
    show "p = q"
      using p N [OF p(1)] N [OF p(2)] T(7) [OF p(1,2)] fresh [OF p(1)] fresh [OF p(2)] by (auto split: if_splits)
  qed (use ic T len in auto)
  moreover have "leafdata dev ip s' p = leafdata dev ip s p" if lp: "leaf p" for p
  proof (cases "p = pos")
    case True
    then show ?thesis using N pos new bb(4) lp by (simp add: leafdata_def)
  next
    case False
    have pp: "posn p" using lp by (simp add: leaf_def)
    have n: "nodes dev s' ip p = nodes dev s ip p" using N [OF pp] False by simp
    show ?thesis
    proof (cases "nodes dev s ip p = 0")
      case nz: False
      have "nodes dev s ip p \<noteq> P"
        using par fresh [OF pp] T(7) [OF pp _ nz] lp by metis
      then have "blk s' dev (nodes dev s ip p) = blk s dev (nodes dev s ip p)"
        using hi T(4) [OF pp nz] fresh [OF pp] by blast
      then show ?thesis using n by (simp add: leafdata_def)
    qed (use n in \<open>simp add: leafdata_def\<close>)
  qed
  moreover have "\<forall>c < sb_size (sb s). dstart (sb s) \<le> c \<longrightarrow> used dev s c \<longrightarrow> (\<forall>p. posn p \<longrightarrow> nodes dev s ip p \<noteq> c) \<longrightarrow>
      blk s' dev c = blk s dev c"
    using hi par bb(3) by metis
  ultimately show ?thesis
    using fr wf N pos us low bb unfolding grown_def by auto
qed

lemma get_cell_zeros: "j < NINDIRECT \<Longrightarrow> get_cell (replicate BSIZE 0) j = 0"
  by (rule get_u32_zeros) simp

lemma fs_wf_data:
  assumes w: "fs_wf dev s" and sb: "sb s' = sb s" and B: "\<And>c. c < dstart (sb s) \<Longrightarrow> blk s' dev c = blk s dev c"
    and len: "\<And>c. length (blk s' dev c) = BSIZE"
  shows "fs_wf dev s'" "\<And>c. c < sb_size (sb s) \<Longrightarrow> used dev s' c = used dev s c"
proof -
  show u: "used dev s' c = used dev s c" if "c < sb_size (sb s)" for c
    using BBLOCK_bounds [OF that] B sb by (simp add: used_def)
  show "fs_wf dev s'"
    by (rule fs_wf_bit [OF w sb]) (use w len B u in \<open>auto simp: dstart_def fs_wf_def\<close>)
qed

lemma held_data_grown:
  assumes "held_data dev s" "grown dev ip S s s'"
  shows "held_data dev s'"
proof -
  have "\<forall>c < sb_size (sb s). used dev s c \<longrightarrow> used dev s' c" using assms(2) by (simp add: grown_def)
  then show ?thesis using assms(1) grown_frame(3,4) [OF assms(2)] unfolding held_data_def by metis
qed

lemma bmap_addr_ok:
  fixes s :: "'a fsst_scheme"
  assumes w: "fs_wf dev s" and h: "held_data dev s" and t: "ftree dev ip s" and k: "k < 13"
    and r: "room (r + 3 * (if nodes dev s ip (k, []) = 0 then 1 else 0)) s"
    and n: "(if nodes dev s ip (k, []) = 0 then 1 else 0) \<le> nfree dev s"
  shows "\<exists>a s'. bmap_addr ip k s = Ok (a, s') \<and> a \<noteq> 0 \<and> nodes dev s' ip (k, []) = a \<and> grown dev ip {(k, [])} s s'
    \<and> room r s' \<and> nfree dev s' + (if nodes dev s ip (k, []) = 0 then 1 else 0) = nfree dev s"
proof -
  note T = ftreeD [OF t]
  have root: "nodes dev s ip (k, []) = i_addrs (ino s ip) ! k" by (simp add: node_def)
  show ?thesis
  proof (cases "nodes dev s ip (k, []) = 0")
    case False
    then have "bmap_addr ip k s = Ok (i_addrs (ino s ip) ! k, s)" using root by (simp add: bmap_addr_def)
    then show ?thesis using False root r grown_refl [OF w t] by auto
  next
    case True
    then have "room (Suc (Suc r)) s" "0 < nfree dev s" using r n room_mono [of "r + 3" s "Suc (Suc r)"] by auto
    moreover obtain c where "c < sb_size (sb s)" "\<not> used dev s c" using nfree_pos [OF calculation(2)] by blast
    ultimately obtain b s1 where b: "balloc dev s = Ok (b, s1)" "ballocated dev b s s1" "room r s1"
      using balloc_ok [OF w h] by blast
    have B: "blk_frame s s1" "fs_wf dev s1" "dstart (sb s) \<le> b" "b < sb_size (sb s)" "\<not> used dev s b"
        "\<And>c. c < sb_size (sb s) \<Longrightarrow> used dev s1 c \<longleftrightarrow> c = b \<or> used dev s c" "blk s1 dev b = replicate BSIZE 0"
        "\<And>c. c \<noteq> b \<Longrightarrow> c < sb_bmapstart (sb s) \<or> dstart (sb s) \<le> c \<Longrightarrow> blk s1 dev c = blk s dev c"
      using b(2) unfolding ballocated_def by blast+
    note f = blk_frameD [OF B(1)]
    let ?as = "(i_addrs (ino s ip))[k := b]"
    let ?s = "upd_ino ip (\<lambda>i. i\<lparr>i_addrs := (i_addrs i)[k := b]\<rparr>) s1"
    have bm: "b \<noteq> 0" "sb_bmapstart (sb s) \<le> b" using B(3) by (simp_all add: dstart_def)
    have fresh: "nodes dev s ip p \<noteq> b" if "posn p" for p using T(6) [OF that] B(5) bm by auto
    have fr: "blk_frame (upd_ino ip (\<lambda>i. i\<lparr>i_addrs := ?as\<rparr>) s) ?s"
    proof -
      have "upd_ino ip (\<lambda>i. i\<lparr>i_addrs := ?as\<rparr>) s = upd_ino ip (\<lambda>i. i\<lparr>i_addrs := (i_addrs i)[k := b]\<rparr>) s"
        by (simp add: upd_ino_def)
      then show ?thesis using blk_frame_upd_ino [OF B(1)] by simp
    qed
    have nd: "node (blk ?s dev) ?as p = (if p = (k, []) then b else nodes dev s ip p)" if "posn p" for p
    proof (rule node_unique [OF _ _ _ that])
      show "?as ! k' = (if (k', []) = (k, []) then b else nodes dev s ip (k', []))" if "k' < 13" for k'
        using that T(3) k by (simp add: node_def nth_list_update)
      fix k' js j assume q: "posn (k', js @ [j])"
      then have q': "posn (k', js)" "j < NINDIRECT" by (simp_all add: posn_snoc)
      show "(if (k', js) = (k, []) then b else nodes dev s ip (k', js)) = 0 \<Longrightarrow>
          (if (k', js @ [j]) = (k, []) then b else nodes dev s ip (k', js @ [j])) = 0"
        using bm(1) by (auto simp: node_snoc split: if_splits)
      assume nz: "(if (k', js) = (k, []) then b else nodes dev s ip (k', js)) \<noteq> 0"
      show "get_cell (blk ?s dev (if (k', js) = (k, []) then b else nodes dev s ip (k', js))) j
          = (if (k', js @ [j]) = (k, []) then b else nodes dev s ip (k', js @ [j]))"
      proof (cases "(k', js) = (k, [])")
        case eq: True
        then have "nodes dev s ip (k', js @ [j]) = 0" using True node_snoc [of _ _ k js j] by simp
        then show ?thesis using eq B(7) get_cell_zeros [OF q'(2)] by simp
      next
        case False
        then have z: "nodes dev s ip (k', js) \<noteq> 0" using nz by (simp only: if_False simp_thms)
        have "blk s1 dev (nodes dev s ip (k', js)) = blk s dev (nodes dev s ip (k', js))"
          using B(8) fresh [OF q'(1)] T(4) [OF q'(1) z] by blast
        then show ?thesis using False z by (auto simp: node_snoc)
      qed
    qed
    have g: "grown dev ip {(k, [])} s ?s"
      by (rule grown_add [OF t B(3,4,5) fr, where P = b and q = "(k, [])"])
        (use B nd T(3) k True bm in \<open>auto simp: posn_root\<close>)
    have "bmap_addr ip k s = Ok (b, ?s)" using True root b(1) T(2) by (simp add: bmap_addr_def)
    moreover have "nodes dev ?s ip (k, []) = b" using f(9) T(1,3) k by (simp add: node_def ino_upd_ino)
    moreover have "Suc (nfree dev ?s) = nfree dev s" by (rule nfree_alloc [OF B(4,5)]) (use f B(6) in simp_all)
    ultimately show ?thesis using g b(3) bm(1) True by auto
  qed
qed

lemma blk_frame_bheld:
  fixes s s2 :: "'a fsst_scheme"
  shows "blk_frame (s\<lparr>bheld := x\<rparr>) s2 \<Longrightarrow> blk_frame s (s2\<lparr>bheld := bheld s\<rparr>)"
  by (auto simp: blk_frame_def log_frame_def)

text \<open>Linking a fresh block into entry \<open>i\<close> of the indirect block at \<open>(k, is)\<close>.\<close>

lemma node_link:
  assumes t: "ftree dev ip s" and pos: "posn (k, is @ [i])" "nodes dev s ip (k, is @ [i]) = 0"
    and P: "P = nodes dev s ip (k, is)" "P \<noteq> 0"
    and b: "dstart (sb s) \<le> b" "\<not> used dev s b" "b < 2 ^ 32" and len: "length (blk s dev P) = BSIZE"
    and B: "B b = replicate BSIZE 0" "B P = put_cell (blk s dev P) i b"
      "\<And>c. dstart (sb s) \<le> c \<Longrightarrow> c \<noteq> b \<Longrightarrow> c \<noteq> P \<Longrightarrow> B c = blk s dev c"
    and p: "posn p"
  shows "node B (i_addrs (ino s ip)) p = (if p = (k, is @ [i]) then b else nodes dev s ip p)"
proof (rule node_unique [OF _ _ _ p])
  note T = ftreeD [OF t]
  have b0: "b \<noteq> 0" using b(1) by (simp add: dstart_def)
  have fresh: "nodes dev s ip p \<noteq> b" if "posn p" for p using T(6) [OF that] b b0 by auto
  show "i_addrs (ino s ip) ! k' = (if (k', []) = (k, is @ [i]) then b else nodes dev s ip (k', []))" for k'
    by (simp add: node_def)
  fix k' js j assume q: "posn (k', js @ [j])"
  then have q': "posn (k', js)" "j < NINDIRECT" by (simp_all add: posn_snoc)
  have i: "i < NINDIRECT" "posn (k, is)" using pos(1) by (simp_all add: posn_snoc)
  let ?f = "\<lambda>p. if p = (k, is @ [i]) then b else nodes dev s ip p"
  show "?f (k', js) = 0 \<Longrightarrow> ?f (k', js @ [j]) = 0"
    using b0 P by (auto simp: node_snoc split: if_splits)
  assume nz: "?f (k', js) \<noteq> 0"
  show "get_cell (B (?f (k', js))) j = ?f (k', js @ [j])"
  proof (cases "(k', js) = (k, is @ [i])")
    case True
    then have "nodes dev s ip (k', js @ [j]) = 0" using pos(2) node_snoc [of _ _ k js j] by simp
    moreover have "(k', js @ [j]) \<noteq> (k, is @ [i])" using True by auto
    ultimately show ?thesis using True B(1) get_cell_zeros [OF q'(2)] by simp
  next
    case ne: False
    then have z: "nodes dev s ip (k', js) \<noteq> 0" using nz by (simp only: if_False simp_thms)
    show ?thesis
    proof (cases "nodes dev s ip (k', js) = P")
      case True
      then have e: "(k', js) = (k, is)" using T(7) [OF q'(1) i(2) z] P(1) by simp
      have "get_cell (B P) j = (if i = j then b else get_cell (blk s dev P) j)"
        unfolding B(2) by (rule get_put_cell) (use i q' len b(3) in auto)
      then show ?thesis using e ne P by (auto simp: node_snoc)
    next
      case False
      have "B (nodes dev s ip (k', js)) = blk s dev (nodes dev s ip (k', js))"
        using B(3) fresh [OF q'(1)] T(4) [OF q'(1) z] False by blast
      moreover have "(k', js @ [j]) \<noteq> (k, is @ [i])" using False P by auto
      ultimately show ?thesis using ne z by (auto simp: node_snoc)
    qed
  qed
qed

lemma bmap_slot_ok:
  fixes s :: "'a fsst_scheme"
  assumes w: "fs_wf dev s" and h: "held_data dev s" and t: "ftree dev ip s" and pos: "posn (k, is @ [i])"
    and P: "P = nodes dev s ip (k, is)" "P \<noteq> 0" "(dev, P) \<notin> set (bheld s)"
    and r: "room (r + 3 * (if nodes dev s ip (k, is @ [i]) = 0 then 1 else 0)) s"
    and n: "(if nodes dev s ip (k, is @ [i]) = 0 then 1 else 0) \<le> nfree dev s"
  shows "\<exists>a s'. bmap_slot dev P i s = Ok (a, s') \<and> a \<noteq> 0 \<and> nodes dev s' ip (k, is @ [i]) = a
    \<and> grown dev ip {(k, is @ [i])} s s' \<and> room r s'
    \<and> nfree dev s' + (if nodes dev s ip (k, is @ [i]) = 0 then 1 else 0) = nfree dev s"
proof -
  note T = ftreeD [OF t]
  have pp: "posn (k, is)" "i < NINDIRECT" "length is < levels k" using pos by (simp_all add: posn_snoc)
  have Pr: "dstart (sb s) \<le> P" "P < sb_size (sb s)" "used dev s P" "P < FSSIZE"
    using T(4-6) [OF pp(1)] P w by (auto simp: fs_wf_def)
  have cell: "nodes dev s ip (k, is @ [i]) = get_cell (blk s dev P) i" using P by (simp add: node_snoc)
  have hs: "held s = []" using room_free [OF r] .
  note rd = read_block_ok [OF hs P(3) Pr(4)]
  let ?s1 = "s\<lparr>bheld := (dev, P) # bheld s\<rparr>"
  show ?thesis
  proof (cases "nodes dev s ip (k, is @ [i]) = 0")
    case False
    obtain s' where s': "brelse dev P ?s1 = Ok s'" "blk_frame s s'" "blk s' = blk s" "lh_n s' = lh_n s" "lh_block s' = lh_block s"
      using rd(2) by blast
    note f = blk_frameD [OF s'(2)]
    have "bmap_slot dev P i s = Ok (nodes dev s ip (k, is @ [i]), s')"
      using False cell rd(1) s'(1) by (simp add: bmap_slot_def)
    moreover have us: "used dev s' = used dev s" using f(8) s'(3) by (simp add: used_def fun_eq_iff)
    have "grown dev ip {(k, is @ [i])} s s'"
      unfolding grown_def
    proof (intro conjI)
      show "\<exists>as. blk_frame (upd_ino ip (\<lambda>i. i\<lparr>i_addrs := as\<rparr>) s) s'"
        using s'(2) by (intro exI [of _ "i_addrs (ino s ip)"]) (simp add: upd_addrs_id)
      show "fs_wf dev s'" using fs_wf_cong [OF w f(8)] s'(3) by simp
      show "ftree dev ip s'" using t f s'(3) us by (simp add: ftree_def)
    qed (use f s'(3) us in \<open>auto simp: leafdata_def\<close>)
    moreover have "nodes dev s' ip (k, is @ [i]) = nodes dev s ip (k, is @ [i])" "nfree dev s' = nfree dev s"
      using f s'(3) us by (simp_all add: nfree_def)
    ultimately show ?thesis using False r room_cong [OF s'(2,4,5)] by auto
  next
    case True
    then have r3: "room (Suc (Suc (Suc r))) s" "0 < nfree dev s" using r n by (auto simp: eval_nat_numeral)
    obtain c where c: "c < sb_size (sb s)" "\<not> used dev s c" using nfree_pos [OF r3(2)] by blast
    have s1: "fs_wf dev ?s1" "held_data dev ?s1" "room (Suc (Suc (Suc r))) ?s1" "used dev ?s1 = used dev s"
      using w h Pr r3(1) by (auto simp: fs_wf_def held_data_def room_def used_def fun_eq_iff)
    obtain b s2 where b: "balloc dev ?s1 = Ok (b, s2)" "ballocated dev b ?s1 s2" "room (Suc r) s2"
      by (rule balloc_ok [OF s1(1-3), of c]) (use c s1(4) in auto)
    have B: "blk_frame ?s1 s2" "fs_wf dev s2" "dstart (sb s) \<le> b" "b < sb_size (sb s)" "\<not> used dev s b"
        "\<And>c. c < sb_size (sb s) \<Longrightarrow> used dev s2 c \<longleftrightarrow> c = b \<or> used dev s c" "blk s2 dev b = replicate BSIZE 0"
        "\<And>c. c \<noteq> b \<Longrightarrow> c < sb_bmapstart (sb s) \<or> dstart (sb s) \<le> c \<Longrightarrow> blk s2 dev c = blk s dev c"
      using b(2) s1(4) unfolding ballocated_def by auto
    note f = blk_frameD [OF B(1)]
    have "P \<noteq> b" using Pr(3) B(5) by auto
    then have Pb: "P \<noteq> b" "blk s2 dev P = blk s dev P" using B(8) [of P] Pr(1) by auto
    let ?t = "s2\<lparr>bheld := bheld s\<rparr>" and ?d = "put_cell (blk s2 dev P) i b"
    have tt: "?t\<lparr>bheld := (dev, P) # bheld ?t\<rparr> = s2"
      using f(3) by (intro fsst.equality) simp_all
    have rt: "room (Suc r) ?t" "(dev, P) \<notin> set (bheld ?t)" using b(3) P(3) by (simp_all add: room_def)
    obtain s' where s': "rbind (log_write P (bset dev P ?d s2)) (brelse dev P) = Ok s'" "blk_frame ?t s'"
        "blk s' = set_block dev P ?d (blk s2)" "room r s'"
      using write_block_ok [OF rt, of ?d] unfolding tt by auto
    have e: "bmap_slot dev P i s = rbind (rbind (log_write P (bset dev P ?d s2)) (brelse dev P)) (\<lambda>s. Ok (b, s))"
      using True cell rd(1) b(1) by (simp add: bmap_slot_def)
    have fr: "blk_frame s s'" using blk_frame_trans [OF blk_frame_bheld [OF B(1)] s'(2)] .
    note fs = blk_frameD [OF fr]
    have lens: "length (blk s dev c) = BSIZE" "length (blk s2 dev c) = BSIZE" for c
      using w B(2) by (auto simp: fs_wf_def)
    have B': "blk s' dev c = (if c = P then ?d else blk s2 dev c)" for c using s'(3) by (simp add: set_block_apply)
    have wf: "fs_wf dev s'" "\<And>c. c < sb_size (sb s2) \<Longrightarrow> used dev s' c = used dev s2 c"
      by (rule fs_wf_data [OF B(2), of s']; use f(8) fs(8) B' Pr lens pp(2) in auto)+
    have us: "used dev s' c \<longleftrightarrow> c = b \<or> used dev s c" if "c < sb_size (sb s)" for c
      using wf(2) B(6) f(8) that by simp
    have b32: "b < 2 ^ 32" using B(4) w by (simp add: fs_wf_def)
    have ic: "i_addrs (ino s' ip) = i_addrs (ino s ip)" using fs(9) by simp
    have nd: "node (blk s' dev) (i_addrs (ino s ip)) p = (if p = (k, is @ [i]) then b else nodes dev s ip p)" if "posn p" for p
      by (rule node_link [OF t pos True P(1,2) B(3,5) b32 lens(1) _ _ _ that])
        (use B' B(7,8) Pb in auto)
    have g: "grown dev ip {(k, is @ [i])} s s'"
    proof (rule grown_add [OF t B(3,4,5) _ wf(1) us T(3) pos True nd, where P = P and q = "(k, is)"])
      show "blk_frame (upd_ino ip (\<lambda>j. j\<lparr>i_addrs := i_addrs (ino s ip)\<rparr>) s) s'" using fr by (simp add: upd_addrs_id)
      show "\<not> leaf (k, is) \<and> posn (k, is) \<or> P = b" using pp by (simp add: leaf_def)
      show "blk s' dev b = replicate BSIZE 0" using B' Pb(1) B(7) by simp
      show "blk s' dev c = blk s dev c" if "c < sb_bmapstart (sb s)" for c
        using B' B(8) [of c] B(3) Pr(1) that by (auto simp: dstart_def)
    qed (use P B' B(8) in auto)
    have "nodes dev s' ip (k, is @ [i]) = b" using nd [OF pos] ic by simp
    moreover have "Suc (nfree dev s') = nfree dev s" by (rule nfree_alloc [OF B(4,5) fs(8) us])
    ultimately show ?thesis using e s'(1,4) g True B(3) by (auto simp: dstart_def)
  qed
qed

section \<open>The whole walk\<close>

text \<open>The number of blocks that are missing along a path: each costs one block and three log entries.\<close>

fun miss :: "(bpos \<Rightarrow> nat) \<Rightarrow> nat \<Rightarrow> nat list \<Rightarrow> nat list \<Rightarrow> nat" where
  "miss nd k js [] = 0"
| "miss nd k js (i # is) = (if nd (k, js @ [i]) = 0 then 1 else 0) + miss nd k (js @ [i]) is"

definition missing :: "(bpos \<Rightarrow> nat) \<Rightarrow> bpos \<Rightarrow> nat" where
  "missing nd p = (if nd (fst p, []) = 0 then 1 else 0) + miss nd (fst p) [] (snd p)"

definition prefixes :: "bpos \<Rightarrow> bpos set" where
  "prefixes p = {(fst p, take n (snd p)) | n. True}"

lemma posn_append: "posn (k, js @ is) \<Longrightarrow> posn (k, js)"
  by (auto simp: posn_def)

lemma miss_cong:
  "(\<And>ks. ks \<noteq> [] \<Longrightarrow> posn (k, js @ ks) \<Longrightarrow> nd' (k, js @ ks) = nd (k, js @ ks)) \<Longrightarrow> posn (k, js @ is) \<Longrightarrow>
   miss nd' k js is = miss nd k js is"
proof (induction "is" arbitrary: js)
  case (Cons i "is")
  have "posn (k, js @ [i])" using Cons.prems(2) posn_append [of k "js @ [i]" "is"] by simp
  moreover have "miss nd' k (js @ [i]) is = miss nd k (js @ [i]) is"
    by (rule Cons.IH) (use Cons.prems in auto)
  ultimately show ?case using Cons.prems(1) [of "[i]"] by simp
qed simp

lemma bmap_slots_ok:
  fixes s :: "'a fsst_scheme"
  assumes "fs_wf dev s" "ftree dev ip s" "bheld s = []" "posn (k, js @ is)"
    "a = nodes dev s ip (k, js)" "a \<noteq> 0"
    "room (r + 3 * miss (nodes dev s ip) k js is) s" "miss (nodes dev s ip) k js is \<le> nfree dev s"
  shows "\<exists>a' s'. bmap_slots dev a is s = Ok (a', s') \<and> a' \<noteq> 0 \<and> nodes dev s' ip (k, js @ is) = a'
    \<and> grown dev ip (prefixes (k, js @ is)) s s' \<and> room r s'
    \<and> nfree dev s' + miss (nodes dev s ip) k js is = nfree dev s"
  using assms
proof (induction "is" arbitrary: js a s)
  case Nil
  then show ?case using grown_refl by auto
next
  case (Cons i "is")
  let ?c = "if nodes dev s ip (k, js @ [i]) = 0 then 1 else 0 :: nat"
  let ?m = "miss (nodes dev s ip) k (js @ [i]) is"
  have hd: "held_data dev s" using Cons.prems(3) by (simp add: held_data_def)
  have pos: "posn (k, js @ [i])" using Cons.prems(4) posn_append [of k "js @ [i]" "is"] by simp
  have rm: "room ((r + 3 * ?m) + 3 * ?c) s" "?c \<le> nfree dev s"
    using Cons.prems(7,8) by (simp_all add: algebra_simps)
  obtain a1 s1 where s1: "bmap_slot dev a i s = Ok (a1, s1)" "a1 \<noteq> 0" "nodes dev s1 ip (k, js @ [i]) = a1"
      "grown dev ip {(k, js @ [i])} s s1" "room (r + 3 * ?m) s1" "nfree dev s1 + ?c = nfree dev s"
    using bmap_slot_ok [OF Cons.prems(1) hd Cons.prems(2) pos Cons.prems(5,6) _ rm] Cons.prems(3) by auto
  note g = grown_frame [OF s1(4)]
  have same: "nodes dev s1 ip p = nodes dev s ip p" if "posn p" "p \<noteq> (k, js @ [i])" for p
    using s1(4) that unfolding grown_def by (metis singletonD)
  have m: "miss (nodes dev s1 ip) k (js @ [i]) is = ?m"
    by (rule miss_cong) (use same Cons.prems(4) in auto)
  have "\<exists>a' s'. bmap_slots dev a1 is s1 = Ok (a', s') \<and> a' \<noteq> 0 \<and> nodes dev s' ip (k, (js @ [i]) @ is) = a'
    \<and> grown dev ip (prefixes (k, (js @ [i]) @ is)) s1 s' \<and> room r s'
    \<and> nfree dev s' + miss (nodes dev s1 ip) k (js @ [i]) is = nfree dev s1"
  proof (rule Cons.IH)
    show "posn (k, (js @ [i]) @ is)" using Cons.prems(4) by simp
    show "room (r + 3 * miss (nodes dev s1 ip) k (js @ [i]) is) s1" using s1(5) m by simp
    show "miss (nodes dev s1 ip) k (js @ [i]) is \<le> nfree dev s1" using Cons.prems(8) s1(6) m by simp
    show "bheld s1 = []" using g(3) Cons.prems(3) by simp
  qed (use g(13,14) s1(2,3) in simp_all)
  then obtain a' s' where s': "bmap_slots dev a1 is s1 = Ok (a', s')" "a' \<noteq> 0" "nodes dev s' ip (k, js @ i # is) = a'"
    "grown dev ip (prefixes (k, js @ i # is)) s1 s'" "room r s'" "nfree dev s' + ?m = nfree dev s1"
    unfolding m by auto
  have "(k, js @ [i]) \<in> prefixes (k, js @ i # is)"
    by (auto simp: prefixes_def intro!: exI [of _ "Suc (length js)"])
  then have "grown dev ip (prefixes (k, js @ i # is)) s s'"
    using grown_mono [OF grown_trans [OF s1(4) s'(4)]] by blast
  then show ?case using s1(1,6) s' by auto
qed

text \<open>
  \<open>bmap\<close> returns, the block it returns is the one at the position of \<open>bn\<close>, and it has only added
  blocks along the path to it.
\<close>

lemma bmap_ok:
  fixes s :: "'a fsst_scheme"
  assumes w: "fs_wf dev s" and t: "ftree dev ip s" and h: "bheld s = []" and bn: "bn < MAXFILE"
    and r: "room (r + 3 * missing (nodes dev s ip) (pos_of bn)) s" and n: "missing (nodes dev s ip) (pos_of bn) \<le> nfree dev s"
  shows "\<exists>a s'. bmap ip bn s = Ok (a, s') \<and> a \<noteq> 0 \<and> nodes dev s' ip (pos_of bn) = a
    \<and> grown dev ip (prefixes (pos_of bn)) s s' \<and> room r s'
    \<and> nfree dev s' + missing (nodes dev s ip) (pos_of bn) = nfree dev s"
proof -
  obtain k "is" where p: "pos_of bn = (k, is)" by (cases "pos_of bn")
  have pos: "posn (k, [] @ is)" "k < 13" using leaf_pos_of [OF bn] p by (simp_all add: leaf_def posn_def)
  let ?c = "if nodes dev s ip (k, []) = 0 then 1 else 0 :: nat"
  let ?m = "miss (nodes dev s ip) k [] is"
  have mp: "missing (nodes dev s ip) (pos_of bn) = ?c + ?m" by (simp add: missing_def p)
  have hd: "held_data dev s" using h by (simp add: held_data_def)
  have rm: "room ((r + 3 * ?m) + 3 * ?c) s" "?c \<le> nfree dev s"
    using r n unfolding mp by (simp_all add: algebra_simps)
  obtain a1 s1 where s1: "bmap_addr ip k s = Ok (a1, s1)" "a1 \<noteq> 0" "nodes dev s1 ip (k, []) = a1"
      "grown dev ip {(k, [])} s s1" "room (r + 3 * ?m) s1" "nfree dev s1 + ?c = nfree dev s"
    using bmap_addr_ok [OF w hd t pos(2) rm] by blast
  note g = grown_frame [OF s1(4)]
  have same: "nodes dev s1 ip p = nodes dev s ip p" if "posn p" "p \<noteq> (k, [])" for p
    using s1(4) that unfolding grown_def by (metis singletonD)
  have m: "miss (nodes dev s1 ip) k [] is = ?m"
    by (rule miss_cong [OF _ pos(1)]) (use same in auto)
  have le: "?m \<le> nfree dev s1" using n s1(6) unfolding mp by simp
  obtain a s' where s': "bmap_slots dev a1 is s1 = Ok (a, s')" "a \<noteq> 0" "nodes dev s' ip (k, is) = a"
      "grown dev ip (prefixes (k, is)) s1 s'" "room r s'" "nfree dev s' + ?m = nfree dev s1"
    using bmap_slots_ok [OF g(13,14) _ pos(1) s1(3) [symmetric] s1(2), of r] g(3) h s1(5) le unfolding m by auto
  have "(k, []) \<in> prefixes (k, is)" by (auto simp: prefixes_def intro!: exI [of _ 0])
  then have "grown dev ip (prefixes (k, is)) s s'"
    using grown_mono [OF grown_trans [OF s1(4) s'(4)]] by blast
  then show ?thesis using s1(1,6) s' bmap_walk [OF bn, of ip s] ftreeD(2) [OF t] unfolding mp by (auto simp: p)
qed

section \<open>Truncation\<close>

text \<open>\<open>s1\<close> is \<open>s0\<close> with the blocks of \<open>F\<close> freed, with possibly other buffers locked.\<close>

definition freed :: "nat \<Rightarrow> nat set \<Rightarrow> nat set \<Rightarrow> 'a fsst_scheme \<Rightarrow> 'a fsst_scheme \<Rightarrow> bool" where
  "freed dev S F s0 s1 \<longleftrightarrow> blk_frame (s0\<lparr>bheld := bheld s1\<rparr>) s1 \<and> fs_wf dev s1 \<and> room_set S s1
     \<and> (\<forall>c < sb_size (sb s0). used dev s1 c \<longleftrightarrow> used dev s0 c \<and> c \<notin> F)
     \<and> (\<forall>c. c < sb_bmapstart (sb s0) \<or> dstart (sb s0) \<le> c \<longrightarrow> blk s1 dev c = blk s0 dev c)"

definition bitmap_blocks :: "superblock \<Rightarrow> nat set" where
  "bitmap_blocks z = {BBLOCK c z | c. c < sb_size z}"

lemma freed_sb: "freed dev S F s0 s1 \<Longrightarrow> sb s1 = sb s0" and freed_icache: "freed dev S F s0 s1 \<Longrightarrow> icache s1 = icache s0"
  using blk_frameD(8,9) [of "s0\<lparr>bheld := bheld s1\<rparr>" s1] by (simp_all add: freed_def)

lemma freed_bheld: "freed dev S F s0 s1 \<Longrightarrow> freed dev S F s0 (s1\<lparr>bheld := x\<rparr>)"
  by (auto simp: freed_def blk_frame_def log_frame_def fs_wf_def used_def room_set_def logged_def)

definition held_ok :: "nat \<Rightarrow> nat set \<Rightarrow> 'a fsst_scheme \<Rightarrow> 'a fsst_scheme \<Rightarrow> bool" where
  "held_ok dev F s0 s1 \<longleftrightarrow> (\<forall>y. (dev, y) \<in> set (bheld s1) \<longrightarrow>
     dstart (sb s0) \<le> y \<and> y < sb_size (sb s0) \<and> used dev s0 y \<and> y \<notin> F)"

lemma held_ok_data: "freed dev S F s0 s1 \<Longrightarrow> held_ok dev F s0 s1 \<Longrightarrow> held_data dev s1"
  using freed_sb [of dev S F s0 s1] by (simp add: held_ok_def held_data_def freed_def)

lemma bfree_freed:
  fixes s0 s1 :: "'a fsst_scheme"
  assumes f: "freed dev S F s0 s1" and h: "held_ok dev F s0 s1" and S: "bitmap_blocks (sb s0) \<subseteq> S"
    and c: "dstart (sb s0) \<le> c" "c < sb_size (sb s0)" "used dev s0 c" "c \<notin> F"
  shows "\<exists>s2. bfree dev c s1 = Ok s2 \<and> freed dev S (insert c F) s0 s2 \<and> bheld s2 = bheld s1"
proof -
  have sb: "sb s1 = sb s0" using freed_sb [OF f] .
  have fr: "blk_frame (s0\<lparr>bheld := bheld s1\<rparr>) s1" "fs_wf dev s1" "room_set S s1"
      "\<And>c. c < sb_size (sb s0) \<Longrightarrow> used dev s1 c \<longleftrightarrow> used dev s0 c \<and> c \<notin> F"
      "\<And>c. c < sb_bmapstart (sb s0) \<or> dstart (sb s0) \<le> c \<Longrightarrow> blk s1 dev c = blk s0 dev c"
    using f unfolding freed_def by blast+
  have "BBLOCK c (sb s1) \<in> S" using S c(2) sb by (auto simp: bitmap_blocks_def)
  moreover have "used dev s1 c" using fr(4) c by simp
  ultimately obtain s2 where s2: "bfree dev c s1 = Ok s2" "bfreed dev c s1 s2" "room_set S s2"
    using rs.bfree_block(1) [OF fr(2) held_ok_data [OF f h] fr(3), of c] c(1,2) sb by auto
  have b: "blk_frame s1 s2" "fs_wf dev s2" "\<And>d. d < sb_size (sb s0) \<Longrightarrow> used dev s2 d \<longleftrightarrow> d \<noteq> c \<and> used dev s1 d"
      "\<And>d. d < sb_bmapstart (sb s0) \<or> dstart (sb s0) \<le> d \<Longrightarrow> blk s2 dev d = blk s1 dev d"
    using s2(2) sb unfolding bfreed_def by auto
  have bh: "bheld s2 = bheld s1" using blk_frameD(3) [OF b(1)] .
  have "blk_frame (s0\<lparr>bheld := bheld s2\<rparr>) s2" using blk_frame_trans [OF fr(1) b(1)] bh by simp
  then have "freed dev S (insert c F) s0 s2" using b fr s2(3) unfolding freed_def by auto
  then show ?thesis using s2(1) bh by blast
qed

text \<open>The blocks below a position, with and without the block at the position itself.\<close>

definition subtree :: "(bpos \<Rightarrow> nat) \<Rightarrow> nat \<Rightarrow> nat list \<Rightarrow> nat set" where
  "subtree N k js = {N (k, js @ ks) | ks. posn (k, js @ ks) \<and> N (k, js @ ks) \<noteq> 0}"

definition below :: "(bpos \<Rightarrow> nat) \<Rightarrow> nat \<Rightarrow> nat list \<Rightarrow> nat set" where
  "below N k js = {N (k, js @ ks) | ks. ks \<noteq> [] \<and> posn (k, js @ ks) \<and> N (k, js @ ks) \<noteq> 0}"

lemma subtree_below: "posn (k, js) \<Longrightarrow> N (k, js) \<noteq> 0 \<Longrightarrow> subtree N k js = insert (N (k, js)) (below N k js)"
proof (rule set_eqI, rule iffI)
  fix x assume p: "posn (k, js)" "N (k, js) \<noteq> 0" and x: "x \<in> subtree N k js"
  then obtain ks where "x = N (k, js @ ks)" "posn (k, js @ ks)" "N (k, js @ ks) \<noteq> 0" by (auto simp: subtree_def)
  then show "x \<in> insert (N (k, js)) (below N k js)" by (cases "ks = []") (auto simp: below_def)
next
  fix x assume p: "posn (k, js)" "N (k, js) \<noteq> 0" and "x \<in> insert (N (k, js)) (below N k js)"
  then show "x \<in> subtree N k js"
    unfolding below_def subtree_def by (auto) (metis append_Nil2)
qed

lemma below_children: "below N k js = (\<Union>i<NINDIRECT. subtree N k (js @ [i]))"
proof (rule set_eqI, rule iffI)
  fix x assume "x \<in> below N k js"
  then obtain ks where ks: "x = N (k, js @ ks)" "ks \<noteq> []" "posn (k, js @ ks)" "N (k, js @ ks) \<noteq> 0"
    by (auto simp: below_def)
  then obtain i ks' where "ks = i # ks'" by (cases ks) auto
  with ks show "x \<in> (\<Union>i<NINDIRECT. subtree N k (js @ [i]))"
    by (auto simp: subtree_def posn_def intro!: bexI [of _ i])
next
  fix x assume "x \<in> (\<Union>i<NINDIRECT. subtree N k (js @ [i]))"
  then show "x \<in> below N k js" by (auto simp: subtree_def below_def)
qed

lemma subtree_zero: "N (k, js) = 0 \<Longrightarrow> (\<And>ks i. N (k, ks) = 0 \<Longrightarrow> N (k, ks @ [i]) = 0) \<Longrightarrow> subtree N k js = {}"
proof -
  assume z: "N (k, js) = 0" "\<And>ks i. N (k, ks) = 0 \<Longrightarrow> N (k, ks @ [i]) = 0"
  have "N (k, js @ ks) = 0" for ks
  proof (induction ks rule: rev_induct)
    case (snoc i ks)
    then show ?case using z(2) [of "js @ ks" i] by simp
  qed (use z(1) in simp)
  then show ?thesis by (simp add: subtree_def)
qed

lemma subtree_disjoint:
  assumes t: "ftree dev ip s" and x: "x \<in> subtree (nodes dev s ip) k js" "x \<in> subtree (nodes dev s ip) k' js'"
  shows "k = k' \<and> (\<exists>ks ks'. js @ ks = js' @ ks')"
proof -
  obtain ks where ks: "x = nodes dev s ip (k, js @ ks)" "posn (k, js @ ks)" "x \<noteq> 0"
    using x(1) by (auto simp: subtree_def)
  obtain ks' where "x = nodes dev s ip (k', js' @ ks')" "posn (k', js' @ ks')"
    using x(2) by (auto simp: subtree_def)
  with ks have "(k, js @ ks) = (k', js' @ ks')" using ftreeD(7) [OF t] by metis
  then show ?thesis by blast
qed

lemma subtree_siblings:
  assumes t: "ftree dev ip s" and ij: "i \<noteq> j"
  shows "subtree (nodes dev s ip) k (js @ [i]) \<inter> subtree (nodes dev s ip) k (js @ [j]) = {}"
proof (rule ccontr)
  assume "subtree (nodes dev s ip) k (js @ [i]) \<inter> subtree (nodes dev s ip) k (js @ [j]) \<noteq> {}"
  then obtain x where "x \<in> subtree (nodes dev s ip) k (js @ [i])" "x \<in> subtree (nodes dev s ip) k (js @ [j])" by blast
  then obtain ks ks' where "(js @ [i]) @ ks = (js @ [j]) @ ks'" using subtree_disjoint [OF t] by blast
  then show False using ij by simp
qed

lemma subtree_parent:
  assumes t: "ftree dev ip s" and p: "posn (k, js)" "nodes dev s ip (k, js) \<noteq> 0"
  shows "nodes dev s ip (k, js) \<notin> subtree (nodes dev s ip) k (js @ [i])"
proof
  assume "nodes dev s ip (k, js) \<in> subtree (nodes dev s ip) k (js @ [i])"
  then obtain ks where "nodes dev s ip (k, js) = nodes dev s ip (k, js @ i # ks)" "posn (k, js @ i # ks)"
    by (auto simp: subtree_def)
  then have "(k, js) = (k, js @ i # ks)" using ftreeD(7) [OF t p(1)] p(2) by metis
  then show False by simp
qed

lemma subtree_child: "subtree N k (js @ [i]) \<subseteq> subtree N k js"
  by (auto simp: subtree_def)

lemma subtree_data:
  assumes t: "ftree dev ip s" and x: "x \<in> subtree (nodes dev s ip) k js"
  shows "dstart (sb s) \<le> x" "x < sb_size (sb s)" "used dev s x"
  using x ftreeD(4-6) [OF t] by (auto simp: subtree_def)

text \<open>\<open>free_tree\<close> frees exactly the blocks below the one it is given.\<close>

lemma free_tree_ok:
  fixes s0 s1 :: "'a fsst_scheme"
  assumes t: "ftree dev ip s0" and S: "bitmap_blocks (sb s0) \<subseteq> S" and lim: "sb_size (sb s0) \<le> FSSIZE"
  defines "N \<equiv> nodes dev s0 ip"
  assumes "freed dev S F s0 s1" "held_ok dev F s0 s1" "posn (k, js)" "length js + n = levels k" "N (k, js) \<noteq> 0"
    "F \<inter> subtree N k js = {}" "\<forall>y. (dev, y) \<in> set (bheld s1) \<longrightarrow> y \<notin> subtree N k js"
  shows "\<exists>s2. free_tree n dev (N (k, js)) s1 = Ok s2 \<and> freed dev S (F \<union> below N k js) s0 s2 \<and> bheld s2 = bheld s1"
  using assms(5-11)
proof (induction n arbitrary: js F s1)
  case 0
  then have "below N k js = {}" by (auto simp: below_def posn_def)
  then show ?case using 0 by auto
next
  case (Suc n)
  let ?b = "N (k, js)" and ?U = "\<lambda>j. F \<union> (\<Union>i<j. subtree N k (js @ [i]))"
  have bs: "?b \<in> subtree N k js" using Suc.prems(3,5) subtree_below [of k js N] by simp
  note bd = subtree_data [OF t bs [unfolded N_def], folded N_def]
  have nh: "(dev, ?b) \<notin> set (bheld s1)" using Suc.prems(7) bs by blast
  have sbs: "sb s1 = sb s0" using freed_sb [OF Suc.prems(1)] .
  have hs: "held s1 = []" using Suc.prems(1) rs.before_held by (auto simp: freed_def)
  let ?t = "s1\<lparr>bheld := (dev, ?b) # bheld s1\<rparr>"
  let ?f = "\<lambda>j s. let a = get_cell (blk s dev ?b) j in if a \<noteq> 0 then rbind (free_tree n dev a s) (bfree dev a) else Ok s"
  let ?I = "\<lambda>j s. freed dev S (?U j) s0 s \<and> bheld s = (dev, ?b) # bheld s1"
  have loop: "\<exists>s'. rfold ?f [0..<NINDIRECT] ?t = Ok s' \<and> ?I NINDIRECT s'"
  proof (rule rfold_upt [where I = ?I])
    show "?I 0 ?t" using freed_bheld [OF Suc.prems(1), of "(dev, ?b) # bheld s1"] by simp
    fix j s assume j: "j < NINDIRECT" and I: "?I j s"
    have fd: "freed dev S (?U j) s0 s" and bh: "bheld s = (dev, ?b) # bheld s1" using I by auto
    have a: "get_cell (blk s dev ?b) j = N (k, js @ [j])"
      using fd bd(1) Suc.prems(5) by (simp add: freed_def N_def node_snoc)
    show "\<exists>s'. ?f j s = Ok s' \<and> ?I (Suc j) s'"
    proof (cases "N (k, js @ [j]) = 0")
      case True
      have "subtree N k (js @ [j]) = {}" by (rule subtree_zero [of N k "js @ [j]", OF True]) (simp add: N_def node_snoc)
      then show ?thesis using True a I by (auto simp: lessThan_Suc)
    next
      case False
      have p: "posn (k, js @ [j])" using Suc.prems(3,4) j by (simp add: posn_snoc)
      have sub: "subtree N k (js @ [j]) \<subseteq> subtree N k js" by (rule subtree_child)
      have sib: "subtree N k (js @ [i]) \<inter> subtree N k (js @ [j]) = {}" if "i < j" for i
        unfolding N_def by (rule subtree_siblings [OF t]) (use that in simp)
      have bp: "?b \<notin> subtree N k (js @ [i])" for i
        using subtree_parent [OF t Suc.prems(3)] Suc.prems(5) unfolding N_def by blast
      have h1: "held_ok dev (?U j) s0 s"
        unfolding held_ok_def bh
      proof (intro allI impI)
        fix y assume "(dev, y) \<in> set ((dev, ?b) # bheld s1)"
        then consider "y = ?b" | "(dev, y) \<in> set (bheld s1)" by auto
        then show "dstart (sb s0) \<le> y \<and> y < sb_size (sb s0) \<and> used dev s0 y \<and> y \<notin> ?U j"
        proof cases
          case 1
          then show ?thesis using bd bp Suc.prems(6) bs by auto
        next
          case 2
          then have "y \<notin> subtree N k js" using Suc.prems(7) by blast
          then show ?thesis using 2 Suc.prems(2) subtree_child [of N k js] by (auto simp: held_ok_def)
        qed
      qed
      have "\<exists>s2. free_tree n dev (N (k, js @ [j])) s = Ok s2 \<and> freed dev S (?U j \<union> below N k (js @ [j])) s0 s2
          \<and> bheld s2 = bheld s"
      proof (rule Suc.IH [OF fd h1 p _ False])
        show "length (js @ [j]) + n = levels k" using Suc.prems(4) by simp
        show "?U j \<inter> subtree N k (js @ [j]) = {}" using Suc.prems(6) sub sib by blast
        show "\<forall>y. (dev, y) \<in> set (bheld s) \<longrightarrow> y \<notin> subtree N k (js @ [j])"
          using bh bp Suc.prems(7) sub by auto
      qed
      then obtain s2 where s2: "free_tree n dev (N (k, js @ [j])) s = Ok s2"
          "freed dev S (?U j \<union> below N k (js @ [j])) s0 s2" "bheld s2 = bheld s" by blast
      have cs: "subtree N k (js @ [j]) = insert (N (k, js @ [j])) (below N k (js @ [j]))"
        by (rule subtree_below [of k "js @ [j]" N, OF p False])
      have cd: "N (k, js @ [j]) \<in> subtree N k (js @ [j])" using cs by simp
      have nb: "N (k, js @ [j]) \<notin> below N k (js @ [j])"
        using subtree_parent [OF t p] False unfolding below_children N_def by blast
      note cdd = subtree_data [OF t cd [unfolded N_def], folded N_def]
      have h2: "held_ok dev (?U j \<union> below N k (js @ [j])) s0 s2"
        using h1 bh bp Suc.prems(7) sub cs s2(3) unfolding held_ok_def by auto
      have nU: "N (k, js @ [j]) \<notin> ?U j \<union> below N k (js @ [j])" using nb cd Suc.prems(6) sub sib by blast
      obtain s3 where s3: "bfree dev (N (k, js @ [j])) s2 = Ok s3"
          "freed dev S (insert (N (k, js @ [j])) (?U j \<union> below N k (js @ [j]))) s0 s3" "bheld s3 = bheld s2"
        using bfree_freed [OF s2(2) h2 S cdd nU] by blast
      have "insert (N (k, js @ [j])) (?U j \<union> below N k (js @ [j])) = ?U (Suc j)"
        using cs by (auto simp: lessThan_Suc)
      then show ?thesis using a False s2(1,3) s3 bh by simp
    qed
  qed
  then obtain s2 where s2: "rfold ?f [0..<NINDIRECT] ?t = Ok s2" "freed dev S (?U NINDIRECT) s0 s2"
      "bheld s2 = (dev, ?b) # bheld s1" by auto
  have hs2: "held s2 = []" using s2(2) rs.before_held by (auto simp: freed_def)
  have U: "?U NINDIRECT = F \<union> below N k js" by (simp add: below_children)
  obtain s3 where s3: "brelse dev ?b s2 = Ok s3" "blk_frame (s2\<lparr>bheld := bheld s1\<rparr>) s3" "blk s3 = blk s2"
      "lh_n s3 = lh_n s2" "lh_block s3 = lh_block s2"
    using brelse_fs [OF hs2, of dev ?b] s2(3) by auto
  have "freed dev S (F \<union> below N k js) s0 s3"
  proof -
    note f3 = blk_frameD [OF s3(2)]
    have x: "freed dev S (F \<union> below N k js) s0 (s2\<lparr>bheld := bheld s1\<rparr>)" using freed_bheld [OF s2(2)] U by simp
    have "blk_frame (s0\<lparr>bheld := bheld s3\<rparr>) s3"
      using x s3(2) f3(3) blk_frame_trans [of "s0\<lparr>bheld := bheld s1\<rparr>" "s2\<lparr>bheld := bheld s1\<rparr>" s3] by (simp add: freed_def)
    moreover have "room_set S s3"
      by (rule rs.after_cong [of S "s2\<lparr>bheld := bheld s1\<rparr>"]) (use x f3 s3(4,5) in \<open>simp_all add: freed_def\<close>)
    moreover have "used dev s3 = used dev s2" "fs_wf dev s3"
      using f3(8) s3(3) s2(2) fs_wf_cong [of dev s2 s3] by (simp_all add: used_def fun_eq_iff freed_def)
    ultimately show ?thesis using s2(2) s3(3) U unfolding freed_def by simp
  qed
  moreover have "bread dev ?b s1 = Ok ?t" using read_block_ok(1) [OF hs nh] bd(2) lim by simp
  moreover have "bheld s3 = bheld s1" using blk_frameD(3) [OF s3(2)] by simp
  ultimately show ?case using s2(1) s3(1) by auto
qed

text \<open>The inode with the addresses in \<open>K\<close> cleared.\<close>

definition zaddrs :: "nat set \<Rightarrow> nat list \<Rightarrow> nat list" where
  "zaddrs K as = map (\<lambda>k. if k \<in> K then 0 else as ! k) [0..<13]"

definition zeroed :: "nat \<Rightarrow> nat set \<Rightarrow> 'a fsst_scheme \<Rightarrow> 'a fsst_scheme" where
  "zeroed ip K s = upd_ino ip (\<lambda>i. i\<lparr>i_addrs := zaddrs K (i_addrs i)\<rparr>) s"

lemma nodes_zeroed:
  assumes "ip < length (icache s)" "posn p"
  shows "nodes dev (zeroed ip K s) ip p = (if fst p \<in> K then 0 else nodes dev s ip p)"
proof -
  have "fst p < 13" using assms(2) by (simp add: posn_def)
  moreover have "walk B 0 js = 0" for B js by (cases js) auto
  ultimately show ?thesis using assms(1) by (simp add: node_def zeroed_def ino_upd_ino zaddrs_def)
qed

lemma ftree_zeroed: "ftree dev ip s \<Longrightarrow> ftree dev ip (zeroed ip K s)"
proof -
  assume t: "ftree dev ip s"
  note T = ftreeD [OF t]
  note N = nodes_zeroed [OF T(1), where dev = dev and K = K]
  have s: "sb (zeroed ip K s) = sb s" "used dev (zeroed ip K s) = used dev s" "length (icache (zeroed ip K s)) = length (icache s)"
      "i_dev (ino (zeroed ip K s) ip) = dev" "length (i_addrs (ino (zeroed ip K s) ip)) = 13"
    using T(1-3) by (simp_all add: zeroed_def ino_upd_ino zaddrs_def)
  show ?thesis
    unfolding ftree_def
  proof (intro conjI allI impI)
    fix p assume p: "posn p" "nodes dev (zeroed ip K s) ip p \<noteq> 0"
    then have n: "nodes dev (zeroed ip K s) ip p = nodes dev s ip p" "nodes dev s ip p \<noteq> 0"
      using N [OF p(1)] by (auto split: if_splits)
    show "dstart (sb (zeroed ip K s)) \<le> nodes dev (zeroed ip K s) ip p"
        "nodes dev (zeroed ip K s) ip p < sb_size (sb (zeroed ip K s))"
        "used dev (zeroed ip K s) (nodes dev (zeroed ip K s) ip p)"
      using n s T(4-6) [OF p(1)] by simp_all
    fix q assume q: "posn q" "nodes dev (zeroed ip K s) ip p = nodes dev (zeroed ip K s) ip q"
    then have "nodes dev s ip q = nodes dev s ip p" using N [OF q(1)] n by (auto split: if_splits)
    then show "p = q" using T(7) [OF p(1) q(1) n(2)] by simp
  qed (use s T in auto)
qed

lemma freed_upd_ino:
  assumes "freed dev S F s0 s1"
  shows "freed dev S F (upd_ino ip f s0) (upd_ino ip f s1)"
proof -
  have "blk_frame (s0\<lparr>bheld := bheld s1\<rparr>) s1" using assms by (simp add: freed_def)
  moreover have "(upd_ino ip f s0)\<lparr>bheld := bheld s1\<rparr> = upd_ino ip f (s0\<lparr>bheld := bheld s1\<rparr>)"
    by (rule fsst.equality) (simp_all add: upd_ino_def)
  ultimately have "blk_frame ((upd_ino ip f s0)\<lparr>bheld := bheld (upd_ino ip f s1)\<rparr>) (upd_ino ip f s1)"
    using blk_frame_upd_ino by simp
  moreover have "room_set S (upd_ino ip f s1) = room_set S s1" by (simp add: room_set_def logged_def)
  ultimately show ?thesis using assms by (simp add: freed_def)
qed

lemma subtree_zeroed:
  assumes "ip < length (icache s)" "k \<notin> K"
  shows "subtree (nodes dev (zeroed ip K s) ip) k js = subtree (nodes dev s ip) k js"
    "below (nodes dev (zeroed ip K s) ip) k js = below (nodes dev s ip) k js"
proof -
  have n: "nodes dev (zeroed ip K s) ip (k, ks) = nodes dev s ip (k, ks)" if "posn (k, ks)" for ks
    using nodes_zeroed [OF assms(1) that] assms(2) by simp
  show "subtree (nodes dev (zeroed ip K s) ip) k js = subtree (nodes dev s ip) k js"
    unfolding subtree_def by (rule Collect_cong) (use n in metis)
  show "below (nodes dev (zeroed ip K s) ip) k js = below (nodes dev s ip) k js"
    unfolding below_def by (rule Collect_cong) (use n in metis)
qed

definition trunc_inv :: "nat \<Rightarrow> nat set \<Rightarrow> nat \<Rightarrow> nat set \<Rightarrow> 'a fsst_scheme \<Rightarrow> 'a fsst_scheme \<Rightarrow> bool" where
  "trunc_inv dev S ip K s0 s1 \<longleftrightarrow> freed dev S (\<Union>k\<in>K. subtree (nodes dev s0 ip) k []) (zeroed ip K s0) s1 \<and> bheld s1 = []"

lemma zeroed_insert:
  "ip < length (icache s) \<Longrightarrow> k < 13 \<Longrightarrow>
   upd_ino ip (\<lambda>i. i\<lparr>i_addrs := (i_addrs i)[k := 0]\<rparr>) (zeroed ip K s) = zeroed ip (insert k K) s"
proof -
  assume a: "ip < length (icache s)" "k < 13"
  have "(zaddrs K as)[k := 0] = zaddrs (insert k K) as" for as
    by (rule nth_equalityI) (use a(2) in \<open>auto simp: zaddrs_def nth_list_update\<close>)
  then show ?thesis using a(1) by (simp add: zeroed_def)
qed

lemma trunc_addr_ok:
  fixes s0 s1 :: "'a fsst_scheme"
  assumes t: "ftree dev ip s0" and S: "bitmap_blocks (sb s0) \<subseteq> S" and lim: "sb_size (sb s0) \<le> FSSIZE"
    and I: "trunc_inv dev S ip K s0 s1" and k: "k < 13" "k \<notin> K" "n = levels k"
  shows "\<exists>s2. trunc_addr ip n k s1 = Ok s2 \<and> trunc_inv dev S ip (insert k K) s0 s2"
proof -
  note T = ftreeD [OF t]
  let ?z = "zeroed ip K s0" and ?N = "nodes dev s0 ip" and ?F = "\<Union>k\<in>K. subtree (nodes dev s0 ip) k []"
  let ?N' = "nodes dev ?z ip"
  have f: "freed dev S ?F ?z s1" "bheld s1 = []" using I by (auto simp: trunc_inv_def)
  have tz: "ftree dev ip ?z" by (rule ftree_zeroed [OF t])
  note TZ = ftreeD [OF tz]
  have sbz: "sb ?z = sb s0" by (simp add: zeroed_def)
  have ic: "icache s1 = icache ?z" using freed_icache [OF f(1)] .
  have root: "posn (k, [])" using k(1) by (simp add: posn_root)
  have nk: "?N' (k, []) = ?N (k, [])" using nodes_zeroed [OF T(1) root] k(2) by simp
  have a: "i_addrs (ino s1 ip) ! k = ?N (k, [])" "i_dev (ino s1 ip) = dev"
    using ic nk TZ(2) by (simp_all add: node_def)
  show ?thesis
  proof (cases "?N (k, []) = 0")
    case True
    have "subtree ?N k [] = {}" by (rule subtree_zero [of ?N k "[]", OF True]) (simp add: node_snoc)
    moreover have "zeroed ip (insert k K) s0 = ?z"
    proof -
      have "zaddrs (insert k K) (i_addrs (ino s0 ip)) = zaddrs K (i_addrs (ino s0 ip))"
        using True by (auto simp: zaddrs_def node_def)
      then show ?thesis by (simp add: zeroed_def upd_ino_def)
    qed
    ultimately have "trunc_inv dev S ip (insert k K) s0 s1" using f by (simp add: trunc_inv_def)
    then show ?thesis using True a by (auto simp: trunc_addr_def)
  next
    case False
    have disj: "?F \<inter> subtree ?N k [] = {}" using subtree_disjoint [OF t] k(2) by blast
    have sub: "subtree ?N' k [] = subtree ?N k []" "below ?N' k [] = below ?N k []"
      using subtree_zeroed [OF T(1) k(2)] by blast+
    have nz: "?N' (k, []) \<noteq> 0" using False nk by simp
    have h0: "held_ok dev X ?z s" if "bheld s = []" for X s using that by (simp add: held_ok_def)
    obtain s2 where s2: "free_tree n dev (?N' (k, [])) s1 = Ok s2" "freed dev S (?F \<union> below ?N' k []) ?z s2" "bheld s2 = bheld s1"
      using free_tree_ok [OF tz _ _ f(1) h0 root _ nz, of n] S lim sbz f(2) k(3) disj sub(1) by auto
    have cs: "subtree ?N' k [] = insert (?N' (k, [])) (below ?N' k [])"
      by (rule subtree_below [of k "[]" ?N', OF root nz])
    have cd: "?N' (k, []) \<in> subtree ?N' k []" using cs by simp
    have "?N' (k, []) \<notin> below ?N' k []"
      unfolding below_children using subtree_parent [OF tz root nz] by blast
    then have nb: "?N' (k, []) \<notin> ?F \<union> below ?N' k []" using cd disj sub by blast
    obtain s3 where s3: "bfree dev (?N' (k, [])) s2 = Ok s3" "freed dev S (insert (?N' (k, [])) (?F \<union> below ?N' k [])) ?z s3" "bheld s3 = bheld s2"
      using bfree_freed [OF s2(2) h0 _ subtree_data [OF tz cd] nb] S sbz s2(3) f(2) by auto
    let ?g = "\<lambda>i. i\<lparr>i_addrs := (i_addrs i)[k := 0]\<rparr>"
    have "insert (?N' (k, [])) (?F \<union> below ?N' k []) = (\<Union>k\<in>insert k K. subtree ?N k [])" using cs sub by auto
    then have "freed dev S (\<Union>k\<in>insert k K. subtree ?N k []) (zeroed ip (insert k K) s0) (upd_ino ip ?g s3)"
      using freed_upd_ino [OF s3(2), of ip ?g] zeroed_insert [OF T(1) k(1)] by simp
    then have "trunc_inv dev S ip (insert k K) s0 (upd_ino ip ?g s3)"
      using s3(3) s2(3) f(2) by (simp add: trunc_inv_def)
    then show ?thesis using False a nk s2(1) s3(1) by (auto simp: trunc_addr_def)
  qed
qed

lemma levels_simps: "k < 10 \<Longrightarrow> levels k = 0" "levels 10 = 1" "levels 11 = 2" "levels 12 = 3"
  by (simp_all add: levels_def)

lemma itrunc_blocks:
  fixes s0 :: "'a fsst_scheme"
  assumes t: "ftree dev ip s0" and w: "fs_wf dev s0" and S: "bitmap_blocks (sb s0) \<subseteq> S" and r: "room_set S s0"
    and b: "bheld s0 = []"
  shows "\<exists>s1. itrunc ip s0 = iupdate ip (upd_ino ip (\<lambda>i. i\<lparr>i_size := 0\<rparr>) s1) \<and> trunc_inv dev S ip {..<13} s0 s1"
proof -
  note T = ftreeD [OF t]
  have lim: "sb_size (sb s0) \<le> FSSIZE" using w by (simp add: fs_wf_def)
  have "zaddrs {} (i_addrs (ino s0 ip)) = i_addrs (ino s0 ip)"
    by (rule nth_equalityI) (use T(3) in \<open>auto simp: zaddrs_def\<close>)
  then have "zeroed ip {} s0 = s0" by (simp add: zeroed_def upd_ino_def)
  moreover have "blk_frame (s0\<lparr>bheld := []\<rparr>) s0" using b by (simp add: blk_frame_def log_frame_def)
  ultimately have i0: "trunc_inv dev S ip {..<0} s0 s0" using w r b by (simp add: trunc_inv_def freed_def)
  note st = trunc_addr_ok [OF t S lim]
  have "\<exists>s1. rfold (trunc_addr ip 0) [0..<NDIRECT] s0 = Ok s1 \<and> trunc_inv dev S ip {..<NDIRECT} s0 s1"
  proof (rule rfold_upt [where I = "\<lambda>j. trunc_inv dev S ip {..<j} s0"])
    fix j s assume "j < NDIRECT" "trunc_inv dev S ip {..<j} s0 s"
    then show "\<exists>s'. trunc_addr ip 0 j s = Ok s' \<and> trunc_inv dev S ip {..<Suc j} s0 s'"
      using st [of "{..<j}" s j 0] levels_simps by (simp add: lessThan_Suc)
  qed (rule i0)
  then obtain s1 where s1: "rfold (trunc_addr ip 0) [0..<NDIRECT] s0 = Ok s1" "trunc_inv dev S ip {..<10} s0 s1" by blast
  obtain s2 where s2: "trunc_addr ip 1 10 s1 = Ok s2" "trunc_inv dev S ip (insert 10 {..<10}) s0 s2"
    using st [OF s1(2), of 10 1] levels_simps by auto
  obtain s3 where s3: "trunc_addr ip 2 11 s2 = Ok s3" "trunc_inv dev S ip (insert 11 (insert 10 {..<10})) s0 s3"
    using st [OF s2(2), of 11 2] levels_simps by auto
  obtain s4 where s4: "trunc_addr ip 3 12 s3 = Ok s4" "trunc_inv dev S ip (insert 12 (insert 11 (insert 10 {..<10}))) s0 s4"
    using st [OF s3(2), of 12 3] levels_simps by auto
  have "insert 12 (insert 11 (insert 10 {..<10})) = {..<13::nat}" by auto
  then show ?thesis using s1 s2 s3 s4 by (intro exI [of _ s4]) (simp add: itrunc_def)
qed

section \<open>Properties\<close>

lemma node_append: "node B as (k, js @ ks) \<noteq> 0 \<Longrightarrow> node B as (k, js) \<noteq> 0"
proof (induction ks rule: rev_induct)
  case (snoc i ks)
  then show ?case using node_snoc [of B as k "js @ ks" i] by (auto split: if_splits)
qed simp

lemma miss_0: "node B as (k, js @ is) \<noteq> 0 \<Longrightarrow> miss (node B as) k js is = 0"
proof (induction "is" arbitrary: js)
  case (Cons i "is")
  then show ?case using node_append [of B as k "js @ [i]" "is"] Cons.IH [of "js @ [i]"] by simp
qed simp

lemma missing_0: "node B as p \<noteq> 0 \<Longrightarrow> missing (node B as) p = 0"
  using node_append [of B as "fst p" "[]" "snd p"] miss_0 [of B as "fst p" "[]" "snd p"] by (simp add: missing_def)

lemma prefix_leaf: "leaf p \<Longrightarrow> leaf q \<Longrightarrow> p \<in> prefixes q \<Longrightarrow> p = q"
  by (auto simp: leaf_def prefixes_def min_def split: if_splits)

text \<open>A fetched block stays where it is: fetching it again returns it without allocating.\<close>

lemma bmap_again:
  fixes s :: "'a fsst_scheme"
  assumes "fs_wf dev s" "ftree dev ip s" "bheld s = []" "bn < MAXFILE" "room r s" "nodes dev s ip (pos_of bn) \<noteq> 0"
  shows "\<exists>s'. bmap ip bn s = Ok (nodes dev s ip (pos_of bn), s') \<and> grown dev ip (prefixes (pos_of bn)) s s' \<and> room r s'
    \<and> nfree dev s' = nfree dev s"
proof -
  have m: "missing (nodes dev s ip) (pos_of bn) = 0" by (rule missing_0 [OF assms(6)])
  obtain a s' where s': "bmap ip bn s = Ok (a, s')" "nodes dev s' ip (pos_of bn) = a"
      "grown dev ip (prefixes (pos_of bn)) s s'" "room r s'" "nfree dev s' = nfree dev s"
    using bmap_ok [OF assms(1-4), of r] assms(5) m by auto
  have "posn (pos_of bn)" using leaf_pos_of [OF assms(4)] by (simp add: leaf_def)
  then have "nodes dev s' ip (pos_of bn) = nodes dev s ip (pos_of bn)"
    using s'(3) assms(6) unfolding grown_def by blast
  then show ?thesis using s' by auto
qed

text \<open>
  C13. \<open>bmap\<close> on a well-formed file system with enough free blocks and log space returns the data
  block of file block \<open>bn\<close> through the direct, single, double or triple indirect map: an allocated
  data block that holds no other block of the file. No other file block moves, every file block
  reads as before (a new one as zeros), no allocated data block outside the file changes, and a
  second call returns the same block. From \<open>MAXFILE\<close> on it panics.\<close>

theorem bmap_correct:
  fixes s :: "'a fsst_scheme"
  assumes w: "fs_wf dev s" and t: "ftree dev ip s" and h: "bheld s = []" and bn: "bn < MAXFILE"
    and r: "room (3 * missing (nodes dev s ip) (pos_of bn)) s" and n: "missing (nodes dev s ip) (pos_of bn) \<le> nfree dev s"
  shows "\<exists>a s' s''. bmap ip bn s = Ok (a, s') \<and> dstart (sb s) \<le> a \<and> a < sb_size (sb s) \<and> used dev s' a
    \<and> fs_wf dev s' \<and> ftree dev ip s' \<and> nodes dev s' ip (pos_of bn) = a
    \<and> (\<forall>bm < MAXFILE. bm \<noteq> bn \<longrightarrow> nodes dev s' ip (pos_of bm) = nodes dev s ip (pos_of bm) \<and> nodes dev s' ip (pos_of bm) \<noteq> a)
    \<and> (\<forall>bm < MAXFILE. leafdata dev ip s' (pos_of bm) = leafdata dev ip s (pos_of bm))
    \<and> (\<forall>c < sb_size (sb s). dstart (sb s) \<le> c \<longrightarrow> used dev s c \<longrightarrow> (\<forall>p. posn p \<longrightarrow> nodes dev s ip p \<noteq> c) \<longrightarrow>
          blk s' dev c = blk s dev c)
    \<and> bmap ip bn s' = Ok (a, s'')
    \<and> (\<forall>m\<ge>MAXFILE. bmap ip m s = Err (Panic ''bmap: out of range''))"
proof -
  obtain a s' where s': "bmap ip bn s = Ok (a, s')" "a \<noteq> 0" "nodes dev s' ip (pos_of bn) = a"
      "grown dev ip (prefixes (pos_of bn)) s s'" "room 0 s'"
    using bmap_ok [OF w t h bn, of 0] r n by auto
  note g = grown_frame [OF s'(4)]
  note T = ftreeD [OF g(14)]
  have P: "posn (pos_of m)" if "m < MAXFILE" for m using leaf_pos_of [OF that] by (simp add: leaf_def)
  have a: "dstart (sb s) \<le> a" "a < sb_size (sb s)" "used dev s' a"
    using T(4-6) [OF P [OF bn]] s'(2,3) g(4) by auto
  have other: "nodes dev s' ip (pos_of bm) = nodes dev s ip (pos_of bm) \<and> nodes dev s' ip (pos_of bm) \<noteq> a"
    if bm: "bm < MAXFILE" "bm \<noteq> bn" for bm
  proof -
    have ne: "pos_of bm \<noteq> pos_of bn" using pos_of_inj bm(2) by blast
    have "pos_of bm \<notin> prefixes (pos_of bn)" using prefix_leaf leaf_pos_of bm(1) bn ne by blast
    then have "nodes dev s' ip (pos_of bm) = nodes dev s ip (pos_of bm)"
      using s'(4) P [OF bm(1)] unfolding grown_def by metis
    moreover have "nodes dev s' ip (pos_of bm) \<noteq> a" using T(7) [OF P [OF bn] P [OF bm(1)]] s'(2,3) ne by auto
    ultimately show ?thesis by blast
  qed
  have data: "leafdata dev ip s' (pos_of bm) = leafdata dev ip s (pos_of bm)" if "bm < MAXFILE" for bm
    using s'(4) leaf_pos_of [OF that] unfolding grown_def by blast
  have out: "blk s' dev c = blk s dev c"
    if "c < sb_size (sb s)" "dstart (sb s) \<le> c" "used dev s c" "\<forall>p. posn p \<longrightarrow> nodes dev s ip p \<noteq> c" for c
    using s'(4) that unfolding grown_def by blast
  obtain s'' where "bmap ip bn s' = Ok (a, s'')"
    using bmap_again [OF g(13,14) _ bn s'(5)] g(3) h s'(2,3) by auto
  then show ?thesis using s' a other data out g(13,14) bmap_out_of_range by blast
qed

lemma ftree_demo: "ftree 1 0 fs_demo" "\<And>p. fst p < 13 \<Longrightarrow> nodes 1 fs_demo 0 p = 0"
proof -
  show z: "\<And>p. fst p < 13 \<Longrightarrow> nodes 1 fs_demo 0 p = 0"
  proof -
    fix p :: bpos assume "fst p < 13"
    moreover have "walk B 0 js = 0" for B js by (cases js) auto
    ultimately show "nodes 1 fs_demo 0 p = 0" by (simp add: node_def icache_demo ino_demo_def)
  qed
  show "ftree 1 0 fs_demo"
    using z icache_demo by (auto simp: ftree_def posn_def ino_demo_def fs_demo_def)
qed

lemma nfree_demo: "nfree 1 fs_demo = 64"
proof -
  have "{c. c < sb_size (sb fs_demo) \<and> \<not> used 1 fs_demo c} = {36..<100}"
    using used_demo by (auto simp: fs_demo_simps sb_demo_def)
  then show ?thesis by (simp add: nfree_def)
qed

lemma missing_demo: "missing (nodes 1 fs_demo 0) (pos_of 20000) = 4"
  using ftree_demo(2) by (simp add: missing_def pos_of_def)

theorem bmap_correct_witness:
  "\<exists>a s' s''. bmap 0 20000 fs_demo = Ok (a, s') \<and> 36 \<le> a \<and> used 1 s' a \<and> bmap 0 20000 s' = Ok (a, s'')"
proof -
  have "room 12 fs_demo" by (rule room_mono [OF fs_demo_simps(4)]) simp
  then show ?thesis
    using bmap_correct [OF fs_wf_demo(1) ftree_demo(1) fs_demo_simps(2), of 20000] missing_demo nfree_demo
    by (auto simp: fs_demo_simps sb_demo_def dstart_def)
qed

lemma room_room_set:
  assumes "finite S" "room (Suc (card S)) s"
  shows "room_set S s"
proof -
  have "card (S - logged s) \<le> card S" using assms(1) by (intro card_mono) auto
  then show ?thesis using assms by (simp add: room_set_def room_def)
qed

lemma subtree_roots: "(\<Union>k<13. subtree N k []) = {N p | p. posn p \<and> N p \<noteq> 0}"
proof (rule set_eqI, rule iffI)
  fix x assume "x \<in> {N p | p. posn p \<and> N p \<noteq> 0}"
  then obtain k js where "x = N (k, js)" "posn (k, js)" "N (k, js) \<noteq> 0" by auto
  then show "x \<in> (\<Union>k<13. subtree N k [])" by (auto simp: subtree_def posn_def)
qed (auto simp: subtree_def)

text \<open>
  C14. \<open>itrunc\<close> returns, given log space for the bitmap blocks and the inode's own block. It frees
  every block of the inode's block map (data and indirect blocks of all levels), clears the
  thirteen addresses and the size, writes the inode to disk, and changes no other inode on disk or
  in the cache, no other allocation bit and no data block.\<close>

theorem itrunc_correct:
  fixes s :: "'a fsst_scheme"
  assumes w: "fs_wf dev s" and t: "ftree dev ip s" and h: "bheld s = []"
    and i: "i_inum (ino s ip) = inum" "inum < sb_ninodes (sb s)" "dinode_ok (ino_dinode (ino s ip))"
    and r: "room_set (insert (IBLOCK inum (sb s)) (bitmap_blocks (sb s))) s"
  shows "\<exists>s'. itrunc ip s = Ok s' \<and> fs_wf dev s'
    \<and> icache s' = (icache s)[ip := (ino s ip)\<lparr>i_addrs := replicate 13 0, i_size := 0\<rparr>]
    \<and> (\<forall>c < sb_size (sb s). used dev s' c \<longleftrightarrow> used dev s c \<and> \<not> (\<exists>p. posn p \<and> nodes dev s ip p = c \<and> c \<noteq> 0))
    \<and> dinode_at dev s' inum = ino_dinode (ino s' ip)
    \<and> (\<forall>j < sb_ninodes (sb s). j \<noteq> inum \<longrightarrow> dinode_at dev s' j = dinode_at dev s j)
    \<and> (\<forall>c\<ge>dstart (sb s). blk s' dev c = blk s dev c)"
proof -
  let ?S = "insert (IBLOCK inum (sb s)) (bitmap_blocks (sb s))"
  obtain s1 where s1: "itrunc ip s = iupdate ip (upd_ino ip (\<lambda>i. i\<lparr>i_size := 0\<rparr>) s1)" "trunc_inv dev ?S ip {..<13} s s1"
    using itrunc_blocks [OF t w _ r h] by blast
  let ?z = "zeroed ip {..<13} s" and ?s2 = "upd_ino ip (\<lambda>i. i\<lparr>i_size := 0\<rparr>) s1"
  have f: "freed dev ?S {nodes dev s ip p | p. posn p \<and> nodes dev s ip p \<noteq> 0} ?z s1" "bheld s1 = []"
    using s1(2) by (auto simp: trunc_inv_def subtree_roots)
  note T = ftreeD [OF t]
  have sbz: "sb ?z = sb s" "used dev ?z = used dev s" "blk ?z = blk s" by (simp_all add: zeroed_def)
  have F: "fs_wf dev s1" "room_set ?S s1"
      "\<And>c. c < sb_size (sb s) \<Longrightarrow> used dev s1 c \<longleftrightarrow> used dev s c \<and> \<not> (\<exists>p. posn p \<and> nodes dev s ip p = c \<and> c \<noteq> 0)"
      "\<And>c. c < sb_bmapstart (sb s) \<or> dstart (sb s) \<le> c \<Longrightarrow> blk s1 dev c = blk s dev c"
    using f(1) sbz unfolding freed_def by auto
  have sb1: "sb s1 = sb s" using freed_sb [OF f(1)] sbz(1) by simp
  have "zaddrs {..<13} as = replicate 13 0" for as by (rule nth_equalityI) (auto simp: zaddrs_def)
  then have ic1: "icache s1 = (icache s)[ip := (ino s ip)\<lparr>i_addrs := replicate 13 0\<rparr>]"
    using freed_icache [OF f(1)] by (simp add: zeroed_def upd_ino_def)
  then have i2: "ino ?s2 ip = (ino s ip)\<lparr>i_addrs := replicate 13 0, i_size := 0\<rparr>"
      "icache ?s2 = (icache s)[ip := (ino s ip)\<lparr>i_addrs := replicate 13 0, i_size := 0\<rparr>]"
    using T(1) by (simp_all add: ino_upd_ino upd_ino_def)
  have ok: "dinode_ok (ino_dinode (ino ?s2 ip))" using i(3) i2(1) by (simp add: dinode_ok_def ino_dinode_def)
  have hd: "held_data dev ?s2" using f(2) by (simp add: held_data_def)
  have r2: "room_set ?S ?s2" using F(2) by (simp add: room_set_def logged_def)
  have I: "i_dev (ino ?s2 ip) = dev" "i_inum (ino ?s2 ip) = inum" "inum < sb_ninodes (sb ?s2)" "IBLOCK inum (sb ?s2) \<in> ?S" "fs_wf dev ?s2"
    using T(2) i i2(1) sb1 F(1) by simp_all
  obtain s' where s': "iupdate ip ?s2 = Ok s'" "blk_frame ?s2 s'" "fs_wf dev s'" "dinode_at dev s' inum = ino_dinode (ino ?s2 ip)"
      "\<And>j. j \<noteq> inum \<Longrightarrow> dinode_at dev s' j = dinode_at dev ?s2 j" "\<And>c. c < sb_size (sb s) \<Longrightarrow> used dev s' c = used dev s1 c"
      "\<And>c. dstart (sb s) \<le> c \<Longrightarrow> blk s' dev c = blk s1 dev c"
    using rs.iupdate_block [OF I(5) hd r2 I(4) I(1-3) ok] sb1 by auto
  have ic: "icache s' = icache ?s2" using blk_frameD(9) [OF s'(2)] .
  have dj: "dinode_at dev s' j = dinode_at dev s j" if "j < sb_ninodes (sb s)" "j \<noteq> inum" for j
    using s'(5) [OF that(2)] F(4) [of "IBLOCK j (sb s)"] IBLOCK_bounds(2) [OF w that(1)] sb1 by (simp add: dinode_at_def)
  have d: "dinode_at dev s' inum = ino_dinode (ino s' ip)" using s'(4) ic by simp
  show ?thesis
    by (intro exI [of _ s'] conjI) (use s1(1) s'(1,3,6,7) ic i2(2) d dj F(3,4) in simp_all)
qed

theorem itrunc_correct_witness:
  "\<exists>a s' s''. bmap 0 20000 fs_demo = Ok (a, s') \<and> used 1 s' a \<and> itrunc 0 s' = Ok s'' \<and> \<not> used 1 s'' a"
proof -
  have w: "fs_wf 1 fs_demo" "ftree 1 0 fs_demo" "bheld fs_demo = []" using fs_wf_demo ftree_demo fs_demo_simps by simp_all
  have "room (3 + 12) fs_demo" by (rule room_mono [OF fs_demo_simps(4)]) simp
  then obtain a s' where s': "bmap 0 20000 fs_demo = Ok (a, s')" "a \<noteq> 0" "nodes 1 s' 0 (pos_of 20000) = a"
      "grown 1 0 (prefixes (pos_of 20000)) fs_demo s'" "room 3 s'"
    using bmap_ok [OF w, of 20000 3] missing_demo nfree_demo by auto
  note g = grown_frame [OF s'(4)]
  note T = ftreeD [OF g(14)]
  have P: "posn (pos_of 20000)" using leaf_pos_of [of 20000] by (simp add: leaf_def)
  have sbd: "sb s' = sb_demo" "bheld s' = []" using g(3,4) fs_demo_simps by simp_all
  have bb: "bitmap_blocks (sb s') = {35}"
    unfolding bitmap_blocks_def sbd by (auto simp: BBLOCK_def sb_demo_def intro: exI [of _ 0])
  have ib: "IBLOCK 1 (sb s') = 32" by (simp add: sbd IBLOCK_def sb_demo_def)
  have r: "room_set (insert (IBLOCK 1 (sb s')) (bitmap_blocks (sb s'))) s'"
    by (rule room_room_set) (use s'(5) bb ib in \<open>simp_all add: numeral_3_eq_3\<close>)
  have i: "ino s' 0 = ino_demo\<lparr>i_addrs := i_addrs (ino s' 0)\<rparr>" 
    using arg_cong [OF g(5), of "\<lambda>l. l ! 0"] ftreeD(1) [OF w(2)] by (simp only: nth_list_update_eq icache_demo)
  have as: "\<forall>x\<in>set (i_addrs (ino s' 0)). x < 2 ^ 32"
  proof
    fix x assume "x \<in> set (i_addrs (ino s' 0))"
    then obtain k where k: "k < 13" "x = nodes 1 s' 0 (k, [])" using T(3) by (auto simp: in_set_conv_nth node_def)
    then show "x < 2 ^ 32" using T(5) [of "(k, [])"] sbd by (cases "x = 0") (auto simp: posn_root sb_demo_def)
  qed
  have ok: "dinode_ok (ino_dinode (ino s' 0))"
    by (subst i) (use as T(3) in \<open>simp add: dinode_ok_def ino_dinode_def ino_demo_def\<close>)
  have inum: "i_inum (ino s' 0) = 1" by (subst i) (simp add: ino_demo_def)
  have n: "1 < sb_ninodes (sb s')" by (simp add: sbd sb_demo_def)
  obtain s'' where s'': "itrunc 0 s' = Ok s''"
      "\<forall>c < sb_size (sb s'). used 1 s'' c \<longleftrightarrow> used 1 s' c \<and> \<not> (\<exists>p. posn p \<and> nodes 1 s' 0 p = c \<and> c \<noteq> 0)"
    using itrunc_correct [OF g(13,14) sbd(2) inum n ok r] by blast
  have a: "used 1 s' a" "a < sb_size (sb s')" using T(5,6) [OF P] s'(2,3) by auto
  then have "\<not> used 1 s'' a" using s''(2) P s'(2,3) by blast
  then show ?thesis using s'(1) a(1) s''(1) by blast
qed

end
