(* ===== verification/Readwrite.thy ===== *)
theory Readwrite
  imports Bmap
begin

text \<open>
  Reading and writing the content of an inode (fs.c): \<open>stati\<close>, \<open>readi\<close>, \<open>writei\<close>, \<open>pwritei\<close> and
  \<open>catchupoffset\<close>. The content of a file is the function \<open>fbyte\<close> from offsets to bytes, zero where
  no block is allocated; \<open>writei\<close> replaces a range of it and \<open>readi\<close> returns a range of it.
\<close>

section \<open>Operations\<close>

abbreviation (input) NDEV :: int where "NDEV \<equiv> 10"
abbreviation (input) MAXBYTES :: nat where "MAXBYTES \<equiv> 1082201088"

record stat =
  st_type :: int
  st_dev :: nat
  st_ino :: nat
  st_nlink :: int
  st_size :: nat

definition stati :: "nat \<Rightarrow> 'a fsst_scheme \<Rightarrow> stat" where
  "stati ip s = \<lparr>st_type = i_type (ino s ip), st_dev = i_dev (ino s ip), st_ino = i_inum (ino s ip),
     st_nlink = i_nlink (ino s ip), st_size = i_size (ino s ip)\<rparr>"

text \<open>The device switch; \<open>-1\<close> when there is no such device.\<close>

definition dev_read :: "nat \<Rightarrow> nat \<Rightarrow> 'a fsst_scheme \<Rightarrow> (int \<times> bytes \<times> 'a fsst_scheme) result" where
  "dev_read ip n s = (let mj = i_major (ino s ip) in
     if mj < 0 \<or> NDEV \<le> mj then Ok (-1, [], s)
     else case devsw_read s mj of None \<Rightarrow> Ok (-1, [], s)
       | Some rd \<Rightarrow> rbind (rd n (devstate s)) (\<lambda>(r, d, x). Ok (r, d, s\<lparr>devstate := x\<rparr>)))"

definition dev_write :: "nat \<Rightarrow> bytes \<Rightarrow> 'a fsst_scheme \<Rightarrow> (int \<times> 'a fsst_scheme) result" where
  "dev_write ip src s = (let mj = i_major (ino s ip) in
     if mj < 0 \<or> NDEV \<le> mj then Ok (-1, s)
     else case devsw_write s mj of None \<Rightarrow> Ok (-1, s)
       | Some wr \<Rightarrow> rbind (wr src (devstate s)) (\<lambda>(r, x). Ok (r, s\<lparr>devstate := x\<rparr>)))"

text \<open>The copy loops; \<open>n\<close> is what is left to copy (\<open>n - tot\<close> of the code).\<close>

function readi_loop :: "nat \<Rightarrow> nat \<Rightarrow> nat \<Rightarrow> 'a fsst_scheme \<Rightarrow> (bytes \<times> 'a fsst_scheme) result" where
  "readi_loop ip off n s =
     (if n = 0 then Ok ([], s)
      else rbind (bmap ip (off div BSIZE) s) (\<lambda>(b, s).
        let dev = i_dev (ino s ip) in
        rbind (bread dev b s) (\<lambda>s.
        let m = min n (BSIZE - off mod BSIZE); d = slice (blk s dev b) (off mod BSIZE) m in
        rbind (brelse dev b s) (\<lambda>s.
        rbind (readi_loop ip (off + m) (n - m) s) (\<lambda>(ds, s). Ok (d @ ds, s))))))"
  by pat_completeness auto
termination by (relation "measure (\<lambda>(ip, off, n, s). n)") auto

function writei_loop :: "nat \<Rightarrow> bytes \<Rightarrow> nat \<Rightarrow> 'a fsst_scheme \<Rightarrow> (nat \<times> 'a fsst_scheme) result" where
  "writei_loop ip src off s =
     (if src = [] then Ok (off, s)
      else rbind (bmap ip (off div BSIZE) s) (\<lambda>(b, s).
        let dev = i_dev (ino s ip) in
        rbind (bread dev b s) (\<lambda>s.
        let m = min (length src) (BSIZE - off mod BSIZE) in
        rbind (log_write b (bset dev b (blit (blk s dev b) (off mod BSIZE) (take m src)) s)) (\<lambda>s.
        rbind (brelse dev b s) (\<lambda>s.
        writei_loop ip (drop m src) (off + m) s)))))"
  by pat_completeness auto
termination by (relation "measure (\<lambda>(ip, src, off, s). length src)") auto

declare readi_loop.simps [simp del] writei_loop.simps [simp del]

definition readi :: "nat \<Rightarrow> nat \<Rightarrow> nat \<Rightarrow> 'a fsst_scheme \<Rightarrow> (int \<times> bytes \<times> 'a fsst_scheme) result" where
  "readi ip off n s =
     (if i_type (ino s ip) = T_DEV then dev_read ip n s
      else if off > i_size (ino s ip) \<or> u32 (off + n) < off then Ok (-1, [], s)
      else
        let n = (if u32 (off + n) > i_size (ino s ip) then i_size (ino s ip) - off else n) in
        rbind (readi_loop ip off n s) (\<lambda>(d, s). Ok (int n, d, s)))"

text \<open>The end of \<open>writei\<close> and \<open>pwritei\<close>: the size grows when the write went past it.\<close>

definition grow_size :: "nat \<Rightarrow> nat \<Rightarrow> nat \<Rightarrow> 'a fsst_scheme \<Rightarrow> (int \<times> 'a fsst_scheme) result" where
  "grow_size ip n off s =
     (if n > 0 \<and> off > i_size (ino s ip)
      then rbind (iupdate ip (upd_ino ip (\<lambda>i. i\<lparr>i_size := off\<rparr>) s)) (\<lambda>s. Ok (int n, s))
      else Ok (int n, s))"

definition writei :: "nat \<Rightarrow> bytes \<Rightarrow> nat \<Rightarrow> 'a fsst_scheme \<Rightarrow> (int \<times> 'a fsst_scheme) result" where
  "writei ip src off s = (let n = length src in
     if i_type (ino s ip) = T_DEV then dev_write ip src s
     else if off > i_size (ino s ip) \<or> u32 (off + n) < off then Ok (-1, s)
     else if u32 (off + n) > MAXBYTES then Ok (-1, s)
     else rbind (writei_loop ip src off s) (\<lambda>(off, s). grow_size ip n off s))"

text \<open>\<open>pwritei\<close> is \<open>writei\<close> without the test that the offset is within the file.\<close>

definition pwritei :: "nat \<Rightarrow> bytes \<Rightarrow> nat \<Rightarrow> 'a fsst_scheme \<Rightarrow> (int \<times> 'a fsst_scheme) result" where
  "pwritei ip src off s = (let n = length src in
     if i_type (ino s ip) = T_DEV then dev_write ip src s
     else if u32 (off + n) < off then Ok (-1, s)
     else if u32 (off + n) > MAXBYTES then Ok (-1, s)
     else rbind (writei_loop ip src off s) (\<lambda>(off, s). grow_size ip n off s))"

text \<open>
  \<open>catchupoffset\<close> allocates the blocks from the end of the file to the one of \<open>off\<close>, one
  transaction per block.
\<close>

definition catchup_block :: "nat \<Rightarrow> nat \<Rightarrow> 'a fsst_scheme \<Rightarrow> 'a fsst_scheme result" where
  "catchup_block ip cur s =
     rbind (begin_op s) (\<lambda>s.
     rbind (ilock ip s) (\<lambda>s.
     rbind (bmap ip cur s) (\<lambda>(b, s).
     let dev = i_dev (ino s ip) in
     rbind (bread dev b s) (\<lambda>s.
     rbind (log_write b s) (\<lambda>s.
     rbind (iunlock ip s) (\<lambda>s.
     rbind (brelse dev b s) (\<lambda>s.
     end_op s)))))))"

definition catchupoffset :: "nat \<Rightarrow> nat \<Rightarrow> 'a fsst_scheme \<Rightarrow> 'a fsst_scheme result" where
  "catchupoffset ip off s =
     rfold (catchup_block ip) [i_size (ino s ip) div BSIZE ..< Suc (off div BSIZE)] s"

section \<open>File content\<close>

definition fbyte :: "nat \<Rightarrow> nat \<Rightarrow> 'a fsst_scheme \<Rightarrow> nat \<Rightarrow> uchar" where
  "fbyte dev ip s x = leafdata dev ip s (pos_of (x div BSIZE)) ! (x mod BSIZE)"

lemma posn_pos_of: "bn < MAXFILE \<Longrightarrow> posn (pos_of bn)"
  using leaf_pos_of by (simp add: leaf_def)

lemma fbyte_grown: "grown dev ip S s s' \<Longrightarrow> x < MAXBYTES \<Longrightarrow> fbyte dev ip s' x = fbyte dev ip s x"
proof -
  assume g: "grown dev ip S s s'" and x: "x < MAXBYTES"
  have "x div BSIZE < MAXFILE" using x by (simp add: less_mult_imp_div_less)
  then show ?thesis using g leaf_pos_of unfolding grown_def fbyte_def by metis
qed

lemma fframe_refl: "fs_wf dev s \<Longrightarrow> ftree dev ip s \<Longrightarrow> fframe dev ip s s"
  using grown_fframe [OF grown_refl [where S = "{}"]] .

text \<open>Replacing the content of a data block of the file.\<close>

lemma leaf_write:
  fixes s s' :: "'a fsst_scheme"
  assumes w: "fs_wf dev s" and t: "ftree dev ip s" and p: "leaf p" "nodes dev s ip p \<noteq> 0" and d: "length d = BSIZE"
    and fr: "blk_frame s s'" and B: "blk s' = set_block dev (nodes dev s ip p) d (blk s)"
  shows "fframe dev ip s s'" "\<And>q. posn q \<Longrightarrow> nodes dev s' ip q = nodes dev s ip q"
    "\<And>q. leaf q \<Longrightarrow> leafdata dev ip s' q = (if q = p then d else leafdata dev ip s q)"
    "nfree dev s' = nfree dev s"
proof -
  note T = ftreeD [OF t] and f = blk_frameD [OF fr]
  let ?a = "nodes dev s ip p"
  have pp: "posn p" using p(1) by (simp add: leaf_def)
  have a: "dstart (sb s) \<le> ?a" "?a < sb_size (sb s)" "used dev s ?a" using T(4-6) [OF pp p(2)] .
  have Bc: "blk s' dev c = (if c = ?a then d else blk s dev c)" for c using B by (simp add: set_block_apply)
  have len: "length (blk s dev c) = BSIZE" for c using w by (simp add: fs_wf_def)
  have wf: "fs_wf dev s'" "\<And>c. c < sb_size (sb s) \<Longrightarrow> used dev s' c = used dev s c"
    by (rule fs_wf_data [OF w f(8)]; use Bc a len d in auto)+
  show N: "nodes dev s' ip q = nodes dev s ip q" if "posn q" for q
    unfolding f(9)
  proof (rule node_unique [OF _ _ _ that])
    fix k "is" i assume x: "posn (k, is @ [i])" "nodes dev s ip (k, is) \<noteq> 0"
    have y: "posn (k, is)" "\<not> leaf (k, is)" using x(1) by (auto simp: posn_snoc leaf_def)
    have "nodes dev s ip (k, is) \<noteq> ?a" using T(7) [OF y(1) pp x(2)] y(2) p(1) by auto
    then show "get_cell (blk s' dev (nodes dev s ip (k, is))) i = nodes dev s ip (k, is @ [i])"
      using x(2) by (simp add: Bc node_snoc)
  qed (simp_all add: node_snoc, simp add: node_def)
  show "leafdata dev ip s' q = (if q = p then d else leafdata dev ip s q)" if q: "leaf q" for q
  proof (cases "q = p")
    case True
    then show ?thesis using N [OF pp] p(2) Bc by (simp add: leafdata_def)
  next
    case False
    have qp: "posn q" using q by (simp add: leaf_def)
    have "nodes dev s ip q \<noteq> ?a" if "nodes dev s ip q \<noteq> 0" using T(7) [OF qp pp that] False by auto
    then show ?thesis using N [OF qp] Bc False by (simp add: leafdata_def)
  qed
  have "ftree dev ip s'"
    unfolding ftree_def using T N f(8,9) wf(2) by auto
  moreover have "\<exists>as. blk_frame (upd_ino ip (\<lambda>i. i\<lparr>i_addrs := as\<rparr>) s) s'"
    using fr by (auto intro!: exI [of _ "i_addrs (ino s ip)"] simp: upd_addrs_id)
  moreover have "blk s' dev c = blk s dev c" if "\<forall>q. posn q \<longrightarrow> nodes dev s ip q \<noteq> c" for c
    using that pp Bc by metis
  ultimately show "fframe dev ip s s'"
    unfolding fframe_def using wf N Bc a by (simp add: dstart_def)
  have "{c. c < sb_size (sb s') \<and> \<not> used dev s' c} = {c. c < sb_size (sb s) \<and> \<not> used dev s c}"
    using wf(2) f(8) by auto
  then show "nfree dev s' = nfree dev s" by (simp add: nfree_def)
qed

section \<open>Writing\<close>

text \<open>The blocks of a range of the file, and how many of their map entries are missing.\<close>

definition fblocks :: "nat \<Rightarrow> nat \<Rightarrow> nat list" where
  "fblocks off n = (if n = 0 then [] else [off div BSIZE ..< Suc ((off + n - 1) div BSIZE)])"

definition wmiss :: "(bpos \<Rightarrow> nat) \<Rightarrow> nat \<Rightarrow> nat \<Rightarrow> nat" where
  "wmiss N off n = sum_list (map (\<lambda>bn. missing N (pos_of bn)) (fblocks off n))"

lemma fblocks_step:
  assumes "0 < n" "m = min n (BSIZE - off mod BSIZE)"
  shows "fblocks off n = off div BSIZE # fblocks (off + m) (n - m)"
proof (cases "n \<le> BSIZE - off mod BSIZE")
  case True
  have "off + n - 1 = off div BSIZE * BSIZE + (off mod BSIZE + n - 1)"
    using assms(1) div_mult_mod_eq [of off BSIZE] by linarith
  moreover have "off mod BSIZE + n - 1 < BSIZE" using True assms(1) by linarith
  ultimately have "(off + n - 1) div BSIZE = off div BSIZE" by (simp add: div_add1_eq)
  then show ?thesis using True assms by (simp add: fblocks_def)
next
  case False
  then have m: "m = BSIZE - off mod BSIZE" "m < n" using assms(2) by auto
  have "off mod BSIZE < BSIZE" by simp
  then have "off + m = Suc (off div BSIZE) * BSIZE" unfolding m(1) mult_Suc
    using div_mult_mod_eq [of off BSIZE] by linarith
  then have d: "(off + m) div BSIZE = Suc (off div BSIZE)" by simp
  have "(off + m) div BSIZE \<le> (off + n - 1) div BSIZE" using m(2) by (intro div_le_mono) simp
  then have "[off div BSIZE ..< Suc ((off + n - 1) div BSIZE)] = off div BSIZE # [Suc (off div BSIZE) ..< Suc ((off + n - 1) div BSIZE)]"
    using d by (intro upt_conv_Cons) simp
  moreover have "off + m + (n - m) - 1 = off + n - 1" using m(2) by simp
  ultimately show ?thesis using m(2) d by (simp add: fblocks_def)
qed

lemma miss_mono:
  "(\<And>q. posn q \<Longrightarrow> nd q \<noteq> 0 \<Longrightarrow> nd' q \<noteq> 0) \<Longrightarrow> posn (k, js @ is) \<Longrightarrow> miss nd' k js is \<le> miss nd k js is"
proof (induction "is" arbitrary: js)
  case (Cons i "is")
  have "posn (k, js @ [i])" using Cons.prems(2) posn_append [of k "js @ [i]" "is"] by simp
  moreover have "miss nd' k (js @ [i]) is \<le> miss nd k (js @ [i]) is" using Cons by simp
  ultimately show ?case using Cons.prems(1) [of "(k, js @ [i])"] by auto
qed simp

lemma missing_mono:
  assumes "fframe dev ip s s'" "posn p"
  shows "missing (nodes dev s' ip) p \<le> missing (nodes dev s ip) p"
proof -
  have m: "nodes dev s ip q \<noteq> 0 \<Longrightarrow> nodes dev s' ip q \<noteq> 0" if "posn q" for q
    using assms(1) that unfolding fframe_def by metis
  have "miss (nodes dev s' ip) (fst p) [] (snd p) \<le> miss (nodes dev s ip) (fst p) [] (snd p)"
    by (rule miss_mono) (use m assms(2) in auto)
  moreover have "posn (fst p, [])" using assms(2) by (simp add: posn_def)
  then have "nodes dev s ip (fst p, []) \<noteq> 0 \<Longrightarrow> nodes dev s' ip (fst p, []) \<noteq> 0" by (rule m)
  ultimately show ?thesis by (auto simp: missing_def)
qed

lemma wmiss_mono:
  assumes "fframe dev ip s s'" "off + n \<le> MAXBYTES"
  shows "wmiss (nodes dev s' ip) off n \<le> wmiss (nodes dev s ip) off n"
proof -
  have "missing (nodes dev s' ip) (pos_of bn) \<le> missing (nodes dev s ip) (pos_of bn)" if "bn \<in> set (fblocks off n)" for bn
  proof -
    have "0 < n" "bn \<le> (off + n - 1) div BSIZE" using that by (auto simp: fblocks_def split: if_splits)
    moreover have "(off + n - 1) div BSIZE < MAXFILE" using assms(2) calculation(1) by (simp add: less_mult_imp_div_less)
    ultimately show ?thesis using missing_mono [OF assms(1) posn_pos_of] by simp
  qed
  then show ?thesis unfolding wmiss_def by (rule sum_list_mono)
qed

definition fwrote :: "nat \<Rightarrow> nat \<Rightarrow> nat \<Rightarrow> bytes \<Rightarrow> 'a fsst_scheme \<Rightarrow> 'a fsst_scheme \<Rightarrow> bool" where
  "fwrote dev ip off src s s' \<longleftrightarrow> (\<forall>x<MAXBYTES. fbyte dev ip s' x =
     (if off \<le> x \<and> x < off + length src then src ! (x - off) else fbyte dev ip s x))"

lemma fwrote_append:
  assumes "fwrote dev ip off (take m src) s s1" "fwrote dev ip (off + m) (drop m src) s1 s2" "m \<le> length src"
  shows "fwrote dev ip off src s s2"
  using assms by (auto simp: fwrote_def min_def)

text \<open>One round of the loop.\<close>

lemma write_step:
  fixes s :: "'a fsst_scheme"
  assumes w: "fs_wf dev s" and t: "ftree dev ip s" and h: "bheld s = []" and x: "off < MAXBYTES"
    and src: "off mod BSIZE + length src \<le> BSIZE"
  defines "p \<equiv> pos_of (off div BSIZE)"
  assumes r: "room (r + 3 * missing (nodes dev s ip) p + 1) s" and n: "missing (nodes dev s ip) p \<le> nfree dev s"
  shows "\<exists>b s1 s'. bmap ip (off div BSIZE) s = Ok (b, s1) \<and> i_dev (ino s1 ip) = dev
    \<and> bread dev b s1 = Ok (s1\<lparr>bheld := [(dev, b)]\<rparr>)
    \<and> rbind (log_write b (bset dev b (blit (blk s1 dev b) (off mod BSIZE) src) (s1\<lparr>bheld := [(dev, b)]\<rparr>))) (brelse dev b) = Ok s'
    \<and> fframe dev ip s s' \<and> room r s' \<and> nfree dev s' + missing (nodes dev s ip) p = nfree dev s
    \<and> fwrote dev ip off src s s' \<and> nodes dev s' ip p \<noteq> 0"
proof -
  have bn: "off div BSIZE < MAXFILE" using x by (simp add: less_mult_imp_div_less)
  have lp: "leaf p" "posn p" unfolding p_def using leaf_pos_of [OF bn] posn_pos_of [OF bn] by auto
  have r1: "room (r + 1 + 3 * missing (nodes dev s ip) (pos_of (off div BSIZE))) s" using r by (simp add: p_def)
  obtain b s1 where b: "bmap ip (off div BSIZE) s = Ok (b, s1)" "b \<noteq> 0" "nodes dev s1 ip p = b"
      "grown dev ip (prefixes p) s s1" "room (r + 1) s1" "nfree dev s1 + missing (nodes dev s ip) p = nfree dev s"
    using bmap_ok [OF w t h bn r1 n [unfolded p_def]] unfolding p_def by blast
  note g = grown_frame [OF b(4)]
  note T = ftreeD [OF g(14)]
  have len: "length (blk s1 dev c) = BSIZE" for c using g(13) by (simp add: fs_wf_def)
  have h1: "bheld s1 = []" using g(3) h by simp
  have lim: "b < FSSIZE" using T(5) [OF lp(2)] b(2,3) g(13) by (auto simp: fs_wf_def)
  have rd: "bread dev b s1 = Ok (s1\<lparr>bheld := [(dev, b)]\<rparr>)"
    using read_block_ok(1) [OF room_free [OF b(5)] _ lim, of dev] h1 by simp
  let ?d = "blit (blk s1 dev b) (off mod BSIZE) src"
  have r2: "room (Suc r) s1" "(dev, b) \<notin> set (bheld s1)" using b(5) h1 by simp_all
  obtain s' where s': "rbind (log_write b (bset dev b ?d (s1\<lparr>bheld := [(dev, b)]\<rparr>))) (brelse dev b) = Ok s'"
      "blk_frame s1 s'" "blk s' = set_block dev b ?d (blk s1)" "room r s'"
    using write_block_ok [OF r2, of ?d] unfolding h1 by (elim exE conjE)
  have dl: "length ?d = BSIZE" using len src by simp
  have p1: "nodes dev s1 ip p \<noteq> 0" using b(2,3) by simp
  have B: "blk s' = set_block dev (nodes dev s1 ip p) ?d (blk s1)" using s'(3) b(3) by simp
  note L = leaf_write [OF g(13,14) lp(1) p1 dl s'(2) B]
  have "fwrote dev ip off src s s'"
    unfolding fwrote_def
  proof (intro allI impI)
    fix y assume y: "y < MAXBYTES"
    have yb: "y div BSIZE < MAXFILE" using y by (simp add: less_mult_imp_div_less)
    have s1b: "fbyte dev ip s1 y = fbyte dev ip s y" by (rule fbyte_grown [OF b(4) y])
    show "fbyte dev ip s' y = (if off \<le> y \<and> y < off + length src then src ! (y - off) else fbyte dev ip s y)"
    proof (cases "y div BSIZE = off div BSIZE")
      case True
      have e: "y = off div BSIZE * BSIZE + y mod BSIZE" "off = off div BSIZE * BSIZE + off mod BSIZE"
        using True div_mult_mod_eq [of y BSIZE] div_mult_mod_eq [of off BSIZE] by simp_all
      have c: "(off \<le> y \<and> y < off + length src) \<longleftrightarrow> (off mod BSIZE \<le> y mod BSIZE \<and> y mod BSIZE < off mod BSIZE + length src)"
        "y - off = y mod BSIZE - off mod BSIZE"
        using e by linarith+
      have "fbyte dev ip s1 y = blk s1 dev b ! (y mod BSIZE)"
        using True b(2,3) by (simp add: fbyte_def leafdata_def p_def)
      moreover have "fbyte dev ip s' y = ?d ! (y mod BSIZE)"
        using L(3) [OF lp(1)] True by (simp add: fbyte_def p_def)
      moreover have "?d ! (y mod BSIZE) = (if off mod BSIZE \<le> y mod BSIZE \<and> y mod BSIZE < off mod BSIZE + length src
          then src ! (y mod BSIZE - off mod BSIZE) else blk s1 dev b ! (y mod BSIZE))"
        using nth_blit [of "off mod BSIZE" src "blk s1 dev b"] len src by simp
      ultimately show ?thesis using s1b c by simp
    next
      case False
      then have "pos_of (y div BSIZE) \<noteq> p" unfolding p_def using pos_of_inj by blast
      then have same: "fbyte dev ip s' y = fbyte dev ip s1 y" using L(3) [OF leaf_pos_of [OF yb]] by (simp add: fbyte_def)
      have "\<not> (off \<le> y \<and> y < off + length src)"
      proof
        assume a: "off \<le> y \<and> y < off + length src"
        have "off div BSIZE * BSIZE \<le> y" using a div_mult_mod_eq [of off BSIZE] by linarith
        moreover have "y < off div BSIZE * BSIZE + BSIZE" using a src div_mult_mod_eq [of off BSIZE] by linarith
        ultimately have "y div BSIZE = off div BSIZE" by (intro div_nat_eqI) simp_all
        with False show False by simp
      qed
      then show ?thesis using same s1b by auto
    qed
  qed
  moreover have "fframe dev ip s s'" using fframe_trans [OF grown_fframe [OF b(4)] L(1)] .
  moreover have "nodes dev s' ip p \<noteq> 0" using L(2) [OF lp(2)] p1 by simp
  moreover have "nfree dev s' + missing (nodes dev s ip) p = nfree dev s" using L(4) b(6) by simp
  ultimately show ?thesis using b(1) rd s'(1,4) T(2)
    by (intro exI [of _ b] exI [of _ s1] exI [of _ s'] conjI)
qed

lemma wmiss_step:
  assumes "0 < n" "m = min n (BSIZE - off mod BSIZE)"
  shows "wmiss N off n = missing N (pos_of (off div BSIZE)) + wmiss N (off + m) (n - m)"
    "length (fblocks off n) = Suc (length (fblocks (off + m) (n - m)))"
  by (simp_all add: wmiss_def fblocks_step [OF assms])

lemma writei_loop_ok:
  fixes s :: "'a fsst_scheme"
  assumes "fs_wf dev s" "ftree dev ip s" "bheld s = []" "off + length src \<le> MAXBYTES"
    "room (r + 3 * wmiss (nodes dev s ip) off (length src) + length (fblocks off (length src))) s"
    "wmiss (nodes dev s ip) off (length src) \<le> nfree dev s"
  shows "\<exists>s'. writei_loop ip src off s = Ok (off + length src, s') \<and> fframe dev ip s s' \<and> room r s'
    \<and> fwrote dev ip off src s s' \<and> (\<forall>bn\<in>set (fblocks off (length src)). nodes dev s' ip (pos_of bn) \<noteq> 0)"
  using assms
proof (induction "length src" arbitrary: src off s rule: less_induct)
  case less
  show ?case
  proof (cases "src = []")
    case True
    then show ?thesis using less.prems fframe_refl
      by (auto simp: writei_loop.simps [of ip "[]"] fwrote_def fblocks_def wmiss_def)
  next
    case False
    define m where "m = min (length src) (BSIZE - off mod BSIZE)"
    define n' where "n' = length src - m"
    let ?p = "pos_of (off div BSIZE)" and ?o = "off + m"
    have pos: "0 < length src" using False by simp
    note st = wmiss_step [OF pos m_def, folded n'_def]
    have m: "0 < m" "m \<le> length src" "off mod BSIZE + length (take m src) \<le> BSIZE"
      using pos by (auto simp: min_def m_def)
    have n': "n' < length src" "m + n' = length src" using m n'_def by linarith+
    have x: "off < MAXBYTES" using less.prems(4) pos by linarith
    let ?r = "r + 3 * wmiss (nodes dev s ip) ?o n' + length (fblocks ?o n')"
    have rr: "room (?r + 3 * missing (nodes dev s ip) ?p + 1) s" "missing (nodes dev s ip) ?p \<le> nfree dev s"
    proof -
      have "r + 3 * wmiss (nodes dev s ip) off (length src) + length (fblocks off (length src)) = ?r + 3 * missing (nodes dev s ip) ?p + 1"
        using st(2) st(1) [of "nodes dev s ip"] by linarith
      then show "room (?r + 3 * missing (nodes dev s ip) ?p + 1) s" using less.prems(5) by metis
      show "missing (nodes dev s ip) ?p \<le> nfree dev s" using st(1) [of "nodes dev s ip"] less.prems(6) by linarith
    qed
    obtain b s1 s2 where b: "bmap ip (off div BSIZE) s = Ok (b, s1)" "i_dev (ino s1 ip) = dev"
        "bread dev b s1 = Ok (s1\<lparr>bheld := [(dev, b)]\<rparr>)"
        "rbind (log_write b (bset dev b (blit (blk s1 dev b) (off mod BSIZE) (take m src)) (s1\<lparr>bheld := [(dev, b)]\<rparr>))) (brelse dev b) = Ok s2"
        "fframe dev ip s s2" "room ?r s2" "nfree dev s2 + missing (nodes dev s ip) ?p = nfree dev s"
        "fwrote dev ip off (take m src) s s2" "nodes dev s2 ip ?p \<noteq> 0"
      using write_step [OF less.prems(1-3) x m(3) rr] by (elim exE conjE)
    note f = fframe_frame [OF b(5)]
    have mono: "wmiss (nodes dev s2 ip) ?o n' \<le> wmiss (nodes dev s ip) ?o n'"
      by (rule wmiss_mono [OF b(5)]) (use less.prems(4) n' in linarith)
    have l: "length (drop m src) = n'" by (simp add: n'_def)
    have ih: "\<exists>s'. writei_loop ip (drop m src) ?o s2 = Ok (?o + n', s') \<and> fframe dev ip s2 s' \<and> room r s'
      \<and> fwrote dev ip ?o (drop m src) s2 s' \<and> (\<forall>bn\<in>set (fblocks ?o n'). nodes dev s' ip (pos_of bn) \<noteq> 0)"
    proof (rule less.hyps [of "drop m src" s2 ?o, unfolded l])
      show "n' < length src" by (rule n'(1))
      show "?o + n' \<le> MAXBYTES" using less.prems(4) n'(2) by linarith
      show "room (r + 3 * wmiss (nodes dev s2 ip) ?o n' + length (fblocks ?o n')) s2"
        by (rule room_mono [OF b(6)]) (use mono in simp)
      show "wmiss (nodes dev s2 ip) ?o n' \<le> nfree dev s2"
        using mono less.prems(6) b(7) st(1) [of "nodes dev s ip"] by linarith
    qed (use f(3,13,14) less.prems(3) in simp_all)
    then obtain s' where s': "writei_loop ip (drop m src) ?o s2 = Ok (?o + n', s')" "fframe dev ip s2 s'" "room r s'"
        "fwrote dev ip ?o (drop m src) s2 s'" "\<forall>bn\<in>set (fblocks ?o n'). nodes dev s' ip (pos_of bn) \<noteq> 0" by blast
    have "writei_loop ip src off s = rbind (rbind (log_write b (bset dev b (blit (blk s1 dev b) (off mod BSIZE) (take m src))
        (s1\<lparr>bheld := [(dev, b)]\<rparr>))) (brelse dev b)) (writei_loop ip (drop m src) ?o)"
      using False b(1-3) by (simp add: writei_loop.simps [of ip src] Let_def m_def)
    then have e: "writei_loop ip src off s = Ok (off + length src, s')" using b(4) s'(1) n'(2) by (simp add: add.assoc)
    have "posn ?p" by (rule posn_pos_of) (use x in \<open>simp add: less_mult_imp_div_less\<close>)
    then have "nodes dev s' ip ?p \<noteq> 0" using b(9) s'(2) unfolding fframe_def by metis
    then have "\<forall>bn\<in>set (fblocks off (length src)). nodes dev s' ip (pos_of bn) \<noteq> 0"
      using s'(5) unfolding fblocks_step [OF pos m_def, folded n'_def] by simp
    then show ?thesis
      using e fframe_trans [OF b(5) s'(2)] s'(3) fwrote_append [OF b(8) s'(4) m(2)] by blast
  qed
qed

section \<open>Reading\<close>

text \<open>Only processes that slept on a buffer have been woken: nothing else has changed.\<close>

definition quiet :: "'a fsst_scheme \<Rightarrow> 'a fsst_scheme \<Rightarrow> bool" where
  "quiet s s' \<longleftrightarrow> blk_frame s s' \<and> blk s' = blk s \<and> lh_n s' = lh_n s \<and> lh_block s' = lh_block s"

lemma quiet_refl [simp]: "quiet s s"
  by (simp add: quiet_def)

lemma quiet_trans: "quiet s s1 \<Longrightarrow> quiet s1 s2 \<Longrightarrow> quiet s s2"
  using blk_frame_trans by (auto simp: quiet_def)

lemma quietD:
  assumes "quiet s s'"
  shows "held s' = held s" "bheld s' = bheld s" "sb s' = sb s" "icache s' = icache s" "blk s' = blk s"
    "fs_wf dev s' = fs_wf dev s" "ftree dev ip s' = ftree dev ip s" "room k s' = room k s" "nodes dev s' ip = nodes dev s ip"
    "fbyte dev ip s' = fbyte dev ip s"
proof -
  have q: "blk_frame s s'" "blk s' = blk s" "lh_n s' = lh_n s" "lh_block s' = lh_block s" using assms by (auto simp: quiet_def)
  note f = blk_frameD [OF q(1)]
  show "held s' = held s" "bheld s' = bheld s" "sb s' = sb s" "icache s' = icache s" "blk s' = blk s"
    using f q(2) by auto
  show "fs_wf dev s' = fs_wf dev s" using f(8) q(2) by (simp add: fs_wf_def used_def)
  show "ftree dev ip s' = ftree dev ip s" using f(8,9) q(2) by (simp add: ftree_def used_def)
  show "room k s' = room k s" using room_cong [OF q(1,3,4)] .
  show "nodes dev s' ip = nodes dev s ip" using f(9) q(2) by simp
  show "fbyte dev ip s' = fbyte dev ip s" using f(9) q(2) by (intro ext) (simp add: fbyte_def leafdata_def)
qed

lemma nfree_quiet: "quiet s s' \<Longrightarrow> nfree dev s' = nfree dev s"
  using quietD(3,5) [of s s'] by (simp add: nfree_def used_def)

lemma read_quiet:
  fixes s :: "'a fsst_scheme"
  assumes "held s = []" "bheld s = []" "b < FSSIZE"
  shows "\<exists>s'. bread dev b s = Ok (s\<lparr>bheld := [(dev, b)]\<rparr>) \<and> brelse dev b (s\<lparr>bheld := [(dev, b)]\<rparr>) = Ok s' \<and> quiet s s'"
  using read_block_ok [OF assms(1) _ assms(3), of dev] assms(2) by (auto simp: quiet_def)

text \<open>A block that is there is found without a transaction.\<close>

lemma bmap_slots_quiet:
  fixes s :: "'a fsst_scheme"
  assumes "fs_wf dev s" "ftree dev ip s" "held s = []" "bheld s = []" "posn (k, js @ is)"
    "nodes dev s ip (k, js @ is) \<noteq> 0"
  shows "\<exists>s'. bmap_slots dev (nodes dev s ip (k, js)) is s = Ok (nodes dev s ip (k, js @ is), s') \<and> quiet s s'"
  using assms
proof (induction "is" arbitrary: js s)
  case (Cons i "is")
  note T = ftreeD [OF Cons.prems(2)]
  let ?a = "nodes dev s ip (k, js)"
  have p: "posn (k, js)" "posn (k, js @ [i])"
    using Cons.prems(5) posn_append [of k js "i # is"] posn_append [of k "js @ [i]" "is"] by simp_all
  have nz: "?a \<noteq> 0" "nodes dev s ip (k, js @ [i]) \<noteq> 0"
    using node_append [OF Cons.prems(6)] node_append [of _ _ k "js @ [i]" "is"] Cons.prems(6) by simp_all
  have c: "get_cell (blk s dev ?a) i = nodes dev s ip (k, js @ [i])" using nz(1) by (simp add: node_snoc)
  have lim: "?a < FSSIZE" using T(5) [OF p(1) nz(1)] Cons.prems(1) by (simp add: fs_wf_def)
  obtain s1 where s1: "bread dev ?a s = Ok (s\<lparr>bheld := [(dev, ?a)]\<rparr>)" "brelse dev ?a (s\<lparr>bheld := [(dev, ?a)]\<rparr>) = Ok s1" "quiet s s1"
    using read_quiet [OF Cons.prems(3,4) lim] by blast
  note q = quietD [OF s1(3)]
  have sl: "bmap_slot dev ?a i s = Ok (nodes dev s ip (k, js @ [i]), s1)"
    using s1(1,2) c nz(2) by (simp add: bmap_slot_def)
  obtain s' where "bmap_slots dev (nodes dev s1 ip (k, js @ [i])) is s1 = Ok (nodes dev s1 ip (k, (js @ [i]) @ is), s')" "quiet s1 s'"
    using Cons.IH [of s1 "js @ [i]"] q Cons.prems by auto
  then show ?case using sl q(9) quiet_trans [OF s1(3)] by auto
qed auto

lemma bmap_quiet:
  fixes s :: "'a fsst_scheme"
  assumes "fs_wf dev s" "ftree dev ip s" "held s = []" "bheld s = []" "bn < MAXFILE" "nodes dev s ip (pos_of bn) \<noteq> 0"
  shows "\<exists>s'. bmap ip bn s = Ok (nodes dev s ip (pos_of bn), s') \<and> quiet s s'"
proof -
  obtain k "is" where p: "pos_of bn = (k, is)" by (cases "pos_of bn")
  have pos: "posn (k, [] @ is)" "k < 13" using posn_pos_of [OF assms(5)] p by (simp_all add: posn_def)
  have "nodes dev s ip (k, []) \<noteq> 0" using node_append [of _ _ k "[]" "is"] assms(6) p by simp
  then have "bmap_addr ip k s = Ok (nodes dev s ip (k, []), s)" by (simp add: bmap_addr_def node_def)
  moreover obtain s' where "bmap_slots dev (nodes dev s ip (k, [])) is s = Ok (nodes dev s ip (k, is), s')" "quiet s s'"
    using bmap_slots_quiet [OF assms(1-4) pos(1)] assms(6) p by auto
  ultimately show ?thesis using bmap_walk [OF assms(5), of ip s] ftreeD(2) [OF assms(2)] p by auto
qed

lemma readi_loop_ok:
  fixes s :: "'a fsst_scheme"
  assumes "fs_wf dev s" "ftree dev ip s" "held s = []" "bheld s = []" "off + n \<le> MAXBYTES"
    "\<forall>bn\<in>set (fblocks off n). nodes dev s ip (pos_of bn) \<noteq> 0"
  shows "\<exists>s'. readi_loop ip off n s = Ok (map (fbyte dev ip s) [off..<off + n], s') \<and> quiet s s'"
  using assms
proof (induction n arbitrary: off s rule: less_induct)
  case (less n)
  show ?case
  proof (cases "n = 0")
    case True
    then show ?thesis by (simp add: readi_loop.simps [of ip off])
  next
    case False
    define m where "m = min n (BSIZE - off mod BSIZE)"
    define n' where "n' = n - m"
    let ?bn = "off div BSIZE"
    have pos: "0 < n" using False by simp
    note st = fblocks_step [OF pos m_def, folded n'_def]
    have m: "0 < m" "m \<le> n" "off mod BSIZE + m \<le> BSIZE" using pos by (auto simp: min_def m_def)
    have n': "n' < n" "m + n' = n" using m n'_def by linarith+
    have "off < MAXBYTES" using less.prems(5) pos by linarith
    then have bn: "?bn < MAXFILE" by (simp add: less_mult_imp_div_less)
    let ?a = "nodes dev s ip (pos_of ?bn)"
    have a: "?a \<noteq> 0" using less.prems(6) unfolding st by simp
    obtain s1 where s1: "bmap ip ?bn s = Ok (?a, s1)" "quiet s s1"
      using bmap_quiet [OF less.prems(1-4) bn a] by blast
    note q = quietD [OF s1(2)] and T = ftreeD [OF less.prems(2)]
    have lim: "?a < FSSIZE" using T(5) [OF posn_pos_of [OF bn] a] less.prems(1) by (simp add: fs_wf_def)
    obtain s2 where s2: "bread dev ?a s1 = Ok (s1\<lparr>bheld := [(dev, ?a)]\<rparr>)" "brelse dev ?a (s1\<lparr>bheld := [(dev, ?a)]\<rparr>) = Ok s2" "quiet s1 s2"
      using read_quiet [of s1 ?a dev] q less.prems(3,4) lim by auto
    have q2: "quiet s s2" using quiet_trans [OF s1(2) s2(3)] .
    note Q = quietD [OF q2]
    obtain s3 where s3: "readi_loop ip (off + m) n' s2 = Ok (map (fbyte dev ip s2) [off + m..<off + m + n'], s3)" "quiet s2 s3"
      using less.IH [OF n'(1), of s2 "off + m"] Q(1-4,6,7,9) less.prems n'(2) st by auto
    have len: "length (blk s dev ?a) = BSIZE" using less.prems(1) by (simp add: fs_wf_def)
    have "slice (blk s dev ?a) (off mod BSIZE) m = map (fbyte dev ip s) [off..<off + m]"
    proof (rule nth_equalityI)
      fix j assume "j < length (slice (blk s dev ?a) (off mod BSIZE) m)"
      then have j: "j < m" using len m(3) by simp
      have "off mod BSIZE + j < BSIZE" using j m(3) by linarith
      then have "(off + j) div BSIZE = ?bn" "(off + j) mod BSIZE = off mod BSIZE + j"
        using div_add1_eq [of off j BSIZE] mod_add_eq [of off BSIZE j] by simp_all
      then show "slice (blk s dev ?a) (off mod BSIZE) m ! j = map (fbyte dev ip s) [off..<off + m] ! j"
        using j len m(3) a by (simp add: nth_slice fbyte_def leafdata_def)
    qed (use len m(3) in simp)
    moreover have "[off..<off + n] = [off..<off + m] @ [off + m..<off + m + n']"
      using n'(2) upt_add_eq_append [of off "off + m" n'] by (simp add: add.assoc)
    ultimately have "readi_loop ip off n s = Ok (map (fbyte dev ip s) [off..<off + n], s3)"
      using False s1(1) s2(1,2) s3(1) q T(2) Q(10) by (simp add: readi_loop.simps [of ip off n] Let_def m_def n'_def)
    then show ?thesis using quiet_trans [OF q2 s3(2)] by blast
  qed
qed

section \<open>Whole files\<close>

text \<open>Every block below the size of the file is there: the file has no holes.\<close>

definition dense :: "nat \<Rightarrow> nat \<Rightarrow> 'a fsst_scheme \<Rightarrow> bool" where
  "dense dev ip s \<longleftrightarrow> i_size (ino s ip) \<le> MAXBYTES
     \<and> (\<forall>x < i_size (ino s ip). nodes dev s ip (pos_of (x div BSIZE)) \<noteq> 0)"

lemma fblocks_mem:
  assumes "bn \<in> set (fblocks off n)"
  obtains x where "off \<le> x" "x < off + n" "x div BSIZE = bn"
proof -
  have n: "0 < n" and b: "off div BSIZE \<le> bn" "bn \<le> (off + n - 1) div BSIZE"
    using assms by (auto simp: fblocks_def split: if_splits)
  define x where "x = max off (bn * BSIZE)"
  have "bn * BSIZE \<le> (off + n - 1) div BSIZE * BSIZE" using b(2) by (rule mult_le_mono1)
  then have "bn * BSIZE \<le> off + n - 1" using div_mult_mod_eq [of "off + n - 1" BSIZE] by linarith
  then have "off \<le> x" "x < off + n" using n by (auto simp: x_def)
  moreover have "x div BSIZE = bn"
  proof (cases "off \<le> bn * BSIZE")
    case True
    then show ?thesis by (simp add: x_def max_def)
  next
    case False
    then have "bn * BSIZE div BSIZE \<le> off div BSIZE" by (intro div_le_mono) simp
    then show ?thesis using b(1) False by (simp add: x_def)
  qed
  ultimately show thesis by (rule that)
qed

lemma mem_fblocks: "off \<le> x \<Longrightarrow> x < off + n \<Longrightarrow> x div BSIZE \<in> set (fblocks off n)"
  by (auto simp: fblocks_def intro!: div_le_mono le_imp_less_Suc)

lemma dense_blocks:
  assumes "dense dev ip s" "off + n \<le> i_size (ino s ip)"
  shows "\<forall>bn\<in>set (fblocks off n). nodes dev s ip (pos_of bn) \<noteq> 0"
proof
  fix bn assume "bn \<in> set (fblocks off n)"
  then obtain x where "x < off + n" "x div BSIZE = bn" by (rule fblocks_mem)
  then show "nodes dev s ip (pos_of bn) \<noteq> 0" using assms unfolding dense_def by auto
qed

lemma u32_sum: "off < 2 ^ 32 \<Longrightarrow> n < 2 ^ 32 \<Longrightarrow> \<not> u32 (off + n) < off \<longleftrightarrow> off + n < 2 ^ 32"
proof -
  assume a: "off < 2 ^ 32" "n < 2 ^ 32"
  show ?thesis
  proof (cases "off + n < 2 ^ 32")
    case False
    then have "u32 (off + n) = off + n - 2 ^ 32" using a by (simp add: u32_def mod_if)
    then show ?thesis using a False by simp
  qed (simp add: u32_def)
qed

lemma readi_ok:
  fixes s :: "'a fsst_scheme"
  assumes "fs_wf dev s" "ftree dev ip s" "dense dev ip s" "held s = []" "bheld s = []" "i_type (ino s ip) \<noteq> T_DEV"
    and off: "off \<le> i_size (ino s ip)" and n: "off + n < 2 ^ 32"
  defines "m \<equiv> min n (i_size (ino s ip) - off)"
  shows "\<exists>s'. readi ip off n s = Ok (int m, map (fbyte dev ip s) [off..<off + m], s') \<and> quiet s s'"
proof -
  have "off + m \<le> i_size (ino s ip)" using off by (simp add: m_def)
  moreover from this have "off + m \<le> MAXBYTES" using assms(3) by (simp add: dense_def)
  ultimately obtain s' where s': "readi_loop ip off m s = Ok (map (fbyte dev ip s) [off..<off + m], s')" "quiet s s'"
    using readi_loop_ok [OF assms(1,2,4,5)] dense_blocks [OF assms(3)] by metis
  have "(if u32 (off + n) > i_size (ino s ip) then i_size (ino s ip) - off else n) = m"
    using n off by (auto simp: m_def)
  then have "readi ip off n s = rbind (readi_loop ip off m s) (\<lambda>(d, s). Ok (int m, d, s))"
    using assms(6) off n by (simp add: readi_def)
  then show ?thesis using s' by simp
qed

text \<open>An update outside the data area keeps the forest and the content of the file.\<close>

lemma ftree_cong:
  assumes t: "ftree dev ip s" and sb: "sb s' = sb s" and ic: "ip < length (icache s')" "i_dev (ino s' ip) = dev"
      "i_addrs (ino s' ip) = i_addrs (ino s ip)"
    and B: "\<And>c. dstart (sb s) \<le> c \<Longrightarrow> blk s' dev c = blk s dev c"
    and u: "\<And>c. c < sb_size (sb s) \<Longrightarrow> used dev s' c = used dev s c"
  shows "ftree dev ip s'" "\<And>p. posn p \<Longrightarrow> nodes dev s' ip p = nodes dev s ip p"
    "\<And>p. posn p \<Longrightarrow> leafdata dev ip s' p = leafdata dev ip s p"
proof -
  note T = ftreeD [OF t]
  show N: "nodes dev s' ip p = nodes dev s ip p" if "posn p" for p
  proof (rule node_unique [OF _ _ _ that])
    fix k "is" i assume x: "posn (k, is @ [i])" "nodes dev s ip (k, is) \<noteq> 0"
    have "posn (k, is)" using x(1) by (simp add: posn_snoc)
    then have "blk s' dev (nodes dev s ip (k, is)) = blk s dev (nodes dev s ip (k, is))" using B T(4) x(2) by blast
    then show "get_cell (blk s' dev (nodes dev s ip (k, is))) i = nodes dev s ip (k, is @ [i])"
      using x(2) by (simp add: node_snoc)
  qed (simp_all add: node_snoc ic(3), simp add: node_def)
  show "ftree dev ip s'" unfolding ftree_def using T N ic u sb by auto
  show "leafdata dev ip s' p = leafdata dev ip s p" if "posn p" for p
    using N [OF that] B T(4) [OF that] by (simp add: leafdata_def)
qed

lemma dinode_ok_ftree:
  assumes "fs_wf dev s" "ftree dev ip s" "dinode_ok (ino_dinode i)" "ino s ip = i\<lparr>i_addrs := as, i_size := n\<rparr>" "n < 2 ^ 32"
  shows "dinode_ok (ino_dinode (ino s ip))"
proof -
  note T = ftreeD [OF assms(2)]
  have "a < 2 ^ 32" if a: "a \<in> set (i_addrs (ino s ip))" for a
  proof -
    obtain k where k: "k < 13" "a = nodes dev s ip (k, [])" using a T(3) by (auto simp: in_set_conv_nth node_def)
    then show ?thesis using T(5) [of "(k, [])"] assms(1) by (cases "a = 0") (auto simp: posn_root fs_wf_def)
  qed
  then show ?thesis using assms(3,4,5) T(3) by (simp add: dinode_ok_def ino_dinode_def)
qed

text \<open>The common part of \<open>writei\<close> and \<open>pwritei\<close>.\<close>

definition written :: "nat \<Rightarrow> nat \<Rightarrow> nat \<Rightarrow> bytes \<Rightarrow> 'a fsst_scheme \<Rightarrow> 'a fsst_scheme \<Rightarrow> bool" where
  "written dev ip off src s s' \<longleftrightarrow> fs_wf dev s' \<and> ftree dev ip s' \<and> fwrote dev ip off src s s'
     \<and> held s' = held s \<and> bheld s' = bheld s \<and> curproc s' = curproc s \<and> sb s' = sb s
     \<and> icache s' = (icache s)[ip := (ino s ip)\<lparr>i_addrs := i_addrs (ino s' ip),
         i_size := (if src = [] then i_size (ino s ip) else max (i_size (ino s ip)) (off + length src))\<rparr>]
     \<and> (\<forall>p. posn p \<longrightarrow> nodes dev s ip p \<noteq> 0 \<longrightarrow> nodes dev s' ip p = nodes dev s ip p)
     \<and> (\<forall>bn\<in>set (fblocks off (length src)). nodes dev s' ip (pos_of bn) \<noteq> 0)
     \<and> (\<forall>c < sb_size (sb s). used dev s c \<longrightarrow> used dev s' c)
     \<and> (\<forall>c < sb_size (sb s). dstart (sb s) \<le> c \<longrightarrow> used dev s c \<longrightarrow> (\<forall>p. posn p \<longrightarrow> nodes dev s ip p \<noteq> c) \<longrightarrow>
          blk s' dev c = blk s dev c)
     \<and> (\<forall>j < sb_ninodes (sb s). j \<noteq> i_inum (ino s ip) \<longrightarrow> dinode_at dev s' j = dinode_at dev s j)
     \<and> (i_size (ino s' ip) \<noteq> i_size (ino s ip) \<longrightarrow> dinode_at dev s' (i_inum (ino s ip)) = ino_dinode (ino s' ip))"

lemma write_common:
  fixes s :: "'a fsst_scheme"
  assumes w: "fs_wf dev s" and t: "ftree dev ip s" and h: "bheld s = []" and lim: "off + length src \<le> MAXBYTES"
    and i: "i_inum (ino s ip) < sb_ninodes (sb s)" "dinode_ok (ino_dinode (ino s ip))"
    and r: "room (r + 1 + 3 * wmiss (nodes dev s ip) off (length src) + length (fblocks off (length src))) s"
    and n: "wmiss (nodes dev s ip) off (length src) \<le> nfree dev s"
  shows "\<exists>s'. rbind (writei_loop ip src off s) (\<lambda>(off, s). grow_size ip (length src) off s) = Ok (int (length src), s')
    \<and> written dev ip off src s s' \<and> room r s'"
proof -
  obtain s1 where s1: "writei_loop ip src off s = Ok (off + length src, s1)" "fframe dev ip s s1" "room (r + 1) s1"
      "fwrote dev ip off src s s1" "\<forall>bn\<in>set (fblocks off (length src)). nodes dev s1 ip (pos_of bn) \<noteq> 0"
    using writei_loop_ok [OF w t h lim r n] by blast
  note f = fframe_frame [OF s1(2)] and T = ftreeD [OF t]
  note T1 = ftreeD [OF f(14)]
  have ip: "ino s1 ip = (ino s ip)\<lparr>i_addrs := i_addrs (ino s1 ip)\<rparr>"
    using arg_cong [OF f(5), of "\<lambda>l. l ! ip"] T(1) by (simp only: nth_list_update_eq)
  have sz: "i_size (ino s1 ip) = i_size (ino s ip)" "i_inum (ino s1 ip) = i_inum (ino s ip)" by (subst ip, simp)+
  have keep: "\<And>p. posn p \<Longrightarrow> nodes dev s ip p \<noteq> 0 \<Longrightarrow> nodes dev s1 ip p = nodes dev s ip p"
      "\<And>c. c < sb_size (sb s) \<Longrightarrow> used dev s c \<Longrightarrow> used dev s1 c"
      "\<And>c. c < sb_bmapstart (sb s) \<Longrightarrow> blk s1 dev c = blk s dev c"
      "\<And>c. c < sb_size (sb s) \<Longrightarrow> dstart (sb s) \<le> c \<Longrightarrow> used dev s c \<Longrightarrow> (\<forall>p. posn p \<longrightarrow> nodes dev s ip p \<noteq> c) \<Longrightarrow> blk s1 dev c = blk s dev c"
    using s1(2) unfolding fframe_def by blast+
  have dj: "dinode_at dev s1 j = dinode_at dev s j" if "j < sb_ninodes (sb s)" for j
    using keep(3) IBLOCK_bounds(2) [OF w that] f(4) by (simp add: dinode_at_def)
  show ?thesis
  proof (cases "length src > 0 \<and> off + length src > i_size (ino s ip)")
    case False
    then have e: "(if src = [] then i_size (ino s ip) else max (i_size (ino s ip)) (off + length src)) = i_size (ino s ip)"
      by auto
    have ie: "(ino s ip)\<lparr>i_addrs := i_addrs (ino s1 ip), i_size := i_size (ino s ip)\<rparr> = (ino s ip)\<lparr>i_addrs := i_addrs (ino s1 ip)\<rparr>"
      by (rule inode.equality) simp_all
    have "written dev ip off src s s1"
      unfolding written_def e ie by (intro conjI) (use f s1 keep sz dj in auto)
    moreover have "grow_size ip (length src) (off + length src) s1 = Ok (int (length src), s1)"
      using False sz by (auto simp: grow_size_def)
    ultimately show ?thesis using s1(1,3) room_mono [OF s1(3), of r] by auto
  next
    case True
    let ?s2 = "upd_ino ip (\<lambda>i. i\<lparr>i_size := off + length src\<rparr>) s1"
    have i2: "ino ?s2 ip = (ino s ip)\<lparr>i_addrs := i_addrs (ino s1 ip), i_size := off + length src\<rparr>"
    proof -
      have "ino ?s2 ip = (ino s1 ip)\<lparr>i_size := off + length src\<rparr>" using T1(1) by (simp add: ino_upd_ino)
      also have "\<dots> = (ino s ip)\<lparr>i_addrs := i_addrs (ino s1 ip), i_size := off + length src\<rparr>" by (subst ip) simp
      finally show ?thesis .
    qed
    have t2: "ftree dev ip ?s2" "\<And>p. posn p \<Longrightarrow> nodes dev ?s2 ip p = nodes dev s1 ip p" "\<And>p. posn p \<Longrightarrow> leafdata dev ip ?s2 p = leafdata dev ip s1 p"
      by (rule ftree_cong [OF f(14)]; use T1(1,2) in \<open>simp add: ino_upd_ino\<close>)+
    have ok2: "dinode_ok (ino_dinode (ino ?s2 ip))"
      by (rule dinode_ok_ftree [OF _ t2(1) i(2) i2]) (use f(13) lim in simp_all)
    have hd: "held_data dev ?s2" "room (Suc r) ?s2" "fs_wf dev ?s2" using f(3,13) h s1(3) by (simp_all add: held_data_def)
    have I: "i_dev (ino ?s2 ip) = dev" "i_inum (ino ?s2 ip) = i_inum (ino s ip)" "i_inum (ino s ip) < sb_ninodes (sb ?s2)"
      using T(2) i(1) i2 f(4) by simp_all
    obtain s' where s': "iupdate ip ?s2 = Ok s'" "blk_frame ?s2 s'" "room r s'" "fs_wf dev s'"
        "dinode_at dev s' (i_inum (ino s ip)) = ino_dinode (ino ?s2 ip)"
        "\<And>j. j \<noteq> i_inum (ino s ip) \<Longrightarrow> dinode_at dev s' j = dinode_at dev ?s2 j" "\<And>c. c < sb_size (sb s) \<Longrightarrow> used dev s' c = used dev s1 c"
        "\<And>c. dstart (sb s) \<le> c \<Longrightarrow> blk s' dev c = blk s1 dev c"
      using iupdate_ok [OF hd(3,1,2) I ok2] f(4) by auto
    note F = blk_frameD [OF s'(2)]
    have ic: "icache s' = icache ?s2" using F(9) .
    have t3: "ftree dev ip s'" "\<And>p. posn p \<Longrightarrow> nodes dev s' ip p = nodes dev s1 ip p" "\<And>p. posn p \<Longrightarrow> leafdata dev ip s' p = leafdata dev ip s1 p"
      by (rule ftree_cong [OF f(14)]; use s' F(8) ic T1(1,2) f(4) in \<open>simp add: ino_upd_ino\<close>)+
    have e: "(if src = [] then i_size (ino s ip) else max (i_size (ino s ip)) (off + length src)) = off + length src"
      using True by auto
    have fw: "fwrote dev ip off src s s'"
      using s1(4) t3(3) posn_pos_of unfolding fwrote_def fbyte_def by (simp add: less_mult_imp_div_less)
    have bl: "\<forall>bn\<in>set (fblocks off (length src)). nodes dev s' ip (pos_of bn) \<noteq> 0"
    proof
      fix bn assume bn: "bn \<in> set (fblocks off (length src))"
      then obtain x where "x < off + length src" "x div BSIZE = bn" by (rule fblocks_mem)
      then have "bn < MAXFILE" using lim by (auto simp: less_mult_imp_div_less)
      then show "nodes dev s' ip (pos_of bn) \<noteq> 0" using s1(5) bn t3(2) [OF posn_pos_of] by simp
    qed
    have ice: "icache s' = (icache s)[ip := (ino s ip)\<lparr>i_addrs := i_addrs (ino s' ip), i_size := off + length src\<rparr>]"
    proof -
      have a: "i_addrs (ino s' ip) = i_addrs (ino s1 ip)" using ic i2 by simp
      have "icache ?s2 = (icache s1)[ip := ino ?s2 ip]" using T1(1) by (simp add: upd_ino_def)
      also have "\<dots> = (icache s)[ip := ino ?s2 ip]"
        using arg_cong [OF f(5), of "\<lambda>l. l[ip := ino ?s2 ip]"] by (simp only: list_update_overwrite)
      finally show ?thesis unfolding a i2 unfolding ic .
    qed
    have "written dev ip off src s s'"
      unfolding written_def e
    proof (intro conjI)
      show "held s' = held s" "bheld s' = bheld s" "curproc s' = curproc s" "sb s' = sb s" using F(1-3,8) f(1-4) by simp_all
      show "\<forall>j < sb_ninodes (sb s). j \<noteq> i_inum (ino s ip) \<longrightarrow> dinode_at dev s' j = dinode_at dev s j"
        using s'(6) dj by (simp add: dinode_at_def)
      show "\<forall>c < sb_size (sb s). dstart (sb s) \<le> c \<longrightarrow> used dev s c \<longrightarrow> (\<forall>p. posn p \<longrightarrow> nodes dev s ip p \<noteq> c) \<longrightarrow>
          blk s' dev c = blk s dev c" using keep(4) s'(8) by simp
      show "i_size (ino s' ip) \<noteq> i_size (ino s ip) \<longrightarrow> dinode_at dev s' (i_inum (ino s ip)) = ino_dinode (ino s' ip)"
        using s'(5) ic by simp
    qed (use s'(4,7) t3(1,2) keep(1,2) fw bl ice in auto)
    moreover have "grow_size ip (length src) (off + length src) s1 = Ok (int (length src), s')"
      using True sz s'(1) by (simp add: grow_size_def)
    ultimately show ?thesis using s1(1) s'(3) by auto
  qed
qed

lemma dense_written:
  assumes "dense dev ip s" "written dev ip off src s s'" "ip < length (icache s)" "off \<le> i_size (ino s ip)" "off + length src \<le> MAXBYTES"
  shows "dense dev ip s'"
proof -
  have w: "icache s' = (icache s)[ip := (ino s ip)\<lparr>i_addrs := i_addrs (ino s' ip),
         i_size := (if src = [] then i_size (ino s ip) else max (i_size (ino s ip)) (off + length src))\<rparr>]"
      "\<And>p. posn p \<Longrightarrow> nodes dev s ip p \<noteq> 0 \<Longrightarrow> nodes dev s' ip p = nodes dev s ip p"
      "\<And>bn. bn \<in> set (fblocks off (length src)) \<Longrightarrow> nodes dev s' ip (pos_of bn) \<noteq> 0"
    using assms(2) unfolding written_def by blast+
  have sz: "i_size (ino s' ip) = (if src = [] then i_size (ino s ip) else max (i_size (ino s ip)) (off + length src))"
    using arg_cong [OF w(1), of "\<lambda>l. i_size (l ! ip)"] assms(3) by simp
  have d: "i_size (ino s ip) \<le> MAXBYTES" "\<And>x. x < i_size (ino s ip) \<Longrightarrow> nodes dev s ip (pos_of (x div BSIZE)) \<noteq> 0"
    using assms(1) by (auto simp: dense_def)
  have "nodes dev s' ip (pos_of (x div BSIZE)) \<noteq> 0" if x: "x < i_size (ino s' ip)" for x
  proof (cases "x < i_size (ino s ip)")
    case True
    have "posn (pos_of (x div BSIZE))" by (rule posn_pos_of) (use True d(1) in \<open>simp add: less_mult_imp_div_less\<close>)
    then show ?thesis using w(2) d(2) [OF True] by simp
  next
    case False
    then have "off \<le> x" "x < off + length src" using x sz assms(4) by (auto split: if_splits)
    then show ?thesis using w(3) mem_fblocks by blast
  qed
  then show ?thesis using sz d(1) assms(5) by (auto simp: dense_def)
qed

lemma writei_ok:
  fixes s :: "'a fsst_scheme"
  assumes w: "fs_wf dev s" and t: "ftree dev ip s" and d: "dense dev ip s" and h: "bheld s = []" "i_type (ino s ip) \<noteq> T_DEV"
    and i: "i_inum (ino s ip) < sb_ninodes (sb s)" "dinode_ok (ino_dinode (ino s ip))"
    and lim: "off + length src \<le> MAXBYTES" "off \<le> i_size (ino s ip)"
    and r: "room (r + 1 + 3 * wmiss (nodes dev s ip) off (length src) + length (fblocks off (length src))) s"
    and n: "wmiss (nodes dev s ip) off (length src) \<le> nfree dev s"
  shows "\<exists>s'. writei ip src off s = Ok (int (length src), s') \<and> written dev ip off src s s' \<and> dense dev ip s'
      \<and> i_size (ino s' ip) = max (i_size (ino s ip)) (off + length src) \<and> i_type (ino s' ip) = i_type (ino s ip) \<and> room r s'"
proof -
  have e: "writei ip src off s = rbind (writei_loop ip src off s) (\<lambda>(off, s). grow_size ip (length src) off s)"
    using h(2) lim by (simp add: writei_def Let_def)
  obtain s' where s': "writei ip src off s = Ok (int (length src), s')" "written dev ip off src s s'" "room r s'"
    using write_common [OF w t h(1) lim(1) i r n] unfolding e by auto
  note T = ftreeD [OF t]
  have W: "icache s' = (icache s)[ip := (ino s ip)\<lparr>i_addrs := i_addrs (ino s' ip),
         i_size := (if src = [] then i_size (ino s ip) else max (i_size (ino s ip)) (off + length src))\<rparr>]"
    using s'(2) unfolding written_def by blast
  have "i_size (ino s' ip) = max (i_size (ino s ip)) (off + length src)" "i_type (ino s' ip) = i_type (ino s ip)"
    using arg_cong [OF W, of "\<lambda>l. i_size (l ! ip)"] arg_cong [OF W, of "\<lambda>l. i_type (l ! ip)"] T(1) lim(2) by auto
  then show ?thesis using s' dense_written [OF d s'(2) T(1) lim(2,1)] by blast
qed

section \<open>Properties\<close>

text \<open>
  C15. \<open>readi\<close> on a file without holes returns the bytes of the file from \<open>off\<close> on, as many as
  asked for and as there are below the size, for any file size the triple-indirect map can
  hold; it needs no transaction and changes neither the disk blocks nor the inode. It returns -1
  when the offset is past the size or the 32-bit sum \<open>off + n\<close> wraps around.\<close>

theorem readi_correct:
  fixes s :: "'a fsst_scheme"
  assumes "fs_wf dev s" "ftree dev ip s" "dense dev ip s" "held s = []" "bheld s = []" "i_type (ino s ip) \<noteq> T_DEV"
    "off < 2 ^ 32" "n < 2 ^ 32"
  defines "m \<equiv> min n (i_size (ino s ip) - off)"
  shows "\<exists>s'. readi ip off n s =
      (if i_size (ino s ip) < off \<or> 2 ^ 32 \<le> off + n then Ok (-1, [], s)
       else Ok (int m, map (fbyte dev ip s) [off..<off + m], s'))
    \<and> blk s' = blk s \<and> icache s' = icache s \<and> disk s' = disk s"
proof (cases "i_size (ino s ip) < off \<or> 2 ^ 32 \<le> off + n")
  case True
  then have "readi ip off n s = Ok (-1, [], s)" using assms(6) u32_sum [OF assms(7,8)] by (auto simp: readi_def)
  then show ?thesis using True by auto
next
  case False
  then have "off \<le> i_size (ino s ip)" "off + n < 2 ^ 32" by auto
  then obtain s' where "readi ip off n s = Ok (int m, map (fbyte dev ip s) [off..<off + m], s')" "quiet s s'"
    using readi_ok [OF assms(1-6)] unfolding m_def by blast
  then show ?thesis using False quietD(4,5) by (auto simp: quiet_def blk_frame_def)
qed

text \<open>
  C16. \<open>writei\<close> within the file or at its end, with enough log space and free blocks, writes all of
  \<open>src\<close>: the content of the file changes exactly at \<open>off .. off + n\<close>, the size becomes the
  larger of the old size and \<open>off + n\<close> and is written to the inode's place on disk when it
  grew, the file stays without holes, no block of another file, no other inode and no
  allocation of another block changes, and \<open>readi\<close> returns \<open>src\<close> from there. It returns -1
  without touching anything when the offset is past the end, \<open>off + n\<close> wraps around or exceeds
  the maximal file size.\<close>

theorem writei_readi_roundtrip:
  fixes s :: "'a fsst_scheme"
  assumes w: "fs_wf dev s" and t: "ftree dev ip s" and d: "dense dev ip s" and h: "bheld s = []" "i_type (ino s ip) \<noteq> T_DEV"
    and i: "i_inum (ino s ip) < sb_ninodes (sb s)" "dinode_ok (ino_dinode (ino s ip))"
    and u: "off < 2 ^ 32" "length src < 2 ^ 32"
    and r: "room (1 + 3 * wmiss (nodes dev s ip) off (length src) + length (fblocks off (length src))) s"
    and n: "wmiss (nodes dev s ip) off (length src) \<le> nfree dev s"
  shows "if i_size (ino s ip) < off \<or> MAXBYTES < off + length src then writei ip src off s = Ok (-1, s)
    else \<exists>s' s''. writei ip src off s = Ok (int (length src), s') \<and> written dev ip off src s s' \<and> dense dev ip s'
      \<and> i_size (ino s' ip) = max (i_size (ino s ip)) (off + length src)
      \<and> readi ip off (length src) s' = Ok (int (length src), src, s'')"
proof (cases "i_size (ino s ip) < off \<or> MAXBYTES < off + length src")
  case True
  have "u32 (off + length src) < off \<or> MAXBYTES < u32 (off + length src)" if "MAXBYTES < off + length src"
    using u32_sum [OF u] that by (cases "off + length src < 2 ^ 32") auto
  then show ?thesis using True h(2) by (auto simp: writei_def Let_def)
next
  case False
  then have lim: "off + length src \<le> MAXBYTES" "off \<le> i_size (ino s ip)" by auto
  have r': "room (0 + 1 + 3 * wmiss (nodes dev s ip) off (length src) + length (fblocks off (length src))) s" using r by simp
  obtain s' where s': "writei ip src off s = Ok (int (length src), s')" "written dev ip off src s s'" "dense dev ip s'"
      "i_size (ino s' ip) = max (i_size (ino s ip)) (off + length src)" "i_type (ino s' ip) = i_type (ino s ip)" "room 0 s'"
    using writei_ok [OF w t d h i lim r' n] by blast
  have W: "fs_wf dev s'" "ftree dev ip s'" "bheld s' = []" "fwrote dev ip off src s s'" "i_type (ino s' ip) \<noteq> T_DEV"
    using s'(2,5) h unfolding written_def by auto
  have m: "min (length src) (i_size (ino s' ip) - off) = length src" "off \<le> i_size (ino s' ip)" "off + length src < 2 ^ 32"
    using s'(4) lim by auto
  obtain s'' where "readi ip off (length src) s' = Ok (int (length src), map (fbyte dev ip s') [off..<off + length src], s'')"
    using readi_ok [OF W(1,2) s'(3) room_free [OF s'(6)] W(3,5) m(2,3)] unfolding m(1) by blast
  moreover have "map (fbyte dev ip s') [off..<off + length src] = src"
    by (rule nth_equalityI) (use W(4) lim(1) in \<open>auto simp: fwrote_def\<close>)
  ultimately show ?thesis using False s'(1-4) by auto
qed

lemma demo_file: "dense 1 0 fs_demo" "i_type (ino fs_demo 0) \<noteq> T_DEV" "i_inum (ino fs_demo 0) < sb_ninodes (sb fs_demo)"
  "dinode_ok (ino_dinode (ino fs_demo 0))" "i_size (ino fs_demo 0) = 0"
  by (auto simp: dense_def icache_demo ino_demo_def fs_demo_simps sb_demo_def dinode_ok_def ino_dinode_def)

lemma wmiss_demo: "wmiss (nodes 1 fs_demo 0) 0 (length [104, 105, 33 :: uchar]) = 1" "length (fblocks 0 (length [104, 105, 33 :: uchar])) = 1"
  using ftree_demo(2) by (simp_all add: wmiss_def fblocks_def missing_def pos_of_def)

lemma demo_room:
  "room (r + 1 + 3 * wmiss (nodes 1 fs_demo 0) 0 (length [104, 105, 33 :: uchar]) + length (fblocks 0 (length [104, 105, 33 :: uchar]))) fs_demo
     \<longleftrightarrow> room (r + 5) fs_demo"
  "wmiss (nodes 1 fs_demo 0) 0 (length [104, 105, 33 :: uchar]) \<le> nfree 1 fs_demo"
  unfolding wmiss_demo nfree_demo by (simp_all add: add.commute)

theorem writei_readi_roundtrip_witness:
  "\<exists>s' s''. writei 0 [104, 105, 33] 0 fs_demo = Ok (3, s') \<and> readi 0 0 3 s' = Ok (3, [104, 105, 33], s'')
    \<and> i_size (ino s' 0) = 3"
proof -
  have r: "room (0 + 1 + 3 * wmiss (nodes 1 fs_demo 0) 0 (length [104, 105, 33 :: uchar]) + length (fblocks 0 (length [104, 105, 33 :: uchar]))) fs_demo"
    unfolding demo_room by (rule room_mono [OF fs_demo_simps(4)]) simp
  show ?thesis
    using writei_readi_roundtrip [OF fs_wf_demo(1) ftree_demo(1) demo_file(1) fs_demo_simps(2) demo_file(2-4) _ _ r [unfolded add_0] demo_room(2)]
      demo_file(5) by (auto simp: numeral_3_eq_3)
qed

theorem readi_correct_witness:
  "\<exists>s' s''. writei 0 [104, 105, 33] 0 fs_demo = Ok (3, s') \<and> readi 0 1 10 s' = Ok (2, [105, 33], s'')"
proof -
  have r: "room (0 + 1 + 3 * wmiss (nodes 1 fs_demo 0) 0 (length [104, 105, 33 :: uchar]) + length (fblocks 0 (length [104, 105, 33 :: uchar]))) fs_demo"
    unfolding demo_room by (rule room_mono [OF fs_demo_simps(4)]) simp
  obtain s' where s': "writei 0 [104, 105, 33] 0 fs_demo = Ok (3, s')" "written 1 0 0 [104, 105, 33] fs_demo s'" "room 0 s'"
    using write_common [OF fs_wf_demo(1) ftree_demo(1) fs_demo_simps(2) _ demo_file(3,4) r demo_room(2)] demo_file
    by (auto simp: writei_def)
  have de: "dense 1 0 s'" by (rule dense_written [OF demo_file(1) s'(2) ftreeD(1) [OF ftree_demo(1)]]) simp_all
  have W: "fs_wf 1 s'" "ftree 1 0 s'" "bheld s' = []" "fwrote 1 0 0 [104, 105, 33] fs_demo s'"
      "icache s' = (icache fs_demo)[0 := (ino fs_demo 0)\<lparr>i_addrs := i_addrs (ino s' 0), i_size := 3\<rparr>]"
    using s'(2) fs_demo_simps(2) demo_file(5) unfolding written_def by (auto simp: numeral_3_eq_3)
  have sz: "i_size (ino s' 0) = 3" "i_type (ino s' 0) \<noteq> T_DEV"
    using arg_cong [OF W(5), of "\<lambda>l. i_size (l ! 0)"] arg_cong [OF W(5), of "\<lambda>l. i_type (l ! 0)"]
      ftreeD(1) [OF ftree_demo(1)] demo_file(2) by auto
  obtain s'' where "readi 0 1 10 s' = Ok (2, map (fbyte 1 0 s') [1..<3], s'')"
    using readi_correct [OF W(1,2) de room_free [OF s'(3)] W(3) sz(2), of 1 10] sz(1) by (auto simp: numeral_3_eq_3 simp del: upt.simps)
  moreover have "map (fbyte 1 0 s') [1..<3] = [105, 33]"
    using W(4) by (simp add: fwrote_def upt_rec)
  ultimately show ?thesis using s'(1) by auto
qed

end
