(* ===== verification/Pipe.thy ===== *)
theory Pipe
  imports Sched Readwrite
begin

text \<open>
  Pipes, pipe.c. A pipe is a ring of 512 bytes with two 32-bit counters that only grow and wrap
  around. A process that has to wait sleeps inside \<open>pipewrite\<close> or \<open>piperead\<close>; these routines are
  cut there, into the part that runs until the process returns or sleeps and the same part entered
  again after \<open>sleep\<close>. The ring implements a bounded queue of bytes, through the locale
  \<open>bounded_fifo\<close>; the channels the processes sleep on are governed by an invariant that holds
  under every interleaving.
\<close>

section \<open>State\<close>

abbreviation (input) PIPESIZE :: nat where "PIPESIZE \<equiv> 512"

record pipe =
  pi_data :: bytes
  pi_nread :: "32 word"
  pi_nwrite :: "32 word"
  pi_readopen :: bool
  pi_writeopen :: bool

text \<open>The open files of file.h; a pipe is named by the address of its page.\<close>

datatype filetype = FD_NONE | FD_PIPE | FD_INODE

record file_t =
  f_type :: filetype
  f_ref :: int
  f_readable :: bool
  f_writable :: bool
  f_pipe :: nat
  f_ip :: nat
  f_off :: nat

record filest = fsst +
  ftable :: "file_t list"
  pipes :: "nat \<Rightarrow> pipe"

definition upd_pipe :: "nat \<Rightarrow> (pipe \<Rightarrow> pipe) \<Rightarrow> 'a filest_scheme \<Rightarrow> 'a filest_scheme" where
  "upd_pipe a f s = s\<lparr>pipes := (pipes s)(a := f (pipes s a))\<rparr>"

section \<open>Operations\<close>

definition pipe_full :: "pipe \<Rightarrow> bool" where
  "pipe_full p \<longleftrightarrow> pi_nwrite p = pi_nread p + of_nat PIPESIZE"

definition pipe_empty :: "pipe \<Rightarrow> bool" where
  "pipe_empty p \<longleftrightarrow> pi_nread p = pi_nwrite p"

text \<open>\<open>p->data[p->nwrite++ % PIPESIZE] = b\<close> and \<open>p->data[p->nread++ % PIPESIZE]\<close>.\<close>

definition pipe_put :: "uchar \<Rightarrow> pipe \<Rightarrow> pipe" where
  "pipe_put b p = p\<lparr>pi_data := (pi_data p)[unat (pi_nwrite p) mod PIPESIZE := b], pi_nwrite := pi_nwrite p + 1\<rparr>"

definition pipe_first :: "pipe \<Rightarrow> uchar" where
  "pipe_first p = pi_data p ! (unat (pi_nread p) mod PIPESIZE)"

definition pipe_get :: "pipe \<Rightarrow> pipe" where
  "pipe_get p = p\<lparr>pi_nread := pi_nread p + 1\<rparr>"

definition cur_killed :: "'a kst_scheme \<Rightarrow> bool result" where
  "cur_killed s = (case curproc s of None \<Rightarrow> Err (Fault ''myproc'') | Some q \<Rightarrow> Ok (p_killed (procs (pt s) q)))"

fun pipewrite_loop :: "nat \<Rightarrow> nat \<Rightarrow> bytes \<Rightarrow> 'a filest_scheme \<Rightarrow> ((int, bytes) run \<times> 'a filest_scheme) result" where
  "pipewrite_loop a n [] s =
     rbind (wakeup (ChanPipeRead a) s) (\<lambda>s.
     rbind (release (PipeLock a) s) (\<lambda>s. Ok (Done (int n), s)))"
| "pipewrite_loop a n (b # bs) s =
     (if pipe_full (pipes s a) then
        rbind (if \<not> pi_readopen (pipes s a) then Ok True else cur_killed s) (\<lambda>stop.
        if stop then rbind (release (PipeLock a) s) (\<lambda>s. Ok (Done (-1), s))
        else rbind (wakeup (ChanPipeRead a) s) (\<lambda>s.
          rbind (sleep_enter (ChanPipeWrite a) (PipeLock a) s) (\<lambda>s. Ok (Blocked (b # bs), s))))
      else pipewrite_loop a n bs (upd_pipe a (pipe_put b) s))"

definition pipewrite :: "nat \<Rightarrow> bytes \<Rightarrow> 'a filest_scheme \<Rightarrow> ((int, bytes) run \<times> 'a filest_scheme) result" where
  "pipewrite a src s = rbind (acquire (PipeLock a) s) (pipewrite_loop a (length src) src)"

definition pipewrite_resume :: "nat \<Rightarrow> nat \<Rightarrow> bytes \<Rightarrow> 'a filest_scheme \<Rightarrow> ((int, bytes) run \<times> 'a filest_scheme) result" where
  "pipewrite_resume a n rest s = rbind (sleep_leave (PipeLock a) s) (pipewrite_loop a n rest)"

fun piperead_copy :: "nat \<Rightarrow> pipe \<Rightarrow> bytes \<times> pipe" where
  "piperead_copy 0 p = ([], p)"
| "piperead_copy (Suc n) p = (if pipe_empty p then ([], p)
     else let (ds, p') = piperead_copy n (pipe_get p) in (pipe_first p # ds, p'))"

definition piperead_loop :: "nat \<Rightarrow> nat \<Rightarrow> 'a filest_scheme \<Rightarrow> ((int \<times> bytes, unit) run \<times> 'a filest_scheme) result" where
  "piperead_loop a n s =
     (if pipe_empty (pipes s a) \<and> pi_writeopen (pipes s a) then
        rbind (cur_killed s) (\<lambda>killed.
        if killed then rbind (release (PipeLock a) s) (\<lambda>s. Ok (Done (-1, []), s))
        else rbind (sleep_enter (ChanPipeRead a) (PipeLock a) s) (\<lambda>s. Ok (Blocked (), s)))
      else let (ds, p) = piperead_copy n (pipes s a) in
        rbind (wakeup (ChanPipeWrite a) (upd_pipe a (\<lambda>_. p) s)) (\<lambda>s.
        rbind (release (PipeLock a) s) (\<lambda>s. Ok (Done (int (length ds), ds), s))))"

definition piperead :: "nat \<Rightarrow> nat \<Rightarrow> 'a filest_scheme \<Rightarrow> ((int \<times> bytes, unit) run \<times> 'a filest_scheme) result" where
  "piperead a n s = rbind (acquire (PipeLock a) s) (piperead_loop a n)"

definition piperead_resume :: "nat \<Rightarrow> nat \<Rightarrow> 'a filest_scheme \<Rightarrow> ((int \<times> bytes, unit) run \<times> 'a filest_scheme) result" where
  "piperead_resume a n s = rbind (sleep_leave (PipeLock a) s) (piperead_loop a n)"

definition pipeclose :: "nat \<Rightarrow> bool \<Rightarrow> 'a filest_scheme \<Rightarrow> 'a filest_scheme result" where
  "pipeclose a writable s =
     rbind (acquire (PipeLock a) s) (\<lambda>s.
     rbind (if writable then wakeup (ChanPipeRead a) (upd_pipe a (\<lambda>p. p\<lparr>pi_writeopen := False\<rparr>) s)
            else wakeup (ChanPipeWrite a) (upd_pipe a (\<lambda>p. p\<lparr>pi_readopen := False\<rparr>) s)) (\<lambda>s.
     if \<not> pi_readopen (pipes s a) \<and> \<not> pi_writeopen (pipes s a)
     then rbind (release (PipeLock a) s) (kfree a)
     else release (PipeLock a) s))"

section \<open>The ring is a bounded queue\<close>

text \<open>
  The contract of a bounded queue: \<open>cap\<close> elements, first in first out. \<open>put\<close> may only be used
  when the queue is not full, \<open>get\<close> only when it is not empty.
\<close>

locale bounded_fifo =
  fixes list :: "'q \<Rightarrow> 'b list" and invar :: "'q \<Rightarrow> bool" and cap :: nat
    and full empty :: "'q \<Rightarrow> bool" and put :: "'b \<Rightarrow> 'q \<Rightarrow> 'q" and first :: "'q \<Rightarrow> 'b" and get :: "'q \<Rightarrow> 'q"
  assumes list_le: "invar q \<Longrightarrow> length (list q) \<le> cap"
    and full_iff: "invar q \<Longrightarrow> full q \<longleftrightarrow> length (list q) = cap"
    and empty_iff: "invar q \<Longrightarrow> empty q \<longleftrightarrow> list q = []"
    and list_put: "invar q \<Longrightarrow> \<not> full q \<Longrightarrow> list (put x q) = list q @ [x] \<and> invar (put x q)"
    and list_get: "invar q \<Longrightarrow> \<not> empty q \<Longrightarrow> list q = first q # list (get q) \<and> invar (get q)"
begin

text \<open>Putting a list of elements one after the other, and taking up to \<open>n\<close> elements out.\<close>

lemma put_all:
  assumes "invar q" "length (list q) + length xs \<le> cap"
  shows "list (fold put xs q) = list q @ xs" "invar (fold put xs q)"
proof -
  have "list (fold put xs q) = list q @ xs \<and> invar (fold put xs q)"
    using assms
  proof (induction xs arbitrary: q)
    case (Cons x xs)
    then have nf: "\<not> full q" by (auto simp: full_iff)
    show ?case using Cons.IH [of "put x q"] Cons.prems list_put [OF Cons.prems(1) nf, of x] by simp
  qed simp
  then show "list (fold put xs q) = list q @ xs" "invar (fold put xs q)" by blast+
qed

lemma get_split:
  assumes "invar q"
  shows "\<not> empty q \<Longrightarrow> take (Suc n) (list q) = first q # take n (list (get q))"
    "\<not> empty q \<Longrightarrow> drop (Suc n) (list q) = drop n (list (get q))"
    "empty q \<Longrightarrow> take n (list q) = []"
  using assms list_get [of q] empty_iff [of q] by simp_all

end

definition pipe_ok :: "pipe \<Rightarrow> bool" where
  "pipe_ok p \<longleftrightarrow> length (pi_data p) = PIPESIZE \<and> unat (pi_nwrite p - pi_nread p) \<le> PIPESIZE"

definition pipe_queue :: "pipe \<Rightarrow> bytes" where
  "pipe_queue p = map (\<lambda>k. pi_data p ! ((unat (pi_nread p) + k) mod PIPESIZE)) [0..<unat (pi_nwrite p - pi_nread p)]"

lemma unat_wrap: "unat (w + of_nat k :: 32 word) mod PIPESIZE = (unat w + k) mod PIPESIZE"
  by (simp add: unat_word_ariths unat_of_nat mod_mod_cancel mod_add_right_eq)

lemma ring_distinct:
  assumes "k < (n :: nat)" "n < PIPESIZE"
  shows "(x + k) mod PIPESIZE \<noteq> (x + n) mod PIPESIZE"
proof
  assume "(x + k) mod PIPESIZE = (x + n) mod PIPESIZE"
  then have "PIPESIZE dvd (x + n) - (x + k)" using mod_eq_dvd_iff_nat [of "x + k" "x + n" PIPESIZE] assms by simp
  then have "PIPESIZE \<le> n - k" using assms by (intro dvd_imp_le) auto
  then show False using assms by simp
qed

lemma unat_minus_succ:
  fixes r w :: "32 word"
  shows "unat (w - r) < 2 ^ 32 - 1 \<Longrightarrow> unat (w + 1 - r) = Suc (unat (w - r))"
    and "w \<noteq> r \<Longrightarrow> Suc (unat (w - (r + 1))) = unat (w - r)"
proof -
  have e: "w + 1 - r = (w - r) + 1" by simp
  show "unat (w - r) < 2 ^ 32 - 1 \<Longrightarrow> unat (w + 1 - r) = Suc (unat (w - r))"
    unfolding e unat_word_ariths by simp
  assume "w \<noteq> r"
  then have "w - r \<noteq> 0" by simp
  then have "unat (w - r - 1) = unat (w - r) - 1" "0 < unat (w - r)" by (simp_all add: unat_minus_one unat_gt_0)
  then show "Suc (unat (w - (r + 1))) = unat (w - r)" by (simp add: diff_diff_eq)
qed

lemma pipe_put_queue:
  assumes ok: "pipe_ok p" and n: "unat (pi_nwrite p - pi_nread p) < PIPESIZE"
  shows "pipe_queue (pipe_put b p) = pipe_queue p @ [b]" "pipe_ok (pipe_put b p)"
proof -
  let ?c = "unat (pi_nwrite p - pi_nread p)" and ?r = "unat (pi_nread p)"
  have l: "length (pi_data p) = PIPESIZE" using ok by (simp add: pipe_ok_def)
  have w: "unat (pi_nwrite p) mod PIPESIZE = (?r + ?c) mod PIPESIZE"
    using unat_wrap [of "pi_nread p" ?c] by simp
  have c: "unat (pi_nwrite (pipe_put b p) - pi_nread (pipe_put b p)) = Suc ?c"
    using unat_minus_succ(1) [of "pi_nwrite p" "pi_nread p"] n by (simp add: pipe_put_def)
  have "map (\<lambda>k. (pi_data p)[(?r + ?c) mod PIPESIZE := b] ! ((?r + k) mod PIPESIZE)) [0..<?c]
      = map (\<lambda>k. pi_data p ! ((?r + k) mod PIPESIZE)) [0..<?c]"
    using ring_distinct [OF _ n, of _ ?r] by (intro map_cong refl) (metis atLeastLessThan_iff nth_list_update_neq set_upt)
  moreover have "(pi_data p)[(?r + ?c) mod PIPESIZE := b] ! ((?r + ?c) mod PIPESIZE) = b" using l by simp
  ultimately show "pipe_queue (pipe_put b p) = pipe_queue p @ [b]"
    unfolding pipe_queue_def c by (simp add: pipe_put_def w)
  show "pipe_ok (pipe_put b p)" unfolding pipe_ok_def c using n l by (simp add: pipe_put_def)
qed

lemma pipe_get_queue:
  assumes ok: "pipe_ok p" and n: "pi_nread p \<noteq> pi_nwrite p"
  shows "pipe_queue p = pipe_first p # pipe_queue (pipe_get p)" "pipe_ok (pipe_get p)"
proof -
  let ?c = "unat (pi_nwrite p - (pi_nread p + 1))"
  have c: "unat (pi_nwrite p - pi_nread p) = Suc ?c" using unat_minus_succ(2) [of "pi_nwrite p" "pi_nread p"] n by simp
  have u: "unat (pi_nread p + 1) mod PIPESIZE = (unat (pi_nread p) + 1) mod PIPESIZE"
    using unat_wrap [of "pi_nread p" 1] by (simp only: of_nat_1)
  have s: "(unat (pi_nread p + 1) + k) mod PIPESIZE = (unat (pi_nread p) + Suc k) mod PIPESIZE" for k
    using arg_cong [OF u, of "\<lambda>x. (x + k) mod PIPESIZE"] by (simp only: mod_add_left_eq) (simp only: add.assoc plus_1_eq_Suc)
  have m: "map (\<lambda>k. f (Suc k)) [0..<?c] = map f [1..<Suc ?c]" for f :: "nat \<Rightarrow> uchar"
    unfolding One_nat_def map_Suc_upt [symmetric] map_map comp_def ..
  show "pipe_queue p = pipe_first p # pipe_queue (pipe_get p)"
    unfolding pipe_queue_def c using m [of "\<lambda>k. pi_data p ! ((unat (pi_nread p) + k) mod PIPESIZE)"] by (simp add: pipe_get_def pipe_first_def s upt_conv_Cons del: upt_Suc)
  show "pipe_ok (pipe_get p)" using ok c by (simp add: pipe_ok_def pipe_get_def)
qed

interpretation ring: bounded_fifo pipe_queue pipe_ok PIPESIZE pipe_full pipe_empty pipe_put pipe_first pipe_get
proof
  fix p :: pipe and b :: uchar
  assume ok: "pipe_ok p"
  have l: "length (pipe_queue p) = unat (pi_nwrite p - pi_nread p)" by (simp add: pipe_queue_def)
  show "length (pipe_queue p) \<le> PIPESIZE" using ok l by (simp add: pipe_ok_def)
  have "unat (pi_nwrite p - pi_nread p) = PIPESIZE \<longleftrightarrow> pi_nwrite p - pi_nread p = of_nat PIPESIZE"
    by (simp add: word_unat_eq_iff)
  then show f: "pipe_full p \<longleftrightarrow> length (pipe_queue p) = PIPESIZE"
    unfolding l pipe_full_def by (simp add: algebra_simps diff_eq_eq)
  have "unat (pi_nwrite p - pi_nread p) = 0 \<longleftrightarrow> pi_nread p = pi_nwrite p" by (auto simp: unat_eq_0)
  then show e: "pipe_empty p \<longleftrightarrow> pipe_queue p = []" unfolding pipe_empty_def using l by (metis length_0_conv)
  show "pipe_queue (pipe_put b p) = pipe_queue p @ [b] \<and> pipe_ok (pipe_put b p)" if "\<not> pipe_full p"
    using pipe_put_queue [OF ok, of b] that f l ok by (simp add: pipe_ok_def)
  show "pipe_queue p = pipe_first p # pipe_queue (pipe_get p) \<and> pipe_ok (pipe_get p)" if "\<not> pipe_empty p"
    using pipe_get_queue [OF ok] that by (simp add: pipe_empty_def)
qed

section \<open>Reading and writing\<close>

lemma upd_pipe_simps [simp]:
  "pipes (upd_pipe a f s) a = f (pipes s a)" "b \<noteq> a \<Longrightarrow> pipes (upd_pipe a f s) b = pipes s b"
  "held (upd_pipe a f s) = held s" "curproc (upd_pipe a f s) = curproc s" "pt (upd_pipe a f s) = pt s"
  "upd_pipe a f (upd_pipe a g s) = upd_pipe a (\<lambda>p. f (g p)) s"
  by (simp_all add: upd_pipe_def)

lemma pipewrite_loop_fold:
  assumes "pipe_ok (pipes s a)" "length (pipe_queue (pipes s a)) + length xs \<le> PIPESIZE"
  shows "pipewrite_loop a n (xs @ ys) s = pipewrite_loop a n ys (upd_pipe a (fold pipe_put xs) s)"
  using assms
proof (induction xs arbitrary: s)
  case Nil
  then show ?case by (simp add: upd_pipe_def)
next
  case (Cons x xs)
  then have nf: "\<not> pipe_full (pipes s a)" by (auto simp: ring.full_iff)
  show ?case using Cons.IH [of "upd_pipe a (pipe_put x) s"] ring.list_put [OF Cons.prems(1) nf, of x] Cons.prems nf
    by (simp add: comp_def)
qed

text \<open>
  \<open>pipewrite_loop\<close> in one step: the bytes that fit are appended; then the writer returns, gives up
  because nobody can read, or wakes the readers and sleeps.
\<close>

lemma pipewrite_loop_ok:
  fixes s :: "'a filest_scheme" and src :: bytes
  assumes ok: "pipe_ok (pipes s a)" and h: "held s = [PipeLock a]" and c: "curproc s = Some q" "q < length (pt_proc (pt s))"
  defines "k \<equiv> PIPESIZE - length (pipe_queue (pipes s a))"
  defines "s1 \<equiv> upd_pipe a (fold pipe_put (take k src)) s"
  shows "pipe_ok (pipes s1 a)" "pipe_queue (pipes s1 a) = pipe_queue (pipes s a) @ take k src"
    "pi_readopen (pipes s1 a) = pi_readopen (pipes s a)" "pi_writeopen (pipes s1 a) = pi_writeopen (pipes s a)"
    "pipewrite_loop a n src s =
      (if length src \<le> k then Ok (Done (int n), s1\<lparr>held := [], pt := wakeup1 (Some (ChanPipeRead a)) (pt s)\<rparr>)
       else if \<not> pi_readopen (pipes s a) \<or> p_killed (procs (pt s) q) then Ok (Done (-1), s1\<lparr>held := []\<rparr>)
       else Ok (Blocked (drop k src), s1\<lparr>held := [PtableLock], pt := upd_proc q
         (\<lambda>p. p\<lparr>p_chan := Some (ChanPipeWrite a), p_state := SLEEPING\<rparr>) (wakeup1 (Some (ChanPipeRead a)) (pt s))\<rparr>))"
proof -
  have fit: "length (pipe_queue (pipes s a)) + length (take k src) \<le> PIPESIZE"
    using ring.list_le [OF ok] by (simp add: k_def)
  note P = ring.put_all [OF ok fit]
  show ok1: "pipe_ok (pipes s1 a)" and q1: "pipe_queue (pipes s1 a) = pipe_queue (pipes s a) @ take k src"
    using P by (simp_all add: s1_def)
  have flags: "pi_readopen (fold pipe_put xs p) = pi_readopen p \<and> pi_writeopen (fold pipe_put xs p) = pi_writeopen p" for xs p
    by (induction xs arbitrary: p) (simp_all add: pipe_put_def)
  show ro: "pi_readopen (pipes s1 a) = pi_readopen (pipes s a)" and "pi_writeopen (pipes s1 a) = pi_writeopen (pipes s a)"
    using flags by (simp_all add: s1_def)
  have fr: "held s1 = [PipeLock a]" "curproc s1 = Some q" "pt s1 = pt s" using h c by (simp_all add: s1_def)
  have l: "pipewrite_loop a n src s = pipewrite_loop a n (drop k src) s1"
    using pipewrite_loop_fold [OF ok fit, of n "drop k src"] by (simp add: s1_def)
  show "pipewrite_loop a n src s =
      (if length src \<le> k then Ok (Done (int n), s1\<lparr>held := [], pt := wakeup1 (Some (ChanPipeRead a)) (pt s)\<rparr>)
       else if \<not> pi_readopen (pipes s a) \<or> p_killed (procs (pt s) q) then Ok (Done (-1), s1\<lparr>held := []\<rparr>)
       else Ok (Blocked (drop k src), s1\<lparr>held := [PtableLock], pt := upd_proc q
         (\<lambda>p. p\<lparr>p_chan := Some (ChanPipeWrite a), p_state := SLEEPING\<rparr>) (wakeup1 (Some (ChanPipeRead a)) (pt s))\<rparr>))"
  proof (cases "length src \<le> k")
    case True
    then show ?thesis unfolding l using fr by (simp add: wakeup_eq release_def)
  next
    case False
    then obtain b bs where b: "drop k src = b # bs" by (cases "drop k src") auto
    have full: "pipe_full (pipes s1 a)"
      using False q1 ring.list_le [OF ok] by (simp add: ring.full_iff [OF ok1] k_def)
    show ?thesis unfolding l b using False full fr ro c(2)
      by (auto simp: cur_killed_def release_def acquire_def wakeup_eq sleep_enter_seq sched_def)
  qed
qed

lemma piperead_copy_ok:
  assumes "pipe_ok p"
  shows "\<exists>p'. piperead_copy n p = (take n (pipe_queue p), p') \<and> pipe_ok p' \<and> pipe_queue p' = drop n (pipe_queue p)
    \<and> pi_readopen p' = pi_readopen p \<and> pi_writeopen p' = pi_writeopen p"
  using assms
proof (induction n arbitrary: p)
  case (Suc n)
  show ?case
  proof (cases "pipe_empty p")
    case True
    then show ?thesis using Suc.prems ring.empty_iff [OF Suc.prems] by simp
  next
    case False
    then show ?thesis using Suc.IH [of "pipe_get p"] ring.list_get [OF Suc.prems False] ring.get_split(1,2) [OF Suc.prems False]
      by (auto simp: pipe_get_def)
  qed
qed simp

lemma piperead_loop_ok:
  fixes s :: "'a filest_scheme"
  assumes ok: "pipe_ok (pipes s a)" and h: "held s = [PipeLock a]" and c: "curproc s = Some q" "q < length (pt_proc (pt s))"
  shows "if pipe_queue (pipes s a) = [] \<and> pi_writeopen (pipes s a) then
      piperead_loop a n s = (if p_killed (procs (pt s) q) then Ok (Done (-1, []), s\<lparr>held := []\<rparr>)
        else Ok (Blocked (), s\<lparr>held := [PtableLock], pt := upd_proc q
         (\<lambda>p. p\<lparr>p_chan := Some (ChanPipeRead a), p_state := SLEEPING\<rparr>) (pt s)\<rparr>))
    else \<exists>p. piperead_loop a n s = Ok (Done (int (length (take n (pipe_queue (pipes s a)))), take n (pipe_queue (pipes s a))),
          (upd_pipe a (\<lambda>_. p) s)\<lparr>held := [], pt := wakeup1 (Some (ChanPipeWrite a)) (pt s)\<rparr>)
        \<and> pipe_ok p \<and> pipe_queue p = drop n (pipe_queue (pipes s a))
        \<and> pi_readopen p = pi_readopen (pipes s a) \<and> pi_writeopen p = pi_writeopen (pipes s a)"
proof (cases "pipe_queue (pipes s a) = [] \<and> pi_writeopen (pipes s a)")
  case True
  then show ?thesis using h c ring.empty_iff [OF ok]
    by (simp add: piperead_loop_def cur_killed_def release_def acquire_def sleep_enter_seq sched_def)
next
  case False
  obtain p where "piperead_copy n (pipes s a) = (take n (pipe_queue (pipes s a)), p)" "pipe_ok p" "pipe_queue p = drop n (pipe_queue (pipes s a))"
      "pi_readopen p = pi_readopen (pipes s a)" "pi_writeopen p = pi_writeopen (pipes s a)"
    using piperead_copy_ok [OF ok] by blast
  moreover have "\<not> (pipe_empty (pipes s a) \<and> pi_writeopen (pipes s a))" using False ring.empty_iff [OF ok] by simp
  ultimately show ?thesis unfolding if_not_P [OF False] using h
    by (intro exI [of _ p]) (auto simp: piperead_loop_def wakeup_eq release_def)
qed

lemma acquire_pipe:
  assumes "held s = []"
  shows "acquire (PipeLock a) s = Ok (s\<lparr>held := [PipeLock a]\<rparr>)" "s\<lparr>held := []\<rparr> = s"
  using assms by (simp_all add: acquire_def)

lemma pipewrite_run:
  fixes s :: "'a filest_scheme" and src :: bytes
  assumes ok: "pipe_ok (pipes s a)" and h: "held s = []" and c: "curproc s = Some q" "q < length (pt_proc (pt s))"
  defines "k \<equiv> PIPESIZE - length (pipe_queue (pipes s a))"
  shows "\<exists>p. pipe_ok p \<and> pipe_queue p = pipe_queue (pipes s a) @ take k src \<and>
      pi_readopen p = pi_readopen (pipes s a) \<and> pi_writeopen p = pi_writeopen (pipes s a) \<and>
      pipewrite_loop a n src (s\<lparr>held := [PipeLock a]\<rparr>) =
        (if length src \<le> k then Ok (Done (int n), (upd_pipe a (\<lambda>_. p) s)\<lparr>pt := wakeup1 (Some (ChanPipeRead a)) (pt s)\<rparr>)
         else if \<not> pi_readopen (pipes s a) \<or> p_killed (procs (pt s) q) then Ok (Done (-1), upd_pipe a (\<lambda>_. p) s)
         else Ok (Blocked (drop k src), (upd_pipe a (\<lambda>_. p) s)\<lparr>held := [PtableLock], pt := upd_proc q
           (\<lambda>p. p\<lparr>p_chan := Some (ChanPipeWrite a), p_state := SLEEPING\<rparr>) (wakeup1 (Some (ChanPipeRead a)) (pt s))\<rparr>))"
proof -
  let ?s = "s\<lparr>held := [PipeLock a]\<rparr>" and ?p = "fold pipe_put (take k src) (pipes s a)"
  have A: "pipe_ok (pipes ?s a)" "held ?s = [PipeLock a]" "curproc ?s = Some q" "q < length (pt_proc (pt ?s))"
    using ok c by simp_all
  have u: "(upd_pipe a (fold pipe_put (take k src)) ?s)\<lparr>held := []\<rparr> = upd_pipe a (\<lambda>_. ?p) s"
      "(upd_pipe a (fold pipe_put (take k src)) ?s)\<lparr>held := [], pt := t\<rparr> = (upd_pipe a (\<lambda>_. ?p) s)\<lparr>pt := t\<rparr>"
      "(upd_pipe a (fold pipe_put (take k src)) ?s)\<lparr>held := x, pt := t\<rparr> = (upd_pipe a (\<lambda>_. ?p) s)\<lparr>held := x, pt := t\<rparr>" for t x
    using h by (simp_all add: upd_pipe_def)
  have B: "pipes ?s = pipes s" "pt ?s = pt s" by simp_all
  note W = pipewrite_loop_ok [OF A, where src = src, unfolded B, folded k_def]
  from W(1-4) show ?thesis unfolding W(5) u by (intro exI [of _ ?p]) (simp only: upd_pipe_simps B simp_thms)
qed

lemma piperead_run:
  fixes s :: "'a filest_scheme"
  assumes ok: "pipe_ok (pipes s a)" and h: "held s = []" and c: "curproc s = Some q" "q < length (pt_proc (pt s))"
  shows "if pipe_queue (pipes s a) = [] \<and> pi_writeopen (pipes s a) then
        piperead_loop a n (s\<lparr>held := [PipeLock a]\<rparr>) = (if p_killed (procs (pt s) q) then Ok (Done (-1, []), s)
          else Ok (Blocked (), s\<lparr>held := [PtableLock], pt := upd_proc q
            (\<lambda>p. p\<lparr>p_chan := Some (ChanPipeRead a), p_state := SLEEPING\<rparr>) (pt s)\<rparr>))
      else \<exists>p. pipe_ok p \<and> pipe_queue p = drop n (pipe_queue (pipes s a)) \<and>
        pi_readopen p = pi_readopen (pipes s a) \<and> pi_writeopen p = pi_writeopen (pipes s a) \<and>
        piperead_loop a n (s\<lparr>held := [PipeLock a]\<rparr>) = Ok (Done (int (length (take n (pipe_queue (pipes s a)))), take n (pipe_queue (pipes s a))),
          (upd_pipe a (\<lambda>_. p) s)\<lparr>pt := wakeup1 (Some (ChanPipeWrite a)) (pt s)\<rparr>)"
proof -
  let ?s = "s\<lparr>held := [PipeLock a]\<rparr>"
  have A: "pipe_ok (pipes ?s a)" "held ?s = [PipeLock a]" "curproc ?s = Some q" "q < length (pt_proc (pt ?s))"
    using ok c by simp_all
  have u: "(upd_pipe a f ?s)\<lparr>held := [], pt := t\<rparr> = (upd_pipe a f s)\<lparr>pt := t\<rparr>" for f t
    using h by (simp add: upd_pipe_def)
  note R = piperead_loop_ok [OF A, of n]
  show ?thesis
  proof (cases "pipe_queue (pipes s a) = [] \<and> pi_writeopen (pipes s a)")
    case True
    then show ?thesis using R acquire_pipe(2) [OF h] by simp
  next
    case False
    then have F: "\<not> (pipe_queue (pipes ?s a) = [] \<and> pi_writeopen (pipes ?s a))" by simp
    from R [unfolded if_not_P [OF F] u] show ?thesis unfolding if_not_P [OF False] by auto
  qed
qed

lemma pipe_enter:
  assumes "held s = []"
  shows "pipewrite a src s = pipewrite_loop a (length src) src (s\<lparr>held := [PipeLock a]\<rparr>)"
    "piperead a n s = piperead_loop a n (s\<lparr>held := [PipeLock a]\<rparr>)"
  unfolding pipewrite_def piperead_def acquire_pipe [OF assms] by simp_all

text \<open>After \<open>sleep\<close> the routine continues like a new call, without a channel.\<close>

lemma pipe_reenter:
  assumes "held s = []" "curproc s = Some q"
  shows "pipewrite_resume a n rest (s\<lparr>held := [PtableLock]\<rparr>) =
      pipewrite_loop a n rest (s\<lparr>pt := upd_proc q (\<lambda>p. p\<lparr>p_chan := None\<rparr>) (pt s), held := [PipeLock a]\<rparr>)"
    "piperead_resume a n (s\<lparr>held := [PtableLock]\<rparr>) =
      piperead_loop a n (s\<lparr>pt := upd_proc q (\<lambda>p. p\<lparr>p_chan := None\<rparr>) (pt s), held := [PipeLock a]\<rparr>)"
  using assms by (simp_all add: pipewrite_resume_def piperead_resume_def sleep_leave_seq acquire_def release_def Let_def)

text \<open>
  C24. A pipe is a queue of at most 512 bytes, also when its counters wrap around. \<open>pipewrite\<close> appends
  the bytes that fit. When all fit it wakes the readers and returns their number; otherwise it
  returns -1 when the read end is closed or the process is killed, or else wakes the readers and
  sleeps with the remaining bytes to be written. \<open>piperead\<close> takes the first \<open>n\<close> bytes, or as many
  as there are, out of the queue and wakes the writers; on an empty queue it returns 0 bytes when
  the write end is closed, -1 when the process is killed, and sleeps otherwise.\<close>

theorem pipe_fifo:
  fixes s :: "'a filest_scheme" and src :: bytes
  assumes ok: "pipe_ok (pipes s a)" and h: "held s = []" and c: "curproc s = Some q" "q < length (pt_proc (pt s))"
  defines "Q \<equiv> pipe_queue (pipes s a)"
  defines "k \<equiv> PIPESIZE - length Q"
  shows "length Q \<le> PIPESIZE \<and>
    (\<exists>p. pipe_ok p \<and> pipe_queue p = Q @ take k src \<and>
      pipewrite a src s =
        (if length src \<le> k then Ok (Done (int (length src)), (upd_pipe a (\<lambda>_. p) s)\<lparr>pt := wakeup1 (Some (ChanPipeRead a)) (pt s)\<rparr>)
         else if \<not> pi_readopen (pipes s a) \<or> p_killed (procs (pt s) q) then Ok (Done (-1), upd_pipe a (\<lambda>_. p) s)
         else Ok (Blocked (drop k src), (upd_pipe a (\<lambda>_. p) s)\<lparr>held := [PtableLock], pt := upd_proc q
           (\<lambda>p. p\<lparr>p_chan := Some (ChanPipeWrite a), p_state := SLEEPING\<rparr>) (wakeup1 (Some (ChanPipeRead a)) (pt s))\<rparr>))) \<and>
    (if Q = [] \<and> pi_writeopen (pipes s a) then
        piperead a n s = (if p_killed (procs (pt s) q) then Ok (Done (-1, []), s)
          else Ok (Blocked (), s\<lparr>held := [PtableLock], pt := upd_proc q
            (\<lambda>p. p\<lparr>p_chan := Some (ChanPipeRead a), p_state := SLEEPING\<rparr>) (pt s)\<rparr>))
      else \<exists>p. pipe_ok p \<and> pipe_queue p = drop n Q \<and>
        piperead a n s = Ok (Done (int (length (take n Q)), take n Q),
          (upd_pipe a (\<lambda>_. p) s)\<lparr>pt := wakeup1 (Some (ChanPipeWrite a)) (pt s)\<rparr>))"
proof (intro conjI)
  show "length Q \<le> PIPESIZE" using ring.list_le [OF ok] by (simp add: Q_def)
  show "\<exists>p. pipe_ok p \<and> pipe_queue p = Q @ take k src \<and>
      pipewrite a src s =
        (if length src \<le> k then Ok (Done (int (length src)), (upd_pipe a (\<lambda>_. p) s)\<lparr>pt := wakeup1 (Some (ChanPipeRead a)) (pt s)\<rparr>)
         else if \<not> pi_readopen (pipes s a) \<or> p_killed (procs (pt s) q) then Ok (Done (-1), upd_pipe a (\<lambda>_. p) s)
         else Ok (Blocked (drop k src), (upd_pipe a (\<lambda>_. p) s)\<lparr>held := [PtableLock], pt := upd_proc q
           (\<lambda>p. p\<lparr>p_chan := Some (ChanPipeWrite a), p_state := SLEEPING\<rparr>) (wakeup1 (Some (ChanPipeRead a)) (pt s))\<rparr>))"
    using pipewrite_run [OF assms(1-4), of src "length src"] unfolding Q_def k_def pipe_enter [OF h] by blast
  show "if Q = [] \<and> pi_writeopen (pipes s a) then
        piperead a n s = (if p_killed (procs (pt s) q) then Ok (Done (-1, []), s)
          else Ok (Blocked (), s\<lparr>held := [PtableLock], pt := upd_proc q
            (\<lambda>p. p\<lparr>p_chan := Some (ChanPipeRead a), p_state := SLEEPING\<rparr>) (pt s)\<rparr>))
      else \<exists>p. pipe_ok p \<and> pipe_queue p = drop n Q \<and>
        piperead a n s = Ok (Done (int (length (take n Q)), take n Q),
          (upd_pipe a (\<lambda>_. p) s)\<lparr>pt := wakeup1 (Some (ChanPipeWrite a)) (pt s)\<rparr>)"
    using piperead_run [OF assms(1-4), of n] unfolding Q_def pipe_enter [OF h] by (auto split: if_splits)
qed

section \<open>Sleeping readers and writers\<close>

definition asleep :: "chan \<Rightarrow> ptable \<Rightarrow> nat \<Rightarrow> bool" where
  "asleep c t q \<longleftrightarrow> q < length (pt_proc t) \<and> p_state (procs t q) = SLEEPING \<and> p_chan (procs t q) = Some c"

text \<open>
  A writer sleeps only on a full pipe that can be read and while no reader sleeps, a reader only on a
  pipe that can be written; the pipe is empty then, unless (\<open>g\<close>) a writer has given up.
\<close>

definition pipe_sleepers :: "bool \<Rightarrow> nat \<Rightarrow> 'a filest_scheme \<Rightarrow> bool" where
  "pipe_sleepers g a s \<longleftrightarrow> pipe_ok (pipes s a)
     \<and> (\<forall>q. asleep (ChanPipeWrite a) (pt s) q \<longrightarrow> length (pipe_queue (pipes s a)) = PIPESIZE \<and> pi_readopen (pipes s a))
     \<and> (\<forall>q. asleep (ChanPipeRead a) (pt s) q \<longrightarrow> (g \<or> pipe_queue (pipes s a) = []) \<and> pi_writeopen (pipes s a))
     \<and> (\<forall>q r. asleep (ChanPipeWrite a) (pt s) q \<longrightarrow> \<not> asleep (ChanPipeRead a) (pt s) r)"

text \<open>
  The steps of all processes on the pipe \<open>a\<close>, in any order: calls of \<open>pipewrite\<close> and \<open>piperead\<close>,
  their continuation after \<open>sleep\<close>, the closing of an end, and anything else (scheduling, kills,
  other system calls) that leaves the pipe alone and puts nobody to sleep on it. The second argument
  tells whether the step is a writer that gives up with -1, because it is killed or the read end closed.
\<close>

inductive pipe_step :: "nat \<Rightarrow> bool \<Rightarrow> 'a filest_scheme \<Rightarrow> 'a filest_scheme \<Rightarrow> bool" for a where
  wr: "held s = [] \<Longrightarrow> curproc s = Some q \<Longrightarrow> q < length (pt_proc (pt s)) \<Longrightarrow> p_state (procs (pt s) q) = RUNNING \<Longrightarrow>
    pipewrite a src s = Ok (r, s') \<Longrightarrow> pipe_step a (r = Done (-1)) s (s'\<lparr>held := []\<rparr>)"
| wr_more: "held s = [] \<Longrightarrow> curproc s = Some q \<Longrightarrow> q < length (pt_proc (pt s)) \<Longrightarrow> p_state (procs (pt s) q) = RUNNING \<Longrightarrow>
    pipewrite_resume a n rest (s\<lparr>held := [PtableLock]\<rparr>) = Ok (r, s') \<Longrightarrow> pipe_step a (r = Done (-1)) s (s'\<lparr>held := []\<rparr>)"
| rd: "held s = [] \<Longrightarrow> curproc s = Some q \<Longrightarrow> q < length (pt_proc (pt s)) \<Longrightarrow> p_state (procs (pt s) q) = RUNNING \<Longrightarrow>
    piperead a n s = Ok (r', s') \<Longrightarrow> pipe_step a False s (s'\<lparr>held := []\<rparr>)"
| rd_more: "held s = [] \<Longrightarrow> curproc s = Some q \<Longrightarrow> q < length (pt_proc (pt s)) \<Longrightarrow> p_state (procs (pt s) q) = RUNNING \<Longrightarrow>
    piperead_resume a n (s\<lparr>held := [PtableLock]\<rparr>) = Ok (r', s') \<Longrightarrow> pipe_step a False s (s'\<lparr>held := []\<rparr>)"
| shut: "held s = [] \<Longrightarrow> pipeclose a w s = Ok s' \<Longrightarrow> pipe_step a False s (s'\<lparr>held := []\<rparr>)"
| other: "pipes s' a = pipes s a \<Longrightarrow> (\<And>q. asleep (ChanPipeWrite a) (pt s') q \<Longrightarrow> asleep (ChanPipeWrite a) (pt s) q) \<Longrightarrow>
    (\<And>q. asleep (ChanPipeRead a) (pt s') q \<Longrightarrow> asleep (ChanPipeRead a) (pt s) q) \<Longrightarrow> pipe_step a False s s'"

lemma asleep_wakeup1: "asleep c (wakeup1 (Some d) t) q \<longleftrightarrow> asleep c t q \<and> c \<noteq> d"
  by (cases "q < length (pt_proc t)") (auto simp: asleep_def procs_wakeup1)

lemma asleep_upd:
  assumes "p < length (pt_proc t)"
  shows "asleep c (upd_proc p (\<lambda>q. q\<lparr>p_chan := Some d, p_state := SLEEPING\<rparr>) t) q \<longleftrightarrow> (if q = p then c = d else asleep c t q)"
  using assms by (auto simp: asleep_def procs_upd_proc)

lemma write_sleepers:
  fixes s :: "'a filest_scheme"
  assumes I: "pipe_sleepers g a s" and h: "held s = []" and c: "curproc s = Some q" "q < length (pt_proc (pt s))"
    and w: "pipewrite_loop a n src (s\<lparr>held := [PipeLock a]\<rparr>) = Ok (r, s')"
  shows "pipe_sleepers (g \<or> r = Done (-1)) a (s'\<lparr>held := []\<rparr>)"
proof -
  let ?Q = "pipe_queue (pipes s a)" and ?k = "PIPESIZE - length (pipe_queue (pipes s a))"
  have ok: "pipe_ok (pipes s a)" using I by (simp add: pipe_sleepers_def)
  obtain p where p: "pipe_ok p" "pipe_queue p = ?Q @ take ?k src"
      "pi_readopen p = pi_readopen (pipes s a)" "pi_writeopen p = pi_writeopen (pipes s a)"
      "pipewrite_loop a n src (s\<lparr>held := [PipeLock a]\<rparr>) =
        (if length src \<le> ?k then Ok (Done (int n), (upd_pipe a (\<lambda>_. p) s)\<lparr>pt := wakeup1 (Some (ChanPipeRead a)) (pt s)\<rparr>)
         else if \<not> pi_readopen (pipes s a) \<or> p_killed (procs (pt s) q) then Ok (Done (-1), upd_pipe a (\<lambda>_. p) s)
         else Ok (Blocked (drop ?k src), (upd_pipe a (\<lambda>_. p) s)\<lparr>held := [PtableLock], pt := upd_proc q
           (\<lambda>p. p\<lparr>p_chan := Some (ChanPipeWrite a), p_state := SLEEPING\<rparr>) (wakeup1 (Some (ChanPipeRead a)) (pt s))\<rparr>))"
    using pipewrite_run [OF ok h c, of src n] by (elim exE conjE)
  have l: "length ?Q \<le> PIPESIZE" by (rule ring.list_le [OF ok])
  have nosleep: "length (pipe_queue p) = PIPESIZE" if "length ?Q = PIPESIZE" using that p(2) by simp
  show ?thesis
  proof (cases "length src \<le> ?k")
    case True
    then have "s' = (upd_pipe a (\<lambda>_. p) s)\<lparr>pt := wakeup1 (Some (ChanPipeRead a)) (pt s)\<rparr>" using w p(5) by simp
    then show ?thesis using I p(1,3) nosleep by (simp add: pipe_sleepers_def asleep_wakeup1)
  next
    case False
    note big = False
    have full: "length (pipe_queue p) = PIPESIZE" using False p(2) l by simp
    show ?thesis
    proof (cases "\<not> pi_readopen (pipes s a) \<or> p_killed (procs (pt s) q)")
      case True
      then have "s' = upd_pipe a (\<lambda>_. p) s" "r = Done (-1)" using w p(5) big by simp_all
      then show ?thesis using I p(1,3,4) full by (simp add: pipe_sleepers_def)
    next
      case False
      then have ro: "pi_readopen (pipes s a)" and s': "s' = (upd_pipe a (\<lambda>_. p) s)\<lparr>held := [PtableLock], pt := upd_proc q
           (\<lambda>p. p\<lparr>p_chan := Some (ChanPipeWrite a), p_state := SLEEPING\<rparr>) (wakeup1 (Some (ChanPipeRead a)) (pt s))\<rparr>"
        using w p(5) big by simp_all
      show ?thesis using I p(1,3) ro c(2) full unfolding s' by (simp add: pipe_sleepers_def asleep_wakeup1 asleep_upd)
    qed
  qed
qed

lemma read_sleepers:
  fixes s :: "'a filest_scheme"
  assumes I: "pipe_sleepers g a s" and h: "held s = []" and c: "curproc s = Some q" "q < length (pt_proc (pt s))"
    and r: "piperead_loop a n (s\<lparr>held := [PipeLock a]\<rparr>) = Ok (r, s')"
  shows "pipe_sleepers g a (s'\<lparr>held := []\<rparr>)"
proof -
  let ?Q = "pipe_queue (pipes s a)"
  have ok: "pipe_ok (pipes s a)" using I by (simp add: pipe_sleepers_def)
  note R = piperead_run [OF ok h c, of n]
  show ?thesis
  proof (cases "?Q = [] \<and> pi_writeopen (pipes s a)")
    case True
    then have "s' = s \<or> s' = s\<lparr>held := [PtableLock], pt := upd_proc q (\<lambda>p. p\<lparr>p_chan := Some (ChanPipeRead a), p_state := SLEEPING\<rparr>) (pt s)\<rparr>"
      using R r by (auto split: if_splits)
    then show ?thesis using I c(2) True by (auto simp: pipe_sleepers_def asleep_upd split: if_splits)
  next
    case False
    then obtain p where p: "pipe_ok p" "pipe_queue p = drop n ?Q" "pi_writeopen p = pi_writeopen (pipes s a)"
        "s' = (upd_pipe a (\<lambda>_. p) s)\<lparr>pt := wakeup1 (Some (ChanPipeWrite a)) (pt s)\<rparr>"
      using R r by auto
    then show ?thesis using I by (auto simp: pipe_sleepers_def asleep_wakeup1)
  qed
qed

lemma close_sleepers:
  fixes s :: "'a filest_scheme"
  assumes I: "pipe_sleepers g a s" and h: "held s = []" and cl: "pipeclose a w s = Ok s'"
  shows "pipe_sleepers g a (s'\<lparr>held := []\<rparr>)"
proof -
  let ?f = "if w then (\<lambda>p. p\<lparr>pi_writeopen := False\<rparr>) else (\<lambda>p. p\<lparr>pi_readopen := False\<rparr>)"
  let ?t = "wakeup1 (Some (if w then ChanPipeRead a else ChanPipeWrite a)) (pt s)"
  have e: "pipes s' = pipes (upd_pipe a ?f s) \<and> pt s' = ?t"
    using cl h by (auto simp: pipeclose_def acquire_def release_def wakeup_eq kfree_def kmem_acquire_def kmem_release_def Let_def
        upd_pipe_def split: if_splits)
  have "pipe_ok (?f p) = pipe_ok p" "pipe_queue (?f p) = pipe_queue p" for p by (simp_all add: pipe_ok_def pipe_queue_def)
  then show ?thesis using I e by (auto simp: pipe_sleepers_def asleep_wakeup1)
qed

lemma pipe_step_sleepers:
  assumes "pipe_step a x s s'" "pipe_sleepers g a s"
  shows "pipe_sleepers (g \<or> x) a s'"
  using assms
proof (cases rule: pipe_step.cases)
  case (wr q src r s1)
  show ?thesis unfolding wr(1,2)
    by (rule write_sleepers [OF assms(2) wr(3-5)]) (use wr(7) pipe_enter(1) [OF wr(3)] in simp)
next
  case (rd q n r s1)
  then show ?thesis using read_sleepers [OF assms(2) rd(3-5)] pipe_enter(2) [OF rd(3)] by simp
next
  case (wr_more q n rest r s1)
  let ?s = "s\<lparr>pt := upd_proc q (\<lambda>p. p\<lparr>p_chan := None\<rparr>) (pt s)\<rparr>"
  have "asleep c (pt ?s) x = asleep c (pt s) x" for c x
    using wr_more(5,6) by (auto simp: asleep_def procs_upd_proc)
  then have I: "pipe_sleepers g a ?s" using assms(2) by (simp add: pipe_sleepers_def)
  show ?thesis unfolding wr_more(1,2)
    by (rule write_sleepers [OF I, of q n rest r s1]) (use wr_more pipe_reenter(1) [OF wr_more(3,4)] in auto)
next
  case (rd_more q n r s1)
  let ?s = "s\<lparr>pt := upd_proc q (\<lambda>p. p\<lparr>p_chan := None\<rparr>) (pt s)\<rparr>"
  have "asleep c (pt ?s) x = asleep c (pt s) x" for c x
    using rd_more(5,6) by (auto simp: asleep_def procs_upd_proc)
  then have I: "pipe_sleepers g a ?s" using assms(2) by (simp add: pipe_sleepers_def)
  show ?thesis unfolding rd_more(1,2) simp_thms
    by (rule read_sleepers [OF I, of q n r s1]) (use rd_more pipe_reenter(2) [OF rd_more(3,4)] in auto)
next
  case (shut w s1)
  then show ?thesis using close_sleepers [OF assms(2)] by simp
next
  case other
  then show ?thesis using assms(2) by (auto simp: pipe_sleepers_def)
qed

lemma pipe_steps_sleepers:
  assumes "pipe_ok (pipes s a)" "\<And>q. \<not> asleep (ChanPipeWrite a) (pt s) q \<and> \<not> asleep (ChanPipeRead a) (pt s) q"
  shows "(\<lambda>x y. \<exists>b. pipe_step a b x y)\<^sup>*\<^sup>* s s' \<Longrightarrow> pipe_sleepers True a s'" "(pipe_step a False)\<^sup>*\<^sup>* s s' \<Longrightarrow> pipe_sleepers False a s'"
proof -
  have i: "pipe_sleepers g a s" for g using assms by (simp add: pipe_sleepers_def)
  show "pipe_sleepers True a s'" if "(\<lambda>x y. \<exists>b. pipe_step a b x y)\<^sup>*\<^sup>* s s'"
    using that i by (induction rule: rtranclp_induct) (auto dest: pipe_step_sleepers)
  show "pipe_sleepers False a s'" if "(pipe_step a False)\<^sup>*\<^sup>* s s'"
    using that i by (induction rule: rtranclp_induct) (auto dest: pipe_step_sleepers)
qed

text \<open>
  C25. Under every interleaving of writers, readers, closes and whatever else goes on, writers that give
  up with -1 included, a process sleeps in \<open>pipewrite\<close> only while the pipe is full and its read end open,
  in \<open>piperead\<close> only while the write end is open, and a reader and a writer of the same pipe are never
  asleep at the same time. If no writer has given up, a reader sleeps only while the pipe is empty. (A
  killed writer that fills the pipe before it gives up breaks this last one, see
  \<open>pipe_killed_writer_lost_wakeup\<close>: it does not wake the readers.)\<close>

theorem pipe_never_deadlocks:
  assumes "pipe_ok (pipes s a)" "\<And>q. \<not> asleep (ChanPipeWrite a) (pt s) q \<and> \<not> asleep (ChanPipeRead a) (pt s) q"
    and "(\<lambda>x y. \<exists>b. pipe_step a b x y)\<^sup>*\<^sup>* s s'"
  shows "(\<forall>q. asleep (ChanPipeWrite a) (pt s') q \<longrightarrow> length (pipe_queue (pipes s' a)) = PIPESIZE \<and> pi_readopen (pipes s' a))
    \<and> (\<forall>q. asleep (ChanPipeRead a) (pt s') q \<longrightarrow> pi_writeopen (pipes s' a))
    \<and> \<not> (\<exists>q r. asleep (ChanPipeWrite a) (pt s') q \<and> asleep (ChanPipeRead a) (pt s') r)
    \<and> ((pipe_step a False)\<^sup>*\<^sup>* s s' \<longrightarrow> (\<forall>q. asleep (ChanPipeRead a) (pt s') q \<longrightarrow> pipe_queue (pipes s' a) = []))"
  using pipe_steps_sleepers(1) [OF assms(1,2,3)] pipe_steps_sleepers(2) [OF assms(1,2), of s'] unfolding pipe_sleepers_def by blast

text \<open>
  A killed writer loses a wakeup. A process that is killed while it is in the kernel and writes
  more than fits to a pipe on which a reader sleeps fills the pipe and returns -1 without waking
  the reader: the reader sleeps although the pipe is full.\<close>

theorem pipe_killed_writer_lost_wakeup:
  fixes s :: "'a filest_scheme"
  assumes ok: "pipe_ok (pipes s a)" and h: "held s = []" and c: "curproc s = Some q" "q < length (pt_proc (pt s))"
    and k: "p_killed (procs (pt s) q)" and r: "asleep (ChanPipeRead a) (pt s) r"
    and n: "length src > PIPESIZE"
  shows "\<exists>s'. pipewrite a src s = Ok (Done (-1), s') \<and> asleep (ChanPipeRead a) (pt s') r
    \<and> length (pipe_queue (pipes s' a)) = PIPESIZE"
proof -
  have l: "length (pipe_queue (pipes s a)) \<le> PIPESIZE" by (rule ring.list_le [OF ok])
  show ?thesis using pipewrite_run [OF ok h c, of src "length src"] k r n l unfolding pipe_enter [OF h] by auto
qed

section \<open>Examples\<close>

text \<open>A pipe whose counters are about to wrap around, process 0 running (perhaps killed), process 1 perhaps asleep.\<close>

definition no_file :: file_t where
  "no_file = \<lparr>f_type = FD_NONE, f_ref = 0, f_readable = False, f_writable = False, f_pipe = 0, f_ip = 0, f_off = 0\<rparr>"

definition pipe_demo :: "bool \<Rightarrow> procstate \<Rightarrow> filest" where
  "pipe_demo k st = fsst.extend (fs_demo\<lparr>pt := upd_proc 0 (\<lambda>p. p\<lparr>p_state := RUNNING, p_killed := k\<rparr>)
       (upd_proc 1 (\<lambda>p. p\<lparr>p_state := st, p_chan := Some (ChanPipeRead 0)\<rparr>) zero_ptable)\<rparr>)
     (filest.fields (replicate 100 no_file)
       (\<lambda>_. \<lparr>pi_data = replicate 512 0, pi_nread = -1, pi_nwrite = -1, pi_readopen = True, pi_writeopen = True\<rparr>))"

lemma pipe_demo_simps:
  "held (pipe_demo k st) = []" "curproc (pipe_demo k st) = Some 0" "length (pt_proc (pt (pipe_demo k st))) = NPROC"
  "pipe_ok (pipes (pipe_demo k st) a)" "pipe_queue (pipes (pipe_demo k st) a) = []"
  "p_killed (procs (pt (pipe_demo k st)) 0) = k" "p_state (procs (pt (pipe_demo k st)) 0) = RUNNING"
  "p_state (procs (pt (pipe_demo k st)) 1) = st" "p_chan (procs (pt (pipe_demo k st)) 1) = Some (ChanPipeRead 0)"
  "pi_writeopen (pipes (pipe_demo k st) a)" "ftable (pipe_demo k st) = replicate 100 no_file"
proof -
  have l: "length (pt_proc zero_ptable) = NPROC" by (simp add: zero_ptable_def)
  show "held (pipe_demo k st) = []" "curproc (pipe_demo k st) = Some 0" "length (pt_proc (pt (pipe_demo k st))) = NPROC"
    "pipe_ok (pipes (pipe_demo k st) a)" "pipe_queue (pipes (pipe_demo k st) a) = []"
    "p_killed (procs (pt (pipe_demo k st)) 0) = k" "p_state (procs (pt (pipe_demo k st)) 0) = RUNNING"
    "p_state (procs (pt (pipe_demo k st)) 1) = st" "p_chan (procs (pt (pipe_demo k st)) 1) = Some (ChanPipeRead 0)"
    "pi_writeopen (pipes (pipe_demo k st) a)" "ftable (pipe_demo k st) = replicate 100 no_file"
    by (simp_all add: pipe_demo_def fs_demo_def fsst.defs filest.defs pipe_ok_def pipe_queue_def procs_upd_proc l)
qed

theorem pipe_fifo_witness:
  "\<exists>p s'. pipewrite 0 [1, 2, 3] (pipe_demo False UNUSED) = Ok (Done 3, s') \<and> pipes s' 0 = p \<and> pipe_queue p = [1, 2, 3]"
  using pipe_fifo [of "pipe_demo False UNUSED" 0 0 "[1, 2, 3]" 5] by (auto simp: pipe_demo_simps)

theorem pipe_never_deadlocks_witness:
  "\<exists>s'. (pipe_step 0 False)\<^sup>*\<^sup>* (pipe_demo False UNUSED) s' \<and> asleep (ChanPipeRead 0) (pt s') 0 \<and> pipe_queue (pipes s' 0) = []"
proof -
  let ?s = "pipe_demo False UNUSED"
  let ?s' = "?s\<lparr>held := [PtableLock], pt := upd_proc 0 (\<lambda>p. p\<lparr>p_chan := Some (ChanPipeRead 0), p_state := SLEEPING\<rparr>) (pt ?s)\<rparr>"
  have r: "piperead 0 5 ?s = Ok (Blocked (), ?s')"
    using piperead_run [of ?s 0 0 5] unfolding pipe_enter [OF pipe_demo_simps(1)]
    by (simp add: pipe_demo_simps)
  have one: "pipe_step 0 False ?s (?s'\<lparr>held := []\<rparr>)"
    by (rule pipe_step.rd [OF pipe_demo_simps(1,2) _ _ r]) (simp_all add: pipe_demo_simps)
  then have st: "(pipe_step 0 False)\<^sup>*\<^sup>* ?s (?s'\<lparr>held := []\<rparr>)" "(\<lambda>x y. \<exists>b. pipe_step 0 b x y)\<^sup>*\<^sup>* ?s (?s'\<lparr>held := []\<rparr>)"
    by (auto intro: r_into_rtranclp)
  have np: "procs (pt ?s) q = zero_proc" if "q < NPROC" "q \<noteq> 0" "q \<noteq> 1" for q
    using that by (simp add: pipe_demo_def fs_demo_def fsst.defs) (simp add: zero_ptable_def)
  have "\<not> asleep c (pt ?s) q" for c q
    using pipe_demo_simps(7,8) [of False UNUSED] np [of q] by (cases "q = 0"; cases "q = 1") (auto simp: asleep_def pipe_demo_simps(3) zero_proc_def)
  then have "\<forall>q. asleep (ChanPipeRead 0) (pt (?s'\<lparr>held := []\<rparr>)) q \<longrightarrow> pipe_queue (pipes (?s'\<lparr>held := []\<rparr>) 0) = []"
    using pipe_never_deadlocks [OF pipe_demo_simps(4) _ st(2)] st(1) by blast
  moreover have "asleep (ChanPipeRead 0) (pt (?s'\<lparr>held := []\<rparr>)) 0" by (simp add: asleep_upd pipe_demo_simps)
  ultimately show ?thesis using st(1) by blast
qed

theorem pipe_killed_writer_lost_wakeup_witness:
  "\<exists>s'. pipewrite 0 (replicate 513 7) (pipe_demo True SLEEPING) = Ok (Done (-1), s') \<and> asleep (ChanPipeRead 0) (pt s') 1
     \<and> length (pipe_queue (pipes s' 0)) = PIPESIZE"
  by (rule pipe_killed_writer_lost_wakeup [OF pipe_demo_simps(4,1,2)]) (simp_all add: pipe_demo_simps asleep_def pipe_demo_simps(8,9) [simplified])

end
