(* ===== verification/File.thy ===== *)
theory File
  imports Pipe
begin

text \<open>
  Open files, file.c, and the creation of a pipe, pipe.c. The table \<open>ftable\<close> holds the open files;
  \<open>f_ref\<close> counts the descriptors that name a file, and the last \<open>fileclose\<close> gives the pipe end or the
  inode back. Reading and writing a pipe may put the process to sleep, so these routines return a
  \<open>run\<close>; the transactions and sleep locks of an inode's file wait as in the rest of the file system.
\<close>

section \<open>Operations\<close>

abbreviation (input) NFILE :: nat where "NFILE \<equiv> 100"

abbreviation fobj :: "'a filest_scheme \<Rightarrow> nat \<Rightarrow> file_t" where
  "fobj s f \<equiv> ftable s ! f"

definition upd_file :: "nat \<Rightarrow> (file_t \<Rightarrow> file_t) \<Rightarrow> 'a filest_scheme \<Rightarrow> 'a filest_scheme" where
  "upd_file f g s = s\<lparr>ftable := (ftable s)[f := g (fobj s f)]\<rparr>"

definition fileinit :: "'a filest_scheme \<Rightarrow> 'a filest_scheme" where
  "fileinit s = s\<lparr>held := filter (\<lambda>l. l \<noteq> FtableLock) (held s)\<rparr>"

definition filealloc :: "'a filest_scheme \<Rightarrow> (nat option \<times> 'a filest_scheme) result" where
  "filealloc s = rbind (acquire FtableLock s) (\<lambda>s.
     case search (\<lambda>f. f_ref (fobj s f) = 0) 0 NFILE of
       Some f \<Rightarrow> rbind (release FtableLock (upd_file f (\<lambda>x. x\<lparr>f_ref := 1\<rparr>) s)) (\<lambda>s. Ok (Some f, s))
     | None \<Rightarrow> rbind (release FtableLock s) (\<lambda>s. Ok (None, s)))"

definition filedup :: "nat \<Rightarrow> 'a filest_scheme \<Rightarrow> (nat \<times> 'a filest_scheme) result" where
  "filedup f s = rbind (acquire FtableLock s) (\<lambda>s.
     if f_ref (fobj s f) < 1 then Err (Panic ''filedup'')
     else rbind (release FtableLock (upd_file f (\<lambda>x. x\<lparr>f_ref := f_ref x + 1\<rparr>) s)) (\<lambda>s. Ok (f, s)))"

definition fileclose :: "nat \<Rightarrow> 'a filest_scheme \<Rightarrow> 'a filest_scheme result" where
  "fileclose f s = rbind (acquire FtableLock s) (\<lambda>s.
     if f_ref (fobj s f) < 1 then Err (Panic ''fileclose'')
     else
       let s = upd_file f (\<lambda>x. x\<lparr>f_ref := f_ref x - 1\<rparr>) s in
       if f_ref (fobj s f) > 0 then release FtableLock s
       else
         let ff = fobj s f; s = upd_file f (\<lambda>x. x\<lparr>f_ref := 0, f_type := FD_NONE\<rparr>) s in
         rbind (release FtableLock s) (\<lambda>s.
         case f_type ff of
           FD_PIPE \<Rightarrow> pipeclose (f_pipe ff) (f_writable ff) s
         | FD_INODE \<Rightarrow> rbind (begin_op s) (\<lambda>s. rbind (iput (f_ip ff) s) end_op)
         | FD_NONE \<Rightarrow> Ok s))"

text \<open>The label \<open>bad\<close> of \<open>pipealloc\<close>: what has been allocated is given back.\<close>

definition pipealloc_bad :: "nat \<Rightarrow> nat option \<Rightarrow> nat option \<Rightarrow> 'a filest_scheme \<Rightarrow> (int \<times> (nat \<times> nat) option \<times> 'a filest_scheme) result" where
  "pipealloc_bad p f0 f1 s =
     rbind (if p \<noteq> 0 then kfree p s else Ok s) (\<lambda>s.
     rbind (case f0 of Some f \<Rightarrow> fileclose f s | None \<Rightarrow> Ok s) (\<lambda>s.
     rbind (case f1 of Some f \<Rightarrow> fileclose f s | None \<Rightarrow> Ok s) (\<lambda>s.
     Ok (-1, None, s))))"

definition pipealloc :: "'a filest_scheme \<Rightarrow> (int \<times> (nat \<times> nat) option \<times> 'a filest_scheme) result" where
  "pipealloc s =
     rbind (filealloc s) (\<lambda>(f0, s).
     case f0 of None \<Rightarrow> pipealloc_bad 0 None None s | Some f0 \<Rightarrow>
     rbind (filealloc s) (\<lambda>(f1, s).
     case f1 of None \<Rightarrow> pipealloc_bad 0 (Some f0) None s | Some f1 \<Rightarrow>
     rbind (kalloc s) (\<lambda>(p, s).
     if p = 0 then pipealloc_bad 0 (Some f0) (Some f1) s
     else
       let s = upd_pipe p (\<lambda>x. x\<lparr>pi_readopen := True, pi_writeopen := True, pi_nwrite := 0, pi_nread := 0\<rparr>) s;
           s = upd_file f0 (\<lambda>x. x\<lparr>f_type := FD_PIPE, f_readable := True, f_writable := False, f_pipe := p\<rparr>) s;
           s = upd_file f1 (\<lambda>x. x\<lparr>f_type := FD_PIPE, f_readable := False, f_writable := True, f_pipe := p\<rparr>) s
       in Ok (0, Some (f0, f1), s))))"

definition filestat :: "nat \<Rightarrow> 'a filest_scheme \<Rightarrow> (int \<times> stat option \<times> 'a filest_scheme) result" where
  "filestat f s =
     (if f_type (fobj s f) = FD_INODE then
        let ip = f_ip (fobj s f) in
        rbind (ilock ip s) (\<lambda>s.
        let st = stati ip s in
        rbind (iunlock ip s) (\<lambda>s. Ok (0, Some st, s)))
      else Ok (-1, None, s))"

definition fileread :: "nat \<Rightarrow> nat \<Rightarrow> 'a filest_scheme \<Rightarrow> ((int \<times> bytes, unit) run \<times> 'a filest_scheme) result" where
  "fileread f n s =
     (if \<not> f_readable (fobj s f) then Ok (Done (-1, []), s)
      else case f_type (fobj s f) of
        FD_PIPE \<Rightarrow> piperead (f_pipe (fobj s f)) n s
      | FD_INODE \<Rightarrow>
          (let ip = f_ip (fobj s f) in
          rbind (ilock ip s) (\<lambda>s.
          rbind (readi ip (f_off (fobj s f)) n s) (\<lambda>(r, d, s).
          let s = (if r > 0 then upd_file f (\<lambda>x. x\<lparr>f_off := u32 (f_off x + nat r)\<rparr>) s else s) in
          rbind (iunlock ip s) (\<lambda>s. Ok (Done (r, d), s)))))
      | FD_NONE \<Rightarrow> Err (Panic ''fileread''))"

definition filepread :: "nat \<Rightarrow> nat \<Rightarrow> nat \<Rightarrow> 'a filest_scheme \<Rightarrow> ((int \<times> bytes, unit) run \<times> 'a filest_scheme) result" where
  "filepread f n off s =
     (if \<not> f_readable (fobj s f) then Ok (Done (-1, []), s)
      else case f_type (fobj s f) of
        FD_PIPE \<Rightarrow> piperead (f_pipe (fobj s f)) n s
      | FD_INODE \<Rightarrow>
          (let ip = f_ip (fobj s f) in
          rbind (ilock ip s) (\<lambda>s.
          rbind (readi ip off n s) (\<lambda>(r, d, s).
          rbind (iunlock ip s) (\<lambda>s. Ok (Done (r, d), s)))))
      | FD_NONE \<Rightarrow> Err (Panic ''fileread''))"

text \<open>\<open>((MAXOPBLOCKS-1-1-2) / 2) * 512\<close>, the bytes written per transaction.\<close>

abbreviation (input) WMAX :: nat where "WMAX \<equiv> 1536"

text \<open>The loops return whether everything was written.\<close>

function filewrite_loop :: "nat \<Rightarrow> bytes \<Rightarrow> 'a filest_scheme \<Rightarrow> (bool \<times> 'a filest_scheme) result" where
  "filewrite_loop f src s =
     (if src = [] then Ok (True, s)
      else
        let ip = f_ip (fobj s f); n1 = min (length src) WMAX in
        rbind (begin_op s) (\<lambda>s.
        rbind (ilock ip s) (\<lambda>s.
        rbind (writei ip (take n1 src) (f_off (fobj s f)) s) (\<lambda>(r, s).
        let s = (if r > 0 then upd_file f (\<lambda>x. x\<lparr>f_off := u32 (f_off x + nat r)\<rparr>) s else s) in
        rbind (iunlock ip s) (\<lambda>s.
        rbind (end_op s) (\<lambda>s.
        if r < 0 then Ok (False, s)
        else if r \<noteq> int n1 then Err (Panic ''short filewrite'')
        else filewrite_loop f (drop n1 src) s))))))"
  by pat_completeness auto
termination by (relation "measure (\<lambda>(f, src, s). length src)") auto

function filepwrite_loop :: "nat \<Rightarrow> bytes \<Rightarrow> nat \<Rightarrow> 'a filest_scheme \<Rightarrow> (bool \<times> 'a filest_scheme) result" where
  "filepwrite_loop f src off s =
     (if src = [] then Ok (True, s)
      else
        let ip = f_ip (fobj s f); n1 = min (length src) WMAX in
        rbind (begin_op s) (\<lambda>s.
        rbind (ilock ip s) (\<lambda>s.
        rbind (pwritei ip (take n1 src) off s) (\<lambda>(r, s).
        rbind (iunlock ip s) (\<lambda>s.
        rbind (end_op s) (\<lambda>s.
        if r < 0 then Ok (False, s)
        else if r \<noteq> int n1 then Err (Panic ''short filewrite'')
        else filepwrite_loop f (drop n1 src) off s))))))"
  by pat_completeness auto
termination by (relation "measure (\<lambda>(f, src, off, s). length src)") auto

declare filewrite_loop.simps [simp del] filepwrite_loop.simps [simp del]

definition filewrite :: "nat \<Rightarrow> bytes \<Rightarrow> 'a filest_scheme \<Rightarrow> ((int, bytes) run \<times> 'a filest_scheme) result" where
  "filewrite f src s =
     (if \<not> f_writable (fobj s f) then Ok (Done (-1), s)
      else case f_type (fobj s f) of
        FD_PIPE \<Rightarrow> pipewrite (f_pipe (fobj s f)) src s
      | FD_INODE \<Rightarrow> rbind (filewrite_loop f src s) (\<lambda>(ok, s). Ok (Done (if ok then int (length src) else -1), s))
      | FD_NONE \<Rightarrow> Err (Panic ''filewrite''))"

definition filepwrite :: "nat \<Rightarrow> bytes \<Rightarrow> nat \<Rightarrow> 'a filest_scheme \<Rightarrow> ((int, bytes) run \<times> 'a filest_scheme) result" where
  "filepwrite f src off s =
     (if \<not> f_writable (fobj s f) then Ok (Done (-1), s)
      else case f_type (fobj s f) of
        FD_PIPE \<Rightarrow> pipewrite (f_pipe (fobj s f)) src s
      | FD_INODE \<Rightarrow>
          rbind (if off > i_size (ino s (f_ip (fobj s f))) then catchupoffset (f_ip (fobj s f)) off s else Ok s) (\<lambda>s.
          rbind (filepwrite_loop f src off s) (\<lambda>(ok, s). Ok (Done (if ok then int (length src) else -1), s)))
      | FD_NONE \<Rightarrow> Err (Panic ''filewrite''))"

section \<open>Reference counts\<close>

lemma upd_file_simps [simp]:
  "held (upd_file f g s) = held s" "pt (upd_file f g s) = pt s" "pipes (upd_file f g s) = pipes s"
  "length (ftable (upd_file f g s)) = length (ftable s)" "kmem_freelist (upd_file f g s) = kmem_freelist s"
  "f < length (ftable s) \<Longrightarrow> fobj (upd_file f g s) f = g (fobj s f)" "x \<noteq> f \<Longrightarrow> fobj (upd_file f g s) x = fobj s x"
  by (simp_all add: upd_file_def)

lemma upd_file_upd_file: "f < length (ftable s) \<Longrightarrow> upd_file f g (upd_file f h s) = upd_file f (\<lambda>x. g (h x)) s"
  by (simp add: upd_file_def)

lemma upd_file_id: "g (fobj s f) = fobj s f \<Longrightarrow> upd_file f g s = s"
  by (simp add: upd_file_def)

definition ftable_ok :: "'a filest_scheme \<Rightarrow> bool" where
  "ftable_ok s \<longleftrightarrow> length (ftable s) = NFILE \<and> (\<forall>f<NFILE. 0 \<le> f_ref (fobj s f) \<and> (f_ref (fobj s f) = 0 \<longrightarrow> f_type (fobj s f) = FD_NONE))"

lemma ftable_ok_upd:
  assumes "ftable_ok s" "f < NFILE" "1 \<le> f_ref (g (fobj s f))"
  shows "ftable_ok (upd_file f g s)"
  unfolding ftable_ok_def
proof (intro conjI allI impI)
  have l: "f < length (ftable s)" using assms by (simp add: ftable_ok_def)
  show "length (ftable (upd_file f g s)) = NFILE" using assms by (simp add: ftable_ok_def)
  fix x assume "x < NFILE"
  then show "0 \<le> f_ref (fobj (upd_file f g s) x)"
    using assms l by (cases "x = f") (auto simp: ftable_ok_def)
  show "f_type (fobj (upd_file f g s) x) = FD_NONE" if "f_ref (fobj (upd_file f g s) x) = 0"
    using \<open>x < NFILE\<close> assms l that by (cases "x = f") (auto simp: ftable_ok_def)
qed

lemma ftable_lock:
  assumes "held s = []"
  shows "acquire FtableLock s = Ok (s\<lparr>held := [FtableLock]\<rparr>)"
    "release FtableLock (upd_file f g (s\<lparr>held := [FtableLock]\<rparr>)) = Ok (upd_file f g s)"
    "release FtableLock (s\<lparr>held := [FtableLock]\<rparr>) = Ok s"
  using assms by (simp_all add: acquire_def release_def upd_file_def)

lemma filealloc_eq:
  assumes "held s = []"
  shows "filealloc s = (case search (\<lambda>f. f_ref (fobj s f) = 0) 0 NFILE of
      Some f \<Rightarrow> Ok (Some f, upd_file f (\<lambda>x. x\<lparr>f_ref := 1\<rparr>) s) | None \<Rightarrow> Ok (None, s))"
  unfolding filealloc_def ftable_lock(1) [OF assms] by (simp add: ftable_lock [OF assms] split: option.split)

lemma fileclose_eq:
  fixes s :: "'a filest_scheme"
  assumes h: "held s = []" and f: "f < length (ftable s)" "1 \<le> f_ref (fobj s f)"
  shows "fileclose f s = (if f_ref (fobj s f) > 1 then Ok (upd_file f (\<lambda>x. x\<lparr>f_ref := f_ref x - 1\<rparr>) s)
    else let s' = upd_file f (\<lambda>x. x\<lparr>f_ref := 0, f_type := FD_NONE\<rparr>) s in
      case f_type (fobj s f) of
        FD_PIPE \<Rightarrow> pipeclose (f_pipe (fobj s f)) (f_writable (fobj s f)) s'
      | FD_INODE \<Rightarrow> rbind (begin_op s') (\<lambda>s. rbind (iput (f_ip (fobj s' f)) s) end_op)
      | FD_NONE \<Rightarrow> Ok s')"
proof -
  let ?s = "s\<lparr>held := [FtableLock]\<rparr>"
  have l: "f < length (ftable ?s)" "fobj ?s f = fobj s f" using f by simp_all
  have u: "upd_file f (\<lambda>x. x\<lparr>f_ref := 0, f_type := FD_NONE\<rparr>) (upd_file f (\<lambda>x. x\<lparr>f_ref := f_ref x - 1\<rparr>) ?s)
      = upd_file f (\<lambda>x. x\<lparr>f_ref := 0, f_type := FD_NONE\<rparr>) ?s" using f by (simp add: upd_file_upd_file)
  show ?thesis using f unfolding fileclose_def ftable_lock(1) [OF h] rbind.simps Let_def u
    by (auto simp: l ftable_lock [OF h] split: filetype.split)
qed

lemma fileclose_unused:
  assumes "held s = []" "f < length (ftable s)" "f_ref (fobj s f) = 1" "f_type (fobj s f) = FD_NONE"
  shows "fileclose f s = Ok (upd_file f (\<lambda>x. x\<lparr>f_ref := 0\<rparr>) s)"
proof -
  have "(fobj s f)\<lparr>f_ref := 0, f_type := FD_NONE\<rparr> = (fobj s f)\<lparr>f_ref := 0\<rparr>" by (rule file_t.equality) (use assms(4) in simp_all)
  then have "upd_file f (\<lambda>x. x\<lparr>f_ref := 0, f_type := FD_NONE\<rparr>) s = upd_file f (\<lambda>x. x\<lparr>f_ref := 0\<rparr>) s"
    unfolding upd_file_def by (simp only:)
  then show ?thesis using fileclose_eq [OF assms(1,2)] assms(3,4) by (simp add: Let_def)
qed

section \<open>The file table is out of reach of the layers below\<close>

text \<open>
  What the file system does for the last \<open>fileclose\<close> of an inode, transaction included, works on the
  fields of \<open>fsst\<close>: the open files and the pipes stay as they are, whatever the file system is like.
\<close>

lemma lock_keeps:
  fixes s s' :: "'a fsst_scheme"
  shows "acquire l s = Ok s' \<Longrightarrow> fsst.more s' = fsst.more s" "release l s = Ok s' \<Longrightarrow> fsst.more s' = fsst.more s"
    "wakeup c s = Ok s' \<Longrightarrow> fsst.more s' = fsst.more s"
  by (auto simp: acquire_def release_def wakeup_def split: if_splits)

lemma sleeplock_keeps:
  fixes s s' :: "'a fsst_scheme"
  shows "acquiresleep c lk s = Ok (l, s') \<Longrightarrow> fsst.more s' = fsst.more s" "releasesleep c lk s = Ok (l, s') \<Longrightarrow> fsst.more s' = fsst.more s"
  by (auto simp: acquiresleep_def releasesleep_def dest!: lock_keeps split: if_splits option.splits)

lemma block_keeps:
  fixes s s' :: "'a fsst_scheme"
  shows "bread dev b s = Ok s' \<Longrightarrow> fsst.more s' = fsst.more s" "bwrite dev b s = Ok s' \<Longrightarrow> fsst.more s' = fsst.more s"
    "brelse dev b s = Ok s' \<Longrightarrow> fsst.more s' = fsst.more s" "log_write b s = Ok s' \<Longrightarrow> fsst.more s' = fsst.more s"
    "readsb dev s = Ok (z, s') \<Longrightarrow> fsst.more s' = fsst.more s"
proof -
  show B: "bread dev b s = Ok s' \<Longrightarrow> fsst.more s' = fsst.more s" for b s s' by (auto simp: bread_def split: if_splits)
  show "bwrite dev b s = Ok s' \<Longrightarrow> fsst.more s' = fsst.more s" by (auto simp: bwrite_def split: if_splits)
  show R: "brelse dev b s = Ok s' \<Longrightarrow> fsst.more s' = fsst.more s" for b s s'
    by (auto simp: brelse_def dest!: lock_keeps split: if_splits)
  show "log_write b s = Ok s' \<Longrightarrow> fsst.more s' = fsst.more s"
    by (auto simp: log_write_def Let_def dest!: lock_keeps split: if_splits)
  show "readsb dev s = Ok (z, s') \<Longrightarrow> fsst.more s' = fsst.more s"
    by (auto simp: readsb_def Let_def dest!: B R)
qed

lemma log_keeps:
  fixes s s' :: "'a fsst_scheme"
  shows "begin_op s = Ok s' \<Longrightarrow> fsst.more s' = fsst.more s" "end_op s = Ok s' \<Longrightarrow> fsst.more s' = fsst.more s"
proof -
  have i: "install_one t s = Ok s' \<Longrightarrow> fsst.more s' = fsst.more s" "write_log_one t s = Ok s' \<Longrightarrow> fsst.more s' = fsst.more s"
    "write_head s = Ok s' \<Longrightarrow> fsst.more s' = fsst.more s" for t and s s' :: "'a fsst_scheme"
    by (auto simp: install_one_def write_log_one_def write_head_def Let_def dest!: block_keeps)
  have w: "write_log s = Ok s' \<Longrightarrow> fsst.more s' = fsst.more s" "install_trans s = Ok s' \<Longrightarrow> fsst.more s' = fsst.more s" for s s' :: "'a fsst_scheme"
    unfolding write_log_def install_trans_def by (erule rfold_keeps [rotated], erule i)+
  have c: "commit s = Ok s' \<Longrightarrow> fsst.more s' = fsst.more s" for s s' :: "'a fsst_scheme"
    by (auto simp: commit_def split: if_splits dest!: i(3) w)
  show "begin_op s = Ok s' \<Longrightarrow> fsst.more s' = fsst.more s"
    by (auto simp: begin_op_def dest!: lock_keeps split: if_splits)
  show "end_op s = Ok s' \<Longrightarrow> fsst.more s' = fsst.more s"
    by (auto simp: end_op_def end_op_enter_def end_op_leave_def Let_def dest!: lock_keeps c split: if_splits)
qed

lemma upd_ino_more [simp]: "fsst.more (upd_ino ip f s) = fsst.more s"
  by (simp add: upd_ino_def)

lemma inode_keeps:
  fixes s s' :: "'a fsst_scheme"
  shows "iupdate ip s = Ok s' \<Longrightarrow> fsst.more s' = fsst.more s" "itrunc ip s = Ok s' \<Longrightarrow> fsst.more s' = fsst.more s"
    "iput ip s = Ok s' \<Longrightarrow> fsst.more s' = fsst.more s"
proof -
  have f: "bfree dev b s = Ok s' \<Longrightarrow> fsst.more s' = fsst.more s" for dev b and s s' :: "'a fsst_scheme"
    by (auto simp: bfree_def Let_def dest!: block_keeps split: if_splits)
  have t: "free_tree n dev b s = Ok s' \<Longrightarrow> fsst.more s' = fsst.more s" for n dev b and s s' :: "'a fsst_scheme"
  proof (induction n arbitrary: b s s')
    case (Suc n)
    have "rfold (\<lambda>j s. let a = get_cell (blk s dev b) j in if a \<noteq> 0 then rbind (free_tree n dev a s) (bfree dev a) else Ok s) xs u = Ok u'
        \<Longrightarrow> fsst.more u' = fsst.more u" for xs and u u' :: "'a fsst_scheme"
      by (erule rfold_keeps [rotated]) (auto simp: Let_def dest!: Suc.IH f split: if_splits)
    then show ?case using Suc.prems by (auto dest!: block_keeps)
  qed simp
  have a: "trunc_addr ip n k s = Ok s' \<Longrightarrow> fsst.more s' = fsst.more s" for n k and s s' :: "'a fsst_scheme"
    by (auto simp: trunc_addr_def Let_def dest!: t f split: if_splits)
  show u: "iupdate ip s = Ok s' \<Longrightarrow> fsst.more s' = fsst.more s" for s s' :: "'a fsst_scheme"
    by (auto simp: iupdate_def Let_def dest!: block_keeps)
  show i: "itrunc ip s = Ok s' \<Longrightarrow> fsst.more s' = fsst.more s" for s s' :: "'a fsst_scheme"
  proof -
    have r: "rfold (trunc_addr ip 0) xs s = Ok s' \<Longrightarrow> fsst.more s' = fsst.more s" for xs and s s' :: "'a fsst_scheme"
      by (erule rfold_keeps [rotated], erule a)
    show "itrunc ip s = Ok s' \<Longrightarrow> fsst.more s' = fsst.more s" by (auto simp: itrunc_def dest!: a u r)
  qed
  show "iput ip s = Ok s' \<Longrightarrow> fsst.more s' = fsst.more s"
    by (auto simp: iput_def Let_def dest!: sleeplock_keeps lock_keeps u i split: if_splits)
qed

lemma pipeclose_keeps:
  fixes s s' :: "'a filest_scheme"
  assumes "held s = []" "pipeclose a w s = Ok s'"
  shows "ftable s' = ftable s" "pipes s' = pipes (upd_pipe a (if w then (\<lambda>p. p\<lparr>pi_writeopen := False\<rparr>) else (\<lambda>p. p\<lparr>pi_readopen := False\<rparr>)) s)"
  using assms by (auto simp: pipeclose_def acquire_def release_def wakeup_eq kfree_def kmem_acquire_def kmem_release_def Let_def
      upd_pipe_def split: if_splits)

lemma more_files:
  fixes s s' :: "'a filest_scheme"
  shows "fsst.more s' = fsst.more s \<Longrightarrow> ftable s' = ftable s \<and> pipes s' = pipes s"
  by (cases s; cases s') simp

lemma fileclose_effect:
  fixes s s' :: "'a filest_scheme"
  assumes h: "held s = []" and f: "f < length (ftable s)" "1 \<le> f_ref (fobj s f)" and c: "fileclose f s = Ok s'"
  shows "ftable s' = (ftable s)[f := if f_ref (fobj s f) > 1 then (fobj s f)\<lparr>f_ref := f_ref (fobj s f) - 1\<rparr>
      else (fobj s f)\<lparr>f_ref := 0, f_type := FD_NONE\<rparr>]
    \<and> pipes s' = (if f_ref (fobj s f) = 1 \<and> f_type (fobj s f) = FD_PIPE then (pipes s)(f_pipe (fobj s f) :=
        if f_writable (fobj s f) then (pipes s (f_pipe (fobj s f)))\<lparr>pi_writeopen := False\<rparr> else (pipes s (f_pipe (fobj s f)))\<lparr>pi_readopen := False\<rparr>)
      else pipes s)"
proof (cases "f_ref (fobj s f) > 1")
  case True
  then show ?thesis using c fileclose_eq [OF h f] by (auto simp: upd_file_def)
next
  case False
  let ?s = "upd_file f (\<lambda>x. x\<lparr>f_ref := 0, f_type := FD_NONE\<rparr>) s"
  have t: "ftable ?s = (ftable s)[f := (fobj s f)\<lparr>f_ref := 0, f_type := FD_NONE\<rparr>]" "pipes ?s = pipes s" "held ?s = []"
    using h by (simp_all add: upd_file_def)
  note E = fileclose_eq [OF h f] c False
  show ?thesis
  proof (cases "f_type (fobj s f)")
    case FD_NONE
    then show ?thesis using E t by (simp add: Let_def)
  next
    case FD_PIPE
    then have "pipeclose (f_pipe (fobj s f)) (f_writable (fobj s f)) ?s = Ok s'" using E by (simp add: Let_def)
    from pipeclose_keeps [OF t(3) this] show ?thesis using t(1,2) f(2) False FD_PIPE by (auto simp: upd_pipe_def)
  next
    case FD_INODE
    then have "rbind (begin_op ?s) (\<lambda>s. rbind (iput (f_ip (fobj ?s f)) s) end_op) = Ok s'" using E by (simp add: Let_def)
    then have "fsst.more s' = fsst.more ?s" by (auto dest!: log_keeps inode_keeps)
    then show ?thesis using more_files [of s' ?s] t(1,2) False FD_INODE by simp
  qed
qed

section \<open>References and descriptors\<close>

text \<open>
  The life of the table: \<open>hs\<close> lists the references that processes hold, one entry for every descriptor
  or kernel variable. Files are allocated, duplicated and closed in any order by whoever holds a
  reference; between these calls a holder may fill in or change a file (\<open>open\<close>, \<open>pipe\<close>, \<open>read\<close>, \<open>write\<close>), and
  everything else may change outside the table.
\<close>

inductive file_step :: "'a filest_scheme \<times> nat list \<Rightarrow> 'a filest_scheme \<times> nat list \<Rightarrow> bool" where
  f_alloc: "held s = [] \<Longrightarrow> filealloc s = Ok (Some f, s') \<Longrightarrow> file_step (s, hs) (s', f # hs)"
| f_full: "held s = [] \<Longrightarrow> filealloc s = Ok (None, s') \<Longrightarrow> file_step (s, hs) (s', hs)"
| f_dup: "held s = [] \<Longrightarrow> f \<in> set hs \<Longrightarrow> filedup f s = Ok (g, s') \<Longrightarrow> file_step (s, hs) (s', g # hs)"
| f_close: "held s = [] \<Longrightarrow> f \<in> set hs \<Longrightarrow> fileclose f s = Ok s' \<Longrightarrow> file_step (s, hs) (s', remove1 f hs)"
| f_use: "length (ftable s') = length (ftable s) \<Longrightarrow> (\<And>f. f < NFILE \<Longrightarrow> f_ref (fobj s' f) = f_ref (fobj s f)) \<Longrightarrow>
    (\<And>f. f < NFILE \<Longrightarrow> f \<notin> set hs \<Longrightarrow> fobj s' f = fobj s f) \<Longrightarrow> file_step (s, hs) (s', hs)"

inductive_cases file_stepE: "file_step (s, hs) (s', hs')"

definition refs_ok :: "'a filest_scheme \<times> nat list \<Rightarrow> bool" where
  "refs_ok = (\<lambda>(s, hs). ftable_ok s \<and> set hs \<subseteq> {..<NFILE} \<and> (\<forall>f<NFILE. f_ref (fobj s f) = int (count_list hs f)))"

lemma refs_okD:
  assumes "refs_ok (s, hs)"
  shows "ftable_ok s" "length (ftable s) = NFILE" "set hs \<subseteq> {..<NFILE}" "f < NFILE \<Longrightarrow> f_ref (fobj s f) = int (count_list hs f)"
  using assms by (auto simp: refs_ok_def ftable_ok_def)

lemma refs_okI:
  assumes "length (ftable s) = NFILE" "set hs \<subseteq> {..<NFILE}" "\<And>f. f < NFILE \<Longrightarrow> f_ref (fobj s f) = int (count_list hs f)"
    "\<And>f. f < NFILE \<Longrightarrow> f \<notin> set hs \<Longrightarrow> f_type (fobj s f) = FD_NONE"
  shows "refs_ok (s, hs)"
  using assms by (auto simp: refs_ok_def ftable_ok_def count_list_0_iff)

lemma unreferenced: "refs_ok (s, hs) \<Longrightarrow> f < NFILE \<Longrightarrow> f \<notin> set hs \<Longrightarrow> f_type (fobj s f) = FD_NONE \<and> f_ref (fobj s f) = 0"
  using refs_okD [of s hs] by (auto simp: ftable_ok_def count_list_0_iff)

lemma count_list_remove1: "x \<in> set xs \<Longrightarrow> count_list (remove1 x xs) y = (if y = x then count_list xs y - 1 else count_list xs y)"
  by (induction xs) (auto simp: count_list_0_iff)

lemma filedup_eq:
  assumes "held s = []"
  shows "filedup f s = (if f_ref (fobj s f) < 1 then Err (Panic ''filedup'') else Ok (f, upd_file f (\<lambda>x. x\<lparr>f_ref := f_ref x + 1\<rparr>) s))"
  unfolding filedup_def ftable_lock(1) [OF assms] by (simp add: ftable_lock [OF assms])

lemma ref_held: "f \<in> set hs \<Longrightarrow> refs_ok (s, hs) \<Longrightarrow> f < length (ftable s) \<and> f < NFILE \<and> 1 \<le> f_ref (fobj s f)"
  using refs_okD [of s hs] count_list_0_iff [of hs f] by (cases "count_list hs f") auto

lemma file_step_refs:
  fixes s s' :: "'a filest_scheme"
  assumes "file_step (s, hs) (s', hs')" and inv: "refs_ok (s, hs)"
  shows "refs_ok (s', hs')"
  using assms(1)
proof (rule file_stepE)
  note R = refs_okD [OF inv]
  fix f assume a: "hs' = f # hs" "held s = []" "filealloc s = Ok (Some f, s')"
  have s': "s' = upd_file f (\<lambda>x. x\<lparr>f_ref := 1\<rparr>) s" and f: "f < NFILE" "f_ref (fobj s f) = 0"
    using a(3) filealloc_eq [OF a(2)] by (auto simp: search_Some split: option.splits)
  have n: "count_list hs f = 0" using R(4) [OF f(1)] f(2) by simp
  show ?thesis unfolding s' a(1) by (rule refs_okI) (use R f n unreferenced [OF inv] in \<open>auto simp: upd_file_def nth_list_update\<close>)
next
  assume a: "hs' = hs" "held s = []" "filealloc s = Ok (None, s')"
  have "s' = s" using a(3) filealloc_eq [OF a(2)] by (auto split: option.splits)
  then show ?thesis using inv a(1) by simp
next
  note R = refs_okD [OF inv]
  fix f g assume a: "hs' = g # hs" "held s = []" "f \<in> set hs" "filedup f s = Ok (g, s')"
  have s': "s' = upd_file f (\<lambda>x. x\<lparr>f_ref := f_ref x + 1\<rparr>) s" "g = f" using a(4) filedup_eq [OF a(2)] by (auto split: if_splits)
  show ?thesis unfolding s' a(1)
    by (rule refs_okI) (use R a(3) unreferenced [OF inv] in \<open>auto simp: upd_file_def nth_list_update\<close>)
next
  note R = refs_okD [OF inv]
  fix f assume a: "hs' = remove1 f hs" "held s = []" "f \<in> set hs" "fileclose f s = Ok s'"
  note f = ref_held [OF a(3) inv]
  have t: "ftable s' = (ftable s)[f := if f_ref (fobj s f) > 1 then (fobj s f)\<lparr>f_ref := f_ref (fobj s f) - 1\<rparr>
      else (fobj s f)\<lparr>f_ref := 0, f_type := FD_NONE\<rparr>]"
    using fileclose_effect [OF a(2) _ _ a(4)] f by blast
  have n: "f \<in> set (remove1 f hs)" if "f_ref (fobj s f) > 1"
    using that R(4) [of f] f count_list_remove1 [OF a(3), of f] count_list_0_iff [of "remove1 f hs" f] by auto
  show ?thesis unfolding a(1)
  proof (rule refs_okI)
    show "length (ftable s') = NFILE" "set (remove1 f hs) \<subseteq> {..<NFILE}" using t R(2,3) set_remove1_subset [of f hs] by auto
    fix x assume x: "x < NFILE"
    show "f_ref (fobj s' x) = int (count_list (remove1 f hs) x)"
      using x t f R(2) R(4) [of x] count_list_remove1 [OF a(3), of x] by (auto simp: nth_list_update of_nat_diff)
    show "f_type (fobj s' x) = FD_NONE" if "x \<notin> set (remove1 f hs)"
      using x t f R(2) that n unreferenced [OF inv x] by (cases "x = f") (auto simp: nth_list_update in_set_remove1)
  qed
next
  note R = refs_okD [OF inv]
  assume a: "hs' = hs" "length (ftable s') = length (ftable s)" "\<And>f. f < NFILE \<Longrightarrow> f_ref (fobj s' f) = f_ref (fobj s f)"
    "\<And>f. f < NFILE \<Longrightarrow> f \<notin> set hs \<Longrightarrow> fobj s' f = fobj s f"
  show ?thesis unfolding a(1) by (rule refs_okI) (use R a(2-4) unreferenced [OF inv] in auto)
qed

text \<open>
  C26. Reference counts of open files. Starting from a table nobody refers to, in every sequence of
  \<open>filealloc\<close>, \<open>filedup\<close>, \<open>fileclose\<close> and uses of files, the count of a file is the number of references
  to it that are held. So \<open>filealloc\<close> returns the first file nobody holds, and null exactly when all are
  held; \<open>filedup\<close> of a held file succeeds, and both \<open>filedup\<close> and \<open>fileclose\<close> of any other panic. When \<open>fileclose\<close>
  returns, also after the whole transaction that drops an inode, no other file has changed, and this
  one is free exactly if that was its last reference; an end of a pipe is closed by the last reference to
  its file and no sooner.\<close>

theorem file_refcounts:
  fixes s0 s :: "'a filest_scheme"
  assumes init: "length (ftable s0) = NFILE" "\<forall>f<NFILE. f_ref (fobj s0 f) = 0 \<and> f_type (fobj s0 f) = FD_NONE"
    and reach: "file_step\<^sup>*\<^sup>* (s0, []) (s, hs)" and h: "held s = []" and f: "f < NFILE"
  shows "f_ref (fobj s f) = int (count_list hs f)
    \<and> (case search (\<lambda>f. f \<notin> set hs) 0 NFILE of None \<Rightarrow> filealloc s = Ok (None, s)
       | Some g \<Rightarrow> filealloc s = Ok (Some g, upd_file g (\<lambda>x. x\<lparr>f_ref := 1\<rparr>) s))
    \<and> (if f \<in> set hs then \<exists>s'. filedup f s = Ok (f, s') \<and> f_ref (fobj s' f) = int (count_list hs f) + 1 \<and> (\<forall>g. g \<noteq> f \<longrightarrow> fobj s' g = fobj s g)
       else filedup f s = Err (Panic ''filedup'') \<and> fileclose f s = Err (Panic ''fileclose''))
    \<and> (\<forall>s'. fileclose f s = Ok s' \<longrightarrow> (\<forall>g. g \<noteq> f \<longrightarrow> fobj s' g = fobj s g)
        \<and> fobj s' f = (if 1 < count_list hs f then (fobj s f)\<lparr>f_ref := int (count_list hs f) - 1\<rparr> else (fobj s f)\<lparr>f_ref := 0, f_type := FD_NONE\<rparr>)
        \<and> pipes s' = (if count_list hs f = 1 \<and> f_type (fobj s f) = FD_PIPE then (pipes s)(f_pipe (fobj s f) :=
            if f_writable (fobj s f) then (pipes s (f_pipe (fobj s f)))\<lparr>pi_writeopen := False\<rparr> else (pipes s (f_pipe (fobj s f)))\<lparr>pi_readopen := False\<rparr>)
          else pipes s))
    \<and> (1 < count_list hs f \<longrightarrow> (\<exists>s'. fileclose f s = Ok s'))"
proof -
  have "refs_ok (s0, [])" using init by (simp add: refs_ok_def ftable_ok_def)
  with reach have inv: "refs_ok (s, hs)"
    by (induction rule: rtranclp_induct2) (use file_step_refs in blast)+
  note R = refs_okD [OF inv]
  have n: "f_ref (fobj s g) = 0 \<longleftrightarrow> g \<notin> set hs" if "g < NFILE" for g
    using R(4) [OF that] count_list_0_iff [of hs g] by simp
  have l: "f < length (ftable s)" using R(2) f by simp
  have "search (\<lambda>f. f_ref (fobj s f) = 0) 0 NFILE = search (\<lambda>f. f \<notin> set hs) 0 NFILE"
    using n by (intro search_cong) auto
  then have A: "case search (\<lambda>f. f \<notin> set hs) 0 NFILE of None \<Rightarrow> filealloc s = Ok (None, s)
       | Some g \<Rightarrow> filealloc s = Ok (Some g, upd_file g (\<lambda>x. x\<lparr>f_ref := 1\<rparr>) s)"
    using filealloc_eq [OF h] by (simp split: option.split)
  have B: "if f \<in> set hs then \<exists>s'. filedup f s = Ok (f, s') \<and> f_ref (fobj s' f) = int (count_list hs f) + 1 \<and> (\<forall>g. g \<noteq> f \<longrightarrow> fobj s' g = fobj s g)
       else filedup f s = Err (Panic ''filedup'') \<and> fileclose f s = Err (Panic ''fileclose'')"
  proof (cases "f \<in> set hs")
    case True
    then show ?thesis using filedup_eq [OF h, of f] ref_held [OF True inv] R(4) [OF f] by (auto simp: upd_file_def)
  next
    case False
    then have "f_ref (fobj s f) < 1" using n [OF f] by simp
    then show ?thesis using False filedup_eq [OF h, of f] unfolding fileclose_def ftable_lock(1) [OF h] by simp
  qed
  have D: "\<exists>s'. fileclose f s = Ok s'" if "1 < count_list hs f"
    using fileclose_eq [OF h l] R(4) [OF f] that by auto
  have "f \<in> set hs" if "fileclose f s = Ok s'" for s' using that B by (auto split: if_splits)
  then have C: "(\<forall>g. g \<noteq> f \<longrightarrow> fobj s' g = fobj s g)
        \<and> fobj s' f = (if 1 < count_list hs f then (fobj s f)\<lparr>f_ref := int (count_list hs f) - 1\<rparr> else (fobj s f)\<lparr>f_ref := 0, f_type := FD_NONE\<rparr>)
        \<and> pipes s' = (if count_list hs f = 1 \<and> f_type (fobj s f) = FD_PIPE then (pipes s)(f_pipe (fobj s f) :=
            if f_writable (fobj s f) then (pipes s (f_pipe (fobj s f)))\<lparr>pi_writeopen := False\<rparr> else (pipes s (f_pipe (fobj s f)))\<lparr>pi_readopen := False\<rparr>)
          else pipes s)" if c: "fileclose f s = Ok s'" for s'
    using fileclose_effect [OF h l _ c] ref_held [OF _ inv, of f] c R(4) [OF f] l by (auto simp: nth_list_update)
  show ?thesis using R(4) [OF f] A B C D by blast
qed

section \<open>Creating a pipe\<close>

definition free_files :: "'a filest_scheme \<Rightarrow> nat set" where
  "free_files s = {f. f < NFILE \<and> f_ref (fobj s f) = 0}"

lemma filealloc_some:
  assumes h: "held s = []" and f: "free_files s \<noteq> {}"
  obtains f where "f \<in> free_files s" "filealloc s = Ok (Some f, upd_file f (\<lambda>x. x\<lparr>f_ref := 1\<rparr>) s)"
proof -
  obtain f where "search (\<lambda>f. f_ref (fobj s f) = 0) 0 NFILE = Some f"
    using f search_exists [of 0 _ NFILE "\<lambda>f. f_ref (fobj s f) = 0"] by (auto simp: free_files_def)
  then have "f \<in> free_files s" "filealloc s = Ok (Some f, upd_file f (\<lambda>x. x\<lparr>f_ref := 1\<rparr>) s)"
    using filealloc_eq [OF h] search_SomeD [of "\<lambda>f. f_ref (fobj s f) = 0" 0 NFILE f] by (simp_all add: free_files_def)
  then show ?thesis by (rule that)
qed

lemma filealloc_none: "held s = [] \<Longrightarrow> free_files s = {} \<Longrightarrow> filealloc s = Ok (None, s)"
  using search_None [of "\<lambda>f. f_ref (fobj s f) = 0" 0 NFILE] by (simp add: filealloc_eq free_files_def)

lemma free_files_alloc:
  "ftable_ok s \<Longrightarrow> f \<in> free_files s \<Longrightarrow> free_files (upd_file f (\<lambda>x. x\<lparr>f_ref := 1\<rparr>) s) = free_files s - {f}"
  by (auto simp: free_files_def ftable_ok_def upd_file_def nth_list_update split: if_splits)

text \<open>A file that was taken and is closed again leaves no trace.\<close>

lemma alloc_close:
  assumes "ftable_ok s" "f \<in> free_files s" "held s = []"
  shows "fileclose f (upd_file f (\<lambda>x. x\<lparr>f_ref := 1\<rparr>) s) = Ok s"
proof -
  have f: "f < length (ftable s)" "f_ref (fobj s f) = 0" "f_type (fobj s f) = FD_NONE"
    using assms by (auto simp: ftable_ok_def free_files_def)
  have "(fobj s f)\<lparr>f_ref := 0\<rparr> = fobj s f" by (rule file_t.equality) (use f(2) in simp_all)
  then show ?thesis using f assms(3) by (simp add: fileclose_unused upd_file_upd_file upd_file_id)
qed

lemma upd_file_commute: "f \<noteq> g \<Longrightarrow> upd_file f u (upd_file g v s) = upd_file g v (upd_file f u s)"
  by (simp add: upd_file_def list_update_swap)

lemma ftable_ok_alloc: "ftable_ok s \<Longrightarrow> f \<in> free_files s \<Longrightarrow> ftable_ok (upd_file f (\<lambda>x. x\<lparr>f_ref := 1\<rparr>) s)"
  by (rule ftable_ok_upd) (simp_all add: free_files_def)

lemma alloc_close_two:
  assumes "ftable_ok s" "f \<in> free_files s" "g \<in> free_files s" "f \<noteq> g" "held s = []"
  defines "s2 \<equiv> upd_file g (\<lambda>x. x\<lparr>f_ref := 1\<rparr>) (upd_file f (\<lambda>x. x\<lparr>f_ref := 1\<rparr>) s)"
  shows "rbind (fileclose f s2) (fileclose g) = Ok s"
proof -
  let ?u = "\<lambda>f. upd_file f (\<lambda>x. x\<lparr>f_ref := 1\<rparr>)"
  have e: "s2 = ?u f (?u g s)" unfolding s2_def by (rule upd_file_commute) (use assms(4) in simp)
  have "f \<in> free_files (?u g s)" using assms free_files_alloc [of s g] by simp
  then have "fileclose f s2 = Ok (?u g s)" unfolding e using assms by (intro alloc_close ftable_ok_alloc) auto
  then show ?thesis using alloc_close [OF assms(1,3,5)] by simp
qed

text \<open>
  \<open>pipealloc\<close> creates a pipe or leaves no trace. With two unused files and a free page it returns
  0 and two different files, one that can only read and one that can only write, each with one
  reference, both of the same fresh page, whose queue is empty and both ends open; every other
  file stays as it was. With fewer than two unused files or without a free page it returns -1 and
  the state is the same as before.\<close>

theorem pipealloc_correct:
  fixes s :: "'a filest_scheme"
  assumes h: "held s = []" and ok: "ftable_ok s"
    and pg: "kmem_freelist s \<noteq> 0 \<Longrightarrow> length (pi_data (pipes s (kmem_freelist s))) = PIPESIZE"
  shows "if 2 \<le> card (free_files s) \<and> kmem_freelist s \<noteq> 0 then
      \<exists>f0 f1 s'. pipealloc s = Ok (0, Some (f0, f1), s') \<and> f0 \<in> free_files s \<and> f1 \<in> free_files s \<and> f0 \<noteq> f1
        \<and> fobj s' f0 = (fobj s f0)\<lparr>f_ref := 1, f_type := FD_PIPE, f_readable := True, f_writable := False, f_pipe := kmem_freelist s\<rparr>
        \<and> fobj s' f1 = (fobj s f1)\<lparr>f_ref := 1, f_type := FD_PIPE, f_readable := False, f_writable := True, f_pipe := kmem_freelist s\<rparr>
        \<and> (\<forall>f. f \<noteq> f0 \<longrightarrow> f \<noteq> f1 \<longrightarrow> fobj s' f = fobj s f) \<and> ftable_ok s'
        \<and> pipe_ok (pipes s' (kmem_freelist s)) \<and> pipe_queue (pipes s' (kmem_freelist s)) = []
        \<and> pi_readopen (pipes s' (kmem_freelist s)) \<and> pi_writeopen (pipes s' (kmem_freelist s))
    else pipealloc s = Ok (-1, None, s)"
proof -
  let ?u = "\<lambda>f. upd_file f (\<lambda>x. x\<lparr>f_ref := 1\<rparr>)" and ?p = "kmem_freelist s"
  have fin: "finite (free_files s)" by (simp add: free_files_def)
  show ?thesis
  proof (cases "free_files s = {}")
    case True
    then show ?thesis using filealloc_none [OF h] by (simp add: pipealloc_def pipealloc_bad_def)
  next
    case False
    obtain f0 where f0: "f0 \<in> free_files s" "filealloc s = Ok (Some f0, ?u f0 s)" by (rule filealloc_some [OF h False])
    note F = free_files_alloc [OF ok f0(1)]
    show ?thesis
    proof (cases "free_files s - {f0} = {}")
      case True
      then have "card (free_files s) \<le> 1" using card_mono [of "{f0}" "free_files s"] by auto
      then show ?thesis using f0 filealloc_none [of "?u f0 s"] F True h alloc_close [OF ok f0(1) h]
        by (simp add: pipealloc_def pipealloc_bad_def)
    next
      case two: False
      obtain f1 where f1: "f1 \<in> free_files s - {f0}" "filealloc (?u f0 s) = Ok (Some f1, ?u f1 (?u f0 s))"
        by (rule filealloc_some [of "?u f0 s"]) (use two F h in auto)
      let ?s = "?u f1 (?u f0 s)"
      have c2: "2 \<le> card (free_files s)" using card_mono [OF fin, of "{f0, f1}"] f0(1) f1(1) by auto
      have ka: "kalloc ?s = Ok (?p, if ?p \<noteq> 0 then ?s\<lparr>kmem_freelist := get_u32 (pages ?s ?p) 0\<rparr> else ?s)"
        using kalloc_eq [of ?s] h by simp
      show ?thesis
      proof (cases "?p = 0")
        case True
        then show ?thesis using f0 f1 ka alloc_close_two [OF ok f0(1) _ _ h, of f1]
          by (simp add: pipealloc_def pipealloc_bad_def rbind_assoc [symmetric] del: rbind_assoc) 
      next
        case False
        let ?s1 = "upd_pipe ?p (\<lambda>x. x\<lparr>pi_readopen := True, pi_writeopen := True, pi_nwrite := 0, pi_nread := 0\<rparr>)
            (?s\<lparr>kmem_freelist := get_u32 (pages ?s ?p) 0\<rparr>)"
        let ?g0 = "\<lambda>x. x\<lparr>f_type := FD_PIPE, f_readable := True, f_writable := False, f_pipe := ?p\<rparr>"
        let ?g1 = "\<lambda>x. x\<lparr>f_type := FD_PIPE, f_readable := False, f_writable := True, f_pipe := ?p\<rparr>"
        let ?s2 = "upd_file f1 ?g1 (upd_file f0 ?g0 ?s1)"
        have e: "pipealloc s = Ok (0, Some (f0, f1), ?s2)"
          using f0 f1 ka False by (simp add: pipealloc_def Let_def)
        have l: "f0 < NFILE" "f1 < NFILE" "length (ftable s) = NFILE" "f0 \<noteq> f1" using f0(1) f1(1) ok by (auto simp: free_files_def ftable_ok_def)
        have ft: "ftable ?s1 = ftable ?s" "pipes ?s1 = (pipes s)(?p := (pipes s ?p)\<lparr>pi_readopen := True, pi_writeopen := True, pi_nwrite := 0, pi_nread := 0\<rparr>)"
          by (simp_all add: upd_pipe_def)
        have fo: "fobj ?s1 f = fobj ?s f" for f by (simp only: ft)
        have ok1: "ftable_ok ?s1" using ftable_ok_alloc [OF ftable_ok_alloc [OF ok f0(1)], of f1] F f1(1) unfolding ftable_ok_def ft by simp
        have "ftable_ok ?s2"
          by (intro ftable_ok_upd ok1) (use l fo in \<open>simp_all add: ft\<close>)
        moreover have "fobj ?s2 f = (if f = f0 then ?g0 ((fobj s f0)\<lparr>f_ref := 1\<rparr>) else if f = f1 then ?g1 ((fobj s f1)\<lparr>f_ref := 1\<rparr>) else fobj s f)" for f
          using l by (simp add: fo ft)
        moreover have "pipe_ok (pipes ?s2 ?p)" "pipe_queue (pipes ?s2 ?p) = []"
          using pg [OF False] by (simp_all add: ft pipe_ok_def pipe_queue_def)
        ultimately show ?thesis using e c2 False f0(1) f1(1) l(4)
          by (intro if_P [THEN iffD2] exI [of _ f0] exI [of _ f1] exI [of _ ?s2]) (simp_all add: ft)
      qed
    qed
  qed
qed

lemma file_demo:
  "ftable_ok (pipe_demo False UNUSED)" "free_files (pipe_demo False UNUSED) = {..<NFILE}" "length (pi_data (pipes (pipe_demo k st) a)) = PIPESIZE"
  using pipe_demo_simps(4) [of k st a] by (auto simp: ftable_ok_def free_files_def pipe_demo_simps(11) no_file_def pipe_ok_def)

theorem file_refcounts_witness:
  "\<exists>s s'. filealloc (pipe_demo False UNUSED) = Ok (Some 0, s) \<and> filedup 0 s = Ok (0, s') \<and> f_ref (fobj s' 0) = 2
     \<and> filedup 1 s = Err (Panic ''filedup'')"
proof -
  let ?d = "pipe_demo False UNUSED"
  have t: "length (ftable ?d) = NFILE" "\<forall>f<NFILE. f_ref (fobj ?d f) = 0 \<and> f_type (fobj ?d f) = FD_NONE"
    by (simp_all add: pipe_demo_simps(11) no_file_def)
  have "search (\<lambda>f. f_ref (fobj ?d f) = 0) 0 NFILE = Some 0" using t(2) by (simp add: search_Some)
  then have a: "filealloc ?d = Ok (Some 0, upd_file 0 (\<lambda>x. x\<lparr>f_ref := 1\<rparr>) ?d)" (is "_ = Ok (_, ?s)")
    using filealloc_eq [of ?d] by (simp add: pipe_demo_simps)
  have r: "file_step\<^sup>*\<^sup>* (?d, []) (?s, [0])" using file_step.f_alloc [OF _ a] by (auto simp: pipe_demo_simps)
  have h: "held ?s = []" by (simp add: pipe_demo_simps)
  have "\<exists>s'. filedup 0 ?s = Ok (0, s') \<and> f_ref (fobj s' 0) = 2" using file_refcounts [OF t r h, of 0] by auto
  moreover have "filedup 1 ?s = Err (Panic ''filedup'')" using file_refcounts [OF t r h, of 1] by auto
  ultimately show ?thesis using a by blast
qed

theorem pipealloc_correct_witness:
  "\<exists>f0 f1 s'. pipealloc ((pipe_demo False UNUSED)\<lparr>kmem_freelist := 0x80400000\<rparr>) = Ok (0, Some (f0, f1), s') \<and> f0 \<noteq> f1
     \<and> pipe_queue (pipes s' 0x80400000) = []"
proof -
  let ?s = "(pipe_demo False UNUSED)\<lparr>kmem_freelist := 0x80400000\<rparr>"
  have ff: "free_files ?s = free_files (pipe_demo False UNUSED)" "ftable_ok ?s = ftable_ok (pipe_demo False UNUSED)"
    by (simp_all add: free_files_def ftable_ok_def)
  have "2 \<le> card (free_files ?s) \<and> kmem_freelist ?s \<noteq> 0" unfolding ff file_demo by simp
  then show ?thesis using pipealloc_correct [of ?s] ff file_demo by (auto simp: pipe_demo_simps(1))
qed

end
