(* ===== verification/Cstring.thy ===== *)
theory Cstring
  imports Prelude
begin

text \<open>
  string.c of the kernel and the string routines of ulib.c. The block routines (\<open>memset\<close>,
  \<open>memmove\<close>, \<open>memcpy\<close>) run on a memory of bytes, because their behaviour depends on how source
  and destination overlap; the string routines run on arrays, where a read or a write past the end
  is a fault.
\<close>

type_synonym mem = "nat \<Rightarrow> uchar"

section \<open>Blocks of memory\<close>

text \<open>\<open>stosb\<close> and \<open>stosl\<close> of x86.h: \<open>rep stos\<close> with a count of bytes and of words.\<close>

fun stosb :: "nat \<Rightarrow> uchar \<Rightarrow> nat \<Rightarrow> mem \<Rightarrow> mem" where
  "stosb a c 0 m = m"
| "stosb a c (Suc n) m = stosb (Suc a) c n (m(a := c))"

fun stosl :: "nat \<Rightarrow> 32 word \<Rightarrow> nat \<Rightarrow> mem \<Rightarrow> mem" where
  "stosl a w 0 m = m"
| "stosl a w (Suc n) m = stosl (a + 4) w n (m(a := ucast w, Suc a := ucast (drop_bit 8 w),
     a + 2 := ucast (drop_bit 16 w), a + 3 := ucast (drop_bit 24 w)))"

definition memset :: "nat \<Rightarrow> 32 word \<Rightarrow> nat \<Rightarrow> mem \<Rightarrow> mem" where
  "memset dst c n m =
     (if dst mod 4 = 0 \<and> n mod 4 = 0
      then let c = c AND 0xFF in
        stosl dst (push_bit 24 c OR push_bit 16 c OR push_bit 8 c OR c) (n div 4) m
      else stosb dst (ucast c) n m)"

fun copy_forward :: "nat \<Rightarrow> nat \<Rightarrow> nat \<Rightarrow> mem \<Rightarrow> mem" where
  "copy_forward d s 0 m = m"
| "copy_forward d s (Suc n) m = copy_forward (Suc d) (Suc s) n (m(d := m s))"

fun copy_backward :: "nat \<Rightarrow> nat \<Rightarrow> nat \<Rightarrow> mem \<Rightarrow> mem" where
  "copy_backward d s 0 m = m"
| "copy_backward d s (Suc n) m = copy_backward (d - 1) (s - 1) n (m(d - 1 := m (s - 1)))"

definition memmove :: "nat \<Rightarrow> nat \<Rightarrow> nat \<Rightarrow> mem \<Rightarrow> mem" where
  "memmove dst src n m =
     (if src < dst \<and> src + n > dst then copy_backward (dst + n) (src + n) n m
      else copy_forward dst src n m)"

definition memcpy :: "nat \<Rightarrow> nat \<Rightarrow> nat \<Rightarrow> mem \<Rightarrow> mem" where
  "memcpy dst src n m = memmove dst src n m"

text \<open>\<open>memcmp\<close> of two arrays.\<close>

fun memcmp :: "uchar list \<Rightarrow> uchar list \<Rightarrow> nat \<Rightarrow> int result" where
  "memcmp s1 s2 0 = Ok 0"
| "memcmp (a # s1) (b # s2) (Suc n) =
     (if a \<noteq> b then Ok (uint a - uint b) else memcmp s1 s2 n)"
| "memcmp _ _ (Suc n) = Err (Fault ''memcmp'')"

text \<open>\<open>memmove\<close> of ulib.c, which always copies upwards.\<close>

definition memmove_u :: "nat \<Rightarrow> nat \<Rightarrow> int \<Rightarrow> mem \<Rightarrow> mem" where
  "memmove_u dst src n m = copy_forward dst src (nat n) m"

definition memset_u :: "nat \<Rightarrow> 32 word \<Rightarrow> nat \<Rightarrow> mem \<Rightarrow> mem" where
  "memset_u dst c n m = stosb dst (ucast c) n m"

section \<open>Strings\<close>

fun strncmp :: "uchar list \<Rightarrow> uchar list \<Rightarrow> nat \<Rightarrow> int result" where
  "strncmp p q 0 = Ok 0"
| "strncmp (a # p) (b # q) (Suc n) =
     (if a \<noteq> 0 \<and> a = b then strncmp p q n else Ok (uint a - uint b))"
| "strncmp _ _ (Suc n) = Err (Fault ''strncmp'')"

text \<open>The two loops of \<open>strncpy\<close>: copying up to and including the terminator, then padding.\<close>

fun strncpy_pad :: "uchar list \<Rightarrow> nat \<Rightarrow> uchar list result" where
  "strncpy_pad s 0 = Ok s"
| "strncpy_pad (x # s) (Suc n) = rbind (strncpy_pad s n) (\<lambda>r. Ok (0 # r))"
| "strncpy_pad [] (Suc n) = Err (Fault ''strncpy'')"

fun strncpy_copy :: "uchar list \<Rightarrow> uchar list \<Rightarrow> nat \<Rightarrow> uchar list result" where
  "strncpy_copy s t 0 = Ok s"
| "strncpy_copy (x # s) (c # t) (Suc n) =
     rbind (if c \<noteq> 0 then strncpy_copy s t n else strncpy_pad s n) (\<lambda>r. Ok (c # r))"
| "strncpy_copy _ _ (Suc n) = Err (Fault ''strncpy'')"

definition strncpy :: "uchar list \<Rightarrow> uchar list \<Rightarrow> int \<Rightarrow> uchar list result" where
  "strncpy s t n = strncpy_copy s t (nat n)"

text \<open>
  \<open>safestrcpy\<close>: when the loop stops at the terminator it has already stored it, and the final
  \<open>*s = 0\<close> writes the byte after it.
\<close>

fun put_nul :: "uchar list \<Rightarrow> uchar list result" where
  "put_nul (x # s) = Ok (0 # s)"
| "put_nul [] = Err (Fault ''safestrcpy'')"

fun safestrcpy_copy :: "uchar list \<Rightarrow> uchar list \<Rightarrow> nat \<Rightarrow> uchar list result" where
  "safestrcpy_copy s t 0 = put_nul s"
| "safestrcpy_copy (x # s) (c # t) (Suc n) =
     rbind (if c \<noteq> 0 then safestrcpy_copy s t n else put_nul s) (\<lambda>r. Ok (c # r))"
| "safestrcpy_copy _ _ (Suc n) = Err (Fault ''safestrcpy'')"

definition safestrcpy :: "uchar list \<Rightarrow> uchar list \<Rightarrow> int \<Rightarrow> uchar list result" where
  "safestrcpy s t n = (if n \<le> 0 then Ok s else safestrcpy_copy s t (nat (n - 1)))"

fun strlen :: "uchar list \<Rightarrow> nat result" where
  "strlen (c # s) = (if c = 0 then Ok 0 else rbind (strlen s) (\<lambda>n. Ok (Suc n)))"
| "strlen [] = Err (Fault ''strlen'')"

text \<open>The routines that only ulib.c has.\<close>

fun strcpy :: "uchar list \<Rightarrow> uchar list \<Rightarrow> uchar list result" where
  "strcpy (x # s) (c # t) = (if c = 0 then Ok (0 # s) else rbind (strcpy s t) (\<lambda>r. Ok (c # r)))"
| "strcpy _ _ = Err (Fault ''strcpy'')"

fun strcmp :: "uchar list \<Rightarrow> uchar list \<Rightarrow> int result" where
  "strcmp (a # p) (b # q) = (if a \<noteq> 0 \<and> a = b then strcmp p q else Ok (uint a - uint b))"
| "strcmp _ _ = Err (Fault ''strcmp'')"

text \<open>\<open>strchr\<close> returns the position of the character, \<open>None\<close> for the null pointer.\<close>

fun strchr :: "uchar list \<Rightarrow> uchar \<Rightarrow> nat option result" where
  "strchr (x # s) c = (if x = 0 then Ok None else if x = c then Ok (Some 0)
     else rbind (strchr s c) (\<lambda>r. Ok (map_option Suc r)))"
| "strchr [] c = Err (Fault ''strchr'')"

text \<open>\<open>atoi\<close> with its accumulator, an \<open>int\<close>: the three operations of \<open>n*10 + *s - '0'\<close> must not overflow.\<close>

fun atoi_loop :: "uchar list \<Rightarrow> int \<Rightarrow> int result" where
  "atoi_loop (c # s) n =
     (if 48 \<le> c \<and> c \<le> 57
      then rbind (int32 (n * 10)) (\<lambda>m. rbind (int32 (m + uint c)) (\<lambda>m. rbind (int32 (m - 48)) (atoi_loop s)))
      else Ok n)"
| "atoi_loop [] n = Err (Fault ''atoi'')"

definition atoi :: "uchar list \<Rightarrow> int result" where
  "atoi s = atoi_loop s 0"

section \<open>Blocks: lemmas\<close>

lemma copy_forward_at:
  "d \<le> s \<or> s + n \<le> d \<Longrightarrow>
   copy_forward d s n m a = (if d \<le> a \<and> a < d + n then m (s + (a - d)) else m a)"
proof (induction n arbitrary: d s m)
  case (Suc n)
  have "copy_forward d s (Suc n) m a
      = (if Suc d \<le> a \<and> a < Suc d + n then (m(d := m s)) (Suc s + (a - Suc d)) else (m(d := m s)) a)"
    using Suc.IH [of "Suc d" "Suc s"] Suc.prems by auto
  also have "\<dots> = (if d \<le> a \<and> a < d + Suc n then m (s + (a - d)) else m a)"
  proof (cases "a = d")
    case False
    then have "Suc d \<le> a \<longleftrightarrow> d \<le> a" by auto
    moreover have "Suc s + (a - Suc d) = s + (a - d) \<and> s + (a - d) \<noteq> d" if "d < a" "a < Suc (d + n)"
      using that Suc.prems by auto
    ultimately show ?thesis using False by auto
  qed simp
  finally show ?case .
qed auto

lemma copy_forward_eq:
  "d \<le> s \<or> s + n \<le> d \<Longrightarrow>
   copy_forward d s n m = (\<lambda>a. if d \<le> a \<and> a < d + n then m (s + (a - d)) else m a)"
  by (rule ext) (rule copy_forward_at)

lemma copy_backward_at:
  "s \<le> d \<Longrightarrow>
   copy_backward (d + n) (s + n) n m a = (if d \<le> a \<and> a < d + n then m (s + (a - d)) else m a)"
proof (induction n arbitrary: m)
  case (Suc n)
  have "copy_backward (d + Suc n) (s + Suc n) (Suc n) m a
      = (if d \<le> a \<and> a < d + n then (m(d + n := m (s + n))) (s + (a - d)) else (m(d + n := m (s + n))) a)"
    using Suc by simp
  also have "\<dots> = (if d \<le> a \<and> a < d + Suc n then m (s + (a - d)) else m a)"
    using Suc.prems by (cases "a = d + n") auto
  finally show ?case .
qed auto

lemma copy_backward_eq:
  "s \<le> d \<Longrightarrow>
   copy_backward (d + n) (s + n) n m = (\<lambda>a. if d \<le> a \<and> a < d + n then m (s + (a - d)) else m a)"
  by (rule ext) (rule copy_backward_at)

lemma stosb_at: "stosb a c n m x = (if a \<le> x \<and> x < a + n then c else m x)"
proof (induction n arbitrary: a m)
  case (Suc n)
  then show ?case by (cases "x = a") auto
qed auto

lemma stosb_eq: "stosb a c n m = (\<lambda>x. if a \<le> x \<and> x < a + n then c else m x)"
  by (rule ext) (rule stosb_at)

lemma stosl_bytes:
  assumes "ucast w = c" "ucast (drop_bit 8 w) = c" "ucast (drop_bit 16 w) = c" "ucast (drop_bit 24 w) = (c :: uchar)"
  shows "stosl a w n m = stosb a c (4 * n) m"
proof (induction n arbitrary: a m)
  case (Suc n)
  have "stosl a w (Suc n) m = stosl (a + 4) w n (m(a := c, Suc a := c, a + 2 := c, a + 3 := c))"
    using assms by simp
  also have "\<dots> = stosb a c (4 * Suc n) m"
    unfolding Suc by (auto simp: stosb_eq fun_eq_iff)
  finally show ?case .
qed simp

text \<open>The word that \<open>memset\<close> builds has the byte in all four places.\<close>

lemma byte_and: "c AND 0xFF = take_bit 8 (c :: 32 word)"
  by (simp add: take_bit_eq_mask mask_eq_exp_minus_1)

lemma memset_word:
  fixes c :: "32 word"
  defines "w \<equiv> push_bit 24 (take_bit 8 c) OR push_bit 16 (take_bit 8 c) OR push_bit 8 (take_bit 8 c) OR take_bit 8 c"
  shows "ucast w = (ucast c :: uchar)" "ucast (drop_bit 8 w) = (ucast c :: uchar)"
    "ucast (drop_bit 16 w) = (ucast c :: uchar)" "ucast (drop_bit 24 w) = (ucast c :: uchar)"
  by (rule bit_word_eqI; simp add: w_def bit_simps; auto)+

section \<open>Properties of the block routines\<close>

text \<open>
  \<open>memmove\<close> copies the source region as it was before the call, for every overlap of source
  and destination, and writes nothing else; \<open>memset\<close> fills exactly the region with the low byte
  of \<open>c\<close> on both of its paths; the \<open>memmove\<close> of ulib.c is the same function when the
  destination does not start inside the source region.
\<close>

theorem memmove_memset_correct:
  "memmove dst src n m = (\<lambda>a. if dst \<le> a \<and> a < dst + n then m (src + (a - dst)) else m a)
   \<and> memset dst c n m = (\<lambda>a. if dst \<le> a \<and> a < dst + n then ucast c else m a)
   \<and> (\<not> (src < dst \<and> dst < src + n) \<longrightarrow> memmove_u dst src (int n) m = memmove dst src n m)"
proof (intro conjI impI)
  show mm: "memmove dst src n m = (\<lambda>a. if dst \<le> a \<and> a < dst + n then m (src + (a - dst)) else m a)"
    by (cases "src < dst \<and> src + n > dst") (auto simp: memmove_def copy_backward_eq copy_forward_eq)
  show "memset dst c n m = (\<lambda>a. if dst \<le> a \<and> a < dst + n then ucast c else m a)"
  proof (cases "dst mod 4 = 0 \<and> n mod 4 = 0")
    case True
    then have "4 * (n div 4) = n" by auto
    moreover have "memset dst c n m = stosb dst (ucast c) (4 * (n div 4)) m"
      using True unfolding memset_def Let_def byte_and by (simp only: stosl_bytes [OF memset_word] if_True simp_thms)
    ultimately show ?thesis by (simp add: stosb_eq)
  next
    case False
    then have "memset dst c n m = stosb dst (ucast c) n m" by (simp only: memset_def if_False)
    then show ?thesis by (simp add: stosb_eq)
  qed
  assume "\<not> (src < dst \<and> dst < src + n)"
  then have "dst \<le> src \<or> src + n \<le> dst" by linarith
  then show "memmove_u dst src (int n) m = memmove dst src n m"
    by (simp add: mm memmove_u_def copy_forward_eq)
qed

theorem memmove_memset_correct_witness:
  "memmove 2 0 4 (\<lambda>a. of_nat a) 5 = 3 \<and> memmove_u 0 2 4 (\<lambda>a. of_nat a) 3 = (5 :: uchar)"
  using memmove_memset_correct [of 2 0 4 "\<lambda>a. of_nat a"] memmove_memset_correct [of 0 2 4 "\<lambda>a. of_nat a"]
  by simp

section \<open>Strings: lemmas\<close>

text \<open>\<open>cstr s\<close> is the string in the array \<open>s\<close>: the bytes before the first zero byte.\<close>

definition cstr :: "uchar list \<Rightarrow> uchar list" where
  "cstr s = takeWhile (\<lambda>c. c \<noteq> 0) s"

lemma cstr_simps [simp]: "cstr [] = []" "cstr (c # s) = (if c = 0 then [] else c # cstr s)"
  by (auto simp: cstr_def)

lemma strlen_eq: "0 \<in> set s \<Longrightarrow> strlen s = Ok (length (cstr s))"
  by (induction s) auto

text \<open>Two strings compare equal up to \<open>n\<close> exactly when their first \<open>n\<close> characters agree.\<close>

lemma strncmp_total:
  "(0 \<in> set p \<or> n \<le> length p) \<Longrightarrow> (0 \<in> set q \<or> n \<le> length q) \<Longrightarrow>
   \<exists>r. strncmp p q n = Ok r \<and> (r = 0 \<longleftrightarrow> take n (cstr p) = take n (cstr q))"
proof (induction p q n rule: strncmp.induct)
  case (2 a p b q n)
  show ?case
  proof (cases "a \<noteq> 0 \<and> a = b")
    case True
    then show ?thesis using 2 by auto
  next
    case False
    have "uint a - uint b = 0 \<longleftrightarrow> a = b" by (simp add: word_uint_eq_iff)
    then show ?thesis using False by auto
  qed
qed auto

lemma strncpy_pad_eq: "n \<le> length s \<Longrightarrow> strncpy_pad s n = Ok (replicate n 0 @ drop n s)"
  by (induction s n rule: strncpy_pad.induct) auto

lemma strncpy_copy_eq:
  "n \<le> length s \<Longrightarrow> 0 \<in> set t \<or> n \<le> length t \<Longrightarrow>
   strncpy_copy s t n = Ok (take n (cstr t) @ replicate (n - length (cstr t)) 0 @ drop n s)"
proof (induction s t n rule: strncpy_copy.induct)
  case (2 x s c t n)
  then show ?case by (auto simp: strncpy_pad_eq)
qed auto

lemma cstr_append_zeros: "0 \<notin> set u \<Longrightarrow> cstr (u @ replicate k 0 @ v) = (if k = 0 then u @ cstr v else u)"
  by (induction u) (auto, cases k, auto)

lemma zero_not_in_cstr [simp]: "0 \<notin> set (cstr s)"
  by (auto simp: cstr_def dest: set_takeWhileD)

lemma zero_not_in_take_cstr [simp]: "0 \<notin> set (take n (cstr s))"
  using in_set_takeD zero_not_in_cstr by fastforce

lemma safestrcpy_copy_eq:
  "n < length s \<Longrightarrow> 0 \<in> set t \<or> n \<le> length t \<Longrightarrow>
   \<exists>r. safestrcpy_copy s t n = Ok r \<and> length r = length s \<and> cstr r = take n (cstr t)
     \<and> 0 \<in> set (take (Suc n) r) \<and> drop (Suc n) r = drop (Suc n) s"
proof (induction s t n rule: safestrcpy_copy.induct)
  case (1 s t)
  then show ?case by (cases s) auto
next
  case (2 x s c t n)
  show ?case
  proof (cases "c = 0")
    case True
    then obtain y s' where "s = y # s'" using 2 by (cases s) auto
    then show ?thesis using True by (cases n) auto
  next
    case False
    then obtain r where "safestrcpy_copy s t n = Ok r" "length r = length s" "cstr r = take n (cstr t)"
      "0 \<in> set (take (Suc n) r)" "drop (Suc n) r = drop (Suc n) s"
      using 2 by auto
    then show ?thesis using False by auto
  qed
qed auto

lemma strcmp_total:
  "0 \<in> set p \<Longrightarrow> 0 \<in> set q \<Longrightarrow> \<exists>r. strcmp p q = Ok r \<and> (r = 0 \<longleftrightarrow> cstr p = cstr q)"
proof (induction p q rule: strcmp.induct)
  case (1 a p b q)
  show ?case
  proof (cases "a \<noteq> 0 \<and> a = b")
    case True
    then show ?thesis using 1 by auto
  next
    case False
    have "uint a - uint b = 0 \<longleftrightarrow> a = b" by (simp add: word_uint_eq_iff)
    then show ?thesis using False by auto
  qed
qed auto

lemma strchr_eq:
  "0 \<in> set s \<Longrightarrow> c \<noteq> 0 \<Longrightarrow> strchr s c = Ok (if c \<in> set (cstr s)
     then Some (length (takeWhile (\<lambda>x. x \<noteq> c) (cstr s))) else None)"
  by (induction s) auto

section \<open>Properties of the string routines\<close>

text \<open>
  A name stored with \<open>strncpy\<close> in a field of \<open>n\<close> bytes is found again by \<open>strncmp\<close>: the two
  never run outside their arrays, and \<open>strncmp\<close> of a name with the field returns 0 exactly when
  the name and the stored one have the same first \<open>n\<close> characters (this is how directory entries
  are written and compared, with no terminator when the name fills the field).
\<close>

theorem strncpy_strncmp_roundtrip:
  assumes "n \<le> length field" "0 \<in> set name" "0 \<in> set name2"
  shows "\<exists>r. strncpy field name (int n) = Ok r \<and> length r = length field \<and> drop n r = drop n field
     \<and> (\<exists>k. strncmp name2 (take n r) n = Ok k
          \<and> (k = 0 \<longleftrightarrow> take n (cstr name2) = take n (cstr name)))"
proof -
  let ?u = "take n (cstr name)" and ?k = "n - length (cstr name)"
  let ?r = "?u @ replicate ?k 0 @ drop n field"
  have r: "strncpy field name (int n) = Ok ?r"
    using assms by (simp add: strncpy_def strncpy_copy_eq)
  have l: "length (?u @ replicate ?k 0) = n" by simp
  then have t: "take n ?r = ?u @ replicate ?k 0" "drop n ?r = drop n field"
    by (simp_all add: min_def)
  have c: "cstr (?u @ replicate ?k 0) = ?u"
    using cstr_append_zeros [of ?u ?k "[]"] by auto
  obtain k where "strncmp name2 (take n ?r) n = Ok k"
      "k = 0 \<longleftrightarrow> take n (cstr name2) = take n (cstr (take n ?r))"
    using strncmp_total [of name2 n "take n ?r"] assms t(1) l by auto
  then show ?thesis using r t c assms(1) by (auto simp: min_def)
qed

theorem strncpy_strncmp_roundtrip_witness:
  "\<exists>r. strncpy (replicate 3 9) [97, 98, 0] (int 3) = Ok r \<and> drop 3 r = drop 3 (replicate 3 9)
     \<and> (\<exists>k. strncmp [97, 98, 0] (take 3 r) 3 = Ok k \<and> k = 0)"
  using strncpy_strncmp_roundtrip [of 3 "replicate 3 9" "[97, 98, 0]" "[97, 98, 0]"] by auto

text \<open>
  \<open>safestrcpy\<close> with a destination of at least \<open>n\<close> bytes returns, always leaves a terminated
  string that is the source cut to \<open>n - 1\<close> characters, and writes only the first \<open>n\<close> bytes.
\<close>

theorem safestrcpy_terminates_string:
  assumes "0 < n" "nat n \<le> length s" "0 \<in> set t"
  shows "\<exists>r. safestrcpy s t n = Ok r \<and> length r = length s \<and> 0 \<in> set (take (nat n) r)
     \<and> cstr r = take (nat (n - 1)) (cstr t) \<and> drop (nat n) r = drop (nat n) s"
proof -
  have n: "Suc (nat (n - 1)) = nat n" using assms(1) by simp
  obtain r where "safestrcpy_copy s t (nat (n - 1)) = Ok r" "length r = length s"
    "cstr r = take (nat (n - 1)) (cstr t)" "0 \<in> set (take (Suc (nat (n - 1))) r)"
    "drop (Suc (nat (n - 1))) r = drop (Suc (nat (n - 1))) s"
    using safestrcpy_copy_eq [of "nat (n - 1)" s t] assms n by auto
  then show ?thesis using assms(1) unfolding n by (simp add: safestrcpy_def)
qed

theorem safestrcpy_terminates_string_witness:
  "\<exists>r. safestrcpy (replicate 4 9) [97, 98, 99, 100, 0] 3 = Ok r \<and> cstr r = [97, 98]
     \<and> drop 3 r = [9]"
  using safestrcpy_terminates_string [of 3 "replicate 4 9" "[97, 98, 99, 100, 0]"]
  by auto

end
