(* ===== verification/Vm.thy ===== *)
theory Vm
  imports Readwrite Cstring
begin

text \<open>
  Address spaces, vm.c. A page directory and its page tables are pages of physical memory, so a page
  table entry is four bytes of a page; \<open>walkpgdir\<close> and everything above it work on these bytes. A
  \<open>pte_t *\<close> is the address of its page and its index there. What the hardware does with the tables
  is \<open>pte_at\<close>, the entry that translates an address.
\<close>

section \<open>Page table entries\<close>

abbreviation (input) PTE_P :: nat where "PTE_P \<equiv> 1"
abbreviation (input) PTE_W :: nat where "PTE_W \<equiv> 2"
abbreviation (input) PTE_U :: nat where "PTE_U \<equiv> 4"
abbreviation (input) EXTMEM :: nat where "EXTMEM \<equiv> 0x100000"
abbreviation (input) DEVSPACE :: nat where "DEVSPACE \<equiv> 0xFE000000"
abbreviation (input) NPDENTRIES :: nat where "NPDENTRIES \<equiv> 1024"

definition PDX :: "nat \<Rightarrow> nat" where "PDX va = drop_bit 22 va AND 0x3FF"
definition PTX :: "nat \<Rightarrow> nat" where "PTX va = drop_bit 12 va AND 0x3FF"
definition PGADDR :: "nat \<Rightarrow> nat \<Rightarrow> nat \<Rightarrow> nat" where "PGADDR d t off = u32 (push_bit 22 d OR push_bit 12 t OR off)"
definition PTE_ADDR :: "nat \<Rightarrow> nat" where "PTE_ADDR pte = pte AND 0xFFFFF000"
definition PTE_FLAGS :: "nat \<Rightarrow> nat" where "PTE_FLAGS pte = pte AND 0xFFF"

definition put_pte :: "nat \<times> nat \<Rightarrow> nat \<Rightarrow> 'a kmemst_scheme \<Rightarrow> 'a kmemst_scheme" where
  "put_pte p v s = s\<lparr>pages := (pages s)(fst p := put_cell (pages s (fst p)) (snd p) v)\<rparr>"

definition get_pte :: "nat \<times> nat \<Rightarrow> 'a kmemst_scheme \<Rightarrow> nat" where
  "get_pte p s = get_cell (pages s (fst p)) (snd p)"

definition fill_page :: "nat \<Rightarrow> bytes \<Rightarrow> 'a kmemst_scheme \<Rightarrow> 'a kmemst_scheme" where
  "fill_page v d s = s\<lparr>pages := (pages s)(v := d)\<rparr>"

section \<open>Operations\<close>

definition walkpgdir :: "nat \<Rightarrow> nat \<Rightarrow> bool \<Rightarrow> 'a kmemst_scheme \<Rightarrow> ((nat \<times> nat) option \<times> 'a kmemst_scheme) result" where
  "walkpgdir pgdir va alloc s =
     (let pde = (pgdir, PDX va) in
      if get_pte pde s AND PTE_P \<noteq> 0 then Ok (Some (P2V (PTE_ADDR (get_pte pde s)), PTX va), s)
      else if \<not> alloc then Ok (None, s)
      else rbind (kalloc s) (\<lambda>(pgtab, s).
        if pgtab = 0 then Ok (None, s)
        else let s = fill_page pgtab (replicate PGSIZE 0) s;
                 s = put_pte pde (V2P pgtab OR PTE_P OR PTE_W OR PTE_U) s
          in Ok (Some (pgtab, PTX va), s)))"

text \<open>
  The loop of \<open>mappages\<close>, with \<open>n\<close> further pages after the one at \<open>a\<close>; the loop ends when \<open>a\<close> has
  gone from the first to the last page, modulo \<open>2^32\<close>.
\<close>

fun mappages_loop :: "nat \<Rightarrow> nat \<Rightarrow> nat \<Rightarrow> nat \<Rightarrow> nat \<Rightarrow> 'a kmemst_scheme \<Rightarrow> (int \<times> 'a kmemst_scheme) result" where
  "mappages_loop n pgdir a pa perm s =
     rbind (walkpgdir pgdir a True s) (\<lambda>(pte, s).
     case pte of None \<Rightarrow> Ok (-1, s)
     | Some pte \<Rightarrow>
         if get_pte pte s AND PTE_P \<noteq> 0 then Err (Panic ''remap'')
         else let s = put_pte pte (pa OR perm OR PTE_P) s in
           case n of 0 \<Rightarrow> Ok (0, s)
           | Suc n \<Rightarrow> mappages_loop n pgdir (u32 (a + PGSIZE)) (u32 (pa + PGSIZE)) perm s)"

declare mappages_loop.simps [simp del]

definition mappages :: "nat \<Rightarrow> nat \<Rightarrow> nat \<Rightarrow> nat \<Rightarrow> nat \<Rightarrow> 'a kmemst_scheme \<Rightarrow> (int \<times> 'a kmemst_scheme) result" where
  "mappages pgdir va sz pa perm s =
     (let a = PGROUNDDOWN va; last = PGROUNDDOWN (u32 (va + sz + 2 ^ 32 - 1)) in
      mappages_loop (u32 (last + 2 ^ 32 - a) div PGSIZE) pgdir a pa perm s)"

function deallocuvm_loop :: "nat \<Rightarrow> nat \<Rightarrow> nat \<Rightarrow> 'a kmemst_scheme \<Rightarrow> 'a kmemst_scheme result" where
  "deallocuvm_loop pgdir a oldsz s =
     (if a < oldsz then
        rbind (walkpgdir pgdir a False s) (\<lambda>(pte, s).
        case pte of
          None \<Rightarrow>
            (let a' = PGADDR (PDX a + 1) 0 0 in
             if a' \<le> a then Err (Fault ''wrap'') else deallocuvm_loop pgdir a' oldsz s)
        | Some pte \<Rightarrow>
            rbind (if get_pte pte s AND PTE_P \<noteq> 0 then
                let pa = PTE_ADDR (get_pte pte s) in
                if pa = 0 then Err (Panic ''kfree'')
                else rbind (kfree (P2V pa) s) (\<lambda>s. Ok (put_pte pte 0 s))
              else Ok s) (\<lambda>s.
            if u32 (a + PGSIZE) \<le> a then Err (Fault ''wrap'') else deallocuvm_loop pgdir (u32 (a + PGSIZE)) oldsz s))
      else Ok s)"
  by pat_completeness auto
termination by (relation "measure (\<lambda>(pgdir, a, oldsz, s). oldsz - a)") auto

declare deallocuvm_loop.simps [simp del]

definition deallocuvm :: "nat \<Rightarrow> nat \<Rightarrow> nat \<Rightarrow> 'a kmemst_scheme \<Rightarrow> (nat \<times> 'a kmemst_scheme) result" where
  "deallocuvm pgdir oldsz newsz s =
     (if newsz \<ge> oldsz then Ok (oldsz, s)
      else rbind (deallocuvm_loop pgdir (PGROUNDUP newsz) oldsz s) (\<lambda>s. Ok (newsz, s)))"

definition freevm :: "nat \<Rightarrow> 'a kmemst_scheme \<Rightarrow> 'a kmemst_scheme result" where
  "freevm pgdir s =
     (if pgdir = 0 then Err (Panic ''freevm: no pgdir'')
      else rbind (deallocuvm pgdir KERNBASE 0 s) (\<lambda>(_, s).
        rbind (rfold (\<lambda>i s. if get_pte (pgdir, i) s AND PTE_P \<noteq> 0 then kfree (P2V (PTE_ADDR (get_pte (pgdir, i) s))) s else Ok s)
          [0..<NPDENTRIES] s) (\<lambda>s.
        kfree pgdir s)))"

text \<open>The kernel's mappings \<open>kmap\<close>; \<open>kdata\<close> is the linker's \<open>data\<close>.\<close>

definition kmap :: "nat \<Rightarrow> (nat \<times> nat \<times> nat \<times> nat) list" where
  "kmap kdata = [(KERNBASE, 0, EXTMEM, PTE_W), (KERNBASE + EXTMEM, EXTMEM, V2P kdata, 0),
     (kdata, V2P kdata, PHYSTOP, PTE_W), (DEVSPACE, DEVSPACE, 0, PTE_W)]"

fun kmap_loop :: "nat \<Rightarrow> (nat \<times> nat \<times> nat \<times> nat) list \<Rightarrow> 'a kmemst_scheme \<Rightarrow> (nat \<times> 'a kmemst_scheme) result" where
  "kmap_loop pgdir [] s = Ok (pgdir, s)"
| "kmap_loop pgdir ((virt, start, stop, perm) # ks) s =
     rbind (mappages pgdir virt (u32 (stop + 2 ^ 32 - start)) start perm s) (\<lambda>(r, s).
     if r < 0 then rbind (freevm pgdir s) (\<lambda>s. Ok (0, s)) else kmap_loop pgdir ks s)"

definition setupkvm :: "nat \<Rightarrow> 'a kmemst_scheme \<Rightarrow> (nat \<times> 'a kmemst_scheme) result" where
  "setupkvm kdata s =
     rbind (kalloc s) (\<lambda>(pgdir, s).
     if pgdir = 0 then Ok (0, s)
     else if P2V PHYSTOP > DEVSPACE then Err (Panic ''PHYSTOP too high'')
     else kmap_loop pgdir (kmap kdata) (fill_page pgdir (replicate PGSIZE 0) s))"

text \<open>
  The checks of \<open>switchuvm\<close>; the task state segment and the page table register it then loads are
  not part of the model.
\<close>

definition switchuvm :: "nat option \<Rightarrow> 'a kst_scheme \<Rightarrow> 'a kst_scheme result" where
  "switchuvm p s = (case p of None \<Rightarrow> Err (Panic ''switchuvm: no process'') | Some p \<Rightarrow>
     if p_kstack (procs (pt s) p) = None then Err (Panic ''switchuvm: no kstack'')
     else if p_pgdir (procs (pt s) p) = None then Err (Panic ''switchuvm: no pgdir'')
     else Ok s)"

definition inituvm :: "nat \<Rightarrow> bytes \<Rightarrow> 'a kmemst_scheme \<Rightarrow> 'a kmemst_scheme result" where
  "inituvm pgdir init s =
     (if length init \<ge> PGSIZE then Err (Panic ''inituvm: more than a page'')
      else rbind (kalloc s) (\<lambda>(mem, s).
        if mem = 0 then Err (Fault ''inituvm'')
        else rbind (mappages pgdir 0 PGSIZE (V2P mem) (PTE_W OR PTE_U) (fill_page mem (replicate PGSIZE 0) s)) (\<lambda>(_, s).
          Ok (fill_page mem (blit (pages s mem) 0 init) s))))"

function allocuvm_loop :: "nat \<Rightarrow> nat \<Rightarrow> nat \<Rightarrow> nat \<Rightarrow> 'a kmemst_scheme \<Rightarrow> (nat \<times> 'a kmemst_scheme) result" where
  "allocuvm_loop pgdir a oldsz newsz s =
     (if a < newsz then
        rbind (kalloc s) (\<lambda>(mem, s).
        if mem = 0 then rbind (deallocuvm pgdir newsz oldsz s) (\<lambda>(_, s). Ok (0, s))
        else rbind (mappages pgdir a PGSIZE (V2P mem) (PTE_W OR PTE_U) (fill_page mem (replicate PGSIZE 0) s)) (\<lambda>(r, s).
          if r < 0 then rbind (deallocuvm pgdir newsz oldsz s) (\<lambda>(_, s). rbind (kfree mem s) (\<lambda>s. Ok (0, s)))
          else allocuvm_loop pgdir (a + PGSIZE) oldsz newsz s))
      else Ok (newsz, s))"
  by pat_completeness auto
termination by (relation "measure (\<lambda>(pgdir, a, oldsz, newsz, s). newsz - a)") auto

declare allocuvm_loop.simps [simp del]

text \<open>\<open>newsz < KERNBASE\<close>, so \<open>a\<close> cannot wrap around.\<close>

definition allocuvm :: "nat \<Rightarrow> nat \<Rightarrow> nat \<Rightarrow> 'a kmemst_scheme \<Rightarrow> (nat \<times> 'a kmemst_scheme) result" where
  "allocuvm pgdir oldsz newsz s =
     (if newsz \<ge> KERNBASE then Ok (0, s)
      else if newsz < oldsz then Ok (oldsz, s)
      else allocuvm_loop pgdir (PGROUNDUP oldsz) oldsz newsz s)"

definition clearpteu :: "nat \<Rightarrow> nat \<Rightarrow> 'a kmemst_scheme \<Rightarrow> 'a kmemst_scheme result" where
  "clearpteu pgdir uva s =
     rbind (walkpgdir pgdir uva False s) (\<lambda>(pte, s).
     case pte of None \<Rightarrow> Err (Panic ''clearpteu'')
     | Some pte \<Rightarrow> Ok (put_pte pte (get_pte pte s AND 0xFFFFFFFB) s))"

function copyuvm_loop :: "nat \<Rightarrow> nat \<Rightarrow> nat \<Rightarrow> nat \<Rightarrow> 'a kmemst_scheme \<Rightarrow> (nat \<times> 'a kmemst_scheme) result" where
  "copyuvm_loop pgdir d i sz s =
     (if i < sz then
        rbind (walkpgdir pgdir i False s) (\<lambda>(pte, s).
        case pte of None \<Rightarrow> Err (Panic ''copyuvm: pte should exist'')
        | Some pte \<Rightarrow>
            if get_pte pte s AND PTE_P = 0 then Err (Panic ''copyuvm: page not present'')
            else
              let pa = PTE_ADDR (get_pte pte s); flags = PTE_FLAGS (get_pte pte s) in
              rbind (kalloc s) (\<lambda>(mem, s).
              if mem = 0 then rbind (freevm d s) (\<lambda>s. Ok (0, s))
              else rbind (mappages d i PGSIZE (V2P mem) flags (fill_page mem (pages s (P2V pa)) s)) (\<lambda>(r, s).
                if r < 0 then rbind (freevm d s) (\<lambda>s. Ok (0, s))
                else if u32 (i + PGSIZE) \<le> i then Err (Fault ''wrap'')
                else copyuvm_loop pgdir d (u32 (i + PGSIZE)) sz s)))
      else Ok (d, s))"
  by pat_completeness auto
termination by (relation "measure (\<lambda>(pgdir, d, i, sz, s). sz - i)") auto

declare copyuvm_loop.simps [simp del]

definition copyuvm :: "nat \<Rightarrow> nat \<Rightarrow> nat \<Rightarrow> 'a kmemst_scheme \<Rightarrow> (nat \<times> 'a kmemst_scheme) result" where
  "copyuvm kdata pgdir sz s =
     rbind (setupkvm kdata s) (\<lambda>(d, s). if d = 0 then Ok (0, s) else copyuvm_loop pgdir d 0 sz s)"

text \<open>\<open>uva2ka\<close> reads through the null pointer when there is no page table.\<close>

definition uva2ka :: "nat \<Rightarrow> nat \<Rightarrow> 'a kmemst_scheme \<Rightarrow> (nat \<times> 'a kmemst_scheme) result" where
  "uva2ka pgdir uva s =
     rbind (walkpgdir pgdir uva False s) (\<lambda>(pte, s).
     case pte of None \<Rightarrow> Err (Fault ''uva2ka'')
     | Some pte \<Rightarrow>
         if get_pte pte s AND PTE_P = 0 then Ok (0, s)
         else if get_pte pte s AND PTE_U = 0 then Ok (0, s)
         else Ok (P2V (PTE_ADDR (get_pte pte s)), s))"

function copyout :: "nat \<Rightarrow> nat \<Rightarrow> bytes \<Rightarrow> 'a kmemst_scheme \<Rightarrow> (int \<times> 'a kmemst_scheme) result" where
  "copyout pgdir va buf s =
     (if buf = [] then Ok (0, s)
      else
        let va0 = PGROUNDDOWN va in
        rbind (uva2ka pgdir va0 s) (\<lambda>(pa0, s).
        if pa0 = 0 then Ok (-1, s)
        else
          let n = min (PGSIZE - (va - va0)) (length buf) in
          copyout pgdir (u32 (va0 + PGSIZE)) (drop n buf) (fill_page pa0 (blit (pages s pa0) (va - va0) (take n buf)) s)))"
  by pat_completeness auto
termination
proof (relation "measure (\<lambda>(pgdir, va, buf, s). length buf)")
  fix va :: nat and buf :: bytes
  assume "buf \<noteq> []"
  moreover have "va - PGROUNDDOWN va < PGSIZE" by (simp add: PGROUNDDOWN_def minus_div_mult_eq_mod)
  ultimately show "((pgdir, u32 (x + PGSIZE), drop n buf, s'), pgdir, va, buf, s) \<in> measure (\<lambda>(pgdir, va, buf, s). length buf)"
    if "x = PGROUNDDOWN va" "n = min (PGSIZE - (va - x)) (length buf)" for pgdir x n s s'
    using that by auto
qed simp

declare copyout.simps [simp del]

function loaduvm_loop :: "nat \<Rightarrow> nat \<Rightarrow> nat \<Rightarrow> nat \<Rightarrow> nat \<Rightarrow> nat \<Rightarrow> 'a fsst_scheme \<Rightarrow> (int \<times> 'a fsst_scheme) result" where
  "loaduvm_loop pgdir addr ip offset i sz s =
     (if i < sz then
        rbind (walkpgdir pgdir (u32 (addr + i)) False s) (\<lambda>(pte, s).
        case pte of None \<Rightarrow> Err (Panic ''loaduvm: address should exist'')
        | Some pte \<Rightarrow>
            let pa = PTE_ADDR (get_pte pte s); n = min (sz - i) PGSIZE in
            rbind (readi ip (u32 (offset + i)) n s) (\<lambda>(r, d, s).
            let s = fill_page (P2V pa) (blit (pages s (P2V pa)) 0 d) s in
            if r \<noteq> int n then Ok (-1, s)
            else if u32 (i + PGSIZE) \<le> i then Err (Fault ''wrap'')
            else loaduvm_loop pgdir addr ip offset (u32 (i + PGSIZE)) sz s))
      else Ok (0, s))"
  by pat_completeness auto
termination by (relation "measure (\<lambda>(pgdir, addr, ip, offset, i, sz, s). sz - i)") auto

definition loaduvm :: "nat \<Rightarrow> nat \<Rightarrow> nat \<Rightarrow> nat \<Rightarrow> nat \<Rightarrow> 'a fsst_scheme \<Rightarrow> (int \<times> 'a fsst_scheme) result" where
  "loaduvm pgdir addr ip offset sz s =
     (if addr mod PGSIZE \<noteq> 0 then Err (Panic ''loaduvm: addr must be page aligned'')
      else loaduvm_loop pgdir addr ip offset 0 sz s)"

section \<open>Arithmetic of entries\<close>

lemma nat_bit_large: "(x :: nat) < 2 ^ k \<Longrightarrow> k \<le> n \<Longrightarrow> \<not> bit x n"
  by (metis bit_take_bit_iff not_le take_bit_nat_eq_self)

lemma nat_bit_low: "(x :: nat) mod 2 ^ k = 0 \<Longrightarrow> n < k \<Longrightarrow> \<not> bit x n"
  by (metis bit_0_eq bit_take_bit_iff bot_apply bot_bool_def take_bit_eq_mod)

lemma or_low:
  assumes "(a :: nat) mod 4096 = 0" "f < 4096"
  shows "a OR f = a + f"
proof -
  have "\<not> bit a n \<or> \<not> bit f n" for n
    using nat_bit_low [of a 12 n] nat_bit_large [of f 12 n] assms by (cases "n < 12") auto
  then show ?thesis by (simp add: disjunctive_add)
qed

lemma PTE_FLAGS_mod: "PTE_FLAGS x = x mod 4096"
  using take_bit_eq_mask [of 12 x] by (simp add: PTE_FLAGS_def take_bit_eq_mod mask_eq_exp_minus_1)

lemma PTE_ADDR_mod:
  assumes "x < 2 ^ 32"
  shows "PTE_ADDR x = x - x mod 4096"
proof -
  have m: "(0xFFFFF000 :: nat) = push_bit 12 (mask 20)" by (simp add: push_bit_eq_mult mask_eq_exp_minus_1)
  have "PTE_ADDR x = push_bit 12 (drop_bit 12 x)"
    unfolding PTE_ADDR_def m
  proof (rule bit_eqI)
    fix n
    show "bit (x AND push_bit 12 (mask 20)) n = bit (push_bit 12 (drop_bit 12 x)) n"
      using nat_bit_large [OF assms, of n] by (cases "32 \<le> n") (auto simp: bit_simps)
  qed
  also have "\<dots> = x - x mod 4096" by (simp add: push_bit_eq_mult drop_bit_eq_div minus_mod_eq_div_mult)
  finally show ?thesis .
qed

lemma PTE_P_odd: "x AND PTE_P \<noteq> 0 \<longleftrightarrow> odd x" "x AND PTE_P = 0 \<longleftrightarrow> even x" for x :: nat
  by (simp_all add: and_one_eq even_iff_mod_2_eq_zero)

lemma u32_lt: "u32 x < 2 ^ 32"
  by (simp add: u32_def)

lemma V2P_page:
  assumes "page_ok s v"
  shows "V2P v mod 4096 = 0" "P2V (V2P v) = v" "V2P v < 2 ^ 32"
proof -
  have v: "v mod 4096 = 0" "v < 2 ^ 32" using assms by (simp_all add: page_ok_def)
  have e: "v < KERNBASE \<Longrightarrow> V2P v = v + 2 ^ 31" "v \<ge> KERNBASE \<Longrightarrow> V2P v = v - KERNBASE"
    using v(2) by (simp_all add: V2P_def u32_def mod_if)
  moreover have "(v + 2 ^ 31) mod 4096 = 0" "v \<ge> KERNBASE \<Longrightarrow> (v - KERNBASE) mod 4096 = 0"
    using v(1) by (auto simp: mod_add_eq [symmetric] mod_eq_0_iff_dvd intro!: dvd_diff_nat)
  ultimately show "V2P v mod 4096 = 0" by (cases "v < KERNBASE") auto
  have "v \<ge> KERNBASE \<Longrightarrow> v - KERNBASE + KERNBASE = v" by simp
  then show "P2V (V2P v) = v" using v(2) e by (cases "v < KERNBASE") (simp_all add: P2V_def u32_def)
  show "V2P v < 2 ^ 32" by (simp add: V2P_def u32_def)
qed

text \<open>An entry made of the address of a page and flags below 4096.\<close>

lemma entry:
  assumes "page_ok s v" "f < 4096" "odd f"
  shows "odd (V2P v OR f)" "P2V (PTE_ADDR (V2P v OR f)) = v" "PTE_FLAGS (V2P v OR f) = f" "V2P v OR f < 2 ^ 32"
proof -
  note V = V2P_page [OF assms(1)]
  have e: "V2P v OR f = V2P v + f" by (rule or_low [OF V(1) assms(2)])
  obtain k where k: "V2P v = 4096 * k" using V(1) by (auto simp: mod_eq_0_iff_dvd)
  then have "k < 2 ^ 20" using V(3) by simp
  then have b: "V2P v + f < 2 ^ 32" using k assms(2) by simp
  then show "V2P v OR f < 2 ^ 32" using e by simp
  show "odd (V2P v OR f)" using assms(3) e k by simp
  have m: "(V2P v + f) mod 4096 = f" using k assms(2) by simp
  then show "PTE_FLAGS (V2P v OR f) = f" using e by (simp add: PTE_FLAGS_mod)
  show "P2V (PTE_ADDR (V2P v OR f)) = v" unfolding e PTE_ADDR_mod [OF b] m using V(2) by simp
qed

lemma PDX_PTX: "PDX va = va div 2 ^ 22 mod 1024" "PTX va = va div 4096 mod 1024"
proof -
  have m: "(0x3FF :: nat) = mask 10" by (simp add: mask_eq_exp_minus_1)
  show "PDX va = va div 2 ^ 22 mod 1024" "PTX va = va div 4096 mod 1024"
    unfolding PDX_def PTX_def m take_bit_eq_mask [symmetric] by (simp_all add: take_bit_eq_mod drop_bit_eq_div)
qed

section \<open>The pages of an address space\<close>

definition pde_at :: "(nat \<Rightarrow> bytes) \<Rightarrow> nat \<Rightarrow> nat \<Rightarrow> nat" where
  "pde_at m g d = get_cell (m g) d"

text \<open>The entry that translates the page with directory index \<open>d\<close> and table index \<open>t\<close>; 0 without a table.\<close>

definition pte_at :: "(nat \<Rightarrow> bytes) \<Rightarrow> nat \<Rightarrow> nat \<Rightarrow> nat \<Rightarrow> nat" where
  "pte_at m g d t = (if odd (pde_at m g d) then get_cell (m (P2V (PTE_ADDR (pde_at m g d)))) t else 0)"

datatype vix = VDir | VTab nat | VUsr nat nat

text \<open>The page an index of the address space \<open>g\<close> stands for: the directory, its tables and the user's pages.\<close>

fun vp :: "(nat \<Rightarrow> bytes) \<Rightarrow> nat \<Rightarrow> vix \<Rightarrow> nat option" where
  "vp m g VDir = Some g"
| "vp m g (VTab d) = (if d < 1024 \<and> odd (pde_at m g d) then Some (P2V (PTE_ADDR (pde_at m g d))) else None)"
| "vp m g (VUsr d t) = (if d < 512 \<and> t < 1024 \<and> odd (pte_at m g d t) then Some (P2V (PTE_ADDR (pte_at m g d t))) else None)"

text \<open>All these pages are different from each other and from the free pages \<open>xs\<close>.\<close>

definition vm_wf :: "nat list \<Rightarrow> nat \<Rightarrow> 'a kmemst_scheme \<Rightarrow> bool" where
  "vm_wf xs g s \<longleftrightarrow> kmem_inv xs s \<and> (\<forall>i v. vp (pages s) g i = Some v \<longrightarrow> page_ok s v \<and> v \<notin> set xs)
     \<and> (\<forall>i j v. vp (pages s) g i = Some v \<longrightarrow> vp (pages s) g j = Some v \<longrightarrow> i = j)"

lemma vm_wfD:
  assumes "vm_wf xs g s"
  shows "kmem_inv xs s" "KmemLock \<notin> set (held s)" "page_ok s v \<Longrightarrow> length (pages s v) = PGSIZE" "page_ok s g"
    "vp (pages s) g i = Some v \<Longrightarrow> page_ok s v" "vp (pages s) g i = Some v \<Longrightarrow> v \<notin> set xs"
    "vp (pages s) g i = Some v \<Longrightarrow> vp (pages s) g j = Some v \<Longrightarrow> i = j"
proof -
  have "vp (pages s) g VDir = Some g" by simp
  then show "page_ok s g" using assms unfolding vm_wf_def by blast
qed (use assms in \<open>auto simp: vm_wf_def kmem_inv_def\<close>)

text \<open>The tables of an address space are pages of their own.\<close>

lemma table_page:
  assumes "vm_wf xs g s" "d < 1024" "odd (pde_at (pages s) g d)"
  defines "T \<equiv> P2V (PTE_ADDR (pde_at (pages s) g d))"
  shows "page_ok s T" "T \<noteq> g" "T \<notin> set xs" "\<And>e. e < 1024 \<Longrightarrow> odd (pde_at (pages s) g e) \<Longrightarrow> P2V (PTE_ADDR (pde_at (pages s) g e)) = T \<Longrightarrow> e = d"
proof -
  have t: "vp (pages s) g (VTab d) = Some T" using assms by simp
  show "page_ok s T" "T \<notin> set xs" using vm_wfD(5,6) [OF assms(1) t] .
  have "vp (pages s) g VDir = Some g" by simp
  then show "T \<noteq> g" using vm_wfD(7) [OF assms(1) t, of VDir] by auto
  show "e = d" if "e < 1024" "odd (pde_at (pages s) g e)" "P2V (PTE_ADDR (pde_at (pages s) g e)) = T" for e
    using vm_wfD(7) [OF assms(1) t, of "VTab e"] that by simp
qed

text \<open>A well-formed address space stays well-formed when one index gets a page that was free or unused.\<close>

lemma vm_wf_add:
  assumes w: "vm_wf xs g s" and k: "kmem_inv ys s'" "kern_end s' = kern_end s" "set ys \<subseteq> set xs"
    and v: "vp (pages s') g = (vp (pages s) g)(i := Some x)" "page_ok s x" "x \<notin> set ys" "\<And>j. vp (pages s) g j \<noteq> Some x"
  shows "vm_wf ys g s'"
  unfolding vm_wf_def
proof (intro conjI allI impI)
  have pk: "page_ok s' u = page_ok s u" for u using k(2) by (simp add: page_ok_def)
  fix j u assume "vp (pages s') g j = Some u"
  then have "j = i \<and> u = x \<or> vp (pages s) g j = Some u" using v(1) by (auto split: if_splits)
  then show "page_ok s' u" "u \<notin> set ys" using v(2,3) vm_wfD(5,6) [OF w] k(3) by (auto simp: pk)
next
  fix j l u assume "vp (pages s') g j = Some u" "vp (pages s') g l = Some u"
  then show "j = l" using v(1,4) vm_wfD(7) [OF w] by (auto split: if_splits)
qed (rule k(1))

lemma get_put_4096:
  assumes "length d = PGSIZE" "i < 1024" "j < 1024" "v < 2 ^ 32"
  shows "get_cell (put_cell d i v) j = (if i = j then v else get_cell d j)"
  using assms by (intro get_put_cell) auto

lemma get_cell_zero_page: "t < 1024 \<Longrightarrow> get_cell (replicate PGSIZE 0) t = 0"
  by (rule get_u32_zeros) simp

definition notab :: "(nat \<Rightarrow> bytes) \<Rightarrow> nat \<Rightarrow> nat \<Rightarrow> bool" where
  "notab m g x \<longleftrightarrow> x \<noteq> g \<and> (\<forall>d<1024. odd (pde_at m g d) \<longrightarrow> P2V (PTE_ADDR (pde_at m g d)) \<noteq> x)"

lemma notab_vp: "(\<And>j. vp m g j \<noteq> Some x) \<Longrightarrow> notab m g x"
  unfolding notab_def using vp.simps(1,2) by metis

lemma notab_user:
  assumes "vm_wf xs g s" "vp (pages s) g (VUsr a b) = Some v"
  shows "notab (pages s) g v"
  unfolding notab_def
proof (intro conjI allI impI notI)
  assume "v = g"
  then show False using vm_wfD(7) [OF assms, of VDir] by simp
next
  fix d assume "d < 1024" "odd (pde_at (pages s) g d)" "P2V (PTE_ADDR (pde_at (pages s) g d)) = v"
  then show False using vm_wfD(7) [OF assms, of "VTab d"] by simp
qed

text \<open>Writing a page that is not a table changes no translation.\<close>

lemma upd_page:
  assumes "notab m g x"
  shows "pde_at (m(x := c)) g d = pde_at m g d" "d < 1024 \<Longrightarrow> pte_at (m(x := c)) g d t = pte_at m g d t" "vp (m(x := c)) g = vp m g"
proof -
  show p: "pde_at (m(x := c)) g d = pde_at m g d" for d using assms by (auto simp: pde_at_def notab_def)
  show q: "pte_at (m(x := c)) g d t = pte_at m g d t" if "d < 1024" for d t
    using assms that unfolding pte_at_def p by (auto simp: notab_def)
  have "vp (m(x := c)) g i = vp m g i" for i
    by (cases i) (simp_all add: p q cong: conj_cong)
  then show "vp (m(x := c)) g = vp m g" by blast
qed

text \<open>Writing an entry of a table changes the translation of that page only.\<close>

lemma upd_entry:
  assumes w: "vm_wf xs g s" and d: "d < 1024" "odd (pde_at (pages s) g d)" and t: "t < 1024" and e: "e < 2 ^ 32"
  defines "T \<equiv> P2V (PTE_ADDR (pde_at (pages s) g d))"
  defines "m \<equiv> (pages s)(T := put_cell (pages s T) t e)"
  shows "pde_at m g c = pde_at (pages s) g c"
    "c < 1024 \<Longrightarrow> u < 1024 \<Longrightarrow> pte_at m g c u = (if c = d \<and> u = t then e else pte_at (pages s) g c u)"
    "d < 512 \<Longrightarrow> vp m g = (vp (pages s) g)(VUsr d t := if odd e then Some (P2V (PTE_ADDR e)) else None)"
proof -
  note P = table_page [OF w d, folded T_def]
  have l: "length (pages s T) = PGSIZE" by (rule vm_wfD(3) [OF w P(1)])
  have mT: "m T = put_cell (pages s T) t e" and mo: "\<And>v. v \<noteq> T \<Longrightarrow> m v = pages s v" by (simp_all add: m_def)
  show p: "pde_at m g c = pde_at (pages s) g c" for c using P(2) mo [of g] by (simp add: pde_at_def)
  show q: "pte_at m g c u = (if c = d \<and> u = t then e else pte_at (pages s) g c u)" if "c < 1024" "u < 1024" for c u
  proof (cases "odd (pde_at (pages s) g c) \<and> P2V (PTE_ADDR (pde_at (pages s) g c)) = T")
    case True
    then have "c = d" using P(4) that by blast
    then show ?thesis using True d(2) l t e that mT by (simp add: pte_at_def p get_put_4096)
  next
    case False
    then have "c \<noteq> d" using d T_def by blast
    then show ?thesis using False mo by (auto simp: pte_at_def p)
  qed
  assume "d < 512"
  have "vp m g i = ((vp (pages s) g)(VUsr d t := if odd e then Some (P2V (PTE_ADDR e)) else None)) i" for i
    using t d(1) \<open>d < 512\<close> by (cases i) (auto simp: p q)
  then show "vp m g = (vp (pages s) g)(VUsr d t := if odd e then Some (P2V (PTE_ADDR e)) else None)" by blast
qed

text \<open>A new table: a zeroed page that was not part of the address space.\<close>

lemma new_table:
  assumes w: "vm_wf xs g s" and d: "d < 1024" "even (pde_at (pages s) g d)"
    and x: "page_ok s x" "\<And>j. vp (pages s) g j \<noteq> Some x"
  defines "m1 \<equiv> (pages s)(x := replicate PGSIZE 0)"
  defines "m \<equiv> m1(g := put_cell (m1 g) d (V2P x OR 7))"
  shows "c < 1024 \<Longrightarrow> pde_at m g c = (if c = d then V2P x OR 7 else pde_at (pages s) g c)" "P2V (PTE_ADDR (pde_at m g d)) = x" "odd (pde_at m g d)"
    "c < 1024 \<Longrightarrow> u < 1024 \<Longrightarrow> pte_at m g c u = pte_at (pages s) g c u"
    "vp m g = (vp (pages s) g)(VTab d := Some x)"
proof -
  have nt: "notab (pages s) g x" by (rule notab_vp) (rule x(2))
  then have xg: "x \<noteq> g" by (simp add: notab_def)
  have l: "length (pages s g) = PGSIZE" by (rule vm_wfD(3) [OF w vm_wfD(4) [OF w]])
  note E = entry [OF x(1), of 7, simplified]
  show p: "pde_at m g c = (if c = d then V2P x OR 7 else pde_at (pages s) g c)" if "c < 1024" for c
    using that d(1) l xg E(4) by (simp add: pde_at_def m_def m1_def get_put_4096)
  show t: "P2V (PTE_ADDR (pde_at m g d)) = x" "odd (pde_at m g d)" using p [OF d(1)] E by simp_all
  have same: "m v = pages s v" if "v \<noteq> g" "v \<noteq> x" for v using that by (simp add: m_def m1_def)
  have mx: "m x = replicate PGSIZE 0" using xg by (simp add: m_def m1_def)
  show q: "pte_at m g c u = pte_at (pages s) g c u" if c: "c < 1024" "u < 1024" for c u
  proof (cases "c = d")
    case True
    then show ?thesis using d(2) t mx c(2) by (simp add: pte_at_def get_cell_zero_page)
  next
    case False
    then have "pde_at m g c = pde_at (pages s) g c" using p c by simp
    moreover have "P2V (PTE_ADDR (pde_at (pages s) g c)) \<noteq> g \<and> P2V (PTE_ADDR (pde_at (pages s) g c)) \<noteq> x" if "odd (pde_at (pages s) g c)"
      using table_page(2) [OF w c(1) that] nt c(1) that by (auto simp: notab_def)
    ultimately show ?thesis using same by (auto simp: pte_at_def)
  qed
  have "vp m g i = ((vp (pages s) g)(VTab d := Some x)) i" for i
    using t d(1) by (cases i) (auto simp: p q split: if_splits)
  then show "vp m g = (vp (pages s) g)(VTab d := Some x)" by blast
qed

section \<open>Mapping pages\<close>

text \<open>Everything but memory and the free list stays.\<close>

definition memonly :: "'a kmemst_scheme \<Rightarrow> 'a kmemst_scheme \<Rightarrow> bool" where
  "memonly s s' \<longleftrightarrow> (\<exists>f m. s' = s\<lparr>kmem_freelist := f, pages := m\<rparr>)"

lemma memonly_trans: "memonly s s1 \<Longrightarrow> memonly s1 s2 \<Longrightarrow> memonly s s2"
  unfolding memonly_def by (elim exE) (simp, blast)

lemma memonly_simps: "memonly s s" "memonly s (fill_page v d s)" "memonly s (put_pte p e s)"
  by (simp_all add: memonly_def fill_page_def put_pte_def) (metis kmemst.surjective kmemst.update_convs)+

lemma memonlyD:
  assumes "memonly s s'"
  shows "held s' = held s" "kern_end s' = kern_end s" "page_ok s' v = page_ok s v"
  using assms by (auto simp: memonly_def page_ok_def)

text \<open>A page taken from the free list.\<close>

lemma take_page:
  assumes "vm_wf (x # xs) g s"
  obtains s1 where "kalloc s = Ok (x, s1)" "x \<noteq> 0" "memonly s s1" "pages s1 = pages s" "vm_wf xs g s1"
    "page_ok s1 x" "x \<notin> set xs" "\<And>j. vp (pages s1) g j \<noteq> Some x"
proof -
  note w = assms
  have k: "kmem_inv (x # xs) s" by (rule vm_wfD(1) [OF w])
  then have x: "kmem_freelist s = x" "x \<noteq> 0" "page_ok s x" "x \<notin> set xs" by (simp_all add: kmem_inv_def)
  let ?s = "s\<lparr>kmem_freelist := get_u32 (pages s x) 0\<rparr>"
  have e: "kalloc s = Ok (x, ?s)" using kalloc_eq [OF vm_wfD(2) [OF w]] x by simp
  have m: "memonly s ?s" unfolding memonly_def by (rule exI [of _ "get_u32 (pages s x) 0"], rule exI [of _ "pages s"]) simp
  have k1: "kmem_inv xs ?s" using kalloc_inv [OF k] e by auto
  have "vm_wf xs g ?s" using w k1 unfolding vm_wf_def by (auto simp: page_ok_def)
  moreover have "vp (pages ?s) g j \<noteq> Some x" for j using vm_wfD(6) [OF w, of j x] by auto
  ultimately show ?thesis using that [OF e x(2) m] x(3,4) by (simp add: page_ok_def)
qed

lemma vm_wf_fill:
  assumes w: "vm_wf xs g s" and x: "notab (pages s) g x" "x \<notin> set xs" "length d = PGSIZE"
  shows "vm_wf xs g (fill_page x d s)"
proof -
  have "kmem_inv xs (fill_page x d s)"
    using vm_wfD(1) [OF w] x(2,3) chain_frame [of xs "(pages s)(x := d)" "pages s"]
    by (auto simp: kmem_inv_def fill_page_def page_ok_def)
  then show ?thesis using w upd_page(3) [OF x(1), of d] by (auto simp: vm_wf_def fill_page_def page_ok_def)
qed

lemma kmem_inv_put:
  assumes "kmem_inv xs s" "v \<notin> set xs" "i < 1024"
  shows "kmem_inv xs (put_pte (v, i) e s)"
  using assms chain_frame [of xs "(pages s)(v := put_cell (pages s v) i e)" "pages s"]
  by (auto simp: kmem_inv_def put_pte_def page_ok_def)

text \<open>
  No page gets lost or appears twice: the free list and the pages of the address space hold the same
  pages as before, and the page tables that were there are still there.
\<close>

definition aspace :: "(nat \<Rightarrow> bytes) \<Rightarrow> nat \<Rightarrow> nat set" where
  "aspace m g = {v. \<exists>i. vp m g i = Some v}"

definition conserved :: "nat list \<Rightarrow> nat list \<Rightarrow> nat \<Rightarrow> 'a kmemst_scheme \<Rightarrow> 'a kmemst_scheme \<Rightarrow> bool" where
  "conserved xs ys g s s' \<longleftrightarrow> set ys \<union> aspace (pages s') g = set xs \<union> aspace (pages s) g
     \<and> (\<forall>d v. vp (pages s) g (VTab d) = Some v \<longrightarrow> vp (pages s') g (VTab d) = Some v)"

lemma conserved_refl [simp]: "conserved xs xs g s s"
  by (simp add: conserved_def)

lemma conserved_trans: "conserved xs ys g s s1 \<Longrightarrow> conserved ys zs g s1 s2 \<Longrightarrow> conserved xs zs g s s2"
  unfolding conserved_def by blast

lemma conserved_same: "vp (pages s1) g = vp (pages s) g \<Longrightarrow> conserved xs ys g s1 s2 = conserved xs ys g s s2"
  by (simp add: conserved_def aspace_def)

lemma aspace_upd: "vp m g i = None \<Longrightarrow> vp m' g = (vp m g)(i := Some v) \<Longrightarrow> aspace m' g = insert v (aspace m g)"
  unfolding aspace_def by (auto split: if_splits) (metis option.distinct(1))

text \<open>\<open>walkpgdir\<close> with \<open>alloc\<close>: the entry exists afterwards, and no translation has changed.\<close>

definition walked :: "nat list \<Rightarrow> nat list \<Rightarrow> nat \<Rightarrow> 'a kmemst_scheme \<Rightarrow> 'a kmemst_scheme \<Rightarrow> bool" where
  "walked xs ys g s s' \<longleftrightarrow> memonly s s' \<and> vm_wf ys g s' \<and> conserved xs ys g s s' \<and> (ys = xs \<or> (\<exists>x. xs = x # ys))
     \<and> (\<forall>c<1024. \<forall>u<1024. pte_at (pages s') g c u = pte_at (pages s) g c u)
     \<and> (\<forall>v. v \<notin> set xs \<longrightarrow> notab (pages s) g v \<longrightarrow> pages s' v = pages s v \<and> notab (pages s') g v)
     \<and> (\<forall>v. v \<notin> set xs \<longrightarrow> (\<forall>j. vp (pages s) g j \<noteq> Some v) \<longrightarrow> (\<forall>j. vp (pages s') g j \<noteq> Some v))"

lemma walkpgdir_present:
  "odd (pde_at (pages s) g (PDX a)) \<Longrightarrow> walkpgdir g a al s = Ok (Some (P2V (PTE_ADDR (pde_at (pages s) g (PDX a))), PTX a), s)"
  by (simp add: walkpgdir_def get_pte_def pde_at_def odd_iff_mod_2_eq_one Let_def)

lemma walkpgdir_absent: "even (pde_at (pages s) g (PDX a)) \<Longrightarrow> walkpgdir g a False s = Ok (None, s)"
  by (simp add: walkpgdir_def get_pte_def pde_at_def PTE_P_odd Let_def)

lemma walkpgdir_alloc:
  assumes w: "vm_wf xs g s"
  shows "(\<exists>s' ys. walkpgdir g a True s = Ok (Some (P2V (PTE_ADDR (pde_at (pages s') g (PDX a))), PTX a), s')
      \<and> odd (pde_at (pages s') g (PDX a)) \<and> walked xs ys g s s')
    \<or> (xs = [] \<and> walkpgdir g a True s = Ok (None, s))"
proof (cases "odd (pde_at (pages s) g (PDX a))")
  case True
  then show ?thesis using walkpgdir_present w by (fastforce simp: walked_def memonly_simps)
next
  case False
  let ?d = "PDX a"
  have d: "?d < 1024" by (simp add: PDX_PTX)
  have ev: "get_pte (g, ?d) s AND PTE_P = 0" using False by (simp add: get_pte_def pde_at_def PTE_P_odd)
  show ?thesis
  proof (cases xs)
    case Nil
    then have "kalloc s = Ok (0, s)" using kalloc_empty vm_wfD(1) [OF w] by blast
    then show ?thesis using Nil ev by (simp add: walkpgdir_def Let_def)
  next
    case (Cons x ys)
    obtain s1 where s1: "kalloc s = Ok (x, s1)" "x \<noteq> 0" "memonly s s1" "pages s1 = pages s" "vm_wf ys g s1"
        "page_ok s1 x" "x \<notin> set ys" "\<And>j. vp (pages s1) g j \<noteq> Some x"
      using take_page w Cons by blast
    let ?s = "put_pte (g, ?d) (V2P x OR PTE_P OR PTE_W OR PTE_U) (fill_page x (replicate PGSIZE 0) s1)"
    have or7: "V2P x OR PTE_P OR PTE_W OR PTE_U = V2P x OR 7" by simp
    have pg: "pages ?s = ((pages s1)(x := replicate PGSIZE 0))(g := put_cell (((pages s1)(x := replicate PGSIZE 0)) g) ?d (V2P x OR 7))"
      by (simp add: put_pte_def fill_page_def or7)
    have ev1: "even (pde_at (pages s1) g ?d)" using False s1(4) by simp
    note N = new_table [OF s1(5) d ev1 s1(6,8), folded pg]
    have nt: "notab (pages s1) g x" by (rule notab_vp) (rule s1(8))
    have same: "pages ?s v = pages s v" if "v \<noteq> g" "v \<noteq> x" for v using that unfolding pg s1(4) by simp
    have e: "walkpgdir g a True s = Ok (Some (x, PTX a), ?s)" using ev s1(1,2) by (simp add: walkpgdir_def Let_def)
    have gx: "g \<notin> set ys" using vm_wfD(6) [OF s1(5), of VDir g] by simp
    have "kmem_inv ys (fill_page x (replicate PGSIZE 0) s1)"
      by (rule vm_wfD(1), rule vm_wf_fill [OF s1(5) nt s1(7)]) simp
    then have "kmem_inv ys ?s" by (rule kmem_inv_put [OF _ gx d])
    moreover have "memonly s1 ?s" by (rule memonly_trans) (rule memonly_simps)+
    ultimately have w1: "vm_wf ys g ?s" "memonly s ?s"
      using vm_wf_add [OF s1(5) _ _ _ N(5) s1(6,7,8)] memonlyD(2) memonly_trans [OF s1(3)] by blast+
    have "notab (pages ?s) g v" if v: "v \<notin> set xs" "notab (pages s) g v" for v
      using v N(1,2) Cons unfolding notab_def s1(4) by (metis list.set_intros(1))
    moreover have "vp (pages ?s) g j \<noteq> Some v" if "v \<notin> set xs" "\<forall>j. vp (pages s) g j \<noteq> Some v" for v j
      using that Cons unfolding N(5) s1(4) by auto
    moreover have "vp (pages s) g (VTab ?d) = None" using False by simp
    then have "aspace (pages ?s) g = insert x (aspace (pages s) g)" "conserved xs ys g s ?s"
      using aspace_upd [of "pages s" g "VTab ?d" "pages ?s" x] N(5) Cons unfolding s1(4) by (auto simp: conserved_def simp del: vp.simps)
    ultimately have "walked xs ys g s ?s"
      unfolding walked_def using w1 Cons N(4) same s1(4) by (auto simp: notab_def)
    then show ?thesis using N(3) by (intro disjI1 exI [of _ ?s] exI [of _ ys] conjI) (simp_all only: N(2) e not_False_eq_True)
  qed
qed

text \<open>One page of \<open>mappages\<close>.\<close>

lemma mappages_one:
  assumes "a mod PGSIZE = 0" "a < KERNBASE"
  shows "mappages g a PGSIZE pa perm s = mappages_loop 0 g a pa perm s"
proof -
  have "PGROUNDDOWN a = a" using assms(1) by (auto simp: PGROUNDDOWN_def)
  moreover have "u32 (a + PGSIZE + 2 ^ 32 - 1) = a + 4095" using assms(2) by (simp add: u32_def mod_if)
  moreover have "PGROUNDDOWN (a + 4095) = a" using assms(1) by (auto simp: PGROUNDDOWN_def elim!: dvdE simp: mod_eq_0_iff_dvd)
  moreover have "u32 (a + 2 ^ 32 - a) = 0" by (simp add: u32_def)
  ultimately show ?thesis by (simp add: mappages_def Let_def)
qed

lemma map_page:
  assumes w: "vm_wf xs g s" and a: "a mod PGSIZE = 0" "a < KERNBASE" and un: "even (pte_at (pages s) g (PDX a) (PTX a))"
    and y: "page_ok s y" "y \<notin> set xs" "\<And>j. vp (pages s) g j \<noteq> Some y" and p: "perm < 4096"
  shows "(\<exists>s' ys. mappages g a PGSIZE (V2P y) perm s = Ok (0, s') \<and> memonly s s' \<and> vm_wf ys g s' \<and> conserved (y # xs) ys g s s' \<and> (ys = xs \<or> (\<exists>x. xs = x # ys))
      \<and> (\<forall>c<1024. \<forall>u<1024. pte_at (pages s') g c u = (if c = PDX a \<and> u = PTX a then V2P y OR perm OR PTE_P else pte_at (pages s) g c u))
      \<and> (\<forall>v. v \<notin> set xs \<longrightarrow> notab (pages s) g v \<longrightarrow> pages s' v = pages s v \<and> notab (pages s') g v))
    \<or> (xs = [] \<and> mappages g a PGSIZE (V2P y) perm s = Ok (-1, s))"
  using walkpgdir_alloc [OF w, of a]
proof (elim disjE exE conjE)
  assume "xs = []" "walkpgdir g a True s = Ok (None, s)"
  then show ?thesis by (simp add: mappages_one [OF a] mappages_loop.simps)
next
  fix s1 ys assume wk: "walkpgdir g a True s = Ok (Some (P2V (PTE_ADDR (pde_at (pages s1) g (PDX a))), PTX a), s1)"
    and d: "odd (pde_at (pages s1) g (PDX a))" and W: "walked xs ys g s s1"
  let ?T = "P2V (PTE_ADDR (pde_at (pages s1) g (PDX a)))" and ?e = "V2P y OR perm OR PTE_P"
  let ?s = "put_pte (?T, PTX a) ?e s1"
  have w1: "vm_wf ys g s1" and m1: "memonly s s1" and ys: "ys = xs \<or> (\<exists>x. xs = x # ys)" using W by (simp_all add: walked_def)
  have ix: "PDX a < 1024" "PDX a < 512" "PTX a < 1024" using a(2) by (simp_all add: PDX_PTX)
  have y1: "page_ok s1 y" "y \<notin> set ys" "\<And>j. vp (pages s1) g j \<noteq> Some y"
    using y ys W memonlyD(3) [OF m1] by (auto simp: walked_def)
  have f: "perm OR PTE_P < 4096" "odd (perm OR PTE_P)"
  proof -
    show "odd (perm OR PTE_P)" by (simp add: even_or_iff)
    have "\<not> bit (perm OR PTE_P) n" if "12 \<le> n" for n
      using nat_bit_large [of perm 12 n] p that by (auto simp: bit_simps)
    then have "take_bit 12 (perm OR PTE_P) = perm OR PTE_P" by (intro bit_eqI) (auto simp: bit_simps, metis not_le)
    then show "perm OR PTE_P < 4096" using take_bit_nat_less_exp [of 12 "perm OR PTE_P"] by (simp only:) simp
  qed
  note E = entry [OF y1(1) f]
  have pt: "pte_at (pages s1) g (PDX a) (PTX a) = pte_at (pages s) g (PDX a) (PTX a)" using W ix by (simp add: walked_def)
  then have ev: "even (get_pte (?T, PTX a) s1)" using un d by (simp add: pte_at_def get_pte_def)
  have pg: "pages ?s = (pages s1)(?T := put_cell (pages s1 ?T) (PTX a) ?e)" by (simp add: put_pte_def)
  note U = upd_entry [OF w1 ix(1) d ix(3) E(4), folded pg]
  note T = table_page [OF w1 ix(1) d]
  have mp: "mappages g a PGSIZE (V2P y) perm s = Ok (0, ?s)"
    using wk ev by (simp add: mappages_one [OF a] mappages_loop.simps PTE_P_odd Let_def even_iff_mod_2_eq_zero)
  have k: "kmem_inv ys ?s" by (rule kmem_inv_put [OF vm_wfD(1) [OF w1] T(3) ix(3)])
  have m: "memonly s1 ?s" by (rule memonly_simps)
  have vy: "vp (pages ?s) g = (vp (pages s1) g)(VUsr (PDX a) (PTX a) := Some y)" using U(3) [OF ix(2)] E(1,2) by simp
  have "vp (pages s1) g (VUsr (PDX a) (PTX a)) = None" using un pt by simp
  then have "aspace (pages ?s) g = insert y (aspace (pages s1) g)" by (rule aspace_upd [OF _ vy])
  then have "conserved (y # xs) ys g s ?s"
    using W vy unfolding walked_def conserved_def by (auto simp del: vp.simps)
  moreover from vy have "vm_wf ys g ?s" by (rule vm_wf_add [OF w1 k memonlyD(2) [OF m] subset_refl _ y1])
  moreover have "pages ?s v = pages s v \<and> notab (pages ?s) g v" if "v \<notin> set xs" "notab (pages s) g v" for v
  proof -
    have v: "pages s1 v = pages s v" "notab (pages s1) g v" using W that by (auto simp: walked_def)
    then have "notab (pages ?s) g v" unfolding notab_def U(1) by blast
    then show ?thesis using v d ix(1) unfolding pg by (auto simp: notab_def)
  qed
  moreover have "pte_at (pages ?s) g c u = (if c = PDX a \<and> u = PTX a then ?e else pte_at (pages s) g c u)" if "c < 1024" "u < 1024" for c u
    using U(2) [OF that] W that by (simp add: walked_def)
  ultimately show ?thesis using mp memonly_trans [OF m1 m] ys by (intro disjI1 exI [of _ ?s] exI [of _ ys]) blast
qed

section \<open>Unmapping pages\<close>

lemma vm_wf_drop:
  assumes w: "vm_wf xs g s" and k: "kmem_inv (v # xs) s'" "kern_end s' = kern_end s"
    and v: "vp (pages s') g = (vp (pages s) g)(i := None)" "vp (pages s) g i = Some v"
  shows "vm_wf (v # xs) g s'"
  unfolding vm_wf_def
proof (intro conjI allI impI)
  have pk: "page_ok s' u = page_ok s u" for u using k(2) by (simp add: page_ok_def)
  fix j u assume "vp (pages s') g j = Some u"
  then have j: "j \<noteq> i" "vp (pages s) g j = Some u" using v(1) by (auto split: if_splits)
  then show "page_ok s' u" "u \<notin> set (v # xs)" using vm_wfD(5,6) [OF w j(2)] vm_wfD(7) [OF w v(2), of j] by (auto simp: pk)
next
  fix j l u assume "vp (pages s') g j = Some u" "vp (pages s') g l = Some u"
  then show "j = l" using v(1) vm_wfD(7) [OF w] by (auto split: if_splits)
qed (rule k(1))

lemma unmap_page:
  assumes w: "vm_wf xs g s" and d: "d < 512" "odd (pde_at (pages s) g d)" and t: "t < 1024" "odd (pte_at (pages s) g d t)"
  defines "T \<equiv> P2V (PTE_ADDR (pde_at (pages s) g d))" and "v \<equiv> P2V (PTE_ADDR (pte_at (pages s) g d t))"
  shows "\<exists>s'. rbind (kfree v s) (\<lambda>s. Ok (put_pte (T, t) 0 s)) = Ok s' \<and> memonly s s' \<and> vm_wf (v # xs) g s'
    \<and> (\<forall>c<1024. \<forall>u<1024. pte_at (pages s') g c u = (if c = d \<and> u = t then 0 else pte_at (pages s) g c u))
    \<and> (\<forall>u. u \<noteq> v \<longrightarrow> notab (pages s) g u \<longrightarrow> pages s' u = pages s u \<and> notab (pages s') g u) \<and> pages s' g = pages s g"
proof -
  have d1: "d < 1024" using d(1) by simp
  have i: "vp (pages s) g (VUsr d t) = Some v" using d t by (simp add: v_def)
  note T = table_page [OF w d1 d(2), folded T_def]
  have vT: "v \<noteq> T" using notab_user [OF w i] d1 d(2) by (auto simp: notab_def T_def)
  have v: "page_ok s v" "v \<notin> set xs" using vm_wfD(5,6) [OF w i] .
  let ?c = "put_u32 (replicate PGSIZE 1) 0 (kmem_freelist s)"
  let ?s1 = "s\<lparr>pages := (pages s)(v := ?c), kmem_freelist := v\<rparr>"
  let ?s = "put_pte (T, t) 0 ?s1"
  let ?m = "(pages s)(T := put_cell (pages s T) t 0)"
  have kf: "kfree v s = Ok ?s1" using v(1) vm_wfD(2) [OF w] by (intro kfree_eq) (auto simp: page_ok_def)
  have pg: "pages ?s = ?m(v := ?c)" using vT by (auto simp: put_pte_def)
  note U = upd_entry [OF w d1 d(2) t(1), of 0, folded T_def, simplified]
  have nt: "notab ?m g u = notab (pages s) g u" for u by (simp add: notab_def U(1))
  have ntv: "notab ?m g v" using notab_user [OF w i] nt by simp
  note Q = upd_page [OF ntv, where c = ?c, folded pg]
  have "kmem_inv (v # xs) ?s1" using kfree_inv [OF vm_wfD(1) [OF w] v] kf by auto
  then have k: "kmem_inv (v # xs) ?s" by (rule kmem_inv_put) (use T(3) vT t(1) in auto)
  have m: "memonly s ?s" unfolding memonly_def
    by (rule exI [of _ v], rule exI [of _ "pages ?s"]) (simp add: put_pte_def)
  have "vm_wf (v # xs) g ?s" using vm_wf_drop [OF w k memonlyD(2) [OF m] _ i] Q(3) U(3) d(1) by simp
  moreover have "pte_at (pages ?s) g c u = (if c = d \<and> u = t then 0 else pte_at (pages s) g c u)" if "c < 1024" "u < 1024" for c u
    using Q(2) [OF that(1)] U(2) [OF that] by simp
  moreover have "pages ?s u = pages s u \<and> notab (pages ?s) g u" if "u \<noteq> v" "notab (pages s) g u" for u
  proof -
    have "u \<noteq> T" using that(2) d1 d(2) by (auto simp: notab_def T_def)
    moreover have "notab (pages ?s) g u" using that(2) nt [of u] by (simp add: notab_def Q(1))
    ultimately show ?thesis using that(1) unfolding pg by simp
  qed
  moreover have "pages ?s g = pages s g" using T(2) notab_user [OF w i] unfolding pg by (auto simp: notab_def)
  ultimately show ?thesis using kf m by (intro exI [of _ ?s]) simp
qed

text \<open>The address of the page with indices \<open>c\<close> and \<open>u\<close>.\<close>

definition uva :: "nat \<Rightarrow> nat \<Rightarrow> nat" where
  "uva c u = c * 2 ^ 22 + u * 4096"

lemma uva_index:
  "c < 1024 \<Longrightarrow> u < 1024 \<Longrightarrow> PDX (uva c u) = c \<and> PTX (uva c u) = u"
  "a mod PGSIZE = 0 \<Longrightarrow> a < 2 ^ 32 \<Longrightarrow> uva (PDX a) (PTX a) = a"
  "a mod PGSIZE = 0 \<Longrightarrow> a < 2 ^ 32 \<Longrightarrow> c < 1024 \<Longrightarrow> u < 1024 \<Longrightarrow> c = PDX a \<and> u = PTX a \<longleftrightarrow> uva c u = a"
proof -
  show i: "PDX (uva c u) = c \<and> PTX (uva c u) = u" if "c < 1024" "u < 1024" for c u
  proof -
    have "uva c u = 4096 * (1024 * c + u)" by (simp add: uva_def)
    then have "uva c u div 4096 = 1024 * c + u" by simp
    moreover have "uva c u div 2 ^ 22 = uva c u div 4096 div 1024" by (simp add: div_mult2_eq)
    ultimately show ?thesis using that by (simp add: PDX_PTX)
  qed
  show r: "uva (PDX a) (PTX a) = a" if al: "a mod PGSIZE = 0" and "a < 2 ^ 32"
  proof -
    obtain k where k: "a = 4096 * k" using al by (auto simp: mod_eq_0_iff_dvd)
    have "a div 2 ^ 22 = k div 1024" using k by (simp add: div_mult2_eq [of a 4096 1024, simplified])
    moreover have "k div 1024 < 1024" using that(2) k by simp
    ultimately show ?thesis using k by (simp add: uva_def PDX_PTX) (use div_mult_mod_eq [of k 1024] in linarith)
  qed
  show "a mod PGSIZE = 0 \<Longrightarrow> a < 2 ^ 32 \<Longrightarrow> c < 1024 \<Longrightarrow> u < 1024 \<Longrightarrow> c = PDX a \<and> u = PTX a \<longleftrightarrow> uva c u = a"
    by (metis i r)
qed

text \<open>
  The pages with addresses in \<open>[a, b)\<close> have been unmapped and are at the front of the free list;
  nothing else has changed.
\<close>

definition range_pages_of :: "(nat \<Rightarrow> bytes) \<Rightarrow> nat \<Rightarrow> nat \<Rightarrow> nat \<Rightarrow> nat set" where
  "range_pages_of m g a b = {v. \<exists>c u. a \<le> uva c u \<and> uva c u < b \<and> vp m g (VUsr c u) = Some v}"

definition unmapped :: "nat \<Rightarrow> nat \<Rightarrow> nat list \<Rightarrow> nat list \<Rightarrow> nat \<Rightarrow> 'a kmemst_scheme \<Rightarrow> 'a kmemst_scheme \<Rightarrow> bool" where
  "unmapped a b zs xs g s s' \<longleftrightarrow> memonly s s' \<and> vm_wf (zs @ xs) g s' \<and> set zs = range_pages_of (pages s) g a b
     \<and> (\<forall>c<1024. \<forall>u<1024. pte_at (pages s') g c u =
          (if a \<le> uva c u \<and> uva c u < b \<and> odd (pte_at (pages s) g c u) then 0 else pte_at (pages s) g c u))
     \<and> (\<forall>v. v \<notin> set zs \<longrightarrow> notab (pages s) g v \<longrightarrow> pages s' v = pages s v \<and> notab (pages s') g v) \<and> pages s' g = pages s g"

lemma vp_usr_cong:
  "(\<And>c u. c < 1024 \<Longrightarrow> u < 1024 \<Longrightarrow> P c u \<Longrightarrow> pte_at m' g c u = pte_at m g c u) \<Longrightarrow> P c u \<Longrightarrow> vp m' g (VUsr c u) = vp m g (VUsr c u)"
  by (auto cong: conj_cong)

lemma unmapped_trans:
  assumes 1: "unmapped a m zs xs g s s1" and 2: "unmapped m b ys (zs @ xs) g s1 s2" and "a \<le> m" "m \<le> b"
  shows "unmapped a b (ys @ zs) xs g s s2"
proof -
  have p1: "pte_at (pages s1) g c u = (if a \<le> uva c u \<and> uva c u < m \<and> odd (pte_at (pages s) g c u) then 0 else pte_at (pages s) g c u)"
    if "c < 1024" "u < 1024" for c u using 1 that by (simp add: unmapped_def)
  have p2: "pte_at (pages s2) g c u = (if m \<le> uva c u \<and> uva c u < b \<and> odd (pte_at (pages s1) g c u) then 0 else pte_at (pages s1) g c u)"
    if "c < 1024" "u < 1024" for c u using 2 that by (simp add: unmapped_def)
  have same: "vp (pages s1) g (VUsr c u) = vp (pages s) g (VUsr c u)" if "m \<le> uva c u" for c u
    by (rule vp_usr_cong [where P = "\<lambda>c u. m \<le> uva c u"]) (use p1 that in auto)
  have k: "(a \<le> x \<and> x < b \<and> Q) = ((a \<le> x \<and> x < m \<and> Q) \<or> (m \<le> x \<and> x < b \<and> Q))" for x Q using assms(3,4) by auto
  have "range_pages_of (pages s1) g m b = range_pages_of (pages s) g m b"
    unfolding range_pages_of_def by (rule Collect_cong, rule ex_cong1, rule ex_cong1) (metis same)
  moreover have "range_pages_of (pages s) g a b = range_pages_of (pages s) g a m \<union> range_pages_of (pages s) g m b"
    unfolding range_pages_of_def k by blast
  ultimately have "set (ys @ zs) = range_pages_of (pages s) g a b" using 1 2 by (auto simp: unmapped_def)
  moreover have "pte_at (pages s2) g c u = (if a \<le> uva c u \<and> uva c u < b \<and> odd (pte_at (pages s) g c u) then 0 else pte_at (pages s) g c u)"
    if "c < 1024" "u < 1024" for c u using p1 [OF that] p2 [OF that] assms(3,4) by auto
  moreover have "memonly s s2" using 1 2 memonly_trans by (auto simp: unmapped_def)
  moreover have "pages s2 v = pages s v \<and> notab (pages s2) g v" if "v \<notin> set (ys @ zs)" "notab (pages s) g v" for v
    using that 1 2 by (auto simp: unmapped_def)
  moreover have "pages s2 g = pages s g" using 1 2 by (simp add: unmapped_def)
  ultimately show ?thesis using 2 by (simp add: unmapped_def)
qed

lemma unmapped_nothing:
  assumes "vm_wf xs g s" "\<And>c u. c < 1024 \<Longrightarrow> u < 1024 \<Longrightarrow> a \<le> uva c u \<Longrightarrow> uva c u < b \<Longrightarrow> even (pte_at (pages s) g c u)"
  shows "unmapped a b [] xs g s s"
proof -
  have "range_pages_of (pages s) g a b = {}" using assms(2) by (auto simp: range_pages_of_def split: if_splits)
  then show ?thesis using assms by (auto simp: unmapped_def memonly_simps)
qed

lemma page_index:
  assumes "a mod PGSIZE = 0" "a < 2 ^ 32" "c < 1024" "u < 1024"
  shows "a \<le> uva c u \<and> uva c u < a + PGSIZE \<longleftrightarrow> c = PDX a \<and> u = PTX a"
proof -
  obtain k where "a = 4096 * k" using assms(1) by (auto simp: mod_eq_0_iff_dvd)
  moreover obtain j where "uva c u = 4096 * j" by (rule that [of "1024 * c + u"]) (simp add: uva_def)
  ultimately have "a \<le> uva c u \<and> uva c u < a + PGSIZE \<longleftrightarrow> uva c u = a" by auto
  then show ?thesis using uva_index(3) [OF assms] by blast
qed

lemma unmapped_one:
  assumes w: "vm_wf xs g s" and a: "a mod PGSIZE = 0" "a < KERNBASE" and d: "odd (pde_at (pages s) g (PDX a))"
    and t: "odd (pte_at (pages s) g (PDX a) (PTX a))"
  defines "T \<equiv> P2V (PTE_ADDR (pde_at (pages s) g (PDX a)))" and "v \<equiv> P2V (PTE_ADDR (pte_at (pages s) g (PDX a) (PTX a)))"
  shows "\<exists>s'. rbind (kfree v s) (\<lambda>s. Ok (put_pte (T, PTX a) 0 s)) = Ok s' \<and> unmapped a (a + PGSIZE) [v] xs g s s'"
proof -
  have ix: "PDX a < 512" "PTX a < 1024" and a32: "a < 2 ^ 32" using a(2) by (simp_all add: PDX_PTX)
  note one = page_index [OF a(1) a32]
  obtain s' where s': "rbind (kfree v s) (\<lambda>s. Ok (put_pte (T, PTX a) 0 s)) = Ok s'" "memonly s s'" "vm_wf (v # xs) g s'"
      "\<forall>c<1024. \<forall>u<1024. pte_at (pages s') g c u = (if c = PDX a \<and> u = PTX a then 0 else pte_at (pages s) g c u)"
      "\<forall>u. u \<noteq> v \<longrightarrow> notab (pages s) g u \<longrightarrow> pages s' u = pages s u \<and> notab (pages s') g u" "pages s' g = pages s g"
    using unmap_page [OF w ix(1) d ix(2) t] unfolding T_def v_def by (elim exE conjE)
  have "range_pages_of (pages s) g a (a + PGSIZE) = {v}"
  proof (intro set_eqI iffI)
    fix x assume "x \<in> range_pages_of (pages s) g a (a + PGSIZE)"
    then obtain c u where c: "a \<le> uva c u" "uva c u < a + PGSIZE" "vp (pages s) g (VUsr c u) = Some x" by (auto simp: range_pages_of_def)
    then have "c < 1024" "u < 1024" by (auto split: if_splits)
    then have "c = PDX a \<and> u = PTX a" using one c by blast
    then show "x \<in> {v}" using c(3) by (simp add: v_def split: if_splits)
  next
    fix x assume "x \<in> {v}"
    then have "vp (pages s) g (VUsr (PDX a) (PTX a)) = Some x" using ix t by (simp add: v_def)
    moreover have "a \<le> uva (PDX a) (PTX a) \<and> uva (PDX a) (PTX a) < a + PGSIZE" using one [of "PDX a" "PTX a"] ix by simp
    ultimately show "x \<in> range_pages_of (pages s) g a (a + PGSIZE)" unfolding range_pages_of_def by blast
  qed
  moreover have "pte_at (pages s') g c u = (if a \<le> uva c u \<and> uva c u < a + PGSIZE \<and> odd (pte_at (pages s) g c u) then 0 else pte_at (pages s) g c u)"
    if "c < 1024" "u < 1024" for c u using s'(4) that one [OF that] t by auto
  ultimately show ?thesis using s' by (intro exI [of _ s']) (simp add: unmapped_def)
qed

lemma PGADDR_next: "a < KERNBASE \<Longrightarrow> PGADDR (PDX a + 1) 0 0 = (a div 2 ^ 22 + 1) * 2 ^ 22"
  by (simp add: PGADDR_def PDX_PTX push_bit_eq_mult u32_def)

lemma unmapped_cong:
  assumes "unmapped a b zs xs g s s'"
    "\<And>c u. c < 1024 \<Longrightarrow> u < 1024 \<Longrightarrow> odd (pte_at (pages s) g c u) \<Longrightarrow> a \<le> uva c u \<Longrightarrow> (uva c u < b) = (uva c u < b')"
  shows "unmapped a b' zs xs g s s'"
proof -
  have "range_pages_of (pages s) g a b = range_pages_of (pages s) g a b'"
    unfolding range_pages_of_def
  proof (rule Collect_cong, rule ex_cong1, rule ex_cong1)
    fix v c u
    show "(a \<le> uva c u \<and> uva c u < b \<and> vp (pages s) g (VUsr c u) = Some v) = (a \<le> uva c u \<and> uva c u < b' \<and> vp (pages s) g (VUsr c u) = Some v)"
      using assms(2) [of c u] by (auto split: if_splits)
  qed
  then show ?thesis using assms unfolding unmapped_def by auto
qed

lemma dealloc_loop:
  assumes "vm_wf xs g s" "a mod PGSIZE = 0" "oldsz \<le> KERNBASE" "KERNBASE < kern_end s"
  shows "\<exists>s' zs. deallocuvm_loop g a oldsz s = Ok s' \<and> unmapped a oldsz zs xs g s s'"
  using assms
proof (induction "oldsz - a" arbitrary: a xs s rule: less_induct)
  case less
  note w = less.prems(1) and al = less.prems(2)
  show ?case
  proof (cases "a < oldsz")
    case False
    then have "deallocuvm_loop g a oldsz s = Ok s" by (simp add: deallocuvm_loop.simps)
    moreover have "unmapped a oldsz [] xs g s s" using False by (intro unmapped_nothing [OF w]) simp
    ultimately show ?thesis by blast
  next
    case lt: True
    then have a: "a < KERNBASE" "PDX a < 1024" "PTX a < 1024" "PDX a = a div 2 ^ 22" using less.prems(3) by (simp_all add: PDX_PTX)
    have step: "\<exists>s' zs'. deallocuvm_loop g a' oldsz s1 = Ok s' \<and> unmapped a oldsz (zs' @ zs) xs g s s'"
      if ga: "a < a'" and al': "a' mod PGSIZE = 0" and um: "unmapped a a' zs xs g s s1"
        and en: "\<And>c u. c < 1024 \<Longrightarrow> u < 1024 \<Longrightarrow> odd (pte_at (pages s) g c u) \<Longrightarrow> a \<le> uva c u \<Longrightarrow> uva c u < a' \<Longrightarrow> uva c u < oldsz" for a' zs s1
    proof -
      have w1: "vm_wf (zs @ xs) g s1" and m1: "memonly s s1" using um by (simp_all add: unmapped_def)
      have k1: "KERNBASE < kern_end s1" using less.prems(4) memonlyD(2) [OF m1] by simp
      obtain s' zs' where s': "deallocuvm_loop g a' oldsz s1 = Ok s'" "unmapped a' oldsz zs' (zs @ xs) g s1 s'"
        using less.hyps [OF _ w1 al' less.prems(3) k1] ga lt by fastforce
      have "unmapped a oldsz (zs' @ zs) xs g s s'"
      proof (cases "a' \<le> oldsz")
        case True
        then show ?thesis using unmapped_trans [OF um s'(2)] ga by simp
      next
        case False
        then have "deallocuvm_loop g a' oldsz s1 = Ok s1" by (simp add: deallocuvm_loop.simps)
        then have e: "s' = s1" using s'(1) by simp
        have "range_pages_of (pages s1) g a' oldsz = {}" using False by (auto simp: range_pages_of_def)
        then have "zs' = []" using s'(2) by (simp add: unmapped_def)
        moreover have "unmapped a oldsz zs xs g s s1"
        proof (rule unmapped_cong [OF um])
          fix c u assume "c < 1024" "u < 1024" "odd (pte_at (pages s) g c u)" "a \<le> uva c u"
          then have "uva c u < a' \<Longrightarrow> uva c u < oldsz" by (rule en)
          then show "(uva c u < a') = (uva c u < oldsz)" using False by auto
        qed
        ultimately show ?thesis using e by simp
      qed
      then show ?thesis using s'(1) by blast
    qed
    show ?thesis
    proof (cases "odd (pde_at (pages s) g (PDX a))")
      case False
      let ?a = "PGADDR (PDX a + 1) 0 0"
      have e: "?a = (a div 2 ^ 22 + 1) * 2 ^ 22" by (rule PGADDR_next [OF a(1)])
      have gt: "a < ?a" unfolding e using dividend_less_div_times [of "2 ^ 22" a] by simp
      have none: "even (pte_at (pages s) g c u)" if "c < 1024" "u < 1024" "a \<le> uva c u" "uva c u < ?a" for c u
      proof -
        have "uva c u div 2 ^ 22 = c" using that(2) by (simp add: uva_def)
        moreover have "a div 2 ^ 22 \<le> uva c u div 2 ^ 22" by (rule div_le_mono [OF that(3)])
        moreover have "uva c u div 2 ^ 22 < a div 2 ^ 22 + 1" using that(4) unfolding e by (rule less_mult_imp_div_less)
        ultimately have "c = PDX a" using a(4) by simp
        then show ?thesis using False by (simp add: pte_at_def)
      qed
      have l: "deallocuvm_loop g a oldsz s = deallocuvm_loop g ?a oldsz s"
        using lt False gt walkpgdir_absent [of s g a] by (subst deallocuvm_loop.simps) (simp add: Let_def)
      have al2: "?a mod PGSIZE = 0" unfolding e by simp
      have "\<exists>s' zs'. deallocuvm_loop g ?a oldsz s = Ok s' \<and> unmapped a oldsz (zs' @ []) xs g s s'"
        by (rule step [OF gt al2 unmapped_nothing [OF w none]]) (use none in blast)+
      then show ?thesis unfolding l by auto
    next
      case pd: True
      let ?T = "P2V (PTE_ADDR (pde_at (pages s) g (PDX a)))" and ?e = "pte_at (pages s) g (PDX a) (PTX a)"
      have a32: "a < 2 ^ 32" and nx: "u32 (a + PGSIZE) = a + PGSIZE" "a < a + PGSIZE" "(a + PGSIZE) mod PGSIZE = 0"
        using a(1) al by (simp_all add: u32_def)
      have en: "uva c u < oldsz" if "c < 1024" "u < 1024" "a \<le> uva c u" "uva c u < a + PGSIZE" for c u
        using page_index [OF al a32 that(1,2)] that uva_index(2) [OF al a32] lt by simp
      have ge: "get_pte (?T, PTX a) s = ?e" using pd by (simp add: get_pte_def pte_at_def)
      show ?thesis
      proof (cases "odd ?e")
        case False
        have "unmapped a (a + PGSIZE) [] xs g s s"
          by (rule unmapped_nothing [OF w]) (use False page_index [OF al a32] in blast)
        moreover have "deallocuvm_loop g a oldsz s = deallocuvm_loop g (a + PGSIZE) oldsz s"
          using lt False ge nx walkpgdir_present [OF pd] by (subst deallocuvm_loop.simps) (simp add: even_iff_mod_2_eq_zero)
        ultimately show ?thesis using step [OF nx(2,3) _ en, of "[]" s] by auto
      next
        case True
        let ?v = "P2V (PTE_ADDR ?e)"
        have "vp (pages s) g (VUsr (PDX a) (PTX a)) = Some ?v" using True a by (simp add: PDX_PTX)
        then have "page_ok s ?v" by (rule vm_wfD(5) [OF w])
        then have nz: "PTE_ADDR ?e \<noteq> 0" using less.prems(4) by (auto simp: page_ok_def P2V_def u32_def)
        obtain s1 where s1: "rbind (kfree ?v s) (\<lambda>s. Ok (put_pte (?T, PTX a) 0 s)) = Ok s1" "unmapped a (a + PGSIZE) [?v] xs g s s1"
          using unmapped_one [OF w al a(1) pd True] by (elim exE conjE) (rule that)
        have "deallocuvm_loop g a oldsz s = deallocuvm_loop g (a + PGSIZE) oldsz s1"
          using lt True ge nz nx s1(1) walkpgdir_present [OF pd] by (subst deallocuvm_loop.simps) (auto simp: odd_iff_mod_2_eq_one Let_def)
        then show ?thesis using step [OF nx(2,3) s1(2) en] by auto
      qed
    qed
  qed
qed

section \<open>Growing an address space\<close>

text \<open>The pages with addresses in \<open>[a, b)\<close> have been mapped to zeroed pages of the free list.\<close>

definition mapped :: "nat \<Rightarrow> nat \<Rightarrow> nat list \<Rightarrow> nat list \<Rightarrow> nat \<Rightarrow> 'a kmemst_scheme \<Rightarrow> 'a kmemst_scheme \<Rightarrow> bool" where
  "mapped a b xs ys g s s' \<longleftrightarrow> memonly s s' \<and> vm_wf ys g s' \<and> conserved xs ys g s s' \<and> set ys \<subseteq> set xs
     \<and> (\<forall>c<1024. \<forall>u<1024. if a \<le> uva c u \<and> uva c u < b
          then \<exists>v\<in>set xs. pte_at (pages s') g c u = V2P v OR 7 \<and> pages s' v = replicate PGSIZE 0
          else pte_at (pages s') g c u = pte_at (pages s) g c u)
     \<and> (\<forall>v. v \<notin> set xs \<longrightarrow> notab (pages s) g v \<longrightarrow> pages s' v = pages s v \<and> notab (pages s') g v)"

text \<open>One round of \<open>allocuvm\<close>: a page is taken, zeroed and mapped.\<close>

lemma alloc_page:
  assumes w: "vm_wf (y # xs) g s" and a: "a mod PGSIZE = 0" "a < KERNBASE" and un: "pte_at (pages s) g (PDX a) (PTX a) = 0"
  obtains s1 where "kalloc s = Ok (y, s1)" "y \<noteq> 0" "memonly s s1" "pages s1 = pages s"
    "vm_wf xs g (fill_page y (replicate PGSIZE 0) s1)" "page_ok s1 y" "y \<notin> set xs" "\<And>j. vp (pages (fill_page y (replicate PGSIZE 0) s1)) g j \<noteq> Some y"
    "vp (pages (fill_page y (replicate PGSIZE 0) s1)) g = vp (pages s) g"
    "\<And>c u. c < 1024 \<Longrightarrow> pte_at (pages (fill_page y (replicate PGSIZE 0) s1)) g c u = pte_at (pages s) g c u"
    "(\<exists>s' ys. mappages g a PGSIZE (V2P y) (PTE_W OR PTE_U) (fill_page y (replicate PGSIZE 0) s1) = Ok (0, s') \<and> length xs \<le> length ys + 1 \<and> mapped a (a + PGSIZE) (y # xs) ys g s s')
     \<or> (xs = [] \<and> mappages g a PGSIZE (V2P y) (PTE_W OR PTE_U) (fill_page y (replicate PGSIZE 0) s1) = Ok (-1, fill_page y (replicate PGSIZE 0) s1))"
proof -
  obtain s1 where s1: "kalloc s = Ok (y, s1)" "y \<noteq> 0" "memonly s s1" "pages s1 = pages s" "vm_wf xs g s1"
      "page_ok s1 y" "y \<notin> set xs" "\<And>j. vp (pages s1) g j \<noteq> Some y" using take_page [OF w] by metis
  let ?s = "fill_page y (replicate PGSIZE 0) s1"
  have nt: "notab (pages s1) g y" by (rule notab_vp) (rule s1(8))
  have w1: "vm_wf xs g ?s" by (rule vm_wf_fill [OF s1(5) nt s1(7)]) simp
  have pg: "pages ?s = (pages s1)(y := replicate PGSIZE 0)" by (simp add: fill_page_def)
  note P = upd_page [OF nt, where c = "replicate PGSIZE 0", folded pg]
  have pk: "page_ok ?s y" using s1(6) by (simp add: page_ok_def fill_page_def)
  have fr: "vp (pages ?s) g j \<noteq> Some y" for j using s1(8) P(3) by simp
  have un1: "even (pte_at (pages ?s) g (PDX a) (PTX a))" using P(2) un s1(4) by (simp add: PDX_PTX)
  have a32: "a < 2 ^ 32" using a(2) by simp
  have m1: "memonly s ?s" using memonly_trans [OF s1(3) memonly_simps(2)] .
  have M: "mapped a (a + PGSIZE) (y # xs) ys g s s'"
    if s': "memonly ?s s'" "vm_wf ys g s'" "ys = xs \<or> (\<exists>x. xs = x # ys)"
      "\<forall>c<1024. \<forall>u<1024. pte_at (pages s') g c u = (if c = PDX a \<and> u = PTX a then V2P y OR (PTE_W OR PTE_U) OR PTE_P else pte_at (pages ?s) g c u)"
      "\<forall>v. v \<notin> set xs \<longrightarrow> notab (pages ?s) g v \<longrightarrow> pages s' v = pages ?s v \<and> notab (pages s') g v" "conserved (y # xs) ys g ?s s'" for s' ys
  proof -
    have nts: "notab (pages ?s) g v = notab (pages s) g v" for v using P(1) s1(4) by (simp add: notab_def)
    have "pages s' y = replicate PGSIZE 0" using s'(5) nt s1(4,7) nts by (simp add: fill_page_def)
    then have q1: "if a \<le> uva c u \<and> uva c u < a + PGSIZE then \<exists>v\<in>set (y # xs). pte_at (pages s') g c u = V2P v OR 7 \<and> pages s' v = replicate PGSIZE 0
          else pte_at (pages s') g c u = pte_at (pages s) g c u" if "c < 1024" "u < 1024" for c u
      using s'(4) that page_index [OF a(1) a32 that] P(2) [OF that(1)] s1(4) by (cases "c = PDX a \<and> u = PTX a") auto
    have q2: "pages s' v = pages s v \<and> notab (pages s') g v" if "v \<notin> set (y # xs)" "notab (pages s) g v" for v
      using s'(5) that nts s1(4) by (simp add: fill_page_def)
    have "set ys \<subseteq> set (y # xs)" using s'(3) by auto
    moreover have "conserved (y # xs) ys g s s'" using s'(6) conserved_same [of ?s g s] P(3) s1(4) by simp
    ultimately show ?thesis unfolding mapped_def using memonly_trans [OF m1 s'(1)] s'(2) q1 q2 by blast
  qed
  have p6: "PTE_W OR PTE_U < (4096 :: nat)" by simp
  have "(\<exists>s' ys. mappages g a PGSIZE (V2P y) (PTE_W OR PTE_U) ?s = Ok (0, s') \<and> length xs \<le> length ys + 1 \<and> mapped a (a + PGSIZE) (y # xs) ys g s s')
     \<or> (xs = [] \<and> mappages g a PGSIZE (V2P y) (PTE_W OR PTE_U) ?s = Ok (-1, ?s))"
    using map_page [OF w1 a un1 pk s1(7) fr p6] M by fastforce
  with that [OF s1(1,2,3,4) w1 s1(6,7) fr] P(2,3) s1(4) show ?thesis by simp
qed

lemma mapped_trans:
  assumes 1: "mapped a m xs ys g s s1" and 2: "mapped m b ys zs g s1 s2" and "a \<le> m" "m \<le> b"
    and new: "\<And>v. v \<in> set xs \<Longrightarrow> v \<in> range_pages_of (pages s1) g a m \<Longrightarrow> v \<notin> set ys \<and> notab (pages s1) g v"
    and rng: "\<And>c u v. c < 1024 \<Longrightarrow> u < 1024 \<Longrightarrow> a \<le> uva c u \<Longrightarrow> uva c u < m \<Longrightarrow> v \<in> set xs \<Longrightarrow>
      pte_at (pages s1) g c u = V2P v OR 7 \<Longrightarrow> v \<in> range_pages_of (pages s1) g a m"
  shows "mapped a b xs zs g s s2"
proof -
  have "if a \<le> uva c u \<and> uva c u < b then \<exists>v\<in>set xs. pte_at (pages s2) g c u = V2P v OR 7 \<and> pages s2 v = replicate PGSIZE 0
      else pte_at (pages s2) g c u = pte_at (pages s) g c u" if c: "c < 1024" "u < 1024" for c u
  proof -
    have p1: "if a \<le> uva c u \<and> uva c u < m then \<exists>v\<in>set xs. pte_at (pages s1) g c u = V2P v OR 7 \<and> pages s1 v = replicate PGSIZE 0
      else pte_at (pages s1) g c u = pte_at (pages s) g c u" using 1 c unfolding mapped_def by blast
    have p2: "if m \<le> uva c u \<and> uva c u < b then \<exists>v\<in>set ys. pte_at (pages s2) g c u = V2P v OR 7 \<and> pages s2 v = replicate PGSIZE 0
      else pte_at (pages s2) g c u = pte_at (pages s1) g c u" using 2 c unfolding mapped_def by blast
    have sub: "set ys \<subseteq> set xs" using 1 by (simp add: mapped_def)
    consider "a \<le> uva c u" "uva c u < m" | "m \<le> uva c u" "uva c u < b" | "\<not> (a \<le> uva c u \<and> uva c u < b)"
      using assms(3,4) by linarith
    then show ?thesis
    proof cases
      case 1
      then obtain v where v: "v \<in> set xs" "pte_at (pages s1) g c u = V2P v OR 7" "pages s1 v = replicate PGSIZE 0" using p1 by auto
      have "v \<notin> set ys \<and> notab (pages s1) g v" by (rule new [OF v(1) rng [OF c 1 v(1,2)]])
      then have "pages s2 v = replicate PGSIZE 0" using 2 v(3) unfolding mapped_def by simp
      then show ?thesis using v 1 p2 assms(4) by auto
    next
      case 2
      then show ?thesis using p2 sub assms(3) by auto
    next
      case 3
      then show ?thesis using p1 p2 assms(3,4) by (auto split: if_splits)
    qed
  qed
  moreover have "memonly s s2" "vm_wf zs g s2" "set zs \<subseteq> set xs" using 1 2 memonly_trans by (auto simp: mapped_def)
  moreover have "conserved xs zs g s s2" using 1 2 conserved_trans unfolding mapped_def by blast
  moreover have "pages s2 v = pages s v \<and> notab (pages s2) g v" if "v \<notin> set xs" "notab (pages s) g v" for v
    using 1 2 that unfolding mapped_def by (metis subset_iff)
  ultimately show ?thesis unfolding mapped_def by blast
qed

lemma mapped_range:
  assumes m: "mapped a m xs ys g s s1" and w: "vm_wf xs g s" and b: "m \<le> KERNBASE"
  shows "v \<in> range_pages_of (pages s1) g a m \<Longrightarrow> v \<notin> set ys \<and> notab (pages s1) g v"
    "c < 1024 \<Longrightarrow> u < 1024 \<Longrightarrow> a \<le> uva c u \<Longrightarrow> uva c u < m \<Longrightarrow> v \<in> set xs \<Longrightarrow>
      pte_at (pages s1) g c u = V2P v OR 7 \<Longrightarrow> v \<in> range_pages_of (pages s1) g a m"
proof -
  have w1: "vm_wf ys g s1" using m by (simp add: mapped_def)
  show "v \<notin> set ys \<and> notab (pages s1) g v" if "v \<in> range_pages_of (pages s1) g a m"
    using that vm_wfD(6) [OF w1] notab_user [OF w1] unfolding range_pages_of_def by blast
  assume c: "c < 1024" "u < 1024" "a \<le> uva c u" "uva c u < m" "v \<in> set xs" "pte_at (pages s1) g c u = V2P v OR 7"
  have "page_ok s v" using c(5) vm_wfD(1) [OF w] by (simp add: kmem_inv_def)
  note E = entry [OF this, of 7, simplified]
  have "c < 512" using c(4) b by (simp add: uva_def)
  then have "vp (pages s1) g (VUsr c u) = Some v" using c(2,6) E by simp
  then show "v \<in> range_pages_of (pages s1) g a m" using c(3,4) unfolding range_pages_of_def by blast
qed

lemma deallocuvm_ok:
  assumes "vm_wf xs g s" "newsz < oldsz" "oldsz \<le> KERNBASE" "KERNBASE < kern_end s"
  shows "\<exists>s' zs. deallocuvm g oldsz newsz s = Ok (newsz, s') \<and> unmapped (PGROUNDUP newsz) oldsz zs xs g s s'"
proof -
  have "PGROUNDUP newsz mod PGSIZE = 0" by (simp add: PGROUNDUP_def)
  then show ?thesis using dealloc_loop [OF assms(1) _ assms(3,4), of "PGROUNDUP newsz"] assms(2) by (auto simp: deallocuvm_def)
qed

lemma free_unused:
  assumes w: "vm_wf xs g s" and v: "page_ok s v" "v \<notin> set xs" "\<And>j. vp (pages s) g j \<noteq> Some v"
  shows "\<exists>s'. kfree v s = Ok s' \<and> memonly s s' \<and> vm_wf (v # xs) g s' \<and> (\<forall>c<1024. \<forall>u. pte_at (pages s') g c u = pte_at (pages s) g c u)
    \<and> vp (pages s') g = vp (pages s) g \<and> (\<forall>x. x \<noteq> v \<longrightarrow> pages s' x = pages s x)"
proof -
  let ?c = "put_u32 (replicate PGSIZE 1) 0 (kmem_freelist s)"
  let ?s = "s\<lparr>pages := (pages s)(v := ?c), kmem_freelist := v\<rparr>"
  have kf: "kfree v s = Ok ?s" using v(1) vm_wfD(2) [OF w] by (intro kfree_eq) (auto simp: page_ok_def)
  have k: "kmem_inv (v # xs) ?s" using kfree_inv [OF vm_wfD(1) [OF w] v(1,2)] kf by auto
  have m: "memonly s ?s" unfolding memonly_def by (rule exI [of _ v], rule exI [of _ "pages ?s"]) simp
  have nt: "notab (pages s) g v" by (rule notab_vp) (rule v(3))
  note P = upd_page [OF nt, where c = ?c]
  have "vm_wf (v # xs) g ?s" unfolding vm_wf_def
    using k P(3) vm_wfD(5,6,7) [OF w] v(3) by (auto simp: page_ok_def) 
  then show ?thesis using kf m P(2,3) by (intro exI [of _ ?s]) simp
qed

text \<open>The error path of \<open>allocuvm\<close>: what has been mapped so far is unmapped again.\<close>

definition rolled_back :: "nat \<Rightarrow> nat \<Rightarrow> nat list \<Rightarrow> nat \<Rightarrow> 'a kmemst_scheme \<Rightarrow> 'a kmemst_scheme \<Rightarrow> bool" where
  "rolled_back lo hi xs g s s' \<longleftrightarrow> memonly s s' \<and> (\<exists>ys. vm_wf ys g s' \<and> conserved xs ys g s s') \<and> (\<forall>c<1024. \<forall>u<1024.
     pte_at (pages s') g c u = (if lo \<le> uva c u \<and> uva c u < hi \<and> odd (pte_at (pages s) g c u) then 0 else pte_at (pages s) g c u))
     \<and> (\<forall>v. v \<notin> set xs \<longrightarrow> v \<notin> range_pages_of (pages s) g lo hi \<longrightarrow> notab (pages s) g v \<longrightarrow> pages s' v = pages s v)"

lemma aspace_split: "aspace m g = insert g ({v. \<exists>d. vp m g (VTab d) = Some v} \<union> {v. \<exists>c u. vp m g (VUsr c u) = Some v})" (is "_ = ?R")
proof (intro set_eqI iffI)
  fix x assume "x \<in> aspace m g"
  then obtain i where "vp m g i = Some x" by (auto simp: aspace_def)
  then show "x \<in> ?R" by (cases i) (auto simp del: vp.simps(2,3))
next
  fix x assume "x \<in> ?R"
  then have "x = g \<or> (\<exists>i. vp m g i = Some x)" by blast
  then show "x \<in> aspace m g" unfolding aspace_def using vp.simps(1) [of m g] by blast
qed

text \<open>The pages that are unmapped go to the free list, all of them.\<close>

lemma unmapped_conserved:
  assumes u: "unmapped a b zs xs g s s'"
  shows "conserved xs (zs @ xs) g s s'"
proof -
  have z: "set zs = range_pages_of (pages s) g a b" and pg: "pages s' g = pages s g"
    and p: "\<And>c t. c < 1024 \<Longrightarrow> t < 1024 \<Longrightarrow> pte_at (pages s') g c t = (if a \<le> uva c t \<and> uva c t < b \<and> odd (pte_at (pages s) g c t) then 0 else pte_at (pages s) g c t)"
    using u by (simp_all add: unmapped_def)
  have T: "vp (pages s') g (VTab d) = vp (pages s) g (VTab d)" for d using pg by (simp add: pde_at_def)
  have in1: "vp (pages s') g (VUsr c t) = None" if "a \<le> uva c t" "uva c t < b" for c t
    using p [of c t] that by auto
  have in2: "vp (pages s') g (VUsr c t) = vp (pages s) g (VUsr c t)" if "\<not> (a \<le> uva c t \<and> uva c t < b)" for c t
    by (rule vp_usr_cong [where P = "\<lambda>c t. \<not> (a \<le> uva c t \<and> uva c t < b)"]) (use p that in auto)
  have "{v. \<exists>c t. vp (pages s) g (VUsr c t) = Some v} = set zs \<union> {v. \<exists>c t. vp (pages s') g (VUsr c t) = Some v}"
  proof (intro set_eqI iffI)
    fix v assume "v \<in> {v. \<exists>c t. vp (pages s) g (VUsr c t) = Some v}"
    then obtain c t where v: "vp (pages s) g (VUsr c t) = Some v" by blast
    show "v \<in> set zs \<union> {v. \<exists>c t. vp (pages s') g (VUsr c t) = Some v}"
    proof (cases "a \<le> uva c t \<and> uva c t < b")
      case True
      then show ?thesis using v unfolding z range_pages_of_def by blast
    next
      case False
      from in2 [OF this] v show ?thesis by (metis (mono_tags, lifting) UnCI mem_Collect_eq)
    qed
  next
    fix v assume "v \<in> set zs \<union> {v. \<exists>c t. vp (pages s') g (VUsr c t) = Some v}"
    then show "v \<in> {v. \<exists>c t. vp (pages s) g (VUsr c t) = Some v}"
    proof
      assume "v \<in> {v. \<exists>c t. vp (pages s') g (VUsr c t) = Some v}"
      then obtain c t where v: "vp (pages s') g (VUsr c t) = Some v" by blast
      then have "\<not> (a \<le> uva c t \<and> uva c t < b)" using in1 [of c t] by (metis option.distinct(1))
      from in2 [OF this] v show ?thesis by (metis (mono_tags, lifting) mem_Collect_eq)
    qed (auto simp: z range_pages_of_def simp del: vp.simps)
  qed
  then show ?thesis unfolding conserved_def aspace_split T by auto
qed

lemma unmapped_rolled_back: "unmapped a b zs xs g s s' \<Longrightarrow> rolled_back a b xs g s s'"
  using unmapped_conserved [of a b zs xs g s s'] unfolding unmapped_def rolled_back_def by blast

text \<open>The page that was taken for the failing round is given back too.\<close>

lemma rolled_back_free:
  assumes u: "unmapped a b zs xs g s s1" and y: "page_ok s y" "y \<notin> set xs" "\<And>j. vp (pages s) g j \<noteq> Some y"
  shows "\<exists>s'. kfree y s1 = Ok s' \<and> rolled_back a b (y # xs) g s s'"
proof -
  have w1: "vm_wf (zs @ xs) g s1" and m1: "memonly s s1" using u by (simp_all add: unmapped_def)
  have "set zs = range_pages_of (pages s) g a b" using u by (simp add: unmapped_def)
  then have yz: "y \<notin> set zs" using y(3) unfolding range_pages_of_def by blast
  have nt: "notab (pages s1) g y" using u yz notab_vp [of "pages s" g y] y(3) by (simp add: unmapped_def)
  have us: "vp (pages s1) g (VUsr c t) \<noteq> Some y" for c t
  proof
    assume v: "vp (pages s1) g (VUsr c t) = Some y"
    then have ct: "c < 1024" "t < 1024" "odd (pte_at (pages s1) g c t)" by (auto split: if_splits)
    then have e: "pte_at (pages s1) g c t = pte_at (pages s) g c t" using u by (auto simp: unmapped_def split: if_splits)
    have "vp (pages s) g (VUsr c t) = Some y" using v unfolding vp.simps e .
    then show False using y(3) by blast
  qed
  have "vp (pages s1) g j \<noteq> Some y" for j using nt us by (cases j) (auto simp: notab_def)
  then obtain s' where s': "kfree y s1 = Ok s'" "memonly s1 s'" "vm_wf (y # zs @ xs) g s'"
      "\<forall>c<1024. \<forall>u. pte_at (pages s') g c u = pte_at (pages s1) g c u" "vp (pages s') g = vp (pages s1) g" "\<forall>x. x \<noteq> y \<longrightarrow> pages s' x = pages s1 x"
    using free_unused [OF w1, of y] y(1,2) yz memonlyD(3) [OF m1] by auto
  note R = unmapped_rolled_back [OF u, unfolded rolled_back_def]
  have "conserved (y # xs) (y # zs @ xs) g s s'"
    using unmapped_conserved [OF u] s'(5) by (simp add: conserved_def aspace_def)
  moreover have "pages s' v = pages s v" if "v \<notin> set (y # xs)" "v \<notin> range_pages_of (pages s) g a b" "notab (pages s) g v" for v
    using that s'(6) R by simp
  ultimately have "rolled_back a b (y # xs) g s s'"
    unfolding rolled_back_def using R s'(3,4) memonly_trans [OF m1 s'(2)] by (metis (no_types, lifting))
  then show ?thesis using s'(1) by blast
qed

lemma mapped_cong:
  assumes "mapped a b xs ys g s s'" "\<And>c u. c < 1024 \<Longrightarrow> u < 1024 \<Longrightarrow> a \<le> uva c u \<Longrightarrow> (uva c u < b) = (uva c u < b')"
  shows "mapped a b' xs ys g s s'"
  using assms unfolding mapped_def by (auto split: if_splits)

text \<open>Zeroing the page that was taken does not count.\<close>

lemma rolled_back_fill:
  assumes r: "rolled_back lo hi xs g s1 s'" and m: "memonly s s1" and v: "vp (pages s1) g = vp (pages s) g"
    "\<And>c u. c < 1024 \<Longrightarrow> pte_at (pages s1) g c u = pte_at (pages s) g c u" and o: "\<And>x. x \<notin> set xs \<Longrightarrow> pages s1 x = pages s x"
  shows "rolled_back lo hi xs g s s'"
proof -
  have "range_pages_of (pages s1) g lo hi = range_pages_of (pages s) g lo hi" by (simp add: range_pages_of_def v(1) del: vp.simps)
  moreover have "notab (pages s1) g x \<longleftrightarrow> (\<forall>d. vp (pages s1) g (VTab d) \<noteq> Some x) \<and> x \<noteq> g"
      "notab (pages s) g x \<longleftrightarrow> (\<forall>d. vp (pages s) g (VTab d) \<noteq> Some x) \<and> x \<noteq> g" for x
    by (auto simp: notab_def)
  then have "notab (pages s1) g x = notab (pages s) g x" for x unfolding v(1) by blast
  ultimately show ?thesis
    using r memonly_trans [OF m] v(2) o conserved_same [OF v(1)] unfolding rolled_back_def by (auto simp del: vp.simps)
qed

lemma range_mapped:
  assumes m: "mapped a (a + PGSIZE) xs ys g s s1" and w: "vm_wf xs g s" and a: "a mod PGSIZE = 0" "a < 2 ^ 32"
  shows "range_pages_of (pages s1) g lo hi \<subseteq> range_pages_of (pages s) g lo hi \<union> set xs"
proof
  fix v assume "v \<in> range_pages_of (pages s1) g lo hi"
  then obtain c u where v: "lo \<le> uva c u" "uva c u < hi" "vp (pages s1) g (VUsr c u) = Some v" by (auto simp: range_pages_of_def)
  then have c: "c < 1024" "u < 1024" by (auto split: if_splits)
  show "v \<in> range_pages_of (pages s) g lo hi \<union> set xs"
  proof (cases "a \<le> uva c u \<and> uva c u < a + PGSIZE")
    case True
    then obtain x where x: "x \<in> set xs" "pte_at (pages s1) g c u = V2P x OR 7" using m c unfolding mapped_def by metis
    then have "page_ok s x" using vm_wfD(1) [OF w] by (simp add: kmem_inv_def)
    note E = entry [OF this, of 7, simplified]
    have "v = x" using v(3) x(2) E by (simp split: if_splits)
    then show ?thesis using x(1) by simp
  next
    case False
    then have e: "pte_at (pages s1) g c u = pte_at (pages s) g c u" using m c unfolding mapped_def by metis
    have "vp (pages s) g (VUsr c u) = Some v" using v(3) unfolding vp.simps e .
    then show ?thesis using v(1,2) unfolding range_pages_of_def by blast
  qed
qed

lemma rolled_back_mapped:
  assumes m: "mapped a (a + PGSIZE) xs ys g s s1" and r: "rolled_back lo hi ys g s1 s2" and w: "vm_wf xs g s"
    and a: "a mod PGSIZE = 0" "lo \<le> a" "a < hi" "hi < KERNBASE" and un: "pte_at (pages s) g (PDX a) (PTX a) = 0"
  shows "rolled_back lo hi xs g s s2"
proof -
  have a32: "a < 2 ^ 32" using a(3,4) by simp
  have "pte_at (pages s2) g c u = (if lo \<le> uva c u \<and> uva c u < hi \<and> odd (pte_at (pages s) g c u) then 0 else pte_at (pages s) g c u)"
    if c: "c < 1024" "u < 1024" for c u
  proof (cases "c = PDX a \<and> u = PTX a")
    case True
    then have uva: "uva c u = a" using uva_index(2) [OF a(1) a32] by simp
    then obtain v where v: "v \<in> set xs" "pte_at (pages s1) g c u = V2P v OR 7" using m c unfolding mapped_def by fastforce
    then have "page_ok s v" using vm_wfD(1) [OF w] by (simp add: kmem_inv_def)
    then have "odd (pte_at (pages s1) g c u)" using v(2) entry(1) [of s v 7] by simp
    then show ?thesis using r c uva a(2,3) un True by (simp add: rolled_back_def)
  next
    case False
    then have "pte_at (pages s1) g c u = pte_at (pages s) g c u"
      using m c page_index [OF a(1) a32 c] unfolding mapped_def by (metis (no_types, lifting))
    then show ?thesis using r c by (simp add: rolled_back_def)
  qed
  moreover have "pages s2 v = pages s v" if v: "v \<notin> set xs" "v \<notin> range_pages_of (pages s) g lo hi" "notab (pages s) g v" for v
  proof -
    have "pages s1 v = pages s v" "notab (pages s1) g v" "v \<notin> set ys" using m v(1,3) unfolding mapped_def by blast+
    moreover have "v \<notin> range_pages_of (pages s1) g lo hi"
      using v(1,2) range_mapped [OF m w a(1) a32] by blast
    ultimately show ?thesis using r unfolding rolled_back_def by metis
  qed
  moreover obtain zs where "vm_wf zs g s2" "conserved ys zs g s1 s2" using r unfolding rolled_back_def by blast
  moreover have "conserved xs ys g s s1" "memonly s s1" using m by (simp_all add: mapped_def)
  ultimately show ?thesis using r memonly_trans conserved_trans unfolding rolled_back_def by blast
qed

text \<open>The pages that begin in a range; each needs at most a page and a page table.\<close>

definition npages :: "nat \<Rightarrow> nat \<Rightarrow> nat" where
  "npages a b = (b - a + 4095) div 4096"

lemma npages_step:
  assumes "a < b"
  shows "npages a b = npages (a + PGSIZE) b + 1"
proof (cases "a + PGSIZE \<le> b")
  case True
  then have "b - a + 4095 = 4096 + (b - (a + PGSIZE) + 4095)" by simp
  then show ?thesis unfolding npages_def by (simp only: div_add_self1)
next
  case False
  then have "b - a + 4095 = 4096 + (b - a - 1)" "b - a - 1 < 4096" "b - (a + PGSIZE) = 0" using assms by simp_all
  then show ?thesis unfolding npages_def by (simp only: div_add_self1) simp
qed

lemma alloc_loop:
  assumes "vm_wf xs g s" "a mod PGSIZE = 0" "newsz < KERNBASE" "oldsz \<le> PGROUNDUP oldsz" "PGROUNDUP oldsz \<le> a" "KERNBASE < kern_end s"
    "\<And>c u. c < 1024 \<Longrightarrow> u < 1024 \<Longrightarrow> a \<le> uva c u \<Longrightarrow> uva c u < newsz \<Longrightarrow> pte_at (pages s) g c u = 0"
  shows "(\<exists>s' ys. allocuvm_loop g a oldsz newsz s = Ok (newsz, s') \<and> mapped a (max a newsz) xs ys g s s')
    \<or> (\<exists>s'. allocuvm_loop g a oldsz newsz s = Ok (0, s') \<and> rolled_back (PGROUNDUP oldsz) newsz xs g s s' \<and> length xs < 2 * npages a newsz)"
  using assms
proof (induction "newsz - a" arbitrary: a xs s rule: less_induct)
  case less
  note w = less.prems(1)
  show ?case
  proof (cases "a < newsz")
    case False
    then have "mapped a (max a newsz) xs xs g s s" using w by (auto simp: mapped_def memonly_simps)
    then show ?thesis using False by (auto simp: allocuvm_loop.simps)
  next
    case lt: True
    then have a: "a < KERNBASE" "a < 2 ^ 32" "oldsz < newsz" using less.prems(3,4,5) by simp_all
    have ix: "PDX a < 1024" "PTX a < 1024" by (simp_all add: PDX_PTX)
    have un: "pte_at (pages s) g (PDX a) (PTX a) = 0"
      using less.prems(7) [OF ix] uva_index(2) [OF less.prems(2) a(2)] lt by simp
    note np = npages_step [OF lt]
    show ?thesis
    proof (cases xs)
      case Nil
      then have ka: "kalloc s = Ok (0, s)" using kalloc_empty vm_wfD(1) [OF w] by blast
      obtain s' zs where "deallocuvm g newsz oldsz s = Ok (oldsz, s')" "unmapped (PGROUNDUP oldsz) newsz zs xs g s s'"
        using deallocuvm_ok [OF w a(3)] less.prems(3,6) by fastforce
      then show ?thesis using ka lt unmapped_rolled_back Nil np by (subst (1 2) allocuvm_loop.simps) auto
    next
      case (Cons y zs)
      have w': "vm_wf (y # zs) g s" using w Cons by simp
      obtain s1 where s1: "kalloc s = Ok (y, s1)" "y \<noteq> 0" "memonly s s1" "pages s1 = pages s"
          "vm_wf zs g (fill_page y (replicate PGSIZE 0) s1)" "page_ok s1 y" "y \<notin> set zs"
          "\<And>j. vp (pages (fill_page y (replicate PGSIZE 0) s1)) g j \<noteq> Some y"
          "vp (pages (fill_page y (replicate PGSIZE 0) s1)) g = vp (pages s) g"
          "\<And>c u. c < 1024 \<Longrightarrow> pte_at (pages (fill_page y (replicate PGSIZE 0) s1)) g c u = pte_at (pages s) g c u"
          "(\<exists>s' ys. mappages g a PGSIZE (V2P y) (PTE_W OR PTE_U) (fill_page y (replicate PGSIZE 0) s1) = Ok (0, s') \<and> length zs \<le> length ys + 1 \<and> mapped a (a + PGSIZE) (y # zs) ys g s s')
           \<or> (zs = [] \<and> mappages g a PGSIZE (V2P y) (PTE_W OR PTE_U) (fill_page y (replicate PGSIZE 0) s1) = Ok (-1, fill_page y (replicate PGSIZE 0) s1))"
        using alloc_page [OF w' less.prems(2) a(1) un] by metis
      let ?s = "fill_page y (replicate PGSIZE 0) s1" and ?P = "PGROUNDUP oldsz"
      show ?thesis using s1(11)
      proof (elim disjE exE conjE)
        fix s2 ys assume mp: "mappages g a PGSIZE (V2P y) (PTE_W OR PTE_U) ?s = Ok (0, s2)" and L: "length zs \<le> length ys + 1" and M: "mapped a (a + PGSIZE) (y # zs) ys g s s2"
        have l: "allocuvm_loop g a oldsz newsz s = allocuvm_loop g (a + PGSIZE) oldsz newsz s2"
          using lt s1(1,2) mp by (subst allocuvm_loop.simps) simp
        have w2: "vm_wf ys g s2" and m2: "memonly s s2" using M by (simp_all add: mapped_def)
        have al2: "(a + PGSIZE) mod PGSIZE = 0" using less.prems(2) by simp
        have un2: "pte_at (pages s2) g c u = 0" if "c < 1024" "u < 1024" "a + PGSIZE \<le> uva c u" "uva c u < newsz" for c u
          using M that less.prems(7) [OF that(1,2) _ that(4)] unfolding mapped_def by fastforce
        have ends: "(uva c u < max (a + PGSIZE) newsz) = (uva c u < max a newsz)" if "c < 1024" "u < 1024" "a \<le> uva c u" for c u
          using page_index [OF less.prems(2) a(2) that(1,2)] that(3) lt uva_index(2) [OF less.prems(2) a(2)] by (auto simp: max_def)
        have "(\<exists>s' zs. allocuvm_loop g (a + PGSIZE) oldsz newsz s2 = Ok (newsz, s') \<and> mapped (a + PGSIZE) (max (a + PGSIZE) newsz) ys zs g s2 s')
          \<or> (\<exists>s'. allocuvm_loop g (a + PGSIZE) oldsz newsz s2 = Ok (0, s') \<and> rolled_back ?P newsz ys g s2 s' \<and> length ys < 2 * npages (a + PGSIZE) newsz)"
          by (rule less.hyps [OF _ w2 al2 less.prems(3,4)]) (use lt less.prems(5,6) memonlyD(2) [OF m2] un2 in auto)
        then show ?thesis
        proof (elim disjE exE conjE)
          fix s' qs assume r: "allocuvm_loop g (a + PGSIZE) oldsz newsz s2 = Ok (newsz, s')" "mapped (a + PGSIZE) (max (a + PGSIZE) newsz) ys qs g s2 s'"
          have ap: "a + PGSIZE \<le> KERNBASE"
          proof -
            obtain k where "a = 4096 * k" using less.prems(2) by (auto simp: mod_eq_0_iff_dvd)
            then show ?thesis using a(1) by simp
          qed
          have "mapped a (max (a + PGSIZE) newsz) (y # zs) qs g s s'"
            by (rule mapped_trans [OF M r(2)]) (use mapped_range [OF M w' ap] in auto)
          then have "mapped a (max a newsz) xs qs g s s'" unfolding Cons by (rule mapped_cong) (rule ends)
          then show ?thesis using l r(1) by auto
        next
          fix s' assume r: "allocuvm_loop g (a + PGSIZE) oldsz newsz s2 = Ok (0, s')" "rolled_back ?P newsz ys g s2 s'"
            "length ys < 2 * npages (a + PGSIZE) newsz"
          have "length xs < 2 * npages a newsz" using r(3) L Cons np by simp
          then show ?thesis using l r(1,2) rolled_back_mapped [OF M _ w' less.prems(2,5) lt less.prems(3) un] Cons by auto
        qed
      next
        assume z: "zs = []" and mp: "mappages g a PGSIZE (V2P y) (PTE_W OR PTE_U) ?s = Ok (-1, ?s)"
        have m1: "memonly s ?s" using memonly_trans [OF s1(3) memonly_simps(2)] .
        have pk: "page_ok ?s y" using s1(6) by (simp add: page_ok_def fill_page_def)
        obtain s3 qs where s3: "deallocuvm g newsz oldsz ?s = Ok (oldsz, s3)" "unmapped ?P newsz qs zs g ?s s3"
          using deallocuvm_ok [OF s1(5) a(3)] less.prems(3,6) memonlyD(2) [OF m1] by fastforce
        obtain s4 where s4: "kfree y s3 = Ok s4" "rolled_back ?P newsz (y # zs) g ?s s4" using rolled_back_free [OF s3(2) pk s1(7,8)] by blast
        have "rolled_back ?P newsz xs g s s4" unfolding Cons by (rule rolled_back_fill [OF s4(2) m1 s1(9,10)]) (use s1(4,10) in \<open>auto simp: fill_page_def\<close>)
        moreover have "allocuvm_loop g a oldsz newsz s = Ok (0, s4)" using lt s1(1,2) mp s3(1) s4(1) by (subst allocuvm_loop.simps) simp
        moreover have "length xs < 2 * npages a newsz" using z Cons np by simp
        ultimately show ?thesis by blast
      qed
    qed
  qed
qed

text \<open>
  The pages from \<open>lo\<close> up to \<open>hi\<close> are mapped user-writable to zeroed pages that were free; every other
  translation is unchanged.
\<close>

definition grown :: "nat \<Rightarrow> nat \<Rightarrow> nat list \<Rightarrow> nat \<Rightarrow> 'a kmemst_scheme \<Rightarrow> 'a kmemst_scheme \<Rightarrow> bool" where
  "grown lo hi xs g s s' \<longleftrightarrow> (\<forall>c<1024. \<forall>u<1024. if lo \<le> uva c u \<and> uva c u < hi
     then \<exists>v\<in>set xs. pte_at (pages s') g c u = V2P v OR (PTE_P OR PTE_W OR PTE_U) \<and> pages s' v = replicate PGSIZE 0
     else pte_at (pages s') g c u = pte_at (pages s) g c u)"

lemma grown_aspace:
  assumes w: "vm_wf xs g s" and w': "vm_wf ys g s'" and gr: "grown lo hi xs g s s'" and c: "conserved xs ys g s s'"
  shows "(\<And>c u. c < 1024 \<Longrightarrow> u < 1024 \<Longrightarrow> lo \<le> uva c u \<Longrightarrow> uva c u < hi \<Longrightarrow> pte_at (pages s) g c u = 0) \<Longrightarrow> aspace (pages s) g \<subseteq> aspace (pages s') g"
    "aspace (pages s) g \<subseteq> aspace (pages s') g \<Longrightarrow> set ys = set xs - aspace (pages s') g"
    "aspace (pages s) g \<subseteq> aspace (pages s') g \<Longrightarrow> hi = 0 \<Longrightarrow> set ys = set xs - {v. \<exists>d. vp (pages s') g (VTab d) = Some v}"
proof -
  have d: "set ys \<inter> aspace (pages s') g = {}" "set xs \<inter> aspace (pages s) g = {}"
    using vm_wfD(6) [OF w'] vm_wfD(6) [OF w] unfolding aspace_def by blast+
  show A: "set ys = set xs - aspace (pages s') g" if "aspace (pages s) g \<subseteq> aspace (pages s') g"
    using c d that unfolding conserved_def by blast
  show "set ys = set xs - {v. \<exists>d. vp (pages s') g (VTab d) = Some v}" if s: "aspace (pages s) g \<subseteq> aspace (pages s') g" and "hi = 0"
  proof -
    have "vp (pages s') g (VUsr c u) = vp (pages s) g (VUsr c u)" for c u
      by (rule vp_usr_cong [where P = "\<lambda>_ _. True"]) (use gr \<open>hi = 0\<close> in \<open>simp_all add: grown_def\<close>)
    then have "{v. \<exists>c u. vp (pages s') g (VUsr c u) = Some v} \<subseteq> aspace (pages s) g" unfolding aspace_def by (auto simp del: vp.simps)
    moreover have "g \<in> aspace (pages s) g" unfolding aspace_split by simp
    ultimately have "aspace (pages s') g \<subseteq> {v. \<exists>d. vp (pages s') g (VTab d) = Some v} \<union> aspace (pages s) g"
      unfolding aspace_split [of "pages s'"] by blast
    then show ?thesis using A [OF s] d(2) unfolding aspace_split [of "pages s'"] by blast
  qed
  assume un: "\<And>c u. c < 1024 \<Longrightarrow> u < 1024 \<Longrightarrow> lo \<le> uva c u \<Longrightarrow> uva c u < hi \<Longrightarrow> pte_at (pages s) g c u = 0"
  show "aspace (pages s) g \<subseteq> aspace (pages s') g"
  proof
    fix v assume "v \<in> aspace (pages s) g"
    then obtain i where i: "vp (pages s) g i = Some v" unfolding aspace_def by blast
    have "vp (pages s') g i = Some v"
    proof (cases i)
      case VDir
      then show ?thesis using i by simp
    next
      case (VTab d)
      then show ?thesis using i c unfolding conserved_def by blast
    next
      case (VUsr c u)
      then have cu: "c < 1024" "u < 1024" "odd (pte_at (pages s) g c u)" using i by (auto split: if_splits)
      then have "\<not> (lo \<le> uva c u \<and> uva c u < hi)" using un [OF cu(1,2)] by auto
      then have e: "pte_at (pages s') g c u = pte_at (pages s) g c u" using gr cu(1,2) unfolding grown_def by metis
      show ?thesis using i unfolding VUsr vp.simps e .
    qed
    then show "v \<in> aspace (pages s') g" unfolding aspace_def by blast
  qed
qed

text \<open>
  C27. \<open>allocuvm\<close> on a well-formed address space whose pages above \<open>oldsz\<close> are unmapped. A size that reaches
  the kernel is refused and a smaller size changes nothing. Otherwise it returns \<open>newsz\<close> with every page
  from \<open>PGROUNDUP(oldsz)\<close> up to \<open>newsz\<close> mapped user-writable to a page of zeros that was free, or, only when the
  free pages do not suffice for the new pages and their page tables, 0 with all translations as before. No
  page is lost in either case: the pages of the address space before are still part of it, those that were
  free and are not now belong to the address space, and on failure these are page tables, which the error
  path keeps in the directory; every user page that was taken on the way is free again. The pages that
  belong to the user or to nobody keep their content. The directory, the page tables, the mapped pages and
  the free list never share a page.\<close>

theorem allocuvm_correct:
  assumes w: "vm_wf xs g s" and k: "KERNBASE < kern_end s"
    and un: "\<forall>c<1024. \<forall>u<1024. PGROUNDUP oldsz \<le> uva c u \<and> uva c u < newsz \<longrightarrow> pte_at (pages s) g c u = 0"
  shows "if newsz \<ge> KERNBASE then allocuvm g oldsz newsz s = Ok (0, s)
    else if newsz < oldsz then allocuvm g oldsz newsz s = Ok (oldsz, s)
    else \<exists>r s' ys. allocuvm g oldsz newsz s = Ok (r, s') \<and> vm_wf ys g s' \<and> r \<in> {0, newsz}
      \<and> (2 * npages (PGROUNDUP oldsz) newsz \<le> length xs \<longrightarrow> r = newsz) \<and> grown (PGROUNDUP oldsz) r xs g s s'
      \<and> memonly s s' \<and> aspace (pages s) g \<subseteq> aspace (pages s') g
      \<and> set ys = set xs - (if r = 0 then {v. \<exists>d. vp (pages s') g (VTab d) = Some v} else aspace (pages s') g)
      \<and> set xs \<union> aspace (pages s) g = set ys \<union> aspace (pages s') g
      \<and> (\<forall>v. v \<notin> set xs \<longrightarrow> notab (pages s) g v \<longrightarrow> pages s' v = pages s v)"
proof (cases "newsz < KERNBASE \<and> oldsz \<le> newsz")
  case True
  then have n: "newsz < KERNBASE" "oldsz \<le> newsz" by auto
  let ?P = "PGROUNDUP oldsz"
  have P: "?P mod PGSIZE = 0" "oldsz \<le> ?P" using n by (simp_all add: PGROUNDUP_def u32_def)
  have e: "allocuvm g oldsz newsz s = allocuvm_loop g ?P oldsz newsz s" using n by (simp add: allocuvm_def)
  have r0: "range_pages_of (pages s) g ?P newsz = {}" using un by (auto simp: range_pages_of_def split: if_splits)
  consider s' ys where "allocuvm_loop g ?P oldsz newsz s = Ok (newsz, s')" "mapped ?P (max ?P newsz) xs ys g s s'"
    | s' where "allocuvm_loop g ?P oldsz newsz s = Ok (0, s')" "rolled_back ?P newsz xs g s s'" "length xs < 2 * npages ?P newsz"
    using alloc_loop [OF w P(1) n(1) P(2) order_refl k] un by blast
  then have "\<exists>r s' ys. allocuvm g oldsz newsz s = Ok (r, s') \<and> vm_wf ys g s'
      \<and> r \<in> {0, newsz} \<and> (2 * npages ?P newsz \<le> length xs \<longrightarrow> r = newsz) \<and> grown ?P r xs g s s'
      \<and> memonly s s' \<and> conserved xs ys g s s' \<and> (\<forall>v. v \<notin> set xs \<longrightarrow> notab (pages s) g v \<longrightarrow> pages s' v = pages s v)"
  proof cases
    case 1
    have "mapped ?P newsz xs ys g s s'" by (rule mapped_cong [OF 1(2)]) auto
    then show ?thesis using 1(1) e
      by (intro exI [of _ newsz] exI [of _ s'] exI [of _ ys]) (simp add: mapped_def grown_def)
  next
    case 2
    then obtain ys where ys: "vm_wf ys g s'" "conserved xs ys g s s'" by (auto simp: rolled_back_def)
    have "grown ?P 0 xs g s s'" using 2(2) un by (simp add: rolled_back_def grown_def)
    then show ?thesis using 2 e ys r0 by (intro exI [of _ 0] exI [of _ s'] exI [of _ ys]) (simp add: rolled_back_def)
  qed
  then obtain r s' ys where R: "allocuvm g oldsz newsz s = Ok (r, s')" "vm_wf ys g s'" "r \<in> {0, newsz}"
      "2 * npages ?P newsz \<le> length xs \<longrightarrow> r = newsz" "grown ?P r xs g s s'" "memonly s s'" "conserved xs ys g s s'"
      "\<forall>v. v \<notin> set xs \<longrightarrow> notab (pages s) g v \<longrightarrow> pages s' v = pages s v"
    by (elim exE conjE)
  note G = grown_aspace [OF w R(2,5,7)] 
  have A: "aspace (pages s) g \<subseteq> aspace (pages s') g" by (rule G(1)) (use un R(3) in auto)
  have B: "set ys = set xs - (if r = 0 then {v. \<exists>d. vp (pages s') g (VTab d) = Some v} else aspace (pages s') g)"
    using G(2) [OF A] G(3) [OF A] by simp
  have C: "set xs \<union> aspace (pages s) g = set ys \<union> aspace (pages s') g" using R(7) unfolding conserved_def by blast
  have n': "\<not> KERNBASE \<le> newsz" "\<not> newsz < oldsz" using n by simp_all
  show ?thesis unfolding if_not_P [OF n'(1)] if_not_P [OF n'(2)]
    by (rule exI [of _ r], rule exI [of _ s'], rule exI [of _ ys], intro conjI) (rule R(1-6,8) A B C)+
qed (auto simp: allocuvm_def)

text \<open>A directory of zeros above a free list of three pages.\<close>

definition demo_vm :: "unit kmemst_scheme" where
  "demo_vm = boot_kmem\<lparr>pages := (\<lambda>_. replicate PGSIZE 0)(0x80101000 := put_u32 (replicate PGSIZE 1) 0 0x80102000,
     0x80102000 := put_u32 (replicate PGSIZE 1) 0 0x80103000, 0x80103000 := put_u32 (replicate PGSIZE 1) 0 0),
     kmem_freelist := 0x80101000\<rparr>"

lemma demo_vp:
  "c < 1024 \<Longrightarrow> pte_at (pages demo_vm) 0x80104000 c u = 0"
  "vp (pages demo_vm) 0x80104000 i = Some v \<longleftrightarrow> i = VDir \<and> v = 0x80104000"
proof -
  have z: "pde_at (pages demo_vm) 0x80104000 d = 0" if "d < 1024" for d
    using get_cell_zero_page [OF that] by (simp add: pde_at_def demo_vm_def)
  then show "c < 1024 \<Longrightarrow> pte_at (pages demo_vm) 0x80104000 c u = 0" for c u by (simp add: pte_at_def)
  then show "vp (pages demo_vm) 0x80104000 i = Some v \<longleftrightarrow> i = VDir \<and> v = 0x80104000"
    using z by (cases i) auto
qed

lemma demo_vm_wf: "vm_wf [0x80101000, 0x80102000, 0x80103000] 0x80104000 demo_vm"
proof -
  have "kmem_inv [0x80101000, 0x80102000, 0x80103000] demo_vm"
    by (simp add: kmem_inv_def demo_vm_def boot_kmem_def page_ok_def V2P_def u32_def get_put_u32_same)
  moreover have "page_ok demo_vm 0x80104000" by (simp add: demo_vm_def boot_kmem_def page_ok_def V2P_def u32_def)
  ultimately show ?thesis by (simp add: vm_wf_def demo_vp)
qed

theorem allocuvm_correct_witness:
  "\<exists>s' ys. allocuvm 0x80104000 0 4000 demo_vm = Ok (4000, s') \<and> vm_wf ys 0x80104000 s'
     \<and> grown 0 4000 [0x80101000, 0x80102000, 0x80103000] 0x80104000 demo_vm s'"
proof -
  have "KERNBASE < kern_end demo_vm" by (simp add: demo_vm_def boot_kmem_def)
  moreover have "PGROUNDUP 0 = 0" "npages 0 4000 = 1" by (simp_all add: PGROUNDUP_def u32_def npages_def)
  ultimately show ?thesis
    using allocuvm_correct [OF demo_vm_wf, where oldsz = 0 and newsz = 4000] demo_vp(1) by auto
qed

section \<open>Freeing an address space\<close>

text \<open>The loop over the directory: the tables are freed one by one, the directory itself stays.\<close>

lemma free_tables:
  assumes w: "vm_wf xs g s"
  shows "\<exists>s'. rfold (\<lambda>i s. if get_pte (g, i) s AND PTE_P \<noteq> 0 then kfree (P2V (PTE_ADDR (get_pte (g, i) s))) s else Ok s) [0..<NPDENTRIES] s = Ok s'
    \<and> memonly s s' \<and> (\<exists>ys. kmem_inv ys s' \<and> set ys = set xs \<union> {v. \<exists>d. vp (pages s) g (VTab d) = Some v})
    \<and> (\<forall>v. v \<notin> {v. \<exists>d. vp (pages s) g (VTab d) = Some v} \<longrightarrow> pages s' v = pages s v)"
proof -
  let ?T = "\<lambda>j. {v. \<exists>d<j. vp (pages s) g (VTab d) = Some v}"
  let ?I = "\<lambda>j s'. memonly s s' \<and> (\<exists>ys. kmem_inv ys s' \<and> set ys = set xs \<union> ?T j) \<and> (\<forall>v. v \<notin> ?T j \<longrightarrow> pages s' v = pages s v)"
  have vg: "vp (pages s) g (VTab d) \<noteq> Some g" for d using vm_wfD(7) [OF w, of VDir g "VTab d"] by auto
  have "\<exists>s'. rfold (\<lambda>i s. if get_pte (g, i) s AND PTE_P \<noteq> 0 then kfree (P2V (PTE_ADDR (get_pte (g, i) s))) s else Ok s) [0..<NPDENTRIES] s = Ok s' \<and> ?I NPDENTRIES s'"
  proof (rule rfold_upt)
    fix j s' assume j: "j < NPDENTRIES" and I: "?I j s'"
    obtain ys where ys: "kmem_inv ys s'" "set ys = set xs \<union> ?T j" using I by blast
    have "pages s' g = pages s g" using I vg by blast
    then have ge: "get_pte (g, j) s' = pde_at (pages s) g j" by (simp add: get_pte_def pde_at_def)
    show "\<exists>s''. (if get_pte (g, j) s' AND PTE_P \<noteq> 0 then kfree (P2V (PTE_ADDR (get_pte (g, j) s'))) s' else Ok s') = Ok s'' \<and> ?I (Suc j) s''"
    proof (cases "odd (pde_at (pages s) g j)")
      case False
      then have "?T (Suc j) = ?T j" by (auto simp: less_Suc_eq)
      then show ?thesis using False I ge by (simp only: PTE_P_odd) simp
    next
      case True
      let ?v = "P2V (PTE_ADDR (pde_at (pages s) g j))"
      have vj: "vp (pages s) g (VTab j) = Some ?v" using True j by simp
      have T: "?T (Suc j) = insert ?v (?T j)" using vj by (auto simp: less_Suc_eq simp del: vp.simps)
      have ok: "page_ok s' ?v" using vm_wfD(5) [OF w vj] I memonlyD(3) by blast
      have new: "?v \<notin> set ys" using vm_wfD(6) [OF w vj] vm_wfD(7) [OF w vj] ys(2) by (auto simp del: vp.simps)
      have kl: "KmemLock \<notin> set (held s')" using ys(1) by (simp add: kmem_inv_def)
      let ?c = "put_u32 (replicate PGSIZE 1) 0 (kmem_freelist s')"
      let ?s = "s'\<lparr>pages := (pages s')(?v := ?c), kmem_freelist := ?v\<rparr>"
      have kf: "kfree ?v s' = Ok ?s" using ok kl by (intro kfree_eq) (auto simp: page_ok_def)
      have "kmem_inv (?v # ys) ?s" using kfree_inv [OF ys(1) ok new] kf by auto
      moreover have "set (?v # ys) = set xs \<union> ?T (Suc j)" unfolding T using ys(2) by simp
      moreover have "memonly s' ?s" unfolding memonly_def by (rule exI [of _ ?v], rule exI [of _ "pages ?s"]) simp
      then have "memonly s ?s" using I memonly_trans by blast
      moreover have "pages ?s u = pages s u" if "u \<notin> ?T (Suc j)" for u using that I unfolding T by simp
      ultimately have "?I (Suc j) ?s" by blast
      moreover have "get_pte (g, j) s' AND PTE_P \<noteq> 0" unfolding PTE_P_odd ge by (rule True)
      ultimately show ?thesis using kf unfolding ge by (intro exI [of _ ?s]) simp
    qed
  next
    have "set xs \<union> ?T 0 = set xs" by simp
    then show "?I 0 s" using vm_wfD(1) [OF w] memonly_simps(1) by fastforce
  qed
  moreover have "?T NPDENTRIES = {v. \<exists>d. vp (pages s) g (VTab d) = Some v}" by auto
  ultimately show ?thesis by (simp only:)
qed

lemma vix_ex: "(\<exists>i. P i) \<longleftrightarrow> P VDir \<or> (\<exists>d. P (VTab d)) \<or> (\<exists>c u. P (VUsr c u))"
  by (metis vix.exhaust)

lemma freevm_ok:
  assumes w: "vm_wf xs g s" and k: "KERNBASE < kern_end s"
  shows "\<exists>s' ys. freevm g s = Ok s' \<and> memonly s s' \<and> kmem_inv ys s' \<and> set ys = set xs \<union> {v. \<exists>i. vp (pages s) g i = Some v}
    \<and> (\<forall>v. (\<forall>i. vp (pages s) g i \<noteq> Some v) \<longrightarrow> pages s' v = pages s v)"
proof -
  have g: "g \<noteq> 0" using vm_wfD(4) [OF w] by (simp add: page_ok_def)
  have "PGROUNDUP 0 = 0" by (simp add: PGROUNDUP_def u32_def)
  then obtain s1 zs where s1: "deallocuvm g KERNBASE 0 s = Ok (0, s1)" "unmapped 0 KERNBASE zs xs g s s1"
    using deallocuvm_ok [OF w _ order_refl k, of 0] by auto
  have w1: "vm_wf (zs @ xs) g s1" and m1: "memonly s s1" and z: "set zs = range_pages_of (pages s) g 0 KERNBASE"
    and pg: "pages s1 g = pages s g" using s1(2) by (simp_all add: unmapped_def)
  have vt: "vp (pages s1) g (VTab d) = vp (pages s) g (VTab d)" for d using pg by (simp add: pde_at_def)
  let ?T = "{v. \<exists>d. vp (pages s) g (VTab d) = Some v}"
  obtain s2 ys where s2: "rfold (\<lambda>i s. if get_pte (g, i) s AND PTE_P \<noteq> 0 then kfree (P2V (PTE_ADDR (get_pte (g, i) s))) s else Ok s) [0..<NPDENTRIES] s1 = Ok s2"
      "memonly s1 s2" "kmem_inv ys s2" "set ys = set (zs @ xs) \<union> ?T" "\<forall>v. v \<notin> ?T \<longrightarrow> pages s2 v = pages s1 v"
    using free_tables [OF w1] unfolding vt by blast
  have ug: "range_pages_of (pages s) g 0 KERNBASE = {v. \<exists>c u. vp (pages s) g (VUsr c u) = Some v}"
    unfolding range_pages_of_def by (auto simp: uva_def split: if_splits)
  have gn: "g \<notin> set ys"
  proof -
    have "vp (pages s) g VDir = Some g" by simp
    then have "g \<notin> set xs" "vp (pages s) g i = Some g \<Longrightarrow> i = VDir" for i using vm_wfD(6,7) [OF w] by blast+
    then show ?thesis unfolding s2(4) set_append z ug by blast
  qed
  have gk: "page_ok s2 g" using vm_wfD(4) [OF w] memonlyD(3) [OF m1] memonlyD(3) [OF s2(2)] by simp
  let ?c = "put_u32 (replicate PGSIZE 1) 0 (kmem_freelist s2)"
  let ?s = "s2\<lparr>pages := (pages s2)(g := ?c), kmem_freelist := g\<rparr>"
  have "KmemLock \<notin> set (held s2)" using s2(3) by (simp add: kmem_inv_def)
  then have kf: "kfree g s2 = Ok ?s" using gk by (intro kfree_eq) (auto simp: page_ok_def)
  have "freevm g s = Ok ?s" using g s1(1) s2(1) kf by (simp add: freevm_def)
  moreover have "kmem_inv (g # ys) ?s" using kfree_inv [OF s2(3) gk gn] kf by auto
  moreover have "memonly s2 ?s" unfolding memonly_def by (rule exI [of _ g], rule exI [of _ "pages ?s"]) simp
  then have "memonly s ?s" using m1 s2(2) memonly_trans by blast
  moreover have all: "{v. \<exists>i. vp (pages s) g i = Some v} = insert g (?T \<union> set zs)"
    unfolding z ug vix_ex by (auto simp del: vp.simps(2,3))
  then have "set (g # ys) = set xs \<union> {v. \<exists>i. vp (pages s) g i = Some v}" unfolding all using s2(4) by auto
  moreover have "pages ?s v = pages s v" if "\<forall>i. vp (pages s) g i \<noteq> Some v" for v
  proof -
    have "v \<notin> insert g (?T \<union> set zs)" using that unfolding all [symmetric] by blast
    moreover have "notab (pages s) g v" by (rule notab_vp) (use that in blast)
    ultimately show ?thesis using s2(5) s1(2) by (simp add: unmapped_def)
  qed
  ultimately show ?thesis by blast
qed

text \<open>
  C30. \<open>freevm\<close> returns all of an address space and nothing else: it does not panic, and afterwards the
  free list holds, each once, the pages that were free and the user pages, the page tables and the
  directory of the address space. No other page is touched.\<close>

theorem freevm_correct:
  assumes w: "vm_wf xs g s" and k: "KERNBASE < kern_end s"
  shows "\<exists>s' ys. freevm g s = Ok s' \<and> memonly s s' \<and> kmem_inv ys s' \<and> set ys = set xs \<union> {v. \<exists>i. vp (pages s) g i = Some v}
    \<and> (\<forall>v. (\<forall>i. vp (pages s) g i \<noteq> Some v) \<longrightarrow> pages s' v = pages s v)"
  by (rule freevm_ok [OF assms])

theorem freevm_correct_witness:
  "\<exists>s' ys. freevm 0x80104000 demo_vm = Ok s' \<and> kmem_inv ys s' \<and> set ys = {0x80101000, 0x80102000, 0x80103000, 0x80104000}"
proof -
  have "{v. \<exists>i. vp (pages demo_vm) 0x80104000 i = Some v} = {0x80104000}" using demo_vp by auto
  moreover have "KERNBASE < kern_end demo_vm" by (simp add: demo_vm_def boot_kmem_def)
  ultimately show ?thesis using freevm_correct [OF demo_vm_wf] by auto
qed

end
