(* ===== verification/Dir.thy ===== *)
theory Dir
  imports Readwrite Cstring
begin

text \<open>
  Directories and path names (fs.c): \<open>namecmp\<close>, \<open>dirlookup\<close>, \<open>dirlink\<close>, \<open>skipelem\<close>, \<open>namex\<close>,
  \<open>namei\<close> and \<open>nameiparent\<close>. A directory is a file of 16-byte entries; its meaning is the partial
  function \<open>dlookup\<close> from names to inode numbers, which \<open>dirlookup\<close> computes and \<open>dirlink\<close>
  extends at one name.
\<close>

section \<open>Operations\<close>

abbreviation (input) DIRSIZ :: nat where "DIRSIZ \<equiv> 14"
abbreviation (input) ROOTINO :: nat where "ROOTINO \<equiv> 1"
abbreviation (input) slash :: uchar where "slash \<equiv> 47"

text \<open>\<open>struct dirent\<close>: an inode number in two bytes and a name of 14.\<close>

abbreviation de_inum :: "bytes \<Rightarrow> nat" where "de_inum de \<equiv> get_u16 de 0"
abbreviation de_name :: "bytes \<Rightarrow> bytes" where "de_name de \<equiv> slice de 2 DIRSIZ"

definition namecmp :: "bytes \<Rightarrow> bytes \<Rightarrow> int result" where
  "namecmp s t = strncmp s t DIRSIZ"

text \<open>The offsets \<open>0, 16, ...\<close> below the size of the directory.\<close>

definition dir_offs :: "nat \<Rightarrow> 'a fsst_scheme \<Rightarrow> nat list" where
  "dir_offs dp s = map ((*) 16) [0..<(i_size (ino s dp) + 15) div 16]"

fun dirlookup_loop :: "nat \<Rightarrow> bytes \<Rightarrow> nat list \<Rightarrow> 'a fsst_scheme \<Rightarrow> ((nat \<times> nat) option \<times> 'a fsst_scheme) result" where
  "dirlookup_loop dp name [] s = Ok (None, s)"
| "dirlookup_loop dp name (off # offs) s =
     rbind (readi dp off 16 s) (\<lambda>(r, de, s).
     if r \<noteq> 16 then Err (Panic ''dirlookup read'')
     else if de_inum de = 0 then dirlookup_loop dp name offs s
     else rbind (namecmp name (de_name de)) (\<lambda>c.
       if c = 0 then rbind (iget (i_dev (ino s dp)) (de_inum de) s) (\<lambda>(ip, s). Ok (Some (ip, off), s))
       else dirlookup_loop dp name offs s))"

text \<open>The result is the entry of the inode and the offset \<open>*poff\<close>.\<close>

definition dirlookup :: "nat \<Rightarrow> bytes \<Rightarrow> 'a fsst_scheme \<Rightarrow> ((nat \<times> nat) option \<times> 'a fsst_scheme) result" where
  "dirlookup dp name s =
     (if i_type (ino s dp) \<noteq> T_DIR then Err (Panic ''dirlookup not DIR'')
      else dirlookup_loop dp name (dir_offs dp s) s)"

text \<open>
  The search for a free entry: the offset where the loop stops, and the last entry read (\<open>de\<close>, which
  is uninitialised in an empty directory and is overwritten afterwards).
\<close>

fun dirlink_loop :: "nat \<Rightarrow> nat list \<Rightarrow> nat \<Rightarrow> bytes \<Rightarrow> 'a fsst_scheme \<Rightarrow> (nat \<times> bytes \<times> 'a fsst_scheme) result" where
  "dirlink_loop dp [] off de s = Ok (off, de, s)"
| "dirlink_loop dp (off # offs) _ _ s =
     rbind (readi dp off 16 s) (\<lambda>(r, de, s).
     if r \<noteq> 16 then Err (Panic ''dirlink read'')
     else if de_inum de = 0 then Ok (off, de, s)
     else dirlink_loop dp offs (off + 16) de s)"

definition dirlink :: "nat \<Rightarrow> bytes \<Rightarrow> nat \<Rightarrow> 'a fsst_scheme \<Rightarrow> (int \<times> 'a fsst_scheme) result" where
  "dirlink dp name inum s =
     rbind (dirlookup dp name s) (\<lambda>(found, s).
     case found of
       Some (ip, _) \<Rightarrow> rbind (iput ip s) (\<lambda>s. Ok (-1, s))
     | None \<Rightarrow>
         rbind (dirlink_loop dp (dir_offs dp s) 0 (replicate 16 0) s) (\<lambda>(off, de, s).
         rbind (strncpy (de_name de) name (int DIRSIZ)) (\<lambda>nm.
         rbind (writei dp (le_bytes 2 inum @ nm) off s) (\<lambda>(r, s).
         if r \<noteq> 16 then Err (Panic ''dirlink'') else Ok (0, s)))))"

text \<open>
  A path is the list of its characters before the terminator. \<open>skipelem\<close> returns the rest of the
  path and the contents of \<open>name\<close>, or nothing when there is no element.
\<close>

definition skipelem :: "bytes \<Rightarrow> bytes \<Rightarrow> (bytes \<times> bytes) option" where
  "skipelem path name =
     (let path = dropWhile (\<lambda>c. c = slash) path in
      if path = [] then None
      else
        let elem = takeWhile (\<lambda>c. c \<noteq> slash) path; path = dropWhile (\<lambda>c. c \<noteq> slash) path;
            name = (if length elem \<ge> DIRSIZ then blit name 0 (take DIRSIZ elem) else blit name 0 (elem @ [0]))
        in Some (dropWhile (\<lambda>c. c = slash) path, name))"

lemma skipelem_shorter: "skipelem path name = Some (path', name') \<Longrightarrow> length path' < length path"
proof -
  assume a: "skipelem path name = Some (path', name')"
  let ?p = "dropWhile (\<lambda>c. c = slash) path"
  have p: "?p \<noteq> []" "path' = dropWhile (\<lambda>c. c = slash) (dropWhile (\<lambda>c. c \<noteq> slash) ?p)"
    using a by (auto simp: skipelem_def Let_def split: if_splits)
  obtain c r where c: "?p = c # r" using p(1) by (cases ?p) blast+
  then have "c \<noteq> slash" using hd_dropWhile [OF p(1)] by simp
  then have "path' = dropWhile (\<lambda>c. c = slash) (dropWhile (\<lambda>c. c \<noteq> slash) r)" using p(2) c by simp
  then have "length path' \<le> length (tl ?p)"
    using c length_dropWhile_le [of "\<lambda>c. c = slash"] length_dropWhile_le [of "\<lambda>c. c \<noteq> slash" r] order_trans by fastforce
  also have "\<dots> < length ?p" using p(1) by simp
  also have "\<dots> \<le> length path" by (rule length_dropWhile_le)
  finally show ?thesis .
qed

function namex_loop :: "bytes \<Rightarrow> bool \<Rightarrow> bytes \<Rightarrow> nat \<Rightarrow> 'a fsst_scheme \<Rightarrow> (nat option \<times> bytes \<times> 'a fsst_scheme) result" where
  "namex_loop path parent name ip s =
     (case skipelem path name of
        None \<Rightarrow> if parent then rbind (iput ip s) (\<lambda>s. Ok (None, name, s)) else Ok (Some ip, name, s)
      | Some (path', name) \<Rightarrow>
          rbind (ilock ip s) (\<lambda>s.
          if i_type (ino s ip) \<noteq> T_DIR then rbind (iunlockput ip s) (\<lambda>s. Ok (None, name, s))
          else if parent \<and> path' = [] then rbind (iunlock ip s) (\<lambda>s. Ok (Some ip, name, s))
          else rbind (dirlookup ip name s) (\<lambda>(found, s).
            case found of
              None \<Rightarrow> rbind (iunlockput ip s) (\<lambda>s. Ok (None, name, s))
            | Some (next, _) \<Rightarrow> rbind (iunlockput ip s) (\<lambda>s. namex_loop path' parent name next s))))"
  by pat_completeness auto
termination by (relation "measure (\<lambda>(path, parent, name, ip, s). length path)") (auto dest: skipelem_shorter)

declare namex_loop.simps [simp del]

definition namex :: "bytes \<Rightarrow> bool \<Rightarrow> bytes \<Rightarrow> 'a fsst_scheme \<Rightarrow> (nat option \<times> bytes \<times> 'a fsst_scheme) result" where
  "namex path parent name s =
     rbind (if path \<noteq> [] \<and> hd path = slash then iget ROOTDEV ROOTINO s
       else case curproc s of
         None \<Rightarrow> Err (Fault ''myproc'')
       | Some p \<Rightarrow> (case p_cwd (procs (pt s) p) of
           None \<Rightarrow> Err (Fault ''idup'')
         | Some ip \<Rightarrow> idup ip s)) (\<lambda>(ip, s).
     namex_loop path parent name ip s)"

definition namei :: "bytes \<Rightarrow> 'a fsst_scheme \<Rightarrow> (nat option \<times> 'a fsst_scheme) result" where
  "namei path s = rbind (namex path False (replicate DIRSIZ 0) s) (\<lambda>(ip, name, s). Ok (ip, s))"

definition nameiparent :: "bytes \<Rightarrow> bytes \<Rightarrow> 'a fsst_scheme \<Rightarrow> (nat option \<times> bytes \<times> 'a fsst_scheme) result" where
  "nameiparent path name s = namex path True name s"

section \<open>Path elements\<close>

text \<open>The reference: the path split at the slashes, without the empty pieces.\<close>

fun pieces :: "bytes \<Rightarrow> bytes \<Rightarrow> bytes list" where
  "pieces acc [] = [acc]"
| "pieces acc (c # cs) = (if c = slash then acc # pieces [] cs else pieces (acc @ [c]) cs)"

definition components :: "bytes \<Rightarrow> bytes list" where
  "components path = filter (\<lambda>e. e \<noteq> []) (pieces [] path)"

text \<open>What the caller of \<open>skipelem\<close> sees: the names of the successive elements.\<close>

function walk_path :: "bytes \<Rightarrow> bytes \<Rightarrow> bytes list" where
  "walk_path path name = (case skipelem path name of None \<Rightarrow> []
     | Some (path', name) \<Rightarrow> cstr (take DIRSIZ name) # walk_path path' name)"
  by pat_completeness auto
termination by (relation "measure (\<lambda>(path, name). length path)") (auto dest: skipelem_shorter)

declare walk_path.simps [simp del]

lemma pieces_takeWhile:
  "pieces acc p = (acc @ takeWhile (\<lambda>c. c \<noteq> slash) p) #
     (case dropWhile (\<lambda>c. c \<noteq> slash) p of [] \<Rightarrow> [] | _ # q \<Rightarrow> pieces [] q)"
  by (induction p arbitrary: acc) auto

lemma components_slash [simp]: "components (slash # p) = components p"
  by (simp add: components_def)

lemma components_strip: "components (dropWhile (\<lambda>c. c = slash) p) = components p"
  by (induction p) auto

lemma components_elem:
  assumes "p \<noteq> []" "hd p \<noteq> slash"
  shows "components p = takeWhile (\<lambda>c. c \<noteq> slash) p # components (dropWhile (\<lambda>c. c \<noteq> slash) p)"
proof -
  have t: "takeWhile (\<lambda>c. c \<noteq> slash) p \<noteq> []" using assms by (cases p) auto
  show ?thesis
  proof (cases "dropWhile (\<lambda>c. c \<noteq> slash) p")
    case Nil
    show ?thesis using t unfolding components_def pieces_takeWhile [of "[]" p] Nil by simp
  next
    case (Cons c q)
    then have "c = slash" using hd_dropWhile [of "\<lambda>c. c \<noteq> slash" p] by simp
    then show ?thesis using t Cons by (simp add: components_def pieces_takeWhile [of "[]" p])
  qed
qed

lemma short_name:
  assumes "0 \<notin> set e" "length e < DIRSIZ"
  shows "cstr (take DIRSIZ (blit name 0 (e @ [0]))) = e"
proof -
  obtain j where j: "DIRSIZ - length e = Suc j" using assms(2) by (metis Suc_diff_Suc)
  have "take DIRSIZ (blit name 0 (e @ [0])) = e @ replicate 1 0 @ take j (drop (Suc (length e)) name)"
    using assms(2) j by (simp add: blit_def)
  then show ?thesis using cstr_append_zeros [OF assms(1), of 1] by simp
qed

text \<open>
  C17. \<open>skipelem\<close> enumerates the components of a path: applied until it returns null, it yields in
  order the non-empty pieces between the slashes, each cut to its first 14 characters, for
  every number and position of slashes; every call shortens the path, so the loop of \<open>namex\<close>
  ends, and the 14-byte name buffer is never overrun.\<close>

theorem skipelem_components:
  assumes "0 \<notin> set path" "length name = DIRSIZ"
  shows "walk_path path name = map (take DIRSIZ) (components path)
    \<and> (\<forall>path' name'. skipelem path name = Some (path', name') \<longrightarrow>
         length path' < length path \<and> length name' = DIRSIZ \<and> (path' = [] \<or> hd path' \<noteq> slash)
         \<and> components path = takeWhile (\<lambda>c. c \<noteq> slash) (dropWhile (\<lambda>c. c = slash) path) # components path')"
  using assms
proof (induction path name rule: walk_path.induct)
  case (1 path name)
  let ?p = "dropWhile (\<lambda>c. c = slash) path"
  let ?e = "takeWhile (\<lambda>c. c \<noteq> slash) ?p" and ?q = "dropWhile (\<lambda>c. c = slash) (dropWhile (\<lambda>c. c \<noteq> slash) ?p)"
  show ?case
  proof (cases "?p = []")
    case True
    then have "components path = []" using components_strip [of path] unfolding True by (simp add: components_def)
    moreover have "skipelem path name = None" using True by (simp add: skipelem_def)
    ultimately show ?thesis by (simp add: walk_path.simps [of path])
  next
    case False
    let ?n = "if length ?e \<ge> DIRSIZ then blit name 0 (take DIRSIZ ?e) else blit name 0 (?e @ [0])"
    have sk: "skipelem path name = Some (?q, ?n)" using False by (simp add: skipelem_def Let_def)
    have ln: "length ?n = DIRSIZ" using "1.prems"(2) by (auto simp: min_def)
    have z: "0 \<notin> set ?e" "0 \<notin> set ?q"
      using "1.prems"(1) by (meson set_takeWhileD set_dropWhileD)+
    have "cstr (take DIRSIZ ?n) = take DIRSIZ ?e"
    proof (cases "length ?e \<ge> DIRSIZ")
      case True
      have "cstr (take DIRSIZ ?e) = take DIRSIZ ?e"
        using z(1) cstr_append_zeros [of "take DIRSIZ ?e" 0 "[]"] by (auto dest: in_set_takeD)
      then show ?thesis using True by (simp add: blit_def)
    next
      case F: False
      then show ?thesis using short_name [OF z(1)] by simp
    qed
    moreover have "hd ?p \<noteq> slash" using hd_dropWhile [OF False] by simp
    then have c: "components path = ?e # components ?q"
      using components_elem [OF False] components_strip by metis
    moreover have "walk_path ?q ?n = map (take DIRSIZ) (components ?q)"
      using "1.IH" [OF sk refl z(2) ln] by blast
    moreover have "?q = [] \<or> hd ?q \<noteq> slash" using hd_dropWhile [of "\<lambda>c. c = slash" "dropWhile (\<lambda>c. c \<noteq> slash) ?p"] by blast
    ultimately show ?thesis
      using sk skipelem_shorter [OF sk] ln by (simp add: walk_path.simps [of path])
  qed
qed

theorem skipelem_components_witness:
  "walk_path [47, 47, 97, 47, 47, 98, 99, 47] (replicate 14 0) = [[97], [98, 99]]"
  using skipelem_components [of "[47, 47, 97, 47, 47, 98, 99, 47]" "replicate 14 0"] by (simp add: components_def)

section \<open>Directories\<close>

text \<open>The \<open>k\<close>-th entry of a directory, and the meaning of the directory.\<close>

definition dent :: "nat \<Rightarrow> nat \<Rightarrow> 'a fsst_scheme \<Rightarrow> nat \<Rightarrow> bytes" where
  "dent dev dp s k = map (fbyte dev dp s) [16 * k..<16 * k + 16]"

definition dmatch :: "nat \<Rightarrow> nat \<Rightarrow> 'a fsst_scheme \<Rightarrow> bytes \<Rightarrow> nat \<Rightarrow> bool" where
  "dmatch dev dp s name k \<longleftrightarrow> de_inum (dent dev dp s k) \<noteq> 0
     \<and> take DIRSIZ (cstr name) = take DIRSIZ (cstr (de_name (dent dev dp s k)))"

abbreviation nents :: "nat \<Rightarrow> 'a fsst_scheme \<Rightarrow> nat" where
  "nents dp s \<equiv> i_size (ino s dp) div 16"

definition dlookup :: "nat \<Rightarrow> nat \<Rightarrow> 'a fsst_scheme \<Rightarrow> bytes \<Rightarrow> nat option" where
  "dlookup dev dp s name = map_option (\<lambda>k. de_inum (dent dev dp s k)) (search (dmatch dev dp s name) 0 (nents dp s))"

definition dir_ok :: "nat \<Rightarrow> nat \<Rightarrow> 'a fsst_scheme \<Rightarrow> bool" where
  "dir_ok dev dp s \<longleftrightarrow> fs_wf dev s \<and> ftree dev dp s \<and> dense dev dp s \<and> i_type (ino s dp) = T_DIR
     \<and> i_size (ino s dp) mod 16 = 0 \<and> held s = [] \<and> bheld s = []"

definition name_ok :: "bytes \<Rightarrow> bool" where
  "name_ok name \<longleftrightarrow> 0 \<in> set name \<or> DIRSIZ \<le> length name"

lemma dir_okD:
  assumes "dir_ok dev dp s"
  shows "fs_wf dev s" "ftree dev dp s" "dense dev dp s" "i_type (ino s dp) = T_DIR" "i_type (ino s dp) \<noteq> T_DEV"
    "i_size (ino s dp) mod 16 = 0" "held s = []" "bheld s = []" "i_size (ino s dp) = 16 * nents dp s" "i_size (ino s dp) \<le> MAXBYTES"
    "dp < length (icache s)" "i_dev (ino s dp) = dev"
  using assms ftreeD(1,2) [of dev dp s] by (auto simp: dir_ok_def dense_def)

lemma dir_ok_quiet: "quiet s s' \<Longrightarrow> dir_ok dev dp s \<Longrightarrow> dir_ok dev dp s'"
  using quietD(1,2,4) [of s s'] quietD(6) [of s s' dev] quietD(7,9) [of s s' dev dp] by (simp add: dir_ok_def dense_def)

lemma dent_quiet: "quiet s s' \<Longrightarrow> dent dev dp s' = dent dev dp s"
  using quietD(10) [of s s' dev dp] by (simp add: dent_def fun_eq_iff)

lemma dmatch_quiet: "quiet s s' \<Longrightarrow> dmatch dev dp s' = dmatch dev dp s"
  by (simp add: dmatch_def dent_quiet fun_eq_iff)

lemma dir_offs_eq: "dir_ok dev dp s \<Longrightarrow> dir_offs dp s = map ((*) 16) [0..<nents dp s]"
proof -
  assume "dir_ok dev dp s"
  then have "i_size (ino s dp) = 16 * nents dp s" by (rule dir_okD)
  then have "(i_size (ino s dp) + 15) div 16 = nents dp s" by linarith
  then show ?thesis by (simp add: dir_offs_def)
qed

lemma length_dent [simp]: "length (dent dev dp s k) = 16"
  by (simp add: dent_def)

lemma read_dent:
  assumes d: "dir_ok dev dp s" and k: "k < nents dp s"
  shows "\<exists>s'. readi dp (16 * k) 16 s = Ok (16, dent dev dp s k, s') \<and> quiet s s'"
proof -
  note D = dir_okD [OF d]
  have "16 * k + 16 \<le> i_size (ino s dp)" using k D(9) by linarith
  then have o: "16 * k \<le> i_size (ino s dp)" "16 * k + 16 < 2 ^ 32" "min 16 (i_size (ino s dp) - 16 * k) = 16"
    using D(10) by auto
  show ?thesis using readi_ok [OF D(1-3,7,8,5) o(1,2)] unfolding o(3) dent_def by simp
qed

lemma namecmp_dent:
  "name_ok name \<Longrightarrow> \<exists>c. namecmp name (de_name (dent dev dp s k)) = Ok c
     \<and> (c = 0 \<longleftrightarrow> take DIRSIZ (cstr name) = take DIRSIZ (cstr (de_name (dent dev dp s k))))"
  using strncmp_total [of name DIRSIZ "de_name (dent dev dp s k)"] by (simp add: name_ok_def namecmp_def)

lemma dirlookup_loop_ok:
  assumes "dir_ok dev dp s" "name_ok name" "k \<le> nents dp s"
  shows "\<exists>s'. quiet s s' \<and> dirlookup_loop dp name (map ((*) 16) [k..<nents dp s]) s =
    (case search (dmatch dev dp s name) k (nents dp s) of
       None \<Rightarrow> Ok (None, s')
     | Some j \<Rightarrow> rbind (iget dev (de_inum (dent dev dp s j)) s') (\<lambda>(ip, s). Ok (Some (ip, 16 * j), s)))"
  using assms
proof (induction "nents dp s - k" arbitrary: k s)
  case 0
  then show ?case by (auto simp: search.simps [of _ k] intro!: exI [of _ s])
next
  case (Suc m)
  then have k: "k < nents dp s" by linarith
  then have u: "map ((*) 16) [k..<nents dp s] = 16 * k # map ((*) 16) [Suc k..<nents dp s]" by (simp add: upt_conv_Cons)
  obtain s1 where s1: "readi dp (16 * k) 16 s = Ok (16, dent dev dp s k, s1)" "quiet s s1"
    using read_dent [OF Suc.prems(1) k] by blast
  note q = quietD [OF s1(2)]
  have d1: "dir_ok dev dp s1" by (rule dir_ok_quiet [OF s1(2) Suc.prems(1)])
  have n1: "nents dp s1 = nents dp s" using q(4) by simp
  obtain c where c: "namecmp name (de_name (dent dev dp s k)) = Ok c"
      "c = 0 \<longleftrightarrow> take DIRSIZ (cstr name) = take DIRSIZ (cstr (de_name (dent dev dp s k)))"
    using namecmp_dent [OF Suc.prems(2)] by blast
  show ?case
  proof (cases "dmatch dev dp s name k")
    case True
    then have "search (dmatch dev dp s name) k (nents dp s) = Some k" using k by (simp add: search_hit)
    moreover have "dirlookup_loop dp name (16 * k # map ((*) 16) [Suc k..<nents dp s]) s =
        rbind (iget dev (de_inum (dent dev dp s k)) s1) (\<lambda>(ip, s). Ok (Some (ip, 16 * k), s))"
      using s1(1) True c dir_okD(12) [OF d1] by (simp add: dmatch_def)
    ultimately show ?thesis using s1(2) unfolding u by auto
  next
    case False
    have m: "m = nents dp s1 - Suc k" "Suc k \<le> nents dp s1" using Suc.hyps(2) n1 k by linarith+
    have "dirlookup_loop dp name (16 * k # map ((*) 16) [Suc k..<nents dp s]) s
        = dirlookup_loop dp name (map ((*) 16) [Suc k..<nents dp s1]) s1"
      using s1(1) False c n1 by (auto simp: dmatch_def)
    moreover have "search (dmatch dev dp s name) k (nents dp s) = search (dmatch dev dp s1 name) (Suc k) (nents dp s1)"
      using False k n1 by (simp add: search.simps [of _ k] dmatch_quiet [OF s1(2)])
    moreover obtain s' where "quiet s1 s'" "dirlookup_loop dp name (map ((*) 16) [Suc k..<nents dp s1]) s1 =
      (case search (dmatch dev dp s1 name) (Suc k) (nents dp s1) of None \<Rightarrow> Ok (None, s')
       | Some j \<Rightarrow> rbind (iget dev (de_inum (dent dev dp s1 j)) s') (\<lambda>(ip, s). Ok (Some (ip, 16 * j), s)))"
      using Suc.hyps(1) [OF m(1) d1 Suc.prems(2) m(2)] by blast
    ultimately show ?thesis unfolding u dent_quiet [OF s1(2)] using quiet_trans [OF s1(2)] by (intro exI [of _ s']) auto
  qed
qed

text \<open>The two scans that \<open>dirlink\<close> and \<open>namex\<close> rely on.\<close>

lemma dirlookup_ok:
  assumes "dir_ok dev dp s" "name_ok name"
  shows "\<exists>s'. quiet s s' \<and> dirlookup dp name s =
    (case search (dmatch dev dp s name) 0 (nents dp s) of
       None \<Rightarrow> Ok (None, s')
     | Some j \<Rightarrow> rbind (iget dev (de_inum (dent dev dp s j)) s') (\<lambda>(ip, s). Ok (Some (ip, 16 * j), s)))"
  using dirlookup_loop_ok [OF assms, of 0] dir_okD(4) [OF assms(1)]
  by (simp add: dirlookup_def dir_offs_eq [OF assms(1)])

definition free_slot :: "nat \<Rightarrow> nat \<Rightarrow> 'a fsst_scheme \<Rightarrow> nat" where
  "free_slot dev dp s = (case search (\<lambda>k. de_inum (dent dev dp s k) = 0) 0 (nents dp s) of None \<Rightarrow> nents dp s | Some k \<Rightarrow> k)"

lemma dirlink_loop_ok:
  assumes "dir_ok dev dp s" "k \<le> nents dp s" "length de = 16"
  shows "\<exists>s' de'. quiet s s' \<and> length de' = 16 \<and> dirlink_loop dp (map ((*) 16) [k..<nents dp s]) (16 * k) de s =
    Ok (16 * (case search (\<lambda>k. de_inum (dent dev dp s k) = 0) k (nents dp s) of None \<Rightarrow> nents dp s | Some k \<Rightarrow> k), de', s')"
  using assms
proof (induction "nents dp s - k" arbitrary: k s de)
  case 0
  then show ?case by (auto simp: search.simps [of _ k])
next
  case (Suc m)
  then have k: "k < nents dp s" by linarith
  then have u: "map ((*) 16) [k..<nents dp s] = 16 * k # map ((*) 16) [Suc k..<nents dp s]" by (simp add: upt_conv_Cons)
  obtain s1 where s1: "readi dp (16 * k) 16 s = Ok (16, dent dev dp s k, s1)" "quiet s s1"
    using read_dent [OF Suc.prems(1) k] by blast
  note q = quietD [OF s1(2)]
  have d1: "dir_ok dev dp s1" by (rule dir_ok_quiet [OF s1(2) Suc.prems(1)])
  have n1: "nents dp s1 = nents dp s" using q(4) by simp
  show ?case
  proof (cases "de_inum (dent dev dp s k) = 0")
    case True
    then have "search (\<lambda>k. de_inum (dent dev dp s k) = 0) k (nents dp s) = Some k" using k by (simp add: search_hit)
    then show ?thesis unfolding u using s1 True by auto
  next
    case False
    have "\<exists>s' de'. quiet s1 s' \<and> length de' = 16 \<and>
      dirlink_loop dp (map ((*) 16) [Suc k..<nents dp s1]) (16 * Suc k) (dent dev dp s k) s1 =
      Ok (16 * (case search (\<lambda>k. de_inum (dent dev dp s1 k) = 0) (Suc k) (nents dp s1) of None \<Rightarrow> nents dp s1 | Some k \<Rightarrow> k), de', s')"
      by (rule Suc.hyps(1)) (use d1 Suc.hyps(2) n1 k in simp_all)
    then obtain s' de' where "quiet s1 s'" "length de' = 16"
      "dirlink_loop dp (map ((*) 16) [Suc k..<nents dp s1]) (16 * Suc k) (dent dev dp s k) s1 =
      Ok (16 * (case search (\<lambda>k. de_inum (dent dev dp s1 k) = 0) (Suc k) (nents dp s1) of None \<Rightarrow> nents dp s1 | Some k \<Rightarrow> k), de', s')"
      by blast
    moreover have "search (\<lambda>k. de_inum (dent dev dp s k) = 0) k (nents dp s) = search (\<lambda>k. de_inum (dent dev dp s1 k) = 0) (Suc k) (nents dp s1)"
      using False k n1 by (simp add: search.simps [of _ k] dent_quiet [OF s1(2)])
    ultimately show ?thesis unfolding u n1 using s1(1) False quiet_trans [OF s1(2)]
      by (intro exI [of _ s'] exI [of _ de']) (simp add: add.commute)
  qed
qed

lemma search_extend:
  "(\<And>k. k < N' \<Longrightarrow> P' k \<longleftrightarrow> k < N \<and> P k) \<Longrightarrow> N \<le> N' \<Longrightarrow> search P' 0 N' = search P 0 N"
proof -
  assume a: "\<And>k. k < N' \<Longrightarrow> P' k \<longleftrightarrow> k < N \<and> P k" "N \<le> N'"
  show ?thesis
  proof (cases "search P 0 N")
    case None
    then have "search P' 0 N' = None" using a by (auto simp: search_None)
    then show ?thesis using None by simp
  next
    case (Some i)
    then have "search P' 0 N' = Some i" using a by (auto simp: search_Some)
    then show ?thesis using Some by simp
  qed
qed

text \<open>The entry that \<open>dirlink\<close> writes.\<close>

definition new_dent :: "bytes \<Rightarrow> nat \<Rightarrow> bytes" where
  "new_dent name inum = le_bytes 2 inum @ take DIRSIZ (cstr name) @ replicate (DIRSIZ - length (cstr name)) 0"

lemma new_dent_props:
  assumes "inum < 2 ^ 16"
  shows "length (new_dent name inum) = 16" "de_inum (new_dent name inum) = inum"
    "take DIRSIZ (cstr (de_name (new_dent name inum))) = take DIRSIZ (cstr name)"
proof -
  let ?b = "take DIRSIZ (cstr name) @ replicate (DIRSIZ - length (cstr name)) 0"
  have l: "length ?b = DIRSIZ" by simp
  show "length (new_dent name inum) = 16" by (simp add: new_dent_def)
  show "de_inum (new_dent name inum) = inum"
    using assms by (simp add: new_dent_def get_u16_def slice_append1 le_val_bytes)
  have "de_name (new_dent name inum) = ?b"
    using l by (simp add: new_dent_def slice_append2) (simp add: slice_def)
  moreover have "cstr ?b = take DIRSIZ (cstr name)"
    using cstr_append_zeros [of "take DIRSIZ (cstr name)" "DIRSIZ - length (cstr name)" "[]"] by (cases "DIRSIZ - length (cstr name)") auto
  ultimately show "take DIRSIZ (cstr (de_name (new_dent name inum))) = take DIRSIZ (cstr name)" by simp
qed

lemma dent_written:
  assumes f: "fwrote dev dp (16 * k0) d s s'" and d: "length d = 16" and lim: "16 * k + 16 \<le> MAXBYTES"
  shows "dent dev dp s' k = (if k = k0 then d else dent dev dp s k)"
proof (rule nth_equalityI)
  fix j assume "j < length (dent dev dp s' k)"
  then have j: "j < 16" by simp
  then have "16 * k + j < MAXBYTES" using lim by simp
  moreover have "(16 * k0 \<le> 16 * k + j \<and> 16 * k + j < 16 * k0 + 16) \<longleftrightarrow> k = k0" using j by auto
  ultimately have "fbyte dev dp s' (16 * k + j) = (if k = k0 then d ! j else fbyte dev dp s (16 * k + j))"
    using f d unfolding fwrote_def by auto
  then show "dent dev dp s' k ! j = (if k = k0 then d else dent dev dp s k) ! j" using j by (simp add: dent_def)
qed (simp add: d)

lemma dlookup_written:
  assumes D: "dir_ok dev dp s" and sz: "i_size (ino s' dp) = max (i_size (ino s dp)) (16 * free_slot dev dp s + 16)"
    and f: "fwrote dev dp (16 * free_slot dev dp s) (new_dent name inum) s s'" and inum: "0 < inum" "inum < 2 ^ 16"
    and no: "dlookup dev dp s name = None" and lim: "16 * free_slot dev dp s + 16 \<le> MAXBYTES"
  shows "dlookup dev dp s' nm = (if take DIRSIZ (cstr nm) = take DIRSIZ (cstr name) then Some inum else dlookup dev dp s nm)"
proof -
  let ?k0 = "free_slot dev dp s" and ?N = "nents dp s" and ?N' = "nents dp s'" and ?d = "new_dent name inum"
  note P = new_dent_props [OF inum(2), of name] and S = dir_okD(9,10) [OF D]
  have n: "?k0 \<le> ?N" "?k0 < ?N \<Longrightarrow> de_inum (dent dev dp s ?k0) = 0"
    unfolding free_slot_def by (auto split: option.splits dest: search_SomeD)
  have N': "?N' = max ?N (Suc ?k0)" "?N \<le> ?N'" "?k0 < ?N'" using sz S by (auto simp: max_def)
  have de: "dent dev dp s' k = (if k = ?k0 then ?d else dent dev dp s k)" if "k < ?N'" for k
    by (rule dent_written [OF f P(1)]) (use that N'(1) S lim in \<open>auto simp: max_def split: if_splits\<close>)
  have old: "k < ?N" if "k < ?N'" "k \<noteq> ?k0" for k using that N'(1) n(1) by auto
  show ?thesis
  proof (cases "take DIRSIZ (cstr nm) = take DIRSIZ (cstr name)")
    case True
    have "\<not> dmatch dev dp s name k" if "k < ?N" for k
      using no that by (simp add: dlookup_def search_None)
    then have "dmatch dev dp s' nm k \<longleftrightarrow> k = ?k0" if "k < ?N'" for k
      using de [OF that] True P inum(1) old [OF that] by (auto simp: dmatch_def)
    then have "search (dmatch dev dp s' nm) 0 ?N' = Some ?k0" using N'(3) by (auto simp: search_Some)
    then show ?thesis using True de [OF N'(3)] P(2) by (simp add: dlookup_def)
  next
    case False
    have m: "dmatch dev dp s' nm k \<longleftrightarrow> k < ?N \<and> dmatch dev dp s nm k" if "k < ?N'" for k
      using de [OF that] False P n old [OF that] by (auto simp: dmatch_def)
    have e: "search (dmatch dev dp s' nm) 0 ?N' = search (dmatch dev dp s nm) 0 ?N"
      by (rule search_extend [OF m N'(2)])
    show ?thesis
    proof (cases "search (dmatch dev dp s nm) 0 ?N")
      case (Some k)
      then have k: "k < ?N'" "dmatch dev dp s nm k" "k < ?N" using search_SomeD [OF Some] N'(2) by auto
      then have "k \<noteq> ?k0" using n(2) by (auto simp: dmatch_def)
      then show ?thesis using False e Some de [OF k(1)] by (simp add: dlookup_def)
    qed (use False e in \<open>simp add: dlookup_def\<close>)
  qed
qed

lemma dirlink_ok:
  fixes s :: "'a fsst_scheme"
  assumes D: "dir_ok dev dp s" and nm: "name_ok name" and no: "dlookup dev dp s name = None"
    and inum: "0 < inum" "inum < 2 ^ 16" and i: "i_inum (ino s dp) < sb_ninodes (sb s)" "dinode_ok (ino_dinode (ino s dp))"
    and lim: "16 * free_slot dev dp s + 16 \<le> MAXBYTES"
    and r: "room (1 + 3 * wmiss (nodes dev s dp) (16 * free_slot dev dp s) 16 + length (fblocks (16 * free_slot dev dp s) 16)) s"
    and n: "wmiss (nodes dev s dp) (16 * free_slot dev dp s) 16 \<le> nfree dev s"
  shows "\<exists>s0 s' as sz. dirlookup dp name s = Ok (None, s0) \<and> dirlink dp name inum s = Ok (0, s') \<and> dir_ok dev dp s'
    \<and> (\<forall>nm. dlookup dev dp s' nm = (if take DIRSIZ (cstr nm) = take DIRSIZ (cstr name) then Some inum else dlookup dev dp s nm))
    \<and> icache s' = (icache s)[dp := (ino s dp)\<lparr>i_addrs := as, i_size := sz\<rparr>]"
proof -
  let ?k0 = "free_slot dev dp s" and ?d = "new_dent name inum"
  note P = new_dent_props [OF inum(2), of name]
  have none: "search (dmatch dev dp s name) 0 (nents dp s) = None" using no by (simp add: dlookup_def)
  obtain s0 where s0: "quiet s s0" "dirlookup dp name s = Ok (None, s0)"
    using dirlookup_ok [OF D nm] none by auto
  have D0: "dir_ok dev dp s0" by (rule dir_ok_quiet [OF s0(1) D])
  obtain s1 de where s1: "quiet s0 s1" "length de = 16"
      "dirlink_loop dp (dir_offs dp s0) 0 (replicate 16 0) s0 = Ok (16 * free_slot dev dp s0, de, s1)"
    using dirlink_loop_ok [OF D0, of 0 "replicate 16 0"] unfolding dir_offs_eq [OF D0] free_slot_def by auto
  have k: "free_slot dev dp s0 = ?k0" by (simp only: free_slot_def dent_quiet [OF s0(1)] quietD(4) [OF s0(1)])
  have q: "quiet s s1" by (rule quiet_trans [OF s0(1) s1(1)])
  note Q = quietD [OF q]
  have D1: "dir_ok dev dp s1" by (rule dir_ok_quiet [OF q D])
  note E = dir_okD [OF D1]
  have st: "strncpy (de_name de) name (int DIRSIZ) = Ok (take DIRSIZ (cstr name) @ replicate (DIRSIZ - length (cstr name)) 0)"
    using nm s1(2) by (simp add: strncpy_def strncpy_copy_eq name_ok_def)
  have le: "?k0 \<le> nents dp s"
    unfolding free_slot_def by (auto split: option.splits dest: search_SomeD)
  have off: "16 * ?k0 + length ?d \<le> MAXBYTES" "16 * ?k0 \<le> i_size (ino s1 dp)"
    using lim P(1) le dir_okD(9) [OF D] Q(4) by auto
  have r1: "room (0 + 1 + 3 * wmiss (nodes dev s1 dp) (16 * ?k0) (length ?d) + length (fblocks (16 * ?k0) (length ?d))) s1"
    using r Q(8) unfolding P(1) Q(9) by simp
  have n1: "wmiss (nodes dev s1 dp) (16 * ?k0) (length ?d) \<le> nfree dev s1"
    using n unfolding P(1) Q(9) nfree_quiet [OF q] .
  have i1: "i_inum (ino s1 dp) < sb_ninodes (sb s1)" "dinode_ok (ino_dinode (ino s1 dp))" using i Q(3,4) by simp_all
  obtain s' where s': "writei dp ?d (16 * ?k0) s1 = Ok (int (length ?d), s')" "written dev dp (16 * ?k0) ?d s1 s'" "dense dev dp s'"
      "i_size (ino s' dp) = max (i_size (ino s1 dp)) (16 * ?k0 + length ?d)" "i_type (ino s' dp) = i_type (ino s1 dp)"
    using writei_ok [OF E(1-3,8,5) i1 off r1 n1] by blast
  have W: "fs_wf dev s'" "ftree dev dp s'" "held s' = []" "bheld s' = []" "fwrote dev dp (16 * ?k0) ?d s1 s'"
    using s'(2) E(7,8) unfolding written_def by auto
  have sz: "i_size (ino s' dp) = max (i_size (ino s dp)) (16 * ?k0 + 16)" using s'(4) P(1) Q(4) by simp
  have "i_size (ino s' dp) mod 16 = 0" unfolding sz using dir_okD(6) [OF D] by (simp add: max_def)
  then have D': "dir_ok dev dp s'" using W s'(3,5) E(4) by (simp add: dir_ok_def)
  have fw: "fwrote dev dp (16 * ?k0) ?d s s'" using W(5) Q(10) by (simp add: fwrote_def)
  have "dirlink dp name inum s = Ok (0, s')"
    using s0(2) s1(3) st s'(1) P(1) by (simp add: dirlink_def k new_dent_def)
  moreover have "icache s' = (icache s)[dp := (ino s dp)\<lparr>i_addrs := i_addrs (ino s' dp),
      i_size := (if ?d = [] then i_size (ino s1 dp) else max (i_size (ino s1 dp)) (16 * ?k0 + length ?d))\<rparr>]"
    using s'(2) unfolding written_def Q(4) by blast
  ultimately show ?thesis
    using s0(2) D' dlookup_written [OF D sz fw inum no lim] by blast
qed

section \<open>Properties of directories\<close>

text \<open>
  C18. A directory is a partial function from names (their first 14 characters) to inode numbers, and
  \<open>dirlookup\<close> and \<open>dirlink\<close> implement lookup and extension. \<open>dirlookup\<close> returns nothing when the
  name is not bound, otherwise the result of \<open>iget\<close> on the bound inode number. \<open>dirlink\<close> of an
  unbound name returns 0, binds exactly that name, reuses the first empty entry, leaves every
  other name bound as before and keeps the directory well-formed.\<close>

theorem dirlink_dirlookup_correct:
  fixes s :: "'a fsst_scheme"
  assumes D: "dir_ok dev dp s" and nm: "name_ok name" and no: "dlookup dev dp s name = None"
    and inum: "0 < inum" "inum < 2 ^ 16" and i: "i_inum (ino s dp) < sb_ninodes (sb s)" "dinode_ok (ino_dinode (ino s dp))"
    and lim: "16 * free_slot dev dp s + 16 \<le> MAXBYTES"
    and r: "room (1 + 3 * wmiss (nodes dev s dp) (16 * free_slot dev dp s) 16 + length (fblocks (16 * free_slot dev dp s) 16)) s"
    and n: "wmiss (nodes dev s dp) (16 * free_slot dev dp s) 16 \<le> nfree dev s"
  shows "\<exists>s0 s'. dirlookup dp name s = Ok (None, s0) \<and> dirlink dp name inum s = Ok (0, s') \<and> dir_ok dev dp s'
    \<and> (\<forall>nm. dlookup dev dp s' nm = (if take DIRSIZ (cstr nm) = take DIRSIZ (cstr name) then Some inum else dlookup dev dp s nm))
    \<and> (\<forall>nm k. name_ok nm \<longrightarrow> dlookup dev dp s' nm = Some k \<longrightarrow> (\<exists>off t. quiet s' t
         \<and> dirlookup dp nm s' = rbind (iget dev k t) (\<lambda>(ip, u). Ok (Some (ip, off), u))))"
proof -
  obtain s0 s' where s': "dirlookup dp name s = Ok (None, s0)" "dirlink dp name inum s = Ok (0, s')" "dir_ok dev dp s'"
      "\<forall>nm. dlookup dev dp s' nm = (if take DIRSIZ (cstr nm) = take DIRSIZ (cstr name) then Some inum else dlookup dev dp s nm)"
    using dirlink_ok [OF assms] by blast
  have "\<exists>off t. quiet s' t \<and> dirlookup dp nm s' = rbind (iget dev k t) (\<lambda>(ip, u). Ok (Some (ip, off), u))"
    if x: "name_ok nm" "dlookup dev dp s' nm = Some k" for nm k
  proof -
    obtain z where z: "search (dmatch dev dp s' nm) 0 (nents dp s') = Some z" "k = de_inum (dent dev dp s' z)"
      using x(2) by (auto simp: dlookup_def)
    then show ?thesis using dirlookup_ok [OF s'(3) x(1)] by auto
  qed
  then show ?thesis using s' by blast
qed

definition dir_demo :: fsst where
  "dir_demo = upd_ino 0 (\<lambda>i. i\<lparr>i_type := T_DIR\<rparr>) fs_demo"

lemma ino_dir_demo: "ino dir_demo 0 = ino_demo\<lparr>i_type := T_DIR\<rparr>"
  using ftreeD(1) [OF ftree_demo(1)] by (simp add: dir_demo_def ino_upd_ino icache_demo)

lemma dir_ok_demo: "dir_ok 1 0 dir_demo" "nodes 1 dir_demo 0 = nodes 1 fs_demo 0"
proof -
  have l: "0 < length (icache fs_demo)" by (rule ftreeD(1) [OF ftree_demo(1)])
  show n: "nodes 1 dir_demo 0 = nodes 1 fs_demo 0"
    by (simp add: ino_dir_demo icache_demo) (simp add: dir_demo_def)
  have "ftree 1 0 dir_demo"
    by (rule ftree_cong(1) [OF ftree_demo(1)]; use l in \<open>simp add: dir_demo_def ino_upd_ino icache_demo ino_demo_def used_def\<close>)
  then show "dir_ok 1 0 dir_demo"
    unfolding dir_ok_def dense_def using fs_wf_demo(1) fs_demo_simps(2,3)
    by (auto simp: ino_dir_demo ino_demo_def) (auto simp: dir_demo_def)
qed

lemma dirlink_demo:
  "dlookup 1 0 dir_demo nm = None" "16 * free_slot 1 0 dir_demo + 16 \<le> MAXBYTES"
  "room (1 + 3 * wmiss (nodes 1 dir_demo 0) (16 * free_slot 1 0 dir_demo) 16 + length (fblocks (16 * free_slot 1 0 dir_demo) 16)) dir_demo"
  "wmiss (nodes 1 dir_demo 0) (16 * free_slot 1 0 dir_demo) 16 \<le> nfree 1 dir_demo"
  "i_inum (ino dir_demo 0) < sb_ninodes (sb dir_demo)" "dinode_ok (ino_dinode (ino dir_demo 0))"
proof -
  show "dlookup 1 0 dir_demo nm = None" by (simp add: dlookup_def ino_dir_demo ino_demo_def search.simps)
  have e: "free_slot 1 0 dir_demo = 0" by (simp add: free_slot_def ino_dir_demo ino_demo_def search.simps)
  have w: "length (fblocks 0 16) = 1" "wmiss (nodes 1 dir_demo 0) 0 16 = 1"
    using ftree_demo(2) unfolding dir_ok_demo(2) by (simp_all add: wmiss_def fblocks_def missing_def pos_of_def)
  have nf: "nfree 1 dir_demo = 64" using nfree_demo by (simp add: dir_demo_def nfree_def used_def)
  have "room 5 dir_demo" using room_mono [OF fs_demo_simps(4), of 5] by (simp add: dir_demo_def)
  then show "room (1 + 3 * wmiss (nodes 1 dir_demo 0) (16 * free_slot 1 0 dir_demo) 16 + length (fblocks (16 * free_slot 1 0 dir_demo) 16)) dir_demo"
      "wmiss (nodes 1 dir_demo 0) (16 * free_slot 1 0 dir_demo) 16 \<le> nfree 1 dir_demo" "16 * free_slot 1 0 dir_demo + 16 \<le> MAXBYTES"
    unfolding e mult_0_right w nf by simp_all
  have sbd: "sb dir_demo = sb_demo" by (simp add: dir_demo_def fs_demo_simps)
  show "i_inum (ino dir_demo 0) < sb_ninodes (sb dir_demo)" "dinode_ok (ino_dinode (ino dir_demo 0))"
    unfolding sbd ino_dir_demo by (simp_all add: ino_demo_def sb_demo_def dinode_ok_def ino_dinode_def)
qed

theorem dirlink_dirlookup_correct_witness:
  "\<exists>s'. dirlink 0 [97, 0] 7 dir_demo = Ok (0, s') \<and> dlookup 1 0 s' [97, 0] = Some 7 \<and> dlookup 1 0 s' [98, 0] = None"
proof -
  have nm: "name_ok [97, 0]" by (simp add: name_ok_def)
  obtain s' where "dirlink 0 [97, 0] 7 dir_demo = Ok (0, s')"
      "\<forall>nm. dlookup 1 0 s' nm = (if take DIRSIZ (cstr nm) = take DIRSIZ (cstr [97, 0]) then Some 7 else dlookup 1 0 dir_demo nm)"
    using dirlink_dirlookup_correct [OF dir_ok_demo(1) nm dirlink_demo(1) _ _ dirlink_demo(5,6,2-4), of 7] by auto
  then show ?thesis using dirlink_demo(1) by simp
qed

text \<open>
  \<open>dirlink\<close> of a name that is bound to the directory itself (the entry \<open>.\<close>) never returns: the
  caller holds the directory's sleep lock, \<open>dirlookup\<close> returns the directory's own inode, and the
  \<open>iput\<close> on the error path waits for the lock that the same process holds. \<open>link(f, "d/.")\<close>
  reaches this call.\<close>

theorem dirlink_self_deadlock:
  fixes s :: "'a fsst_scheme"
  assumes D: "dir_ok dev dp s" and nm: "name_ok name" and self: "dlookup dev dp s name = Some (i_inum (ino s dp))"
    and ic: "icache_ok s" "1 \<le> i_ref (ino s dp)" and lk: "sl_locked (i_lock (ino s dp))"
  shows "dirlink dp name inum s = Err (Sleeps (ChanInode dp))"
proof -
  obtain z where z: "search (dmatch dev dp s name) 0 (nents dp s) = Some z" "de_inum (dent dev dp s z) = i_inum (ino s dp)"
    using self by (auto simp: dlookup_def)
  obtain t where t: "quiet s t" "dirlookup dp name s = rbind (iget dev (i_inum (ino s dp)) t) (\<lambda>(ip, s). Ok (Some (ip, 16 * z), s))"
    using dirlookup_ok [OF D nm] z by auto
  note Q = quietD [OF t(1)]
  note E = dir_okD [OF D]
  have c: "icache_ok t" "dp < NINODE" "cached dev (i_inum (ino s dp)) t dp"
    using ic Q(4) E(11,12) by (auto simp: icache_ok_def)
  have "iget dev (i_inum (ino s dp)) t = Ok (dp, upd_ino dp (\<lambda>i. i\<lparr>i_ref := i_ref i + 1\<rparr>) t)"
    by (rule iget_hit(1) [OF c(1) _ c(2,3)]) (use Q(1) E(7) in simp)
  then have e: "dirlookup dp name s = Ok (Some (dp, 16 * z), upd_ino dp (\<lambda>i. i\<lparr>i_ref := i_ref i + 1\<rparr>) t)"
    using t(2) by simp
  have "iput dp (upd_ino dp (\<lambda>i. i\<lparr>i_ref := i_ref i + 1\<rparr>) t) = Err (Sleeps (ChanInode dp))"
    using lk Q(1,4) E(7,11) by (simp add: iput_def ino_upd_ino acquiresleep_waits)
  then show ?thesis using e by (simp add: dirlink_def)
qed

theorem dirlink_self_deadlock_witness:
  "\<exists>s'. dirlink 0 [46, 0] 1 dir_demo = Ok (0, s') \<and> dirlink 0 [46, 0] 5 s' = Err (Sleeps (ChanInode 0))"
proof -
  have nm: "name_ok [46, 0]" by (simp add: name_ok_def)
  obtain s' as sz where s': "dirlink 0 [46, 0] 1 dir_demo = Ok (0, s')" "dir_ok 1 0 s'"
      "\<forall>nm. dlookup 1 0 s' nm = (if take DIRSIZ (cstr nm) = take DIRSIZ (cstr [46, 0]) then Some 1 else dlookup 1 0 dir_demo nm)"
      "icache s' = (icache dir_demo)[0 := (ino dir_demo 0)\<lparr>i_addrs := as, i_size := sz\<rparr>]"
    using dirlink_ok [OF dir_ok_demo(1) nm dirlink_demo(1) _ _ dirlink_demo(5,6,2-4), of 1] by auto
  have l: "length (icache dir_demo) = NINODE" using icache_demo(1) by (simp add: dir_demo_def icache_ok_def)
  have i: "ino s' 0 = ino_demo\<lparr>i_type := T_DIR, i_addrs := as, i_size := sz\<rparr>"
    using arg_cong [OF s'(4), of "\<lambda>l. l ! 0"] l by (simp add: ino_dir_demo)
  have j: "ino s' j = ino fs_demo j" if "j \<noteq> 0" for j
    using arg_cong [OF s'(4), of "\<lambda>l. l ! j"] that by (simp add: dir_demo_def upd_ino_def)
  have r: "i_ref (ino s' j) = i_ref (ino fs_demo j)" "i_dev (ino s' j) = i_dev (ino fs_demo j)" "i_inum (ino s' j) = i_inum (ino fs_demo j)" for j
    using i j [of j] by (cases "j = 0"; simp add: icache_demo)+
  have ok: "icache_ok s'" using icache_demo(1) l s'(4) unfolding icache_ok_def r by simp
  have "dlookup 1 0 s' [46, 0] = Some (i_inum (ino s' 0))" using s'(3) i by (simp add: ino_demo_def)
  then show ?thesis
    using dirlink_self_deadlock [OF s'(2) nm _ ok, of 5] s'(1) i by (auto simp: ino_demo_def)
qed

end
