(* ===== verification/Proc.thy ===== *)
theory Proc
  imports File Vm Dir
begin

text \<open>
  The life of a process, proc.c: \<open>allocproc\<close>, \<open>userinit\<close>, \<open>growproc\<close>, \<open>fork\<close>, \<open>exit\<close>,
  \<open>killzombie\<close> and \<open>wait\<close>. In this kernel a process is a main thread with up to 63 further threads
  in its array \<open>cthread\<close>, each a slot of the process table of its own. A routine that sleeps or exits
  stops at the switch to the scheduler; \<open>wait\<close> continues there with \<open>wait_resume\<close>.

  The trap frame and the context of a process lie on its kernel stack. The context is kept there, as
  bytes of the page; the trap frame is the field \<open>p_tf\<close>, which \<open>allocproc\<close> does not change because
  every caller fills it in.
\<close>

section \<open>State\<close>

text \<open>\<open>l_forkret\<close>, \<open>l_trapret\<close> and \<open>l_data\<close> are addresses the linker assigns.\<close>

record procst = filest +
  nextpid :: int
  initproc :: "nat option"
  l_forkret :: nat
  l_trapret :: nat
  l_data :: nat
  forkret_first :: bool

abbreviation pr :: "'a kst_scheme \<Rightarrow> nat \<Rightarrow> proc" where
  "pr s p \<equiv> procs (pt s) p"

definition modp :: "nat \<Rightarrow> (proc \<Rightarrow> proc) \<Rightarrow> 'a kst_scheme \<Rightarrow> 'a kst_scheme" where
  "modp p f s = s\<lparr>pt := upd_proc p f (pt s)\<rparr>"

text \<open>A pointer as the number it is.\<close>

definition addr_of :: "nat option \<Rightarrow> nat" where
  "addr_of x = (case x of None \<Rightarrow> 0 | Some a \<Rightarrow> a)"

definition to_ptr :: "nat \<Rightarrow> nat option" where
  "to_ptr a = (if a = 0 then None else Some a)"

definition myproc :: "'a kst_scheme \<Rightarrow> nat result" where
  "myproc s = (case curproc s of None \<Rightarrow> Err (Fault ''myproc'') | Some p \<Rightarrow> Ok p)"

definition mthread_of :: "nat \<Rightarrow> 'a kst_scheme \<Rightarrow> nat result" where
  "mthread_of p s = (case p_mthread (pr s p) of None \<Rightarrow> Err (Fault ''mthread'') | Some m \<Rightarrow> Ok m)"

section \<open>Memory of the running process\<close>

text \<open>
  What the processor does when the kernel itself reads or writes at a user address: it goes through
  the page table, ignoring the user bit, and faults when there is no page or the page is read-only.
\<close>

function poke :: "nat \<Rightarrow> nat \<Rightarrow> bytes \<Rightarrow> 'a kmemst_scheme \<Rightarrow> 'a kmemst_scheme result" where
  "poke pgdir va bs s =
     (if bs = [] then Ok s
      else
        let va0 = PGROUNDDOWN va in
        rbind (walkpgdir pgdir va0 False s) (\<lambda>(pte, s).
        case pte of None \<Rightarrow> Err (Fault ''page fault'')
        | Some pte \<Rightarrow>
            if get_pte pte s AND PTE_P = 0 \<or> get_pte pte s AND PTE_W = 0 then Err (Fault ''page fault'')
            else
              let pa = P2V (PTE_ADDR (get_pte pte s)); n = min (PGSIZE - (va - va0)) (length bs) in
              poke pgdir (u32 (va0 + PGSIZE)) (drop n bs) (fill_page pa (blit (pages s pa) (va - va0) (take n bs)) s)))"
  by pat_completeness auto
termination
proof (relation "measure (\<lambda>(pgdir, va, bs, s). length bs)")
  fix va :: nat and bs :: bytes
  assume "bs \<noteq> []"
  moreover have "va - PGROUNDDOWN va < PGSIZE" by (simp add: PGROUNDDOWN_def minus_div_mult_eq_mod)
  ultimately show "((pgdir, u32 (x + PGSIZE), drop n bs, s'), pgdir, va, bs, s) \<in> measure (\<lambda>(pgdir, va, bs, s). length bs)"
    if "x = PGROUNDDOWN va" "n = min (PGSIZE - (va - x)) (length bs)" for pgdir x n s s'
    using that by auto
qed simp

declare poke.simps [simp del]

function peek :: "nat \<Rightarrow> nat \<Rightarrow> nat \<Rightarrow> 'a kmemst_scheme \<Rightarrow> bytes result" where
  "peek pgdir va k s =
     (if k = 0 then Ok []
      else
        let va0 = PGROUNDDOWN va; n = min (PGSIZE - (va - va0)) k in
        rbind (walkpgdir pgdir va0 False s) (\<lambda>(pte, s).
        case pte of None \<Rightarrow> Err (Fault ''page fault'')
        | Some pte \<Rightarrow>
            if get_pte pte s AND PTE_P = 0 then Err (Fault ''page fault'')
            else rbind (peek pgdir (u32 (va0 + PGSIZE)) (k - n) s) (\<lambda>r.
              Ok (slice (pages s (P2V (PTE_ADDR (get_pte pte s)))) (va - va0) n @ r))))"
  by pat_completeness auto
termination
proof (relation "measure (\<lambda>(pgdir, va, k, s). k)")
  fix va k :: nat
  assume "k \<noteq> 0"
  moreover have "va - PGROUNDDOWN va < PGSIZE" by (simp add: PGROUNDDOWN_def minus_div_mult_eq_mod)
  ultimately show "((pgdir, u32 (x + PGSIZE), k - n, s'), pgdir, va, k, s) \<in> measure (\<lambda>(pgdir, va, k, s). k)"
    if "x = PGROUNDDOWN va" "n = min (PGSIZE - (va - x)) k" for pgdir x n s s'
    using that by auto
qed simp

declare peek.simps [simp del]

section \<open>Creating processes\<close>

text \<open>
  The top of a new kernel stack: 76 bytes for the trap frame, the address \<open>trapret\<close> below it, and a
  context of five words below that, all zero but \<open>eip\<close>, the last one, which is \<open>forkret\<close>.
\<close>

definition kstack_image :: "nat \<Rightarrow> nat \<Rightarrow> bytes \<Rightarrow> bytes" where
  "kstack_image forkret trapret d =
     (let d = put_u32 d (PGSIZE - 76 - 4) trapret; d = blit d (PGSIZE - 76 - 4 - 20) (replicate 20 0)
      in put_u32 d (PGSIZE - 76 - 4 - 20 + 16) forkret)"

text \<open>The assignments to the slot that was found; \<open>pid\<close> is \<open>nextpid++\<close>.\<close>

definition new_proc :: "nat \<Rightarrow> int \<Rightarrow> int \<Rightarrow> proc \<Rightarrow> proc" where
  "new_proc p pid minpass q = q\<lparr>p_state := EMBRYO, p_pid := pid, p_chan := None, p_killed := False, p_ticks := 0,
     p_curticks := 0, p_priority := 0, p_timequantum := 1, p_timeallotment := 5, p_percentage := 0,
     p_pass := minpass, p_inqueue := False, p_tid := pid, p_mthread := Some p,
     p_cthread := (replicate NPROC None)[0 := Some p], p_ret := replicate NPROC 0, p_ustack := replicate NPROC 0,
     p_rrlast := 0\<rparr>"

definition allocproc :: "'a procst_scheme \<Rightarrow> (nat option \<times> 'a procst_scheme) result" where
  "allocproc s = rbind (acquire PtableLock s) (\<lambda>s.
     case search (\<lambda>p. p_state (pr s p) = UNUSED) 0 NPROC of
       None \<Rightarrow> rbind (release PtableLock s) (\<lambda>s. Ok (None, s))
     | Some p \<Rightarrow>
         rbind (int32 (nextpid s + 1)) (\<lambda>next.
         let s = (modp p (new_proc p (nextpid s) (pt_minpass (pt s))) s)\<lparr>nextpid := next\<rparr> in
         rbind (release PtableLock s) (\<lambda>s.
         rbind (kalloc s) (\<lambda>(k, s).
         let s = modp p (\<lambda>q. q\<lparr>p_kstack := to_ptr k\<rparr>) s in
         if k = 0 then Ok (None, modp p (\<lambda>q. q\<lparr>p_state := UNUSED\<rparr>) s)
         else
           let s = fill_page k (kstack_image (l_forkret s) (l_trapret s) (pages s k)) s
           in Ok (Some p, modp p (\<lambda>q. q\<lparr>p_context := Some (k + PGSIZE - 76 - 4 - 20)\<rparr>) s)))))"

text \<open>The end of \<open>userinit\<close> and \<open>fork\<close>: the new process enters the highest queue.\<close>

definition make_runnable :: "nat \<Rightarrow> 'a kst_scheme \<Rightarrow> 'a kst_scheme result" where
  "make_runnable p s =
     rbind (acquire PtableLock s) (\<lambda>s.
     rbind (initpush 0 p (upd_proc p (\<lambda>q. q\<lparr>p_state := RUNNABLE\<rparr>) (pt s))) (\<lambda>t.
     release PtableLock (s\<lparr>pt := upd_proc p (\<lambda>q. q\<lparr>p_pass := pt_minpass t\<rparr>) t\<rparr>)))"

definition userinit :: "bytes \<Rightarrow> 'a procst_scheme \<Rightarrow> 'a procst_scheme result" where
  "userinit initcode s =
     rbind (allocproc s) (\<lambda>(np, s).
     let s = s\<lparr>initproc := np\<rparr> in
     case np of None \<Rightarrow> Err (Fault ''userinit'') | Some p \<Rightarrow>
     rbind (setupkvm (l_data s) s) (\<lambda>(g, s).
     let s = modp p (\<lambda>q. q\<lparr>p_pgdir := to_ptr g\<rparr>) s in
     if g = 0 then Err (Panic ''userinit: out of memory?'')
     else rbind (inituvm g initcode s) (\<lambda>s.
       let s = modp p (\<lambda>q. q\<lparr>p_sz := PGSIZE, p_tf := zero_tf\<lparr>tf_cs := push_bit 3 3 OR 3, tf_ds := push_bit 3 4 OR 3,
           tf_es := push_bit 3 4 OR 3, tf_ss := push_bit 3 4 OR 3, tf_eflags := 0x200, tf_esp := PGSIZE, tf_eip := 0\<rparr>,
           p_parent := Some p\<rparr>) s in
       rbind (safestrcpy (p_name (pr s p)) (map (word_of_nat \<circ> of_char) ''initcode'' @ [0]) 16) (\<lambda>nm.
       rbind (namei [slash] (modp p (\<lambda>q. q\<lparr>p_name := nm\<rparr>) s)) (\<lambda>(ip, s).
       make_runnable p (modp p (\<lambda>q. q\<lparr>p_cwd := ip\<rparr>) s))))))"

definition growproc :: "int \<Rightarrow> 'a procst_scheme \<Rightarrow> (int \<times> 'a procst_scheme) result" where
  "growproc n s =
     rbind (myproc s) (\<lambda>p.
     rbind (mthread_of p s) (\<lambda>m.
     let sz = p_sz (pr s m); g = addr_of (p_pgdir (pr s p)); new = nat ((int sz + n) mod 2 ^ 32) in
     rbind (if n > 0 then allocuvm g sz new s else if n < 0 then deallocuvm g sz new s else Ok (sz, s)) (\<lambda>(sz, s).
     if n \<noteq> 0 \<and> sz = 0 then Ok (-1, s)
     else
       let s = fold (\<lambda>i s. case p_cthread (pr s m) ! i of None \<Rightarrow> s | Some c \<Rightarrow> modp c (\<lambda>q. q\<lparr>p_sz := sz\<rparr>) s) [0..<NPROC] s in
       rbind (switchuvm (Some p) s) (\<lambda>s. Ok (0, s)))))"

text \<open>
  A thread other than the main thread forks: its stack page is copied to the page of the main
  thread's stack, and the stack pointer is moved there.
\<close>

definition fork_ustack :: "nat \<Rightarrow> nat \<Rightarrow> nat \<Rightarrow> nat \<Rightarrow> 'a procst_scheme \<Rightarrow> 'a procst_scheme result" where
  "fork_ustack np cur m i s =
     (let s = modp np (\<lambda>q. q\<lparr>p_ustack := (p_ustack q)[i := p_ustack (pr s m) ! i]\<rparr>) s in
      if p_cthread (pr s m) ! i = Some cur \<and> i \<noteq> 0 then
        let g = addr_of (p_pgdir (pr s np)); us = p_ustack (pr s np) in
        rbind (walkpgdir g (u32 (us ! i + 2 ^ 32 - PGSIZE)) False s) (\<lambda>(pteo, s).
        case pteo of None \<Rightarrow> Err (Fault ''fork'') | Some pteo \<Rightarrow>
        let pao = PTE_ADDR (get_pte pteo s) in
        rbind (walkpgdir g (u32 (us ! 0 + 2 ^ 32 - PGSIZE)) False s) (\<lambda>(pten, s).
        case pten of None \<Rightarrow> Err (Fault ''fork'') | Some pten \<Rightarrow>
        let pan = PTE_ADDR (get_pte pten s); s = fill_page (P2V pan) (pages s (P2V pao)) s in
        Ok (modp np (\<lambda>q. q\<lparr>p_tf := (p_tf q)\<lparr>tf_esp := u32 (tf_esp (p_tf q) + 2 ^ 32 - us ! i + us ! 0)\<rparr>\<rparr>) s)))
      else Ok s)"

text \<open>The loops of \<open>fork\<close> and \<open>thread_create\<close> over the open files.\<close>

definition dup_files :: "nat \<Rightarrow> nat \<Rightarrow> 'a procst_scheme \<Rightarrow> 'a procst_scheme result" where
  "dup_files from np s = rfold (\<lambda>i s. case p_ofile (pr s from) ! i of None \<Rightarrow> Ok s
     | Some f \<Rightarrow> rbind (filedup f s) (\<lambda>(f, s). Ok (modp np (\<lambda>q. q\<lparr>p_ofile := (p_ofile q)[i := Some f]\<rparr>) s))) [0..<NOFILE] s"

definition dup_cwd :: "nat \<Rightarrow> nat \<Rightarrow> 'a procst_scheme \<Rightarrow> 'a procst_scheme result" where
  "dup_cwd from np s = (case p_cwd (pr s from) of None \<Rightarrow> Err (Fault ''idup'')
     | Some ip \<Rightarrow> rbind (idup ip s) (\<lambda>(ip, s). Ok (modp np (\<lambda>q. q\<lparr>p_cwd := Some ip\<rparr>) s)))"

definition fork :: "'a procst_scheme \<Rightarrow> (int \<times> 'a procst_scheme) result" where
  "fork s =
     rbind (myproc s) (\<lambda>cur.
     rbind (mthread_of cur s) (\<lambda>m.
     rbind (allocproc s) (\<lambda>(np, s).
     case np of None \<Rightarrow> Ok (-1, s) | Some np \<Rightarrow>
     rbind (copyuvm (l_data s) (addr_of (p_pgdir (pr s cur))) (p_sz (pr s cur)) s) (\<lambda>(g, s).
     let s = modp np (\<lambda>q. q\<lparr>p_pgdir := to_ptr g\<rparr>) s in
     if g = 0 then
       rbind (kfree (addr_of (p_kstack (pr s np))) s) (\<lambda>s.
       Ok (-1, modp np (\<lambda>q. q\<lparr>p_kstack := None, p_state := UNUSED\<rparr>) s))
     else
       let s = modp np (\<lambda>q. q\<lparr>p_sz := p_sz (pr s cur), p_parent := Some m, p_tf := p_tf (pr s cur)\<rparr>) s in
       rbind (rfold (fork_ustack np cur m) [0..<NPROC] s) (\<lambda>s.
       let s = modp np (\<lambda>q. q\<lparr>p_tf := (p_tf q)\<lparr>tf_eax := 0\<rparr>\<rparr>) s in
       rbind (dup_files cur np s) (\<lambda>s.
       rbind (dup_cwd cur np s) (\<lambda>s.
       rbind (safestrcpy (p_name (pr s np)) (p_name (pr s cur)) 16) (\<lambda>nm.
       let s = modp np (\<lambda>q. q\<lparr>p_name := nm\<rparr>) s; pid = p_pid (pr s np) in
       rbind (make_runnable np s) (\<lambda>s. Ok (pid, s))))))))))"

text \<open>The first process to run initialises the file system.\<close>

definition forkret :: "'a procst_scheme \<Rightarrow> 'a procst_scheme result" where
  "forkret s = rbind (release PtableLock s) (\<lambda>s.
     if forkret_first s then rbind (iinit ROOTDEV (s\<lparr>forkret_first := False\<rparr>)) (initlog ROOTDEV) else Ok s)"

section \<open>Ending processes\<close>

definition close_files :: "nat \<Rightarrow> 'a procst_scheme \<Rightarrow> 'a procst_scheme result" where
  "close_files c s = rfold (\<lambda>fd s. case p_ofile (pr s c) ! fd of None \<Rightarrow> Ok s
     | Some f \<Rightarrow> rbind (fileclose f s) (\<lambda>s. Ok (modp c (\<lambda>q. q\<lparr>p_ofile := (p_ofile q)[fd := None]\<rparr>) s))) [0..<NOFILE] s"

definition drop_cwd :: "nat \<Rightarrow> 'a procst_scheme \<Rightarrow> 'a procst_scheme result" where
  "drop_cwd c s = (case p_cwd (pr s c) of None \<Rightarrow> Ok s
     | Some ip \<Rightarrow> rbind (begin_op s) (\<lambda>s. rbind (iput ip s) (\<lambda>s. rbind (end_op s) (\<lambda>s.
         Ok (modp c (\<lambda>q. q\<lparr>p_cwd := None\<rparr>) s)))))"

text \<open>The assignments that \<open>killzombie\<close> and \<open>wait\<close> make to a slot they free, and the share they give back.\<close>

definition reset_proc :: "proc \<Rightarrow> proc" where
  "reset_proc q = q\<lparr>p_ticks := 0, p_curticks := 0, p_priority := 0, p_timequantum := 1, p_timeallotment := 5,
     p_percentage := 0, p_pass := 0\<rparr>"

definition free_slot_share :: "nat \<Rightarrow> 'a kst_scheme \<Rightarrow> 'a kst_scheme result" where
  "free_slot_share p s =
     rbind (if p_inqueue (pr s p) then pop p (pt s) else Ok (pt s)) (\<lambda>t.
     rbind (int32 (m_percentage (pt_mlfq t) + p_percentage (procs t p))) (\<lambda>x.
     Ok (s\<lparr>pt := upd_proc p reset_proc (set_mlfq_share x t)\<rparr>)))"

definition free_thread :: "nat \<Rightarrow> 'a procst_scheme \<Rightarrow> 'a procst_scheme result" where
  "free_thread p s =
     rbind (kfree (addr_of (p_kstack (pr s p))) s) (\<lambda>s.
     free_slot_share p (modp p (\<lambda>q. q\<lparr>p_kstack := None, p_pid := 0, p_parent := None, p_name := (p_name q)[0 := 0],
       p_killed := False, p_chan := None, p_state := UNUSED\<rparr>) s))"

definition killzombie :: "nat \<Rightarrow> 'a procst_scheme \<Rightarrow> 'a procst_scheme result" where
  "killzombie cur s =
     rbind (mthread_of cur s) (\<lambda>m.
     rfold (\<lambda>i s. case p_cthread (pr s m) ! i of None \<Rightarrow> Ok s
       | Some p \<Rightarrow> if p_state (pr s p) = ZOMBIE \<and> p \<noteq> cur
           then free_thread p (modp m (\<lambda>q. q\<lparr>p_cthread := (p_cthread q)[i := None]\<rparr>) s)
           else Ok s) [1..<NPROC] s)"

text \<open>\<open>exit\<close> up to its call of \<open>sched\<close>, which does not return.\<close>

definition exit :: "'a procst_scheme \<Rightarrow> 'a procst_scheme result" where
  "exit s =
     rbind (myproc s) (\<lambda>cur.
     rbind (mthread_of cur s) (\<lambda>m.
     if Some cur = initproc s then Err (Panic ''init exiting'')
     else rbind (rfold (\<lambda>i s. case p_cthread (pr s m) ! i of None \<Rightarrow> Ok s
         | Some c \<Rightarrow> rbind (close_files c s) (drop_cwd c)) [0..<NPROC] s) (\<lambda>s.
       rbind (acquire PtableLock s) (\<lambda>s.
       let s = fold (\<lambda>i s. case p_cthread (pr s m) ! i of None \<Rightarrow> s | Some c \<Rightarrow> set_state c ZOMBIE s) [0..<NPROC] s;
           s = s\<lparr>pt := wakeup1 (map_option ChanProc (p_parent (pr s m))) (pt s)\<rparr>;
           s = fold (\<lambda>p s. if p_parent (pr s p) = Some m then
                  let s = modp p (\<lambda>q. q\<lparr>p_parent := p_parent (pr s m)\<rparr>) s in
                  if p_state (pr s p) = ZOMBIE then s\<lparr>pt := wakeup1 (map_option ChanProc (p_parent (pr s m))) (pt s)\<rparr> else s
                else s) [0..<NPROC] s in
       rbind (killzombie cur s) sched))))"

text \<open>
  \<open>wait\<close>: the scan for an exited child, with \<open>ptable.lock\<close> held. The threads of the child that are
  not yet zombies are ended here.
\<close>

definition end_threads :: "nat \<Rightarrow> 'a procst_scheme \<Rightarrow> 'a procst_scheme result" where
  "end_threads p s = rfold (\<lambda>i s. case p_cthread (pr s p) ! i of None \<Rightarrow> Ok s
     | Some c \<Rightarrow> if p_state (pr s c) \<noteq> ZOMBIE
         then rbind (close_files c s) (\<lambda>s. rbind (drop_cwd c s) (\<lambda>s. Ok (set_state c ZOMBIE s))) else Ok s) [1..<NPROC] s"

text \<open>From \<open>pid = p->pid\<close> on.\<close>

definition reap_main :: "nat \<Rightarrow> 'a procst_scheme \<Rightarrow> (int \<times> 'a procst_scheme) result" where
  "reap_main p s =
     (let pid = p_pid (pr s p) in
      rbind (kfree (addr_of (p_kstack (pr s p))) s) (\<lambda>s.
      let s = modp p (\<lambda>q. q\<lparr>p_kstack := None, p_pid := 0\<rparr>) s in
      rbind (freevm (addr_of (p_pgdir (pr s p))) s) (\<lambda>s.
      rbind (free_slot_share p (modp p (\<lambda>q. q\<lparr>p_parent := None, p_name := (p_name q)[0 := 0], p_killed := False,
        p_chan := None, p_state := UNUSED\<rparr>) s)) (\<lambda>s. Ok (pid, s)))))"

definition reap :: "nat \<Rightarrow> 'a procst_scheme \<Rightarrow> (int \<times> 'a procst_scheme) result" where
  "reap p s = rbind (end_threads p s) (\<lambda>s. rbind (killzombie p s) (reap_main p))"

definition is_child :: "nat \<Rightarrow> 'a kst_scheme \<Rightarrow> nat \<Rightarrow> bool" where
  "is_child m s p \<longleftrightarrow> p_parent (pr s p) = Some m \<and> p_mthread (pr s p) = Some p"

definition wait_loop :: "'a procst_scheme \<Rightarrow> ((int, unit) run \<times> 'a procst_scheme) result" where
  "wait_loop s =
     rbind (myproc s) (\<lambda>cur.
     rbind (mthread_of cur s) (\<lambda>m.
     case search (\<lambda>p. is_child m s p \<and> p_state (pr s p) = ZOMBIE) 0 NPROC of
       Some p \<Rightarrow> rbind (reap p s) (\<lambda>(pid, s). rbind (release PtableLock s) (\<lambda>s. Ok (Done pid, s)))
     | None \<Rightarrow>
         if search (is_child m s) 0 NPROC = None \<or> p_killed (pr s m)
         then rbind (release PtableLock s) (\<lambda>s. Ok (Done (-1), s))
         else rbind (sleep_enter (ChanProc m) PtableLock s) (\<lambda>s. Ok (Blocked (), s))))"

definition wait :: "'a procst_scheme \<Rightarrow> ((int, unit) run \<times> 'a procst_scheme) result" where
  "wait s = rbind (acquire PtableLock s) wait_loop"

definition wait_resume :: "'a procst_scheme \<Rightarrow> ((int, unit) run \<times> 'a procst_scheme) result" where
  "wait_resume s = rbind (sleep_leave PtableLock s) wait_loop"

section \<open>User memory\<close>

text \<open>The byte at a user address.\<close>

definition present :: "nat \<Rightarrow> 'a kmemst_scheme \<Rightarrow> nat \<Rightarrow> bool" where
  "present g s a \<longleftrightarrow> odd (pte_at (pages s) g (PDX a) (PTX a))"

definition upage :: "nat \<Rightarrow> 'a kmemst_scheme \<Rightarrow> nat \<Rightarrow> bytes" where
  "upage g s a = pages s (P2V (PTE_ADDR (pte_at (pages s) g (PDX a) (PTX a))))"

definition ubyte :: "nat \<Rightarrow> 'a kmemst_scheme \<Rightarrow> nat \<Rightarrow> uchar" where
  "ubyte g s a = upage g s a ! (a mod PGSIZE)"

definition ubytes :: "nat \<Rightarrow> 'a kmemst_scheme \<Rightarrow> nat \<Rightarrow> nat \<Rightarrow> bytes" where
  "ubytes g s a k = map (ubyte g s) [a..<a + k]"

lemma page_of: "PDX (PGROUNDDOWN a) = PDX a" "PTX (PGROUNDDOWN a) = PTX a" "a - PGROUNDDOWN a = a mod PGSIZE" "PGROUNDDOWN a \<le> a"
proof -
  have d: "PGROUNDDOWN a div 4096 = a div 4096" by (simp add: PGROUNDDOWN_def)
  have q: "x div 2 ^ 22 = x div 4096 div 1024" for x :: nat by (simp add: div_mult2_eq)
  show "PDX (PGROUNDDOWN a) = PDX a" "PTX (PGROUNDDOWN a) = PTX a" unfolding PDX_PTX q d by simp_all
  show "a - PGROUNDDOWN a = a mod PGSIZE" by (simp add: PGROUNDDOWN_def minus_div_mult_eq_mod)
  show "PGROUNDDOWN a \<le> a" by (simp add: PGROUNDDOWN_def)
qed

lemma same_page:
  assumes "a mod PGSIZE + j < PGSIZE"
  shows "upage g s (a + j) = upage g s a" "(a + j) mod PGSIZE = a mod PGSIZE + j" "present g s (a + j) = present g s a"
proof -
  have "PGROUNDDOWN (a + j) = PGROUNDDOWN a" and m: "(a + j) mod PGSIZE = a mod PGSIZE + j"
  proof -
    obtain q k where q: "a = 4096 * q + k" "k < 4096" by (rule that [of "a div 4096" "a mod 4096"]) simp_all
    then have "k + j < 4096" using assms by simp
    then have "(4096 * q + (k + j)) div 4096 = q" "(4096 * q + (k + j)) mod 4096 = k + j" by simp_all
    then have "(a + j) div 4096 = a div 4096" "(a + j) mod 4096 = a mod 4096 + j" using q by (simp_all add: add.assoc)
    then show "PGROUNDDOWN (a + j) = PGROUNDDOWN a" "(a + j) mod PGSIZE = a mod PGSIZE + j" by (simp_all add: PGROUNDDOWN_def)
  qed
  then have "PDX (a + j) = PDX a" "PTX (a + j) = PTX a" using page_of(1,2) by metis+
  then show "upage g s (a + j) = upage g s a" "present g s (a + j) = present g s a" by (simp_all add: upage_def present_def)
  show "(a + j) mod PGSIZE = a mod PGSIZE + j" by (rule m)
qed

lemma walk_present:
  assumes "present g s a"
  shows "walkpgdir g (PGROUNDDOWN a) False s = Ok (Some (P2V (PTE_ADDR (pde_at (pages s) g (PDX a))), PTX a), s)"
    "get_pte (P2V (PTE_ADDR (pde_at (pages s) g (PDX a))), PTX a) s = pte_at (pages s) g (PDX a) (PTX a)"
proof -
  have "odd (pde_at (pages s) g (PDX a))" using assms by (auto simp: present_def pte_at_def split: if_splits)
  then show "walkpgdir g (PGROUNDDOWN a) False s = Ok (Some (P2V (PTE_ADDR (pde_at (pages s) g (PDX a))), PTX a), s)"
    "get_pte (P2V (PTE_ADDR (pde_at (pages s) g (PDX a))), PTX a) s = pte_at (pages s) g (PDX a) (PTX a)"
    using walkpgdir_present [of s g "PGROUNDDOWN a" False] by (simp_all add: page_of get_pte_def pte_at_def)
qed

lemma ubytes_page:
  assumes "a mod PGSIZE + n \<le> PGSIZE" "length (upage g s a) = PGSIZE"
  shows "slice (upage g s a) (a mod PGSIZE) n = ubytes g s a n"
proof (rule nth_equalityI)
  show "length (slice (upage g s a) (a mod PGSIZE) n) = length (ubytes g s a n)" using assms by (simp add: ubytes_def)
  fix i assume "i < length (slice (upage g s a) (a mod PGSIZE) n)"
  then have i: "i < n" using assms by simp
  then have "a mod PGSIZE + i < PGSIZE" using assms(1) by simp
  note S = same_page(1) [OF this, of g s] same_page(2) [OF this]
  show "slice (upage g s a) (a mod PGSIZE) n ! i = ubytes g s a n ! i"
    using i assms S by (simp add: ubytes_def ubyte_def slice_def)
qed

text \<open>Reading mapped memory returns its bytes.\<close>

lemma peek_ok:
  assumes "\<And>x. a \<le> x \<Longrightarrow> x < a + k \<Longrightarrow> present g s x \<and> length (upage g s x) = PGSIZE" "a + k \<le> 2 ^ 32"
  shows "peek g a k s = Ok (ubytes g s a k)"
  using assms
proof (induction k arbitrary: a rule: less_induct)
  case (less k)
  show ?case
  proof (cases "k = 0")
    case True
    then show ?thesis by (simp add: peek.simps ubytes_def)
  next
    case False
    let ?n = "min (PGSIZE - a mod PGSIZE) k"
    have pa: "present g s a" "length (upage g s a) = PGSIZE" using less.prems(1) [of a] False by auto
    note W = walk_present [OF pa(1)]
    have n: "0 < ?n" "a mod PGSIZE + ?n \<le> PGSIZE" "?n \<le> k" using False by auto
    have r: "peek g (u32 (PGROUNDDOWN a + PGSIZE)) (k - ?n) s = Ok (ubytes g s (a + ?n) (k - ?n))"
    proof (cases "k = ?n")
      case True
      then show ?thesis by (simp add: peek.simps ubytes_def)
    next
      case f: False
      then have e: "?n = PGSIZE - a mod PGSIZE" "?n < k" by auto
      have "PGROUNDDOWN a + PGSIZE = a + ?n" using e(1) page_of(3,4) [of a] by simp
      moreover have "u32 (a + ?n) = a + ?n" using e(2) less.prems(2) by (simp add: u32_def)
      moreover have "peek g (a + ?n) (k - ?n) s = Ok (ubytes g s (a + ?n) (k - ?n))"
        by (rule less.IH) (use n less.prems e(2) in auto)
      ultimately show ?thesis by simp
    qed
    have "peek g a k s = Ok (slice (upage g s a) (a mod PGSIZE) ?n @ ubytes g s (a + ?n) (k - ?n))"
      using False W pa(1) r by (subst peek.simps) (simp add: Let_def page_of upage_def present_def odd_iff_mod_2_eq_one)
    also have "\<dots> = Ok (ubytes g s a ?n @ ubytes g s (a + ?n) (k - ?n))" unfolding ubytes_page [OF n(2) pa(2)] ..
    also have "ubytes g s a ?n @ ubytes g s (a + ?n) (k - ?n) = ubytes g s a k"
      using n(3) upt_add_eq_append [of a "a + ?n" "k - ?n"] by (simp add: ubytes_def)
    finally show ?thesis .
  qed
qed

text \<open>Writing within a writable page changes the page at that place.\<close>

definition writable :: "nat \<Rightarrow> 'a kmemst_scheme \<Rightarrow> nat \<Rightarrow> bool" where
  "writable g s a \<longleftrightarrow> present g s a \<and> pte_at (pages s) g (PDX a) (PTX a) AND PTE_W \<noteq> 0"

lemma poke_page:
  assumes "writable g s a" "bs \<noteq> []" "a mod PGSIZE + length bs \<le> PGSIZE"
  shows "poke g a bs s = Ok (fill_page (P2V (PTE_ADDR (pte_at (pages s) g (PDX a) (PTX a)))) (blit (upage g s a) (a mod PGSIZE) bs) s)"
proof -
  have p: "present g s a" using assms(1) by (simp add: writable_def)
  have "min (PGSIZE - a mod PGSIZE) (length bs) = length bs" using assms(3) by simp
  then show ?thesis using walk_present [OF p] assms(1,2) p
    by (subst poke.simps) (simp add: Let_def page_of upage_def writable_def present_def odd_iff_mod_2_eq_one poke.simps)
qed

section \<open>Freeing slots\<close>

lemma modp_simps [simp]:
  "held (modp p f s) = held s" "curproc (modp p f s) = curproc s" "pt (modp p f s) = upd_proc p f (pt s)"
  "kmem_freelist (modp p f r) = kmem_freelist r" "pages (modp p f r) = pages r" "kern_end (modp p f r) = kern_end r"
  "kmem_use_lock (modp p f r) = kmem_use_lock r"
  by (simp_all add: modp_def)

definition shares_ok :: "ptable \<Rightarrow> bool" where
  "shares_ok t \<longleftrightarrow> share_inv t \<and> 0 \<le> m_percentage (pt_mlfq t) \<and> (\<forall>p<NPROC. 0 \<le> p_percentage (procs t p))"

lemma share_bound:
  assumes "shares_ok t" "p < NPROC"
  shows "m_percentage (pt_mlfq t) + p_percentage (procs t p) \<le> 100" "0 \<le> m_percentage (pt_mlfq t)" "0 \<le> p_percentage (procs t p)"
proof -
  have "p_percentage (procs t p) \<le> (\<Sum>p<NPROC. p_percentage (procs t p))"
    using assms by (intro member_le_sum) (auto simp: shares_ok_def)
  then show "m_percentage (pt_mlfq t) + p_percentage (procs t p) \<le> 100" using assms(1) by (simp add: shares_ok_def share_inv_def)
qed (use assms in \<open>auto simp: shares_ok_def\<close>)

lemma pop_procs:
  assumes inv: "mlfq_inv t" and p: "p < NPROC" "p_inqueue (procs t p)"
  obtains t' where "pop p t = Ok t'" "mlfq_inv t'" "pt_proc t' = (pt_proc t)[p := (procs t p)\<lparr>p_inqueue := False\<rparr>]"
    "m_percentage (pt_mlfq t') = m_percentage (pt_mlfq t)" "pt_minpass t' = pt_minpass t"
proof -
  obtain t' where t': "pop p t = Ok t'" "mlfq_inv t'" using mq.del_ok [OF inv, of p] p by (auto simp: in_pool_def)
  then obtain i where "pop_from i p t = Some t'" by (auto elim!: popE)
  then show ?thesis using that [OF t'] pop_from_frame by blast
qed

text \<open>The share of a freed slot goes back to the queues.\<close>

lemma free_slot_share_ok:
  fixes s :: "'a kst_scheme"
  assumes inv: "mlfq_inv (pt s)" and sh: "shares_ok (pt s)" and p: "p < NPROC"
  shows "\<exists>t. free_slot_share p s = Ok (s\<lparr>pt := t\<rparr>) \<and> mlfq_inv t \<and> shares_ok t \<and> pt_minpass t = pt_minpass (pt s)
    \<and> procs t p = reset_proc ((pr s p)\<lparr>p_inqueue := False\<rparr>) \<and> (\<forall>q. q \<noteq> p \<longrightarrow> procs t q = pr s q)"
proof -
  have l: "length (pt_proc (pt s)) = NPROC" by (rule mlfq_inv_len [OF inv])
  obtain t1 where t1: "(if p_inqueue (pr s p) then pop p (pt s) else Ok (pt s)) = Ok t1" "mlfq_inv t1"
      "pt_proc t1 = (pt_proc (pt s))[p := (pr s p)\<lparr>p_inqueue := False\<rparr>]"
      "m_percentage (pt_mlfq t1) = m_percentage (pt_mlfq (pt s))" "pt_minpass t1 = pt_minpass (pt s)"
  proof (cases "p_inqueue (pr s p)")
    case True
    then show ?thesis using pop_procs [OF inv p True] that by auto
  next
    case False
    then have "(pr s p)\<lparr>p_inqueue := False\<rparr> = pr s p" by simp
    then have "(pt_proc (pt s))[p := (pr s p)\<lparr>p_inqueue := False\<rparr>] = pt_proc (pt s)" by (simp only: list_update_id)
    then show ?thesis using that [of "pt s"] False inv by simp
  qed
  let ?x = "m_percentage (pt_mlfq (pt s)) + p_percentage (pr s p)"
  let ?t = "upd_proc p reset_proc (set_mlfq_share ?x t1)"
  have l1: "length (pt_proc (set_mlfq_share ?x t1)) = NPROC" "length (pt_proc t1) = NPROC" using l t1(3) by (simp_all add: set_mlfq_share_def)
  have pp: "procs t1 p = (pr s p)\<lparr>p_inqueue := False\<rparr>" using l p by (simp add: t1(3))
  have po: "procs t1 q = pr s q" if "q \<noteq> p" for q using that by (simp add: t1(3))
  have "int32 (m_percentage (pt_mlfq t1) + p_percentage (procs t1 p)) = Ok ?x"
    using share_bound [OF sh p] unfolding t1(4) pp by simp
  then have e: "free_slot_share p s = Ok (s\<lparr>pt := ?t\<rparr>)" using t1(1) by (simp add: free_slot_share_def)
  have q1: "procs ?t p = reset_proc ((pr s p)\<lparr>p_inqueue := False\<rparr>)" using l1 p pp by (simp add: set_mlfq_share_def)
  have q2: "procs ?t q = pr s q" if "q \<noteq> p" for q using that po by (simp add: set_mlfq_share_def)
  have "mlfq_inv (set_mlfq_share ?x t1)" using t1(2) by (simp add: set_mlfq_share_def mlfq_inv_def mlfq_shape_def queued_def)
  then have "mlfq_inv ?t" by (rule mlfq_inv_upd_proc) (simp add: reset_proc_def)
  moreover have "shares_ok ?t"
  proof -
    let ?f = "\<lambda>q. p_percentage (pr s q)" and ?g = "\<lambda>q. p_percentage (procs ?t q)"
    have g: "?g p = 0" "\<And>q. q \<noteq> p \<Longrightarrow> ?g q = ?f q" using q1 q2 by (simp_all add: reset_proc_def)
    have "sum ?g ({..<NPROC} - {p}) = sum ?f ({..<NPROC} - {p})" by (rule sum.cong) (use g(2) in auto)
    moreover have "sum ?f {..<NPROC} = ?f p + sum ?f ({..<NPROC} - {p})" "sum ?g {..<NPROC} = ?g p + sum ?g ({..<NPROC} - {p})"
      by (rule sum.remove; use p in simp)+
    ultimately have "sum ?g {..<NPROC} = sum ?f {..<NPROC} - ?f p" using g(1) by linarith
    moreover have "m_percentage (pt_mlfq ?t) = ?x" by (simp add: set_mlfq_share_def)
    moreover have "0 \<le> ?g q" if "q < NPROC" for q using g sh that by (cases "q = p") (simp_all add: shares_ok_def)
    ultimately show ?thesis using sh share_bound [OF sh p] by (simp add: shares_ok_def share_inv_def)
  qed
  moreover have "pt_minpass ?t = pt_minpass (pt s)" using t1(5) by (simp add: set_mlfq_share_def)
  ultimately show ?thesis using e q1 q2 by blast
qed

text \<open>
  The slots \<open>D\<close> have been freed: their kernel stacks are on the free list and their shares are back;
  no other slot and no other page has changed.
\<close>

definition kstacks :: "nat set \<Rightarrow> 'a kst_scheme \<Rightarrow> nat set" where
  "kstacks D s = {k. \<exists>c\<in>D. p_kstack (pr s c) = Some k}"

definition is_free :: "proc \<Rightarrow> bool" where
  "is_free q \<longleftrightarrow> p_state q = UNUSED \<and> p_pid q = 0 \<and> p_kstack q = None \<and> p_parent q = None \<and> p_chan q = None
     \<and> \<not> p_killed q \<and> \<not> p_inqueue q \<and> p_percentage q = 0"

definition table_ok :: "ptable \<Rightarrow> bool" where
  "table_ok t \<longleftrightarrow> mlfq_inv t \<and> shares_ok t"

definition slots_freed :: "nat set \<Rightarrow> nat list \<Rightarrow> nat list \<Rightarrow> 'a kmemst_scheme \<Rightarrow> 'a kmemst_scheme \<Rightarrow> bool" where
  "slots_freed D xs ys s s' \<longleftrightarrow> memonly (s\<lparr>pt := pt s'\<rparr>) s' \<and> table_ok (pt s') \<and> kmem_inv ys s'
     \<and> set ys = set xs \<union> kstacks D s \<and> (\<forall>v. v \<notin> kstacks D s \<longrightarrow> pages s' v = pages s v)
     \<and> (\<forall>q\<in>D. is_free (pr s' q)) \<and> (\<forall>q. q \<notin> D \<longrightarrow> pr s' q = pr s q)"

lemma table_ok_upd:
  assumes "table_ok t" "\<And>x. p_inqueue (f x) = p_inqueue x" "\<And>x. p_percentage (f x) = p_percentage x"
  shows "table_ok (upd_proc p f t)"
proof -
  have "p_percentage (procs (upd_proc p f t) q) = p_percentage (procs t q)" for q
    using assms(3) by (cases "p < length (pt_proc t)") (auto simp: upd_proc_def nth_list_update list_update_beyond)
  then show ?thesis using assms(1) mlfq_inv_upd_proc [OF _ assms(2)] by (simp add: table_ok_def shares_ok_def share_inv_def)
qed

lemma memonly_pt: "memonly (s\<lparr>pt := t\<rparr>) s1 \<Longrightarrow> memonly (s\<lparr>pt := t'\<rparr>) (s1\<lparr>pt := t'\<rparr>)"
  unfolding memonly_def
proof (elim exE)
  fix f m assume e: "s1 = s\<lparr>pt := t, kmem_freelist := f, pages := m\<rparr>"
  show "\<exists>f m. s1\<lparr>pt := t'\<rparr> = s\<lparr>pt := t', kmem_freelist := f, pages := m\<rparr>"
    by (rule exI [of _ f], rule exI [of _ m]) (simp add: e)
qed

lemma kmem_inv_pt: "kmem_inv xs (s\<lparr>pt := t\<rparr>) = kmem_inv xs s"
  by (simp add: kmem_inv_def page_ok_def)

lemma free_thread_ok:
  assumes k: "kmem_inv xs s" and tb: "table_ok (pt s)" and c: "c < NPROC"
    and ks: "p_kstack (pr s c) = Some a" "page_ok s a" "a \<notin> set xs"
  shows "\<exists>s'. free_thread c s = Ok s' \<and> slots_freed {c} xs (a # xs) s s'"
proof -
  let ?f = "\<lambda>q. q\<lparr>p_kstack := None, p_pid := 0, p_parent := None, p_name := (p_name q)[0 := 0],
       p_killed := False, p_chan := None, p_state := UNUSED\<rparr>"
  let ?s1 = "s\<lparr>pages := (pages s)(a := put_u32 (replicate PGSIZE 1) 0 (kmem_freelist s)), kmem_freelist := a\<rparr>"
  have kf: "kfree a s = Ok ?s1" using ks(2) k by (intro kfree_eq) (auto simp: page_ok_def kmem_inv_def)
  have k1: "kmem_inv (a # xs) ?s1" using kfree_inv [OF k ks(2,3)] kf by auto
  have l: "c < length (pt_proc (pt s))" using tb c mlfq_inv_len by (simp add: table_ok_def)
  have tb1: "table_ok (upd_proc c ?f (pt s))" by (rule table_ok_upd [OF tb]) simp_all
  obtain t where t: "free_slot_share c (modp c ?f ?s1) = Ok ((modp c ?f ?s1)\<lparr>pt := t\<rparr>)" "table_ok t"
      "procs t c = reset_proc ((?f (pr s c))\<lparr>p_inqueue := False\<rparr>)" "\<forall>q. q \<noteq> c \<longrightarrow> procs t q = pr s q"
    using free_slot_share_ok [of "modp c ?f ?s1" c] tb1 c l unfolding table_ok_def modp_simps by auto
  let ?s = "?s1\<lparr>pt := t\<rparr>"
  have s: "(modp c ?f ?s1)\<lparr>pt := t\<rparr> = ?s" by (simp add: modp_def)
  have "free_thread c s = Ok ?s" using ks(1) kf t(1) unfolding s by (simp add: free_thread_def addr_of_def)
  moreover have "memonly (s\<lparr>pt := pt ?s\<rparr>) ?s" unfolding memonly_def
    by (rule exI [of _ a], rule exI [of _ "pages ?s1"]) simp
  moreover have "is_free (pr ?s c)" using t(3) by (simp add: is_free_def reset_proc_def)
  moreover have "kstacks {c} s = {a}" using ks(1) by (simp add: kstacks_def)
  moreover have "kmem_inv (a # xs) ?s" unfolding kmem_inv_pt by (rule k1)
  ultimately show ?thesis using t(2,4) unfolding slots_freed_def by (intro exI [of _ ?s]) auto
qed

lemma freed_trans:
  assumes 1: "slots_freed D xs ys s s1" and 2: "slots_freed E ys zs s1 s2" and d: "D \<inter> E = {}"
  shows "slots_freed (D \<union> E) xs zs s s2"
proof -
  have e: "kstacks E s1 = kstacks E s" using 1 d unfolding kstacks_def slots_freed_def by (metis (no_types, lifting) disjoint_iff)
  have u: "kstacks (D \<union> E) s = kstacks D s \<union> kstacks E s" by (auto simp: kstacks_def)
  have "memonly (s\<lparr>pt := pt s2\<rparr>) (s1\<lparr>pt := pt s2\<rparr>)" by (rule memonly_pt [where t = "pt s1"]) (use 1 in \<open>simp add: slots_freed_def\<close>)
  then have "memonly (s\<lparr>pt := pt s2\<rparr>) s2" using 2 memonly_trans unfolding slots_freed_def by blast
  moreover have "pr s2 q = pr s q" if "q \<notin> D \<union> E" for q using 1 2 that by (simp add: slots_freed_def)
  moreover have "is_free (pr s2 q)" if "q \<in> D \<union> E" for q
    using 1 2 that d by (cases "q \<in> E") (auto simp: slots_freed_def disjoint_iff)
  moreover have "pages s2 v = pages s v" if "v \<notin> kstacks (D \<union> E) s" for v using 1 2 that e u by (simp add: slots_freed_def)
  ultimately show ?thesis using 1 2 e u by (auto simp: slots_freed_def)
qed

lemma freed_modp:
  assumes f: "slots_freed D xs ys s s1" and m: "m \<notin> D" "m < length (pt_proc (pt s))" "length (pt_proc (pt s1)) = length (pt_proc (pt s))"
    and g: "\<And>x. p_inqueue (g x) = p_inqueue x" "\<And>x. p_percentage (g x) = p_percentage x"
  shows "slots_freed D xs ys (modp m g s) (modp m g s1)"
proof -
  have k: "kstacks D (modp m g s) = kstacks D s" using m(1) by (auto simp: kstacks_def procs_upd_proc [OF m(2)])
  have "memonly ((modp m g s)\<lparr>pt := pt (modp m g s1)\<rparr>) (modp m g s1)"
    using f memonly_pt [where s = s and t = "pt s1" and ?s1.0 = s1] by (simp add: slots_freed_def modp_def)
  moreover have "table_ok (pt (modp m g s1))" using f table_ok_upd [OF _ g] by (simp add: slots_freed_def)
  moreover have "kmem_inv ys (modp m g s1)" using f by (simp add: slots_freed_def modp_def kmem_inv_pt)
  moreover have "pr (modp m g s1) q = pr (modp m g s) q" if "q \<notin> D" for q
    using f m that by (simp add: slots_freed_def procs_upd_proc)
  moreover have "is_free (pr (modp m g s1) q)" if "q \<in> D" for q
    using f m that by (cases "q = m") (auto simp: slots_freed_def procs_upd_proc)
  ultimately show ?thesis using f k by (simp add: slots_freed_def)
qed

section \<open>Killing the threads of an exited process\<close>

lemma rfold_from:
  assumes "\<And>j s. lo \<le> j \<Longrightarrow> j < hi \<Longrightarrow> I j s \<Longrightarrow> \<exists>s'. f j s = Ok s' \<and> I (Suc j) s'" "I lo s" "lo \<le> hi"
  shows "\<exists>s'. rfold f [lo..<hi] s = Ok s' \<and> I hi s'"
  using assms(3,1)
proof (induction hi rule: dec_induct)
  case base
  then show ?case using assms(2) by simp
next
  case (step hi)
  then obtain s1 where "rfold f [lo..<hi] s = Ok s1" "I hi s1" by auto
  moreover obtain s2 where "f hi s1 = Ok s2" "I (Suc hi) s2" using step.prems step.hyps(1) calculation(2) by blast
  ultimately show ?case using step.hyps(1) by (auto simp: rfold_append)
qed

text \<open>The threads in the array from index 1 on, below \<open>j\<close>.\<close>

definition zthreads :: "nat \<Rightarrow> 'a kst_scheme \<Rightarrow> nat \<Rightarrow> nat set" where
  "zthreads j s p = {c. \<exists>i. 1 \<le> i \<and> i < j \<and> p_cthread (pr s p) ! i = Some c}"

lemma zthreads_mono: "j \<le> k \<Longrightarrow> zthreads j s p \<subseteq> zthreads k s p"
  by (auto simp: zthreads_def)

text \<open>The process \<open>p\<close> as \<open>exit\<close> leaves it: all its threads are zombies.\<close>

definition ended :: "nat \<Rightarrow> 'a kst_scheme \<Rightarrow> bool" where
  "ended p s \<longleftrightarrow> p < NPROC \<and> length (p_cthread (pr s p)) = NPROC \<and> p_mthread (pr s p) = Some p
     \<and> (\<forall>c\<in>zthreads NPROC s p. c < NPROC \<and> c \<noteq> p \<and> p_state (pr s c) = ZOMBIE)
     \<and> (\<forall>i j c. 1 \<le> i \<longrightarrow> i < NPROC \<longrightarrow> 1 \<le> j \<longrightarrow> j < NPROC \<longrightarrow> p_cthread (pr s p) ! i = Some c \<longrightarrow>
          p_cthread (pr s p) ! j = Some c \<longrightarrow> i = j)"

lemma ended_inj:
  "ended p s \<Longrightarrow> 1 \<le> i \<Longrightarrow> i < NPROC \<Longrightarrow> 1 \<le> j \<Longrightarrow> j < NPROC \<Longrightarrow> p_cthread (pr s p) ! i = Some c \<Longrightarrow>
    p_cthread (pr s p) ! j = Some c \<Longrightarrow> i = j"
  unfolding ended_def by blast

text \<open>The slots \<open>D\<close> have kernel stacks of their own, none of them among the pages \<open>V\<close>.\<close>

definition stacks_ok :: "nat set \<Rightarrow> nat set \<Rightarrow> 'a kmemst_scheme \<Rightarrow> bool" where
  "stacks_ok D V s \<longleftrightarrow> (\<forall>c\<in>D. \<exists>k. p_kstack (pr s c) = Some k \<and> page_ok s k \<and> k \<notin> V)
     \<and> inj_on (\<lambda>c. p_kstack (pr s c)) D"

definition clr :: "nat \<Rightarrow> nat option list \<Rightarrow> nat option list" where
  "clr j l = take 1 l @ replicate (j - 1) None @ drop j l"

lemma clr:
  assumes "1 \<le> j" "j < length l"
  shows "clr j l ! j = l ! j" "(clr j l)[j := None] = clr (Suc j) l" "l ! j = None \<Longrightarrow> clr (Suc j) l = clr j l"
proof -
  let ?A = "take 1 l @ replicate (j - 1) None"
  have len: "length ?A = j" using assms by simp
  have "drop j l = l ! j # drop (Suc j) l" using assms by (simp add: Cons_nth_drop_Suc)
  then have d: "clr j l = ?A @ l ! j # drop (Suc j) l" by (simp add: clr_def)
  show n: "clr j l ! j = l ! j" unfolding d by (metis len nth_append_length)
  have "(clr j l)[j := None] = ?A @ None # drop (Suc j) l" unfolding d by (metis len list_update_length)
  also have "\<dots> = clr (Suc j) l" using assms(1) by (cases j) (simp_all add: clr_def replicate_append_same)
  finally show u: "(clr j l)[j := None] = clr (Suc j) l" .
  show "clr (Suc j) l = clr j l" if "l ! j = None" using u n that by (metis list_update_id)
qed

definition cleared :: "nat \<Rightarrow> nat \<Rightarrow> 'a kst_scheme \<Rightarrow> 'a kst_scheme" where
  "cleared j p s = modp p (\<lambda>q. q\<lparr>p_cthread := clr j (p_cthread q)\<rparr>) s"

lemma killzombie_step:
  fixes s :: "'a procst_scheme"
  assumes e: "ended p s" and l: "length (pt_proc (pt s)) = NPROC" and st: "stacks_ok (zthreads NPROC s p) (set xs) s"
    and j: "1 \<le> j" "j < NPROC" and f: "slots_freed (zthreads j s p) xs ys (cleared j p s) s'"
  shows "\<exists>s''. (case p_cthread (pr s' p) ! j of None \<Rightarrow> Ok s'
       | Some c \<Rightarrow> if p_state (pr s' c) = ZOMBIE \<and> c \<noteq> p
           then free_thread c (modp p (\<lambda>q. q\<lparr>p_cthread := (p_cthread q)[j := None]\<rparr>) s') else Ok s') = Ok s''
     \<and> (\<exists>ys. slots_freed (zthreads (Suc j) s p) xs ys (cleared (Suc j) p s) s'')"
proof -
  have p: "p < length (pt_proc (pt s))" "length (p_cthread (pr s p)) = NPROC" using e l by (simp_all add: ended_def)
  have zp: "p \<notin> zthreads j s p" using e zthreads_mono [of j NPROC s p] j unfolding ended_def by auto
  have l': "length (pt_proc (pt s')) = NPROC" using f by (simp add: slots_freed_def table_ok_def mlfq_inv_len)
  have cth: "p_cthread (pr s' p) = clr j (p_cthread (pr s p))"
    using f zp p(1) by (simp add: slots_freed_def cleared_def)
  note C = clr [OF j(1), of "p_cthread (pr s p)", unfolded p(2), OF j(2)]
  have step: "cleared (Suc j) p s = modp p (\<lambda>q. q\<lparr>p_cthread := (p_cthread q)[j := None]\<rparr>) (cleared j p s)"
    using p(1) C(2) by (simp add: cleared_def modp_def upd_proc_def)
  show ?thesis
  proof (cases "p_cthread (pr s p) ! j")
    case None
    have "zthreads (Suc j) s p = zthreads j s p" using None by (auto simp: zthreads_def less_Suc_eq)
    moreover have "cleared (Suc j) p s = cleared j p s" using C(3) [OF None] by (simp add: cleared_def modp_def upd_proc_def)
    ultimately show ?thesis using f None C(1) cth by auto
  next
    case (Some c)
    have cz: "c \<in> zthreads NPROC s p" using Some j by (auto simp: zthreads_def)
    then have c: "c < NPROC" "c \<noteq> p" "p_state (pr s c) = ZOMBIE" using e by (auto simp: ended_def)
    have new: "c \<notin> zthreads j s p"
    proof
      assume "c \<in> zthreads j s p"
      then obtain i where i: "1 \<le> i" "i < j" "p_cthread (pr s p) ! i = Some c" by (auto simp: zthreads_def)
      then have "i < NPROC" using j(2) by simp
      then have "i = j" using ended_inj [OF e i(1) _ j i(3) Some] by simp
      then show False using i(2) by simp
    qed
    have Z: "zthreads (Suc j) s p = zthreads j s p \<union> {c}" using Some j by (auto simp: zthreads_def less_Suc_eq)
    let ?g = "\<lambda>q. q\<lparr>p_cthread := (p_cthread q)[j := None]\<rparr>"
    have prc: "pr s' c = pr s c" using f new c(2) by (simp add: slots_freed_def cleared_def)
    have F: "slots_freed (zthreads j s p) xs ys (cleared (Suc j) p s) (modp p ?g s')"
      unfolding step by (rule freed_modp [OF f zp]) (use p(1) l' l in \<open>simp_all add: cleared_def\<close>)
    obtain a where a: "p_kstack (pr s c) = Some a" "page_ok s a" "a \<notin> set xs" using st cz by (auto simp: stacks_ok_def)
    have "a \<notin> kstacks (zthreads j s p) (cleared (Suc j) p s)"
    proof
      assume "a \<in> kstacks (zthreads j s p) (cleared (Suc j) p s)"
      then obtain d where d: "d \<in> zthreads j s p" "p_kstack (pr s d) = Some a"
        using p(1) by (auto simp: kstacks_def cleared_def procs_upd_proc split: if_splits)
      then have "d \<in> zthreads NPROC s p" using zthreads_mono [of j NPROC s p] j by auto
      then have "d = c" using st cz d(2) a(1) unfolding stacks_ok_def by (metis (mono_tags, lifting) inj_onD)
      then show False using d(1) new by simp
    qed
    then have ay: "a \<notin> set ys" using F a(3) by (simp add: slots_freed_def)
    have pk: "page_ok (modp p ?g s') a"
      using F a(2) memonlyD(2) [of _ "modp p ?g s'"] by (auto simp: slots_freed_def page_ok_def cleared_def)
    obtain s'' where s'': "free_thread c (modp p ?g s') = Ok s''" "slots_freed {c} ys (a # ys) (modp p ?g s') s''"
      using free_thread_ok [of ys "modp p ?g s'" c a] F ay pk a(1) c prc by (auto simp: slots_freed_def)
    have "slots_freed (zthreads (Suc j) s p) xs (a # ys) (cleared (Suc j) p s) s''"
      unfolding Z by (rule freed_trans [OF F s''(2)]) (use new in simp)
    then show ?thesis using s''(1) Some C(1) cth c prc by auto
  qed
qed

lemma killzombie_ok:
  fixes s :: "'a procst_scheme"
  assumes e: "ended p s" and tb: "table_ok (pt s)" and k: "kmem_inv xs s" and st: "stacks_ok (zthreads NPROC s p) (set xs) s"
  shows "\<exists>s' ys. killzombie p s = Ok s' \<and> slots_freed (zthreads NPROC s p) xs ys (cleared NPROC p s) s'"
proof -
  have l: "length (pt_proc (pt s)) = NPROC" using tb by (simp add: table_ok_def mlfq_inv_len)
  have m: "mthread_of p s = Ok p" using e by (simp add: mthread_of_def ended_def)
  have "cleared 1 p s = s" by (simp add: cleared_def clr_def modp_def upd_proc_def)
  moreover have "zthreads 1 s p = {}" by (auto simp: zthreads_def)
  moreover have "slots_freed {} xs xs s s" using tb k memonly_simps(1) [of s] by (simp add: slots_freed_def kstacks_def)
  ultimately have I: "\<exists>ys. slots_freed (zthreads 1 s p) xs ys (cleared 1 p s) s" by auto
  have "\<exists>s'. killzombie p s = Ok s' \<and> (\<exists>ys. slots_freed (zthreads NPROC s p) xs ys (cleared NPROC p s) s')"
    unfolding killzombie_def m rbind.simps
    by (rule rfold_from [where I = "\<lambda>j s'. \<exists>ys. slots_freed (zthreads j s p) xs ys (cleared j p s) s'", OF _ I])
      (use killzombie_step [OF e l st] in blast, simp)
  then show ?thesis by blast
qed

section \<open>Waiting for a child\<close>

lemma end_threads_ended:
  assumes "ended p s"
  shows "end_threads p s = Ok s"
proof -
  have "\<exists>s'. end_threads p s = Ok s' \<and> s' = s"
    unfolding end_threads_def
  proof (rule rfold_from [where I = "\<lambda>_ s'. s' = s"])
    fix j s' assume j: "1 \<le> j" "j < NPROC" and s': "s' = s"
    have "p_state (pr s c) = ZOMBIE" if "p_cthread (pr s p) ! j = Some c" for c
      using assms j that by (auto simp: ended_def zthreads_def)
    then show "\<exists>s''. (case p_cthread (pr s' p) ! j of None \<Rightarrow> Ok s' | Some c \<Rightarrow> if p_state (pr s' c) \<noteq> ZOMBIE
         then rbind (close_files c s') (\<lambda>s. rbind (drop_cwd c s) (\<lambda>s. Ok (set_state c ZOMBIE s))) else Ok s') = Ok s'' \<and> s'' = s"
      unfolding s' by (simp split: option.split)
  qed simp_all
  then show ?thesis by simp
qed

abbreviation vpages :: "nat \<Rightarrow> 'a kmemst_scheme \<Rightarrow> nat set" where
  "vpages g s \<equiv> {v. \<exists>i. vp (pages s) g i = Some v}"

lemma vp_cong:
  assumes "\<And>v i. vp m g i = Some v \<Longrightarrow> m' v = m v"
  shows "vp m' g = vp m g"
proof -
  have "m' g = m g" using assms [of VDir g] by simp
  then have d: "pde_at m' g c = pde_at m g c" for c by (simp add: pde_at_def)
  have t: "pte_at m' g c u = pte_at m g c u" if "c < 1024" for c u
    using that assms [of "VTab c"] by (auto simp: pte_at_def d)
  have "vp m' g i = vp m g i" for i by (cases i) (simp_all add: d t cong: conj_cong)
  then show ?thesis by blast
qed

lemma vm_wf_pt [simp]: "vm_wf xs g (s\<lparr>pt := t\<rparr>) = vm_wf xs g s"
  by (simp add: vm_wf_def kmem_inv_pt page_ok_def)

text \<open>An exited process that \<open>wait\<close> can free.\<close>

definition reapable :: "nat list \<Rightarrow> nat \<Rightarrow> nat \<Rightarrow> 'a procst_scheme \<Rightarrow> bool" where
  "reapable xs g p s \<longleftrightarrow> ended p s \<and> table_ok (pt s) \<and> p_pgdir (pr s p) = Some g \<and> vm_wf xs g s \<and> KERNBASE < kern_end s
     \<and> stacks_ok (insert p (zthreads NPROC s p)) (set xs \<union> vpages g s) s"

text \<open>After the threads are gone: the main thread's stack and the address space.\<close>

lemma kfree_freevm:
  assumes w: "vm_wf xs g s" and k: "KERNBASE < kern_end s" and a: "page_ok s a" "a \<notin> set xs" "a \<notin> vpages g s"
  shows "\<exists>s1. kfree a s = Ok s1 \<and> memonly s s1 \<and> pt s1 = pt s \<and> (\<forall>t. \<exists>s2. freevm g (s1\<lparr>pt := t\<rparr>) = Ok s2 \<and> memonly (s1\<lparr>pt := t\<rparr>) s2
    \<and> (\<exists>ys. kmem_inv ys s2 \<and> set ys = insert a (set xs \<union> vpages g s)))"
proof -
  have nt: "notab (pages s) g a" by (rule notab_vp) (use a(3) in auto)
  let ?c = "put_u32 (replicate PGSIZE 1) 0 (kmem_freelist s)"
  let ?s = "s\<lparr>pages := (pages s)(a := ?c), kmem_freelist := a\<rparr>"
  have kf: "kfree a s = Ok ?s" using a(1) vm_wfD(2) [OF w] by (intro kfree_eq) (auto simp: page_ok_def)
  have v: "vp (pages ?s) g = vp (pages s) g" using upd_page(3) [OF nt] by simp
  obtain s1 where s1: "kfree a s = Ok s1" "memonly s s1" "vm_wf (a # xs) g s1" using free_unused [OF w a(1,2)] a(3) by blast
  have e: "s1 = ?s" using s1(1) kf by simp
  have "\<exists>s2 ys. freevm g (s1\<lparr>pt := t\<rparr>) = Ok s2 \<and> memonly (s1\<lparr>pt := t\<rparr>) s2 \<and> kmem_inv ys s2 \<and> set ys = insert a (set xs \<union> vpages g s)" for t
  proof -
    have "vm_wf (a # xs) g (s1\<lparr>pt := t\<rparr>)" using s1(3) by simp
    moreover have "KERNBASE < kern_end (s1\<lparr>pt := t\<rparr>)" using k e by simp
    ultimately show ?thesis using freevm_ok [of "a # xs" g "s1\<lparr>pt := t\<rparr>"] v e by auto
  qed
  then show ?thesis using s1 e by (intro exI [of _ s1]) auto
qed

lemma reap_main_ok:
  fixes s :: "'a procst_scheme"
  assumes p: "p < NPROC" and tb: "table_ok (pt s)" and pg: "p_pgdir (pr s p) = Some g" and w: "vm_wf xs g s" and kb: "KERNBASE < kern_end s"
    and a: "p_kstack (pr s p) = Some a" "page_ok s a" "a \<notin> set xs" "a \<notin> vpages g s"
  shows "\<exists>s' ys. reap_main p s = Ok (p_pid (pr s p), s') \<and> memonly (s\<lparr>pt := pt s'\<rparr>) s' \<and> table_ok (pt s') \<and> kmem_inv ys s'
    \<and> set ys = insert a (set xs \<union> vpages g s) \<and> is_free (pr s' p) \<and> (\<forall>q. q \<noteq> p \<longrightarrow> pr s' q = pr s q)"
proof -
  let ?f = "\<lambda>q. q\<lparr>p_kstack := None, p_pid := 0\<rparr>"
  let ?h = "\<lambda>q. q\<lparr>p_parent := None, p_name := (p_name q)[0 := 0], p_killed := False, p_chan := None, p_state := UNUSED\<rparr>"
  obtain s2 where s2: "kfree a s = Ok s2" "memonly s s2" "pt s2 = pt s" and fr: "\<forall>t. \<exists>s3. freevm g (s2\<lparr>pt := t\<rparr>) = Ok s3
      \<and> memonly (s2\<lparr>pt := t\<rparr>) s3 \<and> (\<exists>zs. kmem_inv zs s3 \<and> set zs = insert a (set xs \<union> vpages g s))"
    using kfree_freevm [OF w kb a(2,3,4)] by blast
  obtain s3 zs where s3: "freevm g (modp p ?f s2) = Ok s3" "memonly (modp p ?f s2) s3" "kmem_inv zs s3" "set zs = insert a (set xs \<union> vpages g s)"
    using fr unfolding modp_def by blast
  have pt3: "pt s3 = upd_proc p ?f (pt s)" using s3(2) s2(3) by (auto simp: memonly_def)
  have l: "length (pt_proc (pt s)) = NPROC" using tb by (simp add: table_ok_def mlfq_inv_len)
  have tb3: "table_ok (pt (modp p ?h s3))" unfolding modp_simps pt3 by (intro table_ok_upd tb) simp_all
  obtain t where t: "free_slot_share p (modp p ?h s3) = Ok ((modp p ?h s3)\<lparr>pt := t\<rparr>)" "table_ok t"
      "procs t p = reset_proc ((pr (modp p ?h s3) p)\<lparr>p_inqueue := False\<rparr>)" "\<forall>q. q \<noteq> p \<longrightarrow> procs t q = pr (modp p ?h s3) q"
    using free_slot_share_ok [of "modp p ?h s3" p] tb3 p unfolding table_ok_def by auto
  let ?s = "s3\<lparr>pt := t\<rparr>"
  have es: "(modp p ?h s3)\<lparr>pt := t\<rparr> = ?s" by (simp add: modp_def)
  have g2: "addr_of (p_pgdir (pr (modp p ?f s2) p)) = g" "addr_of (p_kstack (pr s p)) = a"
    using pg a(1) p l s2(3) by (simp_all add: addr_of_def)
  have "reap_main p s = Ok (p_pid (pr s p), ?s)"
    unfolding reap_main_def Let_def g2(2) s2(1) rbind.simps g2(1) s3(1) t(1) es ..
  moreover have "memonly (s\<lparr>pt := t\<rparr>) ?s"
  proof (rule memonly_trans)
    show "memonly (s\<lparr>pt := t\<rparr>) (s2\<lparr>pt := t\<rparr>)" by (rule memonly_pt [where t = "pt s"]) (use s2(2) in simp)
    show "memonly (s2\<lparr>pt := t\<rparr>) ?s" by (rule memonly_pt) (rule s3(2) [unfolded modp_def])
  qed
  moreover have "kmem_inv zs ?s" using s3(3) by (simp add: kmem_inv_pt)
  moreover have "is_free (pr ?s p)" using t(3) p l pt3 by (simp add: is_free_def reset_proc_def)
  moreover have "pr ?s q = pr s q" if "q \<noteq> p" for q using t(4) that pt3 by simp
  ultimately show ?thesis using t(2) s3(4) by (intro exI [of _ ?s] exI [of _ zs]) simp
qed

lemma reap_ok:
  fixes s :: "'a procst_scheme"
  assumes rp: "reapable xs g p s"
  defines "D \<equiv> insert p (zthreads NPROC s p)"
  shows "\<exists>s' ys. reap p s = Ok (p_pid (pr s p), s') \<and> memonly (s\<lparr>pt := pt s'\<rparr>) s' \<and> table_ok (pt s') \<and> kmem_inv ys s'
    \<and> set ys = set xs \<union> vpages g s \<union> kstacks D s \<and> (\<forall>q\<in>D. is_free (pr s' q)) \<and> (\<forall>q. q \<notin> D \<longrightarrow> pr s' q = pr s q)"
proof -
  let ?Z = "zthreads NPROC s p" and ?c = "cleared NPROC p s"
  have e: "ended p s" and tb: "table_ok (pt s)" and pg: "p_pgdir (pr s p) = Some g" and w: "vm_wf xs g s" and kb: "KERNBASE < kern_end s"
    and st: "stacks_ok D (set xs \<union> vpages g s) s" using rp by (simp_all add: reapable_def D_def)
  have l: "length (pt_proc (pt s)) = NPROC" and p: "p < NPROC" and pZ: "p \<notin> ?Z"
    using tb e by (auto simp: table_ok_def mlfq_inv_len ended_def)
  have stZ: "stacks_ok ?Z (set xs) s" using st unfolding stacks_ok_def D_def by (auto intro: inj_on_subset)
  obtain s1 ys where s1: "killzombie p s = Ok s1" "slots_freed ?Z xs ys ?c s1"
    using killzombie_ok [OF e tb vm_wfD(1) [OF w] stZ] by blast
  have kc: "kstacks ?Z ?c = kstacks ?Z s" using pZ l p by (auto simp: kstacks_def cleared_def procs_upd_proc)
  have c: "pages ?c = pages s" "kern_end ?c = kern_end s" "pr ?c p = (pr s p)\<lparr>p_cthread := clr NPROC (p_cthread (pr s p))\<rparr>"
      "\<And>q. q \<noteq> p \<Longrightarrow> pr ?c q = pr s q"
    using l p by (simp_all add: cleared_def)
  have m1: "memonly (?c\<lparr>pt := pt s1\<rparr>) s1" and tb1: "table_ok (pt s1)" and k1: "kmem_inv ys s1" and y1: "set ys = set xs \<union> kstacks ?Z s"
    and pg1: "\<And>v. v \<notin> kstacks ?Z s \<Longrightarrow> pages s1 v = pages s v" and f1: "\<And>q. q \<in> ?Z \<Longrightarrow> is_free (pr s1 q)"
    and o1: "\<And>q. q \<notin> ?Z \<Longrightarrow> pr s1 q = pr ?c q" using s1(2) kc c(1) by (simp_all add: slots_freed_def)
  have k1e: "kern_end s1 = kern_end s" using memonlyD(2) [OF m1] c(2) by simp
  have KD: "kstacks D s = kstacks {p} s \<union> kstacks ?Z s" by (auto simp: D_def kstacks_def)
  have vk: "v \<notin> kstacks ?Z s" if "v \<in> vpages g s" for v using st that unfolding stacks_ok_def kstacks_def D_def by force
  have v1: "vp (pages s1) g = vp (pages s) g" by (rule vp_cong) (use vk pg1 in blast)
  have w1: "vm_wf ys g s1" using w k1 v1 vk y1 k1e unfolding vm_wf_def by (auto simp: page_ok_def)
  have p1: "pr s1 p = (pr s p)\<lparr>p_cthread := clr NPROC (p_cthread (pr s p))\<rparr>" using o1 [OF pZ] c(3) by simp
  obtain a where a: "p_kstack (pr s p) = Some a" "page_ok s a" "a \<notin> set xs" "a \<notin> vpages g s" using st by (auto simp: stacks_ok_def D_def)
  have "a \<notin> kstacks ?Z s"
  proof
    assume "a \<in> kstacks ?Z s"
    then obtain d where d: "d \<in> ?Z" "p_kstack (pr s d) = Some a" by (auto simp: kstacks_def)
    then have "d = p" using st a(1) unfolding stacks_ok_def D_def by (metis (mono_tags, lifting) inj_onD insertCI)
    then show False using d(1) pZ by simp
  qed
  then have ay: "a \<notin> set ys" "page_ok s1 a" "a \<notin> vpages g s1" "KERNBASE < kern_end s1" using a(2,3,4) y1 v1 k1e kb by (auto simp: page_ok_def)
  obtain s' zs where s': "reap_main p s1 = Ok (p_pid (pr s1 p), s')" "memonly (s1\<lparr>pt := pt s'\<rparr>) s'" "table_ok (pt s')" "kmem_inv zs s'"
      "set zs = insert a (set ys \<union> vpages g s1)" "is_free (pr s' p)" "\<forall>q. q \<noteq> p \<longrightarrow> pr s' q = pr s1 q"
    using reap_main_ok [OF p tb1 _ w1 ay(4) _ ay(2,1,3)] pg a(1) p1 by auto
  have "memonly (s\<lparr>pt := pt s'\<rparr>) (s1\<lparr>pt := pt s'\<rparr>)" using memonly_pt [OF m1, of "pt s'"] by (simp add: cleared_def modp_def)
  then have "memonly (s\<lparr>pt := pt s'\<rparr>) s'" using s'(2) memonly_trans by blast
  moreover have "reap p s = Ok (p_pid (pr s p), s')" unfolding reap_def end_threads_ended [OF e] using s1(1) s'(1) p1 by simp
  moreover have "set zs = set xs \<union> vpages g s \<union> kstacks D s" unfolding s'(5) y1 KD v1 using a(1) by (auto simp: kstacks_def)
  moreover have "is_free (pr s' q)" if "q \<in> D" for q using that f1 s'(6,7) pZ by (cases "q = p") (auto simp: D_def)
  moreover have "pr s' q = pr s q" if "q \<notin> D" for q using that s'(7) o1 c(4) by (simp add: D_def)
  ultimately show ?thesis using s'(3,4) by blast
qed

text \<open>
  C31. \<open>wait\<close>, on every branch. Without children, or when the process is killed, it returns \<open>-1\<close>; with
  children of which none has exited it sleeps on the main thread, having marked itself before it
  gives up the lock; otherwise it frees the first exited child of the table with all its threads and
  returns its pid. Freeing gives back exactly the address space and the kernel stacks, the child's
  CPU share returns to the queues so that the shares still add up to 100, the slots are free and no
  other slot changes.\<close>

theorem wait_correct:
  fixes s :: "'a procst_scheme"
  assumes h: "held s = []" and cur: "curproc s = Some cur" "p_mthread (pr s cur) = Some m"
    and rp: "\<And>p. search (\<lambda>p. is_child m s p \<and> p_state (pr s p) = ZOMBIE) 0 NPROC = Some p \<Longrightarrow> reapable xs (addr_of (p_pgdir (pr s p))) p s"
  shows "case search (\<lambda>p. is_child m s p \<and> p_state (pr s p) = ZOMBIE) 0 NPROC of
      Some p \<Rightarrow> (let D = insert p (zthreads NPROC s p) in \<exists>s' ys. wait s = Ok (Done (p_pid (pr s p)), s') \<and> held s' = []
        \<and> table_ok (pt s') \<and> kmem_inv ys s' \<and> set ys = set xs \<union> vpages (addr_of (p_pgdir (pr s p))) s \<union> kstacks D s
        \<and> (\<forall>q\<in>D. is_free (pr s' q)) \<and> (\<forall>q. q \<notin> D \<longrightarrow> pr s' q = pr s q))
    | None \<Rightarrow> if (\<forall>p<NPROC. \<not> is_child m s p) \<or> p_killed (pr s m) then wait s = Ok (Done (-1), s)
        else cur < length (pt_proc (pt s)) \<longrightarrow> wait s = Ok (Blocked (), modp cur (\<lambda>q. q\<lparr>p_chan := Some (ChanProc m), p_state := SLEEPING\<rparr>) (s\<lparr>held := [PtableLock]\<rparr>))"
proof -
  let ?s = "s\<lparr>held := [PtableLock]\<rparr>"
  have a: "acquire PtableLock s = Ok ?s" using h by (simp add: acquire_def)
  have my: "myproc ?s = Ok cur" "mthread_of cur ?s = Ok m" using cur by (simp_all add: myproc_def mthread_of_def)
  have ic: "is_child m ?s = is_child m s" by (auto simp: is_child_def)
  have none: "search (is_child m s) 0 NPROC = None \<longleftrightarrow> (\<forall>p<NPROC. \<not> is_child m s p)" by (simp add: search_None)
  have rel: "release PtableLock ?s = Ok s" using h by (simp add: release_def)
  show ?thesis
  proof (cases "search (\<lambda>p. is_child m s p \<and> p_state (pr s p) = ZOMBIE) 0 NPROC")
    case None
    have "sleep_enter (ChanProc m) PtableLock ?s = Ok (modp cur (\<lambda>q. q\<lparr>p_chan := Some (ChanProc m), p_state := SLEEPING\<rparr>) ?s)"
      if "cur < length (pt_proc (pt s))" using cur that by (simp add: sleep_enter_seq sched_def modp_def)
    then show ?thesis using None rel unfolding wait_def a rbind.simps wait_loop_def my ic by (auto simp: none)
  next
    case (Some p)
    let ?g = "addr_of (p_pgdir (pr s p))" and ?D = "insert p (zthreads NPROC s p)"
    have same: "zthreads j ?s p = zthreads j s p" "kstacks E ?s = kstacks E s" "page_ok ?s v = page_ok s v" for j E v
      by (simp_all add: zthreads_def kstacks_def page_ok_def)
    have "reapable xs ?g p ?s" using rp [OF Some]
      by (simp add: reapable_def ended_def stacks_ok_def same vm_wf_def kmem_inv_def)
    then obtain s' ys where s': "reap p ?s = Ok (p_pid (pr s p), s')" "memonly (?s\<lparr>pt := pt s'\<rparr>) s'" "table_ok (pt s')" "kmem_inv ys s'"
        "set ys = set xs \<union> vpages ?g s \<union> kstacks ?D s" "\<forall>q\<in>?D. is_free (pr s' q)" "\<forall>q. q \<notin> ?D \<longrightarrow> pr s' q = pr s q"
      using reap_ok [of xs ?g p ?s] unfolding same by auto
    have h': "held s' = [PtableLock]" using memonlyD(1) [OF s'(2)] by simp
    have "wait s = Ok (Done (p_pid (pr s p)), s'\<lparr>held := []\<rparr>)"
      unfolding wait_def a rbind.simps wait_loop_def my ic using Some s'(1) h' by (simp add: release_def)
    moreover have "kmem_inv ys (s'\<lparr>held := []\<rparr>)" using s'(4) by (simp add: kmem_inv_def page_ok_def)
    ultimately show ?thesis using Some s'(3,5,6,7) by (auto simp: Let_def)
  qed
qed

section \<open>A live thread of an exited process\<close>

lemma close_files_none:
  assumes "\<forall>fd<NOFILE. p_ofile (pr s c) ! fd = None"
  shows "close_files c s = Ok s"
proof -
  have "\<exists>s'. close_files c s = Ok s' \<and> s' = s"
    unfolding close_files_def by (rule rfold_upt [where I = "\<lambda>_ s'. s' = s"]) (use assms in auto)
  then show ?thesis by simp
qed

text \<open>Dropping the last use of an inode wakes up its waiters, which needs \<open>ptable.lock\<close>.\<close>

lemma drop_cwd_locked:
  assumes h: "held s = [PtableLock]" and cur: "curproc s = Some cur" and cwd: "p_cwd (pr s c) = Some ip" "ip < length (icache s)"
    and ip: "\<not> sl_locked (i_lock (ino s ip))" "i_nlink (ino s ip) \<noteq> 0"
    and log: "\<not> log_committing s" "lh_n s + (log_outstanding s + 1) * MAXOPBLOCKS \<le> LOGSIZE"
  shows "drop_cwd c s = Err (Panic ''acquire'')"
proof -
  let ?s = "s\<lparr>log_outstanding := log_outstanding s + 1\<rparr>"
  have b: "begin_op s = Ok ?s" using h log by (simp add: begin_op_def acquire_def release_def)
  let ?l = "\<lparr>sl_locked = True, sl_pid = p_pid (pr s cur)\<rparr>"
  have "acquiresleep (ChanInode ip) (i_lock (ino s ip)) ?s = Ok (?l, ?s)"
    using acquiresleep_ok [of "ChanInode ip" ?s] h ip(1) cur by simp
  moreover have "releasesleep (ChanInode ip) l (upd_ino ip f ?s) = Err (Panic ''acquire'')" for l f
    using h by (simp add: releasesleep_def wakeup_def acquire_def upd_ino_def)
  ultimately have "iput ip ?s = Err (Panic ''acquire'')" using ip(2) cwd(2) by (simp add: iput_def upd_ino_def Let_def)
  then show ?thesis using cwd(1) b by (simp add: drop_cwd_def)
qed

lemma upt_split: "lo \<le> i \<Longrightarrow> i < hi \<Longrightarrow> [lo..<hi] = [lo..<i] @ i # [Suc i..<hi]"
  using upt_add_eq_append [of lo i "hi - i"] by (simp add: upt_conv_Cons)

lemma rfold_stops:
  assumes "lo \<le> i" "i < hi" "rfold f [lo..<i] s = Ok s1" "f i s1 = Err e"
  shows "rfold f [lo..<hi] s = Err e"
  using assms(3,4) by (simp add: upt_split [OF assms(1,2)] rfold_append)

text \<open>
  C32. \<open>wait\<close> panics when it finds an exited child one of whose threads is still alive, as after an
  \<open>exec\<close> of a thread, which ends the main thread and stays in its array \<open>cthread\<close>. To end the live
  thread \<open>wait\<close> drops its working directory while it holds \<open>ptable.lock\<close>, and \<open>iput\<close> wakes up
  the waiters of the inode, which acquires \<open>ptable.lock\<close> again.\<close>

theorem wait_live_thread_panics:
  fixes s :: "'a procst_scheme"
  assumes h: "held s = []" and cur: "curproc s = Some cur" "p_mthread (pr s cur) = Some m"
    and p: "search (\<lambda>p. is_child m s p \<and> p_state (pr s p) = ZOMBIE) 0 NPROC = Some p"
    and i: "1 \<le> i" "i < NPROC" "p_cthread (pr s p) ! i = Some c" "p_state (pr s c) \<noteq> ZOMBIE" "\<forall>fd<NOFILE. p_ofile (pr s c) ! fd = None"
    and before: "\<forall>j\<in>{1..<i}. p_cthread (pr s p) ! j = None"
    and cwd: "p_cwd (pr s c) = Some ip" "ip < length (icache s)" "\<not> sl_locked (i_lock (ino s ip))" "i_nlink (ino s ip) \<noteq> 0"
    and log: "\<not> log_committing s" "lh_n s + (log_outstanding s + 1) * MAXOPBLOCKS \<le> LOGSIZE"
  shows "wait s = Err (Panic ''acquire'')"
proof -
  let ?s = "s\<lparr>held := [PtableLock]\<rparr>"
  have a: "acquire PtableLock s = Ok ?s" using h by (simp add: acquire_def)
  have my: "myproc ?s = Ok cur" "mthread_of cur ?s = Ok m" using cur by (simp_all add: myproc_def mthread_of_def)
  have ic: "is_child m ?s = is_child m s" by (auto simp: is_child_def)
  let ?f = "\<lambda>i s. case p_cthread (pr s p) ! i of None \<Rightarrow> Ok s
     | Some c \<Rightarrow> if p_state (pr s c) \<noteq> ZOMBIE
         then rbind (close_files c s) (\<lambda>s. rbind (drop_cwd c s) (\<lambda>s. Ok (set_state c ZOMBIE s))) else Ok s"
  have "\<exists>s'. rfold ?f [1..<i] ?s = Ok s' \<and> s' = ?s"
    by (rule rfold_from [where I = "\<lambda>_ s'. s' = ?s"]) (use before i(1) in auto)
  moreover have "?f i ?s = Err (Panic ''acquire'')"
    using i(3,4) close_files_none [of ?s c] drop_cwd_locked [of ?s cur c ip] i(5) cur(1) cwd log by simp
  ultimately have "end_threads p ?s = Err (Panic ''acquire'')"
    unfolding end_threads_def by (intro rfold_stops [OF i(1,2)]) blast+
  then show ?thesis unfolding wait_def a rbind.simps wait_loop_def my ic using p by (simp add: reap_def)
qed

section \<open>Examples\<close>

text \<open>
  Process 0 runs; process 1 is its exited child, with a share of 10, an empty address space and, in
  its array of threads, \<open>x\<close>; process 2 is a running thread.
\<close>

definition wait_demo :: "nat option \<Rightarrow> procst" where
  "wait_demo x = filest.extend ((pipe_demo False UNUSED)\<lparr>pt := set_mlfq_share 90
       (upd_proc 0 (\<lambda>q. q\<lparr>p_state := RUNNING, p_mthread := Some 0, p_cthread := (replicate NPROC None)[0 := Some 0]\<rparr>)
       (upd_proc 1 (\<lambda>q. q\<lparr>p_state := ZOMBIE, p_pid := 7, p_parent := Some 0, p_mthread := Some 1,
          p_cthread := (replicate NPROC None)[0 := Some 1, 1 := x], p_percentage := 10, p_kstack := Some 0x80105000, p_pgdir := Some 0x80104000\<rparr>)
       (upd_proc 2 (\<lambda>q. q\<lparr>p_state := RUNNING, p_pid := 7, p_mthread := Some 1, p_cwd := Some 0\<rparr>) zero_ptable))),
     kmem_freelist := kmem_freelist demo_vm, pages := pages demo_vm, kern_end := kern_end demo_vm, log_outstanding := 0,
     icache := replicate NINODE (ino_demo\<lparr>i_lock := unlocked_sl\<rparr>)\<rparr>) (procst.fields 3 None 0 0 0 True)"

lemma wait_demo_state:
  "held (wait_demo x) = []" "curproc (wait_demo x) = Some 0" "pages (wait_demo x) = pages demo_vm" "kern_end (wait_demo x) = kern_end demo_vm"
  "kmem_freelist (wait_demo x) = kmem_freelist demo_vm" "icache (wait_demo x) = replicate NINODE (ino_demo\<lparr>i_lock := unlocked_sl\<rparr>)"
  "log_committing (wait_demo x) = False" "log_outstanding (wait_demo x) = 0" "lh_n (wait_demo x) = 0"
  by (simp_all add: wait_demo_def pipe_demo_def fs_demo_def filest.defs fsst.defs)

lemma zero_procs [simp]: "length (pt_proc zero_ptable) = NPROC" "q < NPROC \<Longrightarrow> procs zero_ptable q = zero_proc"
  by (simp_all add: zero_ptable_def)

lemma wait_demo_procs:
  "pr (wait_demo x) 0 = zero_proc\<lparr>p_state := RUNNING, p_mthread := Some 0, p_cthread := (replicate NPROC None)[0 := Some 0]\<rparr>"
  "pr (wait_demo x) 1 = zero_proc\<lparr>p_state := ZOMBIE, p_pid := 7, p_parent := Some 0, p_mthread := Some 1,
     p_cthread := (replicate NPROC None)[0 := Some 1, 1 := x], p_percentage := 10, p_kstack := Some 0x80105000, p_pgdir := Some 0x80104000\<rparr>"
  "pr (wait_demo x) 2 = zero_proc\<lparr>p_state := RUNNING, p_pid := 7, p_mthread := Some 1, p_cwd := Some 0\<rparr>"
  "2 < q \<Longrightarrow> q < NPROC \<Longrightarrow> pr (wait_demo x) q = zero_proc" "length (pt_proc (pt (wait_demo x))) = NPROC"
  by (simp_all add: wait_demo_def filest.defs procs_upd_proc)

lemma wait_demo_ok: "table_ok (pt (wait_demo x))" "vm_wf [0x80101000, 0x80102000, 0x80103000] 0x80104000 (wait_demo x)"
proof -
  have "p_percentage (pr (wait_demo x) q) = (if q = 1 then 10 else 0)" if "q < NPROC" for q
  proof -
    consider "q = 0" | "q = 1" | "q = 2" | "2 < q" by linarith
    then show ?thesis using that wait_demo_procs by cases (simp_all add: zero_proc_def)
  qed
  moreover from this have "(\<Sum>q<NPROC. p_percentage (pr (wait_demo x) q)) = (\<Sum>q<NPROC. if q = 1 then 10 else 0)"
    by (intro sum.cong) auto
  moreover have "mlfq_inv (pt (wait_demo x))"
    unfolding wait_demo_def filest.defs by (simp add: mlfq_inv_upd_proc mlfq_inv_zero)
  moreover have "m_percentage (pt_mlfq (pt (wait_demo x))) = 90" by (simp add: wait_demo_def filest.defs)
  ultimately show "table_ok (pt (wait_demo x))" by (simp add: table_ok_def shares_ok_def share_inv_def)
  show "vm_wf [0x80101000, 0x80102000, 0x80103000] 0x80104000 (wait_demo x)"
    using demo_vm_wf unfolding vm_wf_def kmem_inv_def page_ok_def wait_demo_state by (simp add: wait_demo_state)
qed

lemma wait_demo_search: "search (\<lambda>p. is_child 0 (wait_demo x) p \<and> p_state (pr (wait_demo x) p) = ZOMBIE) 0 NPROC = Some 1"
  using wait_demo_procs [where x = x] by (auto simp: search_Some is_child_def zero_proc_def)

lemma wait_demo_reapable: "reapable [0x80101000, 0x80102000, 0x80103000] 0x80104000 1 (wait_demo None)" "zthreads NPROC (wait_demo None) 1 = {}"
proof -
  have n: "p_cthread (pr (wait_demo None) 1) ! i = None" if "1 \<le> i" "i < NPROC" for i
    using that by (cases "i = 1") (simp_all add: wait_demo_procs(2) [simplified])
  show z: "zthreads NPROC (wait_demo None) 1 = {}" unfolding zthreads_def using n by fastforce
  have v: "vpages 0x80104000 (wait_demo None) = {0x80104000}" using demo_vp(2) by (auto simp: wait_demo_state)
  have "ended 1 (wait_demo None)" unfolding ended_def z using n wait_demo_procs(2) [of None] by auto
  moreover have "stacks_ok {1} {0x80101000, 0x80102000, 0x80103000, 0x80104000} (wait_demo None)"
    unfolding stacks_ok_def using wait_demo_procs(2) [of None]
    by (simp add: page_ok_def wait_demo_state V2P_def u32_def demo_vm_def boot_kmem_def)
  moreover have "KERNBASE < kern_end (wait_demo None)" by (simp add: wait_demo_state demo_vm_def boot_kmem_def)
  ultimately show "reapable [0x80101000, 0x80102000, 0x80103000] 0x80104000 1 (wait_demo None)"
    using wait_demo_ok wait_demo_procs(2) [of None] unfolding reapable_def z v by (simp add: insert_commute)
qed

theorem wait_correct_witness:
  "\<exists>s' ys. wait (wait_demo None) = Ok (Done 7, s') \<and> is_free (pr s' 1) \<and> share_inv (pt s') \<and> kmem_inv ys s'
     \<and> set ys = {0x80101000, 0x80102000, 0x80103000, 0x80104000, 0x80105000}"
proof -
  let ?s = "wait_demo None"
  have g: "addr_of (p_pgdir (pr ?s 1)) = 0x80104000" "p_pid (pr ?s 1) = 7" using wait_demo_procs(2) [of None] by (simp_all add: addr_of_def)
  have ks: "kstacks {1} ?s = {0x80105000}" "vpages 0x80104000 ?s = {0x80104000}"
    using wait_demo_procs(2) [of None] demo_vp(2) by (auto simp: kstacks_def wait_demo_state)
  have m: "p_mthread (pr ?s 0) = Some 0" using wait_demo_procs(1) [of None] by simp
  have rp: "reapable [0x80101000, 0x80102000, 0x80103000] (addr_of (p_pgdir (pr ?s p))) p ?s"
    if "search (\<lambda>p. is_child 0 ?s p \<and> p_state (pr ?s p) = ZOMBIE) 0 NPROC = Some p" for p
  proof -
    have "p = 1" using that wait_demo_search [of None] by simp
    then show ?thesis using wait_demo_reapable(1) g(1) by (simp only:)
  qed
  have "\<exists>s' ys. wait ?s = Ok (Done 7, s') \<and> held s' = [] \<and> table_ok (pt s') \<and> kmem_inv ys s'
      \<and> set ys = set [0x80101000, 0x80102000, 0x80103000] \<union> {0x80104000} \<union> {0x80105000} \<and> (\<forall>q\<in>{1}. is_free (pr s' q)) \<and> (\<forall>q. q \<notin> {1} \<longrightarrow> pr s' q = pr ?s q)"
    using wait_correct [OF wait_demo_state(1,2) m rp] unfolding wait_demo_search option.case Let_def wait_demo_reapable(2) g ks .
  then show ?thesis by (auto simp: table_ok_def shares_ok_def)
qed

theorem wait_live_thread_panics_witness: "wait (wait_demo (Some 2)) = Err (Panic ''acquire'')"
proof -
  let ?s = "wait_demo (Some 2)"
  note P = wait_demo_procs [where x = "Some 2"]
  have "p_mthread (pr ?s 0) = Some 0" "p_cthread (pr ?s 1) ! 1 = Some 2" "p_state (pr ?s 2) \<noteq> ZOMBIE" "p_cwd (pr ?s 2) = Some 0"
    "\<forall>fd<NOFILE. p_ofile (pr ?s 2) ! fd = None" using P(1,2,3) by (simp_all add: zero_proc_def)
  then show ?thesis
    by (intro wait_live_thread_panics [OF wait_demo_state(1,2) _ wait_demo_search, where i = 1 and c = 2 and ip = 0]) (simp_all add: wait_demo_state ino_demo_def)
qed

end
