(* ===== verification/Thread.thy ===== *)
theory Thread
  imports Proc
begin

text \<open>
  Light-weight processes, thread.c. A thread is a slot of the process table that shares the address
  space of its main thread; \<open>thread_create\<close> builds it on one of the user stacks that \<open>exec\<close> prepared,
  \<open>thread_exit\<close> leaves its return value with the main thread, and \<open>thread_join\<close> collects it.
\<close>

section \<open>Operations\<close>

text \<open>
  \<open>thread_create\<close>. The stack page is cleared and the thread's id stored through the page table of the
  running process, without any check of these addresses.
\<close>

definition thread_slot :: "nat \<Rightarrow> nat \<Rightarrow> nat \<Rightarrow> 'a procst_scheme \<Rightarrow> ((nat \<times> nat) option \<times> 'a procst_scheme) result" where
  "thread_slot m np g s =
     rbind (acquire PtableLock s) (\<lambda>s.
     case search (\<lambda>i. p_cthread (pr s m) ! i = None) 0 NPROC of
       None \<Rightarrow> rbind (release PtableLock s) (\<lambda>s. Ok (None, s))
     | Some i \<Rightarrow>
         let s = modp m (\<lambda>q. q\<lparr>p_cthread := (p_cthread q)[i := Some np]\<rparr>) s; sp = p_ustack (pr s m) ! i in
         rbind (poke g (u32 (sp + 2 ^ 32 - PGSIZE)) (replicate PGSIZE 0) s) (\<lambda>s.
         rbind (release PtableLock s) (\<lambda>s. Ok (Some (i, sp), s))))"

definition thread_create :: "nat \<Rightarrow> nat \<Rightarrow> nat \<Rightarrow> 'a procst_scheme \<Rightarrow> (int \<times> 'a procst_scheme) result" where
  "thread_create thread start_routine arg s =
     rbind (myproc s) (\<lambda>cur.
     rbind (mthread_of cur s) (\<lambda>m.
     rbind (allocproc s) (\<lambda>(np, s).
     case np of None \<Rightarrow> Ok (-1, s) | Some np \<Rightarrow>
     let g = addr_of (p_pgdir (pr s cur)) in
     rbind (thread_slot m np g s) (\<lambda>(slot, s).
     case slot of None \<Rightarrow> Ok (-1, set_state np UNUSED s) | Some (i, sp) \<Rightarrow>
     let sp = u32 (sp + 2 ^ 32 - 12) in
     rbind (copyout (addr_of (p_pgdir (pr s m))) sp (le_bytes 4 0xFFFFFFFF @ le_bytes 4 arg @ le_bytes 4 0) s) (\<lambda>(r, s).
     if r < 0 then Ok (-1, set_state np UNUSED (modp m (\<lambda>q. q\<lparr>p_cthread := (p_cthread q)[i := None]\<rparr>) s))
     else
       let s = modp np (\<lambda>q. q\<lparr>p_pgdir := p_pgdir (pr s m), p_sz := p_sz (pr s m), p_tf := (p_tf (pr s m))\<lparr>tf_esp := sp\<rparr>\<rparr>) s in
       rbind (dup_files m np s) (\<lambda>s.
       rbind (dup_cwd m np s) (\<lambda>s.
       rbind (safestrcpy (p_name (pr s np)) (p_name (pr s m)) 16) (\<lambda>nm.
       let s = modp np (\<lambda>q. q\<lparr>p_name := nm, p_pid := p_pid (pr s m)\<rparr>) s in
       rbind (poke g thread (le_bytes 4 (nat (p_tid (pr s np) mod 2 ^ 32))) s) (\<lambda>s.
       let s = modp np (\<lambda>q. q\<lparr>p_mthread := Some m, p_parent := p_parent (pr s m), p_cthread := (p_cthread q)[0 := None],
           p_tf := (p_tf q)\<lparr>tf_eip := start_routine\<rparr>\<rparr>) s in
       rbind (acquire PtableLock s) (\<lambda>s.
       let s = set_state np RUNNABLE s in
       rbind (if p_percentage (pr s m) = 0 \<and> \<not> p_inqueue (pr s np) then initpush 0 np (pt s) else Ok (pt s)) (\<lambda>t.
       rbind (release PtableLock (s\<lparr>pt := t\<rparr>)) (\<lambda>s. Ok (0, s)))))))))))))"

text \<open>The main thread's array of return values, at the places of the exiting thread.\<close>

definition save_ret :: "nat \<Rightarrow> nat \<Rightarrow> nat \<Rightarrow> 'a kst_scheme \<Rightarrow> 'a kst_scheme" where
  "save_ret m cur retval s = fold (\<lambda>i s. if p_cthread (pr s m) ! i = Some cur
     then modp m (\<lambda>q. q\<lparr>p_ret := (p_ret q)[i := retval]\<rparr>) s else s) [1..<NPROC] s"

definition thread_exit :: "nat \<Rightarrow> 'a procst_scheme \<Rightarrow> 'a procst_scheme result" where
  "thread_exit retval s =
     rbind (myproc s) (\<lambda>cur.
     rbind (mthread_of cur s) (\<lambda>m.
     if cur = m then exit s
     else rbind (close_files cur s) (\<lambda>s.
       let s = save_ret m cur retval s in
       rbind (begin_op s) (\<lambda>s.
       rbind (case p_cwd (pr s cur) of None \<Rightarrow> Err (Fault ''iput'') | Some ip \<Rightarrow> iput ip s) (\<lambda>s.
       rbind (end_op s) (\<lambda>s.
       let s = modp cur (\<lambda>q. q\<lparr>p_cwd := None\<rparr>) s in
       rbind (acquire PtableLock s) (\<lambda>s.
       sched (set_state cur ZOMBIE (s\<lparr>pt := wakeup1 (Some (ChanProc m)) (pt s)\<rparr>)))))))))"

definition join_proc :: "proc \<Rightarrow> proc" where
  "join_proc q = q\<lparr>p_ticks := 0, p_curticks := 0, p_priority := 0, p_timequantum := 1, p_timeallotment := 5,
     p_percentage := 0, p_pass := 0, p_tid := 0, p_mthread := None\<rparr>"

text \<open>One round of the loop of \<open>thread_join\<close>; \<open>retval\<close> is the address of the result, 0 for none.\<close>

definition thread_join_loop :: "int \<Rightarrow> nat \<Rightarrow> 'a procst_scheme \<Rightarrow> ((int, unit) run \<times> 'a procst_scheme) result" where
  "thread_join_loop thread retval s =
     rbind (myproc s) (\<lambda>cur.
     rbind (mthread_of cur s) (\<lambda>m.
     case search (\<lambda>i. case p_cthread (pr s m) ! i of None \<Rightarrow> False | Some c \<Rightarrow> p_tid (pr s c) = thread) 1 NPROC of
       None \<Rightarrow> rbind (release PtableLock s) (\<lambda>s. Ok (Done (-1), s))
     | Some i \<Rightarrow>
         let c = addr_of (p_cthread (pr s m) ! i) in
         if p_state (pr s c) = ZOMBIE then
           rbind (if retval \<noteq> 0 then poke (addr_of (p_pgdir (pr s cur))) retval (le_bytes 4 (p_ret (pr s m) ! i)) s else Ok s) (\<lambda>s.
           let s = modp m (\<lambda>q. q\<lparr>p_cthread := (p_cthread q)[i := None], p_ret := (p_ret q)[i := 0]\<rparr>) s in
           rbind (kfree (addr_of (p_kstack (pr s c))) s) (\<lambda>s.
           let s = modp c (\<lambda>q. q\<lparr>p_pid := 0, p_parent := None, p_name := (p_name q)[0 := 0], p_killed := False, p_state := UNUSED\<rparr>) s in
           rbind (if p_inqueue (pr s c) then pop c (pt s) else Ok (pt s)) (\<lambda>t.
           rbind (release PtableLock (s\<lparr>pt := upd_proc c join_proc t\<rparr>)) (\<lambda>s. Ok (Done 0, s)))))
         else if p_killed (pr s m) then rbind (release PtableLock s) (\<lambda>s. Ok (Done (-1), s))
         else rbind (sleep_enter (ChanProc m) PtableLock s) (\<lambda>s. Ok (Blocked (), s))))"

definition thread_join :: "int \<Rightarrow> nat \<Rightarrow> 'a procst_scheme \<Rightarrow> ((int, unit) run \<times> 'a procst_scheme) result" where
  "thread_join thread retval s = rbind (acquire PtableLock s) (thread_join_loop thread retval)"

definition thread_join_resume :: "int \<Rightarrow> nat \<Rightarrow> 'a procst_scheme \<Rightarrow> ((int, unit) run \<times> 'a procst_scheme) result" where
  "thread_join_resume thread retval s = rbind (sleep_leave PtableLock s) (thread_join_loop thread retval)"

section \<open>Ending a thread\<close>

lemma wakeup1_fields:
  assumes "p < length (pt_proc t)"
  shows "p_ret (procs (wakeup1 c t) p) = p_ret (procs t p)" "p_cthread (procs (wakeup1 c t) p) = p_cthread (procs t p)"
    "p_tid (procs (wakeup1 c t) p) = p_tid (procs t p)" "p_mthread (procs (wakeup1 c t) p) = p_mthread (procs t p)"
    "p_kstack (procs (wakeup1 c t) p) = p_kstack (procs t p)" "p_inqueue (procs (wakeup1 c t) p) = p_inqueue (procs t p)"
    "p_pgdir (procs (wakeup1 c t) p) = p_pgdir (procs t p)" "p_cwd (procs (wakeup1 c t) p) = p_cwd (procs t p)"
  using assms by (simp_all add: procs_wakeup1)

lemma wakeup1_awake: "p < length (pt_proc t) \<Longrightarrow> p_state (procs (wakeup1 c t) p) = SLEEPING \<Longrightarrow> p_chan (procs (wakeup1 c t) p) \<noteq> c"
  by (auto simp: procs_wakeup1)

lemma mlfq_inv_wakeup1: "mlfq_inv t \<Longrightarrow> mlfq_inv (wakeup1 c t)"
proof -
  assume i: "mlfq_inv t"
  have "p_inqueue (procs (wakeup1 c t) p) = p_inqueue (procs t p)" if "p < NPROC" for p
    using that mlfq_inv_len [OF i] by (simp add: procs_wakeup1)
  then have "{p. p < NPROC \<and> p_inqueue (procs (wakeup1 c t) p)} = {p. p < NPROC \<and> p_inqueue (procs t p)}" by auto
  then show ?thesis using i by (simp add: mlfq_inv_def mlfq_shape_def queued_def)
qed

text \<open>Dropping a reference to an inode that stays, inside a transaction that logs nothing.\<close>

lemma iput_shared:
  assumes h: "held s = []" and cur: "curproc s = Some cur" and ip: "ip < length (icache s)" "\<not> sl_locked (i_lock (ino s ip))" "i_nlink (ino s ip) \<noteq> 0"
  shows "iput ip s = Ok ((upd_ino ip (\<lambda>i. i\<lparr>i_lock := unlocked_sl, i_ref := i_ref i - 1\<rparr>) s)\<lparr>pt := wakeup1 (Some (ChanInode ip)) (pt s)\<rparr>)"
proof -
  let ?l = "\<lparr>sl_locked = True, sl_pid = p_pid (pr s cur)\<rparr>"
  let ?s = "upd_ino ip (\<lambda>i. i\<lparr>i_lock := ?l\<rparr>) s"
  have "acquiresleep (ChanInode ip) (i_lock (ino s ip)) s = Ok (?l, s)" using h cur ip(2) by (intro acquiresleep_ok) simp_all
  moreover have "releasesleep (ChanInode ip) l ?s = Ok (unlocked_sl, ?s\<lparr>pt := wakeup1 (Some (ChanInode ip)) (pt s)\<rparr>)" for l
    using releasesleep_ok [of "ChanInode ip" ?s l] h by (simp add: upd_ino_def)
  moreover have "i_nlink (ino ?s ip) \<noteq> 0" using ip by (simp add: upd_ino_def)
  ultimately show ?thesis using h ip(1) by (simp add: iput_def Let_def acquire_def release_def upd_ino_def)
qed

lemma end_op_quiet:
  assumes h: "held s = []" and l: "\<not> log_committing s" "lh_n s = 0"
  shows "end_op s = Ok (s\<lparr>log_outstanding := log_outstanding s - 1, pt := wakeup1 (Some ChanLog) (pt s)\<rparr>)"
  using assms by (simp add: end_op_def end_op_enter_def end_op_leave_def acquire_def release_def Let_def commit_def wakeup_eq)

lemma save_ret_eq:
  assumes i: "1 \<le> i" "i < NPROC" "p_cthread (pr s m) ! i = Some c" "\<And>j. 1 \<le> j \<Longrightarrow> j < NPROC \<Longrightarrow> p_cthread (pr s m) ! j = Some c \<Longrightarrow> j = i"
    and m: "m < length (pt_proc (pt s))"
  shows "save_ret m c v s = modp m (\<lambda>q. q\<lparr>p_ret := (p_ret q)[i := v]\<rparr>) s"
proof -
  let ?s = "modp m (\<lambda>q. q\<lparr>p_ret := (p_ret q)[i := v]\<rparr>) s"
  let ?f = "\<lambda>i s. if p_cthread (pr s m) ! i = Some c then modp m (\<lambda>q. q\<lparr>p_ret := (p_ret q)[i := v]\<rparr>) s else s"
  have skip: "fold ?f js t = t" if "\<forall>j\<in>set js. p_cthread (pr t m) ! j \<noteq> Some c" for js t using that by (induction js) auto
  have "[1..<NPROC] = [1..<i] @ i # [Suc i..<NPROC]" by (rule upt_split [OF i(1,2)])
  moreover have "fold ?f [1..<i] s = s"
  proof (rule skip, intro ballI notI)
    fix j assume "j \<in> set [1..<i]" "p_cthread (pr s m) ! j = Some c"
    then show False using i(4) [of j] i(2) by simp
  qed
  moreover have "fold ?f [Suc i..<NPROC] ?s = ?s"
  proof (rule skip, intro ballI notI)
    fix j assume "j \<in> set [Suc i..<NPROC]" "p_cthread (pr ?s m) ! j = Some c"
    then show False using i(4) [of j] m by simp
  qed
  ultimately show ?thesis unfolding save_ret_def using i(3) by (simp only: fold_append comp_apply fold_simps if_True simp_thms)
qed

text \<open>A worker thread of \<open>m\<close> at index \<open>i\<close> that can exit without touching the disk.\<close>

definition worker :: "nat \<Rightarrow> nat \<Rightarrow> nat \<Rightarrow> nat \<Rightarrow> 'a procst_scheme \<Rightarrow> bool" where
  "worker m i c ip s \<longleftrightarrow> held s = [] \<and> curproc s = Some c \<and> p_mthread (pr s c) = Some m \<and> c \<noteq> m \<and> c < NPROC \<and> m < NPROC
     \<and> 1 \<le> i \<and> i < NPROC \<and> p_cthread (pr s m) ! i = Some c \<and> length (p_cthread (pr s m)) = NPROC \<and> length (p_ret (pr s m)) = NPROC
     \<and> (\<forall>j d. 1 \<le> j \<longrightarrow> j < NPROC \<longrightarrow> p_cthread (pr s m) ! j = Some d \<longrightarrow> d < NPROC \<and> (p_tid (pr s d) = p_tid (pr s c) \<longrightarrow> j = i))
     \<and> (\<forall>fd<NOFILE. p_ofile (pr s c) ! fd = None) \<and> p_cwd (pr s c) = Some ip \<and> ip < length (icache s)
     \<and> \<not> sl_locked (i_lock (ino s ip)) \<and> i_nlink (ino s ip) \<noteq> 0
     \<and> \<not> log_committing s \<and> lh_n s = 0 \<and> (log_outstanding s + 1) * MAXOPBLOCKS \<le> LOGSIZE"

lemma thread_exit_ok:
  fixes s :: "'a procst_scheme"
  assumes w: "worker m i c ip s" and inv: "mlfq_inv (pt s)"
  shows "\<exists>s1. thread_exit v s = Ok s1 \<and> mlfq_inv (pt s1) \<and> p_ret (pr s1 m) = (p_ret (pr s m))[i := v] \<and> p_state (pr s1 c) = ZOMBIE
    \<and> (\<forall>q<NPROC. p_cthread (pr s1 q) = p_cthread (pr s q) \<and> p_tid (pr s1 q) = p_tid (pr s q) \<and> p_mthread (pr s1 q) = p_mthread (pr s q)
         \<and> p_kstack (pr s1 q) = p_kstack (pr s q) \<and> p_pgdir (pr s1 q) = p_pgdir (pr s q) \<and> \<not> (p_state (pr s1 q) = SLEEPING \<and> p_chan (pr s1 q) = Some (ChanProc m)))
    \<and> pages s1 = pages s \<and> kmem_freelist s1 = kmem_freelist s \<and> kern_end s1 = kern_end s"
proof -
  have h: "held s = []" "curproc s = Some c" "p_mthread (pr s c) = Some m" "c \<noteq> m" and cm: "c < NPROC" "m < NPROC"
    and i: "1 \<le> i" "i < NPROC" "p_cthread (pr s m) ! i = Some c" and un: "\<And>j. 1 \<le> j \<Longrightarrow> j < NPROC \<Longrightarrow> p_cthread (pr s m) ! j = Some c \<Longrightarrow> j = i"
    and f: "\<forall>fd<NOFILE. p_ofile (pr s c) ! fd = None" and d: "p_cwd (pr s c) = Some ip" "ip < length (icache s)"
      "\<not> sl_locked (i_lock (ino s ip))" "i_nlink (ino s ip) \<noteq> 0"
    and lg: "\<not> log_committing s" "lh_n s = 0" "(log_outstanding s + 1) * MAXOPBLOCKS \<le> LOGSIZE"
    using w by (auto simp: worker_def)
  have l: "length (pt_proc (pt s)) = NPROC" by (rule mlfq_inv_len [OF inv])
  have my: "myproc s = Ok c" "mthread_of c s = Ok m" using h by (simp_all add: myproc_def mthread_of_def)
  let ?s0 = "modp m (\<lambda>q. q\<lparr>p_ret := (p_ret q)[i := v]\<rparr>) s"
  have sr: "save_ret m c v s = ?s0" by (rule save_ret_eq [OF i un]) (use l cm in auto)
  let ?s1 = "?s0\<lparr>log_outstanding := log_outstanding s + 1\<rparr>"
  have b: "begin_op ?s0 = Ok ?s1" using h lg by (simp add: begin_op_def acquire_def release_def modp_def)
  let ?s2 = "(upd_ino ip (\<lambda>i. i\<lparr>i_lock := unlocked_sl, i_ref := i_ref i - 1\<rparr>) ?s1)\<lparr>pt := wakeup1 (Some (ChanInode ip)) (pt ?s0)\<rparr>"
  have p: "p_cwd (pr ?s1 c) = Some ip" "iput ip ?s1 = Ok ?s2"
    using d h(4) iput_shared [of ?s1 c ip] h by (simp_all add: modp_def upd_ino_def)
  let ?t = "wakeup1 (Some ChanLog) (wakeup1 (Some (ChanInode ip)) (pt ?s0))"
  let ?s3 = "?s2\<lparr>log_outstanding := log_outstanding s, pt := ?t\<rparr>"
  have e: "end_op ?s2 = Ok ?s3" using end_op_quiet [of ?s2] h lg by (simp add: modp_def upd_ino_def)
  let ?t4 = "upd_proc c (\<lambda>q. q\<lparr>p_state := ZOMBIE\<rparr>) (wakeup1 (Some (ChanProc m)) (upd_proc c (\<lambda>q. q\<lparr>p_cwd := None\<rparr>) ?t))"
  let ?s4 = "?s3\<lparr>held := [PtableLock], pt := ?t4\<rparr>"
  have "sched ?s4 = Ok ?s4" using h cm l by (simp add: sched_def upd_ino_def modp_def)
  then have ex: "thread_exit v s = Ok ?s4"
    unfolding thread_exit_def my rbind.simps close_files_none [OF f] Let_def sr b p(1) option.case p(2) e
    using h(1,4) by (simp add: acquire_def set_state_def modp_def upd_ino_def)
  have lt: "length (pt_proc ?t) = NPROC" using l by simp
  have F: "p_cthread (procs ?t4 q) = p_cthread (pr s q)" "p_tid (procs ?t4 q) = p_tid (pr s q)" "p_mthread (procs ?t4 q) = p_mthread (pr s q)"
      "p_kstack (procs ?t4 q) = p_kstack (pr s q)" "p_pgdir (procs ?t4 q) = p_pgdir (pr s q)"
      if "q < NPROC" for q using that cm l by (simp_all add: procs_upd_proc wakeup1_fields)
  have A: "\<not> (p_state (procs ?t4 q) = SLEEPING \<and> p_chan (procs ?t4 q) = Some (ChanProc m))" if "q < NPROC" for q
    using wakeup1_awake [of q "upd_proc c (\<lambda>q. q\<lparr>p_cwd := None\<rparr>) ?t" "Some (ChanProc m)"] that cm lt by (cases "q = c") auto
  have "mlfq_inv ?t4" using inv by (simp add: mlfq_inv_upd_proc mlfq_inv_wakeup1)
  moreover have "p_ret (procs ?t4 m) = (p_ret (pr s m))[i := v]" "p_state (procs ?t4 c) = ZOMBIE"
    using cm l h(4) by (simp_all add: procs_upd_proc wakeup1_fields)
  ultimately show ?thesis using ex F A by (intro exI [of _ ?s4]) (simp add: modp_def upd_ino_def)
qed

text \<open>Storing at a mapped address: the bytes are there afterwards, and the address space stays well-formed.\<close>

lemma poke_user:
  assumes w: "vm_wf xs g s" and a: "a < KERNBASE" "writable g s a" "bs \<noteq> []" "a mod PGSIZE + length bs \<le> PGSIZE"
  shows "\<exists>P d. poke g a bs s = Ok (fill_page P d s) \<and> vp (pages s) g (VUsr (PDX a) (PTX a)) = Some P
    \<and> vm_wf xs g (fill_page P d s) \<and> vp (pages (fill_page P d s)) g = vp (pages s) g \<and> length d = PGSIZE \<and> slice d (a mod PGSIZE) (length bs) = bs"
proof -
  let ?P = "P2V (PTE_ADDR (pte_at (pages s) g (PDX a) (PTX a)))" and ?d = "blit (upage g s a) (a mod PGSIZE) bs"
  have v: "vp (pages s) g (VUsr (PDX a) (PTX a)) = Some ?P" using a(1,2) by (simp add: writable_def present_def PDX_PTX)
  have l: "length (upage g s a) = PGSIZE" using vm_wfD(3) [OF w vm_wfD(5) [OF w v]] by (simp add: upage_def)
  have nt: "notab (pages s) g ?P" by (rule notab_user [OF w v])
  have "vm_wf xs g (fill_page ?P ?d s)" by (rule vm_wf_fill [OF w nt vm_wfD(6) [OF w v]]) (use l a(4) in simp)
  moreover have "vp (pages (fill_page ?P ?d s)) g = vp (pages s) g" using upd_page(3) [OF nt] by (simp add: fill_page_def)
  moreover have "slice ?d (a mod PGSIZE) (length bs) = bs" using l a(4) by (intro slice_blit_same) simp
  ultimately show ?thesis using poke_page [OF a(2,3,4)] v l a(4) by (intro exI [of _ ?P] exI [of _ ?d]) simp
qed

lemma upage_vp: "vp (pages s) g (VUsr (PDX r) (PTX r)) = Some P \<Longrightarrow> upage g s r = pages s P"
  by (simp add: upage_def split: if_splits)

text \<open>\<open>thread_join\<close> on a thread that has exited.\<close>

lemma thread_join_ok:
  fixes s :: "'a procst_scheme"
  assumes h: "held s = []" "curproc s = Some m" "p_mthread (pr s m) = Some m" "c \<noteq> m" "c < NPROC" "m < NPROC"
    and i: "1 \<le> i" "i < NPROC" "p_cthread (pr s m) ! i = Some c" "p_state (pr s c) = ZOMBIE"
    and un: "\<And>j d. 1 \<le> j \<Longrightarrow> j < NPROC \<Longrightarrow> p_cthread (pr s m) ! j = Some d \<Longrightarrow> p_tid (pr s d) = p_tid (pr s c) \<Longrightarrow> j = i"
    and inv: "mlfq_inv (pt s)" and pg: "p_pgdir (pr s m) = Some g" and w: "vm_wf xs g s"
    and ks: "p_kstack (pr s c) = Some a" "page_ok s a" "a \<notin> set xs" "a \<notin> vpages g s"
    and r: "0 < r" "r < KERNBASE" "writable g s r" "r mod PGSIZE + 4 \<le> PGSIZE"
  shows "\<exists>s'. thread_join (p_tid (pr s c)) r s = Ok (Done 0, s') \<and> mlfq_inv (pt s') \<and> p_state (pr s' c) = UNUSED \<and> \<not> p_inqueue (pr s' c)
    \<and> p_cthread (pr s' m) = (p_cthread (pr s m))[i := None] \<and> vm_wf (a # xs) g s' \<and> ubytes g s' r 4 = le_bytes 4 (p_ret (pr s m) ! i)"
proof -
  let ?s = "s\<lparr>held := [PtableLock]\<rparr>" and ?v = "le_bytes 4 (p_ret (pr s m) ! i)"
  have ac: "acquire PtableLock s = Ok ?s" using h(1) by (simp add: acquire_def)
  have my: "myproc ?s = Ok m" "mthread_of m ?s = Ok m" using h by (simp_all add: myproc_def mthread_of_def)
  have l: "length (pt_proc (pt s)) = NPROC" by (rule mlfq_inv_len [OF inv])
  have se: "search (\<lambda>j. case p_cthread (pr ?s m) ! j of None \<Rightarrow> False | Some d \<Rightarrow> p_tid (pr ?s d) = p_tid (pr s c)) 1 NPROC = Some i"
  proof (unfold search_Some, intro conjI allI impI)
    fix j assume j: "1 \<le> j" "j < i"
    show "\<not> (case p_cthread (pr ?s m) ! j of None \<Rightarrow> False | Some d \<Rightarrow> p_tid (pr ?s d) = p_tid (pr s c))"
    proof (cases "p_cthread (pr s m) ! j")
      case (Some d)
      then have "p_tid (pr s d) \<noteq> p_tid (pr s c)" using un [of j d] j i(2) by auto
      then show ?thesis using Some by simp
    qed simp
  qed (use i in simp_all)
  have w': "vm_wf xs g ?s" using w by (simp add: vm_wf_def kmem_inv_def page_ok_def)
  have wr: "writable g ?s r" using r(3) by (simp add: writable_def present_def)
  have lv: "length ?v = 4" by simp
  then have nv: "?v \<noteq> []" by (metis list.size(3) zero_neq_numeral)
  have "r mod PGSIZE + length ?v \<le> PGSIZE" using r(4) by simp
  from poke_user [OF w' r(2) wr nv this]
  obtain P d where P: "poke g r ?v ?s = Ok (fill_page P d ?s)" "vp (pages s) g (VUsr (PDX r) (PTX r)) = Some P"
      "vm_wf xs g (fill_page P d ?s)" "vp (pages (fill_page P d ?s)) g = vp (pages s) g" "length d = PGSIZE" "slice d (r mod PGSIZE) 4 = ?v"
    unfolding lv by (auto simp del: vp.simps)
  let ?s1 = "modp m (\<lambda>q. q\<lparr>p_cthread := (p_cthread q)[i := None], p_ret := (p_ret q)[i := 0]\<rparr>) (fill_page P d ?s)"
  have w1: "vm_wf xs g ?s1" unfolding modp_def vm_wf_pt by (rule P(3))
  have a1: "page_ok ?s1 a" "\<And>j. vp (pages ?s1) g j \<noteq> Some a" using ks P(4) by (simp_all add: page_ok_def modp_def fill_page_def)
  let ?c = "put_u32 (replicate PGSIZE 1) 0 (kmem_freelist s)"
  let ?s2 = "?s1\<lparr>pages := (pages ?s1)(a := ?c), kmem_freelist := a\<rparr>"
  have kf: "kfree a ?s1 = Ok ?s2" using kfree_eq [of ?s1 a] a1(1) vm_wfD(2) [OF w1] by (simp add: page_ok_def fill_page_def modp_def)
  have w2: "vm_wf (a # xs) g ?s2" using free_unused [OF w1 a1(1) ks(3) a1(2)] kf by auto
  let ?f = "\<lambda>q. q\<lparr>p_pid := 0, p_parent := None, p_name := (p_name q)[0 := 0], p_killed := False, p_state := UNUSED\<rparr>"
  let ?t = "upd_proc c ?f (pt ?s1)"
  have it: "mlfq_inv ?t" using inv by (simp add: mlfq_inv_upd_proc fill_page_def)
  have lt: "length (pt_proc ?t) = NPROC" by (rule mlfq_inv_len [OF it])
  obtain t where t: "(if p_inqueue (procs ?t c) then pop c ?t else Ok ?t) = Ok t" "mlfq_inv t" "pt_proc t = (pt_proc ?t)[c := (procs ?t c)\<lparr>p_inqueue := False\<rparr>]"
  proof (cases "p_inqueue (procs ?t c)")
    case True
    then show ?thesis using pop_procs [OF it h(5) True] that by auto
  next
    case False
    then have "(procs ?t c)\<lparr>p_inqueue := False\<rparr> = procs ?t c" by simp
    then have "(pt_proc ?t)[c := (procs ?t c)\<lparr>p_inqueue := False\<rparr>] = pt_proc ?t" by (simp only: list_update_id)
    then show ?thesis using that [of ?t] False it by simp
  qed
  let ?t' = "upd_proc c join_proc t" and ?s3 = "(modp c ?f ?s2)\<lparr>held := [], pt := upd_proc c join_proc t\<rparr>"
  have k1: "addr_of (p_kstack (pr ?s1 c)) = a" using ks(1) h(4) by (simp add: addr_of_def fill_page_def)
  have it2: "mlfq_inv ?t'" by (rule mlfq_inv_upd_proc [OF t(2)]) (simp add: join_proc_def)
  have j: "addr_of (p_cthread (pr ?s m) ! i) = c" "p_state (pr ?s c) = ZOMBIE" "addr_of (p_pgdir (pr ?s m)) = g" "p_ret (pr ?s m) ! i = p_ret (pr s m) ! i"
    using i pg by (simp_all add: addr_of_def)
  have t1: "(if p_inqueue (pr (modp c ?f ?s2) c) then pop c (pt (modp c ?f ?s2)) else Ok (pt (modp c ?f ?s2))) = Ok t"
    using t(1) by (simp add: modp_def cong: if_cong)
  have re: "release PtableLock ((modp c ?f ?s2)\<lparr>pt := ?t'\<rparr>) = Ok ?s3" by (simp add: release_def modp_def fill_page_def)
  have r0: "(r \<noteq> 0) = True" using r(1) by simp
  have "thread_join (p_tid (pr s c)) r s = Ok (Done 0, ?s3)"
    by (simp only: thread_join_def ac rbind.simps thread_join_loop_def my se option.case Let_def j simp_thms if_True r0 P(1) k1 kf t1 re)
  moreover have "procs ?t' c = join_proc ((?f (pr s c))\<lparr>p_inqueue := False\<rparr>)" "procs ?t' m = procs ?t m"
    using t(3) lt h(4,5,6) l by (simp_all add: procs_upd_proc fill_page_def)
  moreover have "p_cthread (procs ?t m) = (p_cthread (pr s m))[i := None]" using h(4,6) l by (simp add: procs_upd_proc fill_page_def)
  moreover have "vm_wf (a # xs) g ?s3" using w2 by (simp add: vm_wf_def kmem_inv_def page_ok_def modp_def)
  moreover have "ubytes g ?s3 r 4 = ?v"
  proof -
    have "notab (pages ?s1) g a" by (rule notab_vp) (rule a1(2))
    then have e: "vp (pages ?s3) g = vp (pages s) g" using upd_page(3) [of "pages ?s1" g a ?c] P(4) by (simp add: modp_def)
    then have "vp (pages ?s3) g (VUsr (PDX r) (PTX r)) = Some P" using P(2) by (simp only:)
    then have "upage g ?s3 r = pages ?s3 P" by (rule upage_vp)
    moreover have "P \<noteq> a" using ks(4) P(2) by blast
    ultimately have u: "upage g ?s3 r = d" by (simp add: modp_def fill_page_def)
    show ?thesis using ubytes_page [of r 4 g ?s3] u P(5,6) r(4) by simp
  qed
  ultimately show ?thesis using it2 by (intro exI [of _ ?s3]) (simp add: join_proc_def)
qed

section \<open>Exit and join\<close>

text \<open>The scheduler has picked \<open>m\<close>, which returns to user space.\<close>

definition dispatched :: "nat \<Rightarrow> 'a procst_scheme \<Rightarrow> 'a procst_scheme" where
  "dispatched m s = modp m (\<lambda>q. q\<lparr>p_state := RUNNING\<rparr>) (s\<lparr>held := [], curproc := Some m\<rparr>)"

text \<open>
  C34. A thread that calls \<open>thread_exit\<close> with the value \<open>v\<close> becomes a zombie, leaves no thread asleep on its
  main thread, and the main thread's next \<open>thread_join\<close> with its identifier returns 0 with \<open>v\<close> stored in the
  four bytes at \<open>retval\<close>. The join takes the thread out of the main thread's array, frees its slot and its
  kernel stack, and keeps the run queues and the address space well-formed.\<close>

theorem thread_exit_join:
  fixes s :: "'a procst_scheme"
  assumes w: "worker m i c ip s" and inv: "mlfq_inv (pt s)" and m: "p_mthread (pr s m) = Some m" "p_pgdir (pr s m) = Some g"
    and vm: "vm_wf xs g s" and ks: "p_kstack (pr s c) = Some a" "page_ok s a" "a \<notin> set xs" "a \<notin> vpages g s"
    and r: "0 < r" "r < KERNBASE" "writable g s r" "r mod PGSIZE + 4 \<le> PGSIZE"
  shows "\<exists>s1 s2. thread_exit v s = Ok s1 \<and> p_state (pr s1 c) = ZOMBIE
    \<and> (\<forall>q<NPROC. \<not> (p_state (pr s1 q) = SLEEPING \<and> p_chan (pr s1 q) = Some (ChanProc m)))
    \<and> thread_join (p_tid (pr s c)) r (dispatched m s1) = Ok (Done 0, s2) \<and> ubytes g s2 r 4 = le_bytes 4 v
    \<and> p_state (pr s2 c) = UNUSED \<and> \<not> p_inqueue (pr s2 c) \<and> p_cthread (pr s2 m) = (p_cthread (pr s m))[i := None]
    \<and> vm_wf (a # xs) g s2 \<and> mlfq_inv (pt s2)"
proof -
  obtain s1 where e: "thread_exit v s = Ok s1" "mlfq_inv (pt s1)" "p_ret (pr s1 m) = (p_ret (pr s m))[i := v]" "p_state (pr s1 c) = ZOMBIE"
    and F: "\<And>q. q < NPROC \<Longrightarrow> p_cthread (pr s1 q) = p_cthread (pr s q) \<and> p_tid (pr s1 q) = p_tid (pr s q) \<and> p_mthread (pr s1 q) = p_mthread (pr s q)
      \<and> p_kstack (pr s1 q) = p_kstack (pr s q) \<and> p_pgdir (pr s1 q) = p_pgdir (pr s q) \<and> \<not> (p_state (pr s1 q) = SLEEPING \<and> p_chan (pr s1 q) = Some (ChanProc m))"
    and k: "pages s1 = pages s" "kmem_freelist s1 = kmem_freelist s" "kern_end s1 = kern_end s"
    using thread_exit_ok [OF w inv, of v] by blast
  let ?s = "dispatched m s1"
  have l: "length (pt_proc (pt s1)) = NPROC" by (rule mlfq_inv_len [OF e(2)])
  have c: "c \<noteq> m" "c < NPROC" "m < NPROC" "1 \<le> i" "i < NPROC" "p_cthread (pr s m) ! i = Some c" "length (p_ret (pr s m)) = NPROC" "KmemLock \<notin> set (held s)"
    using w by (auto simp: worker_def)
  have d: "\<And>j q. 1 \<le> j \<Longrightarrow> j < NPROC \<Longrightarrow> p_cthread (pr s m) ! j = Some q \<Longrightarrow> q < NPROC \<and> (p_tid (pr s q) = p_tid (pr s c) \<longrightarrow> j = i)"
    using w unfolding worker_def by blast
  have G: "p_cthread (pr ?s q) = p_cthread (pr s q)" "p_tid (pr ?s q) = p_tid (pr s q)" "p_mthread (pr ?s q) = p_mthread (pr s q)"
      "p_kstack (pr ?s q) = p_kstack (pr s q)" "p_pgdir (pr ?s q) = p_pgdir (pr s q)" if "q < NPROC" for q
    using that F [OF that] l by (cases "q = m"; simp add: dispatched_def modp_def procs_upd_proc)+
  have R: "p_ret (pr ?s m) = (p_ret (pr s m))[i := v]" "p_state (pr ?s c) = ZOMBIE" using e(3,4) c l by (simp_all add: dispatched_def modp_def procs_upd_proc)
  have M: "pages ?s = pages s" "kern_end ?s = kern_end s" "held ?s = []" "curproc ?s = Some m" "kmem_freelist ?s = kmem_freelist s" using k by (simp_all add: dispatched_def modp_def)
  have iv: "mlfq_inv (pt ?s)" using e(2) by (simp add: dispatched_def modp_def mlfq_inv_upd_proc)
  have vm': "vm_wf xs g ?s" and a: "page_ok ?s a" "a \<notin> vpages g ?s" and wr: "writable g ?s r"
    using vm ks r(3) M c(8) by (auto simp: vm_wf_def kmem_inv_def page_ok_def writable_def present_def)
  have un: "j = i" if "1 \<le> j" "j < NPROC" "p_cthread (pr ?s m) ! j = Some q" "p_tid (pr ?s q) = p_tid (pr ?s c)" for j q
    using that d [of j q] c G by auto
  have "\<exists>s2. thread_join (p_tid (pr ?s c)) r ?s = Ok (Done 0, s2) \<and> mlfq_inv (pt s2) \<and> p_state (pr s2 c) = UNUSED \<and> \<not> p_inqueue (pr s2 c)
    \<and> p_cthread (pr s2 m) = (p_cthread (pr ?s m))[i := None] \<and> vm_wf (a # xs) g s2 \<and> ubytes g s2 r 4 = le_bytes 4 (p_ret (pr ?s m) ! i)"
    by (rule thread_join_ok [OF M(3,4) _ c(1,2,3,4,5) _ R(2) un iv _ vm' _ a(1) ks(3) a(2) r(1,2) wr r(4)]) (use G c m ks(1) in simp_all)
  then obtain s2 where "thread_join (p_tid (pr s c)) r ?s = Ok (Done 0, s2)" "mlfq_inv (pt s2)" "p_state (pr s2 c) = UNUSED" "\<not> p_inqueue (pr s2 c)"
    "p_cthread (pr s2 m) = (p_cthread (pr s m))[i := None]" "vm_wf (a # xs) g s2" "ubytes g s2 r 4 = le_bytes 4 v"
    using G c R(1) by auto
  moreover have "\<forall>q<NPROC. \<not> (p_state (pr s1 q) = SLEEPING \<and> p_chan (pr s1 q) = Some (ChanProc m))" using F by blast
  ultimately show ?thesis using e(1,4) by blast
qed

text \<open>An address space with one page, in which process 0 has process 2 as a thread.\<close>

definition grown_vm :: "unit kmemst_scheme" where
  "grown_vm = (case allocuvm 0x80104000 0 PGSIZE demo_vm of Ok (r, s) \<Rightarrow> s | Err e \<Rightarrow> demo_vm)"

lemma grown_vm_ok:
  obtains ys where "vm_wf ys 0x80104000 grown_vm" "0x80106000 \<notin> set ys" "0x80106000 \<notin> vpages 0x80104000 grown_vm" "writable 0x80104000 grown_vm 0x100"
    "kern_end grown_vm = kern_end demo_vm"
proof -
  let ?xs = "[0x80101000, 0x80102000, 0x80103000] :: nat list" and ?g = "0x80104000"
  have P: "PGROUNDUP 0 = 0" "npages 0 PGSIZE = 1" by (simp_all add: PGROUNDUP_def u32_def npages_def)
  have k: "KERNBASE < kern_end demo_vm" by (simp add: demo_vm_def boot_kmem_def)
  have "(\<exists>s' ys. allocuvm_loop ?g 0 0 PGSIZE demo_vm = Ok (PGSIZE, s') \<and> mapped 0 (max 0 PGSIZE) ?xs ys ?g demo_vm s')
      \<or> (\<exists>s'. allocuvm_loop ?g 0 0 PGSIZE demo_vm = Ok (0, s') \<and> rolled_back (PGROUNDUP 0) PGSIZE ?xs ?g demo_vm s' \<and> length ?xs < 2 * npages 0 PGSIZE)"
    by (rule alloc_loop [OF demo_vm_wf]) (use k demo_vp(1) P in simp_all)
  then obtain s' ys where a: "allocuvm_loop ?g 0 0 PGSIZE demo_vm = Ok (PGSIZE, s')" "mapped 0 PGSIZE ?xs ys ?g demo_vm s'" using P by auto
  have s': "grown_vm = s'" using a(1) P by (simp add: grown_vm_def allocuvm_def)
  note m = a(2) [unfolded mapped_def]
  have e: "P2V (PTE_ADDR (V2P v OR 7)) = v" "odd (V2P v OR 7)" "v \<noteq> 0x80106000" if "v \<in> set ?xs" for v
  proof -
    have "page_ok demo_vm v" using that by (auto simp: demo_vm_def boot_kmem_def page_ok_def V2P_def u32_def)
    then show "P2V (PTE_ADDR (V2P v OR 7)) = v" "odd (V2P v OR 7)" by (rule entry; simp)+
  qed (use that in auto)
  have u: "pte_at (pages s') ?g c u = 0 \<or> (\<exists>v\<in>set ?xs. pte_at (pages s') ?g c u = V2P v OR 7)" if "c < 1024" "u < 1024" for c u
    using m that demo_vp(1) by (metis (no_types))
  have z: "\<exists>v\<in>set ?xs. pte_at (pages s') ?g 0 0 = V2P v OR 7"
  proof -
    have "uva 0 0 = 0" by (simp add: uva_def)
    then show ?thesis using m by (metis (no_types) le0 zero_less_numeral)
  qed
  have "notab (pages demo_vm) ?g 0x80106000" by (rule notab_vp) (simp add: demo_vp(2) del: vp.simps)
  then have "notab (pages s') ?g 0x80106000" using m by auto
  then have n: "vp (pages s') ?g VDir \<noteq> Some 0x80106000" "vp (pages s') ?g (VTab d) \<noteq> Some 0x80106000" for d by (auto simp: notab_def)
  have "vp (pages s') ?g (VUsr c t) \<noteq> Some 0x80106000" for c t
  proof (cases "c < 512 \<and> t < 1024")
    case True
    then consider "pte_at (pages s') ?g c t = 0" | v where "v \<in> set ?xs" "pte_at (pages s') ?g c t = V2P v OR 7" using u [of c t] by fastforce
    then show ?thesis
    proof cases
      case 2
      then show ?thesis unfolding vp.simps 2(2) e(1) [OF 2(1)] using e(3) [OF 2(1)] by (simp only: option.inject split: if_split) simp
    qed simp
  qed auto
  then have "vp (pages s') ?g i \<noteq> Some 0x80106000" for i using n by (cases i) (simp_all only: simp_thms not_False_eq_True)
  moreover have "writable ?g s' 0x100"
  proof -
    have "PDX 0x100 = 0" "PTX 0x100 = 0" by (simp_all add: PDX_PTX)
    moreover obtain v where v: "v \<in> set ?xs" "pte_at (pages s') ?g 0 0 = V2P v OR 7" using z by blast
    moreover have "(V2P v OR 7) AND PTE_W \<noteq> 0" using v(1) by (auto simp: V2P_def u32_def)
    ultimately show ?thesis using e(2) by (simp only: writable_def present_def) simp
  qed
  moreover have "0x80106000 \<notin> set ys" using m by auto
  ultimately show thesis using m memonlyD(2) [of demo_vm s'] s' by (intro that) auto
qed

definition join_demo :: procst where
  "join_demo = (wait_demo None)\<lparr>curproc := Some 2, pages := pages grown_vm, kmem_freelist := kmem_freelist grown_vm,
     pt := upd_proc 0 (\<lambda>q. q\<lparr>p_state := RUNNABLE, p_mthread := Some 0, p_cthread := (replicate NPROC None)[0 := Some 0, 1 := Some 2], p_pgdir := Some 0x80104000\<rparr>)
       (upd_proc 2 (\<lambda>q. q\<lparr>p_state := RUNNING, p_mthread := Some 0, p_tid := 1, p_kstack := Some 0x80106000, p_pgdir := Some 0x80104000, p_cwd := Some 0\<rparr>) zero_ptable)\<rparr>"

theorem thread_exit_join_witness:
  "\<exists>s1 s2. thread_exit 42 join_demo = Ok s1 \<and> thread_join 1 0x100 (dispatched 0 s1) = Ok (Done 0, s2)
     \<and> ubytes 0x80104000 s2 0x100 4 = [42, 0, 0, 0] \<and> p_state (pr s2 2) = UNUSED"
proof -
  let ?s = join_demo and ?g = "0x80104000 :: nat"
  obtain ys where y: "vm_wf ys ?g grown_vm" "0x80106000 \<notin> set ys" "0x80106000 \<notin> vpages ?g grown_vm" "writable ?g grown_vm 0x100"
    "kern_end grown_vm = kern_end demo_vm" by (rule grown_vm_ok)
  have st: "pages ?s = pages grown_vm" "kmem_freelist ?s = kmem_freelist grown_vm" "held ?s = []" "curproc ?s = Some 2" "kern_end ?s = kern_end demo_vm"
    "icache ?s = replicate NINODE (ino_demo\<lparr>i_lock := unlocked_sl\<rparr>)" "\<not> log_committing ?s" "log_outstanding ?s = 0" "lh_n ?s = 0"
    by (simp_all add: join_demo_def wait_demo_state)
  have p: "pr ?s 0 = zero_proc\<lparr>p_state := RUNNABLE, p_mthread := Some 0, p_cthread := (replicate NPROC None)[0 := Some 0, 1 := Some 2], p_pgdir := Some ?g\<rparr>"
    "pr ?s 2 = zero_proc\<lparr>p_state := RUNNING, p_mthread := Some 0, p_tid := 1, p_kstack := Some 0x80106000, p_pgdir := Some ?g, p_cwd := Some 0\<rparr>"
    by (simp_all add: join_demo_def procs_upd_proc)
  have one: "j = 1 \<and> d = 2" if "1 \<le> j" "j < NPROC" "p_cthread (pr ?s 0) ! j = Some d" for j d
    using that unfolding p by (cases "j = 1") simp_all
  have w: "worker 0 1 2 0 ?s"
  proof -
    have "d < NPROC \<and> (p_tid (pr ?s d) = p_tid (pr ?s 2) \<longrightarrow> j = 1)" if "1 \<le> j" "j < NPROC" "p_cthread (pr ?s 0) ! j = Some d" for j d
      using one [OF that] by simp
    then show ?thesis unfolding worker_def using st p by (simp add: zero_proc_def ino_demo_def)
  qed
  have inv: "mlfq_inv (pt ?s)" unfolding join_demo_def by (simp add: mlfq_inv_upd_proc mlfq_inv_zero)
  have vm: "vm_wf ys ?g ?s" "writable ?g ?s 0x100" "0x80106000 \<notin> vpages ?g ?s"
    using y by (simp_all add: vm_wf_def kmem_inv_def page_ok_def writable_def present_def st)
  have pk: "page_ok ?s 0x80106000" by (simp add: page_ok_def st V2P_def u32_def demo_vm_def boot_kmem_def)
  have f: "p_mthread (pr ?s 0) = Some 0" "p_pgdir (pr ?s 0) = Some ?g" "p_kstack (pr ?s 2) = Some 0x80106000" "p_tid (pr ?s 2) = 1"
    using p by simp_all
  have "le_bytes 4 42 = [42, 0, 0, 0]" by code_simp
  then show ?thesis
    using thread_exit_join [OF w inv f(1,2) vm(1) f(3) pk y(2) vm(3) _ _ vm(2), of 42] f(4) by auto
qed

end
