(* ===== verification/Exec.thy ===== *)
theory Exec
  imports Proc
begin

text \<open>
  \<open>exec\<close>, exec.c. A path and an argument string are the bytes before the terminator. The label
  \<open>bad\<close> is \<open>exec_bad\<close>, which takes what has been acquired so far; each loop returns nothing when it
  jumps there.
\<close>

abbreviation (input) ELF_MAGIC :: nat where "ELF_MAGIC \<equiv> 0x464C457F"
abbreviation (input) MAXARG :: nat where "MAXARG \<equiv> 32"

text \<open>The states of the other threads, and what the two critical sections at the ends do with them.\<close>

definition others :: "nat \<Rightarrow> nat \<Rightarrow> 'a kst_scheme \<Rightarrow> (nat \<times> nat) list" where
  "others m cur s = concat (map (\<lambda>i. case p_cthread (pr s m) ! i of None \<Rightarrow> []
     | Some c \<Rightarrow> if c \<noteq> cur then [(i, c)] else []) [0..<NPROC])"

definition exec_suspend :: "nat \<Rightarrow> nat \<Rightarrow> 'a kst_scheme \<Rightarrow> (procstate list \<times> 'a kst_scheme) result" where
  "exec_suspend m cur s = rbind (acquire PtableLock s) (\<lambda>s.
     let (st, s) = fold (\<lambda>(i, c) (st, s). (st[i := p_state (pr s c)], set_state c ZOMBIE s)) (others m cur s)
           (replicate NPROC UNUSED, s) in
     rbind (release PtableLock s) (\<lambda>s. Ok (st, s)))"

definition exec_bad :: "nat \<Rightarrow> nat \<Rightarrow> procstate list \<Rightarrow> nat \<Rightarrow> nat option \<Rightarrow> 'a procst_scheme \<Rightarrow> (int \<times> 'a procst_scheme) result" where
  "exec_bad m cur st pgdir ip s =
     rbind (if pgdir \<noteq> 0 then freevm pgdir s else Ok s) (\<lambda>s.
     rbind (case ip of Some ip \<Rightarrow> rbind (iunlockput ip s) end_op | None \<Rightarrow> Ok s) (\<lambda>s.
     rbind (acquire PtableLock s) (\<lambda>s.
     let s = fold (\<lambda>(i, c) s. set_state c (st ! i) s) (others m cur s) s in
     rbind (release PtableLock s) (\<lambda>s. Ok (-1, s)))))"

text \<open>The program headers; \<open>n\<close> of them are left.\<close>

fun exec_load :: "nat \<Rightarrow> nat \<Rightarrow> nat \<Rightarrow> nat \<Rightarrow> nat \<Rightarrow> 'a procst_scheme \<Rightarrow> (nat option \<times> 'a procst_scheme) result" where
  "exec_load 0 ip g off sz s = Ok (Some sz, s)"
| "exec_load (Suc n) ip g off sz s =
     rbind (readi ip off 32 s) (\<lambda>(r, ph, s).
     if r \<noteq> 32 then Ok (None, s)
     else if get_u32 ph 0 \<noteq> 1 then exec_load n ip g (u32 (off + 32)) sz s
     else
       let foff = get_u32 ph 4; vaddr = get_u32 ph 8; filesz = get_u32 ph 16; memsz = get_u32 ph 20 in
       if memsz < filesz then Ok (None, s)
       else if u32 (vaddr + memsz) < vaddr then Ok (None, s)
       else rbind (allocuvm g sz (u32 (vaddr + memsz)) s) (\<lambda>(sz, s).
         if sz = 0 then Ok (None, s)
         else if vaddr mod PGSIZE \<noteq> 0 then Ok (None, s)
         else rbind (loaduvm g vaddr ip foff filesz s) (\<lambda>(r, s).
           if r < 0 then Ok (None, s) else exec_load n ip g (u32 (off + 32)) sz s)))"

text \<open>The 64 user stacks, each with an inaccessible page below it.\<close>

fun exec_stacks :: "nat \<Rightarrow> nat \<Rightarrow> nat list \<Rightarrow> nat \<Rightarrow> 'a procst_scheme \<Rightarrow> (nat option \<times> 'a procst_scheme) result" where
  "exec_stacks g cur [] sz s = Ok (Some sz, s)"
| "exec_stacks g cur (i # is) sz s =
     rbind (allocuvm g sz (u32 (sz + 2 * PGSIZE)) s) (\<lambda>(sz, s).
     if sz = 0 then Ok (None, s)
     else rbind (clearpteu g (u32 (sz + 2 ^ 32 - 2 * PGSIZE)) s) (\<lambda>s.
       exec_stacks g cur is sz (modp cur (\<lambda>q. q\<lparr>p_ustack := (p_ustack q)[i := sz]\<rparr>) s)))"

fun exec_args :: "nat \<Rightarrow> bytes list \<Rightarrow> nat \<Rightarrow> nat list \<Rightarrow> 'a procst_scheme \<Rightarrow> ((nat \<times> nat list) option \<times> 'a procst_scheme) result" where
  "exec_args g [] sp acc s = Ok (Some (sp, acc), s)"
| "exec_args g (a # as) sp acc s =
     (if length acc \<ge> MAXARG then Ok (None, s)
      else
        let sp = u32 (sp + 2 ^ 32 - (length a + 1)) AND 0xFFFFFFFC in
        rbind (copyout g sp (a @ [0]) s) (\<lambda>(r, s).
        if r < 0 then Ok (None, s) else exec_args g as sp (acc @ [sp]) s))"

definition exec_frame :: "nat \<Rightarrow> nat list \<Rightarrow> bytes" where
  "exec_frame sp acc = concat (map (le_bytes 4) ([0xFFFFFFFF, length acc, u32 (sp + 2 ^ 32 - (length acc + 1) * 4)] @ acc @ [0]))"

text \<open>From \<open>safestrcpy\<close> to the end: the new image replaces the old one.\<close>

definition exec_commit :: "nat \<Rightarrow> nat \<Rightarrow> bytes \<Rightarrow> nat \<Rightarrow> nat \<Rightarrow> nat \<Rightarrow> nat \<Rightarrow> 'a procst_scheme \<Rightarrow> (int \<times> 'a procst_scheme) result" where
  "exec_commit m cur path g sz sp entry s =
     rbind (safestrcpy (p_name (pr s cur)) (rev (takeWhile (\<lambda>c. c \<noteq> slash) (rev path)) @ [0]) 16) (\<lambda>nm.
     let s = modp cur (\<lambda>q. q\<lparr>p_name := nm\<rparr>) s in
     rbind (if p_percentage (pr s m) \<noteq> 0 then initpush 0 cur (pt s) else Ok (pt s)) (\<lambda>t.
     let s = s\<lparr>pt := t\<rparr> in
     rbind (rfold (\<lambda>(i, c) s. rbind (close_files c s) (drop_cwd c)) (others m cur s) s) (\<lambda>s.
     rbind (acquire PtableLock s) (\<lambda>s.
     rbind (killzombie cur s) (\<lambda>s.
     let s = modp cur (\<lambda>q. q\<lparr>p_pid := p_tid q, p_mthread := Some cur, p_cthread := (replicate NPROC None)[0 := Some cur],
           p_ret := replicate NPROC 0, p_rrlast := 0\<rparr>) s;
         oldpgdir = addr_of (p_pgdir (pr s cur));
         s = modp cur (\<lambda>q. q\<lparr>p_pgdir := to_ptr g, p_sz := sz, p_tf := (p_tf q)\<lparr>tf_eip := entry, tf_esp := sp\<rparr>\<rparr>) s in
     rbind (switchuvm (Some cur) s) (\<lambda>s.
     rbind (if cur = m then freevm oldpgdir s else Ok s) (\<lambda>s.
     rbind (release PtableLock s) (\<lambda>s. Ok (0, s)))))))))"

text \<open>When the path does not exist the code jumps to \<open>bad\<close> before \<open>pgdir\<close> is set.\<close>

definition exec :: "bytes \<Rightarrow> bytes list \<Rightarrow> 'a procst_scheme \<Rightarrow> (int \<times> 'a procst_scheme) result" where
  "exec path argv s =
     rbind (myproc s) (\<lambda>cur.
     rbind (mthread_of cur s) (\<lambda>m.
     rbind (exec_suspend m cur s) (\<lambda>(st, s).
     rbind (begin_op s) (\<lambda>s.
     rbind (namei path s) (\<lambda>(ip, s).
     case ip of None \<Rightarrow> rbind (end_op s) (\<lambda>s. Err (Fault ''exec: pgdir'')) | Some ip \<Rightarrow>
     rbind (ilock ip s) (\<lambda>s.
     rbind (readi ip 0 52 s) (\<lambda>(r, elf, s).
     if r \<noteq> 52 \<or> get_u32 elf 0 \<noteq> ELF_MAGIC then exec_bad m cur st 0 (Some ip) s
     else rbind (setupkvm (l_data s) s) (\<lambda>(g, s).
       if g = 0 then exec_bad m cur st 0 (Some ip) s
       else rbind (exec_load (get_u16 elf 44) ip g (get_u32 elf 28) 0 s) (\<lambda>(sz, s).
         case sz of None \<Rightarrow> exec_bad m cur st g (Some ip) s | Some sz \<Rightarrow>
         rbind (iunlockput ip s) (\<lambda>s.
         rbind (end_op s) (\<lambda>s.
         rbind (exec_stacks g cur [0..<NPROC] (PGROUNDUP sz) s) (\<lambda>(sz, s).
         case sz of None \<Rightarrow> exec_bad m cur st g None s | Some sz \<Rightarrow>
         rbind (exec_args g argv (p_ustack (pr s cur) ! 0) [] s) (\<lambda>(res, s).
         case res of None \<Rightarrow> exec_bad m cur st g None s | Some (sp, acc) \<Rightarrow>
         let ustack = exec_frame sp acc; sp = u32 (sp + 2 ^ 32 - length ustack) in
         rbind (copyout g sp ustack s) (\<lambda>(r, s).
         if r < 0 then exec_bad m cur st g None s
         else exec_commit m cur path g sz sp (get_u32 elf 24) s))))))))))))))"

end
