(* ===== verification/Syscall.thy ===== *)
theory Syscall
  imports Thread Exec
begin

text \<open>
  System call arguments, syscall.c, and the calls of sysproc.c and thread.c. The arguments lie on the
  user stack above the saved program counter; a string argument is the bytes before its terminator.
  A call that sleeps returns what has to be done when it wakes up, a \<open>syscont\<close>.
\<close>

record sysst = procst +
  ticks :: nat
  runningticks :: nat

datatype syscont = KRead nat nat nat | KWrite nat bytes nat | KWait | KJoin int nat | KSleep nat int | KYield | KNever

type_synonym sysres = "(int, syscont) run"

section \<open>Arguments\<close>

definition mypgdir :: "nat \<Rightarrow> 'a kst_scheme \<Rightarrow> nat" where
  "mypgdir cur s = addr_of (p_pgdir (pr s cur))"

text \<open>The results are \<open>None\<close> where the code returns \<open>-1\<close>.\<close>

definition fetchint :: "nat \<Rightarrow> 'a procst_scheme \<Rightarrow> nat option result" where
  "fetchint addr s =
     rbind (myproc s) (\<lambda>cur. let sz = p_sz (pr s cur) in
     if addr \<ge> sz \<or> u32 (addr + 4) > sz then Ok None
     else rbind (peek (mypgdir cur s) addr 4 s) (\<lambda>d. Ok (Some (get_u32 d 0))))"

function fetchstr_loop :: "nat \<Rightarrow> nat \<Rightarrow> nat \<Rightarrow> bytes \<Rightarrow> 'a procst_scheme \<Rightarrow> bytes option result" where
  "fetchstr_loop g a ep acc s =
     (if a < ep then rbind (peek g a 1 s) (\<lambda>d. if d ! 0 = 0 then Ok (Some acc) else fetchstr_loop g (a + 1) ep (acc @ [d ! 0]) s)
      else Ok None)"
  by pat_completeness auto
termination by (relation "measure (\<lambda>(g, a, ep, acc, s). ep - a)") auto

declare fetchstr_loop.simps [simp del]

definition fetchstr :: "nat \<Rightarrow> 'a procst_scheme \<Rightarrow> bytes option result" where
  "fetchstr addr s =
     rbind (myproc s) (\<lambda>cur. let sz = p_sz (pr s cur) in
     if addr \<ge> sz then Ok None else fetchstr_loop (mypgdir cur s) addr sz [] s)"

definition argint :: "nat \<Rightarrow> 'a procst_scheme \<Rightarrow> nat option result" where
  "argint n s = rbind (myproc s) (\<lambda>cur. fetchint (u32 (tf_esp (p_tf (pr s cur)) + 4 + 4 * n)) s)"

definition argptr :: "nat \<Rightarrow> int \<Rightarrow> 'a procst_scheme \<Rightarrow> nat option result" where
  "argptr n len s =
     rbind (myproc s) (\<lambda>cur.
     rbind (argint n s) (\<lambda>r. case r of None \<Rightarrow> Ok None | Some i \<Rightarrow>
     let sz = p_sz (pr s cur) in
     if len < 0 \<or> i \<ge> sz \<or> u32 (i + nat len) > sz then Ok None else Ok (Some i)))"

definition argstr :: "nat \<Rightarrow> 'a procst_scheme \<Rightarrow> bytes option result" where
  "argstr n s = rbind (argint n s) (\<lambda>r. case r of None \<Rightarrow> Ok None | Some a \<Rightarrow> fetchstr a s)"

text \<open>An argument that is read as an \<open>int\<close>; the call fails when it cannot be fetched.\<close>

definition with_arg :: "nat option result \<Rightarrow> (nat \<Rightarrow> (sysres \<times> 's) result) \<Rightarrow> 's \<Rightarrow> (sysres \<times> 's) result" where
  "with_arg a f s = rbind a (\<lambda>r. case r of None \<Rightarrow> Ok (Done (-1), s) | Some v \<Rightarrow> f v)"

definition with_str :: "bytes option result \<Rightarrow> (bytes \<Rightarrow> (sysres \<times> 's) result) \<Rightarrow> 's \<Rightarrow> (sysres \<times> 's) result" where
  "with_str a f s = rbind a (\<lambda>r. case r of None \<Rightarrow> Ok (Done (-1), s) | Some v \<Rightarrow> f v)"

definition ret_int :: "(int \<times> 's) result \<Rightarrow> (sysres \<times> 's) result" where
  "ret_int m = rbind m (\<lambda>(r, s). Ok (Done r, s))"

text \<open>A routine that may sleep, and its continuation.\<close>

definition may_sleep :: "syscont \<Rightarrow> ((int, 'c) run \<times> 's) result \<Rightarrow> (sysres \<times> 's) result" where
  "may_sleep k m = rbind m (\<lambda>(r, s). case r of Done v \<Rightarrow> Ok (Done v, s) | Blocked _ \<Rightarrow> Ok (Blocked k, s))"

section \<open>Processes\<close>

definition sys_fork :: "'a procst_scheme \<Rightarrow> (sysres \<times> 'a procst_scheme) result" where
  "sys_fork s = ret_int (fork s)"

definition sys_exit :: "'a procst_scheme \<Rightarrow> (sysres \<times> 'a procst_scheme) result" where
  "sys_exit s = rbind (exit s) (\<lambda>s. Ok (Blocked KNever, s))"

definition sys_wait :: "'a procst_scheme \<Rightarrow> (sysres \<times> 'a procst_scheme) result" where
  "sys_wait s = may_sleep KWait (wait s)"

definition sys_kill :: "'a procst_scheme \<Rightarrow> (sysres \<times> 'a procst_scheme) result" where
  "sys_kill s = with_arg (argint 0 s) (\<lambda>pid. ret_int (kill (of_int32 pid) s)) s"

definition sys_getpid :: "'a procst_scheme \<Rightarrow> (sysres \<times> 'a procst_scheme) result" where
  "sys_getpid s = rbind (myproc s) (\<lambda>cur. Ok (Done (p_pid (pr s cur)), s))"

definition sys_getppid :: "'a procst_scheme \<Rightarrow> (sysres \<times> 'a procst_scheme) result" where
  "sys_getppid s = rbind (myproc s) (\<lambda>cur. case p_parent (pr s cur) of None \<Rightarrow> Err (Fault ''getppid'')
     | Some q \<Rightarrow> Ok (Done (p_pid (pr s q)), s))"

definition sys_sbrk :: "'a procst_scheme \<Rightarrow> (sysres \<times> 'a procst_scheme) result" where
  "sys_sbrk s = with_arg (argint 0 s) (\<lambda>n.
     rbind (myproc s) (\<lambda>cur. let addr = of_int32 (p_sz (pr s cur)) in
     rbind (growproc (of_int32 n) s) (\<lambda>(r, s). Ok (Done (if r < 0 then -1 else addr), s)))) s"

text \<open>One round of the loop of \<open>sys_sleep\<close>; \<open>ticks - ticks0 < n\<close> is a comparison of unsigned numbers.\<close>

definition sleep_round :: "nat \<Rightarrow> int \<Rightarrow> 'a sysst_scheme \<Rightarrow> (sysres \<times> 'a sysst_scheme) result" where
  "sleep_round ticks0 n s =
     (if u32 (ticks s + 2 ^ 32 - ticks0) < nat (n mod 2 ^ 32) then
        rbind (cur_killed s) (\<lambda>killed.
        if killed then rbind (release TicksLock s) (\<lambda>s. Ok (Done (-1), s))
        else rbind (sleep_enter ChanTicks TicksLock s) (\<lambda>s. Ok (Blocked (KSleep ticks0 n), s)))
      else rbind (release TicksLock s) (\<lambda>s. Ok (Done 0, s)))"

definition sys_sleep :: "'a sysst_scheme \<Rightarrow> (sysres \<times> 'a sysst_scheme) result" where
  "sys_sleep s = with_arg (argint 0 s) (\<lambda>n.
     rbind (acquire TicksLock s) (\<lambda>s. sleep_round (ticks s) (of_int32 n) s)) s"

definition sys_uptime :: "'a sysst_scheme \<Rightarrow> (sysres \<times> 'a sysst_scheme) result" where
  "sys_uptime s = rbind (acquire TicksLock s) (\<lambda>s.
     let x = ticks s in rbind (release TicksLock s) (\<lambda>s. Ok (Done (of_int32 x), s)))"

definition sys_yield :: "'a procst_scheme \<Rightarrow> (sysres \<times> 'a procst_scheme) result" where
  "sys_yield s = rbind (yield_enter s) (\<lambda>s. Ok (Blocked KYield, s))"

definition sys_getlev :: "'a procst_scheme \<Rightarrow> (sysres \<times> 'a procst_scheme) result" where
  "sys_getlev s = rbind (getlev s) (\<lambda>x. Ok (Done x, s))"

definition sys_set_cpu_share :: "'a procst_scheme \<Rightarrow> (sysres \<times> 'a procst_scheme) result" where
  "sys_set_cpu_share s = with_arg (argint 0 s) (\<lambda>p. ret_int (set_cpu_share (of_int32 p) s)) s"

text \<open>\<open>0xABCDABCD\<close> as an \<open>int\<close>; the line it prints is not part of the state.\<close>

definition sys_myfunction :: "'a procst_scheme \<Rightarrow> (sysres \<times> 'a procst_scheme) result" where
  "sys_myfunction s = with_str (argstr 0 s) (\<lambda>str. Ok (Done (of_int32 0xABCDABCD), s)) s"

section \<open>Threads\<close>

definition sys_thread_create :: "'a procst_scheme \<Rightarrow> (sysres \<times> 'a procst_scheme) result" where
  "sys_thread_create s = with_arg (argint 0 s) (\<lambda>thread. with_arg (argint 1 s) (\<lambda>start. with_arg (argint 2 s) (\<lambda>arg.
     ret_int (thread_create thread start arg s)) s) s) s"

definition sys_thread_exit :: "'a procst_scheme \<Rightarrow> (sysres \<times> 'a procst_scheme) result" where
  "sys_thread_exit s = with_arg (argint 0 s) (\<lambda>retval.
     rbind (thread_exit retval s) (\<lambda>s. Ok (Blocked KNever, s))) s"

definition sys_thread_join :: "'a procst_scheme \<Rightarrow> (sysres \<times> 'a procst_scheme) result" where
  "sys_thread_join s = with_arg (argint 0 s) (\<lambda>thread. with_arg (argint 1 s) (\<lambda>retval.
     may_sleep (KJoin (of_int32 thread) retval) (thread_join (of_int32 thread) retval s)) s) s"

section \<open>Reading arguments\<close>

lemma fetchstr_loop_ok:
  assumes "\<And>x. x < ep \<Longrightarrow> present g s x \<and> length (upage g s x) = PGSIZE" "ep \<le> 2 ^ 32"
  shows "fetchstr_loop g a ep acc s = Ok (if 0 \<in> ubyte g s ` {a..<ep} then Some (acc @ takeWhile (\<lambda>c. c \<noteq> 0) (map (ubyte g s) [a..<ep])) else None)"
proof (induction "ep - a" arbitrary: a acc)
  case 0
  then show ?case by (simp add: fetchstr_loop.simps)
next
  case (Suc d)
  then have a: "a < ep" by simp
  have pk: "peek g a 1 s = Ok [ubyte g s a]" using peek_ok [of a 1 g s] assms a by (simp add: ubytes_def)
  have u: "[a..<ep] = a # [Suc a..<ep]" and i: "{a..<ep} = insert a {Suc a..<ep}" using a by (simp_all add: upt_conv_Cons atLeastLessThan_singleton) auto
  show ?case
  proof (cases "ubyte g s a = 0")
    case True
    then show ?thesis using a pk by (subst fetchstr_loop.simps) (simp add: u i)
  next
    case False
    have "fetchstr_loop g a ep acc s = fetchstr_loop g (a + 1) ep (acc @ [ubyte g s a]) s"
      using a pk False by (subst fetchstr_loop.simps) simp
    then show ?thesis using Suc.hyps(1) [of "a + 1" "acc @ [ubyte g s a]"] Suc.hyps(2) False by (simp add: u i)
  qed
qed

text \<open>Every page below the size of the process is mapped.\<close>

definition uspace_ok :: "nat \<Rightarrow> nat \<Rightarrow> 'a kmemst_scheme \<Rightarrow> bool" where
  "uspace_ok g sz s \<longleftrightarrow> sz \<le> KERNBASE \<and> (\<forall>x < sz. present g s x \<and> length (upage g s x) = PGSIZE)"

lemma fetchint_ok:
  assumes cur: "curproc s = Some cur" and us: "uspace_ok (mypgdir cur s) (p_sz (pr s cur)) s"
  shows "fetchint a s = Ok (if a + 4 \<le> p_sz (pr s cur) then Some (le_val (ubytes (mypgdir cur s) s a 4)) else None)"
proof -
  let ?sz = "p_sz (pr s cur)"
  have k: "?sz \<le> KERNBASE" using us by (simp add: uspace_ok_def)
  have c: "(a \<ge> ?sz \<or> u32 (a + 4) > ?sz) \<longleftrightarrow> \<not> a + 4 \<le> ?sz"
  proof (cases "a < ?sz")
    case True
    then have "u32 (a + 4) = a + 4" using k by (simp add: u32_def)
    then show ?thesis using True by auto
  qed auto
  show ?thesis
  proof (cases "a + 4 \<le> ?sz")
    case True
    then have "peek (mypgdir cur s) a 4 s = Ok (ubytes (mypgdir cur s) s a 4)" using us k by (intro peek_ok) (auto simp: uspace_ok_def)
    moreover have "get_u32 (ubytes (mypgdir cur s) s a 4) 0 = le_val (ubytes (mypgdir cur s) s a 4)" by (simp add: get_u32_def slice_def ubytes_def)
    ultimately show ?thesis using True cur c unfolding fetchint_def by (simp add: myproc_def Let_def)
  next
    case False
    then show ?thesis using cur c unfolding fetchint_def by (simp add: myproc_def Let_def)
  qed
qed

text \<open>
  C33. The arguments of system calls. In a process whose pages below its size are all mapped, fetching
  an argument never faults, whatever the address: \<open>fetchint\<close> returns the word at the address exactly
  when all four bytes lie below the size, \<open>fetchstr\<close> the bytes up to the first terminator exactly
  when there is one below the size, and \<open>argptr\<close> accepts a buffer exactly when all of it lies below
  the size, with no way around through the wrap-around of unsigned addition.\<close>

theorem syscall_args_checked:
  assumes cur: "curproc s = Some cur" and us: "uspace_ok (mypgdir cur s) (p_sz (pr s cur)) s" and len: "len < 2 ^ 31"
  shows "let g = mypgdir cur s; sz = p_sz (pr s cur); sp = tf_esp (p_tf (pr s cur)) in
      fetchint a s = Ok (if a + 4 \<le> sz then Some (le_val (ubytes g s a 4)) else None)
    \<and> fetchstr a s = Ok (if 0 \<in> ubyte g s ` {a..<sz} then Some (takeWhile (\<lambda>c. c \<noteq> 0) (map (ubyte g s) [a..<sz])) else None)
    \<and> argptr n len s = (let p = u32 (sp + 4 + 4 * n); i = le_val (ubytes g s p 4) in
        Ok (if p + 4 \<le> sz \<and> 0 \<le> len \<and> i < sz \<and> i + nat len \<le> sz then Some i else None))"
proof -
  let ?g = "mypgdir cur s" and ?sz = "p_sz (pr s cur)" and ?p = "u32 (tf_esp (p_tf (pr s cur)) + 4 + 4 * n)"
  have k: "?sz \<le> KERNBASE" and pg: "\<And>x. x < ?sz \<Longrightarrow> present ?g s x \<and> length (upage ?g s x) = PGSIZE" using us by (simp_all add: uspace_ok_def)
  have my: "myproc s = Ok cur" using cur by (simp add: myproc_def)
  have "fetchstr a s = Ok (if 0 \<in> ubyte ?g s ` {a..<?sz} then Some (takeWhile (\<lambda>c. c \<noteq> 0) (map (ubyte ?g s) [a..<?sz])) else None)"
    using fetchstr_loop_ok [of ?sz ?g s a "[]"] pg k unfolding fetchstr_def my by (simp add: Let_def)
  moreover have "argptr n len s = (let i = le_val (ubytes ?g s ?p 4) in
        Ok (if ?p + 4 \<le> ?sz \<and> 0 \<le> len \<and> i < ?sz \<and> i + nat len \<le> ?sz then Some i else None))"
  proof -
    let ?i = "le_val (ubytes ?g s ?p 4)"
    have "u32 (?i + nat len) = ?i + nat len" if "?i < ?sz"
    proof -
      have "nat len < 2 ^ 31" using len by (simp add: nat_less_iff)
      then show ?thesis using that k by (simp add: u32_def)
    qed
    then show ?thesis unfolding argptr_def argint_def my rbind.simps fetchint_ok [OF cur us] by (auto simp: Let_def)
  qed
  ultimately show ?thesis using fetchint_ok [OF cur us, of a] by (simp add: Let_def)
qed

text \<open>A process with one page: the directory, a page table and the page.\<close>

definition args_demo :: procst where
  "args_demo = (wait_demo None)\<lparr>pages := (\<lambda>_. replicate PGSIZE 0)(0x80104000 := put_cell (replicate PGSIZE 0) 0 (V2P 0x80101000 OR 7),
      0x80101000 := put_cell (replicate PGSIZE 0) 0 (V2P 0x80102000 OR 7), 0x80102000 := blit (replicate PGSIZE 0) 8 [1, 2, 0, 0]),
    pt := upd_proc 0 (\<lambda>q. q\<lparr>p_sz := PGSIZE, p_pgdir := Some 0x80104000\<rparr>) (pt (wait_demo None))\<rparr>"

lemma args_demo_page:
  assumes "x < PGSIZE"
  shows "present 0x80104000 args_demo x" "upage 0x80104000 args_demo x = blit (replicate PGSIZE 0) 8 [1, 2, 0, 0]"
proof -
  have ix: "PDX x = 0" "PTX x = 0" using assms by (simp_all add: PDX_PTX)
  have "page_ok demo_vm 0x80101000" "page_ok demo_vm 0x80102000" by (simp_all add: demo_vm_def boot_kmem_def page_ok_def V2P_def u32_def)
  note E = entry [OF this(1), of 7, simplified] entry [OF this(2), of 7, simplified]
  have d: "pde_at (pages args_demo) 0x80104000 0 = V2P 0x80101000 OR 7"
    unfolding pde_at_def args_demo_def using get_put_4096 [of "replicate PGSIZE 0" 0 0] E(4) by simp
  have "pte_at (pages args_demo) 0x80104000 0 0 = V2P 0x80102000 OR 7"
    unfolding pte_at_def d E(2) using E(1) get_put_4096 [of "replicate PGSIZE 0" 0 0] E(8) by (simp add: args_demo_def)
  then show "present 0x80104000 args_demo x" "upage 0x80104000 args_demo x = blit (replicate PGSIZE 0) 8 [1, 2, 0, 0]"
    unfolding present_def upage_def ix using E(5,6) by (simp_all add: args_demo_def)
qed

lemma takeWhile_three:
  "10 < n \<Longrightarrow> P (f 8) \<Longrightarrow> P (f 9) \<Longrightarrow> \<not> P (f 10) \<Longrightarrow> takeWhile P (map f [8..<n]) = [f 8, f 9]"
  by (simp add: upt_conv_Cons)

theorem syscall_args_checked_witness:
  "fetchint 8 args_demo = Ok (Some 0x201) \<and> fetchint 4093 args_demo = Ok None \<and> fetchstr 8 args_demo = Ok (Some [1, 2])
     \<and> argptr 1 3583 args_demo = Ok (Some 0x201) \<and> argptr 1 3584 args_demo = Ok None"
proof -
  let ?s = args_demo
  have s: "curproc ?s = Some 0" by (simp add: args_demo_def wait_demo_state)
  have p: "p_sz (pr ?s 0) = PGSIZE" "mypgdir 0 ?s = 0x80104000" "tf_esp (p_tf (pr ?s 0)) = 0"
    using wait_demo_procs(1,5) [of None] by (simp_all add: args_demo_def mypgdir_def addr_of_def zero_proc_def zero_tf_def)
  have us: "uspace_ok (mypgdir 0 ?s) (p_sz (pr ?s 0)) ?s" unfolding p uspace_ok_def using args_demo_page by simp
  have b: "ubyte 0x80104000 ?s x = blit (replicate PGSIZE 0) 8 [1, 2, 0, 0] ! x" if "x < PGSIZE" for x
    using that by (simp add: ubyte_def args_demo_page)
  have w: "le_val (ubytes 0x80104000 ?s 8 4) = 0x201" by (simp add: ubytes_def b nth_blit upt_rec)
  have t: "takeWhile (\<lambda>c. c \<noteq> 0) (map (ubyte 0x80104000 ?s) [8..<PGSIZE]) = [1, 2]"
    by (subst takeWhile_three) (simp_all add: b nth_blit)
  have z: "0 \<in> ubyte 0x80104000 ?s ` {8..<PGSIZE}" by (rule image_eqI [of _ _ 10]) (simp_all add: b nth_blit)
  note A = syscall_args_checked [OF s us, unfolded p Let_def]
  have "fetchint 8 ?s = Ok (Some 0x201)" "fetchint 4093 ?s = Ok None"
    using A [of 0 8, THEN conjunct1] A [of 0 4093, THEN conjunct1] w by simp_all
  moreover have "fetchstr 8 ?s = Ok (Some [1, 2])" using A [of 0 8, THEN conjunct2, THEN conjunct1] z unfolding t by (simp only: if_True) simp
  moreover have "argptr 1 3583 ?s = Ok (Some 0x201)" "argptr 1 3584 ?s = Ok None"
    using A [of 3583 0 1, THEN conjunct2, THEN conjunct2] A [of 3584 0 1, THEN conjunct2, THEN conjunct2] w by (simp_all add: u32_def)
  ultimately show ?thesis by blast
qed

end
