(* ===== verification/Sysfile.thy ===== *)
theory Sysfile
  imports Syscall
begin

text \<open>
  The file system calls, sysfile.c, and the dispatch of system calls, syscall.c. What a call reads
  from user memory is read when the call starts; what it stores there is stored when it returns.
\<close>

abbreviation (input) O_CREATE :: nat where "O_CREATE \<equiv> 0x200"

text \<open>A value assigned to a \<open>short\<close>.\<close>

definition as_short :: "int \<Rightarrow> int" where
  "as_short x = (x + 2 ^ 15) mod 2 ^ 16 - 2 ^ 15"

section \<open>Descriptors\<close>

definition argfd :: "nat \<Rightarrow> 'a procst_scheme \<Rightarrow> (nat \<times> nat) option result" where
  "argfd n s = rbind (argint n s) (\<lambda>r. case r of None \<Rightarrow> Ok None | Some v \<Rightarrow>
     rbind (myproc s) (\<lambda>cur.
     let fd = of_int32 v in
     if fd < 0 \<or> fd \<ge> int NOFILE then Ok None
     else case p_ofile (pr s cur) ! nat fd of None \<Rightarrow> Ok None | Some f \<Rightarrow> Ok (Some (nat fd, f))))"

definition with_fd :: "nat \<Rightarrow> (nat \<Rightarrow> nat \<Rightarrow> (sysres \<times> 'a procst_scheme) result) \<Rightarrow> 'a procst_scheme \<Rightarrow> (sysres \<times> 'a procst_scheme) result" where
  "with_fd n f s = rbind (argfd n s) (\<lambda>r. case r of None \<Rightarrow> Ok (Done (-1), s) | Some (fd, x) \<Rightarrow> f fd x)"

definition set_fd :: "nat \<Rightarrow> nat \<Rightarrow> nat option \<Rightarrow> 'a kst_scheme \<Rightarrow> 'a kst_scheme" where
  "set_fd cur fd f s = modp cur (\<lambda>q. q\<lparr>p_ofile := (p_ofile q)[fd := f]\<rparr>) s"

definition fdalloc :: "nat \<Rightarrow> 'a procst_scheme \<Rightarrow> (nat option \<times> 'a procst_scheme) result" where
  "fdalloc f s = rbind (myproc s) (\<lambda>cur.
     case search (\<lambda>fd. p_ofile (pr s cur) ! fd = None) 0 NOFILE of
       Some fd \<Rightarrow> Ok (Some fd, set_fd cur fd (Some f) s)
     | None \<Rightarrow> Ok (None, s))"

definition sys_dup :: "'a procst_scheme \<Rightarrow> (sysres \<times> 'a procst_scheme) result" where
  "sys_dup s = with_fd 0 (\<lambda>_ f.
     rbind (fdalloc f s) (\<lambda>(fd, s). case fd of None \<Rightarrow> Ok (Done (-1), s)
     | Some fd \<Rightarrow> rbind (filedup f s) (\<lambda>(_, s). Ok (Done (int fd), s)))) s"

section \<open>Reading and writing\<close>

definition read_done :: "nat \<Rightarrow> nat \<Rightarrow> nat \<Rightarrow> ((int \<times> bytes, unit) run \<times> 'a procst_scheme) result \<Rightarrow> (sysres \<times> 'a procst_scheme) result" where
  "read_done a p n m = rbind m (\<lambda>(r, s). case r of
       Blocked _ \<Rightarrow> Ok (Blocked (KRead a p n), s)
     | Done (v, d) \<Rightarrow> rbind (myproc s) (\<lambda>cur. rbind (poke (mypgdir cur s) p d s) (\<lambda>s. Ok (Done v, s))))"

definition write_done :: "nat \<Rightarrow> nat \<Rightarrow> ((int, bytes) run \<times> 'a procst_scheme) result \<Rightarrow> (sysres \<times> 'a procst_scheme) result" where
  "write_done a n m = rbind m (\<lambda>(r, s). case r of
       Blocked rest \<Rightarrow> Ok (Blocked (KWrite a rest n), s) | Done v \<Rightarrow> Ok (Done v, s))"

definition sys_read :: "'a procst_scheme \<Rightarrow> (sysres \<times> 'a procst_scheme) result" where
  "sys_read s = with_fd 0 (\<lambda>_ f. with_arg (argint 2 s) (\<lambda>n. with_arg (argptr 1 (of_int32 n) s) (\<lambda>p.
     read_done (f_pipe (fobj s f)) p n (fileread f n s)) s) s) s"

definition sys_pread :: "'a procst_scheme \<Rightarrow> (sysres \<times> 'a procst_scheme) result" where
  "sys_pread s = with_fd 0 (\<lambda>_ f. with_arg (argint 2 s) (\<lambda>n. with_arg (argptr 1 (of_int32 n) s) (\<lambda>p.
     with_arg (argint 3 s) (\<lambda>off. read_done (f_pipe (fobj s f)) p n (filepread f n off s)) s) s) s) s"

definition sys_write :: "'a procst_scheme \<Rightarrow> (sysres \<times> 'a procst_scheme) result" where
  "sys_write s = with_fd 0 (\<lambda>_ f. with_arg (argint 2 s) (\<lambda>n. with_arg (argptr 1 (of_int32 n) s) (\<lambda>p.
     rbind (myproc s) (\<lambda>cur. rbind (peek (mypgdir cur s) p n s) (\<lambda>src.
     write_done (f_pipe (fobj s f)) n (filewrite f src s)))) s) s) s"

definition sys_pwrite :: "'a procst_scheme \<Rightarrow> (sysres \<times> 'a procst_scheme) result" where
  "sys_pwrite s = with_fd 0 (\<lambda>_ f. with_arg (argint 2 s) (\<lambda>n. with_arg (argptr 1 (of_int32 n) s) (\<lambda>p.
     with_arg (argint 3 s) (\<lambda>off. rbind (myproc s) (\<lambda>cur. rbind (peek (mypgdir cur s) p n s) (\<lambda>src.
     write_done (f_pipe (fobj s f)) n (filepwrite f src off s)))) s) s) s) s"

definition sys_close :: "'a procst_scheme \<Rightarrow> (sysres \<times> 'a procst_scheme) result" where
  "sys_close s = with_fd 0 (\<lambda>fd f. rbind (myproc s) (\<lambda>cur.
     rbind (fileclose f (set_fd cur fd None s)) (\<lambda>s. Ok (Done 0, s)))) s"

text \<open>The fields of a \<open>struct stat\<close> and their offsets; the padding is not written.\<close>

definition stat_fields :: "stat \<Rightarrow> (nat \<times> bytes) list" where
  "stat_fields st = [(0, le_bytes 2 (to_short (st_type st))), (4, le_bytes 4 (st_dev st)), (8, le_bytes 4 (st_ino st)),
     (12, le_bytes 2 (to_short (st_nlink st))), (16, le_bytes 4 (st_size st))]"

definition sys_fstat :: "'a procst_scheme \<Rightarrow> (sysres \<times> 'a procst_scheme) result" where
  "sys_fstat s = with_fd 0 (\<lambda>_ f. with_arg (argptr 1 20 s) (\<lambda>p.
     rbind (filestat f s) (\<lambda>(r, st, s). case st of None \<Rightarrow> Ok (Done r, s)
     | Some st \<Rightarrow> rbind (myproc s) (\<lambda>cur.
         rbind (rfold (\<lambda>(off, d) s. poke (mypgdir cur s) (u32 (p + off)) d s) (stat_fields st) s) (\<lambda>s. Ok (Done r, s))))) s) s"

section \<open>Names\<close>

definition fail_op :: "'a procst_scheme \<Rightarrow> (sysres \<times> 'a procst_scheme) result" where
  "fail_op s = rbind (end_op s) (\<lambda>s. Ok (Done (-1), s))"

definition fail_put :: "nat \<Rightarrow> 'a procst_scheme \<Rightarrow> (sysres \<times> 'a procst_scheme) result" where
  "fail_put ip s = rbind (iunlockput ip s) fail_op"

definition add_nlink :: "nat \<Rightarrow> int \<Rightarrow> 'a fsst_scheme \<Rightarrow> 'a fsst_scheme result" where
  "add_nlink ip d s = iupdate ip (upd_ino ip (\<lambda>i. i\<lparr>i_nlink := as_short (i_nlink i + d)\<rparr>) s)"

definition link_bad :: "nat \<Rightarrow> 'a procst_scheme \<Rightarrow> (sysres \<times> 'a procst_scheme) result" where
  "link_bad ip s = rbind (ilock ip s) (\<lambda>s. rbind (add_nlink ip (-1) s) (fail_put ip))"

definition sys_link :: "'a procst_scheme \<Rightarrow> (sysres \<times> 'a procst_scheme) result" where
  "sys_link s = with_str (argstr 0 s) (\<lambda>old. with_str (argstr 1 s) (\<lambda>new.
     rbind (begin_op s) (\<lambda>s.
     rbind (namei old s) (\<lambda>(ip, s). case ip of None \<Rightarrow> fail_op s | Some ip \<Rightarrow>
     rbind (ilock ip s) (\<lambda>s.
     if i_type (ino s ip) = T_DIR then fail_put ip s
     else rbind (add_nlink ip 1 s) (\<lambda>s.
       rbind (iunlock ip s) (\<lambda>s.
       rbind (nameiparent new (replicate DIRSIZ 0) s) (\<lambda>(dp, name, s). case dp of None \<Rightarrow> link_bad ip s | Some dp \<Rightarrow>
       rbind (ilock dp s) (\<lambda>s.
       rbind (if i_dev (ino s dp) \<noteq> i_dev (ino s ip) then Ok (-1, s) else dirlink dp name (i_inum (ino s ip)) s) (\<lambda>(r, s).
       if r < 0 then rbind (iunlockput dp s) (link_bad ip)
       else rbind (iunlockput dp s) (\<lambda>s. rbind (iput ip s) (\<lambda>s. rbind (end_op s) (\<lambda>s. Ok (Done 0, s))))))))))))) s) s"

fun isdirempty_loop :: "nat \<Rightarrow> nat list \<Rightarrow> 'a fsst_scheme \<Rightarrow> (bool \<times> 'a fsst_scheme) result" where
  "isdirempty_loop dp [] s = Ok (True, s)"
| "isdirempty_loop dp (off # offs) s =
     rbind (readi dp off 16 s) (\<lambda>(r, de, s).
     if r \<noteq> 16 then Err (Panic ''isdirempty: readi'')
     else if de_inum de \<noteq> 0 then Ok (False, s)
     else isdirempty_loop dp offs s)"

definition isdirempty :: "nat \<Rightarrow> 'a fsst_scheme \<Rightarrow> (bool \<times> 'a fsst_scheme) result" where
  "isdirempty dp s = isdirempty_loop dp (drop 2 (dir_offs dp s)) s"

definition sys_unlink :: "'a procst_scheme \<Rightarrow> (sysres \<times> 'a procst_scheme) result" where
  "sys_unlink s = with_str (argstr 0 s) (\<lambda>path.
     rbind (begin_op s) (\<lambda>s.
     rbind (nameiparent path (replicate DIRSIZ 0) s) (\<lambda>(dp, name, s). case dp of None \<Rightarrow> fail_op s | Some dp \<Rightarrow>
     rbind (ilock dp s) (\<lambda>s.
     rbind (namecmp name [46, 0]) (\<lambda>c1. rbind (namecmp name [46, 46, 0]) (\<lambda>c2.
     if c1 = 0 \<or> c2 = 0 then fail_put dp s
     else rbind (dirlookup dp name s) (\<lambda>(found, s). case found of None \<Rightarrow> fail_put dp s | Some (ip, off) \<Rightarrow>
     rbind (ilock ip s) (\<lambda>s.
     if i_nlink (ino s ip) < 1 then Err (Panic ''unlink: nlink < 1'')
     else rbind (if i_type (ino s ip) = T_DIR then isdirempty ip s else Ok (True, s)) (\<lambda>(empty, s).
       if \<not> empty then rbind (iunlockput ip s) (fail_put dp)
       else rbind (writei dp (replicate 16 0) off s) (\<lambda>(r, s).
         if r \<noteq> 16 then Err (Panic ''unlink: writei'')
         else rbind (if i_type (ino s ip) = T_DIR then add_nlink dp (-1) s else Ok s) (\<lambda>s.
           rbind (iunlockput dp s) (\<lambda>s.
           rbind (add_nlink ip (-1) s) (\<lambda>s.
           rbind (iunlockput ip s) (\<lambda>s.
           rbind (end_op s) (\<lambda>s. Ok (Done 0, s)))))))))))))))) s"

text \<open>\<open>create\<close> returns the inode locked.\<close>

definition create_new :: "nat \<Rightarrow> bytes \<Rightarrow> int \<Rightarrow> int \<Rightarrow> int \<Rightarrow> 'a fsst_scheme \<Rightarrow> (nat option \<times> 'a fsst_scheme) result" where
  "create_new dp name ty major minor s =
     rbind (ialloc (i_dev (ino s dp)) ty s) (\<lambda>(ip, s).
     rbind (ilock ip s) (\<lambda>s.
     rbind (iupdate ip (upd_ino ip (\<lambda>i. i\<lparr>i_major := major, i_minor := minor, i_nlink := 1\<rparr>) s)) (\<lambda>s.
     rbind (if ty = T_DIR then
         rbind (add_nlink dp 1 s) (\<lambda>s.
         rbind (dirlink ip [46, 0] (i_inum (ino s ip)) s) (\<lambda>(r, s).
         if r < 0 then Err (Panic ''create dots'')
         else rbind (dirlink ip [46, 46, 0] (i_inum (ino s dp)) s) (\<lambda>(r, s).
           if r < 0 then Err (Panic ''create dots'') else Ok s)))
       else Ok s) (\<lambda>s.
     rbind (dirlink dp name (i_inum (ino s ip)) s) (\<lambda>(r, s).
     if r < 0 then Err (Panic ''create: dirlink'')
     else rbind (iunlockput dp s) (\<lambda>s. Ok (Some ip, s)))))))"

definition create :: "bytes \<Rightarrow> int \<Rightarrow> int \<Rightarrow> int \<Rightarrow> 'a fsst_scheme \<Rightarrow> (nat option \<times> 'a fsst_scheme) result" where
  "create path ty major minor s =
     rbind (nameiparent path (replicate DIRSIZ 0) s) (\<lambda>(dp, name, s). case dp of None \<Rightarrow> Ok (None, s) | Some dp \<Rightarrow>
     rbind (ilock dp s) (\<lambda>s.
     rbind (dirlookup dp name s) (\<lambda>(found, s). case found of
       Some (ip, _) \<Rightarrow>
         rbind (iunlockput dp s) (\<lambda>s.
         rbind (ilock ip s) (\<lambda>s.
         if ty = T_FILE \<and> i_type (ino s ip) = T_FILE then Ok (Some ip, s)
         else rbind (iunlockput ip s) (\<lambda>s. Ok (None, s))))
     | None \<Rightarrow> create_new dp name ty major minor s)))"

definition open_file :: "nat \<Rightarrow> nat \<Rightarrow> 'a procst_scheme \<Rightarrow> (sysres \<times> 'a procst_scheme) result" where
  "open_file ip omode s =
     rbind (filealloc s) (\<lambda>(f, s). case f of None \<Rightarrow> fail_put ip s | Some f \<Rightarrow>
     rbind (fdalloc f s) (\<lambda>(fd, s). case fd of None \<Rightarrow> rbind (fileclose f s) (fail_put ip) | Some fd \<Rightarrow>
     rbind (iunlock ip s) (\<lambda>s.
     rbind (end_op s) (\<lambda>s.
     Ok (Done (int fd), upd_file f (\<lambda>x. x\<lparr>f_type := FD_INODE, f_ip := ip, f_off := 0, f_readable := (omode AND 1 = 0),
       f_writable := (omode AND 1 \<noteq> 0 \<or> omode AND 2 \<noteq> 0)\<rparr>) s)))))"

definition sys_open :: "'a procst_scheme \<Rightarrow> (sysres \<times> 'a procst_scheme) result" where
  "sys_open s = with_str (argstr 0 s) (\<lambda>path. with_arg (argint 1 s) (\<lambda>omode.
     rbind (begin_op s) (\<lambda>s.
     if omode AND O_CREATE \<noteq> 0 then
       rbind (create path T_FILE 0 0 s) (\<lambda>(ip, s). case ip of None \<Rightarrow> fail_op s | Some ip \<Rightarrow> open_file ip omode s)
     else
       rbind (namei path s) (\<lambda>(ip, s). case ip of None \<Rightarrow> fail_op s | Some ip \<Rightarrow>
       rbind (ilock ip s) (\<lambda>s.
       if i_type (ino s ip) = T_DIR \<and> omode \<noteq> 0 then fail_put ip s else open_file ip omode s)))) s) s"

text \<open>The end of \<open>sys_mkdir\<close> and \<open>sys_mknod\<close>.\<close>

definition create_and_put :: "bytes \<Rightarrow> int \<Rightarrow> int \<Rightarrow> int \<Rightarrow> 'a procst_scheme \<Rightarrow> (sysres \<times> 'a procst_scheme) result" where
  "create_and_put path ty major minor s =
     rbind (create path ty major minor s) (\<lambda>(ip, s). case ip of None \<Rightarrow> fail_op s | Some ip \<Rightarrow>
     rbind (iunlockput ip s) (\<lambda>s. rbind (end_op s) (\<lambda>s. Ok (Done 0, s))))"

definition sys_mkdir :: "'a procst_scheme \<Rightarrow> (sysres \<times> 'a procst_scheme) result" where
  "sys_mkdir s = rbind (begin_op s) (\<lambda>s.
     rbind (argstr 0 s) (\<lambda>r. case r of None \<Rightarrow> fail_op s | Some path \<Rightarrow> create_and_put path T_DIR 0 0 s))"

definition sys_mknod :: "'a procst_scheme \<Rightarrow> (sysres \<times> 'a procst_scheme) result" where
  "sys_mknod s = rbind (begin_op s) (\<lambda>s.
     rbind (argstr 0 s) (\<lambda>r. case r of None \<Rightarrow> fail_op s | Some path \<Rightarrow>
     rbind (argint 1 s) (\<lambda>r. case r of None \<Rightarrow> fail_op s | Some major \<Rightarrow>
     rbind (argint 2 s) (\<lambda>r. case r of None \<Rightarrow> fail_op s | Some minor \<Rightarrow>
     create_and_put path T_DEV (as_short (of_int32 major)) (as_short (of_int32 minor)) s))))"

definition sys_chdir :: "'a procst_scheme \<Rightarrow> (sysres \<times> 'a procst_scheme) result" where
  "sys_chdir s = rbind (myproc s) (\<lambda>cur. rbind (begin_op s) (\<lambda>s.
     rbind (argstr 0 s) (\<lambda>r. case r of None \<Rightarrow> fail_op s | Some path \<Rightarrow>
     rbind (namei path s) (\<lambda>(ip, s). case ip of None \<Rightarrow> fail_op s | Some ip \<Rightarrow>
     rbind (ilock ip s) (\<lambda>s.
     if i_type (ino s ip) \<noteq> T_DIR then fail_put ip s
     else rbind (iunlock ip s) (\<lambda>s.
       rbind (case p_cwd (pr s cur) of None \<Rightarrow> Err (Fault ''iput'') | Some old \<Rightarrow> iput old s) (\<lambda>s.
       rbind (end_op s) (\<lambda>s. Ok (Done 0, modp cur (\<lambda>q. q\<lparr>p_cwd := Some ip\<rparr>) s)))))))))"

text \<open>The vector of arguments of \<open>exec\<close>: at most 31 strings and a null pointer.\<close>

fun exec_argv :: "nat \<Rightarrow> nat \<Rightarrow> 'a procst_scheme \<Rightarrow> bytes list option result" where
  "exec_argv 0 uargv s = Ok None"
| "exec_argv (Suc n) uargv s =
     rbind (fetchint uargv s) (\<lambda>r. case r of None \<Rightarrow> Ok None | Some uarg \<Rightarrow>
     if uarg = 0 then Ok (Some [])
     else rbind (fetchstr uarg s) (\<lambda>r. case r of None \<Rightarrow> Ok None | Some a \<Rightarrow>
       rbind (exec_argv n (u32 (uargv + 4)) s) (\<lambda>r. Ok (map_option (\<lambda>as. a # as) r))))"

definition sys_exec :: "'a procst_scheme \<Rightarrow> (sysres \<times> 'a procst_scheme) result" where
  "sys_exec s = with_str (argstr 0 s) (\<lambda>path. with_arg (argint 1 s) (\<lambda>uargv.
     rbind (exec_argv MAXARG uargv s) (\<lambda>r. case r of None \<Rightarrow> Ok (Done (-1), s)
     | Some argv \<Rightarrow> ret_int (exec path argv s))) s) s"

definition sys_pipe :: "'a procst_scheme \<Rightarrow> (sysres \<times> 'a procst_scheme) result" where
  "sys_pipe s = with_arg (argptr 0 8 s) (\<lambda>p. rbind (myproc s) (\<lambda>cur.
     rbind (pipealloc s) (\<lambda>(r, fs, s). case fs of None \<Rightarrow> Ok (Done (-1), s) | Some (rfile, wfile) \<Rightarrow>
     rbind (fdalloc rfile s) (\<lambda>(fd0, s). case fd0 of
       None \<Rightarrow> rbind (fileclose rfile s) (\<lambda>s. rbind (fileclose wfile s) (\<lambda>s. Ok (Done (-1), s)))
     | Some fd0 \<Rightarrow>
         rbind (fdalloc wfile s) (\<lambda>(fd1, s). case fd1 of
           None \<Rightarrow> rbind (fileclose rfile (set_fd cur fd0 None s)) (\<lambda>s. rbind (fileclose wfile s) (\<lambda>s. Ok (Done (-1), s)))
         | Some fd1 \<Rightarrow>
             rbind (poke (mypgdir cur s) p (le_bytes 4 fd0) s) (\<lambda>s.
             rbind (poke (mypgdir cur s) (u32 (p + 4)) (le_bytes 4 fd1) s) (\<lambda>s. Ok (Done 0, s)))))))) s"

section \<open>Dispatch\<close>

definition syscalls :: "('a sysst_scheme \<Rightarrow> (sysres \<times> 'a sysst_scheme) result) option list" where
  "syscalls = [None, Some sys_fork, Some sys_exit, Some sys_wait, Some sys_pipe, Some sys_read, Some sys_kill,
     Some sys_exec, Some sys_fstat, Some sys_chdir, Some sys_dup, Some sys_getpid, Some sys_sbrk, Some sys_sleep,
     Some sys_uptime, Some sys_open, Some sys_write, Some sys_mknod, Some sys_unlink, Some sys_link, Some sys_mkdir,
     Some sys_close, Some sys_myfunction, Some sys_getppid, Some sys_yield, Some sys_getlev, Some sys_set_cpu_share,
     Some sys_thread_create, Some sys_thread_exit, Some sys_thread_join, Some sys_pread, Some sys_pwrite]"

text \<open>The value of a call goes to \<open>eax\<close> of the caller.\<close>

definition syscall_return :: "nat \<Rightarrow> (sysres \<times> 'a kst_scheme) result \<Rightarrow> ((unit, syscont) run \<times> 'a kst_scheme) result" where
  "syscall_return cur m = rbind m (\<lambda>(r, s). case r of
       Done v \<Rightarrow> Ok (Done (), modp cur (\<lambda>q. q\<lparr>p_tf := (p_tf q)\<lparr>tf_eax := nat (v mod 2 ^ 32)\<rparr>\<rparr>) s)
     | Blocked k \<Rightarrow> Ok (Blocked k, s))"

definition syscall :: "'a sysst_scheme \<Rightarrow> ((unit, syscont) run \<times> 'a sysst_scheme) result" where
  "syscall s = rbind (myproc s) (\<lambda>cur.
     let num = of_int32 (tf_eax (p_tf (pr s cur))) in
     syscall_return cur (if num > 0 \<and> num < int (length (syscalls :: ('a sysst_scheme \<Rightarrow> _) option list)) then
         (case syscalls ! nat num of None \<Rightarrow> Ok (Done (-1), s) | Some f \<Rightarrow> f s)
       else Ok (Done (-1), s)))"

text \<open>
  What a call does after it was woken up. \<open>sys_yield\<close> has no return statement; its value is whatever
  is left in the register, \<open>junk\<close>.
\<close>

definition syscall_resume :: "int \<Rightarrow> syscont \<Rightarrow> 'a sysst_scheme \<Rightarrow> (sysres \<times> 'a sysst_scheme) result" where
  "syscall_resume junk k s = (case k of
       KRead a p n \<Rightarrow> read_done a p n (piperead_resume a n s)
     | KWrite a rest n \<Rightarrow> write_done a n (pipewrite_resume a n rest s)
     | KWait \<Rightarrow> may_sleep KWait (wait_resume s)
     | KJoin t r \<Rightarrow> may_sleep (KJoin t r) (thread_join_resume t r s)
     | KSleep t n \<Rightarrow> rbind (sleep_leave TicksLock s) (sleep_round t n)
     | KYield \<Rightarrow> rbind (yield_leave s) (\<lambda>s. Ok (Done junk, s))
     | KNever \<Rightarrow> Err (Panic ''zombie exit''))"

end
