(* ===== verification/Trap.thy ===== *)
theory Trap
  imports Sysfile
begin

text \<open>
  Traps, trap.c: system calls, the clock tick with the time quantum of the running thread, and
  faults of user programs. \<open>intr\<close> stands for the interrupt routines of the disk, keyboard and
  serial drivers, which do not touch processes other than through \<open>wakeup\<close>. A trap that gives up the
  CPU stops there and is continued by \<open>trap_resume\<close>.
\<close>

section \<open>Operations\<close>

abbreviation (input) T_SYSCALL :: nat where "T_SYSCALL \<equiv> 64"
abbreviation (input) T_TIMER :: nat where "T_TIMER \<equiv> 32"

datatype trapcont = TSyscall syscont | TStride | TQuantum | TNever

type_synonym trapres = "(unit, trapcont) run"

definition trap_exit :: "'a sysst_scheme \<Rightarrow> (trapres \<times> 'a sysst_scheme) result" where
  "trap_exit s = rbind (exit s) (\<lambda>s. Ok (Blocked TNever, s))"

definition main_killed :: "'a kst_scheme \<Rightarrow> bool result" where
  "main_killed s = rbind (myproc s) (\<lambda>p. rbind (mthread_of p s) (\<lambda>m. Ok (p_killed (pr s m))))"

text \<open>\<open>myproc() && myproc()->mthread->killed && (tf->cs&3) == DPL_USER\<close>\<close>

definition killed_in_user :: "trapframe \<Rightarrow> 'a kst_scheme \<Rightarrow> bool result" where
  "killed_in_user tf s = (if curproc s = None then Ok False else rbind (main_killed s) (\<lambda>k. Ok (k \<and> tf_cs tf AND 3 = 3)))"

definition trap_last :: "trapframe \<Rightarrow> 'a sysst_scheme \<Rightarrow> (trapres \<times> 'a sysst_scheme) result" where
  "trap_last tf s = rbind (killed_in_user tf s) (\<lambda>k. if k then trap_exit s else Ok (Done (), s))"

text \<open>The time quantum of the running thread.\<close>

definition trap_quantum :: "trapframe \<Rightarrow> 'a sysst_scheme \<Rightarrow> (trapres \<times> 'a sysst_scheme) result" where
  "trap_quantum tf s =
     rbind (myproc s) (\<lambda>p. let q = pr s p in
     if p_timequantum q = 0 then Err (Fault ''divide'')
     else rbind (int32 (p_curticks q + 1)) (\<lambda>c.
       if c smod p_timequantum q = 0 then rbind (yield_enter s) (\<lambda>s. Ok (Blocked TQuantum, s))
       else rbind (int32 (p_ticks q + 1)) (\<lambda>t.
         trap_last tf ((modp p (\<lambda>q. q\<lparr>p_ticks := t, p_curticks := c\<rparr>) s)\<lparr>runningticks := u32 (runningticks s + 1)\<rparr>))))"

definition trap_tick :: "trapframe \<Rightarrow> 'a sysst_scheme \<Rightarrow> (trapres \<times> 'a sysst_scheme) result" where
  "trap_tick tf s = (case curproc s of None \<Rightarrow> trap_last tf s | Some p \<Rightarrow>
     if p_state (pr s p) = RUNNING \<and> tf_trapno tf = T_TIMER then
       rbind (mthread_of p s) (\<lambda>m.
       if p_percentage (pr s m) \<noteq> 0 then rbind (yield_enter s) (\<lambda>s. Ok (Blocked TStride, s))
       else trap_quantum tf s)
     else trap_last tf s)"

definition trap_dispatch :: "(nat \<Rightarrow> 'a sysst_scheme \<Rightarrow> 'a sysst_scheme result) \<Rightarrow> nat \<Rightarrow> trapframe \<Rightarrow> 'a sysst_scheme \<Rightarrow> 'a sysst_scheme result" where
  "trap_dispatch intr cpuid tf s =
     (let n = tf_trapno tf in
      if n = T_TIMER then
        (if cpuid = 0 then rbind (acquire TicksLock s) (\<lambda>s.
           rbind (wakeup ChanTicks (s\<lparr>ticks := u32 (ticks s + 1)\<rparr>)) (release TicksLock))
         else Ok s)
      else if n = 46 \<or> n = 33 \<or> n = 36 then intr n s
      else if n = 47 \<or> n = 39 \<or> n = 63 then Ok s
      else case curproc s of None \<Rightarrow> Err (Panic ''trap'') | Some p \<Rightarrow>
        if tf_cs tf AND 3 = 0 then Err (Panic ''trap'')
        else Ok (modp p (\<lambda>q. q\<lparr>p_killed := True\<rparr>) s))"

text \<open>After a system call has returned.\<close>

definition trap_sysret :: "((unit, syscont) run \<times> 'a sysst_scheme) result \<Rightarrow> (trapres \<times> 'a sysst_scheme) result" where
  "trap_sysret m = rbind m (\<lambda>(r, s). case r of
       Blocked k \<Rightarrow> Ok (Blocked (TSyscall k), s)
     | Done _ \<Rightarrow> rbind (main_killed s) (\<lambda>k. if k then trap_exit s else Ok (Done (), s)))"

definition trap :: "(nat \<Rightarrow> 'a sysst_scheme \<Rightarrow> 'a sysst_scheme result) \<Rightarrow> nat \<Rightarrow> trapframe \<Rightarrow> 'a sysst_scheme \<Rightarrow> (trapres \<times> 'a sysst_scheme) result" where
  "trap intr cpuid tf s =
     (if tf_trapno tf = T_SYSCALL then
        rbind (main_killed s) (\<lambda>k. if k then trap_exit s
        else rbind (myproc s) (\<lambda>p. trap_sysret (syscall (modp p (\<lambda>q. q\<lparr>p_tf := tf\<rparr>) s))))
      else
        rbind (trap_dispatch intr cpuid tf s) (\<lambda>s.
        rbind (killed_in_user tf s) (\<lambda>k. if k then trap_exit s else trap_tick tf s)))"

definition trap_resume :: "int \<Rightarrow> trapcont \<Rightarrow> trapframe \<Rightarrow> 'a sysst_scheme \<Rightarrow> (trapres \<times> 'a sysst_scheme) result" where
  "trap_resume junk k tf s = (case k of
       TSyscall c \<Rightarrow> rbind (myproc s) (\<lambda>p. trap_sysret (syscall_return p (syscall_resume junk c s)))
     | TStride \<Rightarrow> rbind (yield_leave s) (trap_quantum tf)
     | TQuantum \<Rightarrow> rbind (yield_leave s) (trap_last tf)
     | TNever \<Rightarrow> Err (Panic ''zombie exit''))"

end
