(* ===== verification/Bio.thy ===== *)
theory Bio
  imports Sched Buf Sleeplock
begin

text \<open>
  The buffer cache, bio.c: \<open>NBUF\<close> buffers on a doubly linked list, most recently used first. A
  \<open>struct buf *\<close> is the index of the buffer in \<open>bcache.buf\<close>, and \<open>HEAD\<close> stands for \<open>&bcache.head\<close>;
  the links are fields of the buffers, as in the code. The kernel is linked with one of two disk
  drivers, ide.c or memide.c, so the routine \<open>iderw\<close> is an argument of the operations that call it;
  here is the one of memide.c, the other is in theory Ide. The locale \<open>disk_driver\<close> states what the
  comment above both routines promises, and the cache is shown to implement the blocks of theory
  Buf for every driver that keeps that promise.
\<close>

section \<open>State\<close>

abbreviation (input) NBUF :: nat where "NBUF \<equiv> 30"
abbreviation (input) HEAD :: nat where "HEAD \<equiv> 30"

text \<open>The bits \<open>B_VALID\<close> and \<open>B_DIRTY\<close> of \<open>flags\<close> are two booleans.\<close>

record buf =
  b_valid :: bool
  b_dirty :: bool
  b_dev :: nat
  b_blockno :: nat
  b_lock :: sleeplock
  b_refcnt :: nat
  b_prev :: nat
  b_next :: nat
  b_data :: bytes

text \<open>
  \<open>bufs\<close> is \<open>bcache.buf\<close> with \<open>bcache.head\<close> behind it, \<open>hd\<close> the contents of the disks.
  The state of the driver of ide.c follows: \<open>idequeue\<close> with the buffers that are linked through
  \<open>qnext\<close>, \<open>havedisk1\<close>, and the block that the disk has been told to transfer.
\<close>

record biost = kst +
  bufs :: "buf list"
  hd_blk :: "nat \<Rightarrow> nat \<Rightarrow> bytes"
  disksize :: nat
  idequeue :: "nat list"
  havedisk1 :: bool
  ide_at :: "nat \<times> nat"

abbreviation bf :: "'a biost_scheme \<Rightarrow> nat \<Rightarrow> buf" where "bf s b \<equiv> bufs s ! b"

definition mod_buf :: "nat \<Rightarrow> (buf \<Rightarrow> buf) \<Rightarrow> buf list \<Rightarrow> buf list" where
  "mod_buf b f bs = bs[b := f (bs ! b)]"

definition upd_buf :: "nat \<Rightarrow> (buf \<Rightarrow> buf) \<Rightarrow> 'a biost_scheme \<Rightarrow> 'a biost_scheme" where
  "upd_buf b f s = s\<lparr>bufs := mod_buf b f (bufs s)\<rparr>"

section \<open>Operations\<close>

text \<open>\<open>b->next = head.next; b->prev = head; head.next->prev = b; head.next = b;\<close>\<close>

definition link_front :: "nat \<Rightarrow> buf list \<Rightarrow> buf list" where
  "link_front b bs =
     (let bs = mod_buf b (\<lambda>x. x\<lparr>b_next := b_next (bs ! HEAD), b_prev := HEAD\<rparr>) bs;
          bs = mod_buf (b_next (bs ! HEAD)) (\<lambda>x. x\<lparr>b_prev := b\<rparr>) bs
      in mod_buf HEAD (\<lambda>x. x\<lparr>b_next := b\<rparr>) bs)"

text \<open>\<open>b->next->prev = b->prev; b->prev->next = b->next;\<close>\<close>

definition unlink_buf :: "nat \<Rightarrow> buf list \<Rightarrow> buf list" where
  "unlink_buf b bs =
     (let bs = mod_buf (b_next (bs ! b)) (\<lambda>x. x\<lparr>b_prev := b_prev (bs ! b)\<rparr>) bs
      in mod_buf (b_prev (bs ! b)) (\<lambda>x. x\<lparr>b_next := b_next (bs ! b)\<rparr>) bs)"

definition binit :: "'a biost_scheme \<Rightarrow> 'a biost_scheme" where
  "binit s = s\<lparr>bufs := fold (\<lambda>b bs. mod_buf b (\<lambda>x. x\<lparr>b_lock := initsleeplock\<rparr>) (link_front b bs)) [0..<NBUF]
     (mod_buf HEAD (\<lambda>x. x\<lparr>b_prev := HEAD, b_next := HEAD\<rparr>) (bufs s))\<rparr>"

text \<open>
  The loops of \<open>bget\<close> follow one of the links until they are back at the head. There are
  \<open>NBUF\<close> buffers besides the head, so a walk of more steps would never end.
\<close>

fun scan :: "nat \<Rightarrow> (buf \<Rightarrow> nat) \<Rightarrow> (buf \<Rightarrow> bool) \<Rightarrow> buf list \<Rightarrow> nat \<Rightarrow> nat option result" where
  "scan 0 link P bs b = (if b = HEAD then Ok None else Err (Fault ''endless list''))"
| "scan (Suc n) link P bs b = (if b = HEAD then Ok None else if P (bs ! b) then Ok (Some b)
     else scan n link P bs (link (bs ! b)))"

definition bget :: "nat \<Rightarrow> nat \<Rightarrow> 'a biost_scheme \<Rightarrow> (nat \<times> 'a biost_scheme) result" where
  "bget dev blockno s =
     rbind (acquire BcacheLock s) (\<lambda>s.
     rbind (scan NBUF b_next (\<lambda>x. b_dev x = dev \<and> b_blockno x = blockno) (bufs s) (b_next (bf s HEAD))) (\<lambda>r.
     case r of
       Some b \<Rightarrow>
         let s = upd_buf b (\<lambda>x. x\<lparr>b_refcnt := u32 (b_refcnt x + 1)\<rparr>) s in
         rbind (release BcacheLock s) (\<lambda>s.
         rbind (acquiresleep (ChanBuf b) (b_lock (bf s b)) s) (\<lambda>(l, s).
         Ok (b, upd_buf b (\<lambda>x. x\<lparr>b_lock := l\<rparr>) s)))
     | None \<Rightarrow>
         rbind (scan NBUF b_prev (\<lambda>x. b_refcnt x = 0 \<and> \<not> b_dirty x) (bufs s) (b_prev (bf s HEAD))) (\<lambda>r.
         case r of
           Some b \<Rightarrow>
             let s = upd_buf b (\<lambda>x. x\<lparr>b_dev := dev, b_blockno := blockno, b_valid := False, b_dirty := False, b_refcnt := 1\<rparr>) s in
             rbind (release BcacheLock s) (\<lambda>s.
             rbind (acquiresleep (ChanBuf b) (b_lock (bf s b)) s) (\<lambda>(l, s).
             Ok (b, upd_buf b (\<lambda>x. x\<lparr>b_lock := l\<rparr>) s)))
         | None \<Rightarrow> Err (Panic ''bget: no buffers''))))"

definition bio_bread :: "(nat \<Rightarrow> 'a biost_scheme \<Rightarrow> 'a biost_scheme result) \<Rightarrow> nat \<Rightarrow> nat \<Rightarrow> 'a biost_scheme
    \<Rightarrow> (nat \<times> 'a biost_scheme) result" where
  "bio_bread iderw dev blockno s =
     rbind (bget dev blockno s) (\<lambda>(b, s).
     rbind (if \<not> b_valid (bf s b) then iderw b s else Ok s) (\<lambda>s. Ok (b, s)))"

definition bio_bwrite :: "(nat \<Rightarrow> 'a biost_scheme \<Rightarrow> 'a biost_scheme result) \<Rightarrow> nat \<Rightarrow> 'a biost_scheme \<Rightarrow> 'a biost_scheme result" where
  "bio_bwrite iderw b s =
     rbind (holdingsleep (ChanBuf b) (b_lock (bf s b)) s) (\<lambda>(h, s).
     if \<not> h then Err (Panic ''bwrite'')
     else iderw b (upd_buf b (\<lambda>x. x\<lparr>b_dirty := True\<rparr>) s))"

definition bio_brelse :: "nat \<Rightarrow> 'a biost_scheme \<Rightarrow> 'a biost_scheme result" where
  "bio_brelse b s =
     rbind (holdingsleep (ChanBuf b) (b_lock (bf s b)) s) (\<lambda>(h, s).
     if \<not> h then Err (Panic ''brelse'')
     else rbind (releasesleep (ChanBuf b) (b_lock (bf s b)) s) (\<lambda>(l, s).
       let s = upd_buf b (\<lambda>x. x\<lparr>b_lock := l\<rparr>) s in
       rbind (acquire BcacheLock s) (\<lambda>s.
       let s = upd_buf b (\<lambda>x. x\<lparr>b_refcnt := u32 (b_refcnt x + (2 ^ 32 - 1))\<rparr>) s;
           s = (if b_refcnt (bf s b) = 0 then s\<lparr>bufs := link_front b (unlink_buf b (bufs s))\<rparr> else s) in
       release BcacheLock s)))"

text \<open>The driver of memide.c, which keeps disk 1 in memory.\<close>

definition memide_iderw :: "nat \<Rightarrow> 'a biost_scheme \<Rightarrow> 'a biost_scheme result" where
  "memide_iderw b s =
     rbind (holdingsleep (ChanBuf b) (b_lock (bf s b)) s) (\<lambda>(h, s).
     if \<not> h then Err (Panic ''iderw: buf not locked'')
     else if b_valid (bf s b) \<and> \<not> b_dirty (bf s b) then Err (Panic ''iderw: nothing to do'')
     else if b_dev (bf s b) \<noteq> 1 then Err (Panic ''iderw: request not for disk 1'')
     else if b_blockno (bf s b) \<ge> disksize s then Err (Panic ''iderw: block out of range'')
     else
       let s = (if b_dirty (bf s b)
         then (upd_buf b (\<lambda>x. x\<lparr>b_dirty := False\<rparr>) s)\<lparr>hd_blk := set_block (b_dev (bf s b)) (b_blockno (bf s b)) (b_data (bf s b)) (hd_blk s)\<rparr>
         else upd_buf b (\<lambda>x. x\<lparr>b_data := hd_blk s (b_dev (bf s b)) (b_blockno (bf s b))\<rparr>) s)
       in Ok (upd_buf b (\<lambda>x. x\<lparr>b_valid := True\<rparr>) s))"

section \<open>The linked list\<close>

lemma mod_buf_simps [simp]: "length (mod_buf b f bs) = length bs" "b < length bs \<Longrightarrow> mod_buf b f bs ! i = (if i = b then f (bs ! b) else bs ! i)"
  by (simp_all add: mod_buf_def)

lemma mod_buf_out: "\<not> b < length bs \<Longrightarrow> mod_buf b f bs = bs"
  by (simp add: mod_buf_def not_less list_update_beyond)

lemma upd_buf_simps [simp]:
  "bufs (upd_buf b f s) = mod_buf b f (bufs s)" "held (upd_buf b f s) = held s" "curproc (upd_buf b f s) = curproc s"
  "pt (upd_buf b f s) = pt s" "hd_blk (upd_buf b f s) = hd_blk s" "disksize (upd_buf b f s) = disksize s"
  by (simp_all add: upd_buf_def)

text \<open>From \<open>p\<close> the links \<open>f\<close> lead through \<open>xs\<close> to \<open>q\<close>.\<close>

fun seg :: "(buf \<Rightarrow> nat) \<Rightarrow> buf list \<Rightarrow> nat \<Rightarrow> nat list \<Rightarrow> nat \<Rightarrow> bool" where
  "seg f bs p [] q \<longleftrightarrow> f (bs ! p) = q"
| "seg f bs p (x # xs) q \<longleftrightarrow> f (bs ! p) = x \<and> seg f bs x xs q"

definition linked :: "nat list \<Rightarrow> buf list \<Rightarrow> bool" where
  "linked xs bs \<longleftrightarrow> length bs = Suc NBUF \<and> distinct xs \<and> set xs \<subseteq> {..<NBUF} \<and> seg b_next bs HEAD xs HEAD \<and> seg b_prev bs HEAD (rev xs) HEAD"

lemma seg_append: "seg f bs p (ys @ b # zs) q \<longleftrightarrow> seg f bs p ys b \<and> seg f bs b zs q"
  by (induction ys arbitrary: p) auto

lemma seg_cong: "(\<And>x. x \<in> insert p (set xs) \<Longrightarrow> f (bs' ! x) = f (bs ! x)) \<Longrightarrow> seg f bs' p xs q = seg f bs p xs q"
  by (induction xs arbitrary: p) auto

lemma seg_first: "seg f bs p xs q \<Longrightarrow> f (bs ! p) = hd (xs @ [q])"
  by (cases xs) auto

lemma seg_last:
  assumes "seg f bs p xs q" "distinct (p # xs)" "f (bs' ! last (p # xs)) = q'"
    "\<And>x. x \<in> insert p (set xs) \<Longrightarrow> x \<noteq> last (p # xs) \<Longrightarrow> f (bs' ! x) = f (bs ! x)"
  shows "seg f bs' p xs q'"
  using assms
proof (induction xs arbitrary: p)
  case (Cons x xs)
  have "f (bs' ! p) = x" using Cons.prems by (metis distinct.simps(2) insertI1 last_ConsR last_in_set list.simps(3) seg.simps(2))
  moreover have "seg f bs' x xs q'" by (rule Cons.IH) (use Cons.prems in auto)
  ultimately show ?case by simp
qed simp

lemma seg_remove:
  assumes s: "seg f bs p (ys @ b # zs) q" and d: "distinct (p # ys @ b # zs)" and l: "f (bs' ! last (p # ys)) = f (bs ! b)"
    and o: "\<And>x. x \<in> insert p (set (ys @ zs)) \<Longrightarrow> x \<noteq> last (p # ys) \<Longrightarrow> f (bs' ! x) = f (bs ! x)"
  shows "seg f bs' p (ys @ zs) q"
proof -
  have 1: "seg f bs p ys b" "seg f bs b zs q" using s by (simp_all add: seg_append)
  have 2: "distinct (p # ys)" using d by auto
  have h: "seg f bs' p ys (hd (zs @ [q]))"
    by (rule seg_last [OF 1(1) 2]) (use l seg_first [OF 1(2)] o in auto)
  show ?thesis
  proof (cases zs)
    case (Cons z zs')
    have "last (p # ys) \<in> set (p # ys)" by (rule last_in_set) simp
    then have "last (p # ys) \<notin> set zs" using d by auto
    then have "seg f bs' z zs' q = seg f bs z zs' q" using Cons by (intro seg_cong o) auto
    then show ?thesis using h 1(2) Cons by (simp add: seg_append)
  qed (use h in simp)
qed

lemma scan_seg:
  assumes "seg f bs p xs HEAD" "set xs \<subseteq> {..<NBUF}" "length xs \<le> n"
  shows "scan n f P bs (f (bs ! p)) = Ok (find (\<lambda>x. P (bs ! x)) xs)"
  using assms
proof (induction xs arbitrary: p n)
  case Nil
  then show ?case by (cases n) auto
next
  case (Cons x xs)
  then obtain k where "n = Suc k" by (cases n) auto
  then show ?case using Cons.IH [of x k] Cons.prems by auto
qed

lemma linked_len: "linked xs bs \<Longrightarrow> length xs \<le> NBUF"
proof -
  assume l: "linked xs bs"
  then have "card (set xs) \<le> card {..<NBUF}" by (intro card_mono) (auto simp: linked_def)
  then show ?thesis using l by (simp add: linked_def distinct_card)
qed

lemma scan_linked:
  assumes "linked xs bs"
  shows "scan NBUF b_next P bs (b_next (bs ! HEAD)) = Ok (find (\<lambda>x. P (bs ! x)) xs)"
    "scan NBUF b_prev P bs (b_prev (bs ! HEAD)) = Ok (find (\<lambda>x. P (bs ! x)) (rev xs))"
  using scan_seg [of b_next bs HEAD xs NBUF P] scan_seg [of b_prev bs HEAD "rev xs" NBUF P] assms linked_len [OF assms]
  by (simp_all only: linked_def set_rev length_rev simp_thms)

lemma linked_mod:
  assumes "\<And>x. b_next (f x) = b_next x" "\<And>x. b_prev (f x) = b_prev x"
  shows "linked xs (mod_buf b f bs) = linked xs bs"
proof -
  have *: "b_next (mod_buf b f bs ! x) = b_next (bs ! x) \<and> b_prev (mod_buf b f bs ! x) = b_prev (bs ! x)" for x
    by (cases "b < length bs") (auto simp: assms mod_buf_out)
  have "seg b_next (mod_buf b f bs) HEAD xs HEAD = seg b_next bs HEAD xs HEAD" by (rule seg_cong) (simp only: *)
  moreover have "seg b_prev (mod_buf b f bs) HEAD (rev xs) HEAD = seg b_prev bs HEAD (rev xs) HEAD" by (rule seg_cong) (simp only: *)
  ultimately show ?thesis by (simp add: linked_def)
qed

text \<open>A buffer whose links have been changed only.\<close>

definition relinked :: "buf \<Rightarrow> buf \<Rightarrow> bool" where
  "relinked x y \<longleftrightarrow> y\<lparr>b_prev := 0, b_next := 0\<rparr> = x\<lparr>b_prev := 0, b_next := 0\<rparr>"

lemma relinked_simps:
  assumes "relinked x y"
  shows "b_valid y = b_valid x" "b_dirty y = b_dirty x" "b_dev y = b_dev x" "b_blockno y = b_blockno x" "b_lock y = b_lock x"
    "b_refcnt y = b_refcnt x" "b_data y = b_data x"
  using assms unfolding relinked_def by (metis buf.ext_inject buf.surjective buf.update_convs(7,8))+

lemma relinked_refl: "relinked x x" "relinked x (x\<lparr>b_prev := p\<rparr>)" "relinked x (x\<lparr>b_next := n\<rparr>)" "relinked x (x\<lparr>b_next := n, b_prev := p\<rparr>)"
  by (simp_all add: relinked_def)

lemma relinked_trans: "relinked x y \<Longrightarrow> relinked y z \<Longrightarrow> relinked x z"
  by (simp add: relinked_def)

lemma link_front_ok:
  assumes l: "linked xs bs" and b: "b < NBUF" "b \<notin> set xs"
  shows "linked (b # xs) (link_front b bs)" "\<And>i. relinked (bs ! i) (link_front b bs ! i)"
proof -
  let ?h = "b_next (bs ! HEAD)" and ?n = "link_front b bs"
  have L: "length bs = Suc NBUF" and d: "distinct xs" "set xs \<subseteq> {..<NBUF}" and n: "seg b_next bs HEAD xs HEAD" and p: "seg b_prev bs HEAD (rev xs) HEAD"
    using l by (simp_all add: linked_def)
  have h: "?h = hd (xs @ [HEAD])" by (rule seg_first [OF n])
  then have hb: "?h < Suc NBUF" "?h \<noteq> b" using d(2) b by (cases xs; auto)+
  have N: "b_next (?n ! i) = (if i = HEAD then b else if i = b then ?h else b_next (bs ! i))"
    and P: "b_prev (?n ! i) = (if i = ?h then b else if i = b then HEAD else b_prev (bs ! i))" for i
    using L hb b by (auto simp: link_front_def Let_def)
  show "relinked (bs ! i) (?n ! i)" for i
    using L hb b by (auto simp: link_front_def Let_def intro: relinked_refl relinked_trans)
  have "seg b_next ?n b xs HEAD"
  proof (cases xs)
    case (Cons x ys)
    have "seg b_next ?n x ys HEAD = seg b_next bs x ys HEAD" by (rule seg_cong) (use Cons d b N in auto)
    then show ?thesis using Cons n N b by simp
  qed (use N n b in simp)
  moreover have "seg b_prev ?n HEAD (rev xs) b"
  proof (rule seg_last [OF p])
    have "last (HEAD # rev xs) = ?h" using h by (cases xs) auto
    then show "b_prev (?n ! last (HEAD # rev xs)) = b" "\<And>x. x \<in> insert HEAD (set (rev xs)) \<Longrightarrow> x \<noteq> last (HEAD # rev xs) \<Longrightarrow> b_prev (?n ! x) = b_prev (bs ! x)"
      using P b by auto
  qed (use d in auto)
  moreover have "length ?n = Suc NBUF" using L by (simp add: link_front_def Let_def)
  ultimately show "linked (b # xs) ?n" using N P b d hb by (simp add: linked_def seg_append)
qed

lemma unlink_ok:
  assumes l: "linked (ys @ b # zs) bs"
  shows "linked (ys @ zs) (unlink_buf b bs)" "\<And>i. relinked (bs ! i) (unlink_buf b bs ! i)"
proof -
  let ?n = "unlink_buf b bs" and ?nx = "b_next (bs ! b)" and ?pv = "b_prev (bs ! b)"
  have L: "length bs = Suc NBUF" and d: "distinct (ys @ b # zs)" "set (ys @ b # zs) \<subseteq> {..<NBUF}"
    and n: "seg b_next bs HEAD (ys @ b # zs) HEAD" and p: "seg b_prev bs HEAD (rev zs @ b # rev ys) HEAD"
    using l by (simp_all add: linked_def)
  have nx: "?nx = hd (zs @ [HEAD])" and pv: "?pv = last (HEAD # ys)"
    using seg_first [of b_next bs b zs HEAD] seg_first [of b_prev bs b "rev ys" HEAD] n p
    by (auto simp: seg_append hd_append hd_rev)
  have lz: "last (HEAD # rev zs) = ?nx" using nx by (cases zs) auto
  have m: "?nx < Suc NBUF" "?pv < Suc NBUF" "?nx \<noteq> b" "?pv \<noteq> b" using nx pv d by (cases zs; cases ys rule: rev_cases; auto)+
  have N: "b_next (?n ! i) = (if i = ?pv then ?nx else b_next (bs ! i))" and P: "b_prev (?n ! i) = (if i = ?nx then ?pv else b_prev (bs ! i))" for i
    using L m by (auto simp: unlink_buf_def Let_def)
  show "relinked (bs ! i) (?n ! i)" for i
    using L m by (auto simp: unlink_buf_def Let_def intro: relinked_refl relinked_trans)
  have "seg b_next ?n HEAD (ys @ zs) HEAD"
    by (rule seg_remove [OF n]) (use d N pv in auto)
  moreover have "seg b_prev ?n HEAD (rev zs @ rev ys) HEAD"
    by (rule seg_remove [OF p]) (use d P lz in auto)
  moreover have "length ?n = Suc NBUF" using L by (simp add: unlink_buf_def Let_def)
  ultimately show "linked (ys @ zs) ?n" using d by (simp add: linked_def)
qed

text \<open>Moving a buffer to the front.\<close>

lemma move_front_ok:
  assumes "linked xs bs" "b \<in> set xs"
  shows "linked (b # remove1 b xs) (link_front b (unlink_buf b bs))" "\<And>i. relinked (bs ! i) (link_front b (unlink_buf b bs) ! i)"
proof -
  obtain ys zs where xs: "xs = ys @ b # zs" "b \<notin> set ys" using split_list_first [OF assms(2)] by blast
  have b: "b < NBUF" "b \<notin> set (ys @ zs)" using assms xs by (auto simp: linked_def)
  note u = unlink_ok [of ys b zs bs] link_front_ok [OF unlink_ok(1) b]
  show "linked (b # remove1 b xs) (link_front b (unlink_buf b bs))" using u(3) assms(1) xs by (simp add: remove1_append)
  show "relinked (bs ! i) (link_front b (unlink_buf b bs) ! i)" for i
    using relinked_trans [OF u(2) u(4)] assms(1) xs(1) by blast
qed

section \<open>The invariant of the cache\<close>

text \<open>
  Every buffer is on the list, and no block has two buffers (at boot all buffers claim block 0 of
  device 0, which nothing uses). A locked buffer is referenced; a buffer that is neither locked nor
  dirty agrees with the disk, so that it can be given to another block.
\<close>

definition buf_ok :: "(nat \<Rightarrow> nat \<Rightarrow> bytes) \<Rightarrow> buf \<Rightarrow> bool" where
  "buf_ok d x \<longleftrightarrow> (sl_locked (b_lock x) \<longrightarrow> 0 < b_refcnt x) \<and> b_refcnt x < 2 ^ 32 \<and> (b_dirty x \<longrightarrow> b_valid x)
     \<and> (b_valid x \<and> \<not> b_dirty x \<and> \<not> sl_locked (b_lock x) \<longrightarrow> b_data x = d (b_dev x) (b_blockno x))"

definition lru :: "nat list \<Rightarrow> buf list \<Rightarrow> bool" where
  "lru xs bs \<longleftrightarrow> linked xs bs \<and> set xs = {..<NBUF}"

definition one_buf :: "buf list \<Rightarrow> bool" where
  "one_buf bs \<longleftrightarrow> (\<forall>i<NBUF. \<forall>j<NBUF. b_dev (bs ! i) \<noteq> 0 \<longrightarrow> b_dev (bs ! i) = b_dev (bs ! j) \<longrightarrow> b_blockno (bs ! i) = b_blockno (bs ! j) \<longrightarrow> i = j)"

definition cache_inv :: "'a biost_scheme \<Rightarrow> bool" where
  "cache_inv s \<longleftrightarrow> (\<exists>xs. lru xs (bufs s)) \<and> one_buf (bufs s) \<and> (\<forall>i<NBUF. buf_ok (hd_blk s) (bf s i))"

lemma cache_inv_len: "cache_inv s \<Longrightarrow> length (bufs s) = Suc NBUF"
  by (auto simp: cache_inv_def lru_def linked_def)

text \<open>The content of block \<open>b\<close> of the root device: the cached copy, or else the disk's.\<close>

definition holds :: "nat \<Rightarrow> buf \<Rightarrow> bool" where
  "holds b x \<longleftrightarrow> b_dev x = 1 \<and> b_blockno x = b"

definition cblk :: "buf list \<Rightarrow> (nat \<Rightarrow> nat \<Rightarrow> bytes) \<Rightarrow> nat \<Rightarrow> bytes" where
  "cblk bs d b = (case search (\<lambda>i. b_valid (bs ! i) \<and> holds b (bs ! i)) 0 NBUF of Some i \<Rightarrow> b_data (bs ! i) | None \<Rightarrow> d 1 b)"

lemma holds_unique: "one_buf bs \<Longrightarrow> i < NBUF \<Longrightarrow> j < NBUF \<Longrightarrow> holds b (bs ! i) \<Longrightarrow> holds b (bs ! j) \<Longrightarrow> i = j"
  by (simp add: one_buf_def holds_def)

lemma cblk_cached:
  assumes "one_buf bs" "i < NBUF" "holds b (bs ! i)"
  shows "cblk bs d b = (if b_valid (bs ! i) then b_data (bs ! i) else d 1 b)"
proof -
  let ?P = "\<lambda>i. b_valid (bs ! i) \<and> holds b (bs ! i)"
  have "search ?P 0 NBUF = (if b_valid (bs ! i) then Some i else None)"
  proof (cases "b_valid (bs ! i)")
    case True
    have "\<not> ?P j" if "j < i" for j using holds_unique [OF assms(1,2), of j b] assms(2,3) that by auto
    then show ?thesis using True assms(2,3) by (simp add: search_Some)
  next
    case False
    have "\<not> ?P j" if "j < NBUF" for j using holds_unique [OF assms(1,2) that assms(3)] False by blast
    then show ?thesis using False by (simp add: search_None)
  qed
  then show ?thesis by (simp add: cblk_def)
qed

lemma cblk_cong:
  assumes "\<And>i. i < NBUF \<Longrightarrow> b_valid (bs' ! i) \<and> holds b (bs' ! i) \<longleftrightarrow> b_valid (bs ! i) \<and> holds b (bs ! i)"
    "\<And>i. i < NBUF \<Longrightarrow> b_valid (bs ! i) \<and> holds b (bs ! i) \<Longrightarrow> b_data (bs' ! i) = b_data (bs ! i)" "d' 1 b = d 1 b"
  shows "cblk bs' d' b = cblk bs d b"
proof (cases "search (\<lambda>i. b_valid (bs ! i) \<and> holds b (bs ! i)) 0 NBUF")
  case None
  then have "search (\<lambda>i. b_valid (bs' ! i) \<and> holds b (bs' ! i)) 0 NBUF = None" using assms(1) by (simp add: search_None)
  then show ?thesis using None assms(3) by (simp add: cblk_def)
next
  case (Some k)
  then have k: "k < NBUF" "b_valid (bs ! k) \<and> holds b (bs ! k)" "\<forall>j<k. \<not> (b_valid (bs ! j) \<and> holds b (bs ! j))" by (auto simp: search_Some)
  then have "search (\<lambda>i. b_valid (bs' ! i) \<and> holds b (bs' ! i)) 0 NBUF = Some k" using assms(1) by (simp add: search_Some)
  then show ?thesis using Some k assms(2) by (simp add: cblk_def)
qed

lemma cblk_other:
  assumes "i < NBUF" "length bs = Suc NBUF" "\<not> (b_valid (bs ! i) \<and> holds b (bs ! i))" "\<not> (b_valid (f (bs ! i)) \<and> holds b (f (bs ! i)))" "d' 1 b = d 1 b"
  shows "cblk (mod_buf i f bs) d' b = cblk bs d b"
  by (rule cblk_cong) (use assms in auto)

text \<open>Changing one buffer.\<close>

lemma cache_inv_upd:
  assumes c: "cache_inv s" and i: "i < NBUF" and f: "\<And>x. b_next (f x) = b_next x" "\<And>x. b_prev (f x) = b_prev x"
    and ok: "buf_ok (hd_blk s) (f (bf s i))"
    and key: "\<And>j. j < NBUF \<Longrightarrow> j \<noteq> i \<Longrightarrow> b_dev (f (bf s i)) \<noteq> 0 \<Longrightarrow> \<not> (b_dev (bf s j) = b_dev (f (bf s i)) \<and> b_blockno (bf s j) = b_blockno (f (bf s i)))"
  shows "cache_inv (upd_buf i f s)"
proof -
  have l: "length (bufs s) = Suc NBUF" by (rule cache_inv_len [OF c])
  have "one_buf (mod_buf i f (bufs s))"
    unfolding one_buf_def
  proof (intro allI impI)
    fix j k assume jk: "j < NBUF" "k < NBUF" "b_dev (mod_buf i f (bufs s) ! j) \<noteq> 0" "b_dev (mod_buf i f (bufs s) ! j) = b_dev (mod_buf i f (bufs s) ! k)"
      "b_blockno (mod_buf i f (bufs s) ! j) = b_blockno (mod_buf i f (bufs s) ! k)"
    show "j = k"
    proof (cases "j = i \<or> k = i")
      case True
      then show ?thesis using jk key [of j] key [of k] i l by (auto split: if_splits)
    next
      case False
      then show ?thesis using c jk i l unfolding cache_inv_def one_buf_def by (auto split: if_splits)
    qed
  qed
  moreover have "\<exists>xs. lru xs (mod_buf i f (bufs s))" using c linked_mod [of f, OF f] by (auto simp: cache_inv_def lru_def)
  ultimately show ?thesis using c i l ok by (auto simp: cache_inv_def)
qed

lemma cache_inv_same_key:
  assumes "cache_inv s" "i < NBUF" "\<And>x. b_next (f x) = b_next x" "\<And>x. b_prev (f x) = b_prev x" "\<And>x. b_dev (f x) = b_dev x" "\<And>x. b_blockno (f x) = b_blockno x"
    "buf_ok (hd_blk s) (f (bf s i))"
  shows "cache_inv (upd_buf i f s)"
proof (rule cache_inv_upd [OF assms(1-4,7)])
  fix j assume "j < NBUF" "j \<noteq> i" "b_dev (f (bf s i)) \<noteq> 0"
  then show "\<not> (b_dev (bf s j) = b_dev (f (bf s i)) \<and> b_blockno (bf s j) = b_blockno (f (bf s i)))"
    using assms(1,2) unfolding assms(5,6) by (auto simp: cache_inv_def one_buf_def)
qed

section \<open>Finding a buffer\<close>

lemma find_SomeD: "find P xs = Some i \<Longrightarrow> i \<in> set xs \<and> P i"
  by (induction xs) (auto split: if_splits)

lemma held_same: "held s = [] \<Longrightarrow> s\<lparr>held := []\<rparr> = s"
  by simp

abbreviation lock_of :: "'a kst_scheme \<Rightarrow> nat \<Rightarrow> sleeplock" where
  "lock_of s p \<equiv> \<lparr>sl_locked = True, sl_pid = p_pid (procs (pt s) p)\<rparr>"

lemma bget_cached:
  assumes c: "cache_inv s" and h: "held s = []" "curproc s = Some p" and i: "i < NBUF" "holds b (bf s i)"
  shows "bget 1 b s = (if sl_locked (b_lock (bf s i)) then Err (Sleeps (ChanBuf i))
    else Ok (i, upd_buf i (\<lambda>x. x\<lparr>b_refcnt := u32 (b_refcnt x + 1), b_lock := lock_of s p\<rparr>) s))"
proof -
  obtain xs where x: "linked xs (bufs s)" "set xs = {..<NBUF}" and o: "one_buf (bufs s)" using c by (auto simp: cache_inv_def lru_def)
  have l: "length (bufs s) = Suc NBUF" by (rule cache_inv_len [OF c])
  have "find (\<lambda>j. holds b (bf s j)) xs = Some i"
  proof (rule find_unique)
    show "j = i" if "j \<in> set xs" "holds b (bf s j)" for j using holds_unique [OF o _ i(1) that(2) i(2)] that(1) x(2) by blast
  qed (use i x in auto)
  then have sc: "scan NBUF b_next (\<lambda>x. b_dev x = 1 \<and> b_blockno x = b) (bufs s) (b_next (bf s HEAD)) = Ok (Some i)"
    using scan_linked(1) [OF x(1), of "\<lambda>x. b_dev x = 1 \<and> b_blockno x = b"] by (simp add: holds_def)
  let ?s = "upd_buf i (\<lambda>x. x\<lparr>b_refcnt := u32 (b_refcnt x + 1)\<rparr>) s"
  have "bget 1 b s = rbind (acquiresleep (ChanBuf i) (b_lock (bf s i)) ?s) (\<lambda>(l, s). Ok (i, upd_buf i (\<lambda>x. x\<lparr>b_lock := l\<rparr>) s))"
    using h(1) i(1) l sc by (simp add: bget_def acquire_def release_def upd_buf_def Let_def held_same)
  moreover have "upd_buf i (\<lambda>x. x\<lparr>b_lock := k\<rparr>) ?s = upd_buf i (\<lambda>x. x\<lparr>b_refcnt := u32 (b_refcnt x + 1), b_lock := k\<rparr>) s" for k
    using i(1) l by (simp add: upd_buf_def mod_buf_def)
  ultimately show ?thesis using h i l by (simp add: acquiresleep_waits kernel_simps)
qed

text \<open>Otherwise the least recently used buffer that is free and clean is taken.\<close>

lemma bget_recycles:
  assumes c: "cache_inv s" and h: "held s = []" "curproc s = Some p" and n: "\<And>i. i < NBUF \<Longrightarrow> \<not> holds b (bf s i)"
    and x: "lru xs (bufs s)"
  shows "bget 1 b s = (case find (\<lambda>i. b_refcnt (bf s i) = 0 \<and> \<not> b_dirty (bf s i)) (rev xs) of None \<Rightarrow> Err (Panic ''bget: no buffers'')
    | Some i \<Rightarrow> Ok (i, upd_buf i (\<lambda>x. x\<lparr>b_dev := 1, b_blockno := b, b_valid := False, b_dirty := False, b_refcnt := 1, b_lock := lock_of s p\<rparr>) s))"
proof -
  have l: "length (bufs s) = Suc NBUF" by (rule cache_inv_len [OF c])
  have x': "linked xs (bufs s)" "set xs = {..<NBUF}" using x by (auto simp: lru_def)
  have "find (\<lambda>j. holds b (bf s j)) xs = None" using n x' by (auto simp: find_None_iff)
  then have sc: "scan NBUF b_next (\<lambda>x. b_dev x = 1 \<and> b_blockno x = b) (bufs s) (b_next (bf s HEAD)) = Ok None"
    using scan_linked(1) [OF x'(1), of "\<lambda>x. b_dev x = 1 \<and> b_blockno x = b"] by (simp add: holds_def)
  note sp = scan_linked(2) [OF x'(1), of "\<lambda>x. b_refcnt x = 0 \<and> \<not> b_dirty x"]
  show ?thesis
  proof (cases "find (\<lambda>i. b_refcnt (bf s i) = 0 \<and> \<not> b_dirty (bf s i)) (rev xs)")
    case None
    then show ?thesis using h(1) sc sp by (simp add: bget_def acquire_def Let_def)
  next
    case (Some i)
    then have "i \<in> set xs" "b_refcnt (bf s i) = 0" by (auto dest: find_SomeD)
    then have i: "i < NBUF" "\<not> sl_locked (b_lock (bf s i))" using c x'(2) by (auto simp: cache_inv_def buf_ok_def)
    let ?s = "upd_buf i (\<lambda>x. x\<lparr>b_dev := 1, b_blockno := b, b_valid := False, b_dirty := False, b_refcnt := 1\<rparr>) s"
    have "bget 1 b s = rbind (acquiresleep (ChanBuf i) (b_lock (bf s i)) ?s) (\<lambda>(l, s). Ok (i, upd_buf i (\<lambda>x. x\<lparr>b_lock := l\<rparr>) s))"
      using h(1) i(1) l sc sp Some by (simp add: bget_def acquire_def release_def upd_buf_def Let_def held_same)
    moreover have "upd_buf i (\<lambda>x. x\<lparr>b_lock := k\<rparr>) ?s
        = upd_buf i (\<lambda>x. x\<lparr>b_dev := 1, b_blockno := b, b_valid := False, b_dirty := False, b_refcnt := 1, b_lock := k\<rparr>) s" for k
      using i(1) l by (simp add: upd_buf_def mod_buf_def)
    ultimately show ?thesis using h i l Some by (simp add: kernel_simps)
  qed
qed

section \<open>The blocks the file system sees\<close>

text \<open>
  The cache \<open>s\<close> stands for the blocks of the root device in a state \<open>v\<close> of theory Buf. The process
  tables are not compared: a process that waits for a block waits for the buffer in the one and for
  the block in the other.
\<close>

definition cache_view :: "'a biost_scheme \<Rightarrow> 'b bufst_scheme \<Rightarrow> bool" where
  "cache_view s v \<longleftrightarrow> held v = held s \<and> distinct (bheld v)
     \<and> (\<forall>b. blk v 1 b = cblk (bufs s) (hd_blk s) b \<and> disk v 1 b = hd_blk s 1 b
          \<and> ((1, b) \<in> set (bheld v) \<longleftrightarrow> (\<exists>i<NBUF. sl_locked (b_lock (bf s i)) \<and> holds b (bf s i))))"

lemma cblk_none: "(\<And>i. i < NBUF \<Longrightarrow> \<not> holds b (bs ! i)) \<Longrightarrow> cblk bs d b = d 1 b"
proof -
  assume "\<And>i. i < NBUF \<Longrightarrow> \<not> holds b (bs ! i)"
  then have "search (\<lambda>i. b_valid (bs ! i) \<and> holds b (bs ! i)) 0 NBUF = None" by (simp add: search_None)
  then show ?thesis by (simp add: cblk_def)
qed

lemma locked_upd:
  assumes "i < NBUF" "length bs = Suc NBUF"
  shows "(\<exists>j<NBUF. sl_locked (b_lock (mod_buf i f bs ! j)) \<and> holds b (mod_buf i f bs ! j))
    \<longleftrightarrow> sl_locked (b_lock (f (bs ! i))) \<and> holds b (f (bs ! i)) \<or> (\<exists>j<NBUF. j \<noteq> i \<and> sl_locked (b_lock (bs ! j)) \<and> holds b (bs ! j))"
  using assms by auto

lemma cache_invD:
  assumes "cache_inv s"
  shows "one_buf (bufs s)" "i < NBUF \<Longrightarrow> buf_ok (hd_blk s) (bf s i)" "length (bufs s) = Suc NBUF"
  using assms cache_inv_len by (auto simp: cache_inv_def)

text \<open>\<open>bget\<close> locks the buffer of a block that is not locked, and changes no content.\<close>

definition got :: "nat \<Rightarrow> nat \<Rightarrow> 'a biost_scheme \<Rightarrow> bool" where
  "got b i s \<longleftrightarrow> i < NBUF \<and> holds b (bf s i) \<and> sl_locked (b_lock (bf s i))"

lemma bget_view_cached:
  assumes c: "cache_inv s" and v: "cache_view s v" and i: "i < NBUF" "holds b (bf s i)" and r: "b_refcnt (bf s i) < 2 ^ 32 - 1"
  shows "let s' = upd_buf i (\<lambda>x. x\<lparr>b_refcnt := u32 (b_refcnt x + 1), b_lock := lock_of s p\<rparr>) s in
    cache_inv s' \<and> cache_view s' (v\<lparr>bheld := (1, b) # bheld v\<rparr>) \<or> (1, b) \<in> set (bheld v)"
proof -
  let ?f = "\<lambda>x. x\<lparr>b_refcnt := u32 (b_refcnt x + 1), b_lock := lock_of s p\<rparr>"
  note D = cache_invD [OF c]
  have "cache_inv (upd_buf i ?f s)"
    by (rule cache_inv_same_key [OF c i(1)]) (use D(2) [OF i(1)] r in \<open>simp_all add: buf_ok_def\<close>)
  moreover have "cache_view (upd_buf i ?f s) (v\<lparr>bheld := (1, b) # bheld v\<rparr>)" if "(1, b) \<notin> set (bheld v)"
  proof -
    have cb: "cblk (mod_buf i ?f (bufs s)) (hd_blk s) b' = cblk (bufs s) (hd_blk s) b'" for b'
      by (rule cblk_cong) (use i(1) D(3) in \<open>auto simp: holds_def\<close>)
    have "(\<exists>j<NBUF. sl_locked (b_lock (mod_buf i ?f (bufs s) ! j)) \<and> holds b' (mod_buf i ?f (bufs s) ! j))
        \<longleftrightarrow> b' = b \<or> (1, b') \<in> set (bheld v)" for b'
      unfolding locked_upd [OF i(1) D(3)] using v that i by (auto simp: cache_view_def holds_def)
    then show ?thesis using v that cb by (simp add: cache_view_def)
  qed
  ultimately show ?thesis by (auto simp: Let_def)
qed

lemma bget_view_recycled:
  assumes c: "cache_inv s" and v: "cache_view s v" and i: "i < NBUF" "b_refcnt (bf s i) = 0" "\<not> b_dirty (bf s i)"
    and n: "\<And>j. j < NBUF \<Longrightarrow> \<not> holds b (bf s j)"
  shows "let s' = upd_buf i (\<lambda>x. x\<lparr>b_dev := 1, b_blockno := b, b_valid := False, b_dirty := False, b_refcnt := 1, b_lock := lock_of s p\<rparr>) s in
    cache_inv s' \<and> cache_view s' (v\<lparr>bheld := (1, b) # bheld v\<rparr>)"
proof -
  let ?f = "\<lambda>x. x\<lparr>b_dev := 1, b_blockno := b, b_valid := False, b_dirty := False, b_refcnt := 1, b_lock := lock_of s p\<rparr>"
  note D = cache_invD [OF c]
  have ul: "\<not> sl_locked (b_lock (bf s i))" using D(2) [OF i(1)] i(2) by (simp add: buf_ok_def)
  have inv: "cache_inv (upd_buf i ?f s)"
    by (rule cache_inv_upd [OF c i(1)]) (use n in \<open>auto simp: buf_ok_def holds_def\<close>)
  have cb: "cblk (mod_buf i ?f (bufs s)) (hd_blk s) b' = cblk (bufs s) (hd_blk s) b'" for b'
  proof (cases "holds b' (bf s i)")
    case True
    then have "cblk (bufs s) (hd_blk s) b' = hd_blk s 1 b'"
      using cblk_cached [OF D(1) i(1) True] D(2) [OF i(1)] ul i(3) by (auto simp: buf_ok_def holds_def)
    moreover have "\<not> holds b' (mod_buf i ?f (bufs s) ! j)" if "j < NBUF" for j
    proof (cases "j = i")
      case True
      then show ?thesis using n [OF i(1)] \<open>holds b' (bf s i)\<close> i(1) D(3) by (simp add: holds_def)
    next
      case False
      then show ?thesis using holds_unique [OF D(1) i(1) that \<open>holds b' (bf s i)\<close>] i(1) D(3) by auto
    qed
    ultimately show ?thesis by (simp add: cblk_none)
  next
    case False
    then show ?thesis using i(1) D(3) by (intro cblk_other) auto
  qed
  have "(\<exists>j<NBUF. sl_locked (b_lock (mod_buf i ?f (bufs s) ! j)) \<and> holds b' (mod_buf i ?f (bufs s) ! j))
      \<longleftrightarrow> b' = b \<or> (1, b') \<in> set (bheld v)" for b'
    unfolding locked_upd [OF i(1) D(3)] using v ul by (auto simp: cache_view_def holds_def)
  moreover have "(1, b) \<notin> set (bheld v)" using v n by (auto simp: cache_view_def)
  ultimately have "cache_view (upd_buf i ?f s) (v\<lparr>bheld := (1, b) # bheld v\<rparr>)" using v cb by (simp add: cache_view_def)
  then show ?thesis using inv by (simp add: Let_def)
qed

section \<open>Disk drivers\<close>

text \<open>
  "Sync buf with disk. If B_DIRTY is set, write buf to disk, clear B_DIRTY, set B_VALID. Else if
  B_VALID is not set, read buf from disk, set B_VALID."
\<close>

definition transferred :: "nat \<Rightarrow> 'a biost_scheme \<Rightarrow> 'a biost_scheme \<Rightarrow> bool" where
  "transferred b s s' \<longleftrightarrow> held s' = held s \<and> curproc s' = curproc s
     \<and> bufs s' = mod_buf b (\<lambda>x. x\<lparr>b_valid := True, b_dirty := False, b_data := (if b_dirty x then b_data x else hd_blk s 1 (b_blockno x))\<rparr>) (bufs s)
     \<and> hd_blk s' = (if b_dirty (bf s b) then set_block 1 (b_blockno (bf s b)) (b_data (bf s b)) (hd_blk s) else hd_blk s)"

lemma cache_inv_fields: "bufs s' = bufs s \<Longrightarrow> hd_blk s' = hd_blk s \<Longrightarrow> cache_inv s' = cache_inv s"
  by (simp add: cache_inv_def)

lemma transferred_read:
  assumes c: "cache_inv s" and v: "cache_view s v" and g: "got b i s" and d: "\<not> b_valid (bf s i)" "\<not> b_dirty (bf s i)" and t: "transferred i s s'"
  shows "cache_inv s' \<and> cache_view s' v \<and> got b i s' \<and> b_valid (bf s' i) \<and> b_data (bf s' i) = blk v 1 b"
proof -
  let ?f = "\<lambda>x. x\<lparr>b_valid := True, b_dirty := False, b_data := (if b_dirty x then b_data x else hd_blk s 1 (b_blockno x))\<rparr>"
  note D = cache_invD [OF c]
  have i: "i < NBUF" "holds b (bf s i)" "sl_locked (b_lock (bf s i))" using g by (auto simp: got_def)
  have s': "bufs s' = mod_buf i ?f (bufs s)" "hd_blk s' = hd_blk s" "held s' = held s" using t d by (simp_all add: transferred_def)
  have "cache_inv (upd_buf i ?f s)"
    by (rule cache_inv_same_key [OF c i(1)]) (use D(2) [OF i(1)] i(3) in \<open>simp_all add: buf_ok_def\<close>)
  then have c': "cache_inv s'" using cache_inv_fields [of s' "upd_buf i ?f s"] s' by simp
  have n: "bf s' i = ?f (bf s i)" using s'(1) i(1) D(3) by simp
  have cb: "cblk (bufs s') (hd_blk s') b' = cblk (bufs s) (hd_blk s) b'" for b'
  proof (cases "b' = b")
    case True
    have "holds b (bf s' i)" unfolding n using i(2) by (simp add: holds_def)
    then show ?thesis unfolding True using cblk_cached [OF cache_invD(1) [OF c'] i(1)] cblk_cached [OF D(1) i(1,2)] n d i(2) s'(2) by (simp add: holds_def)
  next
    case False
    then show ?thesis unfolding s' using i D(3) by (intro cblk_other) (auto simp: holds_def)
  qed
  have "(\<exists>j<NBUF. sl_locked (b_lock (bf s' j)) \<and> holds b' (bf s' j)) \<longleftrightarrow> (\<exists>j<NBUF. sl_locked (b_lock (bf s j)) \<and> holds b' (bf s j))" for b'
    unfolding s' locked_upd [OF i(1) D(3)] using i by (auto simp: holds_def)
  then have "cache_view s' v" using v cb s' by (simp add: cache_view_def)
  moreover have "b_data (bf s' i) = blk v 1 b" using n d i(2) v cblk_cached [OF D(1) i(1,2)] by (simp add: cache_view_def holds_def)
  ultimately show ?thesis using c' n i by (simp add: got_def holds_def)
qed

lemma transferred_write:
  assumes c: "cache_inv s" and v: "cache_view s v" and g: "got b i s" and d: "b_valid (bf s i)"
    and t: "transferred i (upd_buf i (\<lambda>x. x\<lparr>b_dirty := True\<rparr>) s) s'"
  shows "cache_inv s' \<and> cache_view s' (v\<lparr>disk := set_block 1 b (blk v 1 b) (disk v), wtrace := w\<rparr>) \<and> got b i s' \<and> b_valid (bf s' i)
    \<and> \<not> b_dirty (bf s' i) \<and> b_data (bf s' i) = blk v 1 b \<and> hd_blk s' 1 b = blk v 1 b"
proof -
  let ?f = "\<lambda>x. x\<lparr>b_valid := True, b_dirty := False\<rparr>" and ?d = "b_data (bf s i)"
  note D = cache_invD [OF c]
  have i: "i < NBUF" "holds b (bf s i)" "sl_locked (b_lock (bf s i))" using g by (auto simp: got_def)
  have bv: "blk v 1 b = ?d" using v cblk_cached [OF D(1) i(1,2)] d by (simp add: cache_view_def)
  have s': "bufs s' = mod_buf i ?f (bufs s)" "hd_blk s' = set_block 1 b ?d (hd_blk s)" "held s' = held s"
    using t i D(3) by (simp_all add: transferred_def mod_buf_def holds_def)
  have n: "bf s' i = ?f (bf s i)" and o: "\<And>j. j \<noteq> i \<Longrightarrow> bf s' j = bf s j" using s'(1) i(1) D(3) by simp_all
  have "cache_inv (upd_buf i ?f s)" by (rule cache_inv_same_key [OF c i(1)]) (use D(2) [OF i(1)] i(3) in \<open>simp_all add: buf_ok_def\<close>)
  moreover have "buf_ok (hd_blk s') (bf s' j)" if j: "j < NBUF" for j
  proof (cases "j = i")
    case True
    then show ?thesis using D(2) [OF i(1)] i(3) n by (simp add: buf_ok_def)
  next
    case False
    then have "\<not> holds b (bf s j)" using holds_unique [OF D(1) i(1) j i(2)] by blast
    then show ?thesis using D(2) [OF j] o [OF False] s'(2) by (auto simp: buf_ok_def set_block_apply holds_def)
  qed
  ultimately have c': "cache_inv s'" using s'(1) by (simp add: cache_inv_def)
  have cb: "cblk (bufs s') (hd_blk s') b' = cblk (bufs s) (hd_blk s) b'" for b'
  proof (cases "b' = b")
    case True
    have "holds b (bf s' i)" unfolding n using i(2) by (simp add: holds_def)
    then show ?thesis unfolding True using cblk_cached [OF cache_invD(1) [OF c'] i(1)] cblk_cached [OF D(1) i(1,2)] n d by simp
  next
    case False
    then show ?thesis unfolding s' using i D(3) by (intro cblk_other) (auto simp: holds_def set_block_apply)
  qed
  have "(\<exists>j<NBUF. sl_locked (b_lock (bf s' j)) \<and> holds b' (bf s' j)) \<longleftrightarrow> (\<exists>j<NBUF. sl_locked (b_lock (bf s j)) \<and> holds b' (bf s j))" for b'
    unfolding s' locked_upd [OF i(1) D(3)] using i by (auto simp: holds_def)
  then have "cache_view s' (v\<lparr>disk := set_block 1 b (blk v 1 b) (disk v), wtrace := w\<rparr>)"
    using v cb s'(2,3) bv by (simp add: cache_view_def set_block_apply)
  then show ?thesis using c' n i d bv s'(2) by (simp add: got_def holds_def set_block_apply)
qed

text \<open>The holder of a buffer may assign to its data.\<close>

lemma assign_refines:
  assumes c: "cache_inv s" and v: "cache_view s v" and g: "got b i s" and d: "b_valid (bf s i)"
  shows "cache_inv (upd_buf i (\<lambda>x. x\<lparr>b_data := y\<rparr>) s) \<and> cache_view (upd_buf i (\<lambda>x. x\<lparr>b_data := y\<rparr>) s) (bset 1 b y v)"
proof -
  let ?f = "\<lambda>x. x\<lparr>b_data := y\<rparr>"
  note D = cache_invD [OF c]
  have i: "i < NBUF" "holds b (bf s i)" "sl_locked (b_lock (bf s i))" using g by (auto simp: got_def)
  have c': "cache_inv (upd_buf i ?f s)" by (rule cache_inv_same_key [OF c i(1)]) (use D(2) [OF i(1)] i(3) in \<open>simp_all add: buf_ok_def\<close>)
  have cb: "cblk (mod_buf i ?f (bufs s)) (hd_blk s) b' = (if b' = b then y else cblk (bufs s) (hd_blk s) b')" for b'
  proof (cases "b' = b")
    case True
    have "holds b (mod_buf i ?f (bufs s) ! i)" using i(1,2) D(3) by (simp add: holds_def)
    then show ?thesis unfolding True using cblk_cached [OF cache_invD(1) [OF c', unfolded upd_buf_simps] i(1)] d i(1) D(3) by simp
  next
    case False
    then show ?thesis using i D(3) by (simp, intro cblk_other) (auto simp: holds_def)
  qed
  have "(\<exists>j<NBUF. sl_locked (b_lock (mod_buf i ?f (bufs s) ! j)) \<and> holds b' (mod_buf i ?f (bufs s) ! j))
      \<longleftrightarrow> (\<exists>j<NBUF. sl_locked (b_lock (bf s j)) \<and> holds b' (bf s j))" for b'
    unfolding locked_upd [OF i(1) D(3)] using i by (auto simp: holds_def)
  then have "cache_view (upd_buf i ?f s) (bset 1 b y v)" using v cb by (simp add: cache_view_def set_block_apply)
  then show ?thesis using c' by blast
qed

text \<open>
  A holder that releases a buffer has written it or marked it dirty, as \<open>log_write\<close> does, unless it
  has left it as it is on the disk.
\<close>

definition synced :: "nat \<Rightarrow> 'a biost_scheme \<Rightarrow> bool" where
  "synced i s \<longleftrightarrow> b_dirty (bf s i) \<or> b_data (bf s i) = hd_blk s (b_dev (bf s i)) (b_blockno (bf s i))"

lemma u32_dec: "0 < x \<Longrightarrow> x < 2 ^ 32 \<Longrightarrow> u32 (x + (2 ^ 32 - 1)) = x - 1"
  by (cases x) (simp_all add: u32_def)

lemma brelse_eq:
  assumes c: "cache_inv s" and g: "got b i s" and h: "held s = []"
  shows "\<exists>bs. bio_brelse i s = Ok (s\<lparr>bufs := bs, pt := wakeup1 (Some (ChanBuf i)) (pt s)\<rparr>) \<and> (\<exists>xs. lru xs bs)
    \<and> (\<forall>j. relinked (mod_buf i (\<lambda>x. x\<lparr>b_lock := unlocked_sl, b_refcnt := b_refcnt x - 1\<rparr>) (bufs s) ! j) (bs ! j))"
proof -
  let ?f = "\<lambda>x. x\<lparr>b_lock := unlocked_sl, b_refcnt := b_refcnt x - 1\<rparr>"
  note D = cache_invD [OF c]
  have i: "i < NBUF" "sl_locked (b_lock (bf s i))" using g by (auto simp: got_def)
  have r: "u32 (b_refcnt (bf s i) + (2 ^ 32 - 1)) = b_refcnt (bf s i) - 1" using D(2) [OF i(1)] i(2) by (intro u32_dec) (simp_all add: buf_ok_def)
  let ?bs = "mod_buf i ?f (bufs s)"
  let ?bs' = "if b_refcnt (?bs ! i) = 0 then link_front i (unlink_buf i ?bs) else ?bs"
  have m: "mod_buf i (\<lambda>x. x\<lparr>b_refcnt := u32 (b_refcnt x + (2 ^ 32 - 1))\<rparr>) (mod_buf i (\<lambda>x. x\<lparr>b_lock := unlocked_sl\<rparr>) (bufs s)) = ?bs"
    using i(1) D(3) r by (simp add: mod_buf_def)
  obtain xs where x: "linked xs (bufs s)" "set xs = {..<NBUF}" using c by (auto simp: cache_inv_def lru_def)
  have x': "linked xs ?bs" using x(1) linked_mod [of ?f] by simp
  have "set (i # remove1 i xs) = {..<NBUF}" using x i(1) by (auto simp: linked_def)
  then have "\<exists>xs. lru xs ?bs'" using move_front_ok(1) [OF x', of i] i(1) x x' unfolding lru_def by auto
  moreover have "relinked (?bs ! j) (?bs' ! j)" for j using move_front_ok(2) [OF x', of i j] i(1) x(2) relinked_refl(1) by auto
  moreover have "bio_brelse i s = Ok (s\<lparr>bufs := ?bs', pt := wakeup1 (Some (ChanBuf i)) (pt s)\<rparr>)"
    using h i m by (simp add: bio_brelse_def kernel_simps upd_buf_def Let_def acquire_def release_def held_same)
  ultimately show ?thesis by blast
qed

lemma relinked_same:
  assumes r: "\<And>j. relinked (bs ! j) (bs' ! j)" and l: "lru xs bs'"
  shows "one_buf bs' = one_buf bs" "buf_ok d (bs' ! j) = buf_ok d (bs ! j)" "holds b (bs' ! j) = holds b (bs ! j)" "b_lock (bs' ! j) = b_lock (bs ! j)"
    "cblk bs' d b = cblk bs d b"
proof -
  note R = relinked_simps [OF r]
  show "one_buf bs' = one_buf bs" by (simp add: one_buf_def R)
  show "buf_ok d (bs' ! j) = buf_ok d (bs ! j)" by (simp add: buf_ok_def R)
  show "holds b (bs' ! j) = holds b (bs ! j)" by (simp add: holds_def R)
  show "b_lock (bs' ! j) = b_lock (bs ! j)" by (rule R)
  show "cblk bs' d b = cblk bs d b" by (rule cblk_cong) (simp_all add: holds_def R)
qed

lemma brelse_refines:
  assumes c: "cache_inv s" and v: "cache_view s v" and g: "got b i s" and y: "synced i s" and h: "held s = []"
  shows "\<exists>s' v'. bio_brelse i s = Ok s' \<and> brelse 1 b v = Ok v' \<and> cache_inv s' \<and> cache_view s' v' \<and> held s' = [] \<and> curproc s' = curproc s
    \<and> blk v' = blk v \<and> disk v' = disk v"
proof -
  let ?f = "\<lambda>x. x\<lparr>b_lock := unlocked_sl, b_refcnt := b_refcnt x - 1\<rparr>"
  let ?v = "v\<lparr>pt := wakeup1 (Some (ChanBuf b)) (pt v), bheld := remove1 (1, b) (bheld v)\<rparr>"
  note D = cache_invD [OF c]
  have i: "i < NBUF" "holds b (bf s i)" "sl_locked (b_lock (bf s i))" using g by (auto simp: got_def)
  obtain bs xs where e: "bio_brelse i s = Ok (s\<lparr>bufs := bs, pt := wakeup1 (Some (ChanBuf i)) (pt s)\<rparr>)" "lru xs bs"
      "\<And>j. relinked (mod_buf i ?f (bufs s) ! j) (bs ! j)" using brelse_eq [OF c g h] by blast
  note R = relinked_same [OF e(3,2)]
  have c1: "cache_inv (upd_buf i ?f s)"
    by (rule cache_inv_same_key [OF c i(1)]) (use D(2) [OF i(1)] y in \<open>auto simp: buf_ok_def synced_def\<close>)
  then have "cache_inv (s\<lparr>bufs := bs, pt := wakeup1 (Some (ChanBuf i)) (pt s)\<rparr>)" using e(2) R(1,2) by (auto simp: cache_inv_def)
  moreover have "cache_view (s\<lparr>bufs := bs, pt := wakeup1 (Some (ChanBuf i)) (pt s)\<rparr>) ?v"
  proof -
    have cb: "cblk (mod_buf i ?f (bufs s)) (hd_blk s) b' = cblk (bufs s) (hd_blk s) b'" for b'
      by (rule cblk_cong) (use i(1) D(3) in \<open>auto simp: holds_def\<close>)
    have "(\<exists>j<NBUF. sl_locked (b_lock (mod_buf i ?f (bufs s) ! j)) \<and> holds b' (mod_buf i ?f (bufs s) ! j)) \<longleftrightarrow> b' \<noteq> b \<and> (1, b') \<in> set (bheld v)" for b'
    proof -
      have "(1, b') \<in> set (bheld v) \<longleftrightarrow> (\<exists>j<NBUF. sl_locked (b_lock (bf s j)) \<and> holds b' (bf s j))" using v by (simp add: cache_view_def)
      moreover have "j = i" if "j < NBUF" "holds b (bf s j)" for j using holds_unique [OF D(1) that(1) i(1) that(2) i(2)] .
      moreover have "b' = b" if "holds b' (bf s i)" using that i(2) by (simp add: holds_def)
      moreover have "\<not> sl_locked (b_lock (?f (bf s i)))" by simp
      ultimately show ?thesis unfolding locked_upd [OF i(1) D(3)] by blast
    qed
    then show ?thesis using v cb R(3,4,5) by (simp add: cache_view_def) blast
  qed
  moreover have "brelse 1 b v = Ok ?v" using v g h by (intro brelse_ok) (auto simp: cache_view_def got_def)
  ultimately show ?thesis using e(1) h by auto
qed

text \<open>
  Room in the cache: when the dirty buffers hold blocks of \<open>L\<close>, and besides them fewer than \<open>NBUF\<close>
  minus the size of \<open>L\<close> buffers are in use, one can be recycled.
\<close>

lemma dirty_card:
  assumes "one_buf bs" "finite L" "\<And>i. i < NBUF \<Longrightarrow> b_dirty (bs ! i) \<Longrightarrow> \<exists>b\<in>L. holds b (bs ! i)"
  shows "card {i. i < NBUF \<and> b_dirty (bs ! i)} \<le> card L"
proof (rule card_inj_on_le [OF _ _ assms(2)])
  show "inj_on (\<lambda>i. b_blockno (bs ! i)) {i. i < NBUF \<and> b_dirty (bs ! i)}"
    using assms(1,3) by (fastforce simp: inj_on_def one_buf_def holds_def)
  show "(\<lambda>i. b_blockno (bs ! i)) ` {i. i < NBUF \<and> b_dirty (bs ! i)} \<subseteq> L"
    using assms(3) by (force simp: holds_def)
qed

lemma free_buffer:
  assumes "one_buf bs" "finite L" "\<And>i. i < NBUF \<Longrightarrow> b_dirty (bs ! i) \<Longrightarrow> \<exists>b\<in>L. holds b (bs ! i)"
    and c: "card {i. i < NBUF \<and> b_refcnt (bs ! i) \<noteq> 0 \<and> \<not> b_dirty (bs ! i)} + card L < NBUF"
  shows "\<exists>i<NBUF. b_refcnt (bs ! i) = 0 \<and> \<not> b_dirty (bs ! i)"
proof (rule ccontr)
  assume "\<not> ?thesis"
  then have "{..<NBUF} = {i. i < NBUF \<and> b_refcnt (bs ! i) \<noteq> 0 \<and> \<not> b_dirty (bs ! i)} \<union> {i. i < NBUF \<and> b_dirty (bs ! i)}" by auto
  then have "NBUF \<le> card {i. i < NBUF \<and> b_refcnt (bs ! i) \<noteq> 0 \<and> \<not> b_dirty (bs ! i)} + card {i. i < NBUF \<and> b_dirty (bs ! i)}"
    using card_Un_le [of "{i. i < NBUF \<and> b_refcnt (bs ! i) \<noteq> 0 \<and> \<not> b_dirty (bs ! i)}" "{i. i < NBUF \<and> b_dirty (bs ! i)}"]
      card_lessThan [of NBUF] by presburger
  then show False using dirty_card [OF assms(1-3)] c by linarith
qed

locale disk_driver =
  fixes iderw :: "nat \<Rightarrow> 'a biost_scheme \<Rightarrow> 'a biost_scheme result"
    and ready :: "'a biost_scheme \<Rightarrow> bool"
    and capacity :: "'a biost_scheme \<Rightarrow> nat"
  assumes transfer: "ready s \<Longrightarrow> held s = [] \<Longrightarrow> length (bufs s) = Suc NBUF \<Longrightarrow> got b i s \<Longrightarrow> \<not> b_valid (bf s i) \<or> b_dirty (bf s i)
      \<Longrightarrow> b < capacity s \<Longrightarrow> \<exists>s'. iderw i s = Ok s' \<and> transferred i s s' \<and> ready s' \<and> capacity s' = capacity s"
    and ready_upd: "ready (upd_buf i f s) = ready s" "capacity (upd_buf i f s) = capacity s"
begin

lemma bread_refines:
  assumes c: "cache_inv s" and v: "cache_view s v" and k: "ready s" "held s = []" "curproc s = Some p" "b < capacity s"
    and r: "\<And>i. i < NBUF \<Longrightarrow> b_refcnt (bf s i) < 2 ^ 32 - 1"
    and free: "\<exists>i<NBUF. holds b (bf s i) \<or> b_refcnt (bf s i) = 0 \<and> \<not> b_dirty (bf s i)"
    and unl: "(1, b) \<notin> set (bheld v)"
  shows "\<exists>i s'. bio_bread iderw 1 b s = Ok (i, s') \<and> got b i s' \<and> b_valid (bf s' i) \<and> b_data (bf s' i) = blk v 1 b
    \<and> cache_inv s' \<and> cache_view s' (v\<lparr>bheld := (1, b) # bheld v\<rparr>) \<and> ready s' \<and> held s' = [] \<and> curproc s' = Some p \<and> capacity s' = capacity s"
proof -
  let ?v = "v\<lparr>bheld := (1, b) # bheld v\<rparr>"
  obtain i s1 where g: "bget 1 b s = Ok (i, s1)" "got b i s1" "cache_inv s1" "cache_view s1 ?v" "ready s1" "held s1 = []" "curproc s1 = Some p"
      "capacity s1 = capacity s" "b_dirty (bf s1 i) \<longrightarrow> b_valid (bf s1 i)"
  proof (cases "\<exists>i<NBUF. holds b (bf s i)")
    case True
    then obtain i where i: "i < NBUF" "holds b (bf s i)" by blast
    then have "\<not> sl_locked (b_lock (bf s i))" using unl v by (auto simp: cache_view_def)
    then show ?thesis
      using that bget_cached [OF c k(2,3) i] bget_view_cached [OF c v i r [OF i(1)], of p] unl i k cache_invD [OF c]
      by (auto simp: Let_def got_def ready_upd holds_def buf_ok_def)
  next
    case False
    obtain xs where x: "lru xs (bufs s)" using c by (auto simp: cache_inv_def)
    then obtain i where fi: "find (\<lambda>i. b_refcnt (bf s i) = 0 \<and> \<not> b_dirty (bf s i)) (rev xs) = Some i"
      using free False by (cases "find (\<lambda>i. b_refcnt (bf s i) = 0 \<and> \<not> b_dirty (bf s i)) (rev xs)") (auto simp: find_None_iff lru_def)
    then have "i \<in> set (rev xs)" "b_refcnt (bf s i) = 0" "\<not> b_dirty (bf s i)" by (auto dest: find_SomeD)
    then have i: "i < NBUF" "b_refcnt (bf s i) = 0" "\<not> b_dirty (bf s i)" using x by (auto simp: lru_def)
    have n: "\<And>j. j < NBUF \<Longrightarrow> \<not> holds b (bf s j)" using False by blast
    show ?thesis
      using that bget_recycles [OF c k(2,3) n x] fi bget_view_recycled [OF c v i n, of p] i k cache_invD(3) [OF c]
      by (auto simp: Let_def got_def ready_upd holds_def)
  qed
  show ?thesis
  proof (cases "b_valid (bf s1 i)")
    case True
    then have "b_data (bf s1 i) = blk v 1 b" using g(2,4) cblk_cached [OF cache_invD(1) [OF g(3)]] by (auto simp: got_def cache_view_def)
    then show ?thesis using g True by (simp add: bio_bread_def)
  next
    case False
    then obtain s2 where t: "iderw i s1 = Ok s2" "transferred i s1 s2" "ready s2" "capacity s2 = capacity s1"
      using transfer [of s1 b i] g k(4) cache_invD(3) [OF g(3)] by auto
    have d: "\<not> b_dirty (bf s1 i)" using g(9) False by blast
    note R = transferred_read [OF g(3,4,2) False d t(2)]
    have "bio_bread iderw 1 b s = Ok (i, s2)" using g(1) False t(1) by (simp add: bio_bread_def)
    then show ?thesis using R g t(2,3,4) by (auto simp: transferred_def)
  qed
qed

text \<open>A block that somebody has locked makes its reader wait.\<close>

lemma bread_waits:
  assumes c: "cache_inv s" and v: "cache_view s v" and k: "held s = []" "curproc s = Some p" and l: "(1, b) \<in> set (bheld v)"
  shows "(\<exists>i. bio_bread iderw 1 b s = Err (Sleeps (ChanBuf i)) \<and> got b i s) \<and> bread 1 b v = Err (Sleeps (ChanBuf b))"
proof -
  obtain i where i: "i < NBUF" "sl_locked (b_lock (bf s i))" "holds b (bf s i)" using v l by (auto simp: cache_view_def)
  then have "bget 1 b s = Err (Sleeps (ChanBuf i))" using bget_cached [OF c k i(1,3)] by simp
  then show ?thesis using i l by (auto simp: bio_bread_def bread_def got_def)
qed

lemma bwrite_refines:
  assumes c: "cache_inv s" and v: "cache_view s v" and k: "ready s" "held s = []" "b < capacity s" and g: "got b i s" "b_valid (bf s i)"
  shows "\<exists>s' v'. bio_bwrite iderw i s = Ok s' \<and> bwrite 1 b v = Ok v' \<and> cache_inv s' \<and> cache_view s' v' \<and> got b i s' \<and> b_valid (bf s' i) \<and> synced i s'
    \<and> b_data (bf s' i) = blk v' 1 b \<and> ready s' \<and> held s' = [] \<and> curproc s' = curproc s \<and> capacity s' = capacity s"
proof -
  let ?s = "upd_buf i (\<lambda>x. x\<lparr>b_dirty := True\<rparr>) s"
  note D = cache_invD [OF c]
  have "got b i ?s" "b_dirty (bf ?s i)" using g D(3) by (auto simp: got_def holds_def)
  then obtain s' where t: "iderw i ?s = Ok s'" "transferred i ?s s'" "ready s'" "capacity s' = capacity s"
    using transfer [of ?s b i] k D(3) by (auto simp: ready_upd)
  note W = transferred_write [OF c v g t(2), of "wtrace v @ [(1, b, blk v 1 b)]"]
  have "(1, b) \<in> set (bheld v)" using v g by (auto simp: cache_view_def got_def)
  then have "bwrite 1 b v = Ok (v\<lparr>disk := set_block 1 b (blk v 1 b) (disk v), wtrace := wtrace v @ [(1, b, blk v 1 b)]\<rparr>)" by (rule bwrite_ok)
  moreover have "bio_bwrite iderw i s = Ok s'" using t(1) g k(2) by (simp add: bio_bwrite_def kernel_simps got_def)
  moreover have "synced i s'" using W by (auto simp: synced_def got_def holds_def)
  moreover have "held s' = []" "curproc s' = curproc s" using t(2) k(2) by (simp_all add: transferred_def)
  ultimately show ?thesis using W t(3,4) by auto
qed

text \<open>The three operations and the assignment together.\<close>

lemma cache_refines:
  assumes c: "cache_inv s" and v: "cache_view s v" and k: "ready s" "held s = []" "curproc s = Some p" "b < capacity s" "b < FSSIZE"
    and r: "\<forall>i<NBUF. b_refcnt (bf s i) < 2 ^ 32 - 1"
  shows "(if (1, b) \<in> set (bheld v) then (\<exists>i. bio_bread iderw 1 b s = Err (Sleeps (ChanBuf i)) \<and> got b i s) \<and> bread 1 b v = Err (Sleeps (ChanBuf b))
      else if \<exists>i<NBUF. holds b (bf s i) \<or> b_refcnt (bf s i) = 0 \<and> \<not> b_dirty (bf s i)
      then \<exists>i s' v'. bio_bread iderw 1 b s = Ok (i, s') \<and> bread 1 b v = Ok v' \<and> got b i s' \<and> b_valid (bf s' i) \<and> b_data (bf s' i) = blk v' 1 b
        \<and> cache_inv s' \<and> cache_view s' v' \<and> ready s'
      else bio_bread iderw 1 b s = Err (Panic ''bget: no buffers''))
    \<and> (\<forall>i. got b i s \<and> b_valid (bf s i) \<longrightarrow>
        cache_inv (upd_buf i (\<lambda>x. x\<lparr>b_data := y\<rparr>) s) \<and> cache_view (upd_buf i (\<lambda>x. x\<lparr>b_data := y\<rparr>) s) (bset 1 b y v)
      \<and> (\<exists>s' v'. bio_bwrite iderw i s = Ok s' \<and> bwrite 1 b v = Ok v' \<and> cache_inv s' \<and> cache_view s' v' \<and> got b i s' \<and> b_valid (bf s' i) \<and> synced i s' \<and> ready s')
      \<and> (synced i s \<longrightarrow> (\<exists>s' v'. bio_brelse i s = Ok s' \<and> brelse 1 b v = Ok v' \<and> cache_inv s' \<and> cache_view s' v')))"
proof -
  have full: "bio_bread iderw 1 b s = Err (Panic ''bget: no buffers'')" if "\<not> (\<exists>i<NBUF. holds b (bf s i) \<or> b_refcnt (bf s i) = 0 \<and> \<not> b_dirty (bf s i))"
  proof -
    obtain xs where x: "lru xs (bufs s)" using c by (auto simp: cache_inv_def)
    have "find (\<lambda>i. b_refcnt (bf s i) = 0 \<and> \<not> b_dirty (bf s i)) (rev xs) = None" using that x by (auto simp: find_None_iff lru_def)
    then show ?thesis using bget_recycles [OF c k(2,3) _ x] that by (simp add: bio_bread_def)
  qed
  have rd: "\<exists>i s' v'. bio_bread iderw 1 b s = Ok (i, s') \<and> bread 1 b v = Ok v' \<and> got b i s' \<and> b_valid (bf s' i) \<and> b_data (bf s' i) = blk v' 1 b
      \<and> cache_inv s' \<and> cache_view s' v' \<and> ready s'"
    if u: "(1, b) \<notin> set (bheld v)" and fr: "\<exists>i<NBUF. holds b (bf s i) \<or> b_refcnt (bf s i) = 0 \<and> \<not> b_dirty (bf s i)"
  proof -
    have "bread 1 b v = Ok (v\<lparr>bheld := (1, b) # bheld v\<rparr>)" by (rule bread_ok [OF u k(5)])
    moreover obtain i s' where "bio_bread iderw 1 b s = Ok (i, s')" "got b i s'" "b_valid (bf s' i)" "b_data (bf s' i) = blk v 1 b" "cache_inv s'"
        "cache_view s' (v\<lparr>bheld := (1, b) # bheld v\<rparr>)" "ready s'"
      using bread_refines [OF c v k(1-4) _ fr u] r by blast
    ultimately show ?thesis by (intro exI [of _ i] exI [of _ s'] exI [of _ "v\<lparr>bheld := (1, b) # bheld v\<rparr>"]) simp
  qed
  have wr: "\<exists>s' v'. bio_bwrite iderw i s = Ok s' \<and> bwrite 1 b v = Ok v' \<and> cache_inv s' \<and> cache_view s' v' \<and> got b i s' \<and> b_valid (bf s' i) \<and> synced i s' \<and> ready s'"
    if "got b i s" "b_valid (bf s i)" for i using bwrite_refines [OF c v k(1,2,4) that] by blast
  have rl: "\<exists>s' v'. bio_brelse i s = Ok s' \<and> brelse 1 b v = Ok v' \<and> cache_inv s' \<and> cache_view s' v'"
    if "got b i s" "synced i s" for i using brelse_refines [OF c v that k(2)] by blast
  have wt: "(\<exists>i. bio_bread iderw 1 b s = Err (Sleeps (ChanBuf i)) \<and> got b i s) \<and> bread 1 b v = Err (Sleeps (ChanBuf b))" if "(1, b) \<in> set (bheld v)"
    by (rule bread_waits [OF c v k(2,3) that])
  show ?thesis
    by (rule conjI, use full rd wt in argo, intro allI impI, elim conjE, intro conjI impI) (use wr rl assign_refines [OF c v] in blast)+
qed

lemma bread_with_room:
  assumes c: "cache_inv s" and v: "cache_view s v" and k: "ready s" "held s = []" "curproc s = Some p" "b < capacity s"
    and r: "\<And>i. i < NBUF \<Longrightarrow> b_refcnt (bf s i) < 2 ^ 32 - 1" and unl: "(1, b) \<notin> set (bheld v)"
    and L: "finite L" "\<And>i. i < NBUF \<Longrightarrow> b_dirty (bf s i) \<Longrightarrow> \<exists>b\<in>L. holds b (bf s i)"
    and n: "card {i. i < NBUF \<and> b_refcnt (bf s i) \<noteq> 0 \<and> \<not> b_dirty (bf s i)} + card L < NBUF"
  shows "\<exists>i s'. bio_bread iderw 1 b s = Ok (i, s') \<and> got b i s' \<and> b_data (bf s' i) = blk v 1 b"
proof -
  have "\<exists>i<NBUF. b_refcnt (bf s i) = 0 \<and> \<not> b_dirty (bf s i)"
    using free_buffer [OF _ L n] c by (simp add: cache_inv_def)
  then have "\<exists>i<NBUF. holds b (bf s i) \<or> b_refcnt (bf s i) = 0 \<and> \<not> b_dirty (bf s i)" by blast
  from bread_refines [OF c v k r this unl] show ?thesis by blast
qed

end

text \<open>The disk in memory of memide.c is such a driver.\<close>

interpretation memide: disk_driver memide_iderw "\<lambda>_. True" disksize
proof
  fix s :: "'a biost_scheme" and b i
  assume a: "held s = []" "length (bufs s) = Suc NBUF" "got b i s" "\<not> b_valid (bf s i) \<or> b_dirty (bf s i)" "b < disksize s"
  have q: "x\<lparr>b_dirty := False, b_valid := True\<rparr> = x\<lparr>b_valid := True, b_dirty := False, b_data := b_data x\<rparr>"
    "\<not> b_dirty x \<Longrightarrow> x\<lparr>b_data := d, b_valid := True\<rparr> = x\<lparr>b_valid := True, b_dirty := False, b_data := d\<rparr>" for x :: buf and d
    by (rule buf.equality; simp)+
  let ?s = "if b_dirty (bf s i) then (upd_buf i (\<lambda>x. x\<lparr>b_dirty := False, b_valid := True\<rparr>) s)\<lparr>hd_blk := set_block 1 b (b_data (bf s i)) (hd_blk s)\<rparr>
    else upd_buf i (\<lambda>x. x\<lparr>b_data := hd_blk s 1 b, b_valid := True\<rparr>) s"
  have "upd_buf i f (t\<lparr>hd_blk := h\<rparr>) = (upd_buf i f t)\<lparr>hd_blk := h\<rparr>" for f h and t :: "'a biost_scheme" by (rule biost.equality) (simp_all add: upd_buf_def)
  then have "memide_iderw i s = Ok ?s" using a by (auto simp: memide_iderw_def kernel_simps got_def holds_def upd_buf_def mod_buf_def Let_def)
  moreover have "transferred i s ?s" using a(2-4) by (auto simp: transferred_def got_def holds_def mod_buf_def q)
  moreover have "disksize ?s = disksize s" by simp
  ultimately show "\<exists>s'. memide_iderw i s = Ok s' \<and> transferred i s s' \<and> True \<and> disksize s' = disksize s" by blast
qed simp_all

section \<open>The cache at boot\<close>

definition zero_buf :: buf where
  "zero_buf = \<lparr>b_valid = False, b_dirty = False, b_dev = 0, b_blockno = 0, b_lock = unlocked_sl, b_refcnt = 0, b_prev = 0, b_next = 0, b_data = replicate BSIZE 0\<rparr>"

lemma binit_list:
  assumes "length bs = Suc NBUF" "b_next (bs ! HEAD) = HEAD" "b_prev (bs ! HEAD) = HEAD" "\<And>i. i < NBUF \<Longrightarrow> relinked zero_buf (bs ! i)" "n \<le> NBUF"
  shows "linked (rev [0..<n]) (fold (\<lambda>b bs. mod_buf b (\<lambda>x. x\<lparr>b_lock := initsleeplock\<rparr>) (link_front b bs)) [0..<n] bs)
    \<and> (\<forall>i<NBUF. relinked zero_buf (fold (\<lambda>b bs. mod_buf b (\<lambda>x. x\<lparr>b_lock := initsleeplock\<rparr>) (link_front b bs)) [0..<n] bs ! i))"
  using assms(5)
proof (induction n)
  case 0
  then show ?case using assms by (simp add: linked_def)
next
  case (Suc n)
  let ?g = "\<lambda>b bs. mod_buf b (\<lambda>x. x\<lparr>b_lock := initsleeplock\<rparr>) (link_front b bs)"
  let ?bs = "fold ?g [0..<n] bs"
  have l: "linked (rev [0..<n]) ?bs" and z: "\<And>i. i < NBUF \<Longrightarrow> relinked zero_buf (?bs ! i)" using Suc by auto
  note F = link_front_ok [OF l, of n]
  have l': "linked (n # rev [0..<n]) (link_front n ?bs)" using F(1) Suc.prems by simp
  have len: "length (link_front n ?bs) = Suc NBUF" using l' by (simp add: linked_def)
  have z': "relinked zero_buf (link_front n ?bs ! i)" if "i < NBUF" for i using relinked_trans [OF z [OF that] F(2)] Suc.prems by simp
  have "relinked zero_buf (?g n ?bs ! i)" if "i < NBUF" for i
  proof (cases "i = n")
    case True
    have "b_lock (link_front n ?bs ! n) = initsleeplock" using relinked_simps(5) [OF z' [of n]] Suc.prems by (simp add: zero_buf_def initsleeplock_def)
    then have "?g n ?bs ! n = link_front n ?bs ! n" using len Suc.prems by simp
    then show ?thesis using z' [OF that] True by simp
  next
    case False
    then show ?thesis using z' [OF that] len Suc.prems by simp
  qed
  moreover have "linked (n # rev [0..<n]) (?g n ?bs)" using l' linked_mod [of "\<lambda>x. x\<lparr>b_lock := initsleeplock\<rparr>"] by simp
  ultimately show ?case by (simp add: Suc.prems)
qed

lemma binit_inv:
  assumes "bufs s = replicate (Suc NBUF) zero_buf"
  shows "cache_inv (binit s)" "\<And>i. i < NBUF \<Longrightarrow> relinked zero_buf (bf (binit s) i)"
proof -
  let ?bs = "mod_buf HEAD (\<lambda>x. x\<lparr>b_prev := HEAD, b_next := HEAD\<rparr>) (replicate (Suc NBUF) zero_buf)"
  have z: "relinked zero_buf (?bs ! i)" if "i < NBUF" for i
    using that relinked_refl(1) [of zero_buf] by (simp del: replicate.simps replicate_Suc add: nth_replicate)
  have B: "linked (rev [0..<NBUF]) (bufs (binit s))" "\<And>i. i < NBUF \<Longrightarrow> relinked zero_buf (bf (binit s) i)"
    using binit_list [OF _ _ _ z, of NBUF] assms unfolding binit_def by (auto simp del: replicate.simps replicate_Suc upt_rec_numeral)
  note R = relinked_simps [OF B(2)]
  have "set (rev [0..<NBUF]) = {..<NBUF}" by auto
  then have "lru (rev [0..<NBUF]) (bufs (binit s))" using B(1) unfolding lru_def by blast
  moreover have "one_buf (bufs (binit s))" unfolding one_buf_def by (simp add: R zero_buf_def)
  moreover have "buf_ok d (bf (binit s) i)" if "i < NBUF" for i d using R [OF that] by (simp add: buf_ok_def zero_buf_def)
  ultimately show "cache_inv (binit s)" unfolding cache_inv_def by blast
  show "\<And>i. i < NBUF \<Longrightarrow> relinked zero_buf (bf (binit s) i)" by (rule B(2))
qed

lemma and_True: "(P \<and> True) = P"
  by simp

section \<open>Properties\<close>

text \<open>
  The buffer cache over the disk in memory implements the blocks the file system works on. On a
  block of the root device \<open>bread\<close> waits exactly when the block is locked; otherwise it returns the
  buffer of the block, locked, with the content the block has, whether it was cached, read from the
  disk or put into a recycled buffer, and it panics only when every buffer is referenced or dirty.
  Assigning to the data of a held buffer, \<open>bwrite\<close> and, of a buffer that is dirty or as on the disk,
  \<open>brelse\<close> do to the cache what they do to the blocks. No block ever has two buffers, and the linked
  list holds every buffer once.\<close>

theorem memide_cache_refines_blocks:
  assumes "cache_inv s" "cache_view s v" "held s = []" "curproc s = Some p" "b < disksize s" "b < FSSIZE" "\<forall>i<NBUF. b_refcnt (bf s i) < 2 ^ 32 - 1"
  shows "(if (1, b) \<in> set (bheld v) then (\<exists>i. bio_bread memide_iderw 1 b s = Err (Sleeps (ChanBuf i)) \<and> got b i s) \<and> bread 1 b v = Err (Sleeps (ChanBuf b))
      else if \<exists>i<NBUF. holds b (bf s i) \<or> b_refcnt (bf s i) = 0 \<and> \<not> b_dirty (bf s i)
      then \<exists>i s' v'. bio_bread memide_iderw 1 b s = Ok (i, s') \<and> bread 1 b v = Ok v' \<and> got b i s' \<and> b_valid (bf s' i) \<and> b_data (bf s' i) = blk v' 1 b
        \<and> cache_inv s' \<and> cache_view s' v'
      else bio_bread memide_iderw 1 b s = Err (Panic ''bget: no buffers''))
    \<and> (\<forall>i. got b i s \<and> b_valid (bf s i) \<longrightarrow>
        cache_inv (upd_buf i (\<lambda>x. x\<lparr>b_data := y\<rparr>) s) \<and> cache_view (upd_buf i (\<lambda>x. x\<lparr>b_data := y\<rparr>) s) (bset 1 b y v)
      \<and> (\<exists>s' v'. bio_bwrite memide_iderw i s = Ok s' \<and> bwrite 1 b v = Ok v' \<and> cache_inv s' \<and> cache_view s' v' \<and> got b i s' \<and> b_valid (bf s' i) \<and> synced i s')
      \<and> (synced i s \<longrightarrow> (\<exists>s' v'. bio_brelse i s = Ok s' \<and> brelse 1 b v = Ok v' \<and> cache_inv s' \<and> cache_view s' v')))"
  by (rule memide.cache_refines [OF assms(1,2) TrueI assms(3-7), unfolded and_True])

definition bio_demo :: biost where
  "bio_demo = binit \<lparr>held = [], curproc = Some 0, pt = zero_ptable, bufs = replicate (Suc NBUF) zero_buf,
     hd_blk = (\<lambda>dev b. replicate BSIZE (of_nat b)), disksize = 100, idequeue = [], havedisk1 = True, ide_at = (0, 0)\<rparr>"

definition buf_demo :: bufst where
  "buf_demo = \<lparr>held = [], curproc = Some 0, pt = zero_ptable, kmem_use_lock = True, kmem_freelist = 0, pages = (\<lambda>_. []), kern_end = 0,
     disk = (\<lambda>dev b. replicate BSIZE (of_nat b)), blk = (\<lambda>dev b. replicate BSIZE (of_nat b)), bheld = [], wtrace = []\<rparr>"

lemma bio_demo_ok: "cache_inv bio_demo" "cache_view bio_demo buf_demo" "\<And>i. i < NBUF \<Longrightarrow> b_refcnt (bf bio_demo i) = 0 \<and> \<not> b_dirty (bf bio_demo i)"
    "held bio_demo = []" "curproc bio_demo = Some 0" "disksize bio_demo = 100"
proof -
  have B: "cache_inv bio_demo" "\<And>i. i < NBUF \<Longrightarrow> relinked zero_buf (bf bio_demo i)"
    unfolding bio_demo_def by (rule binit_inv, simp)+
  show "cache_inv bio_demo" by (rule B(1))
  note R = relinked_simps [OF B(2)]
  have n: "\<not> holds b (bf bio_demo i)" if "i < NBUF" for i b using R(3) [OF that] by (simp add: holds_def zero_buf_def)
  have "cblk (bufs bio_demo) (hd_blk bio_demo) b = hd_blk bio_demo 1 b" for b by (rule cblk_none [OF n])
  then show "cache_view bio_demo buf_demo" using n by (simp add: cache_view_def) (auto simp: bio_demo_def buf_demo_def binit_def)
  show "b_refcnt (bf bio_demo i) = 0 \<and> \<not> b_dirty (bf bio_demo i)" if "i < NBUF" for i using R [OF that] by (simp add: zero_buf_def)
qed (simp_all add: bio_demo_def binit_def)

theorem memide_cache_refines_blocks_witness:
  "\<exists>i s'. bio_bread memide_iderw 1 5 bio_demo = Ok (i, s') \<and> b_data (bf s' i) = replicate BSIZE 5 \<and> cache_inv s'"
proof -
  have r: "\<forall>i<NBUF. b_refcnt (bf bio_demo i) < 2 ^ 32 - 1" and f: "\<exists>i<NBUF. holds 5 (bf bio_demo i) \<or> b_refcnt (bf bio_demo i) = 0 \<and> \<not> b_dirty (bf bio_demo i)"
    using bio_demo_ok(3) by (auto intro!: exI [of _ "0::nat"])
  have l: "(1, 5) \<notin> set (bheld buf_demo)" and d: "bread 1 5 buf_demo = Ok v' \<Longrightarrow> blk v' 1 5 = replicate BSIZE 5" for v'
    by (auto simp: buf_demo_def bread_def)
  have "5 < disksize bio_demo" "(5::nat) < FSSIZE" using bio_demo_ok(6) by simp_all
  from memide_cache_refines_blocks [OF bio_demo_ok(1,2,4,5) this r, THEN conjunct1, unfolded if_not_P [OF l] if_P [OF f]]
  show ?thesis using d by metis
qed

end
