(* ===== verification/Ide.thy ===== *)
theory Ide
  imports Bio
begin

text \<open>
  The driver of the IDE disk, ide.c: a queue of buffers whose head the disk works on. What the disk
  does is the part of the hardware the driver relies on: a write command with the data of the
  buffer puts them into the addressed sector, a read command makes \<open>insl\<close> return the content of
  the sector, and the status port shows when the disk is ready. \<open>iderw\<close> sleeps until the interrupt
  of its request, so it is split at the context switch like \<open>sleep\<close>.
\<close>

section \<open>Operations\<close>

text \<open>\<open>r\<close> is the status that ends the loop: not busy and ready.\<close>

definition idewait :: "bool \<Rightarrow> nat \<Rightarrow> int" where
  "idewait checkerr r = (if checkerr \<and> r AND 0x21 \<noteq> 0 then -1 else 0)"

text \<open>\<open>st\<close> gives the values that the 1000 polls of the status of disk 1 would read.\<close>

definition ideinit :: "nat list \<Rightarrow> 'a biost_scheme \<Rightarrow> 'a biost_scheme" where
  "ideinit st s = (if list_ex (\<lambda>x. x \<noteq> 0) (take 1000 st) then s\<lparr>havedisk1 := True\<rparr> else s)"

text \<open>A block is one sector. The sector number is sent in four parts, of which the last has four bits.\<close>

definition idestart :: "nat \<Rightarrow> 'a biost_scheme \<Rightarrow> 'a biost_scheme result" where
  "idestart b s =
     (if b_blockno (bf s b) \<ge> FSSIZE then Err (Panic ''incorrect blockno'')
      else
        let sector = b_blockno (bf s b);
            drive = b_dev (bf s b) AND 1;
            lba = (sector AND 0xff) + 2 ^ 8 * (drop_bit 8 sector AND 0xff) + 2 ^ 16 * (drop_bit 16 sector AND 0xff) + 2 ^ 24 * (drop_bit 24 sector AND 0xf);
            s = s\<lparr>ide_at := (drive, lba)\<rparr>
        in Ok (if b_dirty (bf s b) then s\<lparr>hd_blk := set_block drive lba (b_data (bf s b)) (hd_blk s)\<rparr> else s))"

text \<open>The interrupt handler, with the status of the disk.\<close>

definition ideintr :: "nat \<Rightarrow> 'a biost_scheme \<Rightarrow> 'a biost_scheme result" where
  "ideintr r s =
     rbind (acquire IdeLock s) (\<lambda>s.
     case idequeue s of
       [] \<Rightarrow> release IdeLock s
     | b # q \<Rightarrow>
         let s = s\<lparr>idequeue := q\<rparr>;
             s = (if \<not> b_dirty (bf s b) \<and> idewait True r \<ge> 0
                  then upd_buf b (\<lambda>x. x\<lparr>b_data := hd_blk s (fst (ide_at s)) (snd (ide_at s))\<rparr>) s else s);
             s = upd_buf b (\<lambda>x. x\<lparr>b_valid := True, b_dirty := False\<rparr>) s in
         rbind (wakeup (ChanDisk b) s) (\<lambda>s.
         rbind (case idequeue s of [] \<Rightarrow> Ok s | c # _ \<Rightarrow> idestart c s) (release IdeLock)))"

definition iderw_loop :: "nat \<Rightarrow> 'a biost_scheme \<Rightarrow> ((unit, unit) run \<times> 'a biost_scheme) result" where
  "iderw_loop b s =
     (if b_valid (bf s b) \<and> \<not> b_dirty (bf s b) then rbind (release IdeLock s) (\<lambda>s. Ok (Done (), s))
      else rbind (sleep_enter (ChanDisk b) IdeLock s) (\<lambda>s. Ok (Blocked (), s)))"

definition iderw :: "nat \<Rightarrow> 'a biost_scheme \<Rightarrow> ((unit, unit) run \<times> 'a biost_scheme) result" where
  "iderw b s =
     rbind (holdingsleep (ChanBuf b) (b_lock (bf s b)) s) (\<lambda>(h, s).
     if \<not> h then Err (Panic ''iderw: buf not locked'')
     else if b_valid (bf s b) \<and> \<not> b_dirty (bf s b) then Err (Panic ''iderw: nothing to do'')
     else if b_dev (bf s b) \<noteq> 0 \<and> \<not> havedisk1 s then Err (Panic ''iderw: ide disk 1 not present'')
     else
       rbind (acquire IdeLock s) (\<lambda>s.
       let s = s\<lparr>idequeue := idequeue s @ [b]\<rparr> in
       rbind (if hd (idequeue s) = b then idestart b s else Ok s) (iderw_loop b)))"

definition iderw_resume :: "nat \<Rightarrow> 'a biost_scheme \<Rightarrow> ((unit, unit) run \<times> 'a biost_scheme) result" where
  "iderw_resume b s = rbind (sleep_leave IdeLock s) (iderw_loop b)"

section \<open>Sector numbers\<close>

lemma lba_id:
  fixes n :: nat
  assumes "n < 2 ^ 28"
  shows "(n AND 0xff) + 2 ^ 8 * (drop_bit 8 n AND 0xff) + 2 ^ 16 * (drop_bit 16 n AND 0xff) + 2 ^ 24 * (drop_bit 24 n AND 0xf) = n"
proof -
  have a: "x AND 0xff = x mod 256" "x AND 0xf = x mod 16" for x :: nat
    using take_bit_eq_mask [of 8 x] take_bit_eq_mask [of 4 x] by (simp_all add: take_bit_eq_mod mask_eq_exp_minus_1)
  have pw: "(2::nat) ^ 8 = 256" "(2::nat) ^ 16 = 65536" "(2::nat) ^ 24 = 16777216" by simp_all
  have d: "n div 65536 = n div 256 div 256" "n div 16777216 = n div 256 div 256 div 256" by (simp_all flip: div_mult2_eq)
  have "n div 256 div 256 div 256 < 16" using assms by (simp flip: div_mult2_eq add: less_mult_imp_div_less)
  then have m: "n div 256 div 256 div 256 mod 16 = n div 256 div 256 div 256" by simp
  have "n = 256 * (n div 256) + n mod 256" "n div 256 = 256 * (n div 256 div 256) + n div 256 mod 256"
    "n div 256 div 256 = 256 * (n div 256 div 256 div 256) + n div 256 div 256 mod 256" by simp_all
  then show ?thesis unfolding a drop_bit_eq_div pw d m by linarith
qed

lemma drive_id: "d \<le> 1 \<Longrightarrow> (d :: nat) AND 1 = d"
  by (cases d) auto

text \<open>
  The requests in the queue are buffers that are locked and have something to transfer; the disk
  works on the first, which for a write means that the data have been sent. No two requests are for
  the same block, and nobody sleeps on a buffer that is not in the queue.
\<close>

abbreviation key :: "buf \<Rightarrow> nat \<times> nat" where
  "key x \<equiv> (b_dev x, b_blockno x)"

definition request :: "buf \<Rightarrow> bool" where
  "request x \<longleftrightarrow> sl_locked (b_lock x) \<and> (b_valid x \<longrightarrow> b_dirty x) \<and> b_blockno x < FSSIZE \<and> b_dev x \<le> 1"

definition ide_ok :: "'a biost_scheme \<Rightarrow> bool" where
  "ide_ok s \<longleftrightarrow> length (bufs s) = Suc NBUF \<and> distinct (idequeue s) \<and> (\<forall>b\<in>set (idequeue s). b < NBUF \<and> request (bf s b)) \<and> inj_on (\<lambda>b. key (bf s b)) (set (idequeue s))
     \<and> (case idequeue s of [] \<Rightarrow> True | b # _ \<Rightarrow> ide_at s = (b_dev (bf s b), b_blockno (bf s b))
          \<and> (b_dirty (bf s b) \<longrightarrow> hd_blk s (b_dev (bf s b)) (b_blockno (bf s b)) = b_data (bf s b)))
     \<and> (\<forall>p<length (pt_proc (pt s)). \<forall>b. p_state (procs (pt s) p) = SLEEPING \<longrightarrow> p_chan (procs (pt s) p) = Some (ChanDisk b) \<longrightarrow> b \<in> set (idequeue s))"

lemma ide_ok_cpu: "ide_ok (s\<lparr>held := h, curproc := c\<rparr>) = ide_ok s"
  by (simp add: ide_ok_def cong: list.case_cong)

lemma idestart_ok:
  assumes "request (bf s b)"
  shows "idestart b s = Ok (let at = (b_dev (bf s b), b_blockno (bf s b)) in
    if b_dirty (bf s b) then s\<lparr>ide_at := at, hd_blk := set_block (fst at) (snd at) (b_data (bf s b)) (hd_blk s)\<rparr> else s\<lparr>ide_at := at\<rparr>)"
proof -
  have "b_blockno (bf s b) < 2 ^ 28" using assms by (simp add: request_def)
  then show ?thesis using assms lba_id [of "b_blockno (bf s b)"] drive_id [of "b_dev (bf s b)"]
    unfolding idestart_def by (simp add: request_def Let_def)
qed

definition served :: "(nat \<Rightarrow> nat \<Rightarrow> bytes) \<Rightarrow> buf \<Rightarrow> buf" where
  "served d x = x\<lparr>b_valid := True, b_dirty := False, b_data := (if b_dirty x then b_data x else d (b_dev x) (b_blockno x))\<rparr>"

text \<open>The interrupt at the end of the first request.\<close>

lemma ideintr_ok:
  assumes ok: "ide_ok s" and q: "idequeue s = b # q" and h: "IdeLock \<notin> set (held s)" "PtableLock \<notin> set (held s)" and r: "r AND 0x21 = 0"
  shows "\<exists>s'. ideintr r s = Ok s' \<and> ide_ok s' \<and> idequeue s' = q \<and> held s' = held s \<and> curproc s' = curproc s \<and> havedisk1 s' = havedisk1 s
    \<and> bufs s' = mod_buf b (served (hd_blk s)) (bufs s) \<and> pt s' = wakeup1 (Some (ChanDisk b)) (pt s)
    \<and> (\<forall>d n. (\<forall>c\<in>set q. b_dirty (bf s c) \<longrightarrow> key (bf s c) \<noteq> (d, n)) \<longrightarrow> hd_blk s' d n = hd_blk s d n) \<and> (q = [] \<longrightarrow> hd_blk s' = hd_blk s)"
proof -
  have l: "length (bufs s) = Suc NBUF" and d: "b \<notin> set q" "distinct q" and rq: "\<And>c. c \<in> set (b # q) \<Longrightarrow> c < NBUF \<and> request (bf s c)"
    and inj: "inj_on (\<lambda>b. key (bf s b)) (set q)" and at: "ide_at s = key (bf s b)"
    and sl: "\<And>p c. p < length (pt_proc (pt s)) \<Longrightarrow> p_state (procs (pt s) p) = SLEEPING \<Longrightarrow> p_chan (procs (pt s) p) = Some (ChanDisk c) \<Longrightarrow> c \<in> set (b # q)"
    using ok q by (auto simp: ide_ok_def inj_on_def)
  have b: "b < NBUF" using rq by simp
  let ?t = "wakeup1 (Some (ChanDisk b)) (pt s)" and ?bs = "mod_buf b (served (hd_blk s)) (bufs s)"
  let ?s = "s\<lparr>held := IdeLock # held s, idequeue := q, bufs := ?bs, pt := ?t\<rparr>"
  have w: "idewait True r = 0" using r by (simp add: idewait_def)
  have m: "x\<lparr>b_data := y, b_valid := True, b_dirty := False\<rparr> = x\<lparr>b_valid := True, b_dirty := False, b_data := y\<rparr>" for x :: buf and y by (rule buf.equality) simp_all
  have e: "ideintr r s = rbind (case q of [] \<Rightarrow> Ok ?s | c # _ \<Rightarrow> idestart c ?s) (release IdeLock)"
    unfolding ideintr_def using h q w at b l
    by (cases "b_dirty (bf s b)") (simp_all add: acquire_def wakeup_eq Let_def upd_buf_def mod_buf_def served_def m cong: list.case_cong)
  have n: "bf ?s c = bf s c" if "c \<in> set q" for c using that d(1) b l by auto
  have R: "release IdeLock (t\<lparr>held := IdeLock # held s\<rparr>) = Ok (t\<lparr>held := held s\<rparr>)" for t :: "'a biost_scheme" by (simp add: release_def)
  have ok': "ide_ok (?s\<lparr>held := held s, ide_at := a, hd_blk := hb\<rparr>)"
    if "case q of [] \<Rightarrow> True | c # _ \<Rightarrow> a = key (bf s c) \<and> (b_dirty (bf s c) \<longrightarrow> hb (b_dev (bf s c)) (b_blockno (bf s c)) = b_data (bf s c))" for a hb
  proof -
    have "\<forall>p<length (pt_proc ?t). \<forall>c. p_state (procs ?t p) = SLEEPING \<longrightarrow> p_chan (procs ?t p) = Some (ChanDisk c) \<longrightarrow> c \<in> set q"
      using sl by (auto simp: procs_wakeup1 split: if_splits)
    moreover have "inj_on (\<lambda>b. key (bf ?s b)) (set q)" using inj n by (simp cong: inj_on_cong)
    moreover have "\<forall>c\<in>set q. c < NBUF \<and> request (bf ?s c)" using rq n by simp
    ultimately show ?thesis using that d(2) l n by (cases q) (simp_all add: ide_ok_def)
  qed
  show ?thesis
  proof (cases q)
    case Nil
    have "ideintr r s = Ok (?s\<lparr>held := held s, ide_at := ide_at s, hd_blk := hd_blk s\<rparr>)" using e Nil by (simp add: release_def)
    then show ?thesis using ok' [of "ide_at s" "hd_blk s"] Nil by simp
  next
    case (Cons c q')
    let ?h = "if b_dirty (bf s c) then set_block (b_dev (bf s c)) (b_blockno (bf s c)) (b_data (bf s c)) (hd_blk s) else hd_blk s"
    have "request (bf ?s c)" "bf ?s c = bf s c" using Cons rq n by simp_all
    then have "ideintr r s = Ok (?s\<lparr>held := held s, ide_at := key (bf s c), hd_blk := ?h\<rparr>)"
      unfolding e using Cons by (simp add: idestart_ok release_def Let_def)
    moreover have "ide_ok (?s\<lparr>held := held s, ide_at := key (bf s c), hd_blk := ?h\<rparr>)" by (rule ok') (simp add: Cons set_block_apply)
    ultimately show ?thesis using Cons by (auto simp: set_block_apply)
  qed
qed

text \<open>A process that starts a transfer goes to sleep, with the request at the end of the queue.\<close>

lemma iderw_ok:
  assumes ok: "ide_ok s" and h: "held s = []" "curproc s = Some p" "p < length (pt_proc (pt s))" and b: "b < NBUF" "b \<notin> set (idequeue s)" "request (bf s b)"
    and k: "\<forall>c\<in>set (idequeue s). key (bf s c) \<noteq> key (bf s b)" "havedisk1 s"
  shows "\<exists>s'. iderw b s = Ok (Blocked (), s') \<and> ide_ok s' \<and> idequeue s' = idequeue s @ [b] \<and> held s' = [PtableLock] \<and> curproc s' = Some p \<and> havedisk1 s'
    \<and> bufs s' = bufs s \<and> pt s' = upd_proc p (\<lambda>q. q\<lparr>p_chan := Some (ChanDisk b), p_state := SLEEPING\<rparr>) (pt s)
    \<and> hd_blk s' = (if idequeue s = [] \<and> b_dirty (bf s b) then set_block (b_dev (bf s b)) (b_blockno (bf s b)) (b_data (bf s b)) (hd_blk s) else hd_blk s)"
proof -
  let ?t = "upd_proc p (\<lambda>q. q\<lparr>p_chan := Some (ChanDisk b), p_state := SLEEPING\<rparr>) (pt s)"
  let ?h = "if idequeue s = [] \<and> b_dirty (bf s b) then set_block (b_dev (bf s b)) (b_blockno (bf s b)) (b_data (bf s b)) (hd_blk s) else hd_blk s"
  let ?a = "if idequeue s = [] then key (bf s b) else ide_at s"
  let ?s = "s\<lparr>held := [IdeLock], idequeue := idequeue s @ [b], ide_at := ?a, hd_blk := ?h\<rparr>"
  have rq: "b_valid (bf s b) \<longrightarrow> b_dirty (bf s b)" "sl_locked (b_lock (bf s b))" using b(3) by (simp_all add: request_def)
  have hd: "hd (idequeue s @ [b]) = b \<longleftrightarrow> idequeue s = []" using b(2) by (cases "idequeue s") auto
  have st: "(if hd (idequeue s @ [b]) = b then idestart b (s\<lparr>held := [IdeLock], idequeue := idequeue s @ [b]\<rparr>) else Ok (s\<lparr>held := [IdeLock], idequeue := idequeue s @ [b]\<rparr>)) = Ok ?s"
    using b(3) by (simp add: hd idestart_ok Let_def)
  have "iderw b s = iderw_loop b ?s"
    using h(1) rq k(2) st by (auto simp: iderw_def kernel_simps acquire_def Let_def)
  moreover have "iderw_loop b ?s = Ok (Blocked (), ?s\<lparr>held := [PtableLock], pt := ?t\<rparr>)"
    using rq h by (auto simp: iderw_loop_def sleep_enter_seq acquire_def release_def sched_def)
  moreover have "ide_ok (?s\<lparr>held := [PtableLock], pt := ?t\<rparr>)"
    using ok b h(3) k(1) by (cases "idequeue s") (auto simp: ide_ok_def procs_upd_proc set_block_apply split: if_splits)
  ultimately show ?thesis using h k(2) by simp
qed

section \<open>Serving the queue\<close>

lemma procs_wakeups:
  "p < length (pt_proc t) \<Longrightarrow> procs (fold (\<lambda>c. wakeup1 (Some (ChanDisk c))) qs t) p =
    (if p_state (procs t p) = SLEEPING \<and> (\<exists>c\<in>set qs. p_chan (procs t p) = Some (ChanDisk c)) then (procs t p)\<lparr>p_state := RUNNABLE\<rparr> else procs t p)"
  by (induction qs arbitrary: t) (auto simp: procs_wakeup1)

lemma length_wakeups [simp]: "length (pt_proc (fold (\<lambda>c. wakeup1 (Some (ChanDisk c))) qs t)) = length (pt_proc t)"
  by (induction qs arbitrary: t) auto

text \<open>The buffer \<open>y\<close> is what the transfer has made of \<open>x\<close>, and agrees with the disk.\<close>

definition completed :: "(nat \<Rightarrow> nat \<Rightarrow> bytes) \<Rightarrow> buf \<Rightarrow> buf \<Rightarrow> bool" where
  "completed d x y \<longleftrightarrow> y = x\<lparr>b_valid := True, b_dirty := False, b_data := d (b_dev x) (b_blockno x)\<rparr> \<and> (b_dirty x \<longrightarrow> b_data y = b_data x)"

lemma serve_all:
  assumes "ide_ok s" "IdeLock \<notin> set (held s)" "PtableLock \<notin> set (held s)" "r AND 0x21 = 0"
  shows "\<exists>s'. rfold (\<lambda>_. ideintr r) (idequeue s) s = Ok s' \<and> ide_ok s' \<and> idequeue s' = [] \<and> held s' = held s \<and> curproc s' = curproc s \<and> havedisk1 s' = havedisk1 s
    \<and> (\<forall>c\<in>set (idequeue s). completed (hd_blk s') (bf s c) (bf s' c)) \<and> (\<forall>c. c \<notin> set (idequeue s) \<longrightarrow> bf s' c = bf s c)
    \<and> pt s' = fold (\<lambda>c. wakeup1 (Some (ChanDisk c))) (idequeue s) (pt s) \<and> length (bufs s') = Suc NBUF
    \<and> (\<forall>d n. (\<forall>c\<in>set (tl (idequeue s)). b_dirty (bf s c) \<longrightarrow> key (bf s c) \<noteq> (d, n)) \<longrightarrow> hd_blk s' d n = hd_blk s d n)"
  using assms
proof (induction "idequeue s" arbitrary: s)
  case Nil
  then show ?case by (auto simp: ide_ok_def)
next
  case (Cons b q)
  note q = Cons.hyps(2) [symmetric]
  obtain s1 where s1: "ideintr r s = Ok s1" "ide_ok s1" "idequeue s1 = q" "held s1 = held s" "curproc s1 = curproc s" "havedisk1 s1 = havedisk1 s"
      "bufs s1 = mod_buf b (served (hd_blk s)) (bufs s)" "pt s1 = wakeup1 (Some (ChanDisk b)) (pt s)"
      "\<And>d n. (\<forall>c\<in>set q. b_dirty (bf s c) \<longrightarrow> key (bf s c) \<noteq> (d, n)) \<Longrightarrow> hd_blk s1 d n = hd_blk s d n"
    using ideintr_ok [OF Cons.prems(1) q Cons.prems(2-4)] by blast
  have l: "length (bufs s) = Suc NBUF" and b: "b < NBUF" "b \<notin> set q" and kb: "\<forall>c\<in>set q. key (bf s c) \<noteq> key (bf s b)"
    and wr: "b_dirty (bf s b) \<Longrightarrow> hd_blk s (b_dev (bf s b)) (b_blockno (bf s b)) = b_data (bf s b)"
    using Cons.prems(1) q by (auto simp: ide_ok_def inj_on_def)
  have nb: "bf s1 b = served (hd_blk s) (bf s b)" and nc: "\<And>c. c \<noteq> b \<Longrightarrow> bf s1 c = bf s c" using s1(7) l b by auto
  obtain s2 where s2: "rfold (\<lambda>_. ideintr r) q s1 = Ok s2" "ide_ok s2" "idequeue s2 = []" "held s2 = held s1" "curproc s2 = curproc s1" "havedisk1 s2 = havedisk1 s1"
      "\<And>c. c \<in> set q \<Longrightarrow> completed (hd_blk s2) (bf s1 c) (bf s2 c)" "\<And>c. c \<notin> set q \<Longrightarrow> bf s2 c = bf s1 c"
      "pt s2 = fold (\<lambda>c. wakeup1 (Some (ChanDisk c))) q (pt s1)" "length (bufs s2) = Suc NBUF"
      "\<And>d n. (\<forall>c\<in>set (tl q). b_dirty (bf s1 c) \<longrightarrow> key (bf s1 c) \<noteq> (d, n)) \<Longrightarrow> hd_blk s2 d n = hd_blk s1 d n"
    using Cons.hyps(1) [of s1] s1 Cons.prems by auto
  have keep: "hd_blk s2 d n = hd_blk s d n" if k: "\<forall>c\<in>set q. b_dirty (bf s c) \<longrightarrow> key (bf s c) \<noteq> (d, n)" for d n
  proof -
    have "b_dirty (bf s1 c) \<longrightarrow> key (bf s1 c) \<noteq> (d, n)" if "c \<in> set (tl q)" for c
    proof -
      have c: "c \<in> set q" using that by (cases q) auto
      then have "c \<noteq> b" using b(2) by blast
      then have "bf s1 c = bf s c" by (rule nc)
      then show ?thesis using k c by simp
    qed
    then show ?thesis using s2(11) [of d n] s1(9) [OF k] by simp
  qed
  have "completed (hd_blk s2) (bf s c) (bf s2 c)" if "c \<in> set (b # q)" for c
  proof (cases "c = b")
    case True
    have "hd_blk s2 (b_dev (bf s b)) (b_blockno (bf s b)) = hd_blk s (b_dev (bf s b)) (b_blockno (bf s b))" using keep kb by simp
    then show ?thesis using True s2(8) [OF b(2)] nb wr by (simp add: completed_def served_def)
  next
    case False
    then show ?thesis using s2(7) [of c] nc that by simp
  qed
  moreover have "bf s2 c = bf s c" if "c \<notin> set (b # q)" for c using s2(8) [of c] nc that by simp
  ultimately show ?case using s1(1,4,5,6,8) s2(1-6,9,10) keep unfolding q by (intro exI [of _ s2]) simp
qed

lemma resume_ok:
  assumes "held s = [PtableLock]" "curproc s = Some p" "b_valid (bf s b)" "\<not> b_dirty (bf s b)"
  shows "iderw_resume b s = Ok (Done (), s\<lparr>held := [], pt := upd_proc p (\<lambda>q. q\<lparr>p_chan := None\<rparr>) (pt s)\<rparr>)"
  using assms by (simp add: iderw_resume_def sleep_leave_seq iderw_loop_def release_def acquire_def)

text \<open>
  What a process sees of \<open>iderw\<close> on an idle disk: it sleeps, the CPU takes the interrupt of the disk,
  and the scheduler lets the process go on.
\<close>

definition rescheduled :: "nat option \<Rightarrow> 'a kst_scheme \<Rightarrow> 'a kst_scheme" where
  "rescheduled c s = s\<lparr>held := [PtableLock], curproc := c,
     pt := (case c of None \<Rightarrow> pt s | Some p \<Rightarrow> upd_proc p (\<lambda>q. q\<lparr>p_state := RUNNING\<rparr>) (pt s))\<rparr>"

definition iderw_sync :: "nat \<Rightarrow> 'a biost_scheme \<Rightarrow> 'a biost_scheme result" where
  "iderw_sync b s =
     rbind (iderw b s) (\<lambda>(r, s1). case r of Done _ \<Rightarrow> Ok s1
     | Blocked _ \<Rightarrow>
         rbind (ideintr 0x40 (s1\<lparr>held := [], curproc := None\<rparr>)) (\<lambda>s2.
         rbind (iderw_resume b (rescheduled (curproc s) s2)) (\<lambda>(r, s3). case r of Done _ \<Rightarrow> Ok s3 | Blocked _ \<Rightarrow> Err (Sleeps (ChanDisk b)))))"

definition ide_idle :: "'a biost_scheme \<Rightarrow> bool" where
  "ide_idle s \<longleftrightarrow> ide_ok s \<and> idequeue s = [] \<and> havedisk1 s \<and> (\<exists>p. curproc s = Some p \<and> p < length (pt_proc (pt s)))"

lemma ide_idle_upd: "ide_idle (upd_buf i f s) = ide_idle s"
  by (cases "idequeue s") (simp_all add: ide_idle_def ide_ok_def upd_buf_def)

lemma iderw_sync_ok:
  assumes i: "ide_idle s" and h: "held s = []" and g: "got b i s" "\<not> b_valid (bf s i) \<or> b_dirty (bf s i)" "b < FSSIZE"
  shows "\<exists>s'. iderw_sync i s = Ok s' \<and> transferred i s s' \<and> ide_idle s'"
proof -
  obtain p where p: "curproc s = Some p" "p < length (pt_proc (pt s))" and ok: "ide_ok s" "idequeue s = []" "havedisk1 s" using i by (auto simp: ide_idle_def)
  have rq: "i < NBUF" "request (bf s i)" and d1: "b_dev (bf s i) = 1" and l: "length (bufs s) = Suc NBUF"
    using g ok(1) by (auto simp: got_def holds_def request_def ide_ok_def)
  let ?h = "if b_dirty (bf s i) then set_block 1 (b_blockno (bf s i)) (b_data (bf s i)) (hd_blk s) else hd_blk s"
  obtain s1 where s1: "iderw i s = Ok (Blocked (), s1)" "ide_ok s1" "idequeue s1 = [i]" "havedisk1 s1" "bufs s1 = bufs s" "hd_blk s1 = ?h" "length (pt_proc (pt s1)) = length (pt_proc (pt s))"
    using iderw_ok [OF ok(1) h p rq(1) _ rq(2) _ ok(3)] ok(2) d1 by auto
  let ?s1 = "s1\<lparr>held := [], curproc := None\<rparr>"
  have ok1: "ide_ok ?s1" "idequeue ?s1 = [i]" using s1(2,3) by (simp_all add: ide_ok_cpu)
  obtain s2 where s2: "ideintr 0x40 ?s1 = Ok s2" "ide_ok s2" "idequeue s2 = []" "held s2 = []" "havedisk1 s2" "bufs s2 = mod_buf i (served ?h) (bufs s)" "hd_blk s2 = ?h"
      "length (pt_proc (pt s2)) = length (pt_proc (pt s))"
    using ideintr_ok [OF ok1, of "0x40"] s1(4-7) by auto
  let ?s2 = "rescheduled (Some p) s2"
  let ?s3 = "?s2\<lparr>held := [], pt := upd_proc p (\<lambda>q. q\<lparr>p_chan := None\<rparr>) (pt ?s2)\<rparr>"
  have v: "b_valid (bf ?s2 i)" "\<not> b_dirty (bf ?s2 i)" using s2(6) rq(1) l by (simp_all add: rescheduled_def served_def)
  have rs: "iderw_resume i ?s2 = Ok (Done (), ?s3)" by (rule resume_ok) (use v in \<open>simp_all add: rescheduled_def\<close>)
  have e: "iderw_sync i s = Ok ?s3"
    unfolding iderw_sync_def s1(1) p(1) by (simp add: s2(1) rs)
  have "ide_ok ?s3" using s2(2,3,8) p(2) by (auto simp: ide_ok_def rescheduled_def procs_upd_proc split: if_splits)
  then have "ide_idle ?s3" using s2(3,5,8) p(2) by (simp add: ide_idle_def rescheduled_def)
  moreover have "transferred i s ?s3"
    using s2(6,7) h p(1) d1 rq(1) l by (auto simp: transferred_def rescheduled_def served_def mod_buf_def set_block_apply)
  ultimately show ?thesis using e by blast
qed

interpretation ide: disk_driver iderw_sync ide_idle "\<lambda>_. FSSIZE"
proof
  show "\<exists>s'. iderw_sync i s = Ok s' \<and> transferred i s s' \<and> ide_idle s' \<and> FSSIZE = FSSIZE"
    if "ide_idle s" "held s = []" "length (bufs s) = Suc NBUF" "got b i s" "\<not> b_valid (bf s i) \<or> b_dirty (bf s i)" "b < FSSIZE" for s :: "'a biost_scheme" and b i
    using iderw_sync_ok [OF that(1,2,4-6)] by simp
qed (simp_all add: ide_idle_upd)

section \<open>Properties\<close>

text \<open>
  C29. The queue of the disk driver. A process that calls \<open>iderw\<close> on a locked buffer with something to
  transfer goes to sleep with its request behind the earlier ones. As many interrupts as there are
  requests, with no error from the disk, empty the queue: every buffer of the queue is then valid and
  clean and agrees with the disk, a buffer that was dirty with its own data, all other buffers and
  all blocks that are not written are untouched, nobody sleeps on the disk any more, and \<open>iderw\<close> returns as soon as the process runs.\<close>

theorem ide_serves_requests:
  assumes ok: "ide_ok s" and h: "held s = []" "curproc s = Some p" "p < length (pt_proc (pt s))" and b: "b < NBUF" "b \<notin> set (idequeue s)" "request (bf s b)"
    and k: "\<forall>c\<in>set (idequeue s). key (bf s c) \<noteq> key (bf s b)" "havedisk1 s" and r: "r AND 0x21 = 0"
  shows "\<exists>s1 s2 s3. iderw b s = Ok (Blocked (), s1) \<and> p_state (procs (pt s1) p) = SLEEPING
    \<and> rfold (\<lambda>_. ideintr r) (idequeue s @ [b]) (s1\<lparr>held := [], curproc := None\<rparr>) = Ok s2 \<and> idequeue s2 = []
    \<and> (\<forall>c\<in>set (idequeue s @ [b]). completed (hd_blk s2) (bf s c) (bf s2 c)) \<and> (\<forall>c. c \<notin> set (idequeue s @ [b]) \<longrightarrow> bf s2 c = bf s c)
    \<and> (\<forall>d n. (\<forall>c\<in>set (idequeue s @ [b]). b_dirty (bf s c) \<longrightarrow> key (bf s c) \<noteq> (d, n)) \<longrightarrow> hd_blk s2 d n = hd_blk s d n)
    \<and> (\<forall>q<length (pt_proc (pt s2)). \<forall>c. \<not> (p_state (procs (pt s2) q) = SLEEPING \<and> p_chan (procs (pt s2) q) = Some (ChanDisk c)))
    \<and> p_state (procs (pt s2) p) = RUNNABLE \<and> iderw_resume b (rescheduled (Some p) s2) = Ok (Done (), s3)"
proof -
  obtain s1 where s1: "iderw b s = Ok (Blocked (), s1)" "ide_ok s1" "idequeue s1 = idequeue s @ [b]" "bufs s1 = bufs s"
      "pt s1 = upd_proc p (\<lambda>q. q\<lparr>p_chan := Some (ChanDisk b), p_state := SLEEPING\<rparr>) (pt s)"
    and fr: "hd_blk s1 = (if idequeue s = [] \<and> b_dirty (bf s b) then set_block (b_dev (bf s b)) (b_blockno (bf s b)) (b_data (bf s b)) (hd_blk s) else hd_blk s)"
    using iderw_ok [OF ok h b k] by blast
  let ?s1 = "s1\<lparr>held := [], curproc := None\<rparr>"
  have "ide_ok ?s1" "idequeue ?s1 = idequeue s @ [b]" using s1(2,3) by (simp_all add: ide_ok_cpu)
  then obtain s2 where s2: "rfold (\<lambda>_. ideintr r) (idequeue s @ [b]) ?s1 = Ok s2" "ide_ok s2" "idequeue s2 = []"
      "\<forall>c\<in>set (idequeue s @ [b]). completed (hd_blk s2) (bf s c) (bf s2 c)" "\<forall>c. c \<notin> set (idequeue s @ [b]) \<longrightarrow> bf s2 c = bf s c"
      "pt s2 = fold (\<lambda>c. wakeup1 (Some (ChanDisk c))) (idequeue s @ [b]) (pt s1)"
      "\<And>d n. (\<forall>c\<in>set (tl (idequeue s @ [b])). b_dirty (bf s c) \<longrightarrow> key (bf s c) \<noteq> (d, n)) \<Longrightarrow> hd_blk s2 d n = hd_blk s1 d n"
    using serve_all [of ?s1 r] s1(4) r by auto
  have "p_state (procs (pt s2) p) = RUNNABLE" unfolding s2(6) s1(5) using h(3) by (subst procs_wakeups) auto
  moreover have "\<not> (p_state (procs (pt s2) q) = SLEEPING \<and> p_chan (procs (pt s2) q) = Some (ChanDisk c))" if "q < length (pt_proc (pt s2))" for q c
    using s2(2,3) that by (auto simp: ide_ok_def)
  moreover have "b_valid (bf (rescheduled (Some p) s2) b) \<and> \<not> b_dirty (bf (rescheduled (Some p) s2) b)" using s2(4) by (auto simp: completed_def rescheduled_def)
  then have "\<exists>s3. iderw_resume b (rescheduled (Some p) s2) = Ok (Done (), s3)"
    using resume_ok [of "rescheduled (Some p) s2" p b] by (auto simp: rescheduled_def)
  moreover have "hd_blk s2 d n = hd_blk s d n" if w: "\<forall>c\<in>set (idequeue s @ [b]). b_dirty (bf s c) \<longrightarrow> key (bf s c) \<noteq> (d, n)" for d n
  proof -
    have "\<forall>c\<in>set (tl (idequeue s @ [b])). b_dirty (bf s c) \<longrightarrow> key (bf s c) \<noteq> (d, n)" using w by (meson list.set_sel(2) snoc_eq_iff_butlast)
    then show ?thesis using s2(7) [of d n] fr w by (auto simp: set_block_apply)
  qed
  moreover have "p_state (procs (pt s1) p) = SLEEPING" using s1(5) h(3) by simp
  ultimately show ?thesis using s1(1) s2(1,3,4,5) by blast
qed

definition ide_demo :: biost where
  "ide_demo = upd_buf 0 (\<lambda>x. x\<lparr>b_dev := 1, b_blockno := 5, b_lock := \<lparr>sl_locked = True, sl_pid = 1\<rparr>\<rparr>) bio_demo"

theorem ide_serves_requests_witness:
  "\<exists>s1 s2. iderw 0 ide_demo = Ok (Blocked (), s1) \<and> rfold (\<lambda>_. ideintr 0x40) [0 :: nat] (s1\<lparr>held := [], curproc := None\<rparr>) = Ok s2
     \<and> b_data (bf s2 0) = replicate BSIZE 5"
proof -
  let ?s = ide_demo
  have l: "length (bufs bio_demo) = Suc NBUF" by (rule cache_inv_len [OF bio_demo_ok(1)])
  have "relinked zero_buf (bf bio_demo 0)" unfolding bio_demo_def by (rule binit_inv(2)) simp_all
  then have z: "\<not> b_valid (bf bio_demo 0)" "\<not> b_dirty (bf bio_demo 0)" by (simp_all add: relinked_simps [of zero_buf] zero_buf_def)
  have st: "idequeue ?s = []" "havedisk1 ?s" "pt ?s = zero_ptable" "hd_blk ?s 1 5 = replicate BSIZE 5" by (simp_all add: ide_demo_def bio_demo_def binit_def upd_buf_def)
  have n: "b_dev (bf ?s 0) = 1" "b_blockno (bf ?s 0) = 5" "\<not> b_dirty (bf ?s 0)" and rq: "request (bf ?s 0)" using l z by (simp_all add: ide_demo_def request_def)
  have ok: "ide_ok ?s" using l st by (simp add: ide_ok_def zero_ptable_def zero_proc_def ide_demo_def)
  have p: "0 < length (pt_proc (pt ?s))" "held ?s = []" "curproc ?s = Some 0" using st(3) bio_demo_ok(4,5) by (simp_all add: zero_ptable_def ide_demo_def)
  have c: "(0x40 :: nat) AND 0x21 = 0" and b: "0 < NBUF" by simp_all
  have nq: "0 \<notin> set (idequeue ?s)" "\<forall>c\<in>set (idequeue ?s). key (bf ?s c) \<noteq> key (bf ?s 0)" using st(1) by simp_all
  from ide_serves_requests [OF ok p(2,3,1) b nq(1) rq nq(2) st(2) c, unfolded st(1) append_Nil]
  obtain s1 s2 where e: "iderw 0 ?s = Ok (Blocked (), s1)" "rfold (\<lambda>_. ideintr 0x40) [0 :: nat] (s1\<lparr>held := [], curproc := None\<rparr>) = Ok s2"
      "\<forall>c\<in>set [0]. completed (hd_blk s2) (bf ?s c) (bf s2 c)" "\<And>d n. (\<forall>c\<in>set [0]. b_dirty (bf ?s c) \<longrightarrow> key (bf ?s c) \<noteq> (d, n)) \<Longrightarrow> hd_blk s2 d n = hd_blk ?s d n"
    by blast
  have "completed (hd_blk s2) (bf ?s 0) (bf s2 0)" "hd_blk s2 1 5 = hd_blk ?s 1 5" using e(3,4) n(3) by simp_all
  then have "b_data (bf s2 0) = replicate BSIZE 5" using n st(4) by (simp add: completed_def)
  then show ?thesis using e(1,2) by blast
qed

end
