(* ===== verification/Grep.thy ===== *)
theory Grep
  imports Cstring
begin

text \<open>
  The user program grep.c: the pattern matcher and the loop over the lines of a file. A C string
  is the list of its characters before the terminator, so the end of the list is where the code
  reads a zero. The matcher is compared with the language of the pattern, the loop with the lines of
  the input.
\<close>

section \<open>The matcher\<close>

text \<open>The characters of the patterns: \<open>^\<close>, \<open>.\<close>, \<open>*\<close> and \<open>$\<close>.\<close>

abbreviation (input) CARET :: uchar where "CARET \<equiv> 94"
abbreviation (input) DOT :: uchar where "DOT \<equiv> 46"
abbreviation (input) STAR :: uchar where "STAR \<equiv> 42"
abbreviation (input) DOLLAR :: uchar where "DOLLAR \<equiv> 36"
abbreviation (input) NEWLINE :: uchar where "NEWLINE \<equiv> 10"

text \<open>
  \<open>re[1]\<close> is the zero that ends the pattern when \<open>re\<close> has one character.
\<close>

definition char_at :: "uchar list \<Rightarrow> nat \<Rightarrow> uchar" where
  "char_at s i = (if i < length s then s ! i else 0)"

function (sequential) matchhere :: "uchar list \<Rightarrow> uchar list \<Rightarrow> bool"
  and matchstar :: "uchar \<Rightarrow> uchar list \<Rightarrow> uchar list \<Rightarrow> bool" where
  "matchhere re text =
     (if re = [] then True
      else if char_at re 1 = STAR then matchstar (hd re) (drop 2 re) text
      else if hd re = DOLLAR \<and> length re = 1 then text = []
      else if text \<noteq> [] \<and> (hd re = DOT \<or> hd re = hd text) then matchhere (tl re) (tl text)
      else False)"
| "matchstar c re text =
     (if matchhere re text then True
      else if text \<noteq> [] \<and> (hd text = c \<or> c = DOT) then matchstar c re (tl text)
      else False)"
  by pat_completeness auto
termination
  by (relation "measure (\<lambda>x. case x of Inl (re, t) \<Rightarrow> 2 * (length re + length t) | Inr (c, re, t) \<Rightarrow> 2 * (length re + length t) + 1)")
    (auto simp: char_at_def neq_Nil_conv split: if_splits)

fun match_loop :: "uchar list \<Rightarrow> uchar list \<Rightarrow> bool" where
  "match_loop re [] = matchhere re []"
| "match_loop re (c # text) = (if matchhere re (c # text) then True else match_loop re text)"

definition match :: "uchar list \<Rightarrow> uchar list \<Rightarrow> bool" where
  "match re text = (if char_at re 0 = CARET then matchhere (tl re) text else match_loop re text)"

declare matchhere.simps [simp del] matchstar.simps [simp del]

section \<open>The language of a pattern\<close>

datatype atom = Lit uchar | Any
datatype piece = One atom | Rep atom

fun accepts :: "atom \<Rightarrow> uchar \<Rightarrow> bool" where
  "accepts (Lit c) x = (c = x)"
| "accepts Any x = True"

definition atom_of :: "uchar \<Rightarrow> atom" where
  "atom_of c = (if c = DOT then Any else Lit c)"

text \<open>The pieces of a pattern, and whether it must reach the end of the text.\<close>

fun parse_re :: "uchar list \<Rightarrow> piece list \<times> bool" where
  "parse_re [] = ([], False)"
| "parse_re [c] = (if c = DOLLAR then ([], True) else ([One (atom_of c)], False))"
| "parse_re (c # d # re) = (if d = STAR then (Rep (atom_of c) # fst (parse_re re), snd (parse_re re))
     else (One (atom_of c) # fst (parse_re (d # re)), snd (parse_re (d # re))))"

fun lang :: "piece list \<Rightarrow> uchar list set" where
  "lang [] = {[]}"
| "lang (One a # ps) = {x # u |x u. accepts a x \<and> u \<in> lang ps}"
| "lang (Rep a # ps) = {w @ u |w u. (\<forall>x\<in>set w. accepts a x) \<and> u \<in> lang ps}"

definition fits :: "piece list \<times> bool \<Rightarrow> uchar list \<Rightarrow> bool" where
  "fits p t \<longleftrightarrow> (\<exists>u v. t = u @ v \<and> u \<in> lang (fst p) \<and> (snd p \<longrightarrow> v = []))"

lemma fitsI: "u \<in> lang (fst p) \<Longrightarrow> (snd p \<Longrightarrow> v = []) \<Longrightarrow> fits p (u @ v)"
  unfolding fits_def by blast

lemma fitsE:
  assumes "fits p t"
  obtains u v where "t = u @ v" "u \<in> lang (fst p)" "snd p \<Longrightarrow> v = []"
  using assms unfolding fits_def by blast

lemma fits_nil: "fits ([], False) t" "fits ([], True) t \<longleftrightarrow> t = []"
  by (auto simp: fits_def)

lemma fits_one: "fits (One a # ps, e) t \<longleftrightarrow> (\<exists>x t'. t = x # t' \<and> accepts a x \<and> fits (ps, e) t')"
proof
  assume "fits (One a # ps, e) t"
  then obtain u v where t: "t = u @ v" "u \<in> lang (One a # ps)" "e \<Longrightarrow> v = []" by (elim fitsE) simp
  then obtain x w where "u = x # w" "accepts a x" "w \<in> lang ps" by auto
  then show "\<exists>x t'. t = x # t' \<and> accepts a x \<and> fits (ps, e) t'" using t(1,3) fitsI [of w "(ps, e)" v] by auto
next
  assume "\<exists>x t'. t = x # t' \<and> accepts a x \<and> fits (ps, e) t'"
  then obtain x t' where t: "t = x # t'" "accepts a x" "fits (ps, e) t'" by blast
  from t(3) obtain u v where "t' = u @ v" "u \<in> lang ps" "e \<Longrightarrow> v = []" by (elim fitsE) simp
  then show "fits (One a # ps, e) t" using t(1,2) fitsI [of "x # u" "(One a # ps, e)" v] by simp
qed

lemma fits_rep: "fits (Rep a # ps, e) t \<longleftrightarrow> fits (ps, e) t \<or> (\<exists>x t'. t = x # t' \<and> accepts a x \<and> fits (Rep a # ps, e) t')"
proof
  assume "fits (Rep a # ps, e) t"
  then obtain u v where t: "t = u @ v" "u \<in> lang (Rep a # ps)" "e \<Longrightarrow> v = []" by (elim fitsE) simp
  then obtain w u' where w: "u = w @ u'" "\<forall>x\<in>set w. accepts a x" "u' \<in> lang ps" by auto
  show "fits (ps, e) t \<or> (\<exists>x t'. t = x # t' \<and> accepts a x \<and> fits (Rep a # ps, e) t')"
  proof (cases w)
    case Nil
    then show ?thesis using t w fitsI [of u' "(ps, e)" v] by simp
  next
    case (Cons x w')
    have "w' @ u' \<in> lang (Rep a # ps)" using w Cons by auto
    then have "fits (Rep a # ps, e) (w' @ u' @ v)" using t(3) fitsI [of "w' @ u'" "(Rep a # ps, e)" v] by simp
    then show ?thesis using t(1) w Cons by auto
  qed
next
  assume "fits (ps, e) t \<or> (\<exists>x t'. t = x # t' \<and> accepts a x \<and> fits (Rep a # ps, e) t')"
  then show "fits (Rep a # ps, e) t"
  proof
    assume "fits (ps, e) t"
    then obtain u v where t: "t = u @ v" "u \<in> lang ps" "e \<Longrightarrow> v = []" by (elim fitsE) simp
    have "u \<in> lang (Rep a # ps)" using t(2) by (force intro: exI [of _ "[]"])
    then show ?thesis using t fitsI [of u "(Rep a # ps, e)" v] by simp
  next
    assume "\<exists>x t'. t = x # t' \<and> accepts a x \<and> fits (Rep a # ps, e) t'"
    then obtain x t' where t: "t = x # t'" "accepts a x" "fits (Rep a # ps, e) t'" by blast
    from t(3) obtain u v where u: "t' = u @ v" "u \<in> lang (Rep a # ps)" "e \<Longrightarrow> v = []" by (elim fitsE) simp
    then obtain w u' where w: "u = w @ u'" "\<forall>x\<in>set w. accepts a x" "u' \<in> lang ps" by auto
    then have "x # u = (x # w) @ u'" "\<forall>y\<in>set (x # w). accepts a y" using t(2) by simp_all
    then have "x # u \<in> lang (Rep a # ps)" unfolding lang.simps mem_Collect_eq using w(3) by blast
    then show ?thesis using t(1) u fitsI [of "x # u" "(Rep a # ps, e)" v] by simp
  qed
qed

lemma accepts_atom_of: "accepts (atom_of c) x \<longleftrightarrow> c = DOT \<or> c = x"
  by (simp add: atom_of_def)

text \<open>The matcher decides whether some beginning of the text is in the language.\<close>

lemma matchhere_fits:
  "matchhere re t = fits (parse_re re) t"
  "matchstar c re t = fits (Rep (atom_of c) # fst (parse_re re), snd (parse_re re)) t"
proof (induction re t and c re t rule: matchhere_matchstar.induct)
  case (1 re t)
  show ?case
  proof (cases re rule: parse_re.cases)
    case (2 c)
    then show ?thesis using 1(2) by (subst matchhere.simps) (cases t; auto simp: char_at_def fits_nil fits_one accepts_atom_of)
  next
    case (3 c d re')
    then show ?thesis using 1 by (subst matchhere.simps) (cases t; auto simp: char_at_def fits_one accepts_atom_of)
  qed (simp add: matchhere.simps fits_nil)
next
  case (2 c re t)
  have "matchstar c re t \<longleftrightarrow> fits (parse_re re) t \<or> (t \<noteq> [] \<and> (hd t = c \<or> c = DOT) \<and> matchstar c re (tl t))"
    using 2(1) by (subst matchstar.simps) auto
  also have "\<dots> \<longleftrightarrow> fits (parse_re re) t \<or> (\<exists>x t'. t = x # t' \<and> accepts (atom_of c) x \<and> matchstar c re t')"
    by (cases t) (auto simp: accepts_atom_of)
  also have "\<dots> \<longleftrightarrow> fits (Rep (atom_of c) # fst (parse_re re), snd (parse_re re)) t"
    using 2 fits_rep [of "atom_of c" "fst (parse_re re)" "snd (parse_re re)" t] by (cases t) (auto simp: accepts_atom_of)
  finally show ?case .
qed

lemma match_loop_iff: "match_loop re t \<longleftrightarrow> (\<exists>w v. t = w @ v \<and> matchhere re v)"
proof (induction t)
  case (Cons c t)
  have "(\<exists>w v. c # t = w @ v \<and> matchhere re v) \<longleftrightarrow> matchhere re (c # t) \<or> (\<exists>w v. t = w @ v \<and> matchhere re v)"
    by (auto simp: Cons_eq_append_conv)
  then show ?case using Cons by simp
qed simp

section \<open>The loop over the input\<close>

text \<open>
  \<open>strchr(p, '\n')\<close> in the zero-terminated rest \<open>t\<close> of the buffer: the distance to the newline.
\<close>

definition find_nl :: "uchar list \<Rightarrow> nat option" where
  "find_nl t = (let l = length (takeWhile (\<lambda>c. c \<noteq> NEWLINE \<and> c \<noteq> 0) t) in if l < length t \<and> t ! l = NEWLINE then Some l else None)"

text \<open>The inner loop: the lines it writes, and what is left of the buffer.\<close>

function grep_lines :: "uchar list \<Rightarrow> uchar list \<Rightarrow> uchar list \<times> uchar list" where
  "grep_lines re t = (case find_nl t of None \<Rightarrow> ([], t)
     | Some q \<Rightarrow> let (out, rest) = grep_lines re (drop (Suc q) t) in
         ((if match re (take q t) then take q t @ [NEWLINE] else []) @ out, rest))"
  by pat_completeness auto
termination by (relation "measure (\<lambda>(re, t). length t)") (auto simp: find_nl_def Let_def split: if_splits)

declare grep_lines.simps [simp del]

text \<open>
  \<open>reads\<close> are the results of the calls of \<open>read\<close>, each at most as long as the room behind the \<open>m\<close> bytes
  kept in \<open>b\<close>; \<open>p == buf\<close> holds when the inner loop has consumed nothing.
\<close>

fun grep :: "uchar list \<Rightarrow> uchar list \<Rightarrow> uchar list list \<Rightarrow> uchar list result" where
  "grep re b [] = Ok []"
| "grep re b (c # reads) =
     (if c = [] then Ok []
      else if length b + length c > 1023 then Err (Fault ''buf'')
      else let (out, rest) = grep_lines re (b @ c) in
        rbind (grep re (if length rest = length (b @ c) then [] else rest) reads) (\<lambda>out'. Ok (out @ out')))"

section \<open>Lines\<close>

text \<open>The complete lines of a text that follows \<open>rev acc\<close>, and the unfinished last one.\<close>

fun split_lines :: "uchar list \<Rightarrow> uchar list \<Rightarrow> uchar list list \<times> uchar list" where
  "split_lines acc [] = ([], rev acc)"
| "split_lines acc (c # t) = (if c = NEWLINE then (rev acc # fst (split_lines [] t), snd (split_lines [] t)) else split_lines (c # acc) t)"

definition matching :: "uchar list \<Rightarrow> uchar list list \<Rightarrow> uchar list" where
  "matching re ls = concat (map (\<lambda>l. l @ [NEWLINE]) (filter (match re) ls))"

lemma split_append:
  "split_lines acc (x @ y) = (fst (split_lines acc x) @ fst (split_lines (rev (snd (split_lines acc x))) y), snd (split_lines (rev (snd (split_lines acc x))) y))"
  by (induction acc x rule: split_lines.induct) auto

lemma split_no_newline: "NEWLINE \<notin> set t \<Longrightarrow> split_lines acc t = ([], rev acc @ t)"
  by (induction acc t rule: split_lines.induct) auto

lemma find_nl_split:
  assumes "0 \<notin> set t"
  shows "case find_nl t of None \<Rightarrow> NEWLINE \<notin> set t | Some q \<Rightarrow> q < length t \<and> t = take q t @ NEWLINE # drop (Suc q) t \<and> NEWLINE \<notin> set (take q t)"
proof -
  let ?P = "\<lambda>c. c \<noteq> NEWLINE \<and> c \<noteq> 0"
  let ?n = "length (takeWhile ?P t)"
  have tk: "take ?n t = takeWhile ?P t" by (rule takeWhile_eq_take [symmetric])
  have l: "NEWLINE \<notin> set (take ?n t)" unfolding tk by (auto dest: set_takeWhileD)
  show ?thesis
  proof (cases "?n < length t")
    case True
    then have "\<not> (t ! ?n \<noteq> NEWLINE \<and> t ! ?n \<noteq> 0)" by (rule nth_length_takeWhile)
    then have n: "t ! ?n = NEWLINE" using assms nth_mem [OF True] by auto
    then have "t = take ?n t @ NEWLINE # drop (Suc ?n) t" using id_take_nth_drop [OF True] by simp
    moreover have "find_nl t = Some ?n" using True n by (simp add: find_nl_def Let_def)
    ultimately show ?thesis using True l by (simp only: option.case) blast
  next
    case False
    then have "take ?n t = t" by simp
    then have "NEWLINE \<notin> set t" using l by (simp only: not_False_eq_True)
    moreover have "find_nl t = None" using False by (simp add: find_nl_def Let_def)
    ultimately show ?thesis by simp
  qed
qed

lemma grep_lines_ok:
  "0 \<notin> set t \<Longrightarrow> grep_lines re t = (matching re (fst (split_lines [] t)), snd (split_lines [] t))"
proof (induction re t rule: grep_lines.induct)
  case (1 re t)
  note f = find_nl_split [OF 1(2)]
  show ?case
  proof (cases "find_nl t")
    case None
    then show ?thesis using f by (subst grep_lines.simps) (simp add: split_no_newline matching_def)
  next
    case (Some q)
    then have q: "t = take q t @ NEWLINE # drop (Suc q) t" "NEWLINE \<notin> set (take q t)" using f unfolding Some option.case by blast+
    have z: "0 \<notin> set (drop (Suc q) t)" using 1(2) by (auto dest: in_set_dropD)
    have "split_lines [] t = (take q t # fst (split_lines [] (drop (Suc q) t)), snd (split_lines [] (drop (Suc q) t)))"
      by (subst q(1)) (simp add: split_append split_no_newline [OF q(2)])
    then show ?thesis using Some 1(1) [OF Some z] by (subst grep_lines.simps) (simp add: matching_def)
  qed
qed

text \<open>Every read brings the end of a line.\<close>

fun reads_ok :: "uchar list \<Rightarrow> uchar list list \<Rightarrow> bool" where
  "reads_ok b [] = True"
| "reads_ok b (c # cs) \<longleftrightarrow> length b + length c \<le> 1023 \<and> NEWLINE \<in> set c \<and> 0 \<notin> set c \<and> reads_ok (snd (split_lines [] (b @ c))) cs"

lemma split_length:
  "length (snd (split_lines acc t)) \<le> length acc + length t" "NEWLINE \<in> set t \<Longrightarrow> length (snd (split_lines acc t)) < length t"
proof -
  show "length (snd (split_lines acc t)) \<le> length acc + length t" for acc t
    by (induction acc t rule: split_lines.induct) auto
  from this [of "[]"] show "NEWLINE \<in> set t \<Longrightarrow> length (snd (split_lines acc t)) < length t"
    by (induction acc t rule: split_lines.induct) (auto simp: less_Suc_eq_le)
qed

lemma split_rest_set:
  "NEWLINE \<notin> set acc \<Longrightarrow> NEWLINE \<notin> set (snd (split_lines acc t))" "x \<notin> set acc \<Longrightarrow> x \<notin> set t \<Longrightarrow> x \<notin> set (snd (split_lines acc t))"
  by (induction acc t rule: split_lines.induct) simp_all

lemma split_pending: "NEWLINE \<notin> set b \<Longrightarrow> split_lines (rev b) y = split_lines [] (b @ y)"
  by (simp add: split_append split_no_newline)

lemma grep_ok:
  assumes "reads_ok b cs" "NEWLINE \<notin> set b" "0 \<notin> set b"
  shows "grep re b cs = Ok (matching re (fst (split_lines [] (b @ concat cs))))"
  using assms
proof (induction cs arbitrary: b)
  case Nil
  then show ?case by (simp add: split_no_newline matching_def)
next
  case (Cons c cs)
  let ?r = "snd (split_lines [] (b @ c))"
  have r: "NEWLINE \<notin> set ?r" "0 \<notin> set ?r" using split_rest_set [where acc = "[]" and t = "b @ c"] Cons.prems by auto
  have n: "NEWLINE \<in> set (b @ c)" "0 \<notin> set (b @ c)" using Cons.prems by auto
  have sp: "split_lines [] (b @ c @ concat cs) = (fst (split_lines [] (b @ c)) @ fst (split_lines [] (?r @ concat cs)), snd (split_lines [] (?r @ concat cs)))"
    using split_append [of "[]" "b @ c" "concat cs"] split_pending [OF r(1), of "concat cs"] by simp
  have "grep re ?r cs = Ok (matching re (fst (split_lines [] (?r @ concat cs))))" using Cons.IH r Cons.prems(1) by simp
  then show ?case using Cons.prems(1) split_length(2) [OF n(1), of "[]"] grep_lines_ok [OF n(2), of re] by (auto simp: sp matching_def)
qed

section \<open>Properties\<close>

text \<open>
  C39. The matcher is equivalent to the definition of the patterns by their languages: \<open>match re text\<close>
  holds exactly when, at the start of the text for a pattern that begins with \<open>^\<close> and anywhere in it
  otherwise, there is a string of the language of the pattern, which extends to the end of the text
  if the pattern ends in \<open>$\<close>. The backtracking search ends for every pattern and text.\<close>

theorem match_equivalence:
  "match re text \<longleftrightarrow> (if re \<noteq> [] \<and> hd re = CARET then \<exists>u v. text = u @ v \<and> u \<in> lang (fst (parse_re (tl re))) \<and> (snd (parse_re (tl re)) \<longrightarrow> v = [])
     else \<exists>w u v. text = w @ u @ v \<and> u \<in> lang (fst (parse_re re)) \<and> (snd (parse_re re) \<longrightarrow> v = []))"
proof -
  have "match_loop re text \<longleftrightarrow> (\<exists>w u v. text = w @ u @ v \<and> u \<in> lang (fst (parse_re re)) \<and> (snd (parse_re re) \<longrightarrow> v = []))"
    unfolding match_loop_iff matchhere_fits fits_def by blast
  then show ?thesis by (cases re) (simp_all add: match_def char_at_def matchhere_fits fits_def)
qed

theorem match_equivalence_witness:
  "match [94, 97, 42, 36] [97, 97] \<and> [97, 97] \<in> lang (fst (parse_re [97, 42, 36]))"
proof -
  have "match [94, 97, 42, 36] [97, 97]" "snd (parse_re [97, 42, 36])" by code_simp+
  then show ?thesis using match_equivalence [of "[94, 97, 42, 36]" "[97, 97]"] by (auto simp: char_at_def)
qed

text \<open>
  C40. \<open>grep\<close> writes exactly the matching lines, in order, each with its newline, for every way the
  input is cut into reads each of which brings the end of a line (an unfinished last line is not
  written). A read without a newline is thrown away, also when the line goes on in the next read: of
  the line \<open>u v\<close> that arrives in two pieces only \<open>v\<close> is matched and written.\<close>

theorem grep_writes_matching_lines:
  assumes "0 \<notin> set u" "0 \<notin> set v" "NEWLINE \<notin> set u" "NEWLINE \<notin> set v" "u \<noteq> []" "length u \<le> 1023" "length v < 1023"
  shows "(\<forall>reads. reads_ok [] reads \<longrightarrow> grep re [] reads = Ok (matching re (fst (split_lines [] (concat reads)))))
    \<and> grep re [] [u, v @ [NEWLINE]] = Ok (matching re [v])"
proof -
  have "split_lines [] (v @ [NEWLINE]) = ([v], [])" using assms(4) by (simp add: split_append split_no_newline)
  then have "grep_lines re (v @ [NEWLINE]) = (matching re [v], [])" "grep_lines re u = ([], u)"
    using grep_lines_ok [of "v @ [NEWLINE]" re] grep_lines_ok [of u re] assms by (simp_all add: split_no_newline matching_def)
  then have "grep re [] [u, v @ [NEWLINE]] = Ok (matching re [v])" using assms by simp
  then show ?thesis using grep_ok [of "[]" _ re] by auto
qed

theorem grep_writes_matching_lines_witness:
  "grep [CARET, 97, DOT, STAR, 98, DOLLAR] [] [[97, 99, 98, NEWLINE], [99, NEWLINE, 97, 98, NEWLINE]] = Ok [97, 99, 98, NEWLINE, 97, 98, NEWLINE]
   \<and> grep [97, 98] [] [[97], [98, NEWLINE]] = Ok []"
proof -
  let ?re = "[CARET, 97, DOT, STAR, 98, DOLLAR] :: uchar list" and ?r = "[[97, 99, 98, NEWLINE], [99, NEWLINE, 97, 98, NEWLINE]] :: uchar list list"
  note G = grep_writes_matching_lines [where u = "[97]" and v = "[98]"]
  have "grep ?re [] ?r = Ok (matching ?re (fst (split_lines [] (concat ?r))))"
    by (rule G [THEN conjunct1, THEN spec, THEN mp]) (simp_all del: grep.simps)
  moreover have "grep [97, 98] [] [[97], [98] @ [NEWLINE]] = Ok (matching [97, 98] [[98]])"
    by (rule G [THEN conjunct2]) simp_all
  moreover have "matching ?re (fst (split_lines [] (concat ?r))) = [97, 99, 98, NEWLINE, 97, 98, NEWLINE]" "matching [97, 98] [[98]] = []"
    by (simp_all add: matching_def match_def char_at_def matchhere.simps matchstar.simps)
  ultimately show ?thesis by (simp only: append.simps simp_thms)
qed

end
