(* ===== verification/Printf.thy ===== *)
theory Printf
  imports Cstring
begin

text \<open>
  Formatted output: \<open>printf\<close> of the user library (printf.c) and \<open>cprintf\<close> of the kernel (console.c),
  with the conversion of integers that both have. A format is the list of its characters before the
  terminator; \<open>args\<close> are the words on the stack behind the format, \<open>str\<close> gives the C string at an
  address. The result is the sequence of characters that \<open>putc\<close> or \<open>consputc\<close> gets.
\<close>

section \<open>Operations\<close>

abbreviation (input) PERCENT :: uchar where "PERCENT \<equiv> 37"
abbreviation (input) MINUS :: uchar where "MINUS \<equiv> 45"

text \<open>The entry \<open>d\<close> of \<open>digits\<close>, which is \<open>0123456789ABCDEF\<close> in printf.c and in lower case in console.c.\<close>

definition digit :: "bool \<Rightarrow> nat \<Rightarrow> uchar" where
  "digit upper d = of_nat (if d < 10 then 48 + d else if upper then 55 + d else 87 + d)"

text \<open>The loop that fills \<open>buf[16]\<close> from the last digit on; writing behind the buffer is a fault.\<close>

function digit_loop :: "bool \<Rightarrow> nat \<Rightarrow> nat \<Rightarrow> uchar list \<Rightarrow> uchar list result" where
  "digit_loop upper b x buf =
     (if b = 0 then Err (Fault ''divide'')
      else if length buf \<ge> 16 then Err (Fault ''buf'')
      else let buf = buf @ [digit upper (x mod b)] in
        if x div b \<noteq> 0 then digit_loop upper b (x div b) buf else Ok buf)"
  by pat_completeness auto
termination by (relation "measure (\<lambda>(u, b, x, buf). 16 - length buf)") auto

declare digit_loop.simps [simp del]

definition printint :: "bool \<Rightarrow> 32 word \<Rightarrow> nat \<Rightarrow> bool \<Rightarrow> uchar list result" where
  "printint upper xx b sg =
     (let neg = sg \<and> sint xx < 0 in
      rbind (if neg then rbind (int32 (- sint xx)) (\<lambda>m. Ok (nat m)) else Ok (unat xx)) (\<lambda>x.
      rbind (digit_loop upper b x []) (\<lambda>buf.
      if neg then if length buf \<ge> 16 then Err (Fault ''buf'') else Ok (rev (buf @ [MINUS]))
      else Ok (rev buf))))"

text \<open>A string argument; the null pointer prints as \<open>(null)\<close>.\<close>

definition str_arg :: "(32 word \<Rightarrow> uchar list) \<Rightarrow> 32 word \<Rightarrow> uchar list" where
  "str_arg str a = (if a = 0 then [40, 110, 117, 108, 108, 41] else str a)"

text \<open>\<open>printf\<close>; \<open>pct\<close> is \<open>state == '%'\<close>.\<close>

fun printf_loop :: "(32 word \<Rightarrow> uchar list) \<Rightarrow> bool \<Rightarrow> uchar list \<Rightarrow> 32 word list \<Rightarrow> uchar list result" where
  "printf_loop str pct [] args = Ok []"
| "printf_loop str pct (c # fmt) args =
     (if \<not> pct then
        if c = PERCENT then printf_loop str True fmt args
        else rbind (printf_loop str False fmt args) (\<lambda>out. Ok (c # out))
      else if c = 100 \<or> c = 120 \<or> c = 112 \<or> c = 115 \<or> c = 99 then
        (case args of [] \<Rightarrow> Err (Fault ''ap'')
         | a # args \<Rightarrow>
             rbind (if c = 100 then printint True a 10 True
                    else if c = 120 \<or> c = 112 then printint True a 16 False
                    else if c = 115 then Ok (str_arg str a)
                    else Ok [ucast a]) (\<lambda>o1.
             rbind (printf_loop str False fmt args) (\<lambda>out. Ok (o1 @ out))))
      else rbind (printf_loop str False fmt args) (\<lambda>out. Ok ((if c = PERCENT then [c] else [PERCENT, c]) @ out)))"

definition printf :: "(32 word \<Rightarrow> uchar list) \<Rightarrow> uchar list \<Rightarrow> 32 word list \<Rightarrow> uchar list result" where
  "printf str fmt args = printf_loop str False fmt args"

text \<open>The loop of \<open>cprintf\<close>, which reads the character behind a percent sign at once and has no \<open>%c\<close>.\<close>

fun cprintf_loop :: "(32 word \<Rightarrow> uchar list) \<Rightarrow> uchar list \<Rightarrow> 32 word list \<Rightarrow> uchar list result" where
  "cprintf_loop str [] args = Ok []"
| "cprintf_loop str [c] args = (if c = PERCENT then Ok [] else Ok [c])"
| "cprintf_loop str (c # d # fmt) args =
     (if c \<noteq> PERCENT then rbind (cprintf_loop str (d # fmt) args) (\<lambda>out. Ok (c # out))
      else if d = 100 \<or> d = 120 \<or> d = 112 \<or> d = 115 then
        (case args of [] \<Rightarrow> Err (Fault ''argp'')
         | a # args \<Rightarrow>
             rbind (if d = 100 then printint False a 10 True
                    else if d = 120 \<or> d = 112 then printint False a 16 False
                    else Ok (str_arg str a)) (\<lambda>o1.
             rbind (cprintf_loop str fmt args) (\<lambda>out. Ok (o1 @ out))))
      else rbind (cprintf_loop str fmt args) (\<lambda>out. Ok ((if d = PERCENT then [d] else [PERCENT, d]) @ out)))"

section \<open>Digits\<close>

text \<open>The digits of \<open>x\<close>, the last one first, and their value.\<close>

function digs :: "nat \<Rightarrow> nat \<Rightarrow> nat list" where
  "digs b x = (x mod b) # (if x div b = 0 \<or> b < 2 then [] else digs b (x div b))"
  by pat_completeness auto
termination by (relation "measure snd") (auto intro!: div_less_dividend, metis div_0 gr0I)

declare digs.simps [simp del]

fun dval :: "nat \<Rightarrow> nat list \<Rightarrow> nat" where
  "dval b [] = 0"
| "dval b (d # ds) = d + b * dval b ds"

lemma dval_digs: "2 \<le> b \<Longrightarrow> dval b (digs b x) = x"
proof (induction b x rule: digs.induct)
  case (1 b x)
  then show ?case by (subst digs.simps) (auto simp: div_eq_0_iff)
qed

lemma digs_bound: "2 \<le> b \<Longrightarrow> d \<in> set (digs b x) \<Longrightarrow> d < b"
proof (induction b x rule: digs.induct)
  case (1 b x)
  then show ?case by (subst (asm) digs.simps) (auto split: if_splits)
qed

lemma digs_length: "2 \<le> b \<Longrightarrow> x < b ^ Suc n \<Longrightarrow> length (digs b x) \<le> Suc n"
proof (induction n arbitrary: x)
  case 0
  then show ?case by (subst digs.simps) simp
next
  case (Suc n)
  then have "length (digs b (x div b)) \<le> Suc n" using Suc.IH [of "x div b"] by (simp add: less_mult_imp_div_less mult.commute)
  then show ?case by (subst digs.simps) simp
qed

lemma digit_loop_digs:
  "2 \<le> b \<Longrightarrow> length buf + length (digs b x) \<le> 16 \<Longrightarrow> digit_loop u b x buf = Ok (buf @ map (digit u) (digs b x))"
proof (induction b x arbitrary: buf rule: digs.induct)
  case (1 b x)
  have "length buf < 16" using 1(3) by (subst (asm) digs.simps) simp
  moreover have "digit_loop u b (x div b) (buf @ [digit u (x mod b)]) = Ok ((buf @ [digit u (x mod b)]) @ map (digit u) (digs b (x div b)))" if "x div b \<noteq> 0"
    using 1 that by (intro 1(1)) (auto simp: digs.simps [of b x])
  ultimately show ?case using 1(2) by (subst digit_loop.simps) (auto simp: digs.simps [of b x])
qed

text \<open>
  \<open>atoi\<close> on digits, the first one first. The operations are done from left to right, so the last
  one but one computes the value of the number plus 48, the code of the digit zero.
\<close>

lemma digit_code:
  assumes "d < 10"
  shows "48 \<le> digit u d" "digit u d \<le> 57" "uint (digit u d) = 48 + int d"
proof -
  have "d = 0 \<or> d = 1 \<or> d = 2 \<or> d = 3 \<or> d = 4 \<or> d = 5 \<or> d = 6 \<or> d = 7 \<or> d = 8 \<or> d = 9" using assms by presburger
  then show "48 \<le> digit u d" "digit u d \<le> 57" "uint (digit u d) = 48 + int d" by (elim disjE; simp add: digit_def)+
qed

lemma atoi_digit:
  assumes "d < 10" "0 \<le> n"
  shows "atoi_loop (digit u d # t) n = (if n * 10 + int d + 48 < 2 ^ 31 then atoi_loop t (n * 10 + int d) else Err (Fault ''overflow''))"
  using assms digit_code [OF assms(1), of u] by (auto simp: int32_def)

lemma atoi_digits:
  "(\<And>d. d \<in> set ds \<Longrightarrow> d < 10) \<Longrightarrow> int (dval 10 ds) + 48 < 2 ^ 31 \<Longrightarrow> atoi_loop (map (digit u) (rev ds) @ t) 0 = atoi_loop t (int (dval 10 ds))"
proof (induction ds arbitrary: t)
  case (Cons d ds)
  have "atoi_loop (map (digit u) (rev (d # ds)) @ t) 0 = atoi_loop (digit u d # t) (int (dval 10 ds))"
    using Cons.IH [of "digit u d # t"] Cons.prems by simp
  then show ?case using atoi_digit [of d "int (dval 10 ds)" u t] Cons.prems by (simp add: algebra_simps)
qed simp

lemma atoi_limit: "int n + 48 < 2 ^ 31 \<longleftrightarrow> n < 2147483600"
  by auto

lemma atoi_printed:
  assumes "x < 2 ^ 32"
  shows "atoi (map (digit u) (rev (digs 10 x)) @ [0]) = (if int x + 48 < 2 ^ 31 then Ok (int x) else Err (Fault ''overflow''))"
proof (cases "int x + 48 < 2 ^ 31")
  case True
  have "atoi_loop (map (digit u) (rev (digs 10 x)) @ [0]) 0 = atoi_loop [0] (int (dval 10 (digs 10 x)))"
    by (rule atoi_digits) (use True digs_bound dval_digs in simp_all)
  then show ?thesis using True dval_digs [of 10 x] by (simp add: atoi_def)
next
  case False
  then have e: "digs 10 x = x mod 10 # digs 10 (x div 10)" by (subst digs.simps) auto
  have "atoi_loop (map (digit u) (rev (digs 10 (x div 10))) @ [digit u (x mod 10), 0]) 0 = atoi_loop [digit u (x mod 10), 0] (int (dval 10 (digs 10 (x div 10))))"
    by (rule atoi_digits) (use assms digs_bound dval_digs in simp_all)
  moreover have "int (x div 10) * 10 + int (x mod 10) = int x" by presburger
  ultimately show ?thesis using atoi_digit [of "x mod 10" "int (x div 10)" u "[0]"] False dval_digs [of 10 "x div 10"] by (simp add: atoi_def e)
qed

section \<open>What is printed\<close>

lemma printint_unsigned:
  assumes b: "b = 10 \<or> b = 16"
  shows "printint u xx b False = Ok (map (digit u) (rev (digs b (unat xx))))" "length (digs b (unat xx)) \<le> 10"
proof -
  have x: "unat xx < 2 ^ 32" using unsigned_less [of xx] by simp
  have "unat xx < b ^ Suc 9" using x b by auto
  then show l: "length (digs b (unat xx)) \<le> 10" using digs_length [of b "unat xx" 9] b by auto
  then show "printint u xx b False = Ok (map (digit u) (rev (digs b (unat xx))))"
    using digit_loop_digs [of b "[]" "unat xx" u] b by (auto simp: printint_def Let_def rev_map)
qed

lemma printint_signed:
  assumes "sint xx \<noteq> - (2 ^ 31)"
  shows "printint u xx 10 True = Ok ((if sint xx < 0 then [MINUS] else []) @ map (digit u) (rev (digs 10 (nat \<bar>sint xx\<bar>))))"
    "length (digs 10 (nat \<bar>sint xx\<bar>)) \<le> 10" "nat \<bar>sint xx\<bar> < 2 ^ 31"
proof -
  have r: "- (2 ^ 31) \<le> sint xx" "sint xx < 2 ^ 31" using sint_ge [of xx] sint_lt [of xx] by simp_all
  then show b: "nat \<bar>sint xx\<bar> < 2 ^ 31" using assms by auto
  then show l: "length (digs 10 (nat \<bar>sint xx\<bar>)) \<le> 10" by (intro digs_length [of 10 _ 9, simplified]) simp_all
  have "unat xx = nat (sint xx)" if "0 \<le> sint xx" using that r uint_sint [of xx] by (simp add: unat_eq_nat_uint take_bit_int_eq_self)
  then show "printint u xx 10 True = Ok ((if sint xx < 0 then [MINUS] else []) @ map (digit u) (rev (digs 10 (nat \<bar>sint xx\<bar>))))"
    using digit_loop_digs [of 10 "[]" "nat \<bar>sint xx\<bar>" u] l r assms by (auto simp: printint_def Let_def rev_map int32_def)
qed

section \<open>Properties\<close>

text \<open>
  C37. Numbers survive printing. For every 32-bit value the unsigned decimal and hexadecimal output is
  produced within the buffer of 16 characters, and the signed output for every value but the least
  \<open>int\<close>, whose negation is undefined; a negative number is a minus and its magnitude. \<open>atoi\<close> gives the
  value of the decimal digits back as long as it is below 2147483600; from there on its signed
  arithmetic, which adds the code of the digit before it subtracts 48, is undefined. The hexadecimal
  digits have the value of the argument.\<close>

theorem printint_atoi_roundtrip:
  "\<exists>dec hex. printint u xx 10 False = Ok dec \<and> length dec \<le> 10
     \<and> atoi (dec @ [0]) = (if unat xx < 2147483600 then Ok (int (unat xx)) else Err (Fault ''overflow''))
     \<and> (if sint xx = - (2 ^ 31) then printint u xx 10 True = Err (Fault ''overflow'')
        else \<exists>sdec. printint u xx 10 True = Ok ((if sint xx < 0 then [MINUS] else []) @ sdec) \<and> length sdec \<le> 10
          \<and> atoi (sdec @ [0]) = (if \<bar>sint xx\<bar> < 2147483600 then Ok \<bar>sint xx\<bar> else Err (Fault ''overflow'')))
     \<and> printint u xx 16 False = Ok (map (digit u) (rev hex)) \<and> length hex \<le> 10 \<and> set hex \<subseteq> {..<16} \<and> dval 16 hex = unat xx"
proof -
  have x: "unat xx < 2 ^ 32" using unsigned_less [of xx] by simp
  have A: "atoi (map (digit u) (rev (digs 10 (unat xx))) @ [0]) = (if unat xx < 2147483600 then Ok (int (unat xx)) else Err (Fault ''overflow''))"
    using atoi_printed [OF x, of u] unfolding atoi_limit .
  have S: "if sint xx = - (2 ^ 31) then printint u xx 10 True = Err (Fault ''overflow'')
      else \<exists>sdec. printint u xx 10 True = Ok ((if sint xx < 0 then [MINUS] else []) @ sdec) \<and> length sdec \<le> 10
        \<and> atoi (sdec @ [0]) = (if \<bar>sint xx\<bar> < 2147483600 then Ok \<bar>sint xx\<bar> else Err (Fault ''overflow''))"
  proof (cases "sint xx = - (2 ^ 31)")
    case True
    then show ?thesis by (simp add: printint_def int32_def)
  next
    case False
    show ?thesis unfolding if_not_P [OF False] using printint_signed [OF False] atoi_printed [of "nat \<bar>sint xx\<bar>" u]
      by (intro exI [of _ "map (digit u) (rev (digs 10 (nat \<bar>sint xx\<bar>)))"]) auto
  qed
  have H: "set (digs 16 (unat xx)) \<subseteq> {..<16}" "dval 16 (digs 16 (unat xx)) = unat xx"
    using digs_bound [of 16 _ "unat xx"] dval_digs [of 16 "unat xx"] by auto
  have l: "length (map (digit u) (rev (digs 10 (unat xx)))) \<le> 10" using printint_unsigned(2) [of 10 xx] by simp
  show ?thesis
    using printint_unsigned(1) [where b = 10 and u = u and xx = xx] printint_unsigned(1) [where b = 16 and u = u and xx = xx]
      printint_unsigned(2) [where b = 16 and xx = xx] A S H l by blast
qed

end
