(* ===== verification/Console.thy ===== *)
theory Console
  imports Pipe Printf
begin

text \<open>
  The console, console.c: output to the screen and the serial line, and the input buffer with its
  line editing. The screen is the memory at \<open>crt\<close>, 25 rows of 80 cells, with the position of the
  cursor that the controller keeps; the serial line is the list of the characters sent. A character
  is an \<open>int\<close>, where \<open>BACKSPACE\<close> stands for none of the 256.
\<close>

section \<open>State\<close>

abbreviation (input) BACKSPACE :: nat where "BACKSPACE \<equiv> 0x100"
abbreviation (input) INPUT_BUF :: nat where "INPUT_BUF \<equiv> 128"
abbreviation (input) EOT :: uchar where "EOT \<equiv> 4"
abbreviation (input) NL :: uchar where "NL \<equiv> 10"

record consst = fsst +
  con_locking :: bool
  con_panicked :: bool
  con_pos :: nat
  con_crt :: "16 word list"
  con_uart :: "nat list"
  in_buf :: "uchar list"
  in_r :: "32 word"
  in_w :: "32 word"
  in_e :: "32 word"

section \<open>Output\<close>

text \<open>A store outside the 25 rows is a fault.\<close>

definition put_cell16 :: "16 word list \<Rightarrow> nat \<Rightarrow> 16 word \<Rightarrow> 16 word list result" where
  "put_cell16 crt i x = (if i < length crt then Ok (crt[i := x]) else Err (Fault ''crt''))"

definition scroll :: "nat \<Rightarrow> 16 word list \<Rightarrow> nat \<times> 16 word list" where
  "scroll pos crt =
     (let crt = blit crt 0 (slice crt 80 (23 * 80)); pos = pos - 80
      in (pos, blit crt pos (replicate (24 * 80 - pos) 0)))"

definition cgaputc :: "nat \<Rightarrow> nat \<times> 16 word list \<Rightarrow> (nat \<times> 16 word list) result" where
  "cgaputc c scr = (case scr of (pos, crt) \<Rightarrow>
     rbind (if c = 10 then Ok (pos + (80 - pos mod 80), crt)
            else if c = BACKSPACE then Ok (if pos > 0 then pos - 1 else pos, crt)
            else rbind (put_cell16 crt pos (of_nat (c mod 256) OR 0x0700)) (\<lambda>crt. Ok (pos + 1, crt))) (\<lambda>(pos, crt).
     if pos > 25 * 80 then Err (Panic ''pos under/overflow'')
     else let (pos, crt) = (if pos div 80 \<ge> 24 then scroll pos crt else (pos, crt)) in
       rbind (put_cell16 crt pos (0x20 OR 0x0700)) (\<lambda>crt. Ok (pos, crt))))"

text \<open>After a panic every CPU that prints stops.\<close>

definition consputc :: "nat \<Rightarrow> 'a consst_scheme \<Rightarrow> 'a consst_scheme result" where
  "consputc c s =
     (if con_panicked s then Err (Fault ''halted'')
      else rbind (cgaputc c (con_pos s, con_crt s)) (\<lambda>(pos, crt).
        Ok (s\<lparr>con_uart := con_uart s @ (if c = BACKSPACE then [8, 32, 8] else [c]), con_pos := pos, con_crt := crt\<rparr>)))"

definition cons_puts :: "uchar list \<Rightarrow> 'a consst_scheme \<Rightarrow> 'a consst_scheme result" where
  "cons_puts = rfold (\<lambda>c. consputc (unat c))"

definition cprintf :: "(32 word \<Rightarrow> uchar list) \<Rightarrow> uchar list \<Rightarrow> 32 word list \<Rightarrow> 'a consst_scheme \<Rightarrow> 'a consst_scheme result" where
  "cprintf str fmt args s =
     (let locking = con_locking s in
      rbind (if locking then acquire ConsLock s else Ok s) (\<lambda>s.
      rbind (cprintf_loop str fmt args) (\<lambda>out.
      rbind (cons_puts out s) (\<lambda>s.
      if locking then release ConsLock s else Ok s))))"

definition consolewrite :: "nat \<Rightarrow> uchar list \<Rightarrow> 'a consst_scheme \<Rightarrow> (int \<times> 'a consst_scheme) result" where
  "consolewrite ip bs s =
     rbind (iunlock ip s) (\<lambda>s.
     rbind (acquire ConsLock s) (\<lambda>s.
     rbind (cons_puts bs s) (\<lambda>s.
     rbind (release ConsLock s) (\<lambda>s.
     rbind (ilock ip s) (\<lambda>s. Ok (int (length bs), s))))))"

section \<open>Input\<close>

abbreviation in_at :: "'a consst_scheme \<Rightarrow> 32 word \<Rightarrow> uchar" where
  "in_at s i \<equiv> in_buf s ! (unat i mod INPUT_BUF)"

text \<open>Control-U: \<open>n\<close> bounds the number of characters that can be deleted.\<close>

fun kill_line :: "nat \<Rightarrow> 'a consst_scheme \<Rightarrow> 'a consst_scheme result" where
  "kill_line 0 s = (if in_e s \<noteq> in_w s \<and> in_at s (in_e s - 1) \<noteq> NL then Err (Fault ''endless line'') else Ok s)"
| "kill_line (Suc n) s = (if in_e s \<noteq> in_w s \<and> in_at s (in_e s - 1) \<noteq> NL
     then rbind (consputc BACKSPACE (s\<lparr>in_e := in_e s - 1\<rparr>)) (kill_line n) else Ok s)"

text \<open>One character of the keyboard or the serial line; the second component asks for \<open>procdump\<close>.\<close>

definition cons_key :: "uchar \<Rightarrow> 'a consst_scheme \<times> bool \<Rightarrow> ('a consst_scheme \<times> bool) result" where
  "cons_key c sd = (case sd of (s, dump) \<Rightarrow>
     if c = 16 then Ok (s, True)
     else if c = 21 then rbind (kill_line INPUT_BUF s) (\<lambda>s. Ok (s, dump))
     else if c = 8 \<or> c = 127 then
       if in_e s \<noteq> in_w s then rbind (consputc BACKSPACE (s\<lparr>in_e := in_e s - 1\<rparr>)) (\<lambda>s. Ok (s, dump)) else Ok (s, dump)
     else if c \<noteq> 0 \<and> unat (in_e s - in_r s) < INPUT_BUF then
       let c = (if c = 13 then NL else c);
           s = s\<lparr>in_buf := (in_buf s)[unat (in_e s) mod INPUT_BUF := c], in_e := in_e s + 1\<rparr> in
       rbind (consputc (unat c) s) (\<lambda>s.
       if c = NL \<or> c = EOT \<or> in_e s = in_r s + of_nat INPUT_BUF
       then rbind (wakeup ChanInput (s\<lparr>in_w := in_e s\<rparr>)) (\<lambda>s. Ok (s, dump))
       else Ok (s, dump))
     else Ok (s, dump))"

text \<open>The handler, with the characters that \<open>getc\<close> returns before it has no more.\<close>

definition consoleintr :: "('a consst_scheme \<Rightarrow> 'a consst_scheme result) \<Rightarrow> uchar list \<Rightarrow> 'a consst_scheme \<Rightarrow> 'a consst_scheme result" where
  "consoleintr procdump cs s =
     rbind (acquire ConsLock s) (\<lambda>s.
     rbind (rfold cons_key cs (s, False)) (\<lambda>(s, dump).
     rbind (release ConsLock s) (\<lambda>s.
     if dump then procdump s else Ok s)))"

text \<open>
  The loop of \<open>consoleread\<close>: \<open>n\<close> characters are still wanted and \<open>acc\<close> has been stored at \<open>dst\<close>.
\<close>

fun consoleread_loop :: "nat \<Rightarrow> nat \<Rightarrow> nat \<Rightarrow> uchar list \<Rightarrow> 'a consst_scheme \<Rightarrow> ((int \<times> uchar list, nat \<times> uchar list) run \<times> 'a consst_scheme) result" where
  "consoleread_loop ip target 0 acc s =
     rbind (release ConsLock s) (\<lambda>s. rbind (ilock ip s) (\<lambda>s. Ok (Done (int target, acc), s)))"
| "consoleread_loop ip target (Suc n) acc s =
     (if in_r s = in_w s then
        rbind (cur_killed s) (\<lambda>k.
        if k then rbind (release ConsLock s) (\<lambda>s. rbind (ilock ip s) (\<lambda>s. Ok (Done (-1, acc), s)))
        else rbind (sleep_enter ChanInput ConsLock s) (\<lambda>s. Ok (Blocked (Suc n, acc), s)))
      else
        let c = in_at s (in_r s); s1 = s\<lparr>in_r := in_r s + 1\<rparr> in
        if c = EOT then
          let s2 = (if Suc n < target then s1\<lparr>in_r := in_r s1 - 1\<rparr> else s1) in
          rbind (release ConsLock s2) (\<lambda>s. rbind (ilock ip s) (\<lambda>s. Ok (Done (int target - int (Suc n), acc), s)))
        else if c = NL then
          rbind (release ConsLock s1) (\<lambda>s. rbind (ilock ip s) (\<lambda>s. Ok (Done (int target - int n, acc @ [c]), s)))
        else consoleread_loop ip target n (acc @ [c]) s1)"

definition consoleread :: "nat \<Rightarrow> nat \<Rightarrow> 'a consst_scheme \<Rightarrow> ((int \<times> uchar list, nat \<times> uchar list) run \<times> 'a consst_scheme) result" where
  "consoleread ip n s = rbind (iunlock ip s) (\<lambda>s. rbind (acquire ConsLock s) (consoleread_loop ip n n []))"

definition consoleread_resume :: "nat \<Rightarrow> nat \<Rightarrow> nat \<times> uchar list \<Rightarrow> 'a consst_scheme \<Rightarrow> ((int \<times> uchar list, nat \<times> uchar list) run \<times> 'a consst_scheme) result" where
  "consoleread_resume ip target k s = rbind (sleep_leave ConsLock s) (consoleread_loop ip target (fst k) (snd k))"

section \<open>The screen\<close>

text \<open>The cursor stays on the screen, so that no store of \<open>cgaputc\<close> misses the memory of the screen.\<close>

abbreviation screen_ok :: "nat \<Rightarrow> 16 word list \<Rightarrow> bool" where
  "screen_ok pos crt \<equiv> pos < 25 * 80 \<and> length crt = 25 * 80"

lemma scroll_ok:
  assumes "24 * 80 \<le> pos" "pos \<le> 25 * 80" "length crt = 25 * 80"
  shows "fst (scroll pos crt) = pos - 80" "length (snd (scroll pos crt)) = 25 * 80"
  using assms by (simp_all add: scroll_def Let_def)

lemma next_row:
  assumes "(pos :: nat) < 25 * 80"
  shows "pos + (80 - pos mod 80) \<le> 25 * 80"
proof -
  have "pos div 80 < 25" using assms by (simp add: less_mult_imp_div_less)
  moreover have "pos = 80 * (pos div 80) + pos mod 80" "pos mod 80 < 80" by simp_all
  ultimately show ?thesis by linarith
qed

text \<open>The second half of \<open>cgaputc\<close>, from the check of the position on.\<close>

lemma cgaputc_show:
  assumes "pos \<le> 25 * 80" "length crt = 25 * 80"
  shows "\<exists>pos' crt'. (if pos > 25 * 80 then Err (Panic ''pos under/overflow'')
      else let (pos, crt) = (if pos div 80 \<ge> 24 then scroll pos crt else (pos, crt)) in
        rbind (put_cell16 crt pos x) (\<lambda>crt. Ok (pos, crt))) = Ok (pos', crt') \<and> screen_ok pos' crt'"
proof (cases "pos div 80 \<ge> 24")
  case True
  then have "24 * 80 \<le> pos" by linarith
  note S = scroll_ok [OF this assms]
  obtain pos' crt' where e: "scroll pos crt = (pos', crt')" by (cases "scroll pos crt")
  then have "pos' < 25 * 80" "length crt' = 25 * 80" using S assms by auto
  then show ?thesis using True assms e by (simp add: put_cell16_def)
next
  case False
  then show ?thesis using assms by (simp add: put_cell16_def)
qed

lemma cgaputc_ok:
  assumes "screen_ok pos crt"
  shows "\<exists>pos' crt'. cgaputc c (pos, crt) = Ok (pos', crt') \<and> screen_ok pos' crt'"
proof -
  define t where "t = crt[pos := of_nat (c mod 256) OR 0x0700]"
  consider "c = 10" | "c \<noteq> 10" "c = BACKSPACE" | "c \<noteq> 10" "c \<noteq> BACKSPACE" by blast
  then show ?thesis
  proof cases
    case 1
    show ?thesis unfolding cgaputc_def prod.case if_P [OF 1] rbind.simps
      by (rule cgaputc_show) (use assms next_row in blast)+
  next
    case 2
    show ?thesis unfolding cgaputc_def prod.case if_P [OF 2(2)] if_not_P [OF 2(1)] rbind.simps
      by (rule cgaputc_show) (use assms in auto)
  next
    case 3
    have "put_cell16 crt pos (of_nat (c mod 256) OR 0x0700) = Ok t" using assms by (simp add: put_cell16_def t_def)
    then show ?thesis unfolding cgaputc_def prod.case if_not_P [OF 3(1)] if_not_P [OF 3(2)]
      by (simp only: rbind.simps prod.case, intro cgaputc_show) (use assms in \<open>simp_all add: t_def\<close>)
  qed
qed

definition echo :: "nat \<Rightarrow> nat list" where
  "echo c = (if c = BACKSPACE then [8, 32, 8] else [c])"

abbreviation output_ok :: "'a consst_scheme \<Rightarrow> bool" where
  "output_ok s \<equiv> \<not> con_panicked s \<and> screen_ok (con_pos s) (con_crt s)"

lemma consputc_ok:
  assumes "output_ok s"
  shows "\<exists>pos crt. consputc c s = Ok (s\<lparr>con_uart := con_uart s @ echo c, con_pos := pos, con_crt := crt\<rparr>) \<and> screen_ok pos crt"
proof -
  obtain pos crt where "cgaputc c (con_pos s, con_crt s) = Ok (pos, crt)" "screen_ok pos crt" using cgaputc_ok assms by blast
  then show ?thesis using assms by (intro exI [of _ pos] exI [of _ crt]) (simp add: consputc_def echo_def)
qed

section \<open>The input buffer as a line editor\<close>

text \<open>
  The ring holds the characters that were read up to \<open>w\<close>, which \<open>consoleread\<close> may take, and the line
  that is still being edited from there up to \<open>e\<close>.
\<close>

definition in_ring :: "uchar list \<Rightarrow> 32 word \<Rightarrow> nat \<Rightarrow> uchar list" where
  "in_ring buf r n = map (\<lambda>k. buf ! ((unat r + k) mod INPUT_BUF)) [0..<n]"

abbreviation in_count :: "'a consst_scheme \<Rightarrow> nat" where "in_count s \<equiv> unat (in_e s - in_r s)"
abbreviation in_ready :: "'a consst_scheme \<Rightarrow> nat" where "in_ready s \<equiv> unat (in_w s - in_r s)"

definition committed :: "'a consst_scheme \<Rightarrow> uchar list" where
  "committed s = take (in_ready s) (in_ring (in_buf s) (in_r s) (in_count s))"

definition edited :: "'a consst_scheme \<Rightarrow> uchar list" where
  "edited s = drop (in_ready s) (in_ring (in_buf s) (in_r s) (in_count s))"

definition ring_ok :: "'a consst_scheme \<Rightarrow> bool" where
  "ring_ok s \<longleftrightarrow> length (in_buf s) = INPUT_BUF \<and> in_ready s \<le> in_count s \<and> in_count s \<le> INPUT_BUF"

definition input_ok :: "'a consst_scheme \<Rightarrow> bool" where
  "input_ok s \<longleftrightarrow> ring_ok s \<and> NL \<notin> set (edited s)"

lemma length_in_ring [simp]: "length (in_ring buf r n) = n"
  by (simp add: in_ring_def)

lemma unat_input: "unat (r + of_nat k :: 32 word) mod INPUT_BUF = (unat r + k) mod INPUT_BUF"
  by (simp add: unat_word_ariths unat_of_nat mod_mod_cancel mod_add_right_eq)

lemma in_ring_end: "unat (e - r) = n \<Longrightarrow> unat e mod INPUT_BUF = (unat r + n) mod INPUT_BUF" for e r :: "32 word"
  using unat_input [of r "unat (e - r)"] by auto

lemma in_ring_snoc: "in_ring buf r (Suc n) = in_ring buf r n @ [buf ! ((unat r + n) mod INPUT_BUF)]"
  by (simp add: in_ring_def)

lemma in_ring_store:
  assumes "n < INPUT_BUF" "length buf = INPUT_BUF"
  shows "in_ring (buf[(unat r + n) mod INPUT_BUF := c]) r (Suc n) = in_ring buf r n @ [c]"
proof -
  have "(unat r + k) mod INPUT_BUF \<noteq> (unat r + n) mod INPUT_BUF" if "k < n" for k
  proof
    assume "(unat r + k) mod INPUT_BUF = (unat r + n) mod INPUT_BUF"
    then have "INPUT_BUF dvd n - k" using mod_eq_dvd_iff_nat [of "unat r + k" "unat r + n" INPUT_BUF] that by simp
    then show False using dvd_imp_le [of INPUT_BUF "n - k"] that assms(1) by simp
  qed
  then have "in_ring (buf[(unat r + n) mod INPUT_BUF := c]) r n = in_ring buf r n"
    unfolding in_ring_def by (intro map_cong refl) (metis atLeastLessThan_iff nth_list_update_neq set_upt)
  then show ?thesis using assms by (simp add: in_ring_snoc)
qed

lemma in_ring_Cons: "in_ring buf r (Suc n) = buf ! (unat r mod INPUT_BUF) # in_ring buf (r + 1) n"
proof -
  have "(unat (r + 1) + k) mod INPUT_BUF = (unat r + Suc k) mod INPUT_BUF" for k
    using unat_input [of "r + 1" k] unat_input [of r "Suc k"] by (simp add: ac_simps)
  then show ?thesis unfolding in_ring_def by (simp add: upt_conv_Cons map_Suc_upt [symmetric] comp_def del: upt_Suc)
qed

lemma committed_edited: "committed s @ edited s = in_ring (in_buf s) (in_r s) (in_count s)"
  by (simp add: committed_def edited_def)

lemma input_lengths:
  assumes "ring_ok s"
  shows "length (committed s) = in_ready s" "length (edited s) = in_count s - in_ready s" "length (committed s) + length (edited s) = in_count s"
  using assms by (auto simp: committed_def edited_def ring_ok_def)

lemma edited_empty_iff:
  assumes "ring_ok s"
  shows "edited s = [] \<longleftrightarrow> in_e s = in_w s"
proof -
  have "edited s = [] \<longleftrightarrow> in_count s = in_ready s" using assms by (auto simp: edited_def ring_ok_def)
  then show ?thesis by (simp add: word_unat_eq_iff [symmetric])
qed

lemma committed_empty_iff: "ring_ok s \<Longrightarrow> committed s = [] \<longleftrightarrow> in_r s = in_w s"
  using input_lengths(1) [of s] by (auto simp: unat_eq_0)

text \<open>The three ways in which the indices move: a character more, a character less, and the line committed.\<close>

lemma store_char:
  fixes s :: "'a consst_scheme" and c :: uchar
  assumes ok: "ring_ok s" and n: "in_count s < INPUT_BUF"
  defines "s' \<equiv> s\<lparr>in_buf := (in_buf s)[unat (in_e s) mod INPUT_BUF := c], in_e := in_e s + 1\<rparr>"
  shows "ring_ok s'" "committed s' = committed s" "edited s' = edited s @ [c]"
proof -
  have c: "in_count s' = Suc (in_count s)" using n unat_minus_succ(1) [of "in_e s" "in_r s"] by (simp add: s'_def)
  show "ring_ok s'" using ok n c by (auto simp: ring_ok_def s'_def)
  have "in_ring (in_buf s') (in_r s) (Suc (in_count s)) = in_ring (in_buf s) (in_r s) (in_count s) @ [c]"
    using in_ring_store [OF n, of "in_buf s" "in_r s" c] ok by (simp add: s'_def in_ring_end [OF refl, of "in_e s" "in_r s"] ring_ok_def)
  then show "committed s' = committed s" "edited s' = edited s @ [c]"
    using ok c by (simp_all add: committed_def edited_def ring_ok_def, simp_all add: s'_def)
qed

lemma erase_char:
  fixes s :: "'a consst_scheme"
  assumes ok: "input_ok s" and n: "in_e s \<noteq> in_w s"
  defines "s' \<equiv> s\<lparr>in_e := in_e s - 1\<rparr>"
  shows "input_ok s'" "committed s' = committed s" "edited s' = butlast (edited s)" "in_at s (in_e s - 1) \<noteq> NL"
proof -
  have r: "ring_ok s" using ok by (simp add: input_ok_def)
  have lt: "in_ready s < in_count s" using r edited_empty_iff [OF r] n by (auto simp: edited_def ring_ok_def)
  then have "in_e s - in_r s \<noteq> 0" by auto
  then have m: "unat (in_e s - in_r s - 1) = in_count s - 1" by (rule unat_minus_one)
  have "in_count s' = unat (in_e s - 1 - in_r s)" by (simp add: s'_def)
  also have "in_e s - 1 - in_r s = in_e s - in_r s - 1" by (simp add: algebra_simps)
  finally have c: "in_count s' = in_count s - 1" unfolding m .
  have at: "in_at s (in_e s - 1) = in_buf s ! ((unat (in_r s) + (in_count s - 1)) mod INPUT_BUF)"
    using in_ring_end [OF c [unfolded s'_def, simplified]] by simp
  have sn: "in_ring (in_buf s) (in_r s) (in_count s) = in_ring (in_buf s) (in_r s) (in_count s - 1) @ [in_at s (in_e s - 1)]"
    using in_ring_snoc [of "in_buf s" "in_r s" "in_count s - 1"] lt by (simp add: at)
  have e: "edited s = drop (in_ready s) (in_ring (in_buf s) (in_r s) (in_count s - 1)) @ [in_at s (in_e s - 1)]"
    unfolding edited_def sn using lt by simp
  have cs: "committed s' = take (in_ready s) (in_ring (in_buf s) (in_r s) (in_count s - 1))"
      "edited s' = drop (in_ready s) (in_ring (in_buf s) (in_r s) (in_count s - 1))"
    using c by (simp_all add: committed_def edited_def s'_def)
  show c': "committed s' = committed s" unfolding cs committed_def [of s] sn using lt by simp
  show e': "edited s' = butlast (edited s)" unfolding e cs by simp
  show "in_at s (in_e s - 1) \<noteq> NL" using ok e by (auto simp: input_ok_def)
  have "ring_ok s'" using r lt c by (auto simp: ring_ok_def s'_def)
  then show "input_ok s'" using ok e' in_set_butlastD [of NL "edited s"] by (auto simp: input_ok_def)
qed

lemma commit_line:
  fixes s :: "'a consst_scheme"
  assumes "ring_ok s"
  defines "s' \<equiv> s\<lparr>in_w := in_e s\<rparr>"
  shows "input_ok s'" "committed s' = committed s @ edited s" "edited s' = []"
  using assms committed_edited [of s] by (simp_all add: input_ok_def ring_ok_def committed_def edited_def)

lemma take_char:
  fixes s :: "'a consst_scheme"
  assumes ok: "input_ok s" and n: "in_r s \<noteq> in_w s"
  defines "s' \<equiv> s\<lparr>in_r := in_r s + 1\<rparr>"
  shows "input_ok s'" "committed s = in_at s (in_r s) # committed s'" "edited s' = edited s"
proof -
  have r: "ring_ok s" using ok by (simp add: input_ok_def)
  have w: "in_ready s = Suc (in_ready s')" using unat_minus_succ(2) [of "in_w s" "in_r s"] n by (simp add: s'_def)
  have ne: "in_e s \<noteq> in_r s" using w r by (auto simp: ring_ok_def)
  have e: "in_count s = Suc (in_count s')" using unat_minus_succ(2) [of "in_e s" "in_r s"] ne by (simp add: s'_def)
  have cs: "committed s' = take (in_ready s') (in_ring (in_buf s) (in_r s + 1) (in_count s'))"
      "edited s' = drop (in_ready s') (in_ring (in_buf s) (in_r s + 1) (in_count s'))"
    by (simp_all add: committed_def edited_def s'_def)
  show "committed s = in_at s (in_r s) # committed s'" and ed: "edited s' = edited s"
    unfolding cs committed_def [of s] edited_def [of s] w e in_ring_Cons by simp_all
  have "ring_ok s'" using r w e by (auto simp: ring_ok_def s'_def)
  then show "input_ok s'" using ok ed by (simp add: input_ok_def)
qed

text \<open>
  The specification of the editor. Its state is the committed text, the line being edited and what was
  sent to the serial line. Control-U deletes the line, Backspace and Delete its last character; any other
  character is appended when fewer than 128 characters are in store, and the line is committed by a
  newline, by Control-D and when the store is full.
\<close>

type_synonym editor = "uchar list \<times> uchar list \<times> nat list"

definition edit_key :: "uchar \<Rightarrow> editor \<Rightarrow> editor" where
  "edit_key c ed = (case ed of (q, l, out) \<Rightarrow>
     if c = 16 then (q, l, out)
     else if c = 21 then (q, [], out @ concat (replicate (length l) (echo BACKSPACE)))
     else if c = 8 \<or> c = 127 then (q, butlast l, if l = [] then out else out @ echo BACKSPACE)
     else if c \<noteq> 0 \<and> length q + length l < INPUT_BUF then
       let c = (if c = 13 then NL else c); l = l @ [c]; out = out @ [unat c] in
       if c = NL \<or> c = EOT \<or> length q + length l = INPUT_BUF then (q @ l, [], out) else (q, l, out)
     else (q, l, out))"

definition con_abs :: "'a consst_scheme \<Rightarrow> editor" where
  "con_abs s = (committed s, edited s, con_uart s)"

definition cons_ok :: "'a consst_scheme \<Rightarrow> bool" where
  "cons_ok s \<longleftrightarrow> input_ok s \<and> output_ok s"

text \<open>What the interrupt may change: the screen, the input buffer behind \<open>r\<close>, and the sleeping processes.\<close>

definition key_frame :: "'a consst_scheme \<Rightarrow> 'a consst_scheme \<Rightarrow> bool" where
  "key_frame s s' \<longleftrightarrow> s'\<lparr>pt := pt s, con_uart := con_uart s, con_pos := con_pos s, con_crt := con_crt s,
       in_buf := in_buf s, in_w := in_w s, in_e := in_e s\<rparr> = s
     \<and> length (committed s) \<le> length (committed s')
     \<and> pt s' = (if length (committed s') = length (committed s) then pt s else wakeup1 (Some ChanInput) (pt s))"

lemma wakeup1_idem: "wakeup1 c (wakeup1 c t) = wakeup1 c t"
  by (simp add: wakeup1_def comp_def)

lemma key_frame_refl: "key_frame s s"
  by (simp add: key_frame_def)

lemma key_frame_trans:
  assumes "key_frame s s1" "key_frame s1 s2"
  shows "key_frame s s2"
proof -
  let ?u = "\<lambda>a x. x\<lparr>pt := pt a, con_uart := con_uart a, con_pos := con_pos a, con_crt := con_crt a,
       in_buf := in_buf a, in_w := in_w a, in_e := in_e a\<rparr>"
  have "?u s s2 = ?u s (?u s1 s2)" by simp
  also have "\<dots> = s" using assms by (simp only: key_frame_def)
  finally show ?thesis using assms by (auto simp: key_frame_def wakeup1_idem split: if_splits)
qed

lemma key_frameD:
  assumes "key_frame s s'"
  shows "held s' = held s" "curproc s' = curproc s" "icache s' = icache s" "in_r s' = in_r s"
proof -
  let ?u = "s'\<lparr>pt := pt s, con_uart := con_uart s, con_pos := con_pos s, con_crt := con_crt s,
       in_buf := in_buf s, in_w := in_w s, in_e := in_e s\<rparr>"
  have e: "?u = s" using assms by (simp only: key_frame_def)
  show "held s' = held s" "curproc s' = curproc s" "icache s' = icache s" "in_r s' = in_r s"
    using arg_cong [OF e, of held] arg_cong [OF e, of curproc] arg_cong [OF e, of icache] arg_cong [OF e, of in_r] by simp_all
qed

lemma committed_frame [simp]:
  "committed (s\<lparr>con_uart := u, con_pos := p, con_crt := t\<rparr>) = committed s"
  "edited (s\<lparr>con_uart := u, con_pos := p, con_crt := t\<rparr>) = edited s"
  "input_ok (s\<lparr>con_uart := u, con_pos := p, con_crt := t\<rparr>) = input_ok s"
  "committed (s\<lparr>held := h\<rparr>) = committed s" "edited (s\<lparr>held := h\<rparr>) = edited s" "input_ok (s\<lparr>held := h\<rparr>) = input_ok s"
  "committed (s\<lparr>pt := x\<rparr>) = committed s" "edited (s\<lparr>pt := x\<rparr>) = edited s" "input_ok (s\<lparr>pt := x\<rparr>) = input_ok s"
  by (simp_all add: committed_def edited_def input_ok_def ring_ok_def)

lemma consputc_key:
  assumes "input_ok s" "output_ok s"
  shows "\<exists>s'. consputc c s = Ok s' \<and> cons_ok s' \<and> con_abs s' = (committed s, edited s, con_uart s @ echo c) \<and> key_frame s s'
    \<and> in_e s' = in_e s \<and> in_w s' = in_w s \<and> in_r s' = in_r s"
proof -
  obtain pos crt where "consputc c s = Ok (s\<lparr>con_uart := con_uart s @ echo c, con_pos := pos, con_crt := crt\<rparr>)" "screen_ok pos crt"
    using consputc_ok assms(2) by blast
  then show ?thesis using assms by (simp add: cons_ok_def con_abs_def key_frame_def)
qed

text \<open>Deleting the last character of the line on the screen and in the buffer.\<close>

lemma erase_key:
  assumes ok: "cons_ok s" and n: "in_e s \<noteq> in_w s"
  shows "\<exists>s'. consputc BACKSPACE (s\<lparr>in_e := in_e s - 1\<rparr>) = Ok s' \<and> cons_ok s' \<and> key_frame s s'
    \<and> con_abs s' = (committed s, butlast (edited s), con_uart s @ echo BACKSPACE)"
proof -
  note E = erase_char [OF _ n]
  have i: "input_ok s" using ok by (simp add: cons_ok_def)
  let ?s = "s\<lparr>in_e := in_e s - 1\<rparr>"
  obtain s' where s': "consputc BACKSPACE ?s = Ok s'" "cons_ok s'" "con_abs s' = (committed ?s, edited ?s, con_uart ?s @ echo BACKSPACE)" "key_frame ?s s'"
    using consputc_key [of ?s] E(1) [OF i] ok by (auto simp: cons_ok_def)
  have "key_frame s ?s" using E(2) [OF i] by (simp add: key_frame_def)
  then show ?thesis using s' E(2,3) [OF i] key_frame_trans by fastforce
qed

lemma kill_line_ok:
  assumes "cons_ok s" "length (edited s) \<le> n"
  shows "\<exists>s'. kill_line n s = Ok s' \<and> cons_ok s' \<and> key_frame s s'
    \<and> con_abs s' = (committed s, [], con_uart s @ concat (replicate (length (edited s)) (echo BACKSPACE)))"
  using assms
proof (induction n arbitrary: s)
  case 0
  then have "in_e s = in_w s" using edited_empty_iff [of s] by (simp add: cons_ok_def input_ok_def)
  then show ?case using 0 by (simp add: con_abs_def key_frame_refl)
next
  case (Suc n)
  have i: "input_ok s" "ring_ok s" using Suc.prems by (simp_all add: cons_ok_def input_ok_def)
  show ?case
  proof (cases "in_e s = in_w s")
    case True
    then show ?thesis using Suc.prems edited_empty_iff [OF i(2)] by (simp add: con_abs_def key_frame_refl)
  next
    case False
    then have ne: "edited s \<noteq> []" using edited_empty_iff [OF i(2)] by simp
    obtain s1 where s1: "consputc BACKSPACE (s\<lparr>in_e := in_e s - 1\<rparr>) = Ok s1" "cons_ok s1" "key_frame s s1"
        "committed s1 = committed s" "edited s1 = butlast (edited s)" "con_uart s1 = con_uart s @ echo BACKSPACE"
      using erase_key [OF Suc.prems(1) False] by (auto simp: con_abs_def)
    have "length (edited s1) \<le> n" using Suc.prems(2) s1(5) by simp
    then obtain s' where s': "kill_line n s1 = Ok s'" "cons_ok s'" "key_frame s1 s'"
        "con_abs s' = (committed s1, [], con_uart s1 @ concat (replicate (length (edited s1)) (echo BACKSPACE)))"
      using Suc.IH [OF s1(2)] by blast
    have k: "kill_line (Suc n) s = Ok s'" using False erase_char(4) [OF i(1) False] s1(1) s'(1) by simp
    have u: "con_uart s1 @ concat (replicate (length (edited s1)) (echo BACKSPACE))
        = con_uart s @ concat (replicate (length (edited s)) (echo BACKSPACE))"
      using ne s1(5,6) by (cases "edited s" rule: rev_cases) auto
    show ?thesis using k s'(2) key_frame_trans [OF s1(3) s'(3)] s'(4) [unfolded u s1(4)] by blast
  qed
qed

text \<open>An ordinary character, \<open>c\<close> after the translation of the carriage return.\<close>

lemma insert_key:
  fixes s :: "'a consst_scheme" and c :: uchar
  assumes ok: "cons_ok s" and n: "in_count s < INPUT_BUF" and l: "PtableLock \<notin> set (held s)"
  defines "s0 \<equiv> s\<lparr>in_buf := (in_buf s)[unat (in_e s) mod INPUT_BUF := c], in_e := in_e s + 1\<rparr>"
  shows "\<exists>s'. rbind (consputc (unat c) s0) (\<lambda>s.
       if c = NL \<or> c = EOT \<or> in_e s = in_r s + of_nat INPUT_BUF
       then rbind (wakeup ChanInput (s\<lparr>in_w := in_e s\<rparr>)) (\<lambda>s. Ok (s, dump))
       else Ok (s, dump)) = Ok (s', dump) \<and> cons_ok s' \<and> key_frame s s' \<and>
     con_abs s' = (let l = edited s @ [c]; out = con_uart s @ [unat c] in
       if c = NL \<or> c = EOT \<or> length (committed s) + length l = INPUT_BUF then (committed s @ l, [], out) else (committed s, l, out))"
proof -
  have r: "ring_ok s" and o: "output_ok s" and nl: "NL \<notin> set (edited s)" using ok by (simp_all add: cons_ok_def input_ok_def)
  note S = store_char [OF r n, of c, folded s0_def]
  have e: "echo (unat c) = [unat c]" using unsigned_less [of c, where 'a = nat] by (simp add: echo_def)
  obtain pos crt where p: "consputc (unat c) s0 = Ok (s0\<lparr>con_uart := con_uart s @ [unat c], con_pos := pos, con_crt := crt\<rparr>)" "screen_ok pos crt"
    using consputc_ok [of s0 "unat c"] o by (auto simp: s0_def e)
  let ?s1 = "s0\<lparr>con_uart := con_uart s @ [unat c], con_pos := pos, con_crt := crt\<rparr>"
  have rk: "ring_ok ?s1" using S(1) by (simp add: ring_ok_def)
  have full: "in_e ?s1 = in_r ?s1 + of_nat INPUT_BUF \<longleftrightarrow> length (committed s) + length (edited s @ [c]) = INPUT_BUF"
  proof -
    have "length (committed s) + length (edited s @ [c]) = unat (in_e ?s1 - in_r ?s1)" using input_lengths(3) [OF S(1)] S(2,3) by simp
    moreover have "unat (in_e ?s1 - in_r ?s1) = INPUT_BUF \<longleftrightarrow> in_e ?s1 - in_r ?s1 = of_nat INPUT_BUF" by (simp add: word_unat_eq_iff)
    ultimately show ?thesis by (simp add: algebra_simps diff_eq_eq)
  qed
  show ?thesis
  proof (cases "c = NL \<or> c = EOT \<or> length (committed s) + length (edited s @ [c]) = INPUT_BUF")
    case True
    let ?s' = "?s1\<lparr>in_w := in_e s0, pt := wakeup1 (Some ChanInput) (pt s)\<rparr>"
    have w: "wakeup ChanInput (?s1\<lparr>in_w := in_e s0\<rparr>) = Ok ?s'" using l by (simp add: wakeup_eq s0_def)
    have C: "input_ok ?s'" "committed ?s' = committed s @ edited s @ [c]" "edited ?s' = []"
      using commit_line [OF rk] S by simp_all
    have "key_frame s ?s'" using C(2) by (simp add: key_frame_def s0_def)
    then show ?thesis unfolding p(1) rbind.simps full if_P [OF True]
      using True w C p(2) o by (intro exI [of _ ?s']) (simp add: cons_ok_def con_abs_def s0_def Let_def)
  next
    case False
    have "input_ok ?s1" using rk nl S(3) False by (auto simp: input_ok_def)
    moreover have "key_frame s ?s1" using S by (simp add: key_frame_def s0_def)
    ultimately show ?thesis unfolding p(1) rbind.simps full if_not_P [OF False]
      using False S p(2) o by (intro exI [of _ ?s1]) (simp add: cons_ok_def con_abs_def Let_def, simp add: s0_def)
  qed
qed

lemma cons_key_ok:
  assumes ok: "cons_ok s" and l: "PtableLock \<notin> set (held s)"
  shows "\<exists>s'. cons_key c (s, dump) = Ok (s', dump \<or> c = 16) \<and> cons_ok s' \<and> key_frame s s' \<and> con_abs s' = edit_key c (con_abs s)"
proof -
  have r: "ring_ok s" using ok by (simp add: cons_ok_def input_ok_def)
  note E = edited_empty_iff [OF r]
  have len: "length (edited s) \<le> INPUT_BUF" using r input_lengths(2) [OF r] by (auto simp: ring_ok_def)
  consider "c = 16" | "c = 21" | "c = 8 \<or> c = 127" "in_e s = in_w s" | "c = 8 \<or> c = 127" "in_e s \<noteq> in_w s"
    | "c \<noteq> 16" "c \<noteq> 21" "\<not> (c = 8 \<or> c = 127)" "c \<noteq> 0 \<and> in_count s < INPUT_BUF"
    | "c \<noteq> 16" "c \<noteq> 21" "\<not> (c = 8 \<or> c = 127)" "\<not> (c \<noteq> 0 \<and> in_count s < INPUT_BUF)" by blast
  then show ?thesis
  proof cases
    case 1
    then show ?thesis using ok by (simp add: cons_key_def edit_key_def con_abs_def key_frame_refl)
  next
    case 2
    then show ?thesis using kill_line_ok [OF ok len] by (auto simp: cons_key_def edit_key_def con_abs_def)
  next
    case 3
    then show ?thesis using ok E by (auto simp: cons_key_def edit_key_def con_abs_def key_frame_refl)
  next
    case 4
    then show ?thesis using erase_key [OF ok 4(2)] E by (auto simp: cons_key_def edit_key_def con_abs_def)
  next
    case 5
    note I = insert_key [OF ok conjunct2 [OF 5(4)] l, of "if c = 13 then NL else c" dump]
    have "length (committed s) + length (edited s) < INPUT_BUF" using 5(4) input_lengths(3) [OF r] by simp
    then show ?thesis unfolding cons_key_def edit_key_def con_abs_def [of s] prod.case using I 5 by (simp add: Let_def)
  next
    case 6
    then show ?thesis using ok input_lengths(3) [OF r] by (auto simp: cons_key_def edit_key_def con_abs_def key_frame_refl)
  qed
qed

lemma cons_keys_ok:
  assumes "cons_ok s" "PtableLock \<notin> set (held s)"
  shows "\<exists>s'. rfold cons_key cs (s, dump) = Ok (s', dump \<or> 16 \<in> set cs) \<and> cons_ok s' \<and> key_frame s s'
    \<and> con_abs s' = fold edit_key cs (con_abs s)"
  using assms
proof (induction cs arbitrary: s dump)
  case Nil
  then show ?case by (simp add: key_frame_refl)
next
  case (Cons c cs)
  obtain s1 where s1: "cons_key c (s, dump) = Ok (s1, dump \<or> c = 16)" "cons_ok s1" "key_frame s s1" "con_abs s1 = edit_key c (con_abs s)"
    using cons_key_ok [OF Cons.prems] by blast
  then obtain s' where s': "rfold cons_key cs (s1, dump \<or> c = 16) = Ok (s', (dump \<or> c = 16) \<or> 16 \<in> set cs)" "cons_ok s'"
      "key_frame s1 s'" "con_abs s' = fold edit_key cs (con_abs s1)"
    using Cons.IH [of s1 "dump \<or> c = 16"] Cons.prems(2) key_frameD(1) [OF s1(3)] by auto
  then show ?case using s1 key_frame_trans [OF s1(3) s'(3)] by auto
qed

lemma key_frame_unlock:
  assumes "key_frame (s\<lparr>held := h\<rparr>) s1"
  shows "key_frame s (s1\<lparr>held := held s\<rparr>)"
proof -
  let ?u = "\<lambda>x. x\<lparr>pt := pt s, con_uart := con_uart s, con_pos := con_pos s, con_crt := con_crt s,
       in_buf := in_buf s, in_w := in_w s, in_e := in_e s\<rparr>"
  have "?u s1 = s\<lparr>held := h\<rparr>" using assms by (simp add: key_frame_def)
  then have a: "(?u s1)\<lparr>held := held s\<rparr> = s" by simp
  have b: "(?u s1)\<lparr>held := held s\<rparr> = ?u (s1\<lparr>held := held s\<rparr>)" by simp
  have "?u (s1\<lparr>held := held s\<rparr>) = s" using b a by (rule trans [OF sym])
  then show ?thesis using assms by (simp add: key_frame_def)
qed

text \<open>
  C35. The interrupt handler of the console is a line editor. Whatever characters arrive, \<open>consoleintr\<close>
  returns without a fault, and the text that is ready to be read, the line being edited and the
  characters echoed are those of the specification \<open>edit_key\<close>, applied to one character after the
  other; this holds also when the indices wrap around. The cursor stays on the screen, the buffer
  never holds more than 128 characters, the processes that wait for input are woken up exactly when
  text was committed, and nothing else changes; Control-P runs \<open>procdump\<close> after the lock is free.\<close>

theorem console_line_editor:
  assumes ok: "cons_ok s" and l: "ConsLock \<notin> set (held s)" "PtableLock \<notin> set (held s)"
  shows "\<exists>s'. consoleintr procdump cs s = (if 16 \<in> set cs then procdump s' else Ok s') \<and> cons_ok s'
    \<and> con_abs s' = fold edit_key cs (con_abs s) \<and> key_frame s s'"
proof -
  let ?s = "s\<lparr>held := ConsLock # held s\<rparr>"
  obtain s1 where s1: "rfold cons_key cs (?s, False) = Ok (s1, 16 \<in> set cs)" "cons_ok s1" "key_frame ?s s1"
      "con_abs s1 = fold edit_key cs (con_abs ?s)"
    using cons_keys_ok [of ?s cs False] ok l by (auto simp: cons_ok_def)
  have h: "held s1 = ConsLock # held s" using key_frameD(1) [OF s1(3)] by simp
  have "consoleintr procdump cs s = (if 16 \<in> set cs then procdump (s1\<lparr>held := held s\<rparr>) else Ok (s1\<lparr>held := held s\<rparr>))"
    using l s1(1) h by (simp add: consoleintr_def acquire_def release_def)
  moreover have "con_abs ?s = con_abs s" by (simp add: con_abs_def)
  ultimately show ?thesis using s1(2,4) key_frame_unlock [OF s1(3)]
    by (intro exI [of _ "s1\<lparr>held := held s\<rparr>"]) (simp add: cons_ok_def con_abs_def)
qed

section \<open>Reading lines\<close>

text \<open>
  The specification of \<open>consoleread\<close>: what at most \<open>n\<close> characters of the committed text \<open>q\<close> give the
  reader, what remains, and whether the read is complete. A newline ends the read and belongs to it;
  Control-D ends it and is not delivered, and stays in the buffer unless it is the first character.
\<close>

fun take_line :: "nat \<Rightarrow> bool \<Rightarrow> uchar list \<Rightarrow> uchar list \<times> uchar list \<times> bool" where
  "take_line 0 first q = ([], q, True)"
| "take_line (Suc n) first [] = ([], [], False)"
| "take_line (Suc n) first (c # q) =
     (if c = EOT then ([], if first then q else c # q, True)
      else if c = NL then ([c], q, True)
      else case take_line n False q of (l, rest, fin) \<Rightarrow> (c # l, rest, fin))"

text \<open>The outcome of a read by process \<open>p\<close> that wants \<open>n\<close> more characters behind \<open>acc\<close>.\<close>

definition read_outcome :: "nat \<Rightarrow> nat \<Rightarrow> nat \<Rightarrow> uchar list \<Rightarrow> 'a consst_scheme
    \<Rightarrow> ((int \<times> uchar list, nat \<times> uchar list) run \<times> 'a consst_scheme) result \<Rightarrow> bool" where
  "read_outcome ip p n acc s R \<longleftrightarrow> (case take_line n (acc = []) (committed s) of (l, rest, fin) \<Rightarrow>
     \<exists>x s'. R = Ok (x, s') \<and> input_ok s' \<and> committed s' = rest \<and> edited s' = edited s \<and>
       (if fin \<or> p_killed (procs (pt s) p)
        then x = Done (if fin then int (length (acc @ l)) else -1, acc @ l) \<and> held s' = [] \<and> sl_locked (i_lock (ino s' ip))
        else x = Blocked (n - length l, acc @ l) \<and> held s' = [PtableLock] \<and> asleep ChanInput (pt s') p
          \<and> \<not> sl_locked (i_lock (ino s' ip))))"

lemma committed_ino [simp]:
  "committed (upd_ino ip f s) = committed s" "edited (upd_ino ip f s) = edited s" "input_ok (upd_ino ip f s) = input_ok s"
  by (simp_all add: upd_ino_def committed_def edited_def input_ok_def ring_ok_def)

abbreviation reader_ok :: "nat \<Rightarrow> nat \<Rightarrow> 'a consst_scheme \<Rightarrow> bool" where
  "reader_ok ip p s \<equiv> curproc s = Some p \<and> p < length (pt_proc (pt s)) \<and> ip < length (icache s)
     \<and> 1 \<le> i_ref (ino s ip) \<and> i_valid (ino s ip)"

lemma read_return:
  fixes s :: "'a consst_scheme"
  assumes "held s = [ConsLock]" "reader_ok ip p s" "\<not> sl_locked (i_lock (ino s ip))"
  shows "\<exists>s'. rbind (release ConsLock s) (\<lambda>s. rbind (ilock ip s) (\<lambda>s. Ok (Done x, s))) = Ok (Done x, s')
    \<and> input_ok s' = input_ok s \<and> committed s' = committed s \<and> edited s' = edited s \<and> held s' = [] \<and> sl_locked (i_lock (ino s' ip))"
proof -
  let ?s = "s\<lparr>held := []\<rparr>"
  obtain lk where "sl_locked lk" "ilock ip ?s = Ok (upd_ino ip (\<lambda>i. i\<lparr>i_lock := lk\<rparr>) ?s)"
    using ilock_valid [of ?s p ip] assms by auto
  then show ?thesis using assms by (simp add: release_def ino_upd_ino)
qed

lemma read_wait:
  fixes s :: "'a consst_scheme"
  assumes "held s = [ConsLock]" "reader_ok ip p s"
  shows "\<exists>s'. sleep_enter ChanInput ConsLock s = Ok s' \<and> input_ok s' = input_ok s \<and> committed s' = committed s
    \<and> edited s' = edited s \<and> held s' = [PtableLock] \<and> asleep ChanInput (pt s') p \<and> icache s' = icache s"
  using assms by (simp add: sleep_enter_seq acquire_def release_def sched_def asleep_upd committed_def edited_def input_ok_def ring_ok_def)

lemma read_outcome_more:
  assumes "read_outcome ip p n (acc @ [c]) s1 R" "committed s = c # committed s1" "edited s1 = edited s" "pt s1 = pt s" "c \<noteq> EOT" "c \<noteq> NL"
  shows "read_outcome ip p (Suc n) acc s R"
proof -
  obtain l rest fin where "take_line n False (committed s1) = (l, rest, fin)" by (cases "take_line n False (committed s1)")
  then show ?thesis using assms by (cases fin; cases "p_killed (procs (pt s) p)") (simp_all add: read_outcome_def)
qed

lemma read_outcome_cong:
  assumes "read_outcome ip p n acc s1 R" "committed s1 = committed s" "edited s1 = edited s"
    "p_killed (procs (pt s1) p) = p_killed (procs (pt s) p)"
  shows "read_outcome ip p n acc s R"
  using assms by (simp add: read_outcome_def)

lemma consoleread_loop_ok:
  fixes s :: "'a consst_scheme"
  assumes "input_ok s" "held s = [ConsLock]" "reader_ok ip p s" "\<not> sl_locked (i_lock (ino s ip))"
  shows "read_outcome ip p n acc s (consoleread_loop ip (n + length acc) n acc s)"
  using assms
proof (induction n arbitrary: acc s)
  case 0
  then show ?case using read_return [OF 0(2-4), of "(int (length acc), acc)"] by (auto simp: read_outcome_def)
next
  case (Suc n)
  have r: "ring_ok s" using Suc.prems(1) by (simp add: input_ok_def)
  show ?case
  proof (cases "in_r s = in_w s")
    case True
    then have "committed s = []" using committed_empty_iff [OF r] by simp
    then show ?thesis using read_return [OF Suc.prems(2-4), of "(-1, acc)"] read_wait [OF Suc.prems(2,3)] Suc.prems True
      by (auto simp: read_outcome_def cur_killed_def)
  next
    case False
    let ?s = "s\<lparr>in_r := in_r s + 1\<rparr>" and ?c = "in_at s (in_r s)"
    note T = take_char [OF Suc.prems(1) False]
    consider "?c = EOT" | "?c = NL" | "?c \<noteq> EOT" "?c \<noteq> NL" by blast
    then show ?thesis
    proof cases
      case 1
      let ?s2 = "if Suc n < n + Suc (length acc) then s else ?s"
      have "\<exists>s'. rbind (release ConsLock ?s2) (\<lambda>s. rbind (ilock ip s) (\<lambda>s. Ok (Done (int (length acc), acc), s))) = Ok (Done (int (length acc), acc), s')
          \<and> input_ok s' = input_ok ?s2 \<and> committed s' = committed ?s2 \<and> edited s' = edited ?s2 \<and> held s' = [] \<and> sl_locked (i_lock (ino s' ip))"
        by (rule read_return) (use Suc.prems in auto)
      then show ?thesis using 1 False T Suc.prems(1) by (cases "acc = []") (auto simp: read_outcome_def)
    next
      case 2
      have "\<exists>s'. rbind (release ConsLock ?s) (\<lambda>s. rbind (ilock ip s) (\<lambda>s. Ok (Done (int (Suc (length acc)), acc @ [?c]), s))) = Ok (Done (int (Suc (length acc)), acc @ [?c]), s')
          \<and> input_ok s' = input_ok ?s \<and> committed s' = committed ?s \<and> edited s' = edited ?s \<and> held s' = [] \<and> sl_locked (i_lock (ino s' ip))"
        by (rule read_return) (use Suc.prems in auto)
      then show ?thesis using 2 False T by (auto simp: read_outcome_def)
    next
      case 3
      have "read_outcome ip p n (acc @ [?c]) ?s (consoleread_loop ip (n + length (acc @ [?c])) n (acc @ [?c]) ?s)"
        using Suc.IH [of ?s "acc @ [?c]"] Suc.prems T(1) by simp
      then have "read_outcome ip p (Suc n) acc s (consoleread_loop ip (n + length (acc @ [?c])) n (acc @ [?c]) ?s)"
        by (rule read_outcome_more) (use T 3 in simp_all)
      then show ?thesis using 3 False by simp
    qed
  qed
qed

lemma iunlock_reader:
  fixes s :: "'a consst_scheme"
  assumes "held s = []" "reader_ok ip p s" "sl_locked (i_lock (ino s ip))"
  shows "iunlock ip s = Ok (upd_ino ip (\<lambda>i. i\<lparr>i_lock := unlocked_sl\<rparr>) (s\<lparr>pt := wakeup1 (Some (ChanInode ip)) (pt s)\<rparr>))"
  using assms by (simp add: iunlock_def kernel_simps)

text \<open>
  C36. Reading from the console. \<open>consoleread\<close> returns the first line of the committed text with its
  newline, or its first \<open>n\<close> characters if the line is longer, and removes exactly these from the
  buffer. Control-D ends the read: as the first character it gives a read of length 0 and disappears,
  later it stays for the next read. When the text runs out before that the caller sleeps for input
  with the lock of the inode free, or returns -1 if it has been killed; after the sleep it goes on
  in the same way with the characters it has got so far. The line being edited is not touched.\<close>

theorem consoleread_lines:
  fixes s :: "'a consst_scheme"
  assumes i: "input_ok s" and rd: "reader_ok ip p s"
  shows "(held s = [] \<and> sl_locked (i_lock (ino s ip)) \<longrightarrow> read_outcome ip p n [] s (consoleread ip n s))
    \<and> (held s = [PtableLock] \<and> \<not> sl_locked (i_lock (ino s ip)) \<longrightarrow>
       read_outcome ip p n acc s (consoleread_resume ip (n + length acc) (n, acc) s))"
proof (intro conjI impI)
  assume h: "held s = [] \<and> sl_locked (i_lock (ino s ip))"
  let ?s = "(upd_ino ip (\<lambda>i. i\<lparr>i_lock := unlocked_sl\<rparr>) (s\<lparr>pt := wakeup1 (Some (ChanInode ip)) (pt s)\<rparr>))\<lparr>held := [ConsLock]\<rparr>"
  have "consoleread ip n s = consoleread_loop ip (n + length ([] :: uchar list)) n [] ?s"
    using iunlock_reader [OF _ rd] h by (simp add: consoleread_def acquire_def)
  moreover have "read_outcome ip p n [] ?s (consoleread_loop ip (n + length ([] :: uchar list)) n [] ?s)"
    by (rule consoleread_loop_ok) (use i rd in \<open>simp_all add: ino_upd_ino\<close>)
  ultimately show "read_outcome ip p n [] s (consoleread ip n s)"
    using rd by (simp only:) (erule read_outcome_cong, simp_all add: procs_wakeup1)
next
  assume h: "held s = [PtableLock] \<and> \<not> sl_locked (i_lock (ino s ip))"
  let ?s = "s\<lparr>pt := upd_proc p (\<lambda>p. p\<lparr>p_chan := None\<rparr>) (pt s), held := [ConsLock]\<rparr>"
  have "consoleread_resume ip (n + length acc) (n, acc) s = consoleread_loop ip (n + length acc) n acc ?s"
    using h rd by (simp add: consoleread_resume_def sleep_leave_seq acquire_def release_def Let_def)
  moreover have "read_outcome ip p n acc ?s (consoleread_loop ip (n + length acc) n acc ?s)"
    by (rule consoleread_loop_ok) (use i rd h in simp_all)
  ultimately show "read_outcome ip p n acc s (consoleread_resume ip (n + length acc) (n, acc) s)"
    using rd by (simp only:) (erule read_outcome_cong, simp_all add: procs_upd_proc)
qed

section \<open>Examples\<close>

text \<open>A console whose indices are about to wrap around, with \<open>n\<close> committed characters.\<close>

definition con_demo :: "uchar list \<Rightarrow> 32 word \<Rightarrow> consst" where
  "con_demo buf n = fsst.extend fs_demo
     (consst.fields True False 0 (replicate 2000 0) [] buf (-1) (n - 1) (n - 1))"

lemma con_demo_simps:
  "held (con_demo buf n) = []" "curproc (con_demo buf n) = Some 0" "length (pt_proc (pt (con_demo buf n))) = NPROC"
  "length (icache (con_demo buf n)) = 50" "i_ref (ino (con_demo buf n) 0) = 1" "i_valid (ino (con_demo buf n) 0)" "sl_locked (i_lock (ino (con_demo buf n) 0))"
  "in_buf (con_demo buf n) = buf" "in_r (con_demo buf n) = -1" "in_w (con_demo buf n) = n - 1" "in_e (con_demo buf n) = n - 1"
  "con_uart (con_demo buf n) = []" "\<not> con_panicked (con_demo buf n)" "con_pos (con_demo buf n) = 0"
  "length (con_crt (con_demo buf n)) = 2000"
  by (simp_all add: con_demo_def ino_demo_def fs_demo_def fsst.defs consst.defs zero_ptable_def)

lemma con_demo_input:
  assumes "length buf = INPUT_BUF" "unat n \<le> INPUT_BUF"
  shows "input_ok (con_demo buf n)" "committed (con_demo buf n) = in_ring buf (-1) (unat n)" "edited (con_demo buf n) = []"
  using assms by (simp_all add: input_ok_def ring_ok_def committed_def edited_def con_demo_simps)

theorem console_line_editor_witness:
  "\<exists>s'. consoleintr (\<lambda>s. Ok s) [97, 8, 98, 13] (con_demo (replicate 128 0) 0) = Ok s' \<and> committed s' = [98, 10]
     \<and> con_uart s' = [97, 8, 32, 8, 98, 10]"
proof -
  let ?s = "con_demo (replicate 128 0) 0"
  have "cons_ok ?s" by (simp add: cons_ok_def con_demo_input con_demo_simps)
  moreover have "con_abs ?s = ([], [], [])" by (simp add: con_abs_def con_demo_input con_demo_simps in_ring_def)
  ultimately show ?thesis using console_line_editor [of ?s "\<lambda>s. Ok s" "[97, 8, 98, 13]"]
    by (auto simp: con_demo_simps con_abs_def edit_key_def echo_def Let_def)
qed

theorem consoleread_lines_witness:
  "\<exists>s'. consoleread 0 5 (con_demo (10 # replicate 126 0 @ [98]) 2) = Ok (Done (2, [98, 10]), s') \<and> committed s' = []"
proof -
  define b :: "uchar list" where "b = 10 # replicate 126 0 @ [98]"
  have lb: "length b = INPUT_BUF" by (simp add: b_def)
  have "unat (-1 :: 32 word) = 2 ^ 32 - 1" by (simp add: unsigned_minus_1_eq_mask mask_eq_exp_minus_1)
  then have "in_ring b (-1) (Suc (Suc 0)) = [98, 10]" unfolding in_ring_Cons b_def by (simp add: in_ring_def nth_Cons' nth_append)
  moreover have u: "unat (2 :: 32 word) = Suc (Suc 0)" by simp
  ultimately have c: "committed (con_demo b 2) = [98, 10]" using con_demo_input(2) [of b 2] lb unfolding u by simp
  have i: "input_ok (con_demo b 2)" using con_demo_input(1) [of b 2] lb unfolding u by simp
  have t: "take_line 5 True [98, 10] = ([98, 10], [], True)" by code_simp
  show ?thesis using consoleread_lines [OF i, of 0 0 5 "[]"] unfolding b_def [symmetric]
    by (auto simp: c t con_demo_simps read_outcome_def)
qed

end
