(* ===== verification/Umalloc.thy ===== *)
theory Umalloc
  imports Prelude
begin

text \<open>
  The memory allocator of user programs, umalloc.c: a circular list of free blocks in the order of
  their addresses, with \<open>free\<close>, which merges neighbours, and the first-fit search of \<open>malloc\<close>. A block
  begins with a header of 8 bytes, its link and its size in units of a header, and its address is
  that of the header. The loops follow the links and need not end when the list is damaged, so they
  are partial functions. The invariant relates the list to a sorted list of separated blocks; the
  operations are compared with the set of free bytes.
\<close>

section \<open>Operations\<close>

abbreviation (input) HDR :: nat where "HDR \<equiv> 8"

record uheap =
  h_ptr :: "nat \<Rightarrow> nat"
  h_size :: "nat \<Rightarrow> nat"
  freep :: nat
  base :: nat
  brk :: nat

abbreviation upd_ptr :: "nat \<Rightarrow> nat \<Rightarrow> uheap \<Rightarrow> uheap" where
  "upd_ptr p v h \<equiv> h\<lparr>h_ptr := (h_ptr h)(p := v)\<rparr>"

abbreviation upd_size :: "nat \<Rightarrow> nat \<Rightarrow> uheap \<Rightarrow> uheap" where
  "upd_size p v h \<equiv> h\<lparr>h_size := (h_size h)(p := v)\<rparr>"

text \<open>The search of \<open>free\<close> for the place of \<open>bp\<close>.\<close>

partial_function (option) free_scan :: "uheap \<Rightarrow> nat \<Rightarrow> nat \<Rightarrow> nat option" where
  "free_scan h bp p =
     (if bp > p \<and> bp < h_ptr h p then Some p
      else if p \<ge> h_ptr h p \<and> (bp > p \<or> bp < h_ptr h p) then Some p
      else free_scan h bp (h_ptr h p))"

definition join_next :: "nat \<Rightarrow> nat \<Rightarrow> uheap \<Rightarrow> uheap" where
  "join_next bp p h = (let q = h_ptr h p in
     if bp + HDR * h_size h bp = q
     then upd_ptr bp (h_ptr h q) (upd_size bp ((h_size h bp + h_size h q) mod 2 ^ 32) h)
     else upd_ptr bp q h)"

definition join_prev :: "nat \<Rightarrow> nat \<Rightarrow> uheap \<Rightarrow> uheap" where
  "join_prev bp p h =
     (if p + HDR * h_size h p = bp
      then upd_ptr p (h_ptr h bp) (upd_size p ((h_size h p + h_size h bp) mod 2 ^ 32) h)
      else upd_ptr p bp h)"

definition free :: "nat \<Rightarrow> uheap \<Rightarrow> uheap option" where
  "free ap h = (let bp = ap - HDR in
     Option.bind (free_scan h bp (freep h)) (\<lambda>p. Some ((join_prev bp p (join_next bp p h))\<lparr>freep := p\<rparr>)))"

text \<open>
  The system call \<open>sbrk\<close> of the kernel (sysproc.c): \<open>grow n sz\<close> is the new size of the process after
  \<open>growproc\<close> by \<open>n\<close> bytes, or nothing when it fails; the result is the old size.
\<close>

definition sbrk :: "(nat \<Rightarrow> nat \<Rightarrow> nat option) \<Rightarrow> nat \<Rightarrow> uheap \<Rightarrow> nat \<times> uheap" where
  "sbrk grow n h = (case grow n (brk h) of None \<Rightarrow> (2 ^ 32 - 1, h) | Some b \<Rightarrow> (brk h, h\<lparr>brk := b\<rparr>))"

definition morecore :: "(nat \<Rightarrow> nat \<Rightarrow> nat option) \<Rightarrow> nat \<Rightarrow> uheap \<Rightarrow> (nat \<times> uheap) option" where
  "morecore grow nu h =
     (let nu = (if nu < 4096 then 4096 else nu); (p, h) = sbrk grow (nu * HDR mod 2 ^ 32) h in
      if p = 2 ^ 32 - 1 then Some (0, h)
      else Option.bind (free (p + HDR) (upd_size p nu h)) (\<lambda>h. Some (freep h, h)))"

text \<open>The block \<open>p\<close> is large enough: unlinked, or shortened and its end handed out.\<close>

definition take_block :: "nat \<Rightarrow> nat \<Rightarrow> nat \<Rightarrow> uheap \<Rightarrow> nat \<times> uheap" where
  "take_block nunits prevp p h =
     (if h_size h p = nunits then (p + HDR, (upd_ptr prevp (h_ptr h p) h)\<lparr>freep := prevp\<rparr>)
      else let h = upd_size p (h_size h p - nunits) h; p = p + HDR * h_size h p; h = upd_size p nunits h in
        (p + HDR, h\<lparr>freep := prevp\<rparr>))"

partial_function (option) malloc_loop :: "(nat \<Rightarrow> nat \<Rightarrow> nat option) \<Rightarrow> nat \<Rightarrow> nat \<Rightarrow> nat \<Rightarrow> uheap \<Rightarrow> (nat \<times> uheap) option" where
  "malloc_loop grow nunits prevp p h =
     (if h_size h p \<ge> nunits then Some (take_block nunits prevp p h)
      else if p = freep h then
        Option.bind (morecore grow nunits h) (\<lambda>ph.
        if fst ph = 0 then Some (0, snd ph)
        else malloc_loop grow nunits (fst ph) (h_ptr (snd ph) (fst ph)) (snd ph))
      else malloc_loop grow nunits p (h_ptr h p) h)"

definition malloc :: "(nat \<Rightarrow> nat \<Rightarrow> nat option) \<Rightarrow> nat \<Rightarrow> uheap \<Rightarrow> (nat \<times> uheap) option" where
  "malloc grow nbytes h =
     (let nunits = ((nbytes + HDR - 1) mod 2 ^ 32) div HDR + 1;
          h = (if freep h = 0 then (upd_size (base h) 0 (upd_ptr (base h) (base h) h))\<lparr>freep := base h\<rparr> else h) in
      malloc_loop grow nunits (freep h) (h_ptr h (freep h)) h)"

section \<open>The list of free blocks\<close>

text \<open>Following the links from \<open>p\<close> gives the blocks \<open>ps\<close> and ends at \<open>q\<close>.\<close>

fun path :: "uheap \<Rightarrow> nat \<Rightarrow> nat list \<Rightarrow> nat \<Rightarrow> bool" where
  "path h p [] q \<longleftrightarrow> p = q"
| "path h p (x # xs) q \<longleftrightarrow> p = x \<and> path h (h_ptr h x) xs q"

abbreviation gap :: "nat \<times> nat \<Rightarrow> nat \<times> nat \<Rightarrow> bool" where
  "gap x y \<equiv> fst x + HDR * snd x < fst y"

definition blocks :: "uheap \<Rightarrow> (nat \<times> nat) list \<Rightarrow> bool" where
  "blocks h zs \<longleftrightarrow> zs \<noteq> [] \<and> hd zs = (base h, 0) \<and> path h (base h) (map fst zs) (base h)
     \<and> (\<forall>(p, n)\<in>set zs. h_size h p = n \<and> p + HDR * n \<le> brk h) \<and> (\<forall>(p, n)\<in>set (tl zs). 0 < n)
     \<and> sorted_wrt gap zs \<and> freep h \<in> fst ` set zs \<and> 0 < base h \<and> base h + HDR \<le> brk h \<and> brk h \<le> 2 ^ 31
     \<and> (\<forall>(p, n)\<in>set (tl zs). base h + HDR \<le> p)"

lemma blocksD:
  assumes "blocks h zs"
  shows "zs \<noteq> []" "hd zs = (base h, 0)" "path h (base h) (map fst zs) (base h)"
    "\<forall>(p, n)\<in>set zs. h_size h p = n \<and> p + HDR * n \<le> brk h" "\<forall>(p, n)\<in>set (tl zs). 0 < n" "sorted_wrt gap zs"
    "freep h \<in> fst ` set zs" "0 < base h" "base h + HDR \<le> brk h" "brk h \<le> 2 ^ 31" "\<forall>(p, n)\<in>set (tl zs). base h + HDR \<le> p"
  using assms unfolding blocks_def by - (elim conjE, assumption)+

definition bytes_of :: "nat \<times> nat \<Rightarrow> nat set" where
  "bytes_of b = {fst b..<fst b + HDR * snd b}"

definition free_bytes :: "(nat \<times> nat) list \<Rightarrow> nat set" where
  "free_bytes zs = (\<Union>b\<in>set zs. bytes_of b)"

lemma path_append: "path h p (xs @ ys) q \<longleftrightarrow> (\<exists>r. path h p xs r \<and> path h r ys q)"
  by (induction xs arbitrary: p) auto

lemma path_cong: "path h p xs q \<Longrightarrow> (\<And>x. x \<in> set xs \<Longrightarrow> h_ptr h' x = h_ptr h x) \<Longrightarrow> path h' p xs q"
  by (induction xs arbitrary: p) auto

text \<open>The order of the list: the link of a block leads to the next one, that of the last to \<open>base\<close>.\<close>

lemma path_next:
  assumes "path h p (map fst (us @ (x, n) # vs)) q"
  shows "h_ptr h x = (case vs of [] \<Rightarrow> q | y # _ \<Rightarrow> fst y)"
proof -
  have "path h (h_ptr h x) (map fst vs) q" using assms by (auto simp: path_append)
  then show ?thesis by (cases vs) auto
qed

lemma path_rotate:
  assumes "path h b (map fst (us @ (x, n) # vs)) b"
  shows "path h (h_ptr h x) (map fst (vs @ us) @ [x]) (h_ptr h x)"
  using assms by (auto simp: path_append)

lemma blocks_order:
  assumes "blocks h zs" "zs = us @ (x, n) # vs"
  shows "h_ptr h x = (case vs of [] \<Rightarrow> base h | y # _ \<Rightarrow> fst y)"
    "path h (h_ptr h x) (map fst (vs @ us) @ [x]) (h_ptr h x)"
  using assms path_next [of h "base h" us x n vs "base h"] path_rotate [of h "base h" us x n vs] by (auto simp: blocks_def)

lemma blocks_less:
  assumes "blocks h zs" "zs = us @ (x, n) # vs"
  shows "\<And>y. y \<in> set us \<Longrightarrow> fst y + HDR * snd y < x" "\<And>y. y \<in> set vs \<Longrightarrow> x + HDR * n < fst y"
  using assms by (auto simp: blocks_def sorted_wrt_append)

lemma blocks_tl:
  assumes "blocks h zs" "zs = us @ (x, n) # vs" "(y, m) \<in> set vs"
  shows "0 < m" "base h + HDR \<le> y"
proof -
  have "(y, m) \<in> set (tl zs)" using assms(2,3) by (cases us) auto
  then show "0 < m" "base h + HDR \<le> y" using assms(1) by (auto simp: blocks_def)
qed

lemma blocks_base:
  assumes "blocks h zs" "(x, n) \<in> set zs"
  shows "base h \<le> x"
proof -
  obtain zs' where z: "zs = (base h, 0) # zs'" using assms(1) unfolding blocks_def by (metis list.collapse)
  moreover have "sorted_wrt gap zs" using assms(1) by (simp only: blocks_def)
  ultimately have "\<forall>y\<in>set zs'. base h < fst y" by simp
  then show ?thesis using assms(2) z by fastforce
qed

lemma blocks_mem:
  assumes "blocks h zs" "(y, m) \<in> set zs"
  shows "h_size h y = m" "y + HDR * m \<le> brk h"
proof -
  show "h_size h y = m" "y + HDR * m \<le> brk h" using blocksD(4) [OF assms(1)] assms(2) by auto
qed

lemma blocks_zero_iff: "blocks h zs \<Longrightarrow> zs = us @ (t, n) # vs \<Longrightarrow> us = [] \<longleftrightarrow> n = 0"
  using blocksD(2,5) [of h zs] by (cases us) auto

section \<open>Freeing a block\<close>

abbreviation scan_stop :: "uheap \<Rightarrow> nat \<Rightarrow> nat \<Rightarrow> bool" where
  "scan_stop h bp p \<equiv> bp > p \<and> bp < h_ptr h p \<or> p \<ge> h_ptr h p \<and> (bp > p \<or> bp < h_ptr h p)"

lemma free_scan_path:
  assumes "path h p xs q" "find (scan_stop h bp) xs = Some t"
  shows "free_scan h bp p = Some t"
  using assms
proof (induction xs arbitrary: p)
  case (Cons x xs)
  then show ?case by (subst free_scan.simps) (auto split: if_splits)
qed simp

lemma free_scan_ok:
  assumes b: "blocks h zs" and z: "zs = us @ (t, n) # vs" and t: "t < bp" "\<And>y. y \<in> set vs \<Longrightarrow> bp < fst y"
  shows "free_scan h bp (freep h) = Some t"
proof -
  have stop: "scan_stop h bp t"
  proof (cases vs)
    case Nil
    have "base h \<le> t" using blocks_base [OF b, of t n] z by simp
    then show ?thesis using blocks_order(1) [OF b z] t(1) Nil by auto
  next
    case (Cons y vs')
    then show ?thesis using blocks_order(1) [OF b z] t by auto
  qed
  have only: "y = t" if y: "(y, m) \<in> set zs" and s: "scan_stop h bp y" for y m
  proof -
    obtain as bs where s: "zs = as @ (y, m) # bs" using y by (meson split_list)
    note O = blocks_order(1) [OF b s] and L = blocks_less [OF b s]
    have bb: "base h < bp" using blocks_base [OF b, of t n] z t(1) by simp
    consider "y = t" | "(y, m) \<in> set us" | "(y, m) \<in> set vs" using y unfolding z by auto
    then show ?thesis
    proof cases
      case 2
      then obtain u1 u2 where u: "us = u1 @ (y, m) # u2" by (meson split_list)
      have z2: "zs = u1 @ (y, m) # (u2 @ (t, n) # vs)" using z u by simp
      have "h_ptr h y \<le> t \<and> y < h_ptr h y"
      proof (cases u2)
        case Nil
        then show ?thesis using blocks_order(1) [OF b z2] blocks_less(2) [OF b z2, of "(t, n)"] by simp
      next
        case (Cons w u3)
        then show ?thesis using blocks_order(1) [OF b z2] blocks_less(2) [OF b z2, of w] blocks_less(1) [OF b z, of w] u by simp
      qed
      then show ?thesis using \<open>scan_stop h bp y\<close> t(1) by auto
    next
      case 3
      then have "bp < y" using t(2) by auto
      then show ?thesis using \<open>scan_stop h bp y\<close> O L(2) [of "hd bs"] bb by (cases bs) auto
    qed simp
  qed
  obtain m where "(freep h, m) \<in> set zs" using b by (auto simp: blocks_def)
  then obtain as bs where f: "zs = as @ (freep h, m) # bs" by (meson split_list)
  let ?xs = "freep h # map fst (bs @ as)"
  have p: "path h (freep h) ?xs (freep h)" using blocks_order(2) [OF b f] by (auto simp: path_append)
  have s: "set ?xs = fst ` set zs" unfolding f by auto
  have "find (scan_stop h bp) ?xs = Some t"
  proof (rule find_unique)
    show "t \<in> set ?xs" unfolding s unfolding z by simp
    show "y = t" if "y \<in> set ?xs" "scan_stop h bp y" for y
    proof -
      obtain m where "(y, m) \<in> set zs" using \<open>y \<in> set ?xs\<close> unfolding s by auto
      then show ?thesis using \<open>scan_stop h bp y\<close> by (rule only)
    qed
  qed (rule stop)
  then show ?thesis by (rule free_scan_path [OF p])
qed

text \<open>The place of a block that is not free: behind the last free block below it.\<close>

lemma blocks_place:
  assumes b: "blocks h zs" and bp: "base h < bp" "0 < k" and d: "bytes_of (bp, k) \<inter> free_bytes zs = {}"
  shows "\<exists>us t n vs. zs = us @ (t, n) # vs \<and> t < bp \<and> t + HDR * n \<le> bp \<and> (\<forall>y\<in>set vs. bp + HDR * k \<le> fst y)"
proof -
  have "(base h, 0) \<in> set zs" using b unfolding blocks_def by (metis list.set_sel(1))
  then obtain us z vs where z: "zs = us @ z # vs" "fst z < bp" "\<forall>y\<in>set vs. \<not> fst y < bp"
    using split_list_last_prop [of zs "\<lambda>y. fst y < bp"] bp(1) by fastforce
  obtain t n where t: "z = (t, n)" by (cases z)
  have e: "bytes_of (bp, k) \<inter> bytes_of y = {}" if "y \<in> set zs" for y using d that by (auto simp: free_bytes_def)
  have tn: "t + HDR * n \<le> bp"
  proof (rule ccontr)
    assume "\<not> t + HDR * n \<le> bp"
    then have "bp \<in> bytes_of (bp, k) \<inter> bytes_of (t, n)" using bp z(2) t by (simp add: bytes_of_def)
    then show False using e [of "(t, n)"] z(1) t by simp
  qed
  have "bp + HDR * k \<le> fst y" if y: "y \<in> set vs" for y
  proof (rule ccontr)
    assume n: "\<not> bp + HDR * k \<le> fst y"
    have "0 < snd y" using blocks_tl(1) [OF b z(1) [unfolded t], of "fst y" "snd y"] y by simp
    moreover have "bp \<le> fst y" using z(3) y by auto
    ultimately have "fst y \<in> bytes_of (bp, k) \<inter> bytes_of y" using n by (simp add: bytes_of_def)
    moreover have "y \<in> set zs" using z(1) y by simp
    ultimately show False using e by blast
  qed
  then show ?thesis using z(1,2) tn unfolding t by (intro exI [of _ us] exI [of _ t] exI [of _ n] exI [of _ vs]) simp
qed

text \<open>The first step, the union with the next block, makes a list behind \<open>bp\<close>.\<close>

lemma join_next_ok:
  assumes b: "blocks h zs" and z: "zs = us @ (t, n) # vs" and bp: "h_size h bp = k" "0 < k" "\<forall>y\<in>set vs. bp + HDR * k \<le> fst y" "base h < bp"
    and br: "bp + HDR * k \<le> brk h"
  shows "\<exists>k' vs'. let h' = join_next bp t h in h' = h\<lparr>h_ptr := (h_ptr h)(bp := h_ptr h' bp), h_size := (h_size h)(bp := k')\<rparr>
    \<and> h_ptr h' bp = (case vs' of [] \<Rightarrow> base h | y # _ \<Rightarrow> fst y) \<and> (\<forall>y\<in>set vs'. bp + HDR * k' < fst y) \<and> k \<le> k' \<and> bp + HDR * k' \<le> brk h
    \<and> (\<exists>us'. vs = us' @ vs') \<and> bytes_of (bp, k') \<union> free_bytes vs' = bytes_of (bp, k) \<union> free_bytes vs"
proof (cases vs)
  case Nil
  then have "h_ptr h t = base h" using blocks_order(1) [OF b z] by simp
  then have "join_next bp t h = upd_ptr bp (base h) h" using bp by (simp add: join_next_def Let_def)
  then show ?thesis using Nil bp(1) br by (intro exI [of _ k] exI [of _ "[]"]) (simp add: Let_def fun_upd_idem)
next
  case (Cons y ws)
  obtain q m where y: "y = (q, m)" by (cases y)
  have q: "h_ptr h t = q" using blocks_order(1) [OF b z] Cons y by simp
  have z2: "zs = (us @ [(t, n)]) @ (q, m) # ws" using z Cons y by simp
  note L = blocks_less(2) [OF b z2]
  have sz: "h_size h q = m" "q + HDR * m \<le> brk h" "brk h \<le> 2 ^ 31" using blocks_mem [OF b, of q m] z2 b [unfolded blocks_def] by simp_all
  show ?thesis
  proof (cases "bp + HDR * k = q")
    case True
    have r: "h_ptr h q = (case ws of [] \<Rightarrow> base h | y # _ \<Rightarrow> fst y)" by (rule blocks_order(1) [OF b z2])
    have "k + m < 2 ^ 32" using True sz by simp
    then have j: "join_next bp t h = upd_ptr bp (h_ptr h q) (upd_size bp (k + m) h)"
      using True bp(1) q sz(1) by (simp add: join_next_def Let_def)
    have "bytes_of (bp, k + m) = bytes_of (bp, k) \<union> bytes_of (q, m)" using True by (auto simp: bytes_of_def)
    then show ?thesis unfolding j using True sz(2) L r Cons y
      by (intro exI [of _ "k + m"] exI [of _ ws]) (auto simp: Let_def free_bytes_def add.assoc)
  next
    case False
    then have lt: "bp + HDR * k < q" using bp(3) Cons y by auto
    have "bp + HDR * k < fst w" if "w \<in> set ws" for w using L [OF that] lt by linarith
    then have "\<forall>w\<in>set vs. bp + HDR * k < fst w" using lt Cons y by simp
    moreover have j: "join_next bp t h = upd_ptr bp q h" using False bp(1) q by (simp add: join_next_def Let_def)
    ultimately show ?thesis unfolding j using Cons y bp(1) br
      by (intro exI [of _ k] exI [of _ vs]) (simp add: Let_def fun_upd_idem)
  qed
qed

text \<open>Building the invariant for a list in which the part behind some block was replaced.\<close>

lemma blocks_rebuild:
  assumes b: "blocks h zs" and z: "zs = us @ (t, n) # vs"
    and z': "zs' = us @ (t, n') # vs'" and same: "base h' = base h" "brk h' = brk h" "\<And>y. y \<in> set us \<Longrightarrow> h_ptr h' (fst y) = h_ptr h (fst y)"
    and p: "path h' t (t # map fst vs') (base h)" and f: "freep h' \<in> fst ` set zs'"
    and sz: "\<And>y. y \<in> set us \<Longrightarrow> h_size h' (fst y) = h_size h (fst y)" "h_size h' t = n'" "\<forall>(y, m)\<in>set vs'. h_size h' y = m \<and> 0 < m \<and> base h + HDR \<le> y \<and> y + HDR * m \<le> brk h"
    and g: "t + HDR * n' \<le> brk h" "\<forall>y\<in>set vs'. t + HDR * n' < fst y" "sorted_wrt gap vs'" and n': "us = [] \<longleftrightarrow> n' = 0"
  shows "blocks h' zs'"
proof -
  have hd: "hd zs = (base h, 0)" and pb: "path h (base h) (map fst zs) (base h)" and so: "sorted_wrt gap zs"
      and c: "0 < base h" "base h + HDR \<le> brk h" "brk h \<le> 2 ^ 31"
    by (rule blocksD [OF b])+
  have us: "\<And>y m. (y, m) \<in> set us \<Longrightarrow> h_size h y = m \<and> y + HDR * m \<le> brk h" using blocks_mem [OF b] unfolding z by simp
  have ust: "\<And>y m. (y, m) \<in> set (tl us) \<Longrightarrow> 0 < m \<and> base h + HDR \<le> y" and tb: "us \<noteq> [] \<Longrightarrow> base h + HDR \<le> t"
  proof -
    note tl = blocksD(5,11) [OF b]
    show "\<And>y m. (y, m) \<in> set (tl us) \<Longrightarrow> 0 < m \<and> base h + HDR \<le> y" "us \<noteq> [] \<Longrightarrow> base h + HDR \<le> t"
      using tl unfolding z by (cases us; auto)+
  qed
  have "hd zs' = (base h', 0)" using hd n' same(1) unfolding z z' by (cases us) auto
  moreover have "path h' (base h') (map fst zs') (base h')"
  proof -
    have "path h (base h) (map fst us) t" using pb unfolding z by (auto simp: path_append)
    then have "path h' (base h) (map fst us) t" by (rule path_cong) (use same(3) in auto)
    then show ?thesis using p same(1) unfolding z' by (auto simp: path_append)
  qed
  moreover have "sorted_wrt gap zs'"
  proof -
    have "\<forall>x\<in>set us. fst x + HDR * snd x < fst y" if "y \<in> set vs'" for y
    proof
      fix x assume "x \<in> set us"
      then have "fst x + HDR * snd x < t" using blocks_less(1) [OF b z] by blast
      moreover have "t + HDR * n' < fst y" using g(2) that by blast
      ultimately show "fst x + HDR * snd x < fst y" by linarith
    qed
    then show ?thesis using so g unfolding z z' by (simp add: sorted_wrt_append)
  qed
  moreover have "h_size h' y = m \<and> y + HDR * m \<le> brk h'" if i: "(y, m) \<in> set zs'" for y m
  proof -
    consider "(y, m) \<in> set us" | "y = t" "m = n'" | "(y, m) \<in> set vs'" using i unfolding z' by auto
    then show ?thesis
    proof cases
      case 1
      then show ?thesis using us [of y m] sz(1) [of "(y, m)"] same(2) by simp
    next
      case 3
      then show ?thesis using sz(3) same(2) by auto
    qed (use sz(2) g(1) same(2) in simp)
  qed
  then have "\<forall>(p, n)\<in>set zs'. h_size h' p = n \<and> p + HDR * n \<le> brk h'" by auto
  moreover have "0 < m \<and> base h + HDR \<le> y" if i: "(y, m) \<in> set (tl zs')" for y m
  proof (cases us)
    case Nil
    then show ?thesis using i sz(3) unfolding z' by auto
  next
    case (Cons u us')
    then consider "(y, m) \<in> set (tl us)" | "y = t" "m = n'" | "(y, m) \<in> set vs'" using i unfolding z' by auto
    then show ?thesis using ust tb sz(3) n' Cons by cases auto
  qed
  then have "\<forall>(p, n)\<in>set (tl zs'). 0 < n" "\<forall>(p, n)\<in>set (tl zs'). base h' + HDR \<le> p" using same(1) by auto
  ultimately show ?thesis using c f same(1,2) z' unfolding blocks_def by simp
qed

lemma path_suffix:
  assumes "blocks h zs" "zs = as @ vs"
  shows "path h (case vs of [] \<Rightarrow> base h | y # _ \<Rightarrow> fst y) (map fst vs) (base h)"
  using blocksD(3) [OF assms(1)] unfolding assms(2) by (cases vs) (auto simp: path_append)

lemma free_bytes_simps [simp]:
  "free_bytes [] = {}" "free_bytes (b # zs) = bytes_of b \<union> free_bytes zs" "free_bytes (zs @ zs') = free_bytes zs \<union> free_bytes zs'"
  by (auto simp: free_bytes_def)

text \<open>The second step, the union with the block before; \<open>h1\<close> is the heap after the first.\<close>

lemma join_prev_ok:
  assumes b: "blocks h zs" and z: "zs = us @ (t, n) # us' @ vs'" and t: "t < bp" "t + HDR * n \<le> bp" and bp: "base h + HDR \<le> bp" "0 < k" "bp + HDR * k \<le> brk h"
    and f1: "\<And>y. y \<noteq> bp \<Longrightarrow> h_size h1 y = h_size h y" "\<And>y. y \<noteq> bp \<Longrightarrow> h_ptr h1 y = h_ptr h y"
    and f2: "h_size h1 bp = k" "base h1 = base h" "brk h1 = brk h" "h_ptr h1 bp = (case vs' of [] \<Rightarrow> base h | y # _ \<Rightarrow> fst y)"
    and v: "\<forall>y\<in>set vs'. bp + HDR * k < fst y"
  defines "h' \<equiv> (join_prev bp t h1)\<lparr>freep := t\<rparr>"
  shows "\<exists>zs'. blocks h' zs' \<and> free_bytes zs' = free_bytes us \<union> bytes_of (t, n) \<union> bytes_of (bp, k) \<union> free_bytes vs'"
proof -
  have z1: "zs = (us @ (t, n) # us') @ vs'" using z by simp
  have tn: "h_size h t = n" "t + HDR * n \<le> brk h" using blocks_mem [OF b, of t n] z by simp_all
  have usl: "fst y < t" if "y \<in> set us" for y using blocks_less(1) [OF b z that] by linarith
  have vs': "(y, m) \<in> set vs' \<Longrightarrow> y \<noteq> bp \<and> y \<noteq> t \<and> h_size h1 y = m \<and> 0 < m \<and> base h + HDR \<le> y \<and> y + HDR * m \<le> brk h" for y m
    using blocks_mem [OF b, of y m] blocks_tl [OF b z, of y m] v z t(1) f1(1) [of y] by force
  have so: "sorted_wrt gap vs'" using blocksD(6) [OF b] unfolding z by (simp add: sorted_wrt_append)
  have pv: "path h (h_ptr h1 bp) (map fst vs') (base h)" unfolding f2(4) by (rule path_suffix [OF b z1])
  have vn: "y \<noteq> bp" "y \<noteq> t" if "y \<in> set (map fst vs')" for y using that vs' by fastforce+
  show ?thesis
  proof (cases "t + HDR * n = bp")
    case True
    then have us: "us \<noteq> []" "0 < n" using t(1) blocksD(2) [OF b] unfolding z by (cases us; auto)+
    have "n + k < 2 ^ 32" using True bp(3) blocksD(10) [OF b] by simp
    then have h': "h' = (upd_ptr t (h_ptr h1 bp) (upd_size t (n + k) h1))\<lparr>freep := t\<rparr>"
      using True t(1) tn f1 f2 by (simp add: h'_def join_prev_def)
    have "blocks h' (us @ (t, n + k) # vs')"
    proof (rule blocks_rebuild [OF b z refl])
      have "path h' (h_ptr h1 bp) (map fst vs') (base h)" by (rule path_cong [OF pv]) (use vn f1 in \<open>simp add: h'\<close>)
      then show "path h' t (t # map fst vs') (base h)" by (simp add: h')
      show "\<forall>(y, m)\<in>set vs'. h_size h' y = m \<and> 0 < m \<and> base h + HDR \<le> y \<and> y + HDR * m \<le> brk h" by (auto simp: h' dest!: vs')
      show "\<forall>y\<in>set vs'. t + HDR * (n + k) < fst y" using v True by auto
      show "t + HDR * (n + k) \<le> brk h" using bp(3) True by simp
    qed (use f1 f2 usl t(1) so us in \<open>auto simp: h' dest: usl\<close>)
    moreover have "bytes_of (t, n + k) = bytes_of (t, n) \<union> bytes_of (bp, k)" using True by (auto simp: bytes_of_def)
    ultimately show ?thesis by (intro exI [of _ "us @ (t, n + k) # vs'"]) auto
  next
    case False
    then have h': "h' = (upd_ptr t bp h1)\<lparr>freep := t\<rparr>" using t(1) tn f1 by (simp add: h'_def join_prev_def)
    have "blocks h' (us @ (t, n) # (bp, k) # vs')"
    proof (rule blocks_rebuild [OF b z refl])
      have "path h' (h_ptr h1 bp) (map fst vs') (base h)" by (rule path_cong [OF pv]) (use vn f1 in \<open>simp add: h'\<close>)
      then show "path h' t (t # map fst ((bp, k) # vs')) (base h)" using t(1) by (simp add: h')
      show "\<forall>(y, m)\<in>set ((bp, k) # vs'). h_size h' y = m \<and> 0 < m \<and> base h + HDR \<le> y \<and> y + HDR * m \<le> brk h"
        using f2 bp by (auto simp: h' dest!: vs')
      show "\<forall>y\<in>set ((bp, k) # vs'). t + HDR * n < fst y" using v t(2) False by auto
      show "sorted_wrt gap ((bp, k) # vs')" using so v by simp
      show "us = [] \<longleftrightarrow> n = 0" by (rule blocks_zero_iff [OF b z])
    qed (use f1 f2 usl t(1) tn in \<open>auto simp: h' dest: usl\<close>)
    then show ?thesis by (intro exI [of _ "us @ (t, n) # (bp, k) # vs'"]) auto
  qed
qed

lemma free_ok:
  assumes b: "blocks h zs" and bp: "base h + HDR \<le> bp" "0 < h_size h bp" "bp + HDR * h_size h bp \<le> brk h"
    and d: "bytes_of (bp, h_size h bp) \<inter> free_bytes zs = {}"
  shows "\<exists>h' zs'. free (bp + HDR) h = Some h' \<and> blocks h' zs' \<and> free_bytes zs' = free_bytes zs \<union> bytes_of (bp, h_size h bp)
    \<and> base h' = base h \<and> brk h' = brk h \<and> (\<forall>y. y \<notin> fst ` set zs \<and> y \<noteq> bp \<longrightarrow> h_size h' y = h_size h y)"
proof -
  let ?k = "h_size h bp"
  have bb: "base h < bp" using bp(1) by linarith
  obtain us t n vs where z: "zs = us @ (t, n) # vs" and t: "t < bp" "t + HDR * n \<le> bp" and v: "\<forall>y\<in>set vs. bp + HDR * ?k \<le> fst y"
    using blocks_place [OF b bb bp(2) d] by auto
  have lt: "bp < fst y" if "y \<in> set vs" for y
  proof -
    have "bp + HDR * ?k \<le> fst y" using v that by blast
    then show ?thesis using bp(2) by linarith
  qed
  define h1 where "h1 = join_next bp t h"
  obtain k vs' us' where h1: "h1 = h\<lparr>h_ptr := (h_ptr h)(bp := h_ptr h1 bp), h_size := (h_size h)(bp := k)\<rparr>"
      "h_ptr h1 bp = (case vs' of [] \<Rightarrow> base h | y # _ \<Rightarrow> fst y)" "\<forall>y\<in>set vs'. bp + HDR * k < fst y" "?k \<le> k" "bp + HDR * k \<le> brk h"
      "vs = us' @ vs'" "bytes_of (bp, k) \<union> free_bytes vs' = bytes_of (bp, ?k) \<union> free_bytes vs"
    using join_next_ok [OF b z refl bp(2) v bb bp(3)] unfolding h1_def [symmetric] Let_def by blast
  have f1: "h_size h1 y = h_size h y" "h_ptr h1 y = h_ptr h y" if "y \<noteq> bp" for y
    using that arg_cong [OF h1(1), of "\<lambda>h. h_size h y"] arg_cong [OF h1(1), of "\<lambda>h. h_ptr h y"] by simp_all
  have f2: "h_size h1 bp = k" "base h1 = base h" "brk h1 = brk h"
    using arg_cong [OF h1(1), of "\<lambda>h. h_size h bp"] arg_cong [OF h1(1), of base] arg_cong [OF h1(1), of brk] by simp_all
  let ?h' = "(join_prev bp t h1)\<lparr>freep := t\<rparr>"
  have z1: "zs = us @ (t, n) # us' @ vs'" and k: "0 < k" using z h1(4,6) bp(2) by simp_all
  obtain zs' where zs': "blocks ?h' zs'" "free_bytes zs' = free_bytes us \<union> bytes_of (t, n) \<union> bytes_of (bp, k) \<union> free_bytes vs'"
    using join_prev_ok [OF b z1 t bp(1) k h1(5) f1 f2 h1(2,3)] by blast
  moreover have "free (bp + HDR) h = Some ?h'" by (simp add: free_def free_scan_ok [OF b z t(1) lt] h1_def Let_def)
  moreover have "free_bytes zs \<union> bytes_of (bp, ?k) = free_bytes us \<union> bytes_of (t, n) \<union> bytes_of (bp, k) \<union> free_bytes vs'"
    unfolding z using h1(7) by auto
  moreover have "base ?h' = base h \<and> brk ?h' = brk h \<and> (\<forall>y. y \<notin> fst ` set zs \<and> y \<noteq> bp \<longrightarrow> h_size ?h' y = h_size h y)"
    using f1 f2 z by (auto simp: join_prev_def)
  ultimately show ?thesis by blast
qed

section \<open>Allocating a block\<close>

text \<open>An interval of free bytes lies in one block, because neighbours have been merged.\<close>

lemma one_block:
  assumes "sorted_wrt gap zs" "{a..<b} \<subseteq> free_bytes zs" "a < b"
  shows "\<exists>(p, n)\<in>set zs. p \<le> a \<and> b \<le> p + HDR * n"
proof -
  obtain p n where p: "(p, n) \<in> set zs" "p \<le> a" "a < p + HDR * n"
    using assms(2,3) by (fastforce simp: free_bytes_def bytes_of_def)
  have "b \<le> p + HDR * n"
  proof (rule ccontr)
    assume "\<not> b \<le> p + HDR * n"
    then have "p + HDR * n \<in> {a..<b}" using p(2,3) by simp
    then have "p + HDR * n \<in> free_bytes zs" using assms(2) by blast
    then obtain q m where q: "(q, m) \<in> set zs" "q \<le> p + HDR * n" "p + HDR * n < q + HDR * m"
      by (fastforce simp: free_bytes_def bytes_of_def)
    obtain as bs where s: "zs = as @ (p, n) # bs" using p(1) by (meson split_list)
    have "(q, m) \<noteq> (p, n)" using q(3) by auto
    then consider "(q, m) \<in> set as" | "(q, m) \<in> set bs" using q(1) unfolding s by auto
    then show False using assms(1) q(2,3) p(2,3) unfolding s by cases (fastforce simp: sorted_wrt_append)+
  qed
  then show ?thesis using p by blast
qed

lemma morecore_ok:
  assumes b: "blocks h zs" and g: "\<And>sz b. grow (HDR * max nu 4096) sz = Some b \<Longrightarrow> b = sz + HDR * max nu 4096 \<and> b \<le> 2 ^ 31"
    and n: "HDR * nu < 2 ^ 32"
  shows "grow (HDR * max nu 4096) (brk h) = None \<and> morecore grow nu h = Some (0, h) \<or>
    (\<exists>h' zs'. morecore grow nu h = Some (freep h', h') \<and> blocks h' zs' \<and> free_bytes zs' = free_bytes zs \<union> {brk h..<brk h'}
      \<and> base h' = base h \<and> brk h' = brk h + HDR * max nu 4096 \<and> (\<forall>y. y \<notin> fst ` set zs \<and> y \<noteq> brk h \<longrightarrow> h_size h' y = h_size h y))"
proof -
  let ?n = "max nu 4096"
  have nu: "(if nu < 4096 then 4096 else nu) = ?n" "?n * HDR mod 2 ^ 32 = HDR * ?n" using n by (auto simp: max_def)
  show ?thesis
  proof (cases "grow (HDR * ?n) (brk h)")
    case None
    then show ?thesis unfolding morecore_def nu(1) Let_def nu(2) sbrk_def by simp
  next
    case (Some br)
    then have br: "br = brk h + HDR * ?n" "br \<le> 2 ^ 31" using g by blast+
    let ?h = "upd_size (brk h) ?n (h\<lparr>brk := br\<rparr>)"
    have m: "morecore grow nu h = Option.bind (free (brk h + HDR) ?h) (\<lambda>h. Some (freep h, h))"
      unfolding morecore_def nu(1) Let_def nu(2) sbrk_def Some using blocksD(10) [OF b] by simp
    have ne: "y \<noteq> brk h" if "(y, k) \<in> set zs" for y k
    proof -
      have "y + HDR * k \<le> brk h" "y = base h \<or> 0 < k"
        using blocks_mem(2) [OF b that] blocksD(1,2,5) [OF b] that by (cases zs; auto)+
      then show ?thesis using blocksD(9) [OF b] by auto
    qed
    have p': "path ?h (base h) (map fst zs) (base h)" by (rule path_cong [OF blocksD(3) [OF b]]) simp
    have "blocks ?h zs"
      unfolding blocks_def using blocksD [OF b] p' ne br by (auto simp: fun_upd_def)
    moreover have "bytes_of (brk h, ?n) \<inter> free_bytes zs = {}"
      using blocks_mem(2) [OF b] by (fastforce simp: free_bytes_def bytes_of_def)
    ultimately obtain h' zs' where h': "free (brk h + HDR) ?h = Some h'" "blocks h' zs'" "free_bytes zs' = free_bytes zs \<union> bytes_of (brk h, ?n)"
        "base h' = base h" "brk h' = br" "\<forall>y. y \<notin> fst ` set zs \<and> y \<noteq> brk h \<longrightarrow> h_size h' y = h_size ?h y"
      using free_ok [of ?h zs "brk h"] blocksD(9) [OF b] br by (auto simp: less_max_iff_disj)
    have "morecore grow nu h = Some (freep h', h')" unfolding m h'(1) by simp
    moreover have "bytes_of (brk h, ?n) = {brk h..<brk h'}" using h'(5) br(1) by (simp add: bytes_of_def)
    ultimately show ?thesis using h' br(1) by auto
  qed
qed

text \<open>One round of the search: the first block that is large enough, with the block before it.\<close>

lemma malloc_round:
  assumes "path h p (ws @ [freep h]) q" "freep h \<notin> set ws"
  shows "(\<exists>as x bs. ws @ [freep h] = as @ x # bs \<and> n \<le> h_size h x \<and> malloc_loop grow n prev p h = Some (take_block n (last (prev # as)) x h))
    \<or> (\<forall>x\<in>set (ws @ [freep h]). h_size h x < n) \<and> malloc_loop grow n prev p h = Option.bind (morecore grow n h) (\<lambda>ph.
        if fst ph = 0 then Some (0, snd ph) else malloc_loop grow n (fst ph) (h_ptr (snd ph) (fst ph)) (snd ph))"
  using assms
proof (induction ws arbitrary: p prev)
  case Nil
  then have "p = freep h" by simp
  then show ?case by (subst malloc_loop.simps) (force simp: malloc_loop.simps)
next
  case (Cons w ws)
  show ?case
  proof (cases "n \<le> h_size h w")
    case True
    then show ?thesis using Cons.prems by (intro disjI1 exI [of _ "[]"] exI [of _ w] exI [of _ "ws @ [freep h]"]) (simp add: malloc_loop.simps)
  next
    case False
    have e: "malloc_loop grow n prev p h = malloc_loop grow n w (h_ptr h w) h"
      using Cons.prems False by (subst malloc_loop.simps) auto
    consider as x bs where "ws @ [freep h] = as @ x # bs" "n \<le> h_size h x" "malloc_loop grow n w (h_ptr h w) h = Some (take_block n (last (w # as)) x h)"
      | "\<forall>x\<in>set (ws @ [freep h]). h_size h x < n" "malloc_loop grow n w (h_ptr h w) h = Option.bind (morecore grow n h) (\<lambda>ph.
        if fst ph = 0 then Some (0, snd ph) else malloc_loop grow n (fst ph) (h_ptr (snd ph) (fst ph)) (snd ph))"
      using Cons.IH [of "h_ptr h w" w] Cons.prems by auto
    then show ?thesis
    proof cases
      case 1
      then show ?thesis unfolding e by (intro disjI1 exI [of _ "w # as"] exI [of _ x] exI [of _ bs]) simp
    next
      case 2
      then show ?thesis unfolding e using False by simp
    qed
  qed
qed

lemma path_last: "path h p (w # as) x \<Longrightarrow> h_ptr h (last (w # as)) = x"
  by (induction as arbitrary: p w) auto

lemma blocks_pred:
  assumes "blocks h zs" "(e, m) \<in> set zs" "h_ptr h e = x" "x \<noteq> base h"
  shows "\<exists>as bs s. zs = as @ (e, m) # (x, s) # bs"
proof -
  obtain as bs where z: "zs = as @ (e, m) # bs" using assms(2) by (meson split_list)
  then obtain s bs' where "bs = (x, s) # bs'" using blocks_order(1) [OF assms(1) z] assms(3,4) by (cases bs) auto
  then show ?thesis using z by blast
qed

lemma malloc_fit:
  assumes b: "blocks h zs" and n: "0 < n"
  shows "(\<exists>as bs e m x s. zs = as @ (e, m) # (x, s) # bs \<and> n \<le> s
      \<and> malloc_loop grow n (freep h) (h_ptr h (freep h)) h = Some (take_block n e x h))
    \<or> (\<forall>(y, s)\<in>set zs. s < n) \<and> malloc_loop grow n (freep h) (h_ptr h (freep h)) h = Option.bind (morecore grow n h) (\<lambda>ph.
        if fst ph = 0 then Some (0, snd ph) else malloc_loop grow n (fst ph) (h_ptr (snd ph) (fst ph)) (snd ph))"
proof -
  obtain f where "(freep h, f) \<in> set zs" using blocksD(7) [OF b] by auto
  then obtain us vs where z: "zs = us @ (freep h, f) # vs" by (meson split_list)
  let ?ws = "map fst (vs @ us)"
  have p: "path h (h_ptr h (freep h)) (?ws @ [freep h]) (h_ptr h (freep h))" by (rule blocks_order(2) [OF b z])
  have fw: "freep h \<notin> set ?ws" using blocks_less [OF b z] by fastforce
  have set: "set (?ws @ [freep h]) = fst ` set zs" unfolding z by auto
  consider as x bs where "?ws @ [freep h] = as @ x # bs" "n \<le> h_size h x"
      "malloc_loop grow n (freep h) (h_ptr h (freep h)) h = Some (take_block n (last (freep h # as)) x h)"
    | "\<forall>x\<in>set (?ws @ [freep h]). h_size h x < n" "malloc_loop grow n (freep h) (h_ptr h (freep h)) h = Option.bind (morecore grow n h) (\<lambda>ph.
        if fst ph = 0 then Some (0, snd ph) else malloc_loop grow n (fst ph) (h_ptr (snd ph) (fst ph)) (snd ph))"
    using malloc_round [OF p fw, of n grow "freep h"] by blast
  then show ?thesis
  proof cases
    case 1
    let ?e = "last (freep h # as)"
    have "path h (freep h) (freep h # as) x" using p unfolding 1(1) by (auto simp: path_append)
    then have e: "h_ptr h ?e = x" by (rule path_last)
    have "set (as @ x # bs) = fst ` set zs" using set unfolding 1(1) .
    then have sub: "set as \<subseteq> fst ` set zs" "x \<in> fst ` set zs" by auto
    then have "set (freep h # as) \<subseteq> fst ` set zs" using blocksD(7) [OF b] by simp
    moreover have "?e \<in> set (freep h # as)" by (rule last_in_set) simp
    ultimately have "?e \<in> fst ` set zs" by blast
    then obtain m s where m: "(?e, m) \<in> set zs" "(x, s) \<in> set zs" using sub(2) by fastforce
    have "h_size h x = s" by (rule blocks_mem(1) [OF b m(2)])
    then have "x \<noteq> base h" using 1(2) n blocks_mem(1) [OF b, of "base h" 0] blocksD(1,2) [OF b] by (metis gr_implies_not0 le_zero_eq list.set_sel(1))
    then obtain c d s' where "zs = c @ (?e, m) # (x, s') # d" using blocks_pred [OF b m(1) e] by blast
    moreover from this have "h_size h x = s'" using blocks_mem(1) [OF b, of x s'] by simp
    ultimately show ?thesis using 1(2,3) by blast
  next
    case 2
    have "s < n" if "(y, s) \<in> set zs" for y s using 2(1) that blocks_mem(1) [OF b that] unfolding set by force
    then show ?thesis using 2(2) by blast
  qed
qed

lemma blocks_disjoint:
  assumes "blocks h zs" "zs = us @ (x, n) # vs"
  shows "bytes_of (x, n) \<inter> (free_bytes us \<union> free_bytes vs) = {}"
  using blocks_less [OF assms] by (fastforce simp: free_bytes_def bytes_of_def)

abbreviation handed_out :: "nat \<Rightarrow> nat \<Rightarrow> nat set \<Rightarrow> uheap \<Rightarrow> nat set \<Rightarrow> uheap \<Rightarrow> bool" where
  "handed_out bp n F h F' h' \<equiv> h_size h' bp = n \<and> base h' + HDR \<le> bp \<and> bytes_of (bp, n) \<inter> F' = {} \<and> F' \<union> bytes_of (bp, n) = F
     \<and> base h' = base h \<and> (\<forall>y. y \<notin> F \<longrightarrow> h_size h' y = h_size h y)"

lemma take_whole:
  assumes b: "blocks h zs" and z: "zs = as @ (e, m) # (x, n) # bs" and n: "0 < n"
  shows "\<exists>h' zs'. take_block n e x h = (x + HDR, h') \<and> blocks h' zs' \<and> handed_out x n (free_bytes zs) h (free_bytes zs') h' \<and> brk h' = brk h"
proof -
  have z2: "zs = (as @ [(e, m)]) @ (x, n) # bs" and z3: "zs = (as @ [(e, m), (x, n)]) @ bs" using z by simp_all
  have sz: "h_size h x = n" "h_size h e = m" "e + HDR * m \<le> brk h" using blocks_mem [OF b, of x n] blocks_mem [OF b, of e m] z by simp_all
  let ?h = "(upd_ptr e (h_ptr h x) h)\<lparr>freep := e\<rparr>"
  have bs: "(y, k) \<in> set bs \<Longrightarrow> y \<noteq> e \<and> h_size h y = k \<and> 0 < k \<and> base h + HDR \<le> y \<and> y + HDR * k \<le> brk h" for y k
    using blocks_mem [OF b, of y k] blocks_tl [OF b z2, of y k] blocks_less(2) [OF b z, of "(y, k)"] z by auto
  have lt: "fst y < e" if "y \<in> set as" for y using blocks_less(1) [OF b z that] by linarith
  have "blocks ?h (as @ (e, m) # bs)"
  proof (rule blocks_rebuild [OF b z refl])
    have ph: "path h (h_ptr h x) (map fst bs) (base h)" using path_suffix [OF b z3] blocks_order(1) [OF b z2] by simp
    have "path ?h (h_ptr h x) (map fst bs) (base h)" by (rule path_cong [OF ph]) (auto dest!: bs)
    then show "path ?h e (e # map fst bs) (base h)" by simp
    show "\<forall>(y, k)\<in>set bs. h_size ?h y = k \<and> 0 < k \<and> base h + HDR \<le> y \<and> y + HDR * k \<le> brk h" using bs by auto
    show "\<forall>y\<in>set bs. e + HDR * m < fst y" using blocks_less(2) [OF b z] by simp
    show "sorted_wrt gap bs" using blocksD(6) [OF b] unfolding z by (simp add: sorted_wrt_append)
    show "as = [] \<longleftrightarrow> m = 0" by (rule blocks_zero_iff [OF b z])
  qed (use sz lt in \<open>auto dest!: lt\<close>)
  moreover have "bytes_of (x, n) \<inter> free_bytes (as @ (e, m) # bs) = {}" using blocks_disjoint [OF b z2] by simp blast
  moreover have "free_bytes (as @ (e, m) # bs) \<union> bytes_of (x, n) = free_bytes zs" unfolding z by auto
  moreover have "base h + HDR \<le> x" using blocks_tl(2) [OF b z, of x n] by simp
  moreover have "take_block n e x h = (x + HDR, ?h)" using sz(1) by (simp add: take_block_def)
  ultimately show ?thesis using sz(1) by (intro exI [of _ ?h] exI [of _ "as @ (e, m) # bs"]) simp
qed

lemma take_end:
  assumes b: "blocks h zs" and z: "zs = as @ (e, m) # (x, s) # bs" and n: "0 < n" "n < s"
  shows "\<exists>h' zs' bp. take_block n e x h = (bp + HDR, h') \<and> blocks h' zs' \<and> handed_out bp n (free_bytes zs) h (free_bytes zs') h' \<and> brk h' = brk h"
proof -
  let ?bp = "x + HDR * (s - n)"
  let ?h = "(upd_size ?bp n (upd_size x (s - n) h))\<lparr>freep := e\<rparr>"
  have z2: "zs = (as @ [(e, m)]) @ (x, s) # bs" and z3: "zs = (as @ [(e, m), (x, s)]) @ bs" using z by simp_all
  have sz: "h_size h x = s" "x + HDR * s \<le> brk h" using blocks_mem [OF b, of x s] z by simp_all
  have bx: "x < ?bp" "?bp + HDR * n = x + HDR * s" using n by (simp_all add: algebra_simps)
  have bs: "(y, k) \<in> set bs \<Longrightarrow> y \<noteq> x \<and> y \<noteq> ?bp \<and> x + HDR * s < y \<and> h_size h y = k \<and> 0 < k \<and> base h + HDR \<le> y \<and> y + HDR * k \<le> brk h" for y k
    using blocks_mem [OF b, of y k] blocks_tl [OF b z2, of y k] blocks_less(2) [OF b z2, of "(y, k)"] z n by auto
  have lt: "fst y < x" if "y \<in> set (as @ [(e, m)])" for y using blocks_less(1) [OF b z2 that] by linarith
  have "blocks ?h ((as @ [(e, m)]) @ (x, s - n) # bs)"
  proof (rule blocks_rebuild [OF b z2 refl])
    have "path h x (x # map fst bs) (base h)" using path_suffix [OF b, of "as @ [(e, m)]" "(x, s) # bs"] z by simp
    then show "path ?h x (x # map fst bs) (base h)" by (rule path_cong) simp
    show "\<forall>(y, k)\<in>set bs. h_size ?h y = k \<and> 0 < k \<and> base h + HDR \<le> y \<and> y + HDR * k \<le> brk h" using bs by auto
    show "\<forall>y\<in>set bs. x + HDR * (s - n) < fst y" using bs bx(2) by fastforce
    show "sorted_wrt gap bs" using blocksD(6) [OF b] unfolding z by (simp add: sorted_wrt_append)
    show "h_size ?h (fst y) = h_size h (fst y)" if "y \<in> set (as @ [(e, m)])" for y using lt [OF that] bx(1) by auto
  qed (use n sz(2) in auto)
  moreover have c: "bytes_of (x, s) = bytes_of (x, s - n) \<union> bytes_of (?bp, n)" "bytes_of (?bp, n) \<inter> bytes_of (x, s - n) = {}"
    using bx by (auto simp: bytes_of_def)
  then have "bytes_of (?bp, n) \<inter> free_bytes ((as @ [(e, m)]) @ (x, s - n) # bs) = {}" using blocks_disjoint [OF b z2] by auto
  moreover have "free_bytes ((as @ [(e, m)]) @ (x, s - n) # bs) \<union> bytes_of (?bp, n) = free_bytes zs" unfolding z using c(1) by auto
  moreover have "base h + HDR \<le> ?bp" using blocks_tl(2) [OF b z, of x s] by simp
  moreover have "take_block n e x h = (?bp + HDR, ?h)" using sz(1) n by (simp add: take_block_def Let_def)
  moreover have "h_size ?h y = h_size h y" if "y \<notin> free_bytes zs" for y
  proof -
    have "x \<in> free_bytes zs" "?bp \<in> free_bytes zs" using n bx by (auto simp: z bytes_of_def)
    then show ?thesis using that by auto
  qed
  ultimately show ?thesis by (intro exI [of _ ?h] exI [of _ "(as @ [(e, m)]) @ (x, s - n) # bs"] exI [of _ ?bp]) simp
qed

lemma take_ok:
  assumes "blocks h zs" "zs = as @ (e, m) # (x, s) # bs" "0 < n" "n \<le> s"
  shows "\<exists>h' zs' bp. take_block n e x h = (bp + HDR, h') \<and> blocks h' zs' \<and> handed_out bp n (free_bytes zs) h (free_bytes zs') h' \<and> brk h' = brk h"
proof (cases "n = s")
  case True
  then show ?thesis using take_whole [OF assms(1), of as e m x n bs] assms(2,3) by blast
next
  case False
  then have "n < s" using assms(4) by simp
  then show ?thesis by (rule take_end [OF assms(1-3)])
qed

text \<open>The law of \<open>growproc\<close>: a process that grows by less than 2 GB has the new size, and stays below the kernel.\<close>

abbreviation grow_law :: "(nat \<Rightarrow> nat \<Rightarrow> nat option) \<Rightarrow> bool" where
  "grow_law grow \<equiv> \<forall>n sz b. n < 2 ^ 31 \<longrightarrow> grow n sz = Some b \<longrightarrow> b = sz + n \<and> b \<le> 2 ^ 31"

lemma free_header:
  assumes "blocks h zs" "y \<in> fst ` set zs"
  shows "y \<in> free_bytes zs \<or> y = base h"
proof -
  obtain k where k: "(y, k) \<in> set zs" using assms(2) by auto
  then have "y = base h \<or> 0 < k" using blocksD(1,2,5) [OF assms(1)] by (cases zs) auto
  then show ?thesis using k by (force simp: free_bytes_def bytes_of_def)
qed

text \<open>A block that is large enough is found.\<close>

lemma malloc_found:
  assumes b: "blocks h zs" and n: "0 < n" and f: "(y, s) \<in> set zs" "n \<le> s"
  shows "\<exists>bp h' zs'. malloc_loop grow n (freep h) (h_ptr h (freep h)) h = Some (bp + HDR, h') \<and> blocks h' zs'
    \<and> handed_out bp n (free_bytes zs) h (free_bytes zs') h' \<and> brk h' = brk h"
proof -
  have "\<not> (\<forall>(y, s)\<in>set zs. s < n)" using f by fastforce
  then obtain as bs e m x s where t: "zs = as @ (e, m) # (x, s) # bs" "n \<le> s"
      "malloc_loop grow n (freep h) (h_ptr h (freep h)) h = Some (take_block n e x h)"
    using malloc_fit [OF b n, of grow] by blast
  then show ?thesis using take_ok [OF b t(1) n t(2)] by metis
qed

lemma malloc_grown:
  assumes b: "blocks h zs" and n: "0 < n" and small: "\<forall>(y, s)\<in>set zs. s < n"
    and h1: "morecore grow n h = Some (freep h1, h1)" "blocks h1 zs1" "free_bytes zs1 = free_bytes zs \<union> {brk h..<brk h1}"
      "base h1 = base h" "brk h1 = brk h + HDR * max n 4096" "\<forall>y. y \<notin> fst ` set zs \<and> y \<noteq> brk h \<longrightarrow> h_size h1 y = h_size h y"
  shows "\<exists>bp h' zs'. malloc_loop grow n (freep h) (h_ptr h (freep h)) h = Some (bp + HDR, h') \<and> blocks h' zs'
    \<and> handed_out bp n (free_bytes zs1) h1 (free_bytes zs') h' \<and> brk h' = brk h1
    \<and> (\<forall>y. y \<notin> free_bytes zs1 \<and> y \<noteq> base h \<longrightarrow> h_size h' y = h_size h y)"
proof -
  have "(\<exists>as bs e m x s. zs = as @ (e, m) # (x, s) # bs \<and> n \<le> s) \<longrightarrow> False" using small by auto
  moreover have "freep h1 \<noteq> 0" using blocksD(7,8) [OF h1(2)] blocks_base [OF h1(2)] by fastforce
  ultimately have l: "malloc_loop grow n (freep h) (h_ptr h (freep h)) h = malloc_loop grow n (freep h1) (h_ptr h1 (freep h1)) h1"
    using malloc_fit [OF b n, of grow] h1(1) by auto
  have "{brk h..<brk h1} \<subseteq> free_bytes zs1" "brk h < brk h1" using h1(3,5) by auto
  from one_block [OF blocksD(6) [OF h1(2)] this] obtain p k where "(p, k) \<in> set zs1" "p \<le> brk h" "brk h1 \<le> p + HDR * k" by blast
  then have "(p, k) \<in> set zs1" "n \<le> k" using h1(5) by auto
  then obtain bp h' zs' where h': "malloc_loop grow n (freep h1) (h_ptr h1 (freep h1)) h1 = Some (bp + HDR, h')" "blocks h' zs'"
      "handed_out bp n (free_bytes zs1) h1 (free_bytes zs') h'" "brk h' = brk h1"
    using malloc_found [OF h1(2) n] by blast
  have "h_size h' y = h_size h y" if y: "y \<notin> free_bytes zs1 \<and> y \<noteq> base h" for y
  proof -
    have "y \<notin> fst ` set zs" "y \<noteq> brk h" using free_header [OF b, of y] y h1(3,5) by auto
    then show ?thesis using h1(6) h'(3) y by auto
  qed
  then show ?thesis unfolding l using h' by blast
qed

lemma malloc_loop_ok:
  assumes b: "blocks h zs" and n: "0 < n" "HDR * n < 2 ^ 31" and g: "grow_law grow"
  shows "(\<forall>(y, s)\<in>set zs. s < n) \<and> grow (HDR * max n 4096) (brk h) = None \<and> malloc_loop grow n (freep h) (h_ptr h (freep h)) h = Some (0, h) \<or>
    (\<exists>bp h' zs'. malloc_loop grow n (freep h) (h_ptr h (freep h)) h = Some (bp + HDR, h') \<and> blocks h' zs' \<and> h_size h' bp = n \<and> base h' = base h \<and> base h + HDR \<le> bp
      \<and> bytes_of (bp, n) \<inter> free_bytes zs' = {} \<and> free_bytes zs' \<union> bytes_of (bp, n) = free_bytes zs \<union> {brk h..<brk h'}
      \<and> (\<forall>y. y \<notin> free_bytes zs \<union> {brk h..<brk h'} \<and> y \<noteq> base h \<longrightarrow> h_size h' y = h_size h y))"
proof (cases "\<forall>(y, s)\<in>set zs. s < n")
  case False
  then obtain y s where "(y, s) \<in> set zs" "n \<le> s" by auto
  then obtain bp h' zs' where h': "malloc_loop grow n (freep h) (h_ptr h (freep h)) h = Some (bp + HDR, h')" "blocks h' zs'"
      "handed_out bp n (free_bytes zs) h (free_bytes zs') h'" "brk h' = brk h"
    using malloc_found [OF b n(1)] by blast
  then show ?thesis by (intro disjI2 exI [of _ bp] exI [of _ h'] exI [of _ zs']) simp
next
  case small: True
  let ?m = "HDR * max n 4096"
  have m: "?m < 2 ^ 31" using n(2) by (auto simp: max_def)
  have gm: "grow ?m sz = Some b \<Longrightarrow> b = sz + ?m \<and> b \<le> 2 ^ 31" for sz b using g m by blast
  have "grow ?m (brk h) = None \<and> morecore grow n h = Some (0, h) \<or>
      (\<exists>h1 zs1. morecore grow n h = Some (freep h1, h1) \<and> blocks h1 zs1 \<and> free_bytes zs1 = free_bytes zs \<union> {brk h..<brk h1}
      \<and> base h1 = base h \<and> brk h1 = brk h + ?m \<and> (\<forall>y. y \<notin> fst ` set zs \<and> y \<noteq> brk h \<longrightarrow> h_size h1 y = h_size h y))"
    by (rule morecore_ok [OF b gm]) (use n(2) in simp_all)
  then consider "grow ?m (brk h) = None" "morecore grow n h = Some (0, h)"
    | h1 zs1 where "morecore grow n h = Some (freep h1, h1)" "blocks h1 zs1" "free_bytes zs1 = free_bytes zs \<union> {brk h..<brk h1}"
      "base h1 = base h" "brk h1 = brk h + ?m" "\<forall>y. y \<notin> fst ` set zs \<and> y \<noteq> brk h \<longrightarrow> h_size h1 y = h_size h y"
    by (elim disjE exE conjE) (assumption | rule that)+
  then show ?thesis
  proof cases
    case 1
    have "(\<exists>as bs e m x s. zs = as @ (e, m) # (x, s) # bs \<and> n \<le> s) \<longrightarrow> False" using small by auto
    then have "malloc_loop grow n (freep h) (h_ptr h (freep h)) h = Some (0, h)" using malloc_fit [OF b n(1), of grow] 1(2) by auto
    then show ?thesis using small 1(1) by blast
  next
    case h1: 2
    obtain bp h' zs' where h': "malloc_loop grow n (freep h) (h_ptr h (freep h)) h = Some (bp + HDR, h')" "blocks h' zs'"
        "handed_out bp n (free_bytes zs1) h1 (free_bytes zs') h'" "brk h' = brk h1" "\<forall>y. y \<notin> free_bytes zs1 \<and> y \<noteq> base h \<longrightarrow> h_size h' y = h_size h y"
      using malloc_grown [OF b n(1) small h1] by blast
    then show ?thesis using h1(3,4) by (intro disjI2 exI [of _ bp] exI [of _ h'] exI [of _ zs']) simp
  qed
qed

section \<open>Properties\<close>

text \<open>The state of the allocator as the set of its free bytes; before the first call the list is not built yet.\<close>

definition heap_ok :: "uheap \<Rightarrow> nat set \<Rightarrow> bool" where
  "heap_ok h F \<longleftrightarrow> freep h = 0 \<and> F = {} \<and> 0 < base h \<and> base h + HDR \<le> brk h \<and> brk h \<le> 2 ^ 31 \<or> (\<exists>zs. blocks h zs \<and> F = free_bytes zs)"

lemma blocks_init:
  assumes "0 < base h" "base h + HDR \<le> brk h" "brk h \<le> 2 ^ 31"
  shows "blocks ((upd_size (base h) 0 (upd_ptr (base h) (base h) h))\<lparr>freep := base h\<rparr>) [(base h, 0)]"
  using assms by (simp add: blocks_def)

text \<open>The heap at the head of the search of \<open>malloc\<close>.\<close>

definition started :: "uheap \<Rightarrow> uheap" where
  "started h = (if freep h = 0 then (upd_size (base h) 0 (upd_ptr (base h) (base h) h))\<lparr>freep := base h\<rparr> else h)"

lemma started_simps [simp]: "base (started h) = base h" "brk (started h) = brk h" "y \<noteq> base h \<Longrightarrow> h_size (started h) y = h_size h y"
  by (simp_all add: started_def)

lemma heap_blocks:
  assumes "heap_ok h F"
  shows "\<exists>zs. blocks (started h) zs \<and> F = free_bytes zs \<and> (freep h \<noteq> 0 \<longrightarrow> blocks h zs)"
proof (cases "freep h = 0")
  case True
  have "\<not> blocks h zs" for zs using blocksD(7,8) [of h zs] blocks_base [of h zs] True by fastforce
  then show ?thesis using assms True blocks_init [of h] by (intro exI [of _ "[(base h, 0)]"]) (auto simp: heap_ok_def started_def bytes_of_def)
next
  case False
  then show ?thesis using assms by (auto simp: heap_ok_def started_def)
qed

lemma too_small:
  assumes "blocks h zs" "\<forall>(y, s)\<in>set zs. s < n" "0 < n"
  shows "\<nexists>a. {a..<a + HDR * n} \<subseteq> free_bytes zs"
proof
  assume "\<exists>a. {a..<a + HDR * n} \<subseteq> free_bytes zs"
  then obtain a where "{a..<a + HDR * n} \<subseteq> free_bytes zs" by blast
  from one_block [OF blocksD(6) [OF assms(1)] this] assms(3) obtain p k where "(p, k) \<in> set zs" "p \<le> a" "a + HDR * n \<le> p + HDR * k" by auto
  then show False using assms(2) by auto
qed

lemma malloc_ok:
  assumes ok: "heap_ok h F" and n: "nbytes + 2 * HDR < 2 ^ 31" and g: "grow_law grow"
  defines "nu \<equiv> (nbytes + HDR - 1) div HDR + 1"
  shows "\<exists>r h' F'. malloc grow nbytes h = Some (r, h') \<and> heap_ok h' F' \<and> base h' = base h \<and>
      (if r = 0 then F' = F \<and> brk h' = brk h \<and> (\<forall>y. y \<noteq> base h \<longrightarrow> h_size h' y = h_size h y)
         \<and> (\<nexists>a. {a..<a + HDR * nu} \<subseteq> F) \<and> grow (HDR * max nu 4096) (brk h) = None
       else h_size h' (r - HDR) = nu \<and> base h + 2 * HDR \<le> r \<and> bytes_of (r - HDR, nu) \<inter> F' = {}
         \<and> F' \<union> bytes_of (r - HDR, nu) = F \<union> {brk h..<brk h'}
         \<and> (\<forall>y. y \<notin> F \<union> {brk h..<brk h'} \<and> y \<noteq> base h \<longrightarrow> h_size h' y = h_size h y))"
proof -
  let ?h = "started h"
  have nu: "HDR * nu < 2 ^ 31" "0 < nu" "(nbytes + HDR - 1) mod 2 ^ 32 div HDR + 1 = nu" using n by (auto simp: nu_def)
  have m: "malloc grow nbytes h = malloc_loop grow nu (freep ?h) (h_ptr ?h (freep ?h)) ?h" unfolding malloc_def nu(3) started_def Let_def ..
  obtain zs where b: "blocks ?h zs" and F: "F = free_bytes zs" using heap_blocks [OF ok] by blast
  show ?thesis using malloc_loop_ok [OF b nu(2,1) g]
  proof (elim disjE exE)
    assume "(\<forall>(y, s)\<in>set zs. s < nu) \<and> grow (HDR * max nu 4096) (brk ?h) = None \<and> malloc_loop grow nu (freep ?h) (h_ptr ?h (freep ?h)) ?h = Some (0, ?h)"
    then show ?thesis using too_small [OF b _ nu(2)] b F unfolding m by (intro exI [of _ 0] exI [of _ ?h] exI [of _ F]) (auto simp: heap_ok_def)
  next
    fix bp h' zs'
    assume "malloc_loop grow nu (freep ?h) (h_ptr ?h (freep ?h)) ?h = Some (bp + HDR, h') \<and> blocks h' zs' \<and> h_size h' bp = nu \<and> base h' = base ?h \<and> base ?h + HDR \<le> bp
      \<and> bytes_of (bp, nu) \<inter> free_bytes zs' = {} \<and> free_bytes zs' \<union> bytes_of (bp, nu) = free_bytes zs \<union> {brk ?h..<brk h'}
      \<and> (\<forall>y. y \<notin> free_bytes zs \<union> {brk ?h..<brk h'} \<and> y \<noteq> base ?h \<longrightarrow> h_size h' y = h_size ?h y)"
    then show ?thesis using F unfolding m
      by (intro exI [of _ "bp + HDR"] exI [of _ h'] exI [of _ "free_bytes zs'"]) (auto simp: heap_ok_def)
  qed
qed

lemma free_heap_ok:
  assumes ok: "heap_ok h F" and bp: "freep h \<noteq> 0 \<and> base h + HDR \<le> bp \<and> 0 < h_size h bp \<and> bp + HDR * h_size h bp \<le> brk h \<and> bytes_of (bp, h_size h bp) \<inter> F = {}"
  shows "\<exists>h'. free (bp + HDR) h = Some h' \<and> heap_ok h' (F \<union> bytes_of (bp, h_size h bp)) \<and> base h' = base h \<and> brk h' = brk h
    \<and> (\<forall>y. y \<notin> F \<and> y \<noteq> base h \<and> y \<noteq> bp \<longrightarrow> h_size h' y = h_size h y)"
proof -
  obtain zs where b: "blocks h zs" and F: "F = free_bytes zs" using heap_blocks [OF ok] bp by blast
  have c: "base h + HDR \<le> bp" "0 < h_size h bp" "bp + HDR * h_size h bp \<le> brk h" "bytes_of (bp, h_size h bp) \<inter> free_bytes zs = {}"
    using bp F by auto
  obtain h' zs' where "free (bp + HDR) h = Some h'" "blocks h' zs'" "free_bytes zs' = free_bytes zs \<union> bytes_of (bp, h_size h bp)"
      "base h' = base h" "brk h' = brk h" "\<forall>y. y \<notin> fst ` set zs \<and> y \<noteq> bp \<longrightarrow> h_size h' y = h_size h y"
    using free_ok [OF b c] by blast
  then show ?thesis using free_header [OF b] F by (intro exI [of _ h']) (auto simp: heap_ok_def)
qed

text \<open>
  C38. The allocator of user programs. \<open>malloc\<close> always returns. A block that it hands out has room for the
  bytes asked for and its header and not a unit more, it consists of bytes that were free, or that
  the process has just got from \<open>sbrk\<close>, and they are no longer free; the headers of the other blocks
  in use are unchanged. It returns null only when no free interval is large enough and the process
  cannot grow, and then nothing has changed. \<open>free\<close> of a block in use always returns, adds exactly its
  bytes to the free ones and changes no header of another block in use.\<close>

theorem malloc_free_correct:
  assumes ok: "heap_ok h F" and n: "nbytes + 2 * HDR < 2 ^ 31" and g: "grow_law grow"
  defines "nu \<equiv> (nbytes + HDR - 1) div HDR + 1"
  shows "nbytes + HDR \<le> HDR * nu \<and> HDR * nu < nbytes + 2 * HDR \<and>
    (\<exists>r h' F'. malloc grow nbytes h = Some (r, h') \<and> heap_ok h' F' \<and> base h' = base h \<and>
      (if r = 0 then F' = F \<and> brk h' = brk h \<and> (\<forall>y. y \<noteq> base h \<longrightarrow> h_size h' y = h_size h y)
         \<and> (\<nexists>a. {a..<a + HDR * nu} \<subseteq> F) \<and> grow (HDR * max nu 4096) (brk h) = None
       else h_size h' (r - HDR) = nu \<and> base h + 2 * HDR \<le> r \<and> bytes_of (r - HDR, nu) \<inter> F' = {}
         \<and> F' \<union> bytes_of (r - HDR, nu) = F \<union> {brk h..<brk h'}
         \<and> (\<forall>y. y \<notin> F \<union> {brk h..<brk h'} \<and> y \<noteq> base h \<longrightarrow> h_size h' y = h_size h y))) \<and>
    (\<forall>bp. freep h \<noteq> 0 \<and> base h + HDR \<le> bp \<and> 0 < h_size h bp \<and> bp + HDR * h_size h bp \<le> brk h \<and> bytes_of (bp, h_size h bp) \<inter> F = {} \<longrightarrow>
      (\<exists>h'. free (bp + HDR) h = Some h' \<and> heap_ok h' (F \<union> bytes_of (bp, h_size h bp)) \<and> base h' = base h \<and> brk h' = brk h
         \<and> (\<forall>y. y \<notin> F \<and> y \<noteq> base h \<and> y \<noteq> bp \<longrightarrow> h_size h' y = h_size h y)))"
proof -
  have "nbytes + HDR \<le> HDR * nu" "HDR * nu < nbytes + 2 * HDR" by (simp_all add: nu_def)
  then show ?thesis using malloc_ok [OF ok n g] free_heap_ok [OF ok] unfolding nu_def by blast
qed

text \<open>A fresh process of one page that may grow up to the kernel.\<close>

definition heap_demo :: uheap where
  "heap_demo = \<lparr>h_ptr = (\<lambda>_. 0), h_size = (\<lambda>_. 0), freep = 0, base = 3000, brk = 4096\<rparr>"

definition grow_demo :: "nat \<Rightarrow> nat \<Rightarrow> nat option" where
  "grow_demo n sz = (if sz + n \<le> 2 ^ 31 then Some (sz + n) else None)"

theorem malloc_free_correct_witness:
  "\<exists>r h'. malloc grow_demo 10 heap_demo = Some (r, h') \<and> r \<noteq> 0 \<and> h_size h' (r - HDR) = 3 \<and> base h' = 3000"
proof -
  have h: "heap_ok heap_demo {}" by (simp add: heap_ok_def heap_demo_def)
  have g: "grow_law grow_demo" by (auto simp: grow_demo_def)
  have "grow_demo (HDR * max 3 4096) (brk heap_demo) \<noteq> None" by (simp add: grow_demo_def heap_demo_def)
  moreover have "base heap_demo = 3000" by (simp add: heap_demo_def)
  moreover have "((10 :: nat) + HDR - 1) div HDR + 1 = 3" "(10 :: nat) + 2 * HDR < 2 ^ 31" by simp_all
  ultimately show ?thesis using malloc_free_correct [OF h _ g, of 10] by (metis (no_types, lifting))
qed

end
